(* ===== verification/Prelude.thy ===== *)
theory Prelude
  imports Main
begin

text \<open>
  Shared ground of the development: Python strings as lists of code points, JSON-shaped
  values (what \<open>dict\<close>, \<open>list\<close> and the scalar types of the gateway's message model are),
  the dictionary operations of the source with insertion order kept, \<open>json.dumps\<close>, and the
  generic lemmas on lists, dictionaries and options that the components share.
\<close>

section \<open>Collections of hints\<close>

named_theorems frame_simps \<open>what an operation leaves unchanged\<close>
named_theorems inv_intros \<open>invariant preservation, one rule per operation\<close>

section \<open>Python strings\<close>

text \<open>
  A Python \<open>str\<close> is a sequence of Unicode code points; \<open>len\<close> counts code points and slicing
  works on them. Literals of the source that are ASCII are written \<open>lit ''...''\<close>.
\<close>

type_synonym ustr = "int list"

definition lit :: "string \<Rightarrow> ustr" where
  "lit s = map of_char s"

lemma lit_eq_iff [simp]: "lit a = lit b \<longleftrightarrow> a = b"
  by (simp add: lit_def inj_map_eq_map inj_of_char)

lemma length_lit [simp]: "length (lit s) = length s"
  by (simp add: lit_def)

lemma lit_Nil [simp]: "lit [] = []"
  by (simp add: lit_def)

lemma lit_eq_Nil [simp]: "lit s = [] \<longleftrightarrow> s = []" "[] = lit s \<longleftrightarrow> s = []"
  by (auto simp: lit_def)

text \<open>The code points \<open>str.strip()\<close> removes (\<open>str.isspace\<close>).\<close>

definition is_space :: "int \<Rightarrow> bool" where
  "is_space c \<longleftrightarrow> (9 \<le> c \<and> c \<le> 13) \<or> (28 \<le> c \<and> c \<le> 32) \<or> c = 133 \<or> c = 160 \<or> c = 5760
     \<or> (8192 \<le> c \<and> c \<le> 8202) \<or> c = 8232 \<or> c = 8233 \<or> c = 8239 \<or> c = 8287 \<or> c = 12288"

definition lstrip :: "ustr \<Rightarrow> ustr" where
  "lstrip s = dropWhile is_space s"

definition strip :: "ustr \<Rightarrow> ustr" where
  "strip s = rev (lstrip (rev (lstrip s)))"

lemma length_dropWhile_le': "length (dropWhile P xs) \<le> length xs"
  by (induction xs) auto

lemma length_strip_le: "length (strip s) \<le> length s"
  unfolding strip_def lstrip_def
  by (metis length_dropWhile_le' length_rev order_trans)

text \<open>
  \<open>str.lower\<close>, exact for every character whose lower-case form has an ASCII character in it:
  the ASCII capitals, U+0130 and the Kelvin sign. Other characters are kept, which no ASCII
  comparison can tell apart.
\<close>

definition lower_char :: "int \<Rightarrow> ustr" where
  "lower_char c = (if 65 \<le> c \<and> c \<le> 90 then [c + 32]
     else if c = 304 then [105, 775]
     else if c = 8490 then [107]
     else [c])"

definition lower :: "ustr \<Rightarrow> ustr" where
  "lower s = concat (map lower_char s)"

fun is_prefix :: "ustr \<Rightarrow> ustr \<Rightarrow> bool" where
  "is_prefix [] s = True"
| "is_prefix (p # ps) [] = False"
| "is_prefix (p # ps) (c # cs) = (p = c \<and> is_prefix ps cs)"

fun contains :: "ustr \<Rightarrow> ustr \<Rightarrow> bool" where
  "contains needle [] = (needle = [])"
| "contains needle (c # cs) = (is_prefix needle (c # cs) \<or> contains needle cs)"

fun join :: "ustr \<Rightarrow> ustr list \<Rightarrow> ustr" where
  "join sep [] = []"
| "join sep [x] = x"
| "join sep (x # y # zs) = x @ sep @ join sep (y # zs)"

text \<open>\<open>s.split(c)\<close> for one character.\<close>

fun split_on :: "int \<Rightarrow> ustr \<Rightarrow> ustr list" where
  "split_on x [] = [[]]"
| "split_on x (c # cs) = (if c = x then [] # split_on x cs
     else (case split_on x cs of [] \<Rightarrow> [[c]] | w # ws \<Rightarrow> (c # w) # ws))"

text \<open>\<open>str.splitlines\<close>.\<close>

definition line_break :: "int \<Rightarrow> bool" where
  "line_break c \<longleftrightarrow> c \<in> {10, 11, 12, 13, 28, 29, 30, 133, 8232, 8233}"

function splitlines_from :: "ustr \<Rightarrow> bool \<Rightarrow> ustr \<Rightarrow> ustr list" where
  "splitlines_from l started [] = (if started then [l] else [])"
| "splitlines_from l started (c # cs) =
     (if c = 13 then l # splitlines_from [] False (if cs \<noteq> [] \<and> hd cs = 10 then tl cs else cs)
      else if line_break c then l # splitlines_from [] False cs
      else splitlines_from (l @ [c]) True cs)"
  by pat_completeness auto

termination
  by (relation "measure (\<lambda>(l, started, s). length s)") auto

text \<open>Decimal rendering, \<open>str(n)\<close>.\<close>

fun dec_nat :: "nat \<Rightarrow> ustr" where
  "dec_nat n = (if n < 10 then [48 + int n] else dec_nat (n div 10) @ [48 + int (n mod 10)])"

declare dec_nat.simps [simp del]

definition dec :: "int \<Rightarrow> ustr" where
  "dec i = (if i < 0 then 45 # dec_nat (nat (- i)) else dec_nat (nat i))"

text \<open>Decimal texts of different counts differ.\<close>

lemma dec_nat_not_Nil [simp]: "dec_nat n \<noteq> []" "[] \<noteq> dec_nat n"
  by (simp_all add: dec_nat.simps [of n])

lemma dec_nat_inject: "dec_nat m = dec_nat n \<Longrightarrow> m = n"
proof (induction m arbitrary: n rule: less_induct)
  case (less m)
  consider "m < 10" "n < 10" | "m < 10" "10 \<le> n" | "10 \<le> m" "n < 10" | "10 \<le> m" "10 \<le> n" by linarith
  then show ?case
  proof cases
    case 1
    then show ?thesis using less.prems by (simp add: dec_nat.simps [of m] dec_nat.simps [of n])
  next
    case 4
    then have "dec_nat (m div 10) @ [48 + int (m mod 10)] = dec_nat (n div 10) @ [48 + int (n mod 10)]"
      using less.prems by (simp add: dec_nat.simps [of m] dec_nat.simps [of n])
    then have "m div 10 = n div 10" "m mod 10 = n mod 10" using less.IH [of "m div 10"] 4 by auto
    then show ?thesis by (metis div_mult_mod_eq)
  qed (use less.prems in \<open>auto simp: dec_nat.simps [of m] dec_nat.simps [of n]\<close>)
qed

lemma dec_nat_digits: "c \<in> set (dec_nat n) \<Longrightarrow> 48 \<le> c \<and> c \<le> 57"
proof (induction n rule: less_induct)
  case (less n)
  then show ?case using less.IH [of "n div 10"] by (cases "n < 10") (auto simp: dec_nat.simps [of n])
qed

section \<open>JSON-shaped values\<close>

text \<open>
  A float is carried by the text \<open>json.dumps\<close> writes for it; nothing modelled here computes
  with a float that sits inside a message.
\<close>

datatype json =
    JNull
  | JBool bool
  | JInt int
  | JFloat ustr
  | JStr ustr
  | JList "json list"
  | JObj "(ustr \<times> json) list"

type_synonym pydict = "(ustr \<times> json) list"

text \<open>Python truthiness, and \<open>a or b\<close>.\<close>

fun truthy :: "json \<Rightarrow> bool" where
  "truthy JNull = False"
| "truthy (JBool b) = b"
| "truthy (JInt i) = (i \<noteq> 0)"
| "truthy (JFloat r) = (r \<noteq> lit ''0.0'' \<and> r \<noteq> lit ''-0.0'')"
| "truthy (JStr s) = (s \<noteq> [])"
| "truthy (JList xs) = (xs \<noteq> [])"
| "truthy (JObj d) = (d \<noteq> [])"

definition py_or :: "json \<Rightarrow> json \<Rightarrow> json" where
  "py_or a b = (if truthy a then a else b)"

fun is_str :: "json \<Rightarrow> bool" where
  "is_str (JStr s) = True"
| "is_str _ = False"

text \<open>\<open>str(v)\<close>; \<open>repr\<close> is the text of a value that is no string, integer or boolean.\<close>

fun py_str :: "(json \<Rightarrow> ustr) \<Rightarrow> json \<Rightarrow> ustr" where
  "py_str repr (JStr s) = s"
| "py_str repr (JInt i) = dec i"
| "py_str repr (JBool b) = (if b then lit ''True'' else lit ''False'')"
| "py_str repr v = repr v"

section \<open>Dictionaries\<close>

text \<open>
  A \<open>dict\<close> is an association list in insertion order, keys distinct. Assigning to a key that is
  there keeps its position; a new key goes to the end.
\<close>

definition dget :: "pydict \<Rightarrow> ustr \<Rightarrow> json" where
  "dget d k = (case map_of d k of Some v \<Rightarrow> v | None \<Rightarrow> JNull)"

definition dget_or :: "pydict \<Rightarrow> ustr \<Rightarrow> json \<Rightarrow> json" where
  "dget_or d k dflt = (case map_of d k of Some v \<Rightarrow> v | None \<Rightarrow> dflt)"

definition dhas :: "('k \<times> 'v) list \<Rightarrow> 'k \<Rightarrow> bool" where
  "dhas d k \<longleftrightarrow> k \<in> fst ` set d"

fun dset :: "'k \<Rightarrow> 'v \<Rightarrow> ('k \<times> 'v) list \<Rightarrow> ('k \<times> 'v) list" where
  "dset k v [] = [(k, v)]"
| "dset k v ((k', v') # d) = (if k = k' then (k, v) # d else (k', v') # dset k v d)"

definition ddel :: "'k \<Rightarrow> ('k \<times> 'v) list \<Rightarrow> ('k \<times> 'v) list" where
  "ddel k d = filter (\<lambda>(k', v). k' \<noteq> k) d"

lemma map_of_dset: "map_of (dset k v d) = (map_of d)(k \<mapsto> v)"
  by (induction d) (auto simp: fun_eq_iff)

lemma map_of_dset_same [simp]: "map_of (dset k v d) k = Some v"
  by (simp add: map_of_dset)

lemma map_of_dset_other [simp]: "k' \<noteq> k \<Longrightarrow> map_of (dset k v d) k' = map_of d k'"
  by (simp add: map_of_dset)

lemma ddel_dset [simp]: "ddel k (dset k v d) = ddel k d"
  unfolding ddel_def by (induction d) auto

lemma map_of_ddel: "map_of (ddel k d) = (map_of d)(k := None)"
  by (induction d) (auto simp: ddel_def fun_eq_iff)

lemma dget_dset_same [simp]: "dget (dset k v d) k = v"
  by (simp add: dget_def)

lemma dget_dset_other [simp]: "k' \<noteq> k \<Longrightarrow> dget (dset k v d) k' = dget d k'"
  by (simp add: dget_def)

lemma dget_ddel_other [simp]: "k' \<noteq> k \<Longrightarrow> dget (ddel k d) k' = dget d k'"
  by (simp add: dget_def map_of_ddel)

lemma dget_ddel_same [simp]: "dget (ddel k d) k = JNull"
  by (simp add: dget_def map_of_ddel)

lemma set_dset_subset: "set (dset k v d) \<subseteq> insert (k, v) (set d)"
  by (induction d) (auto split: if_splits)

lemma keys_dset: "fst ` set (dset k v d) = insert k (fst ` set d)"
proof (induction d)
  case (Cons p d)
  then show ?case by (cases p) (auto simp: insert_commute)
qed simp

lemma dhas_dset [simp]: "dhas (dset k v d) k' \<longleftrightarrow> k' = k \<or> dhas d k'"
  by (auto simp: dhas_def keys_dset)

lemma distinct_keys_dset: "distinct (map fst d) \<Longrightarrow> distinct (map fst (dset k v d))"
proof (induction d)
  case (Cons a d)
  then show ?case using keys_dset [of k v d] by (cases a) (auto simp: image_iff)
qed simp

lemma distinct_keys_ddel: "distinct (map fst d) \<Longrightarrow> distinct (map fst (ddel k d))"
  unfolding ddel_def by (induction d) auto

lemma dset_eq_self: "map_of d k = Some v \<Longrightarrow> dset k v d = d"
  by (induction d) (auto split: if_splits)

text \<open>Message roles: \<open>m.get("role") == "..."\<close>.\<close>

definition role_is :: "pydict \<Rightarrow> string \<Rightarrow> bool" where
  "role_is m r \<longleftrightarrow> dget m (lit ''role'') = JStr (lit r)"

lemma role_is_dset_other [simp]:
  "k \<noteq> lit ''role'' \<Longrightarrow> role_is (dset k v m) r = role_is m r"
  by (simp add: role_is_def)

lemma role_is_unique: "role_is m r \<Longrightarrow> role_is m r' \<Longrightarrow> r = r'"
  by (simp add: role_is_def)

section \<open>json.dumps\<close>

definition hexdigit :: "int \<Rightarrow> int" where
  "hexdigit n = (if n < 10 then 48 + n else 87 + n)"

definition u_escape :: "int \<Rightarrow> ustr" where
  "u_escape c = lit [CHR 0x5C, CHR ''u''] @
     [hexdigit (c div 4096 mod 16), hexdigit (c div 256 mod 16),
      hexdigit (c div 16 mod 16), hexdigit (c mod 16)]"

definition escape_char :: "bool \<Rightarrow> int \<Rightarrow> ustr" where
  "escape_char ascii c =
     (if c = 34 then [92, 34]
      else if c = 92 then [92, 92]
      else if c = 10 then [92, 110]
      else if c = 13 then [92, 114]
      else if c = 9 then [92, 116]
      else if c = 8 then [92, 98]
      else if c = 12 then [92, 102]
      else if c < 32 then u_escape c
      else if c \<le> 126 \<or> \<not> ascii then [c]
      else if c < 65536 then u_escape c
      else u_escape (55296 + (c - 65536) div 1024) @ u_escape (56320 + (c - 65536) mod 1024))"

definition dumps_str :: "bool \<Rightarrow> ustr \<Rightarrow> ustr" where
  "dumps_str ascii s = [34] @ concat (map (escape_char ascii) s) @ [34]"

text \<open>\<open>dumps True\<close> is \<open>json.dumps(v)\<close>, \<open>dumps False\<close> passes \<open>ensure_ascii=False\<close>.\<close>

fun dumps :: "bool \<Rightarrow> json \<Rightarrow> ustr" where
  "dumps a JNull = lit ''null''"
| "dumps a (JBool b) = (if b then lit ''true'' else lit ''false'')"
| "dumps a (JInt i) = dec i"
| "dumps a (JFloat r) = r"
| "dumps a (JStr s) = dumps_str a s"
| "dumps a (JList xs) = lit ''['' @ join (lit '', '') (map (dumps a) xs) @ lit '']''"
| "dumps a (JObj d) = lit ''{'' @
     join (lit '', '') (map (\<lambda>(k, v). dumps_str a k @ lit '': '' @ dumps a v) d) @ lit ''}''"

text \<open>Strings compare by code points; \<open>sort_keys=True\<close> orders every object's keys so.\<close>

fun ustr_le :: "ustr \<Rightarrow> ustr \<Rightarrow> bool" where
  "ustr_le [] t = True"
| "ustr_le (a # s) [] = False"
| "ustr_le (a # s) (b # t) = (a < b \<or> (a = b \<and> ustr_le s t))"

fun insert_by_key :: "ustr \<times> 'v \<Rightarrow> (ustr \<times> 'v) list \<Rightarrow> (ustr \<times> 'v) list" where
  "insert_by_key p [] = [p]"
| "insert_by_key p (q # qs) =
     (if ustr_le (fst p) (fst q) then p # q # qs else q # insert_by_key p qs)"

definition sort_by_key :: "(ustr \<times> 'v) list \<Rightarrow> (ustr \<times> 'v) list" where
  "sort_by_key d = foldr insert_by_key d []"

fun sort_keys :: "json \<Rightarrow> json" where
  "sort_keys (JObj d) = JObj (sort_by_key (map (\<lambda>(k, v). (k, sort_keys v)) d))"
| "sort_keys (JList xs) = JList (map sort_keys xs)"
| "sort_keys v = v"

lemma set_insert_by_key [simp]: "set (insert_by_key p qs) = insert p (set qs)"
  by (induction qs) auto

lemma set_sort_by_key [simp]: "set (sort_by_key d) = set d"
  unfolding sort_by_key_def by (induction d) auto

lemma map_of_insert_by_key:
  "k \<notin> fst ` set d \<Longrightarrow> map_of (insert_by_key (k, v) d) = (map_of d)(k \<mapsto> v)"
  by (induction d) (auto simp: fun_eq_iff)

lemma map_of_sort_by_key: "distinct (map fst d) \<Longrightarrow> map_of (sort_by_key d) = map_of d"
proof (induction d)
  case (Cons p d)
  have "fst ` set (sort_by_key d) = fst ` set d" by simp
  then show ?case using Cons map_of_insert_by_key [of "fst p" "sort_by_key d" "snd p"]
    by (cases p) (simp add: sort_by_key_def)
qed (simp add: sort_by_key_def)

section \<open>Lists\<close>

text \<open>\<open>xs[-n:]\<close> and \<open>xs[:-n]\<close> for \<open>n > 0\<close>.\<close>

definition last_n :: "nat \<Rightarrow> 'a list \<Rightarrow> 'a list" where
  "last_n n xs = drop (length xs - n) xs"

definition but_last_n :: "nat \<Rightarrow> 'a list \<Rightarrow> 'a list" where
  "but_last_n n xs = take (length xs - n) xs"

lemma but_last_n_last_n [simp]: "but_last_n n xs @ last_n n xs = xs"
  by (simp add: but_last_n_def last_n_def)

lemma length_last_n [simp]: "length (last_n n xs) = min n (length xs)"
  by (auto simp: last_n_def)

lemma length_but_last_n [simp]: "length (but_last_n n xs) = length xs - n"
  by (simp add: but_last_n_def)

lemma set_last_n_subset: "set (last_n n xs) \<subseteq> set xs"
  by (simp add: last_n_def set_drop_subset)

lemma last_n_all: "length xs \<le> n \<Longrightarrow> last_n n xs = xs"
  by (simp add: last_n_def)

lemma last_n_append: "length ys \<le> n \<Longrightarrow> last_n n (xs @ ys) = last_n (n - length ys) xs @ ys"
  by (simp add: last_n_def)

lemma sum_list_concat_map: "sum_list (map f (concat xss)) = (\<Sum>xs\<leftarrow>xss. sum_list (map f xs))"
  for f :: "'a \<Rightarrow> 'b :: comm_monoid_add"
  by (induction xss) auto

lemma filter_compl_append_mset_length:
  "length (filter P xs) + length (filter (\<lambda>x. \<not> P x) xs) = length xs"
  by (induction xs) auto

section \<open>Doubles\<close>

text \<open>
  The few places that compute with positive floats use a pair of integers, numerator and
  positive denominator, rounded to the nearest 53-bit significand, ties to even (no overflow or
  underflow is in reach of the values involved).
\<close>

type_synonym rational = "int \<times> int"

fun bitlen :: "int \<Rightarrow> nat" where
  "bitlen n = (if n \<le> 0 then 0 else Suc (bitlen (n div 2)))"

declare bitlen.simps [simp del]

definition fl_scale :: "rational \<Rightarrow> int \<Rightarrow> rational" where
  "fl_scale q s = (fst q * 2 ^ nat s, snd q * 2 ^ nat (- s))"

definition fl :: "rational \<Rightarrow> rational" where
  "fl q = (if fst q = 0 then (0, 1) else
     let s0 = 53 - int (bitlen (fst q)) + int (bitlen (snd q));
         q0 = fl_scale q s0;
         s = (if fst q0 < 2 ^ 53 * snd q0 then s0 else s0 - 1);
         (n, d) = fl_scale q s;
         m = n div d; r = n mod d;
         m' = (if 2 * r > d \<or> (2 * r = d \<and> odd m) then m + 1 else m)
     in (m' * 2 ^ nat (- s), 2 ^ nat s))"

definition fl_mul :: "rational \<Rightarrow> rational \<Rightarrow> rational" where
  "fl_mul a b = fl (fst a * fst b, snd a * snd b)"

definition fl_div :: "rational \<Rightarrow> rational \<Rightarrow> rational" where
  "fl_div a b = fl (fst a * snd b, snd a * fst b)"

definition fl_less :: "rational \<Rightarrow> rational \<Rightarrow> bool" where
  "fl_less a b \<longleftrightarrow> fst a * snd b < fst b * snd a"

definition fl_ceil :: "rational \<Rightarrow> int" where
  "fl_ceil a = (fst a + snd a - 1) div snd a"

end
