(* ===== verification/Turns.thy ===== *)
theory Turns
  imports Prelude
begin

text \<open>
  Turns of a conversation (\<open>group_into_turns\<close> of \<open>invincible/core/trimming.py\<close>): a turn starts
  at a user message and is the unit the gateway drops, digests and stores. The second half is
  the contract every send-time stage keeps (compression, relay, trimming), the locale
  \<open>context_stage\<close>: system messages stay, and what else is sent is a suffix of whole turns, so
  that a tool result is never separated from the call it answers.
\<close>

section \<open>group_into_turns\<close>

abbreviation is_user :: "pydict \<Rightarrow> bool" where
  "is_user m \<equiv> role_is m ''user''"

abbreviation is_system :: "pydict \<Rightarrow> bool" where
  "is_system m \<equiv> role_is m ''system''"

text \<open>The loop, with its two local lists \<open>turns\<close> and \<open>current\<close>.\<close>

fun group_loop :: "pydict list \<Rightarrow> pydict list list \<Rightarrow> pydict list \<Rightarrow> pydict list list" where
  "group_loop [] turns current = (if current \<noteq> [] then turns @ [current] else turns)"
| "group_loop (m # ms) turns current =
     (if is_user m \<and> current \<noteq> [] then group_loop ms (turns @ [current]) [m]
      else group_loop ms turns (current @ [m]))"

definition group_into_turns :: "pydict list \<Rightarrow> pydict list list" where
  "group_into_turns messages = group_loop messages [] []"

text \<open>A turn: non-empty, and no user message after its head.\<close>

definition is_turn :: "pydict list \<Rightarrow> bool" where
  "is_turn t \<longleftrightarrow> t \<noteq> [] \<and> list_all (\<lambda>m. \<not> is_user m) (tl t)"

definition well_grouped :: "pydict list list \<Rightarrow> bool" where
  "well_grouped turns \<longleftrightarrow> list_all is_turn turns \<and> list_all (\<lambda>t. is_user (hd t)) (tl turns)"

lemma group_loop_turns: "group_loop ms turns current = turns @ group_loop ms [] current"
proof (induction ms arbitrary: turns current)
  case (Cons m ms)
  have "group_loop ms (turns @ [current]) [m] = turns @ group_loop ms [current] [m]"
    using Cons.IH [of "turns @ [current]" "[m]"] Cons.IH [of "[current]" "[m]"] by simp
  then show ?case using Cons.IH [of turns "current @ [m]"] by simp
qed simp

lemma group_loop_start:
  "group_loop ms [] (c # cs) =
     (case group_loop ms [] [] of
        [] \<Rightarrow> [c # cs]
      | t # ts \<Rightarrow> if is_user (hd t) then (c # cs) # t # ts else ((c # cs) @ t) # ts)"
proof (induction ms arbitrary: c cs)
  case (Cons m ms)
  have step: "group_loop ms [current] [m] = current # group_loop ms [] [m]" for current
    using group_loop_turns [of ms "[current]" "[m]"] by simp
  show ?case
    using Cons.IH [of c "cs @ [m]"] Cons.IH [of m "[]"]
    by (auto simp: step split: list.splits)
qed simp

lemma concat_group_loop: "concat (group_loop ms turns current) = concat turns @ current @ ms"
  by (induction ms arbitrary: turns current) auto

lemma concat_group_into_turns [simp]: "concat (group_into_turns ms) = ms"
  by (simp add: group_into_turns_def concat_group_loop)

lemma group_into_turns_Nil_iff [simp]: "group_into_turns ms = [] \<longleftrightarrow> ms = []"
  by (metis concat_group_into_turns concat.simps(1) group_into_turns_def group_loop.simps(1))

lemma group_into_turns_Nil' [simp]: "group_into_turns [] = []"
  by simp

lemma group_into_turns_Cons:
  "group_into_turns (m # ms) =
     (case group_into_turns ms of
        [] \<Rightarrow> [[m]]
      | t # ts \<Rightarrow> if is_user (hd t) then [m] # t # ts else (m # t) # ts)"
  using group_loop_start [of ms m "[]"] by (simp add: group_into_turns_def split: list.split)

lemma well_grouped_group_into_turns: "well_grouped (group_into_turns ms)"
proof (induction ms)
  case (Cons m ms)
  then show ?case
    by (cases "group_into_turns ms")
       (auto simp: group_into_turns_Cons well_grouped_def is_turn_def list_all_iff
         split: if_splits, (metis list.exhaust_sel list.set_intros set_ConsD)+)
qed (simp add: well_grouped_def)

text \<open>The grouping is the only one: turns in this shape are their own grouping.\<close>

lemma group_into_turns_append_turn:
  assumes "is_turn t" and "well_grouped ts" and "ts \<noteq> [] \<Longrightarrow> is_user (hd (hd ts))"
    and "group_into_turns (concat ts) = ts"
  shows "group_into_turns (t @ concat ts) = t # ts"
  using assms(1)
proof (induction t)
  case (Cons m t)
  show ?case
  proof (cases t)
    case Nil
    then show ?thesis using assms
      by (cases ts) (auto simp: group_into_turns_Cons)
  next
    case (Cons m' t')
    then have "is_turn t" "\<not> is_user m'" using Cons.prems by (auto simp: is_turn_def)
    then show ?thesis using Cons.IH Cons by (simp add: group_into_turns_Cons)
  qed
qed (simp add: is_turn_def)

lemma group_into_turns_unique: "well_grouped turns \<Longrightarrow> group_into_turns (concat turns) = turns"
proof (induction turns)
  case (Cons t ts)
  then have "is_turn t" "well_grouped ts" "ts \<noteq> [] \<Longrightarrow> is_user (hd (hd ts))"
    by (cases ts; auto simp: well_grouped_def)+
  then show ?case using Cons.IH group_into_turns_append_turn by simp
qed simp

lemma well_grouped_tl: "well_grouped ts \<Longrightarrow> well_grouped (tl ts)"
  by (cases ts; cases "tl ts") (auto simp: well_grouped_def)

lemma well_grouped_drop: "well_grouped ts \<Longrightarrow> well_grouped (drop k ts)"
proof (induction k arbitrary: ts)
  case (Suc k)
  then show ?case using well_grouped_tl by (simp add: drop_Suc)
qed simp

lemma well_grouped_last_n: "well_grouped ts \<Longrightarrow> well_grouped (last_n k ts)"
  by (simp add: last_n_def well_grouped_drop)

section \<open>Tool results and the calls they answer\<close>

text \<open>A message without its content: what compression may not touch.\<close>

definition envelope :: "pydict \<Rightarrow> pydict" where
  "envelope m = ddel (lit ''content'') m"

lemma dget_envelope [simp]: "k \<noteq> lit ''content'' \<Longrightarrow> dget (envelope m) k = dget m k"
  by (simp add: envelope_def)

lemma role_is_envelope [simp]: "role_is (envelope m) r = role_is m r"
  by (simp add: role_is_def)

lemma envelope_idem [simp]: "envelope (envelope m) = envelope m"
  by (simp add: envelope_def ddel_def)

lemma envelope_dset_content [simp]: "envelope (dset (lit ''content'') v m) = envelope m"
  unfolding envelope_def ddel_def by (induction m) auto

fun json_ids :: "json list \<Rightarrow> json list" where
  "json_ids [] = []"
| "json_ids (JObj c # cs) = dget c (lit ''id'') # json_ids cs"
| "json_ids (_ # cs) = json_ids cs"

definition call_ids :: "pydict \<Rightarrow> json list" where
  "call_ids m = (case dget m (lit ''tool_calls'') of JList cs \<Rightarrow> json_ids cs | _ \<Rightarrow> [])"

lemma call_ids_envelope [simp]: "call_ids (envelope m) = call_ids m"
  by (simp add: call_ids_def)

text \<open>
  \<open>tools_answered known ms\<close>: every tool message of \<open>ms\<close> answers a call of an earlier message, or
  one of \<open>known\<close>.
\<close>

fun tools_answered :: "json list \<Rightarrow> pydict list \<Rightarrow> bool" where
  "tools_answered known [] = True"
| "tools_answered known (m # ms) =
     ((role_is m ''tool'' \<longrightarrow> dget m (lit ''tool_call_id'') \<in> set known)
      \<and> tools_answered (call_ids m @ known) ms)"

lemma tools_answered_envelope: "tools_answered known (map envelope ms) = tools_answered known ms"
  by (induction ms arbitrary: known) simp_all

lemma tools_answered_mono:
  "tools_answered known ms \<Longrightarrow> set known \<subseteq> set known' \<Longrightarrow> tools_answered known' ms"
proof (induction ms arbitrary: known known')
  case (Cons m ms)
  have "set (call_ids m @ known) \<subseteq> set (call_ids m @ known')" using Cons.prems(2) by auto
  then show ?case using Cons by auto
qed simp

lemma tools_answered_append:
  "tools_answered known xs \<Longrightarrow> tools_answered [] ys \<Longrightarrow> tools_answered known (xs @ ys)"
  by (induction xs arbitrary: known) (auto intro: tools_answered_mono)

lemma tools_answered_concat:
  "list_all (tools_answered []) turns \<Longrightarrow> tools_answered [] (concat turns)"
  by (induction turns) (auto intro: tools_answered_append)

definition turns_closed :: "pydict list \<Rightarrow> bool" where
  "turns_closed ms \<longleftrightarrow>
     list_all (tools_answered []) (group_into_turns (filter (\<lambda>m. \<not> is_system m) ms))"

text \<open>Grouping does not look at contents.\<close>

lemma group_into_turns_envelope:
  "group_into_turns (map envelope ms) = map (map envelope) (group_into_turns ms)"
proof (induction ms)
  case (Cons m ms)
  show ?case
  proof (cases "group_into_turns ms")
    case Nil
    then show ?thesis using Cons by (simp add: group_into_turns_Cons)
  next
    case (Cons t ts)
    then have "t \<noteq> []"
      using well_grouped_group_into_turns [of ms] by (simp add: well_grouped_def is_turn_def)
    then have "is_user (hd (map envelope t)) = is_user (hd t)" by (simp add: hd_map)
    then show ?thesis using \<open>group_into_turns (map envelope ms) = _\<close> Cons
      by (simp add: group_into_turns_Cons)
  qed
qed simp

lemma list_all_answered_envelope:
  "list_all (tools_answered []) (map (map envelope) turns) = list_all (tools_answered []) turns"
  by (simp add: list_all_iff tools_answered_envelope)

section \<open>The contract of a send-time stage\<close>

locale context_stage =
  fixes stage :: "pydict list \<Rightarrow> pydict list"
  assumes keeps_systems:
      "\<exists>ds. map envelope (filter is_system (stage ms)) = map envelope (filter is_system ms) @ ds"
    and keeps_whole_turns:
      "\<exists>k. map envelope (filter (\<lambda>m. \<not> is_system m) (stage ms))
         = map envelope (concat (drop k (group_into_turns (filter (\<lambda>m. \<not> is_system m) ms))))"
begin

lemma stage_groups:
  "\<exists>k. map (map envelope) (group_into_turns (filter (\<lambda>m. \<not> is_system m) (stage ms)))
     = map (map envelope) (drop k (group_into_turns (filter (\<lambda>m. \<not> is_system m) ms)))"
proof -
  let ?g = "group_into_turns (filter (\<lambda>m. \<not> is_system m) ms)"
  obtain k where "map envelope (filter (\<lambda>m. \<not> is_system m) (stage ms))
      = map envelope (concat (drop k ?g))"
    using keeps_whole_turns by blast
  moreover have "group_into_turns (concat (drop k ?g)) = drop k ?g"
    by (intro group_into_turns_unique well_grouped_drop well_grouped_group_into_turns)
  ultimately show ?thesis by (metis group_into_turns_envelope)
qed

lemma stage_turns_closed: "turns_closed ms \<Longrightarrow> turns_closed (stage ms)"
proof -
  assume closed: "turns_closed ms"
  obtain k where k:
    "map (map envelope) (group_into_turns (filter (\<lambda>m. \<not> is_system m) (stage ms)))
     = map (map envelope) (drop k (group_into_turns (filter (\<lambda>m. \<not> is_system m) ms)))"
    using stage_groups by blast
  have "list_all (tools_answered []) (drop k (group_into_turns (filter (\<lambda>m. \<not> is_system m) ms)))"
    using closed by (auto simp: turns_closed_def list_all_iff dest: in_set_dropD)
  then show "turns_closed (stage ms)"
    unfolding turns_closed_def by (metis k list_all_answered_envelope)
qed

text \<open>What leaves the stage has no tool result without its call.\<close>

lemma stage_answered:
  "turns_closed ms \<Longrightarrow> tools_answered [] (filter (\<lambda>m. \<not> is_system m) (stage ms))"
  using stage_turns_closed [of ms] tools_answered_concat
  unfolding turns_closed_def by (metis concat_group_into_turns)

end

text \<open>Stages compose.\<close>

locale context_stages = first: context_stage stage1 + second: context_stage stage2
  for stage1 stage2 :: "pydict list \<Rightarrow> pydict list"

sublocale context_stages \<subseteq> both: context_stage "\<lambda>ms. stage2 (stage1 ms)"
proof
  fix ms
  show "\<exists>ds. map envelope (filter is_system (stage2 (stage1 ms)))
      = map envelope (filter is_system ms) @ ds"
    using first.keeps_systems [of ms] second.keeps_systems [of "stage1 ms"]
    by (metis append_assoc)
  let ?g = "\<lambda>xs. group_into_turns (filter (\<lambda>m. \<not> is_system m) xs)"
  obtain k where k: "map (map envelope) (?g (stage1 ms)) = map (map envelope) (drop k (?g ms))"
    using first.stage_groups by blast
  obtain j where j: "map envelope (filter (\<lambda>m. \<not> is_system m) (stage2 (stage1 ms)))
      = map envelope (concat (drop j (?g (stage1 ms))))"
    using second.keeps_whole_turns by blast
  also have "\<dots> = concat (drop j (map (map envelope) (?g (stage1 ms))))"
    by (simp add: map_concat drop_map)
  also have "\<dots> = map envelope (concat (drop (j + k) (?g ms)))"
    by (simp only: k) (simp add: map_concat drop_map add.commute)
  finally show "\<exists>k. map envelope (filter (\<lambda>m. \<not> is_system m) (stage2 (stage1 ms)))
      = map envelope (concat (drop k (?g ms)))" by blast
qed

section \<open>Property\<close>

text \<open>
  \<open>group_into_turns\<close> returns the one way to cut a conversation into turns: the turns
  concatenate to the conversation, every turn is non-empty with a user message at its head only,
  and every turn but the first starts with one. Any such cut is the one the code returns.
\<close>

lemma group_into_turns_characterized:
  "concat turns = ms \<and> well_grouped turns \<longleftrightarrow> group_into_turns ms = turns"
  using group_into_turns_unique well_grouped_group_into_turns by auto

end
