(* ===== verification/Vision.thy ===== *)
theory Vision
  imports Turns
begin

text \<open>
  Image parts (\<open>invincible/core/vision.py\<close>): the token estimate, which reads the PNG header from
  the base64 text and evaluates the tile formula in doubles, and the two send-time stages that
  take screenshots out of tool results before trimming and put them back after it. The JSON
  parser (\<open>json.loads\<close>) is an argument, \<open>None\<close> where it raises.
\<close>

definition b64_value :: "int \<Rightarrow> int option" where
  "b64_value c = (if 65 \<le> c \<and> c \<le> 90 then Some (c - 65)
     else if 97 \<le> c \<and> c \<le> 122 then Some (c - 71)
     else if 48 \<le> c \<and> c \<le> 57 then Some (c + 4)
     else if c = 43 then Some 62 else if c = 47 then Some 63 else None)"

text \<open>\<open>base64.b64decode(s, validate=True)\<close>, \<open>None\<close> where it raises.\<close>

fun b64decode :: "ustr \<Rightarrow> int list option" where
  "b64decode [] = Some []"
| "b64decode (a # b # c # d # rest) =
     (case (b64_value a, b64_value b) of
        (Some x, Some y) \<Rightarrow>
          if rest = [] \<and> c = 61 \<and> d = 61 then Some [4 * x + y div 16]
          else (case b64_value c of
              None \<Rightarrow> None
            | Some z \<Rightarrow>
                if rest = [] \<and> d = 61 then Some [4 * x + y div 16, 16 * (y mod 16) + z div 4]
                else (case (b64_value d, b64decode rest) of
                    (Some w, Some bs) \<Rightarrow>
                      Some ((4 * x + y div 16) # (16 * (y mod 16) + z div 4) # (64 * (z mod 4) + w) # bs)
                  | _ \<Rightarrow> None))
      | _ \<Rightarrow> None)"
| "b64decode _ = None"

definition png_signature :: "int list" where
  "png_signature = [137, 80, 78, 71, 13, 10, 26, 10]"

definition be32 :: "int list \<Rightarrow> int" where
  "be32 bs = foldl (\<lambda>acc b. 256 * acc + b) 0 bs"

definition png_dimensions :: "ustr \<Rightarrow> (int \<times> int) option" where
  "png_dimensions data_b64 =
     (if data_b64 = [] then None else
      (case b64decode data_b64 of
         None \<Rightarrow> None
       | Some raw \<Rightarrow>
           if length raw < 24 \<or> take 8 raw \<noteq> png_signature then None
           else let width = be32 (take 4 (drop 16 raw)); height = be32 (take 4 (drop 20 raw))
                in if width \<le> 0 \<or> height \<le> 0 then None else Some (width, height)))"

definition VISION_TOKEN_FALLBACK :: int where
  "VISION_TOKEN_FALLBACK = 1500"

text \<open>Fit inside 2048, then the shortest side to 768, then 512-pixel tiles.\<close>

definition image_tiles :: "int \<Rightarrow> int \<Rightarrow> int" where
  "image_tiles width height =
     (let w = (width, 1); h = (height, 1);
          q = fl_div (2048, 1) (if fl_less w h then h else w);
          scale = (if fl_less q (1, 1) then q else (1, 1));
          w1 = fl_mul w scale; h1 = fl_mul h scale;
          m = (if fl_less h1 w1 then h1 else w1);
          scale2 = (if 0 < fst m then fl_div (768, 1) m else (1, 1))
      in fl_ceil (fl_div (fl_mul w1 scale2) (512, 1))
         * fl_ceil (fl_div (fl_mul h1 scale2) (512, 1)))"

definition image_token_estimate :: "ustr \<Rightarrow> int" where
  "image_token_estimate data_b64 =
     (case png_dimensions data_b64 of
        None \<Rightarrow> VISION_TOKEN_FALLBACK
      | Some (width, height) \<Rightarrow> 85 + 170 * max (image_tiles width height) 1)"

text \<open>\<open>url.partition(",")\<close> keeps what follows the first comma.\<close>

definition after_comma :: "ustr \<Rightarrow> ustr" where
  "after_comma s = drop 1 (dropWhile (\<lambda>c. c \<noteq> 44) s)"

definition image_url_token_estimate :: "json \<Rightarrow> int" where
  "image_url_token_estimate url =
     (case url of
        JStr s \<Rightarrow> if is_prefix (lit ''data:'') s then image_token_estimate (after_comma s)
                  else VISION_TOKEN_FALLBACK
      | _ \<Rightarrow> VISION_TOKEN_FALLBACK)"

lemma image_token_estimate_ge: "255 \<le> image_token_estimate d"
proof (cases "png_dimensions d")
  case None
  then show ?thesis by (simp add: image_token_estimate_def VISION_TOKEN_FALLBACK_def)
next
  case (Some p)
  have "1 \<le> max t 1" for t :: int by simp
  then show ?thesis using Some
    by (cases p) (simp add: image_token_estimate_def max_def)
qed

lemma image_url_token_estimate_pos: "0 < image_url_token_estimate url"
proof -
  have "0 < image_token_estimate d" for d
    using image_token_estimate_ge [of d] by simp
  then show ?thesis
    by (cases url) (simp_all add: image_url_token_estimate_def VISION_TOKEN_FALLBACK_def)
qed

section \<open>Screenshots in tool results\<close>

definition VISION_MAX_IMAGES :: nat where
  "VISION_MAX_IMAGES = 4"

definition VISION_MAX_IMAGE_BYTES :: int where
  "VISION_MAX_IMAGE_BYTES = 512 * 1024"

record screenshot =
  shot_call_id :: ustr
  shot_mime :: ustr
  shot_data :: ustr
  shot_bytes :: int
  shot_url :: json

definition screenshot_candidate :: "(ustr \<Rightarrow> json option) \<Rightarrow> pydict \<Rightarrow> screenshot option" where
  "screenshot_candidate loads m =
     (if \<not> role_is m ''tool'' then None else
      case (dget m (lit ''tool_call_id''), dget m (lit ''content'')) of
        (JStr call_id, JStr content) \<Rightarrow>
          if call_id = [] then None else
          (case loads content of
             Some (JObj result) \<Rightarrow>
               if dget result (lit ''status'') \<noteq> JStr (lit ''screenshot'') then None
               else if dget result (lit ''mime'') \<noteq> JStr (lit ''image/png'') then None
               else (case (dget result (lit ''data_b64''), dget result (lit ''bytes'')) of
                   (JStr data, JInt nbytes) \<Rightarrow>
                     if data = [] \<or> nbytes \<le> 0 then None
                     else Some \<lparr>shot_call_id = call_id, shot_mime = lit ''image/png'',
                                shot_data = data, shot_bytes = nbytes,
                                shot_url = dget result (lit ''url'')\<rparr>
                 | _ \<Rightarrow> None)
           | _ \<Rightarrow> None)
      | _ \<Rightarrow> None)"

definition summary_text :: "screenshot \<Rightarrow> ustr \<Rightarrow> ustr" where
  "summary_text c note = dumps False (JObj (
     [(lit ''status'', JStr (lit ''screenshot'')), (lit ''mime'', JStr (shot_mime c)),
      (lit ''bytes'', JInt (shot_bytes c))]
     @ (case shot_url c of JStr u \<Rightarrow> if u \<noteq> [] then [(lit ''url'', JStr u)] else [] | _ \<Rightarrow> [])
     @ (if note \<noteq> [] then [(lit ''note'', JStr note)] else [])))"

definition over_bytes_note :: "int \<Rightarrow> ustr" where
  "over_bytes_note n = lit ''image omitted: '' @ dec n @ lit '' bytes over the ''
     @ dec VISION_MAX_IMAGE_BYTES @ lit ''-byte send cap''"

definition over_count_note :: ustr where
  "over_count_note = lit ''image omitted: over the '' @ dec (int VISION_MAX_IMAGES)
     @ lit ''-image per-request cap (newest kept)''"

text \<open>The call ids whose images may be sent: the newest four, each within the byte cap.\<close>

definition sendable_ids :: "(ustr \<Rightarrow> json option) \<Rightarrow> pydict list \<Rightarrow> ustr list" where
  "sendable_ids loads messages =
     (let found = List.map_filter (screenshot_candidate loads) messages
      in map shot_call_id
           (filter (\<lambda>c. shot_bytes c \<le> VISION_MAX_IMAGE_BYTES) (last_n VISION_MAX_IMAGES found)))"

definition extract_message :: "(ustr \<Rightarrow> json option) \<Rightarrow> ustr list \<Rightarrow> pydict \<Rightarrow> pydict" where
  "extract_message loads ids m = (case screenshot_candidate loads m of
       None \<Rightarrow> m
     | Some c \<Rightarrow>
         dset (lit ''content'') (JStr (summary_text c
           (if shot_call_id c \<in> set ids then []
            else if shot_bytes c > VISION_MAX_IMAGE_BYTES then over_bytes_note (shot_bytes c)
            else over_count_note))) m)"

type_synonym held = "(ustr \<times> screenshot) list"

fun hold_images :: "(ustr \<Rightarrow> json option) \<Rightarrow> ustr list \<Rightarrow> pydict list \<Rightarrow> held \<Rightarrow> held" where
  "hold_images loads ids [] acc = acc"
| "hold_images loads ids (m # ms) acc = hold_images loads ids ms
     (case screenshot_candidate loads m of
        Some c \<Rightarrow> if shot_call_id c \<in> set ids then dset (shot_call_id c) c acc else acc
      | None \<Rightarrow> acc)"

definition extract_images :: "(ustr \<Rightarrow> json option) \<Rightarrow> pydict list \<Rightarrow> pydict list \<times> held" where
  "extract_images loads messages =
     (let ids = sendable_ids loads messages
      in (map (extract_message loads ids) messages, hold_images loads ids messages []))"

text \<open>
  \<open>attach_images\<close>. A message whose \<open>tool_call_id\<close> is a list or an object cannot be looked up in a
  dictionary: Python raises \<open>TypeError\<close>, here \<open>None\<close>.
\<close>

definition attach_message :: "held \<Rightarrow> pydict \<Rightarrow> pydict" where
  "attach_message sendable m = (case dget m (lit ''tool_call_id'') of
       JStr call_id \<Rightarrow>
         (case map_of sendable call_id of
            None \<Rightarrow> m
          | Some img \<Rightarrow>
              let txt = (case dget m (lit ''content'') of JStr s \<Rightarrow> s | _ \<Rightarrow> []);
                  url = lit ''data:'' @ shot_mime img @ lit '';base64,'' @ shot_data img
              in dset (lit ''content'') (JList
                   [JObj [(lit ''type'', JStr (lit ''text'')), (lit ''text'', JStr txt)],
                    JObj [(lit ''type'', JStr (lit ''image_url'')),
                          (lit ''image_url'', JObj [(lit ''url'', JStr url)])]]) m)
     | _ \<Rightarrow> m)"

fun unhashable :: "json \<Rightarrow> bool" where
  "unhashable (JList _) = True"
| "unhashable (JObj _) = True"
| "unhashable _ = False"

definition attach_images :: "pydict list \<Rightarrow> held \<Rightarrow> bool \<Rightarrow> pydict list option" where
  "attach_images messages sendable capable =
     (if \<not> capable \<or> sendable = [] then Some messages
      else if list_ex (\<lambda>m. unhashable (dget m (lit ''tool_call_id''))) messages then None
      else Some (map (attach_message sendable) messages))"

section \<open>Both stages touch contents only\<close>

lemma envelope_extract_message [simp]: "envelope (extract_message loads ids m) = envelope m"
  by (simp add: extract_message_def split: option.split)

lemma envelope_attach_message [simp]: "envelope (attach_message sendable m) = envelope m"
  by (cases "dget m (lit ''tool_call_id'')")
     (simp_all add: attach_message_def Let_def split: option.split)

text \<open>A stage that maps the messages and keeps their envelopes is a send-time stage.\<close>

lemma envelope_stage:
  assumes "\<And>m. envelope (f m) = envelope m"
  shows "context_stage (map f)"
proof
  have role: "role_is (f m) r = role_is m r" for m r
    using assms by (metis role_is_envelope)
  have kept: "map envelope (filter P (map f ms)) = map envelope (filter P ms)"
    if "\<And>m. P (f m) = P m" for P ms
    by (induction ms) (simp_all add: that assms)
  fix ms
  show "\<exists>ds. map envelope (filter is_system (map f ms)) = map envelope (filter is_system ms) @ ds"
    by (simp add: kept role)
  show "\<exists>k. map envelope (filter (\<lambda>m. \<not> is_system m) (map f ms))
      = map envelope (concat (drop k (group_into_turns (filter (\<lambda>m. \<not> is_system m) ms))))"
    by (intro exI [of _ 0]) (simp add: kept role)
qed

lemma identity_stage: "context_stage (\<lambda>ms. ms)"
  using envelope_stage [of "\<lambda>m. m"] by simp

interpretation extract_stage: context_stage "\<lambda>ms. fst (extract_images loads ms)"
proof
  have stage: "context_stage (map (extract_message loads ids))" for ids
    by (rule envelope_stage) simp
  fix ms
  show "\<exists>ds. map envelope (filter is_system (fst (extract_images loads ms)))
      = map envelope (filter is_system ms) @ ds"
    using context_stage.keeps_systems [OF stage] by (simp add: extract_images_def Let_def)
  show "\<exists>k. map envelope (filter (\<lambda>m. \<not> is_system m) (fst (extract_images loads ms)))
      = map envelope (concat (drop k (group_into_turns (filter (\<lambda>m. \<not> is_system m) ms))))"
    using context_stage.keeps_whole_turns [OF stage] by (simp add: extract_images_def Let_def)
qed

text \<open>The image sent for a call is one of that call's own screenshots, within the cap.\<close>

lemma map_of_hold_images:
  "map_of (hold_images loads ids ms acc) i = Some c \<Longrightarrow>
   map_of acc i = Some c \<or> (i \<in> set ids \<and> shot_call_id c = i
     \<and> (\<exists>m \<in> set ms. screenshot_candidate loads m = Some c))"
proof (induction ms arbitrary: acc)
  case (Cons m ms)
  then show ?case
    by (cases "screenshot_candidate loads m")
       (fastforce dest!: Cons.IH simp: map_of_dset split: if_splits)+
qed simp

lemma length_sendable_ids: "length (sendable_ids loads ms) \<le> VISION_MAX_IMAGES"
  unfolding sendable_ids_def Let_def length_map
  by (rule order_trans [OF length_filter_le]) simp

lemma hold_images_keys:
  "distinct (map fst acc) \<Longrightarrow> fst ` set acc \<subseteq> set ids \<Longrightarrow>
   distinct (map fst (hold_images loads ids ms acc)) \<and> fst ` set (hold_images loads ids ms acc) \<subseteq> set ids"
proof (induction ms arbitrary: acc)
  case (Cons m ms)
  then show ?case
    by (auto simp: distinct_keys_dset keys_dset split: option.split)
qed simp

section \<open>Property\<close>

text \<open>
  At most four images of a conversation are held for sending, each under the id of the tool
  call that took it, and extraction changes nothing about a message but its content.
\<close>

lemma extract_images_bounded:
  "map envelope (fst (extract_images loads ms)) = map envelope ms
   \<and> length (snd (extract_images loads ms)) \<le> 4
   \<and> (case map_of (snd (extract_images loads ms)) i of
        Some c \<Rightarrow> shot_call_id c = i \<and> (\<exists>m. m \<in> set ms \<and> screenshot_candidate loads m = Some c)
      | None \<Rightarrow> True)"
proof -
  let ?ids = "sendable_ids loads ms"
  let ?held = "hold_images loads ?ids ms []"
  have "distinct (map fst ?held)" "set (map fst ?held) \<subseteq> set ?ids"
    using hold_images_keys [of "[]" ?ids loads ms] by auto
  then have "length ?held \<le> card (set ?ids)"
    by (metis card_mono distinct_card length_map List.finite_set)
  also have "\<dots> \<le> 4"
    using length_sendable_ids [of loads ms] card_length [of ?ids] by (simp add: VISION_MAX_IMAGES_def)
  finally have "length ?held \<le> 4" .
  moreover have "case map_of ?held i of
        Some c \<Rightarrow> shot_call_id c = i \<and> (\<exists>m. m \<in> set ms \<and> screenshot_candidate loads m = Some c)
      | None \<Rightarrow> True"
    using map_of_hold_images [of loads ?ids ms "[]" i] by (fastforce split: option.split)
  ultimately show ?thesis by (simp add: extract_images_def Let_def)
qed

end
