(* ===== verification/Trimming.thy ===== *)
theory Trimming
  imports Vision Turns
begin

text \<open>
  Context-budget helpers (\<open>invincible/core/trimming.py\<close>): the token estimate and the trimming
  that keeps the system messages and a suffix of whole turns inside the budget. Grouping into
  turns is in theory \<open>Turns\<close>.
\<close>

definition RESERVE_TOKENS :: int where
  "RESERVE_TOKENS = 1000"

definition DEFAULT_MAX_CONTEXT :: int where
  "DEFAULT_MAX_CONTEXT = 32000"

section \<open>estimate_tokens\<close>

fun estimate_part :: "json \<Rightarrow> int" where
  "estimate_part (JObj d) =
     (if dget d (lit ''type'') = JStr (lit ''image_url'') then
        (case dget d (lit ''image_url'') of
           JObj img \<Rightarrow> image_url_token_estimate (dget_or img (lit ''url'') (JStr []))
         | _ \<Rightarrow> image_url_token_estimate (JStr []))
      else max 1 (int (length (dumps True (JObj d))) div 4))"
| "estimate_part v = max 1 (int (length (dumps True v)) div 4)"

definition estimate_tokens :: "pydict \<Rightarrow> int" where
  "estimate_tokens m =
     (case dget m (lit ''content'') of
        JList parts \<Rightarrow>
          max 1 (sum_list (map estimate_part parts)
                 + int (length (dumps True (JObj (ddel (lit ''content'') m)))) div 4)
      | _ \<Rightarrow> max 1 (int (length (dumps True (JObj m))) div 4))"

lemma estimate_tokens_pos: "1 \<le> estimate_tokens m"
  by (cases "dget m (lit ''content'')") (simp_all add: estimate_tokens_def)

definition turn_tokens :: "pydict list \<Rightarrow> int" where
  "turn_tokens turn = sum_list (map estimate_tokens turn)"

lemma turn_tokens_nonneg: "0 \<le> turn_tokens turn"
  unfolding turn_tokens_def
  using estimate_tokens_pos by (fastforce intro: sum_list_nonneg order_trans [of 0 1])

lemma turn_tokens_append [simp]: "turn_tokens (xs @ ys) = turn_tokens xs + turn_tokens ys"
  by (simp add: turn_tokens_def)

lemma turn_tokens_concat: "turn_tokens (concat turns) = (\<Sum>t\<leftarrow>turns. turn_tokens t)"
  by (induction turns) (auto simp: turn_tokens_def)

section \<open>trim_messages\<close>

text \<open>
  The backwards walk over the older turns (given newest first): the first turn that does not
  fit stops it.
\<close>

fun keep_recent :: "int \<Rightarrow> int \<Rightarrow> pydict list list \<Rightarrow> pydict list list \<Rightarrow> pydict list list" where
  "keep_recent budget used [] kept = kept"
| "keep_recent budget used (turn # older) kept =
     (if used + turn_tokens turn > budget then kept
      else keep_recent budget (used + turn_tokens turn) older (turn # kept))"

definition trim_budget :: "pydict list \<Rightarrow> int \<Rightarrow> int \<Rightarrow> int" where
  "trim_budget messages max_context reserve =
     max (max_context - reserve - turn_tokens (filter is_system messages)) 0"

definition trim_messages :: "pydict list \<Rightarrow> int \<Rightarrow> int \<Rightarrow> pydict list" where
  "trim_messages messages max_context reserve_tokens =
     (let system_msgs = filter is_system messages;
          rest = filter (\<lambda>m. \<not> is_system m) messages;
          budget = trim_budget messages max_context reserve_tokens;
          turns = group_into_turns rest
      in if turns = [] then system_msgs
         else system_msgs @ concat (keep_recent budget (turn_tokens (last turns))
                                      (rev (butlast turns)) [last turns]))"

lemma keep_recent_suffix:
  "\<exists>k \<le> length older. keep_recent b u older kept = rev (take k older) @ kept"
proof (induction older arbitrary: u kept)
  case (Cons t older)
  from Cons.IH [of "u + turn_tokens t" "t # kept"] obtain k where
    k: "k \<le> length older"
      "keep_recent b (u + turn_tokens t) older (t # kept) = rev (take k older) @ t # kept"
    by blast
  show ?case
  proof (cases "u + turn_tokens t > b")
    case True
    then show ?thesis by (intro exI [of _ 0]) simp
  next
    case False
    then show ?thesis using k by (intro exI [of _ "Suc k"]) simp
  qed
qed simp

text \<open>What the walk keeps, exactly: the longest run of newest turns that fits.\<close>

lemma keep_recent_spec:
  assumes "keep_recent b u older kept = rev (take k older) @ kept" and "k \<le> length older"
  shows "(0 < k \<longrightarrow> u + turn_tokens (concat (take k older)) \<le> b)
       \<and> (k < length older \<longrightarrow> b < u + turn_tokens (concat (take (Suc k) older)))"
  using assms
proof (induction older arbitrary: u kept k)
  case (Cons t older)
  show ?case
  proof (cases "u + turn_tokens t > b")
    case True
    then have "k = 0" using Cons.prems by (cases k) auto
    then show ?thesis using True by simp
  next
    case False
    from keep_recent_suffix [of older b "u + turn_tokens t" "t # kept"]
    obtain j where j: "j \<le> length older"
      "keep_recent b (u + turn_tokens t) older (t # kept) = rev (take j older) @ t # kept"
      by blast
    have "k = Suc j"
    proof -
      have "rev (take k (t # older)) @ kept = rev (take j older) @ t # kept"
        using Cons.prems(1) j(2) False by (simp only: keep_recent.simps if_False)
      from arg_cong [OF this, of length] show ?thesis using Cons.prems(2) j(1) by simp
    qed
    moreover from Cons.IH [OF j(2) j(1)]
    have "(0 < j \<longrightarrow> u + turn_tokens t + turn_tokens (concat (take j older)) \<le> b) \<and>
      (j < length older \<longrightarrow> b < u + turn_tokens t + turn_tokens (concat (take (Suc j) older)))" .
    ultimately show ?thesis using False by (cases "j = 0") (simp_all add: add.assoc)
  qed
qed simp

text \<open>
  The result in terms of the turns: the system messages, then the newest \<open>k\<close> turns, at least
  one of them, as many as fit.
\<close>

lemma trim_messages_kept:
  fixes messages max_context reserve
  defines "turns \<equiv> group_into_turns (filter (\<lambda>m. \<not> is_system m) messages)"
  defines "b \<equiv> trim_budget messages max_context reserve"
  assumes "turns \<noteq> []"
  shows "\<exists>k. 1 \<le> k \<and> k \<le> length turns
    \<and> trim_messages messages max_context reserve
        = filter is_system messages @ concat (last_n k turns)
    \<and> (1 < k \<longrightarrow> turn_tokens (concat (last_n k turns)) \<le> b)
    \<and> (k < length turns \<longrightarrow> b < turn_tokens (concat (last_n (Suc k) turns)))"
proof -
  let ?old = "rev (butlast turns)" and ?u = "turn_tokens (last turns)"
  obtain j where j: "j \<le> length ?old"
    "keep_recent b ?u ?old [last turns] = rev (take j ?old) @ [last turns]"
    using keep_recent_suffix by blast
  have suffix: "rev (take i ?old) @ [last turns] = last_n (Suc i) turns" for i
  proof -
    have "last_n (Suc i) turns = last_n (Suc i) (butlast turns @ [last turns])"
      using assms(3) by simp
    also have "\<dots> = last_n i (butlast turns) @ [last turns]"
      by (subst last_n_append) simp_all
    finally show ?thesis by (simp add: last_n_def rev_take)
  qed
  have tokens: "turn_tokens (concat (last_n (Suc i) turns))
      = ?u + turn_tokens (concat (take i ?old))" for i
    by (simp add: suffix [symmetric] turn_tokens_concat sum_list_rev rev_map [symmetric])
  have eq: "trim_messages messages max_context reserve
      = filter is_system messages @ concat (last_n (Suc j) turns)"
    using assms(3) j(2) suffix [of j]
    by (simp add: trim_messages_def Let_def turns_def b_def)
  have len: "length turns = Suc (length ?old)" using assms(3) by (cases turns) simp_all
  have fits: "1 < Suc j \<longrightarrow> turn_tokens (concat (last_n (Suc j) turns)) \<le> b"
    and most: "Suc j < length turns \<longrightarrow> b < turn_tokens (concat (last_n (Suc (Suc j)) turns))"
    using keep_recent_spec [OF j(2) j(1)] by (simp_all only: tokens len) auto
  show ?thesis
    using j(1) len eq fits most by (intro exI [of _ "Suc j"]) linarith
qed

lemma trim_messages_no_turns:
  "filter (\<lambda>m. \<not> is_system m) messages = [] \<Longrightarrow>
   trim_messages messages max_context reserve = filter is_system messages"
  by (simp add: trim_messages_def)

section \<open>Trimming is a send-time stage\<close>

lemma filter_system_kept:
  assumes "list_all (\<lambda>m. \<not> is_system m) xs"
  shows "filter is_system (filter is_system ms @ xs) = filter is_system ms"
    and "filter (\<lambda>m. \<not> is_system m) (filter is_system ms @ xs) = xs"
  using assms by (simp_all add: list_all_iff)

lemma concat_last_n_not_system:
  "list_all (\<lambda>m. \<not> is_system m)
     (concat (last_n k (group_into_turns (filter (\<lambda>m. \<not> is_system m) ms))))"
proof -
  let ?ns = "filter (\<lambda>m. \<not> is_system m) ms"
  have "set (concat (last_n k (group_into_turns ?ns))) \<subseteq> set (concat (group_into_turns ?ns))"
    unfolding set_concat using set_last_n_subset by (intro UN_mono) simp_all
  then have "set (concat (last_n k (group_into_turns ?ns))) \<subseteq> set ?ns"
    by (simp only: concat_group_into_turns)
  then show ?thesis by (auto simp: list_all_iff simp del: set_concat dest: subsetD)
qed

interpretation trim_stage: context_stage "\<lambda>ms. trim_messages ms max_context reserve_tokens"
proof
  fix ms
  let ?ns = "filter (\<lambda>m. \<not> is_system m) ms"
  let ?turns = "group_into_turns ?ns"
  have "\<exists>k. trim_messages ms max_context reserve_tokens
      = filter is_system ms @ concat (last_n k ?turns)"
  proof (cases "?turns = []")
    case True
    then show ?thesis by (intro exI [of _ 0]) (simp add: trim_messages_def last_n_def)
  next
    case False
    then show ?thesis using trim_messages_kept by blast
  qed
  then obtain k where k: "trim_messages ms max_context reserve_tokens
      = filter is_system ms @ concat (last_n k ?turns)" ..
  note split = filter_system_kept [OF concat_last_n_not_system [of k ms], of ms]
  show "\<exists>ds. map envelope (filter is_system (trim_messages ms max_context reserve_tokens))
      = map envelope (filter is_system ms) @ ds"
    by (simp only: k split) simp
  show "\<exists>k. map envelope (filter (\<lambda>m. \<not> is_system m) (trim_messages ms max_context reserve_tokens))
      = map envelope (concat (drop k ?turns))"
    by (simp only: k split) (auto simp: last_n_def)
qed

section \<open>Properties\<close>

text \<open>
  Trimming keeps every system message and then the newest whole turns. The newest turn is
  always kept; further turns are kept exactly as long as they fit the budget, so one more turn
  would not have fitted.
\<close>

lemma trim_keeps_newest_turns:
  fixes messages :: "pydict list" and max_context reserve :: int
  defines "turns \<equiv> group_into_turns (filter (\<lambda>m. \<not> is_system m) messages)"
  assumes "turns \<noteq> []"
  shows "\<exists>k. 1 \<le> k \<and> k \<le> length turns
    \<and> trim_messages messages max_context reserve = filter is_system messages @ concat (last_n k turns)
    \<and> (1 < k \<longrightarrow> turn_tokens (concat (last_n k turns)) \<le> trim_budget messages max_context reserve)
    \<and> (k < length turns \<longrightarrow>
        trim_budget messages max_context reserve < turn_tokens (concat (last_n (Suc k) turns)))"
  using trim_messages_kept assms by blast

abbreviation hello_message :: pydict where
  "hello_message \<equiv> [(lit ''role'', JStr (lit ''user'')), (lit ''content'', JStr (lit ''hello''))]"

lemma trim_keeps_newest_turns_witness:
  "\<exists>k. 1 \<le> k \<and> k \<le> length (group_into_turns (filter (\<lambda>m. \<not> is_system m) [hello_message, hello_message]))
    \<and> trim_messages [hello_message, hello_message] 500 1000
      = filter is_system [hello_message, hello_message]
        @ concat (last_n k (group_into_turns (filter (\<lambda>m. \<not> is_system m) [hello_message, hello_message])))"
proof -
  have "group_into_turns (filter (\<lambda>m. \<not> is_system m) [hello_message, hello_message]) \<noteq> []"
    by (simp add: role_is_def dget_def)
  from trim_keeps_newest_turns [OF this, of 500 1000] show ?thesis by blast
qed

text \<open>
  What trimming returns fits the context window less the reserve, unless nothing but the
  newest turn (and the system messages) is left.
\<close>

lemma trim_fits_or_last_turn:
  "turn_tokens (trim_messages messages max_context reserve) \<le> max_context - reserve
   \<or> trim_messages messages max_context reserve
      = filter is_system messages
        @ concat (last_n 1 (group_into_turns (filter (\<lambda>m. \<not> is_system m) messages)))"
proof (cases "group_into_turns (filter (\<lambda>m. \<not> is_system m) messages) = []")
  case True
  then show ?thesis by (simp add: trim_messages_no_turns last_n_def)
next
  case False
  let ?turns = "group_into_turns (filter (\<lambda>m. \<not> is_system m) messages)"
  obtain k where k: "1 \<le> k" "k \<le> length ?turns"
    "trim_messages messages max_context reserve = filter is_system messages @ concat (last_n k ?turns)"
    "1 < k \<longrightarrow> turn_tokens (concat (last_n k ?turns)) \<le> trim_budget messages max_context reserve"
    using trim_messages_kept [OF False] by blast
  show ?thesis
  proof (cases "k = 1")
    case False
    have "0 < turn_tokens (concat (last_n k ?turns))"
    proof -
      have "last_n k ?turns \<noteq> []" using k(1,2) by (simp add: last_n_def)
      then obtain t ts where split: "last_n k ?turns = t # ts" by (cases "last_n k ?turns") blast+
      have "t \<noteq> []"
        using well_grouped_last_n [OF well_grouped_group_into_turns, of k
            "filter (\<lambda>m. \<not> is_system m) messages"]
        by (auto simp: split well_grouped_def is_turn_def)
      then obtain m ms where "concat (last_n k ?turns) = m # ms"
        by (cases t) (auto simp: split)
      then show ?thesis using estimate_tokens_pos [of m] turn_tokens_nonneg [of ms]
        by (simp add: turn_tokens_def)
    qed
    then show ?thesis using k(1,3,4) False by (auto simp: trim_budget_def)
  qed (use k in simp)
qed

end
