(* ===== verification/Settings.thy ===== *)
theory Settings
  imports Prelude
begin

text \<open>
  The live-read accessors of \<open>invincible/core/settings.py\<close> that the modelled components
  consult. The process environment is a map from variable names to values; every accessor is
  the source's parse-or-default rule. The second half holds the per-user override rule of
  \<open>user_settings_store.py\<close>.
\<close>

type_synonym env = "string \<rightharpoonup> ustr"

definition getenv :: "env \<Rightarrow> string \<Rightarrow> ustr" where
  "getenv e name = (case e name of Some v \<Rightarrow> v | None \<Rightarrow> [])"

text \<open>
  \<open>int(text)\<close>: surrounding whitespace, an optional sign, decimal digits with single
  underscores between them. Anything else is a \<open>ValueError\<close>, here \<open>None\<close>.
\<close>

fun parse_digits :: "int \<Rightarrow> ustr \<Rightarrow> int option" where
  "parse_digits acc [] = Some acc"
| "parse_digits acc (c # cs) =
     (if 48 \<le> c \<and> c \<le> 57 then parse_digits (10 * acc + (c - 48)) cs
      else if c = 95 then
        (case cs of d # ds \<Rightarrow> if 48 \<le> d \<and> d \<le> 57 then parse_digits (10 * acc + (d - 48)) ds
                              else None
         | [] \<Rightarrow> None)
      else None)"

definition parse_unsigned :: "ustr \<Rightarrow> int option" where
  "parse_unsigned s = (case s of [] \<Rightarrow> None
     | c # cs \<Rightarrow> if 48 \<le> c \<and> c \<le> 57 then parse_digits 0 s else None)"

definition parse_int :: "ustr \<Rightarrow> int option" where
  "parse_int raw = (case strip raw of
       [] \<Rightarrow> None
     | c # cs \<Rightarrow> if c = 45 then map_option uminus (parse_unsigned cs)
                 else if c = 43 then parse_unsigned cs
                 else parse_unsigned (c # cs))"

text \<open>\<open>int(value)\<close>; \<open>fi\<close> is the integer part of a float's text.\<close>

fun int_of_json :: "(ustr \<Rightarrow> int option) \<Rightarrow> json \<Rightarrow> int option" where
  "int_of_json fi (JInt i) = Some i"
| "int_of_json fi (JBool b) = Some (if b then 1 else 0)"
| "int_of_json fi (JFloat r) = fi r"
| "int_of_json fi (JStr s) = parse_int s"
| "int_of_json fi _ = None"

definition off_values :: "ustr list" where
  "off_values = [lit ''0'', lit ''false'', lit ''off'']"

definition env_flag :: "env \<Rightarrow> string \<Rightarrow> bool" where
  "env_flag e name \<longleftrightarrow> lower (strip (getenv e name)) \<notin> set off_values"

definition on_flag :: "env \<Rightarrow> string \<Rightarrow> bool" where
  "on_flag e name \<longleftrightarrow> lower (strip (getenv e name))
     \<in> set [lit ''1'', lit ''true'', lit ''on'', lit ''yes'']"

text \<open>\<open>max(lo, int(os.getenv(name, "")))\<close>, the default where the parse fails.\<close>

definition env_int_floor :: "env \<Rightarrow> string \<Rightarrow> int \<Rightarrow> int \<Rightarrow> int" where
  "env_int_floor e name lo dflt =
     (case parse_int (getenv e name) of Some i \<Rightarrow> max lo i | None \<Rightarrow> dflt)"

definition compression_enabled :: "env \<Rightarrow> bool" where
  "compression_enabled e = on_flag e ''INVINCIBLE_COMPRESSION''"

definition relay_enabled :: "env \<Rightarrow> bool" where
  "relay_enabled e = env_flag e ''INVINCIBLE_RELAY''"

definition relay_threshold_tokens :: "env \<Rightarrow> int" where
  "relay_threshold_tokens e = env_int_floor e ''INVINCIBLE_RELAY_THRESHOLD_TOKENS'' 0 12000"

definition relay_keep_turns :: "env \<Rightarrow> int" where
  "relay_keep_turns e = env_int_floor e ''INVINCIBLE_RELAY_KEEP_TURNS'' 1 3"

definition relay_digest_max_entries :: "env \<Rightarrow> int" where
  "relay_digest_max_entries e = env_int_floor e ''INVINCIBLE_RELAY_DIGEST_MAX_ENTRIES'' 1 20"

definition continuity_enabled :: "env \<Rightarrow> bool" where
  "continuity_enabled e = env_flag e ''INVINCIBLE_CONTINUITY''"

text \<open>The two history caps: \<open>None\<close> is "no cap".\<close>

definition env_turn_cap :: "env \<Rightarrow> string \<Rightarrow> int \<Rightarrow> int option" where
  "env_turn_cap e name dflt =
     (let raw = lower (strip (getenv e name)) in
      if raw \<in> set off_values then None
      else if raw = [] then Some dflt
      else (case parse_int raw of Some i \<Rightarrow> Some (max 1 i) | None \<Rightarrow> Some dflt))"

definition history_max_turns :: "env \<Rightarrow> int option" where
  "history_max_turns e = env_turn_cap e ''INVINCIBLE_HISTORY_MAX_TURNS'' 200"

definition history_read_max_turns :: "env \<Rightarrow> int option" where
  "history_read_max_turns e = env_turn_cap e ''INVINCIBLE_HISTORY_READ_MAX_TURNS'' 30"

definition tunnel_ttl_seconds :: "env \<Rightarrow> int" where
  "tunnel_ttl_seconds e = env_int_floor e ''INVINCIBLE_TUNNEL_TTL_SECONDS'' 1 7200"

definition tunnel_bytes_per_second :: "env \<Rightarrow> int" where
  "tunnel_bytes_per_second e =
     env_int_floor e ''INVINCIBLE_TUNNEL_BYTES_PER_SECOND'' 1 (256 * 1024)"

definition tunnel_total_bytes :: "env \<Rightarrow> int" where
  "tunnel_total_bytes e = env_int_floor e ''INVINCIBLE_TUNNEL_TOTAL_BYTES'' 1 (100 * 1024 * 1024)"

definition tunnel_max_per_user :: "env \<Rightarrow> int" where
  "tunnel_max_per_user e = env_int_floor e ''INVINCIBLE_TUNNEL_MAX_PER_USER'' 1 3"

lemma env_int_floor_ge: "lo \<le> dflt \<Longrightarrow> lo \<le> env_int_floor e name lo dflt"
  by (simp add: env_int_floor_def split: option.split)

lemma env_turn_cap_pos: "env_turn_cap e name dflt = Some n \<Longrightarrow> 1 \<le> dflt \<Longrightarrow> 1 \<le> n"
  by (auto simp: env_turn_cap_def Let_def split: if_splits option.splits)

lemma relay_keep_turns_pos: "1 \<le> relay_keep_turns e"
  by (simp add: relay_keep_turns_def env_int_floor_ge)

lemma relay_digest_max_entries_pos: "1 \<le> relay_digest_max_entries e"
  by (simp add: relay_digest_max_entries_def env_int_floor_ge)

lemma tunnel_total_bytes_pos: "1 \<le> tunnel_total_bytes e"
  by (simp add: tunnel_total_bytes_def env_int_floor_ge)

lemma tunnel_max_per_user_pos: "1 \<le> tunnel_max_per_user e"
  by (simp add: tunnel_max_per_user_def env_int_floor_ge)

section \<open>Session scope\<close>

text \<open>Whose session a call is scoped to (\<open>core/scope.py\<close>): the argument was omitted
  (\<open>UNSCOPED\<close>), is \<open>None\<close> (the owner did not resolve), or is a surrogate id.\<close>

datatype scope = Unscoped | Unresolved | Scoped int

section \<open>Per-user overrides (\<open>user_settings_store.override_flag\<close>)\<close>

definition override_flag :: "pydict option \<Rightarrow> ustr \<Rightarrow> bool \<Rightarrow> bool" where
  "override_flag overrides key env_enabled =
     (case overrides of
        Some d \<Rightarrow> (case map_of d key of Some v \<Rightarrow> truthy v | None \<Rightarrow> env_enabled)
      | None \<Rightarrow> env_enabled)"

end
