(* ===== verification/Relay.thy ===== *)
theory Relay
  imports Trimming Settings
begin

text \<open>
  The context relay (\<open>invincible/core/relay.py\<close>): past a token threshold, all but the newest
  turns are replaced by one system message that digests them. The relay is an interpretation
  of \<open>context_stage\<close>.
\<close>

definition USER_TEXT_CHARS :: nat where
  "USER_TEXT_CHARS = 200"

definition TOOL_ARGS_CHARS :: nat where
  "TOOL_ARGS_CHARS = 80"

definition digest_header :: ustr where
  "digest_header = lit ''[Context relay] Earlier turns of this conversation were compacted to save context space. Digest of the older turns:''"

record relay_stats =
  applied :: bool
  turns_digested :: nat
  digest_chars :: nat

definition no_relay_stats :: relay_stats where
  "no_relay_stats = \<lparr>applied = False, turns_digested = 0, digest_chars = 0\<rparr>"

fun text_blocks :: "json list \<Rightarrow> ustr list" where
  "text_blocks [] = []"
| "text_blocks (JObj b # bs) =
     (case dget b (lit ''text'') of JStr s \<Rightarrow> s # text_blocks bs | _ \<Rightarrow> text_blocks bs)"
| "text_blocks (_ # bs) = text_blocks bs"

definition text_of :: "pydict \<Rightarrow> ustr" where
  "text_of m = (case dget m (lit ''content'') of
       JStr s \<Rightarrow> s
     | JList bs \<Rightarrow> join [10] (text_blocks bs)
     | _ \<Rightarrow> [])"

text \<open>The rendering \<open>name(args)\<close> of one call, \<open>None\<close> where the loop \<open>continue\<close>s.\<close>

definition render_args :: "json \<Rightarrow> ustr" where
  "render_args v =
     (let args = (case v of JObj d \<Rightarrow> dumps False (JObj d) | JStr s \<Rightarrow> s | _ \<Rightarrow> [])
      in if length args > TOOL_ARGS_CHARS then take TOOL_ARGS_CHARS args @ [8230] else args)"

fun render_call :: "json \<Rightarrow> ustr option" where
  "render_call (JObj call) =
     (case dget call (lit ''function'') of
        JObj function \<Rightarrow>
          (case dget function (lit ''name'') of
             JStr name \<Rightarrow>
               let args = render_args (dget function (lit ''arguments''))
               in Some (if args \<noteq> [] then name @ lit ''('' @ args @ lit '')'' else name)
           | _ \<Rightarrow> None)
      | _ \<Rightarrow> None)"
| "render_call _ = None"

definition tool_calls_of :: "pydict \<Rightarrow> ustr list" where
  "tool_calls_of m = (case dget m (lit ''tool_calls'') of
       JList calls \<Rightarrow> List.map_filter render_call calls
     | _ \<Rightarrow> [])"

text \<open>The three local variables of \<open>_digest_entry\<close>'s loop.\<close>

fun digest_scan :: "pydict list \<Rightarrow> ustr \<Rightarrow> ustr list \<Rightarrow> int \<Rightarrow> ustr \<times> ustr list \<times> int" where
  "digest_scan [] user_text calls results = (user_text, calls, results)"
| "digest_scan (m # ms) user_text calls results =
     (if is_user m \<and> user_text = [] then digest_scan ms (strip (text_of m)) calls results
      else if role_is m ''assistant''
        then digest_scan ms user_text (calls @ tool_calls_of m) results
      else if role_is m ''tool'' then digest_scan ms user_text calls (results + 1)
      else digest_scan ms user_text calls results)"

definition digest_entry :: "pydict list \<Rightarrow> ustr option" where
  "digest_entry turn =
     (let (user_text, calls, results) = digest_scan turn [] [] 0 in
      if user_text = [] \<and> calls = [] \<and> results = 0 then None
      else
        let shown = (if length user_text > USER_TEXT_CHARS
                     then take USER_TEXT_CHARS user_text @ [8230] else user_text);
            user_line = (if user_text \<noteq> [] then [lit ''- user: \"'' @ shown @ lit ''\"''] else []);
            tool_line = (if calls \<noteq> [] then [lit ''  tools: '' @ join (lit '', '') calls] else []);
            result_line = (if results \<noteq> 0
                           then [lit ''  ('' @ dec results @ lit '' tool result(s) elided)''] else [])
        in Some (join [10] (user_line @ tool_line @ result_line)))"

definition digest_lines :: "nat \<Rightarrow> pydict list list \<Rightarrow> ustr list" where
  "digest_lines max_entries old_turns =
     (let skipped = length old_turns - max_entries in
      [digest_header]
      @ (if skipped \<noteq> 0 then [lit ''('' @ dec (int skipped) @ lit '' earlier turn(s) omitted entirely.)'']
         else [])
      @ List.map_filter digest_entry (last_n max_entries old_turns))"

definition digest_message :: "nat \<Rightarrow> pydict list list \<Rightarrow> pydict" where
  "digest_message max_entries old_turns =
     [(lit ''role'', JStr (lit ''system'')),
      (lit ''content'', JStr (join [10] (digest_lines max_entries old_turns)))]"

definition digest_len :: "nat \<Rightarrow> pydict list list \<Rightarrow> nat" where
  "digest_len max_entries old_turns = length (join [10] (digest_lines max_entries old_turns))"

text \<open>
  \<open>_relay\<close>. Both \<open>keep\<close> and \<open>max_entries\<close> come from the settings, which floor them at 1, so the
  slices \<open>turns[:-keep]\<close>, \<open>turns[-keep:]\<close>, \<open>old_turns[-max_entries:]\<close> cut where they say. The
  wrapper \<open>relay_messages\<close> adds a catch-all for errors, and none of the operations here raises on
  a list of dictionaries.
\<close>

definition relay_messages :: "env \<Rightarrow> pydict list \<Rightarrow> pydict list \<times> relay_stats" where
  "relay_messages e messages =
     (if \<not> relay_enabled e then (messages, no_relay_stats)
      else
        let systems = filter is_system messages;
            rest = filter (\<lambda>m. \<not> is_system m) messages;
            total_tokens = turn_tokens rest
        in if total_tokens \<le> relay_threshold_tokens e then (messages, no_relay_stats)
        else
          let keep = nat (relay_keep_turns e); turns = group_into_turns rest
          in if length turns \<le> keep then (messages, no_relay_stats)
          else
            let old_turns = but_last_n keep turns; kept_turns = last_n keep turns;
                max_entries = nat (relay_digest_max_entries e)
            in (systems @ [digest_message max_entries old_turns] @ concat kept_turns,
                \<lparr>applied = True, turns_digested = length old_turns,
                 digest_chars = digest_len max_entries old_turns\<rparr>))"

section \<open>What the relay sends\<close>

lemma relay_messages_cases:
  obtains (same) "relay_messages e ms = (ms, no_relay_stats)"
  | (digested) turns where
      "turns = group_into_turns (filter (\<lambda>m. \<not> is_system m) ms)"
      "nat (relay_keep_turns e) < length turns"
      "fst (relay_messages e ms) = filter is_system ms
         @ [digest_message (nat (relay_digest_max_entries e))
              (but_last_n (nat (relay_keep_turns e)) turns)]
         @ concat (last_n (nat (relay_keep_turns e)) turns)"
      "applied (snd (relay_messages e ms))"
proof (cases "\<not> relay_enabled e
    \<or> turn_tokens (filter (\<lambda>m. \<not> is_system m) ms) \<le> relay_threshold_tokens e
    \<or> length (group_into_turns (filter (\<lambda>m. \<not> is_system m) ms)) \<le> nat (relay_keep_turns e)")
  case True
  then have "relay_messages e ms = (ms, no_relay_stats)"
    by (auto simp: relay_messages_def Let_def)
  then show ?thesis by (rule same)
next
  case False
  then show ?thesis by (intro digested [OF refl]) (simp_all add: relay_messages_def Let_def)
qed

lemma is_system_digest_message [simp]: "is_system (digest_message n turns)"
  by (simp add: role_is_def digest_message_def dget_def)

lemma length_digest_lines: "length (digest_lines n turns) \<le> 2 + n"
proof -
  have "length (List.map_filter f xs) \<le> length xs" for f :: "pydict list \<Rightarrow> ustr option" and xs
    by (induction xs) (auto split: option.split)
  from this [of digest_entry "last_n n turns"] show ?thesis
    by (simp add: digest_lines_def Let_def)
qed

interpretation relay_stage: context_stage "\<lambda>ms. fst (relay_messages e ms)"
proof
  fix ms
  let ?ns = "filter (\<lambda>m. \<not> is_system m) ms"
  show "\<exists>ds. map envelope (filter is_system (fst (relay_messages e ms)))
      = map envelope (filter is_system ms) @ ds"
  proof (cases rule: relay_messages_cases [of e ms])
    case same
    then show ?thesis by simp
  next
    case (digested turns)
    then show ?thesis
      by (simp only: filter_append map_append filter_filter append_assoc) simp
  qed
  show "\<exists>k. map envelope (filter (\<lambda>m. \<not> is_system m) (fst (relay_messages e ms)))
      = map envelope (concat (drop k (group_into_turns ?ns)))"
  proof (cases rule: relay_messages_cases [of e ms])
    case same
    then show ?thesis by (intro exI [of _ 0]) simp
  next
    case (digested turns)
    note split = filter_system_kept [OF concat_last_n_not_system [of "nat (relay_keep_turns e)" ms]]
    have "filter (\<lambda>m. \<not> is_system m) (fst (relay_messages e ms))
        = concat (last_n (nat (relay_keep_turns e)) turns)"
      using split(2) [of ms] digested(1) by (simp add: digested(3))
    then show ?thesis using digested(1) by (auto simp: last_n_def)
  qed
qed

section \<open>Property\<close>

text \<open>
  The relay either sends the history unchanged, or sends every system message, one digest
  message of at most \<open>max_entries + 2\<close> lines, and the newest \<open>keep \<ge> 1\<close> turns verbatim; it
  never does the latter to a history at or under its token threshold.
\<close>

lemma relay_sends_digest_and_newest_turns:
  fixes e :: env and ms :: "pydict list"
  defines "turns \<equiv> group_into_turns (filter (\<lambda>m. \<not> is_system m) ms)"
    and "keep \<equiv> nat (relay_keep_turns e)" and "n \<equiv> nat (relay_digest_max_entries e)"
  shows "1 \<le> keep \<and> 1 \<le> n \<and>
    (if relay_enabled e \<and> relay_threshold_tokens e < turn_tokens (concat turns) \<and> keep < length turns
     then fst (relay_messages e ms) = filter is_system ms @ [digest_message n (but_last_n keep turns)]
            @ concat (last_n keep turns)
          \<and> length (digest_lines n (but_last_n keep turns)) \<le> n + 2
          \<and> turns_digested (snd (relay_messages e ms)) = length turns - keep
     else relay_messages e ms = (ms, no_relay_stats))"
proof -
  have "1 \<le> keep" "1 \<le> n"
    using relay_keep_turns_pos [of e] relay_digest_max_entries_pos [of e]
    by (simp_all add: keep_def n_def)
  moreover have "length (digest_lines n (but_last_n keep turns)) \<le> n + 2"
    using length_digest_lines by (metis add.commute)
  ultimately show ?thesis
    by (simp add: relay_messages_def Let_def turns_def keep_def n_def but_last_n_def)
qed

end
