(* ===== verification/Compression.thy ===== *)
theory Compression
  imports Turns Settings
begin

text \<open>
  Send-time compression of message contents (\<open>invincible/core/compression.py\<close>): runs of blank
  lines collapse, long tool results keep a head and a tail around a marker. Compression is an
  interpretation of \<open>context_stage\<close>: it touches contents only.
\<close>

definition DEFAULT_TOOL_RESULT_MAX_CHARS :: nat where
  "DEFAULT_TOOL_RESULT_MAX_CHARS = 4000"

text \<open>\<open>re.sub(r"\n{3,}", "\n\n", text)\<close>.\<close>

fun collapse_blank_runs :: "ustr \<Rightarrow> ustr" where
  "collapse_blank_runs (a # b # c # xs) =
     (if a = 10 \<and> b = 10 \<and> c = 10 then collapse_blank_runs (b # c # xs)
      else a # collapse_blank_runs (b # c # xs))"
| "collapse_blank_runs xs = xs"

text \<open>The marker \<open>"\n...[middle {dropped} chars compressed away]...\n"\<close>, with U+2026 ellipses.\<close>

definition truncation_marker :: "int \<Rightarrow> ustr" where
  "truncation_marker dropped =
     [10, 8230] @ lit ''[middle '' @ dec dropped @ lit '' chars compressed away]'' @ [8230, 10]"

text \<open>\<open>int(budget * 0.6)\<close> in doubles: 0.6 is 5404319552844595 / 2^53.\<close>

definition tool_head :: "nat \<Rightarrow> nat" where
  "tool_head budget =
     (let (n, d) = fl (int budget * 5404319552844595, 9007199254740992) in nat (n div d))"

definition truncate_tool_content :: "ustr \<Rightarrow> nat \<Rightarrow> ustr" where
  "truncate_tool_content content max_chars =
     (if length content \<le> max_chars then content
      else let head = tool_head max_chars;
               tail = max_chars - head;
               dropped = int (length content) - int max_chars
           in take head content @ truncation_marker dropped
              @ drop (length content - tail) content)"

definition compress_message :: "nat \<Rightarrow> pydict \<Rightarrow> pydict" where
  "compress_message max_chars m =
     (case dget m (lit ''content'') of
        JStr content \<Rightarrow>
          if content = [] then m
          else let collapsed = collapse_blank_runs content;
                   new_content = (if role_is m ''tool''
                                  then truncate_tool_content collapsed max_chars else collapsed)
               in if new_content = content then m
                  else dset (lit ''content'') (JStr new_content) m
      | _ \<Rightarrow> m)"

definition compress_messages :: "nat \<Rightarrow> pydict list \<Rightarrow> pydict list" where
  "compress_messages max_chars messages = map (compress_message max_chars) messages"

section \<open>Blank lines\<close>

fun no_blank_run :: "ustr \<Rightarrow> bool" where
  "no_blank_run (a # b # c # xs) =
     (\<not> (a = 10 \<and> b = 10 \<and> c = 10) \<and> no_blank_run (b # c # xs))"
| "no_blank_run xs = True"

lemma collapse_id: "no_blank_run xs \<Longrightarrow> collapse_blank_runs xs = xs"
  by (induction xs rule: collapse_blank_runs.induct) auto

text \<open>A collapsed text starts as the text does, for two characters at least.\<close>

lemma collapse_head2:
  "\<exists>zs. collapse_blank_runs (a # b # xs) = a # b # zs"
proof (induction "a # b # xs" arbitrary: a b xs rule: collapse_blank_runs.induct)
  case (1 a b c xs)
  then show ?case by (cases "a = 10 \<and> b = 10 \<and> c = 10") auto
qed auto

lemma no_blank_run_collapse: "no_blank_run (collapse_blank_runs xs)"
proof (induction xs rule: collapse_blank_runs.induct)
  case (1 a b c xs)
  obtain zs where zs: "collapse_blank_runs (b # c # xs) = b # c # zs"
    using collapse_head2 by blast
  show ?case
  proof (cases "a = 10 \<and> b = 10 \<and> c = 10")
    case True
    then show ?thesis using 1 by simp
  next
    case False
    then show ?thesis using 1 zs by auto
  qed
qed auto

lemma collapse_idem: "collapse_blank_runs (collapse_blank_runs xs) = collapse_blank_runs xs"
  by (rule collapse_id [OF no_blank_run_collapse])

lemma length_collapse_le: "length (collapse_blank_runs xs) \<le> length xs"
  by (induction xs rule: collapse_blank_runs.induct) auto

text \<open>Only newlines are dropped.\<close>

lemma collapse_keeps_text:
  "filter (\<lambda>c. c \<noteq> 10) (collapse_blank_runs xs) = filter (\<lambda>c. c \<noteq> 10) xs"
  by (induction xs rule: collapse_blank_runs.induct) auto

section \<open>Tool results\<close>

lemma length_truncate_tool_content:
  assumes "max_chars < length content" and "tool_head max_chars \<le> max_chars"
  shows "length (truncate_tool_content content max_chars)
    = max_chars + length (truncation_marker (int (length content) - int max_chars))"
  using assms by (simp add: truncate_tool_content_def Let_def)

lemma truncate_tool_content_short:
  "length content \<le> max_chars \<Longrightarrow> truncate_tool_content content max_chars = content"
  by (simp add: truncate_tool_content_def)

lemma tool_head_default: "tool_head DEFAULT_TOOL_RESULT_MAX_CHARS = 2400"
  by (simp add: tool_head_def DEFAULT_TOOL_RESULT_MAX_CHARS_def fl_def fl_scale_def
      bitlen.simps Let_def)

section \<open>Compression is a send-time stage\<close>

lemma envelope_compress_message [simp]: "envelope (compress_message n m) = envelope m"
  by (cases "dget m (lit ''content'')") (simp_all add: compress_message_def Let_def)

lemma role_is_compress_message [simp]: "role_is (compress_message n m) r = role_is m r"
  by (metis envelope_compress_message role_is_envelope)

lemma compress_messages_envelopes:
  "map envelope (filter P (compress_messages n ms)) = map envelope (filter P ms)"
  if "\<And>m. P (compress_message n m) = P m"
  by (induction ms) (simp_all add: compress_messages_def that)

interpretation compress_stage: context_stage "compress_messages max_chars"
proof
  fix ms
  show "\<exists>ds. map envelope (filter is_system (compress_messages max_chars ms))
      = map envelope (filter is_system ms) @ ds"
    by (simp add: compress_messages_envelopes)
  show "\<exists>k. map envelope (filter (\<lambda>m. \<not> is_system m) (compress_messages max_chars ms))
      = map envelope (concat (drop k (group_into_turns (filter (\<lambda>m. \<not> is_system m) ms))))"
    by (intro exI [of _ 0]) (simp add: compress_messages_envelopes)
qed

section \<open>Properties\<close>

text \<open>
  Compression changes message contents only: the list keeps its length and order, and every
  message keeps all its other fields. The content of a non-tool message loses nothing but
  newlines and has no run of three left.
\<close>

lemma compress_keeps_messages:
  "map envelope (compress_messages n ms) = map envelope ms
   \<and> list_all2 (\<lambda>m m'. role_is m ''tool'' \<or> dget m (lit ''content'') = dget m' (lit ''content'')
       \<or> (\<exists>c. dget m (lit ''content'') = JStr c
            \<and> dget m' (lit ''content'') = JStr (collapse_blank_runs c)
            \<and> no_blank_run (collapse_blank_runs c)
            \<and> filter (\<lambda>x. x \<noteq> 10) (collapse_blank_runs c) = filter (\<lambda>x. x \<noteq> 10) c))
     ms (compress_messages n ms)"
proof
  show "map envelope (compress_messages n ms) = map envelope ms"
    using compress_messages_envelopes [of "\<lambda>_. True" n ms] by simp
  show "list_all2 (\<lambda>m m'. role_is m ''tool'' \<or> dget m (lit ''content'') = dget m' (lit ''content'')
       \<or> (\<exists>c. dget m (lit ''content'') = JStr c
            \<and> dget m' (lit ''content'') = JStr (collapse_blank_runs c)
            \<and> no_blank_run (collapse_blank_runs c)
            \<and> filter (\<lambda>x. x \<noteq> 10) (collapse_blank_runs c) = filter (\<lambda>x. x \<noteq> 10) c))
     ms (compress_messages n ms)"
    unfolding compress_messages_def
    by (auto simp: list_all2_conv_all_nth compress_message_def Let_def no_blank_run_collapse
        collapse_keeps_text split: json.splits)
qed

text \<open>
  A tool result over the limit is sent as its first 2400 and last 1600 characters (60% and
  40% of the 4000-character limit) around a marker that states how many were dropped.
\<close>

lemma long_tool_result_truncated:
  assumes "dget m (lit ''content'') = JStr c" and "role_is m ''tool''"
    and "4000 < length (collapse_blank_runs c)"
  shows "dget (compress_message DEFAULT_TOOL_RESULT_MAX_CHARS m) (lit ''content'')
    = JStr (take 2400 (collapse_blank_runs c)
        @ truncation_marker (int (length (collapse_blank_runs c)) - 4000)
        @ last_n 1600 (collapse_blank_runs c))"
proof -
  let ?s = "collapse_blank_runs c"
  have "truncate_tool_content ?s DEFAULT_TOOL_RESULT_MAX_CHARS
      = take 2400 ?s @ truncation_marker (int (length ?s) - 4000) @ last_n 1600 ?s"
    using assms(3) tool_head_default
    by (simp add: truncate_tool_content_def Let_def last_n_def DEFAULT_TOOL_RESULT_MAX_CHARS_def)
  then show ?thesis using assms length_collapse_le [of c]
    by (auto simp: compress_message_def Let_def)
qed

lemma no_blank_run_plain: "10 \<notin> set xs \<Longrightarrow> no_blank_run xs"
  by (induction xs rule: no_blank_run.induct) auto

lemma collapse_replicate: "x \<noteq> 10 \<Longrightarrow> collapse_blank_runs (replicate n x) = replicate n x"
  by (intro collapse_id no_blank_run_plain) auto

lemma long_tool_result_truncated_witness:
  "dget (compress_message DEFAULT_TOOL_RESULT_MAX_CHARS
      [(lit ''role'', JStr (lit ''tool'')), (lit ''content'', JStr (replicate 5000 97))]) (lit ''content'')
    = JStr (take 2400 (replicate 5000 97) @ truncation_marker 1000 @ last_n 1600 (replicate 5000 97))"
  using long_tool_result_truncated
    [of "[(lit ''role'', JStr (lit ''tool'')), (lit ''content'', JStr (replicate 5000 97))]"
        "replicate 5000 97"]
  by (simp add: role_is_def dget_def collapse_replicate)

end
