(* ===== verification/ToolCompression.thy ===== *)
theory ToolCompression
  imports Compression
begin

text \<open>
  Send-time compression of tool schemas (\<open>invincible/core/tool_compression.py\<close>): descriptions
  are capped and keys without meaning for validation are removed. The counters of
  \<open>ToolCompressionStats\<close> and the memoization are not modelled: the router uses the compressed
  list only, and a cached result is the result of the same computation.
\<close>

definition strip_keys :: "ustr list" where
  "strip_keys = [lit ''title'', lit ''examples'', lit ''$schema'', lit ''$id'', lit ''$comment'']"

definition subschema_keys :: "ustr list" where
  "subschema_keys = [lit ''anyOf'', lit ''oneOf'', lit ''allOf'', lit ''$defs'', lit ''definitions'']"

definition description_marker :: ustr where
  "description_marker = 8230 # lit ''[description truncated]''"

definition cap_description :: "nat \<Rightarrow> ustr \<Rightarrow> ustr" where
  "cap_description max_chars description =
     (let new = collapse_blank_runs description
      in if length new > max_chars then take max_chars new @ description_marker else new)"

definition normalize_description :: "nat \<Rightarrow> pydict \<Rightarrow> pydict" where
  "normalize_description max_chars node =
     (case dget node (lit ''description'') of
        JStr description \<Rightarrow>
          if description = [] then node
          else dset (lit ''description'') (JStr (cap_description max_chars description)) node
      | _ \<Rightarrow> node)"

definition strip_noise_keys :: "pydict \<Rightarrow> pydict" where
  "strip_noise_keys node = filter (\<lambda>(k, v). k \<notin> set strip_keys) node"

text \<open>
  \<open>_walk_schema\<close>. The source mutates a tree that no other value shares (it comes out of
  \<open>json.loads\<close>), so the walk is a function of the tree. \<open>walk_child\<close> says where the walk enters;
  it never enters a key that the edits of the node itself touch, so these come last here.
\<close>

definition walk_child :: "(json \<Rightarrow> json) \<Rightarrow> ustr \<Rightarrow> json \<Rightarrow> json" where
  "walk_child walk k v =
     (if k = lit ''properties'' then
        (case v of JObj ps \<Rightarrow> JObj (map (\<lambda>(p, s). (p, walk s)) ps) | _ \<Rightarrow> v)
      else if k = lit ''items'' \<or> k = lit ''additionalProperties'' then
        (case v of JObj _ \<Rightarrow> walk v | JList _ \<Rightarrow> walk v | _ \<Rightarrow> v)
      else if k \<in> set subschema_keys then
        (case v of JObj ss \<Rightarrow> JObj (map (\<lambda>(p, s). (p, walk s)) ss)
                 | JList ss \<Rightarrow> JList (map walk ss)
                 | _ \<Rightarrow> v)
      else v)"

lemma size_entry: "(k :: ustr, v :: json) \<in> set d \<Longrightarrow> size v < size_list (size_prod (\<lambda>x. 0) size) d"
  by (induction d) auto

lemma size_elem: "(x :: json) \<in> set xs \<Longrightarrow> size x < size_list size xs"
  by (induction xs) auto

lemma walk_child_cong [fundef_cong]:
  assumes "k = k'" and "v = v'" and "\<And>u. size u \<le> size v' \<Longrightarrow> f u = g u"
  shows "walk_child f k v = walk_child g k' v'"
proof -
  have "map f xs = map g xs" if "v' = JList xs" for xs
    using assms(3) size_elem that by (fastforce intro: less_imp_le)
  moreover have "map (\<lambda>(p, s). (p, f s)) d = map (\<lambda>(p, s). (p, g s)) d" if "v' = JObj d" for d
    using assms(3) size_entry that by (fastforce intro: less_imp_le)
  ultimately show ?thesis using assms by (auto simp: walk_child_def split: json.split)
qed

function (sequential) walk_schema :: "nat \<Rightarrow> json \<Rightarrow> json" where
  "walk_schema n (JObj node) = JObj (normalize_description n (strip_noise_keys
     (map (\<lambda>(k, v). (k, walk_child (walk_schema n) k v)) node)))"
| "walk_schema n (JList nodes) = JList (map (walk_schema n) nodes)"
| "walk_schema n v = v"
  by pat_completeness auto

termination
  by (relation "measure (\<lambda>(n, v). size v)") (auto dest!: size_entry size_elem)

definition compress_tool :: "nat \<Rightarrow> nat \<Rightarrow> json \<Rightarrow> json" where
  "compress_tool tool_max prop_max tool =
     (case tool of
        JObj d \<Rightarrow>
          (case dget d (lit ''function'') of
             JObj function \<Rightarrow>
               let f' = normalize_description tool_max function;
                   f'' = (case dget f' (lit ''parameters'') of
                            JObj ps \<Rightarrow> dset (lit ''parameters'') (walk_schema prop_max (JObj ps)) f'
                          | _ \<Rightarrow> f')
               in JObj (dset (lit ''function'') (JObj f'') d)
           | _ \<Rightarrow> tool)
      | _ \<Rightarrow> tool)"

text \<open>
  The result sent: the input where the toggle is off, otherwise the transform of the canonical
  serialization, whose keys are sorted.
\<close>

definition tool_compression_enabled :: "env \<Rightarrow> bool" where
  "tool_compression_enabled e = env_flag e ''INVINCIBLE_TOOL_COMPRESSION''"

definition tool_description_max_chars :: "env \<Rightarrow> int" where
  "tool_description_max_chars e = env_int_floor e ''INVINCIBLE_TOOL_DESCRIPTION_MAX_CHARS'' 1 512"

definition tool_property_description_max_chars :: "env \<Rightarrow> int" where
  "tool_property_description_max_chars e =
     env_int_floor e ''INVINCIBLE_TOOL_PROPERTY_DESCRIPTION_MAX_CHARS'' 1 160"

definition compress_tools :: "env \<Rightarrow> json list \<Rightarrow> json list" where
  "compress_tools e tools =
     (if tools = [] \<or> \<not> tool_compression_enabled e then tools
      else map (compress_tool (nat (tool_description_max_chars e))
                  (nat (tool_property_description_max_chars e)) \<circ> sort_keys) tools)"

section \<open>What the walk keeps\<close>

lemma dget_normalize_description [simp]:
  "k \<noteq> lit ''description'' \<Longrightarrow> dget (normalize_description n d) k = dget d k"
  by (cases "dget d (lit ''description'')") (simp_all add: normalize_description_def)

lemma map_of_filter_keys: "P k \<Longrightarrow> map_of (filter (\<lambda>(k, v). P k) d) k = map_of d k"
  by (induction d) auto

lemma dget_strip_noise_keys [simp]:
  "k \<notin> set strip_keys \<Longrightarrow> dget (strip_noise_keys d) k = dget d k"
  using map_of_filter_keys [of "\<lambda>k. k \<notin> set strip_keys" k d]
  by (simp add: dget_def strip_noise_keys_def)

text \<open>
  A schema without its noise: the descriptions and the stripped keys removed at every node the
  walk visits. A property that happens to be called \<open>title\<close> is not noise and stays.
\<close>

definition noise_key :: "ustr \<Rightarrow> bool" where
  "noise_key k \<longleftrightarrow> k \<in> set strip_keys \<or> k = lit ''description''"

function (sequential) skeleton :: "json \<Rightarrow> json" where
  "skeleton (JObj node) =
     JObj (filter (\<lambda>(k, v). \<not> noise_key k) (map (\<lambda>(k, v). (k, walk_child skeleton k v)) node))"
| "skeleton (JList nodes) = JList (map skeleton nodes)"
| "skeleton v = v"
  by pat_completeness auto

termination
  by (relation "measure size") (auto dest!: size_entry size_elem)

lemma filter_map_value:
  "filter (\<lambda>(k, v). P k) (map (\<lambda>(k, v). (k, f k v)) d)
   = map (\<lambda>(k, v). (k, f k v)) (filter (\<lambda>(k, v). P k) d)"
  by (induction d) auto

lemma filter_dset_dropped:
  "\<not> P k \<Longrightarrow> filter (\<lambda>(k, v). P k) (dset k x d) = filter (\<lambda>(k, v). P k) d"
  by (induction d) auto

lemma noise_key_description [simp]: "noise_key (lit ''description'')"
  by (simp add: noise_key_def)

lemma filter_normalize_description:
  "filter (\<lambda>(k, v). \<not> noise_key k) (normalize_description n d) = filter (\<lambda>(k, v). \<not> noise_key k) d"
  by (simp add: normalize_description_def filter_dset_dropped [where P = "\<lambda>k. \<not> noise_key k"]
      split: json.split)

lemma filter_strip_noise_keys:
  "filter (\<lambda>(k, v). \<not> noise_key k) (strip_noise_keys d) = filter (\<lambda>(k, v). \<not> noise_key k) d"
  by (induction d) (auto simp: strip_noise_keys_def noise_key_def)

lemma walk_child_skeleton:
  assumes "\<And>u. size u \<le> size v \<Longrightarrow> skeleton (walk_schema n u) = skeleton u"
  shows "walk_child skeleton k (walk_child (walk_schema n) k v) = walk_child skeleton k v"
proof (cases v)
  case (JList xs)
  have "map (skeleton \<circ> walk_schema n) xs = map skeleton xs"
    using assms size_elem JList by (fastforce intro: less_imp_le)
  then show ?thesis using JList assms [of v] by (simp add: walk_child_def)
next
  case (JObj d)
  have "map ((\<lambda>(p, s). (p, skeleton s)) \<circ> (\<lambda>(p, s). (p, walk_schema n s))) d
      = map (\<lambda>(p, s). (p, skeleton s)) d"
    using assms size_entry JObj by (fastforce intro: less_imp_le)
  moreover have "skeleton (walk_schema n v) = skeleton v" using assms by simp
  ultimately show ?thesis using JObj by (simp add: walk_child_def)
qed (simp_all add: walk_child_def)

lemma skeleton_walk_schema: "skeleton (walk_schema n v) = skeleton v"
proof (induction v rule: measure_induct_rule [of size])
  case (less v)
  show ?case
  proof (cases v)
    case (JList xs)
    then show ?thesis using less size_elem by (fastforce simp: less_Suc_eq)
  next
    case (JObj d)
    have "walk_child skeleton k (walk_child (walk_schema n) k u) = walk_child skeleton k u"
      if "(k, u) \<in> set d" for k u
      using less size_entry [OF that] JObj by (intro walk_child_skeleton) simp
    then have "map (\<lambda>(k, u). (k, walk_child skeleton k u))
          (map (\<lambda>(k, u). (k, walk_child (walk_schema n) k u)) d)
        = map (\<lambda>(k, u). (k, walk_child skeleton k u)) d"
      by auto
    then show ?thesis unfolding JObj
      by (simp only: walk_schema.simps skeleton.simps filter_map_value
          filter_normalize_description filter_strip_noise_keys)
         (simp only: filter_map_value [symmetric, where P = "\<lambda>k. \<not> noise_key k"])
  qed simp_all
qed

text \<open>What a model can rely on in a tool definition.\<close>

definition tool_interface :: "json \<Rightarrow> json" where
  "tool_interface tool =
     (case tool of
        JObj d \<Rightarrow>
          (case dget d (lit ''function'') of
             JObj f \<Rightarrow>
               JObj (dset (lit ''function'') (JObj (filter (\<lambda>(k, v). \<not> noise_key k)
                 (case dget f (lit ''parameters'') of
                    JObj ps \<Rightarrow> dset (lit ''parameters'') (skeleton (JObj ps)) f
                  | _ \<Rightarrow> f))) d)
           | _ \<Rightarrow> tool)
      | _ \<Rightarrow> tool)"

lemma dset_dset [simp]: "dset k v (dset k w d) = dset k v d"
  by (induction d) auto

lemma filter_dset_kept:
  "P k \<Longrightarrow> filter (\<lambda>(k, v). P k) (dset k x d) = dset k x (filter (\<lambda>(k, v). P k) d)"
  by (induction d) auto

lemma walk_schema_JObj: "\<exists>d'. walk_schema n (JObj d) = JObj d'"
  by simp

lemma tool_interface_compress_tool: "tool_interface (compress_tool a b tool) = tool_interface tool"
proof (cases "\<exists>d f. tool = JObj d \<and> dget d (lit ''function'') = JObj f")
  case True
  then obtain d f where f: "tool = JObj d" "dget d (lit ''function'') = JObj f" by blast
  have keep: "\<not> noise_key (lit ''parameters'')" by (simp add: noise_key_def strip_keys_def)
  show ?thesis
  proof (cases "dget f (lit ''parameters'')")
    case (JObj ps)
    have "skeleton (walk_schema b (JObj ps)) = skeleton (JObj ps)" by (rule skeleton_walk_schema)
    then show ?thesis using f JObj keep
      by (simp add: compress_tool_def tool_interface_def Let_def filter_normalize_description
          filter_dset_kept [where P = "\<lambda>k. \<not> noise_key k"] del: skeleton.simps)
  qed (use f in \<open>simp_all add: compress_tool_def tool_interface_def Let_def
      filter_normalize_description\<close>)
next
  case False
  then show ?thesis
    by (cases tool) (auto simp: compress_tool_def split: json.splits)
qed

lemma length_cap_description: "length (cap_description n s) \<le> n + length description_marker"
  by (simp add: cap_description_def Let_def)

section \<open>Property\<close>

text \<open>
  Compressing the tool schemas of a request never changes what a tool is: same tools in the
  same order, same names, and parameter schemas that differ in descriptions and noise keys only,
  at every depth.
\<close>

lemma compress_tools_keeps_interface:
  "map tool_interface (compress_tools e tools)
   = map tool_interface (if tool_compression_enabled e then map sort_keys tools else tools)"
  by (auto simp: compress_tools_def tool_interface_compress_tool)

end
