(* ===== verification/Selection.thy ===== *)
theory Selection
  imports Prelude "HOL-Library.Multiset" "HOL-Library.Sublist"
begin

text \<open>
  The candidate order of a request (\<open>invincible/core/selection.py\<close>): automatic, pinned and
  fallback-chain routing over a snapshot of providers.
\<close>

text \<open>
  A provider entry (static YAML or BYOK credential row). Each field is what the source's
  \<open>provider.get(key, default)\<close> yields.
\<close>

record provider =
  name :: ustr
  tier :: int
  enabled :: bool
  model_id :: ustr
  aliases :: "ustr list"
  base_url :: ustr
  chat_path :: ustr
  api_key_env :: ustr
  auth_query :: bool
  auth_param :: ustr
  extra_headers :: "(ustr \<times> ustr) list"
  max_context :: int
  vision :: bool
  health_id :: ustr
  model_override :: bool
  failover_on_400 :: bool

record pinned_route =
  route_provider :: ustr
  route_model :: ustr

record routing_config =
  mode :: ustr
  pinned :: "pinned_route option"
  chain :: "pinned_route list"

definition AUTO_ROUTING :: routing_config where
  "AUTO_ROUTING = \<lparr>mode = lit ''auto'', pinned = None, chain = []\<rparr>"

datatype py_error = KeyError | AttributeError | TypeError

text \<open>\<open>step["provider"]\<close>, \<open>step["model"]\<close> of a stored step.\<close>

definition read_step :: "json \<Rightarrow> py_error + pinned_route" where
  "read_step step = (case step of
       JObj d \<Rightarrow> (case (map_of d (lit ''provider''), map_of d (lit ''model'')) of
           (Some (JStr p), Some (JStr m)) \<Rightarrow> Inr \<lparr>route_provider = p, route_model = m\<rparr>
         | (None, _) \<Rightarrow> Inl KeyError
         | (_, None) \<Rightarrow> Inl KeyError
         | _ \<Rightarrow> Inl TypeError)
     | _ \<Rightarrow> Inl TypeError)"

fun read_steps :: "json list \<Rightarrow> py_error + pinned_route list" where
  "read_steps [] = Inr []"
| "read_steps (s # ss) = (case read_step s of
       Inl e \<Rightarrow> Inl e
     | Inr r \<Rightarrow> (case read_steps ss of Inl e \<Rightarrow> Inl e | Inr rs \<Rightarrow> Inr (r # rs)))"

definition routing_from_config :: "pydict \<Rightarrow> py_error + routing_config" where
  "routing_from_config config =
     (let md = (case dget_or config (lit ''mode'') (JStr (lit ''auto'')) of JStr s \<Rightarrow> s | _ \<Rightarrow> []) in
      if md = lit ''pinned'' \<and> truthy (dget config (lit ''pinned'')) then
        (case read_step (dget config (lit ''pinned'')) of
           Inl e \<Rightarrow> Inl e
         | Inr r \<Rightarrow> Inr \<lparr>mode = md, pinned = Some r, chain = []\<rparr>)
      else if md = lit ''chain'' then
        (case py_or (dget config (lit ''chain'')) (JList []) of
           JList steps \<Rightarrow>
             (case read_steps steps of
                Inl e \<Rightarrow> Inl e
              | Inr rs \<Rightarrow> Inr \<lparr>mode = md, pinned = None, chain = rs\<rparr>)
         | _ \<Rightarrow> Inl TypeError)
      else Inr \<lparr>mode = md, pinned = None, chain = []\<rparr>)"

section \<open>chain_with_model_hint\<close>

definition hint_model :: "json \<Rightarrow> json" where
  "hint_model step = (case step of JObj d \<Rightarrow> dget d (lit ''model'') | _ \<Rightarrow> JNull)"

definition chain_with_model_hint :: "json list \<Rightarrow> ustr option \<Rightarrow> json list" where
  "chain_with_model_hint steps model = (case model of
       None \<Rightarrow> steps
     | Some m \<Rightarrow>
         if m = [] then steps
         else let matching = filter (\<lambda>s. hint_model s = JStr m) steps
              in if matching = [] then steps
                 else matching @ filter (\<lambda>s. hint_model s \<noteq> JStr m) steps)"

section \<open>attempt_order\<close>

datatype select_error = PinnedUnavailable ustr | SelectRaised py_error

definition find_provider :: "provider list \<Rightarrow> ustr \<Rightarrow> provider option" where
  "find_provider ps n = find (\<lambda>p. name p = n) ps"

fun chain_candidates :: "provider list \<Rightarrow> pinned_route list \<Rightarrow> provider list" where
  "chain_candidates available [] = []"
| "chain_candidates available (step # steps) =
     (case find_provider available (route_provider step) of
        None \<Rightarrow> chain_candidates available steps
      | Some p \<Rightarrow> p\<lparr>model_id := route_model step\<rparr> # chain_candidates available steps)"

definition prefers :: "ustr \<Rightarrow> provider \<Rightarrow> bool" where
  "prefers hint p \<longleftrightarrow> hint = model_id p \<or> hint \<in> set (aliases p)"

definition auto_order :: "provider list \<Rightarrow> ustr option \<Rightarrow> provider list" where
  "auto_order available model_hint =
     (let ordered = sort_key tier available in
      case model_hint of
        None \<Rightarrow> ordered
      | Some hint \<Rightarrow>
          if hint = [] then ordered
          else let preferred = filter (prefers hint) ordered;
                   rest = filter (\<lambda>p. p \<notin> set preferred) ordered
               in preferred @ rest)"

definition attempt_order ::
  "provider list \<Rightarrow> routing_config \<Rightarrow> ustr option \<Rightarrow> select_error + provider list" where
  "attempt_order providers routing model_hint =
     (let available = filter enabled providers in
      if mode routing = lit ''pinned'' then
        (case pinned routing of
           None \<Rightarrow> Inl (SelectRaised AttributeError)
         | Some r \<Rightarrow>
             (case find_provider available (route_provider r) of
                None \<Rightarrow> Inl (PinnedUnavailable (route_provider r))
              | Some target \<Rightarrow> Inr [target\<lparr>model_id := route_model r\<rparr>]))
      else if mode routing = lit ''chain'' then
        Inr (chain_candidates available (chain routing))
      else Inr (auto_order available model_hint))"

section \<open>What the order holds\<close>

lemma filter_not_in_filter: "filter (\<lambda>p. p \<notin> set (filter P xs)) xs = filter (\<lambda>p. \<not> P p) xs"
  by (rule filter_cong) auto

lemma auto_order_hint:
  "hint \<noteq> [] \<Longrightarrow> auto_order ps (Some hint) =
     filter (prefers hint) (sort_key tier ps) @ filter (\<lambda>p. \<not> prefers hint p) (sort_key tier ps)"
  unfolding auto_order_def Let_def option.case by (simp only: filter_not_in_filter if_False)

lemma set_auto_order [simp]: "set (auto_order ps hint) = set ps"
  by (cases hint; cases "hint = Some []") (auto simp: auto_order_hint auto_order_def [of _ None]
      auto_order_def [of _ "Some []"])

lemma find_provider_Some:
  "find_provider ps n = Some p \<Longrightarrow> p \<in> set ps \<and> name p = n"
  unfolding find_provider_def by (auto simp: find_Some_iff)

lemma chain_candidates_sound:
  "q \<in> set (chain_candidates ps steps) \<Longrightarrow>
   \<exists>p \<in> set ps. \<exists>s \<in> set steps. name p = route_provider s \<and> q = p\<lparr>model_id := route_model s\<rparr>"
proof (induction steps)
  case (Cons s steps)
  then show ?case
    by (cases "find_provider ps (route_provider s)") (auto dest: find_provider_Some)
qed simp

text \<open>Every candidate is one of the enabled providers, up to its model.\<close>

lemma attempt_order_sound:
  assumes "attempt_order ps routing hint = Inr cs" and "c \<in> set cs"
  shows "\<exists>p \<in> set ps. enabled p \<and> c = p\<lparr>model_id := model_id c\<rparr>"
  using assms
  by (fastforce simp: attempt_order_def Let_def split: if_splits option.splits
      dest: find_provider_Some chain_candidates_sound)

lemma length_chain_candidates: "length (chain_candidates ps steps) \<le> length steps"
  by (induction steps) (auto split: option.split)

lemma chain_candidates_subseq:
  "subseq (map (\<lambda>c. (name c, model_id c)) (chain_candidates ps steps))
     (map (\<lambda>s. (route_provider s, route_model s)) steps)"
proof (induction steps)
  case (Cons s steps)
  then show ?case
    by (auto dest: find_provider_Some split: option.split)
qed simp

section \<open>Properties\<close>

text \<open>
  Automatic routing tries every enabled provider exactly once: those that serve the requested
  model first, each group by ascending tier, and equal tiers in configuration order.
\<close>

lemma auto_routing_order:
  assumes "hint \<noteq> []"
  shows "\<exists>preferred rest. attempt_order ps AUTO_ROUTING (Some hint) = Inr (preferred @ rest)
    \<and> mset preferred + mset rest = mset (filter enabled ps)
    \<and> list_all (prefers hint) preferred \<and> list_all (\<lambda>p. \<not> prefers hint p) rest
    \<and> sorted (map tier preferred) \<and> sorted (map tier rest)
    \<and> (\<forall>t. filter (\<lambda>p. tier p = t) preferred = filter (\<lambda>p. tier p = t \<and> prefers hint p) (filter enabled ps))"
proof -
  let ?s = "sort_key tier (filter enabled ps)"
  let ?pre = "filter (prefers hint) ?s" and ?rest = "filter (\<lambda>p. \<not> prefers hint p) ?s"
  have "attempt_order ps AUTO_ROUTING (Some hint) = Inr (?pre @ ?rest)"
    using auto_order_hint [OF assms] by (simp add: attempt_order_def AUTO_ROUTING_def Let_def)
  moreover have "mset ?pre + mset ?rest = mset (filter enabled ps)"
    by (simp flip: multiset_partition)
  moreover have "sorted (map tier ?pre)" "sorted (map tier ?rest)"
    by (simp_all add: sorted_filter)
  moreover have "filter (\<lambda>p. tier p = t) ?pre
      = filter (\<lambda>p. tier p = t \<and> prefers hint p) (filter enabled ps)" for t
  proof -
    have "filter (\<lambda>p. tier p = t) ?pre = filter (prefers hint) (filter (\<lambda>p. tier p = t) ?s)"
      by (simp add: conj_commute)
    also have "filter (\<lambda>p. tier p = t) ?s = filter (\<lambda>p. tier p = t) (filter enabled ps)"
      by (rule sort_key_stable)
    finally show ?thesis by (simp add: conj_ac)
  qed
  ultimately show ?thesis
    by (intro exI [of _ ?pre] exI [of _ ?rest]) (simp add: list_all_iff)
qed

lemma auto_routing_order_witness:
  "\<exists>preferred rest. attempt_order [] AUTO_ROUTING (Some (lit ''gpt'')) = Inr (preferred @ rest)"
  using auto_routing_order [of "lit ''gpt''" "[]"] by (auto simp: lit_def)

text \<open>
  Every candidate is one of the enabled providers, up to its model; pinned routing yields
  exactly the pinned provider with the pinned model, and chain routing yields steps of the chain
  in their order, with the steps' models.
\<close>

lemma attempt_order_routes:
  assumes "attempt_order ps routing hint = Inr cs"
  shows "list_all (\<lambda>c. \<exists>p \<in> set ps. enabled p \<and> c = p\<lparr>model_id := model_id c\<rparr>) cs
    \<and> (mode routing = lit ''pinned'' \<longrightarrow> (\<exists>r c. pinned routing = Some r \<and> cs = [c]
          \<and> name c = route_provider r \<and> model_id c = route_model r))
    \<and> (mode routing = lit ''chain'' \<longrightarrow>
          subseq (map (\<lambda>c. (name c, model_id c)) cs)
            (map (\<lambda>s. (route_provider s, route_model s)) (chain routing)))"
proof (intro conjI impI)
  show "list_all (\<lambda>c. \<exists>p \<in> set ps. enabled p \<and> c = p\<lparr>model_id := model_id c\<rparr>) cs"
    using attempt_order_sound [OF assms] by (simp add: list_all_iff)
  show "\<exists>r c. pinned routing = Some r \<and> cs = [c] \<and> name c = route_provider r
      \<and> model_id c = route_model r" if "mode routing = lit ''pinned''"
    using assms that
    by (auto simp: attempt_order_def Let_def split: option.splits dest!: find_provider_Some)
  show "subseq (map (\<lambda>c. (name c, model_id c)) cs)
      (map (\<lambda>s. (route_provider s, route_model s)) (chain routing))" if "mode routing = lit ''chain''"
    using assms that chain_candidates_subseq by (auto simp: attempt_order_def Let_def lit_eq_iff)
qed

abbreviation sample_provider :: "ustr \<Rightarrow> provider" where
  "sample_provider n \<equiv>
     \<lparr>name = n, tier = 1, enabled = True, model_id = lit ''m'', aliases = [], base_url = [],
      chat_path = [], api_key_env = [], auth_query = False, auth_param = [], extra_headers = [],
      max_context = 32000, vision = False, health_id = [], model_override = False,
      failover_on_400 = False\<rparr>"

lemma attempt_order_routes_witness:
  "\<exists>c. attempt_order [sample_provider (lit ''a'')]
      \<lparr>mode = lit ''pinned'', pinned = Some \<lparr>route_provider = lit ''a'', route_model = lit ''x''\<rparr>,
       chain = []\<rparr> None = Inr [c]
    \<and> name c = lit ''a'' \<and> model_id c = lit ''x''"
proof -
  let ?r = "\<lparr>mode = lit ''pinned'', pinned = Some \<lparr>route_provider = lit ''a'', route_model = lit ''x''\<rparr>,
       chain = []\<rparr>"
  have eval: "attempt_order [sample_provider (lit ''a'')] ?r None
      = Inr [(sample_provider (lit ''a''))\<lparr>model_id := lit ''x''\<rparr>]"
    by (simp add: attempt_order_def find_provider_def)
  from attempt_order_routes [OF this] show ?thesis using eval by simp
qed

text \<open>
  The model hint of a chain request only reorders the chain: the steps for the requested
  model come first, nothing is added or lost, and both groups keep their order.
\<close>

lemma chain_hint_reorders:
  "\<exists>matching others. chain_with_model_hint steps model = matching @ others
     \<and> mset matching + mset others = mset steps
     \<and> subseq matching steps \<and> subseq others steps
     \<and> (case model of Some m \<Rightarrow> m = [] \<or> (list_all (\<lambda>s. hint_model s = JStr m) matching
                                      \<and> list_all (\<lambda>s. hint_model s \<noteq> JStr m) others)
        | None \<Rightarrow> matching = [])"
proof (cases model)
  case None
  then show ?thesis by (intro exI [of _ "[]"] exI [of _ steps]) (simp add: chain_with_model_hint_def)
next
  case (Some m)
  let ?P = "\<lambda>s. hint_model s = JStr m"
  have "chain_with_model_hint steps model = filter ?P steps @ filter (\<lambda>s. \<not> ?P s) steps"
    if "m \<noteq> []"
  proof (cases "filter ?P steps = []")
    case True
    then have "filter (\<lambda>s. \<not> ?P s) steps = steps" by (auto simp: filter_empty_conv filter_id_conv)
    then show ?thesis using True Some that by (simp add: chain_with_model_hint_def)
  qed (use Some that in \<open>simp add: chain_with_model_hint_def\<close>)
  moreover have "mset (filter ?P steps) + mset (filter (\<lambda>s. \<not> ?P s) steps) = mset steps"
    by (simp flip: multiset_partition)
  ultimately show ?thesis using Some
    by (cases "m = []")
       (force simp: chain_with_model_hint_def list_all_iff intro: exI [of _ steps])+
qed

end
