(* ===== verification/Pipeline.thy ===== *)
theory Pipeline
  imports Relay Vision ToolCompression Selection
begin

text \<open>
  The payload of one upstream attempt (the send-time pipeline inside \<open>Router._iter_attempts\<close> of
  \<open>invincible/core/router.py\<close>): vision-extract, compress, relay, trim, vision-attach, then the
  tool schemas. Each stage is an interpretation of \<open>context_stage\<close>, and so is their composition.
\<close>

text \<open>The arguments of a routed request.\<close>

record route_request =
  messages :: "pydict list"
  tools :: "json list"
  tool_choice :: "json option"
  model :: "ustr option"
  stream :: bool
  overrides :: "pydict option"
  request_id :: ustr
  session_id :: "ustr option"
  session_pk :: scope

definition attach_stage :: "held \<Rightarrow> bool \<Rightarrow> pydict list \<Rightarrow> pydict list" where
  "attach_stage held capable ms =
     (case attach_images ms held capable of Some ms' \<Rightarrow> ms' | None \<Rightarrow> ms)"

definition compress_gate :: "env \<Rightarrow> pydict option \<Rightarrow> pydict list \<Rightarrow> pydict list" where
  "compress_gate e ov ms =
     (if override_flag ov (lit ''compression'') (compression_enabled e)
      then compress_messages DEFAULT_TOOL_RESULT_MAX_CHARS ms else ms)"

definition relay_gate :: "env \<Rightarrow> pydict option \<Rightarrow> pydict list \<Rightarrow> pydict list" where
  "relay_gate e ov ms =
     (if override_flag ov (lit ''relay'') (relay_enabled e) then fst (relay_messages e ms) else ms)"

definition send_messages ::
  "env \<Rightarrow> (ustr \<Rightarrow> json option) \<Rightarrow> route_request \<Rightarrow> provider \<Rightarrow> pydict list" where
  "send_messages e loads req p =
     (let (extracted, held) = extract_images loads (messages req);
          compressed = compress_gate e (overrides req) extracted;
          relayed = relay_gate e (overrides req) compressed;
          trimmed = trim_messages relayed (max_context p) RESERVE_TOKENS
      in attach_stage held (vision p) trimmed)"

definition build_payload ::
  "env \<Rightarrow> (ustr \<Rightarrow> json option) \<Rightarrow> route_request \<Rightarrow> provider \<Rightarrow> pydict" where
  "build_payload e loads req p =
     [(lit ''model'', JStr (model_id p)),
      (lit ''messages'', JList (map JObj (send_messages e loads req p)))]
     @ (if stream req then [(lit ''stream'', JBool True)] else [])
     @ (if tools req \<noteq> [] then [(lit ''tools'', JList (compress_tools e (tools req)))] else [])
     @ (case tool_choice req of
          Some c \<Rightarrow> if tools req \<noteq> [] then [(lit ''tool_choice'', c)] else []
        | None \<Rightarrow> [])"

fun estimate_json :: "json \<Rightarrow> int" where
  "estimate_json (JObj d) = estimate_tokens d"
| "estimate_json v = max 1 (int (length (dumps True v)) div 4)"

definition payload_tokens ::
  "env \<Rightarrow> (ustr \<Rightarrow> json option) \<Rightarrow> route_request \<Rightarrow> provider \<Rightarrow> int" where
  "payload_tokens e loads req p =
     turn_tokens (send_messages e loads req p)
     + (if tools req \<noteq> [] then sum_list (map estimate_json (compress_tools e (tools req))) else 0)"

section \<open>The gated stages and their composition\<close>

interpretation attach_stage: context_stage "attach_stage held capable"
proof
  fix ms
  have eq: "attach_stage held capable ms = ms
      \<or> attach_stage held capable ms = map (attach_message held) ms"
    by (simp add: attach_stage_def attach_images_def)
  have stage: "context_stage (map (attach_message held))" by (rule envelope_stage) simp
  show "\<exists>ds. map envelope (filter is_system (attach_stage held capable ms))
      = map envelope (filter is_system ms) @ ds"
    using eq context_stage.keeps_systems [OF stage] by auto
  show "\<exists>k. map envelope (filter (\<lambda>m. \<not> is_system m) (attach_stage held capable ms))
      = map envelope (concat (drop k (group_into_turns (filter (\<lambda>m. \<not> is_system m) ms))))"
    using eq context_stage.keeps_whole_turns [OF stage]
      context_stage.keeps_whole_turns [OF identity_stage] by auto
qed

interpretation compress_gate: context_stage "compress_gate e ov"
  by (cases "override_flag ov (lit ''compression'') (compression_enabled e)")
     (simp_all add: compress_gate_def [abs_def] compress_stage.context_stage_axioms identity_stage)

interpretation relay_gate: context_stage "relay_gate e ov"
  by (cases "override_flag ov (lit ''relay'') (relay_enabled e)")
     (simp_all add: relay_gate_def [abs_def] relay_stage.context_stage_axioms identity_stage)

interpretation extract_compress: context_stages "\<lambda>ms. fst (extract_images loads ms)" "compress_gate e ov"
  by unfold_locales

interpretation to_relay: context_stages
    "\<lambda>ms. compress_gate e ov (fst (extract_images loads ms))" "relay_gate e ov"
  by unfold_locales

interpretation to_trim: context_stages
    "\<lambda>ms. relay_gate e ov (compress_gate e ov (fst (extract_images loads ms)))"
    "\<lambda>ms. trim_messages ms budget reserve_tokens"
  by unfold_locales

interpretation pipeline: context_stages
    "\<lambda>ms. trim_messages (relay_gate e ov (compress_gate e ov (fst (extract_images loads ms))))
            budget reserve_tokens"
    "attach_stage held capable"
  by unfold_locales

lemma send_messages_eq:
  "send_messages e loads req p =
     attach_stage (snd (extract_images loads (messages req))) (vision p)
       (trim_messages (relay_gate e (overrides req)
          (compress_gate e (overrides req) (fst (extract_images loads (messages req)))))
        (max_context p) RESERVE_TOKENS)"
  by (simp add: send_messages_def Let_def case_prod_beta)

section \<open>Property\<close>

lemma send_messages_stage:
  "\<exists>k. map envelope (filter (\<lambda>m. \<not> is_system m) (send_messages e loads req p))
     = map envelope (concat (drop k (group_into_turns (filter (\<lambda>m. \<not> is_system m) (messages req)))))"
  unfolding send_messages_eq by (rule pipeline.both.keeps_whole_turns)

text \<open>
  C11: the messages of an upstream request are, up to their contents, the system messages of the
  conversation and a suffix of its whole turns. In a conversation whose turns answer their own
  tool calls, no tool result is ever sent without the call it answers, whatever combination of
  compression, relay, trimming and image handling applies.
\<close>

theorem sent_history_has_no_orphan_result:
  assumes "turns_closed (messages req)"
  shows "tools_answered [] (filter (\<lambda>m. \<not> is_system m) (send_messages e loads req p))
    \<and> (\<exists>k. map envelope (filter (\<lambda>m. \<not> is_system m) (send_messages e loads req p))
         = map envelope (concat (drop k (group_into_turns
             (filter (\<lambda>m. \<not> is_system m) (messages req))))))"
  using pipeline.both.stage_answered [OF assms] send_messages_stage by (simp add: send_messages_eq)

abbreviation plain_request :: "pydict list \<Rightarrow> route_request" where
  "plain_request ms \<equiv>
     \<lparr>messages = ms, tools = [], tool_choice = None, model = None, stream = False, overrides = None,
      request_id = lit ''r'', session_id = None, session_pk = Unscoped\<rparr>"

abbreviation tool_exchange :: "pydict list" where
  "tool_exchange \<equiv>
     [[(lit ''role'', JStr (lit ''user''))],
      [(lit ''role'', JStr (lit ''assistant'')),
       (lit ''tool_calls'', JList [JObj [(lit ''id'', JStr (lit ''c1''))]])],
      [(lit ''role'', JStr (lit ''tool'')), (lit ''tool_call_id'', JStr (lit ''c1''))]]"

lemma sent_history_has_no_orphan_result_witness:
  "tools_answered [] (filter (\<lambda>m. \<not> is_system m)
     (send_messages Map.empty (\<lambda>_. None) (plain_request tool_exchange) (sample_provider (lit ''a''))))"
proof -
  have "turns_closed (messages (plain_request tool_exchange))"
    by (simp add: turns_closed_def group_into_turns_def role_is_def dget_def call_ids_def)
  from sent_history_has_no_orphan_result [OF this] show ?thesis by blast
qed

text \<open>
  A user's stored \<open>relay: true\<close> does not win over a server that disables the relay: the stage
  reads the server default a second time and passes the history through, while a stored
  \<open>relay: false\<close> does switch it off.
\<close>

lemma relay_override_cannot_enable:
  "(relay_enabled e \<or> relay_gate e (Some [(lit ''relay'', JBool True)]) ms = ms)
   \<and> relay_gate e (Some [(lit ''relay'', JBool False)]) ms = ms"
  by (simp add: relay_gate_def relay_messages_def override_flag_def dhas_def dget_def)

end
