(* ===== verification/Health.thy ===== *)
theory Health
  imports Prelude Complex_Main
begin

text \<open>
  Cooldowns and disabling of providers (\<open>invincible/core/provider_health.py\<close>). Times are
  readings of \<open>time.monotonic()\<close>, rationals here. The locale \<open>health_gate\<close> is what the router
  relies on; the tracker interprets it.
\<close>

type_synonym time = rat

record provider_health =
  consecutive_failures :: nat
  cooldown_until :: "time option"

definition new_health :: provider_health where
  "new_health = \<lparr>consecutive_failures = 0, cooldown_until = None\<rparr>"

record tracker =
  healths :: "ustr \<rightharpoonup> provider_health"
  disabled :: "ustr set"

definition new_tracker :: tracker where
  "new_tracker = \<lparr>healths = Map.empty, disabled = {}\<rparr>"

text \<open>\<open>HealthTracker.get\<close> creates the entry on first use.\<close>

definition get_health :: "ustr \<Rightarrow> tracker \<Rightarrow> provider_health \<times> tracker" where
  "get_health name t = (case healths t name of
       Some h \<Rightarrow> (h, t)
     | None \<Rightarrow> (new_health, t\<lparr>healths := (healths t)(name \<mapsto> new_health)\<rparr>))"

definition put_health :: "ustr \<Rightarrow> provider_health \<Rightarrow> tracker \<Rightarrow> tracker" where
  "put_health name h t = t\<lparr>healths := (healths t)(name \<mapsto> h)\<rparr>"

definition cooldown_seconds :: "nat \<Rightarrow> int" where
  "cooldown_seconds failures = min (30 * 2 ^ (failures - 1)) 300"

definition record_failure :: "time \<Rightarrow> ustr \<Rightarrow> tracker \<Rightarrow> tracker" where
  "record_failure now name t =
     (let (health, t') = get_health name t;
          failures = Suc (consecutive_failures health)
      in put_health name
           \<lparr>consecutive_failures = failures,
            cooldown_until = Some (now + of_int (cooldown_seconds failures))\<rparr> t')"

definition record_success :: "ustr \<Rightarrow> tracker \<Rightarrow> tracker" where
  "record_success name t =
     (let (health, t') = get_health name t
      in put_health name \<lparr>consecutive_failures = 0, cooldown_until = None\<rparr> t')"

definition disable :: "ustr \<Rightarrow> tracker \<Rightarrow> tracker" where
  "disable name t =
     (let (health, t') = get_health name (t\<lparr>disabled := insert name (disabled t)\<rparr>)
      in put_health name (health\<lparr>cooldown_until := None\<rparr>) t')"

definition is_available :: "time \<Rightarrow> ustr \<Rightarrow> tracker \<Rightarrow> bool \<times> tracker" where
  "is_available now name t =
     (if name \<in> disabled t then (False, t)
      else let (health, t') = get_health name t
           in (case cooldown_until health of
                 None \<Rightarrow> (True, t')
               | Some until \<Rightarrow> (now > until, t')))"

text \<open>Reads without the lazily created entry.\<close>

definition health_of :: "ustr \<Rightarrow> tracker \<Rightarrow> provider_health" where
  "health_of name t = (case healths t name of Some h \<Rightarrow> h | None \<Rightarrow> new_health)"

definition available :: "time \<Rightarrow> ustr \<Rightarrow> tracker \<Rightarrow> bool" where
  "available now name t = fst (is_available now name t)"

section \<open>The operations on \<open>health_of\<close>\<close>

lemma fst_get_health [simp]: "fst (get_health n t) = health_of n t"
  by (simp add: get_health_def health_of_def split: option.split)

lemma health_of_get_health [simp]: "health_of m (snd (get_health n t)) = health_of m t"
  by (simp add: get_health_def health_of_def split: option.split)

lemma disabled_get_health [simp]: "disabled (snd (get_health n t)) = disabled t"
  by (simp add: get_health_def split: option.split)

lemma health_of_put_health [simp]:
  "health_of m (put_health n h t) = (if m = n then h else health_of m t)"
  by (simp add: put_health_def health_of_def)

lemma disabled_put_health [simp]: "disabled (put_health n h t) = disabled t"
  by (simp add: put_health_def)

lemma health_of_disabled_update [simp]: "health_of m (t\<lparr>disabled := d\<rparr>) = health_of m t"
  by (simp add: health_of_def)

lemma health_of_record_failure [simp]:
  "health_of m (record_failure now n t) =
     (if m = n then
        \<lparr>consecutive_failures = Suc (consecutive_failures (health_of n t)),
         cooldown_until = Some (now + of_int (cooldown_seconds (Suc (consecutive_failures (health_of n t)))))\<rparr>
      else health_of m t)"
  by (simp add: record_failure_def Let_def case_prod_beta)

lemma health_of_record_success [simp]:
  "health_of m (record_success n t) = (if m = n then new_health else health_of m t)"
  by (simp add: record_success_def Let_def case_prod_beta new_health_def)

lemma health_of_disable [simp]:
  "health_of m (disable n t) =
     (if m = n then (health_of n t)\<lparr>cooldown_until := None\<rparr> else health_of m t)"
  by (simp add: disable_def Let_def case_prod_beta)

lemma health_of_is_available [simp]: "health_of m (snd (is_available now n t)) = health_of m t"
  by (simp add: is_available_def Let_def case_prod_beta split: option.split)

lemma disabled_ops [simp]:
  "disabled (record_failure now n t) = disabled t"
  "disabled (record_success n t) = disabled t"
  "disabled (disable n t) = insert n (disabled t)"
  "disabled (snd (is_available now n t)) = disabled t"
  by (simp_all add: record_failure_def record_success_def disable_def is_available_def Let_def
      case_prod_beta split: option.split)

lemma available_iff:
  "available now n t \<longleftrightarrow> n \<notin> disabled t
     \<and> (case cooldown_until (health_of n t) of None \<Rightarrow> True | Some u \<Rightarrow> now > u)"
  by (simp add: available_def is_available_def Let_def case_prod_beta split: option.split)

lemma cooldown_seconds_bounds: "30 \<le> cooldown_seconds n \<and> cooldown_seconds n \<le> 300"
  by (simp add: cooldown_seconds_def)

lemma cooldown_seconds_mono: "m \<le> n \<Longrightarrow> cooldown_seconds m \<le> cooldown_seconds n"
  unfolding cooldown_seconds_def
  by (intro min.mono mult_left_mono power_increasing diff_le_mono) simp_all

section \<open>What the router relies on\<close>

datatype health_event = Failed time ustr | Succeeded ustr | Disabled ustr | Asked time ustr

fun event_key :: "health_event \<Rightarrow> ustr" where
  "event_key (Failed now n) = n"
| "event_key (Succeeded n) = n"
| "event_key (Disabled n) = n"
| "event_key (Asked now n) = n"

locale health_gate =
  fixes gate_open :: "time \<Rightarrow> ustr \<Rightarrow> 't \<Rightarrow> bool"
    and gate_step :: "health_event \<Rightarrow> 't \<Rightarrow> 't"
    and gate_dead :: "ustr \<Rightarrow> 't \<Rightarrow> bool"
  assumes dead_closed: "gate_dead n t \<Longrightarrow> \<not> gate_open now n t"
    and dead_forever: "gate_dead n t \<Longrightarrow> gate_dead n (gate_step e t)"
    and disabled_dead: "gate_dead n (gate_step (Disabled n) t)"
    and failed_closed: "now' \<le> now + 30 \<Longrightarrow> \<not> gate_open now' n (gate_step (Failed now n) t)"
    and failed_reopens:
      "\<not> gate_dead n t \<Longrightarrow> now + 300 < now' \<Longrightarrow> gate_open now' n (gate_step (Failed now n) t)"
    and succeeded_open: "\<not> gate_dead n t \<Longrightarrow> gate_open now n (gate_step (Succeeded n) t)"
    and asked_frame: "gate_open now n (gate_step (Asked now' m) t) = gate_open now n t"
    and other_frame: "event_key e \<noteq> n \<Longrightarrow> gate_open now n (gate_step e t) = gate_open now n t"
begin

definition gate_run :: "health_event list \<Rightarrow> 't \<Rightarrow> 't" where
  "gate_run es t = fold gate_step es t"

lemma dead_run: "gate_dead n t \<Longrightarrow> gate_dead n (gate_run es t)"
  unfolding gate_run_def by (induction es arbitrary: t) (simp_all add: dead_forever)

lemma disabled_run: "Disabled n \<in> set es \<Longrightarrow> \<not> gate_open now n (gate_run es t)"
proof -
  assume "Disabled n \<in> set es"
  then obtain xs ys where "es = xs @ Disabled n # ys" by (auto dest: split_list)
  then have "gate_run es t = gate_run ys (gate_step (Disabled n) (gate_run xs t))"
    by (simp add: gate_run_def)
  then show ?thesis using dead_run disabled_dead dead_closed by simp
qed

lemma isolated_run:
  "list_all (\<lambda>e. event_key e \<noteq> n) es \<Longrightarrow> gate_open now n (gate_run es t) = gate_open now n t"
  unfolding gate_run_def by (induction es arbitrary: t) (simp_all add: other_frame)

end

fun health_step :: "health_event \<Rightarrow> tracker \<Rightarrow> tracker" where
  "health_step (Failed now n) t = record_failure now n t"
| "health_step (Succeeded n) t = record_success n t"
| "health_step (Disabled n) t = disable n t"
| "health_step (Asked now n) t = snd (is_available now n t)"

lemma cooldown_seconds_rat:
  "(30 :: rat) \<le> of_int (cooldown_seconds k)" "of_int (cooldown_seconds k) \<le> (300 :: rat)"
  using cooldown_seconds_bounds [of k] by linarith+

interpretation health: health_gate available health_step "\<lambda>n t. n \<in> disabled t"
proof
  fix n t and now now' :: time
  let ?c = "of_int (cooldown_seconds (Suc (consecutive_failures (health_of n t)))) :: rat"
  show "\<not> available now' n (health_step (Failed now n) t)" if "now' \<le> now + 30"
  proof -
    have "now' \<le> now + ?c" using that cooldown_seconds_rat(1) by (rule order_trans [OF _ add_left_mono])
    then show ?thesis by (simp add: available_iff)
  qed
  show "available now' n (health_step (Failed now n) t)" if "n \<notin> disabled t" "now + 300 < now'"
  proof -
    have "now + ?c < now'" using that(2) cooldown_seconds_rat(2) by (rule le_less_trans [OF add_left_mono, rotated])
    then show ?thesis using that(1) by (simp add: available_iff)
  qed
next
  fix n t e and now :: time assume "event_key e \<noteq> n"
  then show "available now n (health_step e t) = available now n t"
    by (cases e) (simp_all add: available_iff)
next
  fix n e and t :: tracker assume "n \<in> disabled t"
  then show "n \<in> disabled (health_step e t)" by (cases e) simp_all
qed (simp_all add: available_iff new_health_def)

section \<open>Properties\<close>

lemma failures_after_failures:
  "consecutive_failures (health_of n (fold (\<lambda>now. record_failure now n) ts t))
     = consecutive_failures (health_of n t) + length ts"
  by (induction ts arbitrary: t) simp_all

lemma disabled_after_failures:
  "disabled (fold (\<lambda>now. record_failure now n) ts t) = disabled t"
  by (induction ts arbitrary: t) simp_all

text \<open>
  After \<open>k\<close> consecutive failures a provider is out for \<open>30 * 2^(k-1)\<close> seconds from the last
  one, at most 300, and is available again strictly after that; how long the failures lie apart
  does not matter.
\<close>

lemma cooldown_schedule:
  assumes "ts \<noteq> []" and "n \<notin> disabled t" and "consecutive_failures (health_of n t) = 0"
  shows "available now n (fold (\<lambda>now. record_failure now n) ts t) \<longleftrightarrow>
    last ts + of_int (min (30 * 2 ^ (length ts - 1)) 300) < now"
proof -
  obtain us x where "ts = us @ [x]" using assms(1) by (cases ts rule: rev_cases) auto
  then show ?thesis using assms(2,3)
    by (simp add: available_iff disabled_after_failures failures_after_failures cooldown_seconds_def)
qed

lemma cooldown_schedule_witness:
  "available 161 (lit ''p'') (fold (\<lambda>now. record_failure now (lit ''p'')) [0, 20, 40] new_tracker)
   \<and> \<not> available 160 (lit ''p'') (fold (\<lambda>now. record_failure now (lit ''p'')) [0, 20, 40] new_tracker)"
  using cooldown_schedule [of "[0, 20, 40]" "lit ''p''" new_tracker 161]
    cooldown_schedule [of "[0, 20, 40]" "lit ''p''" new_tracker 160]
  by (simp add: new_tracker_def health_of_def new_health_def)

text \<open>
  Health is kept per key. Whatever happens to other providers, a provider's availability stays
  what it was, and one that was disabled (401/403) never becomes available again.
\<close>

lemma health_isolated_and_disabled_forever:
  "(list_all (\<lambda>e. event_key e \<noteq> n) es \<longrightarrow>
      available now n (fold health_step es t) = available now n t)
   \<and> (Disabled n \<in> set es \<longrightarrow> \<not> available now n (fold health_step es t))"
  using health.isolated_run [of n es now t] health.disabled_run [of n es now t]
  by (simp add: health.gate_run_def)

lemma health_isolated_and_disabled_forever_witness:
  "\<not> available 1000 (lit ''a'') (fold health_step
      [Disabled (lit ''a''), Succeeded (lit ''a''), Failed 1 (lit ''b'')] new_tracker)
   \<and> available 0 (lit ''a'') (fold health_step [Disabled (lit ''b'')] new_tracker)"
  using health_isolated_and_disabled_forever
      [of "lit ''a''" "[Disabled (lit ''a''), Succeeded (lit ''a''), Failed 1 (lit ''b'')]" 1000 new_tracker]
    health_isolated_and_disabled_forever [of "lit ''a''" "[Disabled (lit ''b'')]" 0 new_tracker]
  by (simp add: available_iff new_tracker_def health_of_def new_health_def)

end
