(* ===== verification/Attempt.thy ===== *)
theory Attempt
  imports Pipeline Health
begin

text \<open>
  One upstream attempt (\<open>Router._attempt_nonstreaming\<close>, \<open>Router._attempt_streaming\<close> and their
  helpers in \<open>invincible/core/router.py\<close>; \<open>auth_headers\<close>, \<open>auth_params\<close> of \<open>core/config.py\<close>).
  The upstream is the environment: an exchange is either a transport error or a response, and
  \<open>json.loads\<close> is an argument. Logging and the opt-in debug dumps are not modelled.
\<close>

section \<open>The server-sent-event reader (\<open>_iter_stream\<close>)\<close>

text \<open>
  What the reader yields, in order. A list that ends without \<open>Malformed\<close> or \<open>Dropped\<close> is a
  stream that ended cleanly; \<open>Dropped\<close> carries the transport error's class name and whether it is
  a timeout.
\<close>

datatype stream_event = Chunk json | Malformed | Dropped ustr bool

definition upper_ascii :: "ustr \<Rightarrow> ustr" where
  "upper_ascii s = map (\<lambda>c. if 97 \<le> c \<and> c \<le> 122 then c - 32 else c) s"

definition strip_chars :: "ustr \<Rightarrow> ustr \<Rightarrow> ustr" where
  "strip_chars cs s = rev (dropWhile (\<lambda>c. c \<in> set cs) (rev (dropWhile (\<lambda>c. c \<in> set cs) s)))"

definition is_done :: "ustr \<Rightarrow> bool" where
  "is_done s \<longleftrightarrow> strip_chars (lit ''[] '' @ [9]) (upper_ascii s) = lit ''DONE''"

datatype flush_result = NoChunk | Flushed json | FlushRaised

definition flush :: "(ustr \<Rightarrow> json option) \<Rightarrow> bool \<Rightarrow> ustr \<Rightarrow> flush_result" where
  "flush loads parsed_any pending =
     (if pending = [] then NoChunk
      else case loads pending of
          Some JNull \<Rightarrow> NoChunk
        | Some j \<Rightarrow> Flushed j
        | None \<Rightarrow> if parsed_any then NoChunk else FlushRaised)"

definition end_of_stream :: "(ustr \<Rightarrow> json option) \<Rightarrow> bool \<Rightarrow> ustr \<Rightarrow> stream_event list" where
  "end_of_stream loads parsed_any buffer = (case flush loads parsed_any buffer of
       NoChunk \<Rightarrow> [] | Flushed j \<Rightarrow> [Chunk j] | FlushRaised \<Rightarrow> [Malformed])"

text \<open>\<open>broken\<close>: the connection fails after the given lines instead of ending.\<close>

fun iter_stream ::
  "(ustr \<Rightarrow> json option) \<Rightarrow> (ustr \<times> bool) option \<Rightarrow> ustr \<Rightarrow> bool \<Rightarrow> ustr list
   \<Rightarrow> stream_event list" where
  "iter_stream loads broken buffer parsed_any [] =
     (case broken of
        Some (cls, is_timeout) \<Rightarrow> [Dropped cls is_timeout]
      | None \<Rightarrow> end_of_stream loads parsed_any buffer)"
| "iter_stream loads broken buffer parsed_any (raw # lines) =
     (let line = strip raw in
      if line = [] \<or> is_prefix (lit '':'') line then
        (case flush loads parsed_any buffer of
           NoChunk \<Rightarrow> iter_stream loads broken [] parsed_any lines
         | Flushed j \<Rightarrow> Chunk j # iter_stream loads broken [] True lines
         | FlushRaised \<Rightarrow> [Malformed])
      else if \<not> is_prefix (lit ''data:'') line then iter_stream loads broken buffer parsed_any lines
      else
        let data = strip (drop 5 line) in
        if data \<noteq> [] \<and> is_done data then end_of_stream loads parsed_any buffer
        else if data = [] then iter_stream loads broken buffer parsed_any lines
        else (case loads (buffer @ data) of
            None \<Rightarrow> iter_stream loads broken (buffer @ data) parsed_any lines
          | Some j \<Rightarrow> Chunk j # iter_stream loads broken [] True lines))"

section \<open>Classification\<close>

record http_response =
  status :: int
  raises :: bool
  resp_body :: ustr
  resp_lines :: "ustr list"
  resp_broken :: "(ustr \<times> bool) option"

text \<open>
  \<open>raises\<close>: whether httpx's \<open>raise_for_status\<close> raises on the response. \<open>resp_lines\<close> and
  \<open>resp_broken\<close> are read by the streaming transport, \<open>resp_body\<close> by the other one and on
  errors. A transport error carries its class name and whether it is a \<open>TimeoutException\<close>.
\<close>

datatype exchange = NetError ustr bool | Responded http_response

definition status_wants_failover :: "provider \<Rightarrow> int \<Rightarrow> bool" where
  "status_wants_failover p s \<longleftrightarrow>
     s = 429 \<or> s \<in> {402, 404, 408, 413} \<or> s \<ge> 500 \<or> (s = 400 \<and> failover_on_400 p)"

definition model_not_served_markers :: "ustr list" where
  "model_not_served_markers =
     [lit ''not a valid model'', lit ''invalid model'', lit ''unknown model'',
      lit ''model not found'', lit ''model_not_found'', lit ''model does not exist'',
      lit ''no access to model'']"

definition is_model_not_served :: "json \<Rightarrow> bool" where
  "is_model_not_served parsed_body \<longleftrightarrow>
     list_ex (\<lambda>marker. contains marker (lower (dumps False parsed_body))) model_not_served_markers"

definition has_completion_choice :: "json \<Rightarrow> bool" where
  "has_completion_choice parsed \<longleftrightarrow>
     (case parsed of
        JObj d \<Rightarrow> (case dget d (lit ''choices'') of JList cs \<Rightarrow> cs \<noteq> [] | _ \<Rightarrow> False)
      | _ \<Rightarrow> False)"

definition parse_json_or_raw :: "(ustr \<Rightarrow> json option) \<Rightarrow> ustr \<Rightarrow> json" where
  "parse_json_or_raw loads b = (case loads b of
       Some j \<Rightarrow> j | None \<Rightarrow> JObj [(lit ''raw'', JStr b)])"

definition usage_int :: "pydict \<Rightarrow> ustr list \<Rightarrow> int option" where
  "usage_int usage ks =
     (case List.map_filter (\<lambda>k. case dget usage k of JInt i \<Rightarrow> Some i | _ \<Rightarrow> None) ks of
        [] \<Rightarrow> None | i # _ \<Rightarrow> Some i)"

definition extract_usage :: "json \<Rightarrow> int option \<times> int option" where
  "extract_usage parsed =
     (case parsed of
        JObj d \<Rightarrow> (case dget d (lit ''usage'') of
            JObj usage \<Rightarrow>
              (usage_int usage [lit ''prompt_tokens'', lit ''input_tokens''],
               usage_int usage [lit ''completion_tokens'', lit ''output_tokens''])
          | _ \<Rightarrow> (None, None))
      | _ \<Rightarrow> (None, None))"

definition error_kind :: "ustr \<Rightarrow> bool \<Rightarrow> ustr" where
  "error_kind cls is_timeout =
     (case map_of [(lit ''ConnectTimeout'', lit ''connect_timeout''),
                   (lit ''ReadTimeout'', lit ''read_timeout''),
                   (lit ''WriteTimeout'', lit ''write_timeout''),
                   (lit ''PoolTimeout'', lit ''pool_timeout''),
                   (lit ''TimeoutException'', lit ''timeout'')] cls of
        Some k \<Rightarrow> k
      | None \<Rightarrow> if is_timeout then lit ''timeout'' else lit ''network_error'')"

definition health_key :: "provider \<Rightarrow> ustr" where
  "health_key p = (if health_id p \<noteq> [] then health_id p else name p)"

section \<open>The request on the wire\<close>

definition rstrip_slash :: "ustr \<Rightarrow> ustr" where
  "rstrip_slash s = rev (dropWhile (\<lambda>c. c = 47) (rev s))"

definition request_url :: "provider \<Rightarrow> ustr" where
  "request_url p = rstrip_slash (base_url p) @ chat_path p"

definition auth_headers :: "provider \<Rightarrow> ustr \<Rightarrow> (ustr \<times> ustr) list" where
  "auth_headers p api_key =
     (let headers = (if auth_query p then [(lit ''Content-Type'', lit ''application/json'')]
                     else [(lit ''Authorization'', lit ''Bearer '' @ api_key),
                           (lit ''Content-Type'', lit ''application/json'')])
      in fold (\<lambda>(k, v) h. dset k v h) (extra_headers p) headers)"

definition auth_params :: "provider \<Rightarrow> ustr \<Rightarrow> (ustr \<times> ustr) list" where
  "auth_params p api_key = (if auth_query p then [(auth_param p, api_key)] else [])"

record wire_request =
  wire_provider :: provider
  wire_url :: ustr
  wire_headers :: "(ustr \<times> ustr) list"
  wire_params :: "(ustr \<times> ustr) list"
  wire_payload :: pydict

definition wire :: "provider \<Rightarrow> ustr \<Rightarrow> pydict \<Rightarrow> wire_request" where
  "wire p api_key payload =
     \<lparr>wire_provider = p, wire_url = request_url p, wire_headers = auth_headers p api_key,
      wire_params = auth_params p api_key, wire_payload = payload\<rparr>"

section \<open>The router's effects\<close>

datatype run_outcome = RunOk | RunFailover | RunDisabled | RunError

record run_row =
  run_provider :: ustr
  run_model :: ustr
  run_index :: nat
  run_outcome :: run_outcome
  run_error :: "ustr option"
  run_request :: ustr
  run_session :: "ustr option"
  run_session_pk :: "int option"
  run_input :: "int option"
  run_output :: "int option"
  run_estimated :: bool

record hook_call =
  hook_request :: ustr
  hook_session :: "ustr option"
  hook_pk :: scope
  hook_provider :: ustr
  hook_error :: ustr

text \<open>
  The state an attempt changes: the health tracker, the number of clock readings so far, the
  requests sent, the run rows recorded and the failover hook's calls.
\<close>

record world =
  tracker :: tracker
  ticks :: nat
  sent :: "wire_request list"
  runs :: "run_row list"
  hooks :: "hook_call list"

text \<open>
  The environment of the router: \<open>json.loads\<close>, the clock, the upstream's answer to the n-th
  request, the API key of a provider (empty: none), whether a run recorder and a failover hook
  are wired.
\<close>

record router_env =
  vars :: env
  loads :: "ustr \<Rightarrow> json option"
  clock :: "nat \<Rightarrow> time"
  upstream :: "nat \<Rightarrow> wire_request \<Rightarrow> exchange"
  key_of :: "provider \<Rightarrow> ustr"
  has_recorder :: bool
  has_hook :: bool

definition note_failure :: "router_env \<Rightarrow> provider \<Rightarrow> world \<Rightarrow> world" where
  "note_failure e p w =
     w\<lparr>tracker := record_failure (clock e (ticks w)) (health_key p) (tracker w),
       ticks := Suc (ticks w)\<rparr>"

definition note_success :: "provider \<Rightarrow> world \<Rightarrow> world" where
  "note_success p w = w\<lparr>tracker := record_success (health_key p) (tracker w)\<rparr>"

definition note_disabled :: "provider \<Rightarrow> world \<Rightarrow> world" where
  "note_disabled p w = w\<lparr>tracker := disable (health_key p) (tracker w)\<rparr>"

definition scope_value :: "scope \<Rightarrow> int option" where
  "scope_value s = (case s of Scoped i \<Rightarrow> Some i | _ \<Rightarrow> None)"

definition record_run ::
  "router_env \<Rightarrow> route_request \<Rightarrow> provider \<Rightarrow> nat \<Rightarrow> run_outcome \<Rightarrow> ustr option
   \<Rightarrow> int option \<Rightarrow> int option \<Rightarrow> bool \<Rightarrow> world \<Rightarrow> world" where
  "record_run e req p idx outcome err inp out est w =
     (if \<not> has_recorder e then w
      else w\<lparr>runs := runs w @
        [\<lparr>run_provider = name p, run_model = model_id p, run_index = idx,
          run_outcome = outcome, run_error = err, run_request = request_id req,
          run_session = session_id req, run_session_pk = scope_value (session_pk req),
          run_input = inp, run_output = out, run_estimated = est\<rparr>]\<rparr>)"

datatype served = Body json | Stream json "stream_event list"

datatype attempt_result =
    Served served
  | FailedOver ustr "(int \<times> json) option"
  | ClientError int json

definition fail_over ::
  "router_env \<Rightarrow> route_request \<Rightarrow> provider \<Rightarrow> nat \<Rightarrow> ustr \<Rightarrow> world \<Rightarrow> attempt_result \<times> world" where
  "fail_over e req p idx err w =
     (FailedOver err None,
      record_run e req p idx RunFailover (Some err) None None False (note_failure e p w))"

definition disable_provider ::
  "router_env \<Rightarrow> route_request \<Rightarrow> provider \<Rightarrow> nat \<Rightarrow> int \<Rightarrow> world \<Rightarrow> attempt_result \<times> world" where
  "disable_provider e req p idx s w =
     (FailedOver (dec s) None,
      record_run e req p idx RunDisabled (Some (dec s)) None None False (note_disabled p w))"

definition reject ::
  "router_env \<Rightarrow> route_request \<Rightarrow> provider \<Rightarrow> nat \<Rightarrow> http_response \<Rightarrow> world
   \<Rightarrow> attempt_result \<times> world" where
  "reject e req p idx resp w =
     (let parsed_body = parse_json_or_raw (loads e) (resp_body resp) in
      if status resp = 400 \<and> model_override p \<and> is_model_not_served parsed_body then
        (FailedOver (lit ''model_not_served'') (Some (status resp, parsed_body)),
         record_run e req p idx RunFailover (Some (lit ''model_not_served'')) None None False w)
      else
        (ClientError (status resp) parsed_body,
         record_run e req p idx RunError (Some (dec (status resp))) None None False w))"

definition attempt_nonstreaming ::
  "router_env \<Rightarrow> route_request \<Rightarrow> provider \<Rightarrow> nat \<Rightarrow> exchange \<Rightarrow> world
   \<Rightarrow> attempt_result \<times> world" where
  "attempt_nonstreaming e req p idx x w =
     (case x of
        NetError cls is_timeout \<Rightarrow> fail_over e req p idx (error_kind cls is_timeout) w
      | Responded resp \<Rightarrow>
          if status_wants_failover p (status resp) then fail_over e req p idx (dec (status resp)) w
          else if raises resp then
            (if status resp = 401 \<or> status resp = 403
             then disable_provider e req p idx (status resp) w
             else reject e req p idx resp w)
          else (case loads e (resp_body resp) of
              None \<Rightarrow> fail_over e req p idx (lit ''malformed_json'') w
            | Some parsed \<Rightarrow>
                if \<not> has_completion_choice parsed then fail_over e req p idx (lit ''empty_body'') w
                else
                  let (inp, out) = extract_usage parsed;
                      estimated = (out = None);
                      out' = (if estimated then Some (int (length (resp_body resp)) div 4) else out)
                  in (Served (Body parsed),
                      record_run e req p idx RunOk None inp out' estimated (note_success p w))))"

text \<open>
  The streaming transport. A stream counts as live once its first event is there; \<open>None\<close> from
  the reader (an empty stream, or a JSON \<open>null\<close> as the first event) is an empty stream.
\<close>

definition attempt_streaming ::
  "router_env \<Rightarrow> route_request \<Rightarrow> provider \<Rightarrow> nat \<Rightarrow> int \<Rightarrow> exchange \<Rightarrow> world
   \<Rightarrow> attempt_result \<times> world" where
  "attempt_streaming e req p idx est x w =
     (case x of
        NetError cls is_timeout \<Rightarrow> fail_over e req p idx (error_kind cls is_timeout) w
      | Responded resp \<Rightarrow>
          if status_wants_failover p (status resp) then fail_over e req p idx (dec (status resp)) w
          else if status resp = 401 \<or> status resp = 403
            then disable_provider e req p idx (status resp) w
          else if status resp \<ge> 400 then reject e req p idx resp w
          else
            (case iter_stream (loads e) (resp_broken resp) [] False (resp_lines resp) of
               [] \<Rightarrow> fail_over e req p idx (lit ''empty_stream'') w
             | Malformed # _ \<Rightarrow> fail_over e req p idx (lit ''malformed_sse'') w
             | Dropped cls is_timeout # _ \<Rightarrow> fail_over e req p idx (error_kind cls is_timeout) w
             | Chunk first # tail \<Rightarrow>
                 if first = JNull then fail_over e req p idx (lit ''empty_stream'') w
                 else (Served (Stream first tail),
                       record_run e req p idx RunOk None (Some est) None True (note_success p w))))"

section \<open>Property\<close>

text \<open>
  The transports disagree on a redirect, which httpx does not follow: the non-streaming one
  reports the status to the client, the streaming one reads it as a stream, and an empty one
  counts as a failure of the provider.
\<close>

lemma transports_differ_on_redirects:
  "attempt_nonstreaming e req p idx
     (Responded \<lparr>status = 302, raises = True, resp_body = [], resp_lines = [], resp_broken = None\<rparr>) w
   = (ClientError 302 (parse_json_or_raw (loads e) []),
      record_run e req p idx RunError (Some (dec 302)) None None False w)
   \<and> attempt_streaming e req p idx est
     (Responded \<lparr>status = 302, raises = True, resp_body = [], resp_lines = [], resp_broken = None\<rparr>) w
   = fail_over e req p idx (lit ''empty_stream'') w"
  by (simp add: attempt_nonstreaming_def attempt_streaming_def reject_def Let_def
      status_wants_failover_def end_of_stream_def flush_def)

end
