(* ===== verification/Router.thy ===== *)
theory Router
  imports Attempt "HOL-Library.Sublist"
begin

text \<open>
  The failover loop (\<open>Router._iter_attempts\<close> of \<open>invincible/core/router.py\<close>): candidates in
  order, cooldown and missing-key skips, one attempt per remaining candidate, the reactive
  failover hook, the resurfaced model error. Every call of the tracker reads the clock once.
\<close>

datatype route_error =
    NoCredentials
  | AllProvidersFailed
  | PinnedFailed ustr
  | UpstreamClient int json
  | SelectFailed py_error

record route_info =
  info_request :: ustr
  info_provider :: ustr
  info_model :: ustr
  info_attempts :: nat

type_synonym route_outcome = "route_error + served \<times> route_info"

text \<open>The cooldown gate of one candidate.\<close>

definition admit :: "router_env \<Rightarrow> provider \<Rightarrow> world \<Rightarrow> bool \<times> world" where
  "admit e p w =
     (let (ok, t) = is_available (clock e (ticks w)) (health_key p) (tracker w)
      in (ok, w\<lparr>tracker := t, ticks := Suc (ticks w)\<rparr>))"

definition wire_of :: "router_env \<Rightarrow> route_request \<Rightarrow> provider \<Rightarrow> wire_request" where
  "wire_of e req p = wire p (key_of e p) (build_payload (vars e) (loads e) req p)"

definition attempt ::
  "router_env \<Rightarrow> route_request \<Rightarrow> provider \<Rightarrow> nat \<Rightarrow> world \<Rightarrow> attempt_result \<times> world" where
  "attempt e req p idx w =
     (let r = wire_of e req p;
          x = upstream e (length (sent w)) r;
          w' = w\<lparr>sent := sent w @ [r]\<rparr>
      in if stream req
         then attempt_streaming e req p idx (payload_tokens (vars e) (loads e) req p) x w'
         else attempt_nonstreaming e req p idx x w')"

definition checkpoints :: "router_env \<Rightarrow> route_request \<Rightarrow> bool" where
  "checkpoints e req \<longleftrightarrow> has_hook e \<and> (session_pk req \<noteq> Unscoped \<or> session_id req \<noteq> None)"

definition fire_hook ::
  "router_env \<Rightarrow> route_request \<Rightarrow> provider \<Rightarrow> ustr \<Rightarrow> bool \<Rightarrow> world \<Rightarrow> bool \<times> world" where
  "fire_hook e req p err fired w =
     (if checkpoints e req \<and> \<not> fired then
        (True, w\<lparr>hooks := hooks w @
           [\<lparr>hook_request = request_id req, hook_session = session_id req,
             hook_pk = session_pk req, hook_provider = name p, hook_error = err\<rparr>]\<rparr>)
      else (fired, w))"

fun iter_attempts ::
  "router_env \<Rightarrow> route_request \<Rightarrow> nat \<Rightarrow> bool \<Rightarrow> (int \<times> json) option \<Rightarrow> provider list \<Rightarrow> world
   \<Rightarrow> route_outcome \<times> world" where
  "iter_attempts e req idx fired last_error [] w =
     (case last_error of
        Some (s, b) \<Rightarrow> (Inl (UpstreamClient s b), w)
      | None \<Rightarrow> (Inl AllProvidersFailed, w))"
| "iter_attempts e req idx fired last_error (p # ps) w =
     (let (ok, w1) = admit e p w in
      if \<not> ok then iter_attempts e req idx fired last_error ps w1
      else if key_of e p = [] then iter_attempts e req idx fired last_error ps w1
      else
        (case attempt e req p (Suc idx) w1 of
           (Served v, w2) \<Rightarrow>
             (Inr (v, \<lparr>info_request = request_id req, info_provider = name p,
                       info_model = model_id p, info_attempts = Suc idx\<rparr>), w2)
         | (ClientError s b, w2) \<Rightarrow> (Inl (UpstreamClient s b), w2)
         | (FailedOver err superseded, w2) \<Rightarrow>
             let (fired', w3) = fire_hook e req p err fired w2;
                 last' = (case superseded of None \<Rightarrow> last_error | Some c \<Rightarrow> Some c)
             in iter_attempts e req (Suc idx) fired' last' ps w3))"

text \<open>The start of a request: the user's own credentials when there are any to consult, the
  static configuration otherwise.\<close>

definition override_model :: "route_request \<Rightarrow> routing_config \<Rightarrow> provider list \<Rightarrow> provider list" where
  "override_model req routing cs =
     (case model req of
        Some m \<Rightarrow>
          if m \<noteq> [] \<and> mode routing = lit ''auto''
          then map (\<lambda>c. c\<lparr>model_id := m, model_override := True\<rparr>) cs else cs
      | None \<Rightarrow> cs)"

definition candidates ::
  "provider list \<Rightarrow> route_request \<Rightarrow> provider list option \<Rightarrow> routing_config option
   \<Rightarrow> route_error + provider list" where
  "candidates static req byok routing =
     (case byok of
        Some ps \<Rightarrow>
          if ps = [] then Inl NoCredentials
          else let r = (case routing of Some r \<Rightarrow> r | None \<Rightarrow> AUTO_ROUTING) in
            (case attempt_order ps r (model req) of
               Inl (PinnedUnavailable n) \<Rightarrow> Inl (PinnedFailed n)
             | Inl (SelectRaised x) \<Rightarrow> Inl (SelectFailed x)
             | Inr cs \<Rightarrow> Inr (override_model req r cs))
      | None \<Rightarrow>
          (case attempt_order static AUTO_ROUTING (model req) of
             Inl (PinnedUnavailable n) \<Rightarrow> Inl (PinnedFailed n)
           | Inl (SelectRaised x) \<Rightarrow> Inl (SelectFailed x)
           | Inr cs \<Rightarrow> Inr cs))"

definition route ::
  "router_env \<Rightarrow> provider list \<Rightarrow> route_request \<Rightarrow> provider list option \<Rightarrow> routing_config option
   \<Rightarrow> world \<Rightarrow> route_outcome \<times> world" where
  "route e static req byok routing w =
     (case candidates static req byok routing of
        Inl x \<Rightarrow> (Inl x, w)
      | Inr cs \<Rightarrow> iter_attempts e req 0 False None cs w)"

text \<open>What the endpoints report of the attempt that served the request (\<open>compat/common.py\<close>).\<close>

definition route_headers :: "route_info option \<Rightarrow> (ustr \<times> ustr) list" where
  "route_headers info = (case info of
       None \<Rightarrow> []
     | Some i \<Rightarrow>
         [(lit ''x-invincible-provider'', info_provider i), (lit ''x-invincible-model'', info_model i),
          (lit ''x-invincible-attempts'', dec (int (info_attempts i))),
          (lit ''x-invincible-request-id'', info_request i)])"

section \<open>What one attempt changes\<close>

fun outcome_fits :: "attempt_result \<Rightarrow> run_outcome \<Rightarrow> bool" where
  "outcome_fits (Served v) out \<longleftrightarrow> out = RunOk"
| "outcome_fits (FailedOver err c) out \<longleftrightarrow> out = RunFailover \<or> out = RunDisabled"
| "outcome_fits (ClientError s b) out \<longleftrightarrow> out = RunError"

definition row_of :: "route_request \<Rightarrow> provider \<Rightarrow> nat \<Rightarrow> attempt_result \<Rightarrow> run_row \<Rightarrow> bool" where
  "row_of req p idx r row \<longleftrightarrow>
     run_provider row = name p \<and> run_model row = model_id p \<and> run_index row = idx
     \<and> run_request row = request_id req \<and> outcome_fits r (run_outcome row)"

text \<open>An attempt at \<open>p\<close> touches only the health of \<open>p\<close>, sends nothing itself, and records one
  row that fits its result.\<close>

definition attempt_frame ::
  "router_env \<Rightarrow> route_request \<Rightarrow> provider \<Rightarrow> nat \<Rightarrow> world \<Rightarrow> attempt_result \<times> world \<Rightarrow> bool" where
  "attempt_frame e req p idx w rw \<longleftrightarrow>
     sent (snd rw) = sent w \<and> hooks (snd rw) = hooks w
     \<and> disabled (tracker w) \<subseteq> disabled (tracker (snd rw))
     \<and> (\<forall>n. n \<noteq> health_key p \<longrightarrow> health_of n (tracker (snd rw)) = health_of n (tracker w)
            \<and> (n \<in> disabled (tracker (snd rw)) \<longleftrightarrow> n \<in> disabled (tracker w)))
     \<and> (\<exists>row. row_of req p idx (fst rw) row
            \<and> runs (snd rw) = runs w @ (if has_recorder e then [row] else []))"

lemma record_run_fields [frame_simps]:
  "sent (record_run e req p idx out err i u est w) = sent w"
  "hooks (record_run e req p idx out err i u est w) = hooks w"
  "tracker (record_run e req p idx out err i u est w) = tracker w"
  "ticks (record_run e req p idx out err i u est w) = ticks w"
  by (simp_all add: record_run_def)

lemma note_fields [frame_simps]:
  "sent (note_failure e p w) = sent w" "hooks (note_failure e p w) = hooks w"
  "runs (note_failure e p w) = runs w"
  "sent (note_success p w) = sent w" "hooks (note_success p w) = hooks w"
  "runs (note_success p w) = runs w"
  "sent (note_disabled p w) = sent w" "hooks (note_disabled p w) = hooks w"
  "runs (note_disabled p w) = runs w"
  by (simp_all add: note_failure_def note_success_def note_disabled_def)

lemma note_trackers [frame_simps]:
  "tracker (note_failure e p w) = record_failure (clock e (ticks w)) (health_key p) (tracker w)"
  "tracker (note_success p w) = record_success (health_key p) (tracker w)"
  "tracker (note_disabled p w) = disable (health_key p) (tracker w)"
  by (simp_all add: note_failure_def note_success_def note_disabled_def)

lemma recorded_row:
  "outcome_fits r out \<Longrightarrow> \<exists>row. row_of req p idx r row
     \<and> runs (record_run e req p idx out err i u est w) = runs w @ (if has_recorder e then [row] else [])"
  by (rule exI [of _ "\<lparr>run_provider = name p, run_model = model_id p, run_index = idx,
        run_outcome = out, run_error = err, run_request = request_id req,
        run_session = session_id req, run_session_pk = scope_value (session_pk req),
        run_input = i, run_output = u, run_estimated = est\<rparr>"])
     (simp add: record_run_def row_of_def)

lemma fail_over_frame: "attempt_frame e req p idx w (fail_over e req p idx err w)"
  unfolding attempt_frame_def fail_over_def
  using recorded_row [of "FailedOver err None" RunFailover req p idx e "Some err" None None False
      "note_failure e p w"]
  by (auto simp: frame_simps)

lemma disable_provider_frame: "attempt_frame e req p idx w (disable_provider e req p idx s w)"
  unfolding attempt_frame_def disable_provider_def
  using recorded_row [of "FailedOver (dec s) None" RunDisabled req p idx e "Some (dec s)" None None
      False "note_disabled p w"]
  by (auto simp: frame_simps)

lemma reject_frame: "attempt_frame e req p idx w (reject e req p idx resp w)"
proof -
  let ?b = "parse_json_or_raw (loads e) (resp_body resp)"
  show ?thesis
    unfolding attempt_frame_def reject_def Let_def
    using recorded_row [of "FailedOver (lit ''model_not_served'') (Some (status resp, ?b))"
        RunFailover req p idx e "Some (lit ''model_not_served'')" None None False w]
      recorded_row [of "ClientError (status resp) ?b" RunError req p idx e
        "Some (dec (status resp))" None None False w]
    by (auto simp: frame_simps)
qed

lemma served_frame:
  "attempt_frame e req p idx w (Served v, record_run e req p idx RunOk None i u est (note_success p w))"
  unfolding attempt_frame_def
  using recorded_row [of "Served v" RunOk req p idx e None i u est "note_success p w"]
  by (auto simp: frame_simps)

lemmas attempt_frames = fail_over_frame disable_provider_frame reject_frame served_frame

lemma attempt_nonstreaming_frame: "attempt_frame e req p idx w (attempt_nonstreaming e req p idx x w)"
  by (simp add: attempt_nonstreaming_def Let_def case_prod_beta attempt_frames
      split: exchange.split option.split)

lemma attempt_streaming_frame: "attempt_frame e req p idx w (attempt_streaming e req p idx est x w)"
  by (simp add: attempt_streaming_def attempt_frames
      split: exchange.split list.split stream_event.split)

lemma attempt_frame_sent:
  "attempt_frame e req p idx (w\<lparr>sent := sent w @ [wire_of e req p]\<rparr>) (attempt e req p idx w)"
  by (simp add: attempt_def Let_def attempt_streaming_frame attempt_nonstreaming_frame)

lemma admit_fields [frame_simps]:
  "fst (admit e p w) = available (clock e (ticks w)) (health_key p) (tracker w)"
  "sent (snd (admit e p w)) = sent w" "hooks (snd (admit e p w)) = hooks w"
  "runs (snd (admit e p w)) = runs w"
  "disabled (tracker (snd (admit e p w))) = disabled (tracker w)"
  "health_of n (tracker (snd (admit e p w))) = health_of n (tracker w)"
  by (simp_all add: admit_def case_prod_beta available_def)

lemma fire_hook_fields [frame_simps]:
  "sent (snd (fire_hook e req p err fired w)) = sent w"
  "runs (snd (fire_hook e req p err fired w)) = runs w"
  "tracker (snd (fire_hook e req p err fired w)) = tracker w"
  "fst (fire_hook e req p err fired w) \<longleftrightarrow> fired \<or> checkpoints e req"
  by (auto simp: fire_hook_def)

section \<open>The attempts of a request\<close>

text \<open>The loop as a relation: \<open>ts\<close> lists the candidates that were contacted, with their results.\<close>

inductive walk ::
  "router_env \<Rightarrow> route_request \<Rightarrow> nat \<Rightarrow> bool \<Rightarrow> provider list \<Rightarrow> world
   \<Rightarrow> (provider \<times> attempt_result) list \<Rightarrow> world \<Rightarrow> bool" for e req where
  walk_end: "walk e req idx fired [] w [] w"
| walk_skip: "\<lbrakk>admit e p w = (ok, w1); \<not> ok \<or> key_of e p = [];
     walk e req idx fired ps w1 ts w'\<rbrakk> \<Longrightarrow> walk e req idx fired (p # ps) w ts w'"
| walk_stop: "\<lbrakk>admit e p w = (True, w1); key_of e p \<noteq> [];
     attempt e req p (Suc idx) w1 = (r, w'); \<forall>err c. r \<noteq> FailedOver err c\<rbrakk> \<Longrightarrow>
     walk e req idx fired (p # ps) w [(p, r)] w'"
| walk_next: "\<lbrakk>admit e p w = (True, w1); key_of e p \<noteq> [];
     attempt e req p (Suc idx) w1 = (FailedOver err c, w2);
     fire_hook e req p err fired w2 = (fired', w3);
     walk e req (Suc idx) fired' ps w3 ts w'\<rbrakk> \<Longrightarrow>
     walk e req idx fired (p # ps) w ((p, FailedOver err c) # ts) w'"

fun verdict ::
  "route_request \<Rightarrow> nat \<Rightarrow> (int \<times> json) option \<Rightarrow> (provider \<times> attempt_result) list \<Rightarrow> route_outcome" where
  "verdict req idx last_error [] = (case last_error of
       Some (s, b) \<Rightarrow> Inl (UpstreamClient s b) | None \<Rightarrow> Inl AllProvidersFailed)"
| "verdict req idx last_error ((p, Served v) # ts) =
     Inr (v, \<lparr>info_request = request_id req, info_provider = name p, info_model = model_id p,
              info_attempts = Suc idx\<rparr>)"
| "verdict req idx last_error ((p, ClientError s b) # ts) = Inl (UpstreamClient s b)"
| "verdict req idx last_error ((p, FailedOver err c) # ts) =
     verdict req (Suc idx) (case c of None \<Rightarrow> last_error | Some x \<Rightarrow> Some x) ts"

fun failed_over :: "attempt_result \<Rightarrow> bool" where
  "failed_over (FailedOver err c) \<longleftrightarrow> True"
| "failed_over r \<longleftrightarrow> False"

lemma iter_attempts_walk:
  "iter_attempts e req idx fired last_error ps w = (out, w') \<Longrightarrow>
   \<exists>ts. walk e req idx fired ps w ts w' \<and> out = verdict req idx last_error ts"
proof (induction ps arbitrary: idx fired last_error w)
  case Nil
  then show ?case by (intro exI [of _ "[]"]) (auto intro: walk_end split: option.splits)
next
  case (Cons p ps)
  obtain ok w1 where adm: "admit e p w = (ok, w1)" by fastforce
  show ?case
  proof (cases "\<not> ok \<or> key_of e p = []")
    case True
    then have "iter_attempts e req idx fired last_error ps w1 = (out, w')"
      using Cons.prems adm by (cases ok) auto
    from Cons.IH [OF this] show ?thesis using walk_skip [OF adm True] by blast
  next
    case False
    obtain r w2 where att: "attempt e req p (Suc idx) w1 = (r, w2)" by fastforce
    show ?thesis
    proof (cases r)
      case (FailedOver err c)
      obtain fired' w3 where hook: "fire_hook e req p err fired w2 = (fired', w3)" by fastforce
      have "iter_attempts e req (Suc idx) fired' (case c of None \<Rightarrow> last_error | Some x \<Rightarrow> Some x)
          ps w3 = (out, w')"
        using Cons.prems adm False att FailedOver hook by auto
      from Cons.IH [OF this] obtain ts where "walk e req (Suc idx) fired' ps w3 ts w'"
        and "out = verdict req (Suc idx) (case c of None \<Rightarrow> last_error | Some x \<Rightarrow> Some x) ts" by blast
      then show ?thesis
        using walk_next [OF _ _ att [unfolded FailedOver] hook] adm False FailedOver
        by (intro exI [of _ "(p, r) # ts"]) auto
    qed (use Cons.prems adm False att walk_stop [OF _ _ att] in
        \<open>auto intro!: exI [of _ "[(p, r)]"]\<close>)
  qed
qed

lemma attempt_fields:
  assumes "attempt e req p idx w = (r, w')"
  shows "sent w' = sent w @ [wire_of e req p]" and "hooks w' = hooks w"
    and "disabled (tracker w) \<subseteq> disabled (tracker w')"
    and "n \<noteq> health_key p \<Longrightarrow> health_of n (tracker w') = health_of n (tracker w)"
    and "n \<noteq> health_key p \<Longrightarrow> n \<in> disabled (tracker w') \<longleftrightarrow> n \<in> disabled (tracker w)"
    and "\<exists>row. row_of req p idx r row \<and> runs w' = runs w @ (if has_recorder e then [row] else [])"
  using attempt_frame_sent [of e req p idx w] assms by (auto simp: attempt_frame_def)

lemma admitD:
  assumes "admit e p w = (ok, w1)"
  shows "ok \<longleftrightarrow> available (clock e (ticks w)) (health_key p) (tracker w)"
    and "sent w1 = sent w" and "hooks w1 = hooks w" and "runs w1 = runs w"
    and "disabled (tracker w1) = disabled (tracker w)"
    and "health_of n (tracker w1) = health_of n (tracker w)"
  using admit_fields [where e = e and p = p and w = w] assms by simp_all

lemma fire_hookD:
  assumes "fire_hook e req p err fired w = (fired', w')"
  shows "sent w' = sent w" and "runs w' = runs w" and "tracker w' = tracker w"
    and "fired' \<longleftrightarrow> fired \<or> checkpoints e req"
  using fire_hook_fields [where e = e and req = req and p = p and err = err and fired = fired and w = w] assms by simp_all

lemma walk_subseq: "walk e req idx fired ps w ts w' \<Longrightarrow> subseq (map fst ts) ps"
  by (induction rule: walk.induct) auto

lemma walk_sent:
  "walk e req idx fired ps w ts w' \<Longrightarrow> sent w' = sent w @ map (\<lambda>t. wire_of e req (fst t)) ts"
  by (induction rule: walk.induct) (auto simp: attempt_fields(1) admitD(2) fire_hookD(1))

lemma walk_stops: "walk e req idx fired ps w ts w' \<Longrightarrow> list_all (\<lambda>t. failed_over (snd t)) (butlast ts)"
  by (induction rule: walk.induct) auto

lemma walk_keys: "walk e req idx fired ps w ts w' \<Longrightarrow> list_all (\<lambda>t. key_of e (fst t) \<noteq> []) ts"
  by (induction rule: walk.induct) auto

lemma walk_disabled:
  "walk e req idx fired ps w ts w' \<Longrightarrow>
   disabled (tracker w) \<subseteq> disabled (tracker w')
   \<and> list_all (\<lambda>t. health_key (fst t) \<notin> disabled (tracker w)) ts"
proof (induction rule: walk.induct)
  case (walk_stop p w w1 idx r w' fired ps)
  then show ?case using attempt_fields(3) [OF walk_stop(3)] admitD(1,5) [OF walk_stop(1)]
    by (auto simp: available_iff)
next
  case (walk_next p w w1 idx err c w2 fired fired' w3 ps ts w')
  have "disabled (tracker w) \<subseteq> disabled (tracker w3)"
    using attempt_fields(3) [OF walk_next(3)] admitD(5) [OF walk_next(1)] fire_hookD(3) [OF walk_next(4)]
    by simp
  moreover have "health_key p \<notin> disabled (tracker w)"
    using admitD(1) [OF walk_next(1)] by (simp add: available_iff)
  ultimately show ?case using walk_next.IH by (auto elim!: list.pred_mono_strong)
qed (auto simp: admitD)

lemma walk_isolated:
  "walk e req idx fired ps w ts w' \<Longrightarrow> list_all (\<lambda>t. health_key (fst t) \<noteq> n) ts \<Longrightarrow>
   health_of n (tracker w') = health_of n (tracker w)
   \<and> (n \<in> disabled (tracker w') \<longleftrightarrow> n \<in> disabled (tracker w))"
proof (induction rule: walk.induct)
  case (walk_stop p w w1 idx r w' fired ps)
  then show ?case by (auto simp: admitD attempt_fields(4,5) [OF walk_stop(3)])
next
  case (walk_next p w w1 idx err c w2 fired fired' w3 ps ts w')
  then show ?case
    by (auto simp: admitD attempt_fields(4,5) [OF walk_next(3)] fire_hookD(3) [OF walk_next(4)])
qed (auto simp: admitD)

lemma walk_runs:
  "walk e req idx fired ps w ts w' \<Longrightarrow>
   \<exists>rows. runs w' = runs w @ (if has_recorder e then rows else [])
     \<and> list_all2 (\<lambda>(i, p, r) row. row_of req p i r row) (enumerate (Suc idx) ts) rows"
proof (induction rule: walk.induct)
  case (walk_stop p w w1 idx r w' fired ps)
  then show ?case using attempt_fields(6) [OF walk_stop(3)]
    by (auto simp: admitD intro: exI [of _ "[x]" for x])
next
  case (walk_next p w w1 idx err c w2 fired fired' w3 ps ts w')
  obtain row where "row_of req p (Suc idx) (FailedOver err c) row"
    "runs w3 = runs w @ (if has_recorder e then [row] else [])"
    using attempt_fields(6) [OF walk_next(3)]
    by (auto simp: admitD(4) [OF walk_next(1)] fire_hookD(2) [OF walk_next(4)])
  moreover obtain rows where "runs w' = runs w3 @ (if has_recorder e then rows else [])"
    "list_all2 (\<lambda>(i, p, r) row. row_of req p i r row) (enumerate (Suc (Suc idx)) ts) rows"
    using walk_next.IH by blast
  ultimately show ?case by (intro exI [of _ "row # rows"]) auto
qed (auto simp: admitD)

lemma walk_hooks:
  "walk e req idx fired ps w ts w' \<Longrightarrow>
   (case ts of
      (p, FailedOver err c) # _ \<Rightarrow>
        hooks w' = hooks w @ (if checkpoints e req \<and> \<not> fired then
          [\<lparr>hook_request = request_id req, hook_session = session_id req,
            hook_pk = session_pk req, hook_provider = name p, hook_error = err\<rparr>] else [])
    | _ \<Rightarrow> hooks w' = hooks w)"
proof (induction rule: walk.induct)
  case (walk_stop p w w1 idx r w' fired ps)
  then show ?case using attempt_fields(2) [OF walk_stop(3)] by (cases r) (auto simp: admitD)
next
  case (walk_next p w w1 idx err c w2 fired fired' w3 ps ts w')
  have "hooks w3 = hooks w @ (if checkpoints e req \<and> \<not> fired then
      [\<lparr>hook_request = request_id req, hook_session = session_id req,
        hook_pk = session_pk req, hook_provider = name p, hook_error = err\<rparr>] else [])"
    using attempt_fields(2) [OF walk_next(3)] admitD(3) [OF walk_next(1)] walk_next(4)
    by (auto simp: fire_hook_def split: if_splits)
  moreover have "hooks w' = hooks w3"
    using walk_next.IH fire_hookD(4) [OF walk_next(4)] walk_next(4)
    by (auto simp: fire_hook_def split: list.splits prod.splits attempt_result.splits if_splits)
  ultimately show ?case by simp
next
  case (walk_skip p w ok w1 idx fired ps ts w')
  then show ?case by (simp only: admitD(3) [OF walk_skip(1)])
qed simp

lemma walk_exhaustive:
  "walk e req idx fired ps w ts w' \<Longrightarrow> list_all (\<lambda>t. failed_over (snd t)) ts \<Longrightarrow>
   distinct (map health_key ps) \<Longrightarrow>
   list_all (\<lambda>p. key_of e p \<noteq> [] \<and> health_key p \<notin> disabled (tracker w)
     \<and> cooldown_until (health_of (health_key p) (tracker w)) = None) ps \<Longrightarrow> map fst ts = ps"
proof (induction rule: walk.induct)
  case (walk_skip p w ok w1 idx fired ps ts w')
  then show ?case using admitD(1) [OF walk_skip(1)] by (auto simp: available_iff)
next
  case (walk_stop p w w1 idx r w' fired ps)
  then show ?case by (cases r) auto
next
  case (walk_next p w w1 idx err c w2 fired fired' w3 ps ts w')
  have "health_of (health_key q) (tracker w3) = health_of (health_key q) (tracker w)
      \<and> (health_key q \<in> disabled (tracker w3) \<longleftrightarrow> health_key q \<in> disabled (tracker w))"
    if "q \<in> set ps" for q
  proof -
    have "health_key q \<noteq> health_key p" using walk_next.prems(2) that by (metis distinct.simps(2)
      image_eqI list.simps(9) list.set_map)
    then show ?thesis
      by (simp add: fire_hookD(3) [OF walk_next(4)] admitD(5,6) [OF walk_next(1)]
          attempt_fields(4,5) [OF walk_next(3)])
  qed
  then have "list_all (\<lambda>q. key_of e q \<noteq> [] \<and> health_key q \<notin> disabled (tracker w3)
      \<and> cooldown_until (health_of (health_key q) (tracker w3)) = None) ps"
    using walk_next.prems(3) unfolding list.pred_set by simp
  then show ?case using walk_next.IH walk_next.prems(1,2) by simp
qed auto

section \<open>Verdicts\<close>

lemma verdict_Inr:
  "list_all (\<lambda>t. failed_over (snd t)) (butlast ts) \<Longrightarrow> verdict req idx last_error ts = Inr (v, info) \<Longrightarrow>
   ts \<noteq> [] \<and> info_request info = request_id req \<and> info_provider info = name (fst (last ts))
   \<and> info_model info = model_id (fst (last ts)) \<and> info_attempts info = idx + length ts
   \<and> snd (last ts) = Served v"
proof (induction req idx last_error ts rule: verdict.induct)
  case (2 req idx last_error p v' ts)
  then show ?case by (cases ts) auto
next
  case (4 req idx last_error p err c ts)
  then show ?case by (cases ts) (auto split: option.splits)
qed (auto split: option.splits)

lemma verdict_Inl:
  "list_all (\<lambda>t. failed_over (snd t)) (butlast ts) \<Longrightarrow> verdict req idx last_error ts = Inl x \<Longrightarrow>
   ts = [] \<or> snd (last ts) \<noteq> Served v"
proof (induction req idx last_error ts rule: verdict.induct)
  case (3 req idx last_error p s b ts)
  then show ?case by (cases ts) auto
next
  case (4 req idx last_error p err c ts)
  then show ?case by (cases ts) auto
qed auto

lemma verdict_exhausted:
  "verdict req idx last_error ts = Inl AllProvidersFailed \<longleftrightarrow>
   last_error = None \<and> list_all (\<lambda>t. \<exists>err. snd t = FailedOver err None) ts"
  by (induction req idx last_error ts rule: verdict.induct) (auto split: option.splits)

lemma verdict_client:
  "verdict req idx last_error ts = Inl (UpstreamClient s b) \<Longrightarrow>
   last_error = Some (s, b) \<or> (\<exists>t \<in> set ts. snd t = ClientError s b
     \<or> (\<exists>err. snd t = FailedOver err (Some (s, b))))"
  by (induction req idx last_error ts rule: verdict.induct) (auto split: option.splits)

lemma verdict_errors:
  "verdict req idx last_error ts = Inl x \<Longrightarrow> x = AllProvidersFailed \<or> (\<exists>s b. x = UpstreamClient s b)"
  by (induction req idx last_error ts rule: verdict.induct) (auto split: option.splits)

section \<open>Properties\<close>

abbreviation constant_env :: "exchange \<Rightarrow> json \<Rightarrow> router_env" where
  "constant_env x parsed \<equiv>
     \<lparr>vars = Map.empty, loads = (\<lambda>_. Some parsed), clock = of_nat, upstream = (\<lambda>n q. x),
      key_of = (\<lambda>p. lit ''key''), has_recorder = True, has_hook = True\<rparr>"

abbreviation fresh_world :: world where
  "fresh_world \<equiv> \<lparr>tracker = new_tracker, ticks = 0, sent = [], runs = [], hooks = []\<rparr>"

abbreviation two_providers :: "provider list" where
  "two_providers \<equiv> [sample_provider (lit ''a''), sample_provider (lit ''b'')]"

text \<open>
  C5: a request contacts a subsequence of its candidates, in order and each at most once, only
  those that have a key and are not disabled, and each with its own key and payload. Providers
  that were not contacted keep their health. The route info of a success names the last provider
  contacted and counts the attempts.
\<close>

theorem attempts_follow_the_candidates:
  assumes "iter_attempts e req 0 False None cs w = (out, w')"
  shows "\<exists>ps. subseq ps cs \<and> sent w' = sent w @ map (wire_of e req) ps
    \<and> list_all (\<lambda>p. key_of e p \<noteq> [] \<and> health_key p \<notin> disabled (tracker w)) ps
    \<and> (\<forall>n. n \<notin> health_key ` set ps \<longrightarrow> health_of n (tracker w') = health_of n (tracker w)
         \<and> (n \<in> disabled (tracker w') \<longleftrightarrow> n \<in> disabled (tracker w)))
    \<and> (case out of
         Inr (v, info) \<Rightarrow> ps \<noteq> [] \<and> info_provider info = name (last ps)
           \<and> info_model info = model_id (last ps) \<and> info_attempts info = length ps
       | Inl x \<Rightarrow> True)"
proof -
  obtain ts where ts: "walk e req 0 False cs w ts w'" "out = verdict req 0 None ts"
    using iter_attempts_walk [OF assms] by blast
  have "list_all (\<lambda>p. key_of e p \<noteq> [] \<and> health_key p \<notin> disabled (tracker w)) (map fst ts)"
    using walk_keys [OF ts(1)] walk_disabled [OF ts(1)] by (auto simp: list_all_iff)
  moreover have "health_of n (tracker w') = health_of n (tracker w)
      \<and> (n \<in> disabled (tracker w') \<longleftrightarrow> n \<in> disabled (tracker w))"
    if "n \<notin> health_key ` set (map fst ts)" for n
    using that by (intro walk_isolated [OF ts(1)]) (auto simp: list_all_iff)
  moreover have "case out of
         Inr (v, info) \<Rightarrow> map fst ts \<noteq> [] \<and> info_provider info = name (last (map fst ts))
           \<and> info_model info = model_id (last (map fst ts)) \<and> info_attempts info = length (map fst ts)
       | Inl x \<Rightarrow> True"
    using verdict_Inr [OF walk_stops [OF ts(1)]] ts(2)
    by (auto simp: last_map split: sum.split)
  ultimately show ?thesis
    using walk_subseq [OF ts(1)] walk_sent [OF ts(1)]
    by (intro exI [of _ "map fst ts"]) (simp add: comp_def)
qed

lemma attempts_follow_the_candidates_witness:
  "\<exists>ps. subseq ps two_providers
    \<and> sent (snd (iter_attempts (constant_env (NetError (lit ''ReadTimeout'') True) JNull)
        (plain_request []) 0 False None two_providers fresh_world))
      = map (wire_of (constant_env (NetError (lit ''ReadTimeout'') True) JNull) (plain_request [])) ps"
  using attempts_follow_the_candidates [where e = "constant_env (NetError (lit ''ReadTimeout'') True) JNull"
      and req = "plain_request []" and cs = two_providers and w = fresh_world, OF surjective_pairing]
  by auto

lemma nth_walk_rows:
  assumes "list_all2 (\<lambda>(i, p, r) row. row_of req p i r row) (enumerate 1 ts) rows"
  shows "length rows = length ts"
    and "i < length ts \<Longrightarrow> row_of req (fst (ts ! i)) (Suc i) (snd (ts ! i)) (rows ! i)"
  using assms by (auto simp: list_all2_conv_all_nth nth_enumerate_eq case_prod_beta)



text \<open>
  The failover hook runs at most once per request, for the first provider that failed over,
  and only in requests that belong to a session.
\<close>

lemma failover_hook_at_most_once:
  assumes "iter_attempts e req 0 False None cs w = (out, w')"
  shows "\<exists>calls. hooks w' = hooks w @ calls \<and> length calls \<le> 1
    \<and> (calls \<noteq> [] \<longrightarrow> checkpoints e req
        \<and> hook_provider (hd calls) = name (wire_provider (hd (drop (length (sent w)) (sent w')))))"
proof -
  obtain ts where ts: "walk e req 0 False cs w ts w'"
    using iter_attempts_walk [OF assms] by blast
  show ?thesis
    using walk_hooks [OF ts] walk_sent [OF ts]
    by (auto simp: wire_of_def wire_def split: list.splits prod.splits attempt_result.splits if_splits)
qed

lemma failover_hook_at_most_once_witness:
  "length (hooks (snd (iter_attempts (constant_env (NetError (lit ''ReadTimeout'') True) JNull)
        (plain_request []) 0 False None two_providers fresh_world))) \<le> 1"
  using failover_hook_at_most_once [where e = "constant_env (NetError (lit ''ReadTimeout'') True) JNull"
      and req = "plain_request []" and cs = two_providers and w = fresh_world, OF surjective_pairing]
  by auto



text \<open>
  Both transports classify a refused connection and every error status alike: same result,
  same health effect, same run row.
\<close>

lemma transports_agree_on_errors:
  assumes "case x of NetError cls is_timeout \<Rightarrow> True | Responded r \<Rightarrow> 400 \<le> status r \<and> raises r"
  shows "attempt_streaming e req p idx est x w = attempt_nonstreaming e req p idx x w"
  using assms
  by (auto simp: attempt_streaming_def attempt_nonstreaming_def split: exchange.splits)

lemma transports_agree_on_errors_witness:
  "attempt_streaming (constant_env (NetError [] False) JNull) (plain_request [])
      (sample_provider (lit ''a'')) 1 0 (NetError (lit ''ReadTimeout'') True) fresh_world
   = attempt_nonstreaming (constant_env (NetError [] False) JNull) (plain_request [])
      (sample_provider (lit ''a'')) 1 (NetError (lit ''ReadTimeout'') True) fresh_world"
  using transports_agree_on_errors by simp

lemma subseq_set: "subseq xs ys \<Longrightarrow> set xs \<subseteq> set ys"
  by (induction rule: list_emb.induct) auto

lemma candidates_byok:
  assumes "candidates static req (Some ps) routing = Inr cs" and "c \<in> set cs"
  shows "\<exists>p \<in> set ps. \<exists>m b. enabled p \<and> c = p\<lparr>model_id := m, model_override := b\<rparr>"
proof -
  obtain r os where os: "attempt_order ps r (model req) = Inr os" "cs = override_model req r os"
    using assms(1) by (auto simp: candidates_def Let_def split: if_splits sum.splits select_error.splits)
  have over: "\<exists>q \<in> set os. \<exists>m b. c = q\<lparr>model_id := m, model_override := b\<rparr>"
  proof (cases "c \<in> set os")
    case True
    then show ?thesis
      by (intro bexI [of _ c] exI [of _ "model_id c"] exI [of _ "model_override c"]) simp_all
  next
    case False
    then show ?thesis using assms(2) os(2)
      by (auto simp: override_model_def split: option.splits if_splits)
  qed
  then obtain q m b where q: "q \<in> set os" "c = q\<lparr>model_id := m, model_override := b\<rparr>" by blast
  obtain p where p: "p \<in> set ps" "enabled p" "q = p\<lparr>model_id := model_id q\<rparr>"
    using attempt_order_sound [OF os(1) q(1)] by blast
  have "c = p\<lparr>model_id := m, model_override := b\<rparr>" 
    using q(2) arg_cong [OF p(3), of "\<lambda>z. z\<lparr>model_id := m, model_override := b\<rparr>"] by simp
  then show ?thesis using p(1,2) by blast
qed

text \<open>
  C14: a request with the user's own credentials never leaves them. Everything it sends goes to
  the URL of one of that user's enabled credentials and is authenticated with that credential's
  key, whatever the static configuration holds; only the model may differ.
\<close>

theorem byok_requests_stay_with_the_user:
  assumes "route e static req (Some ps) routing w = (out, w')"
  shows "\<exists>qs. sent w' = sent w @ qs
    \<and> list_all (\<lambda>q. \<exists>p \<in> set ps. \<exists>m b. enabled p \<and> wire_provider q = p\<lparr>model_id := m, model_override := b\<rparr>
        \<and> wire_url q = request_url p \<and> wire_headers q = auth_headers p (key_of e (wire_provider q))
        \<and> wire_params q = auth_params p (key_of e (wire_provider q))) qs"
proof (cases "candidates static req (Some ps) routing")
  case (Inl x)
  then show ?thesis using assms by (intro exI [of _ "[]"]) (simp add: route_def)
next
  case (Inr cs)
  then have "iter_attempts e req 0 False None cs w = (out, w')"
    using assms by (simp add: route_def)
  from iter_attempts_walk [OF this] obtain ts where ts: "walk e req 0 False cs w ts w'" by blast
  have own: "\<exists>p \<in> set ps. \<exists>m b. enabled p
        \<and> wire_provider (wire_of e req (fst t)) = p\<lparr>model_id := m, model_override := b\<rparr>
        \<and> wire_url (wire_of e req (fst t)) = request_url p
        \<and> wire_headers (wire_of e req (fst t)) = auth_headers p (key_of e (wire_provider (wire_of e req (fst t))))
        \<and> wire_params (wire_of e req (fst t)) = auth_params p (key_of e (wire_provider (wire_of e req (fst t))))"
    if "t \<in> set ts" for t
  proof -
    have "fst t \<in> set cs" using subseq_set [OF walk_subseq [OF ts]] that by auto
    from candidates_byok [OF Inr this] obtain p m b
      where p: "p \<in> set ps" "enabled p" and eq: "fst t = p\<lparr>model_id := m, model_override := b\<rparr>" by blast
    show ?thesis
      by (rule bexI [OF _ p(1)], rule exI [of _ m], rule exI [of _ b])
         (simp add: p(2) eq wire_of_def wire_def request_url_def auth_headers_def auth_params_def)
  qed
  show ?thesis
    by (rule exI [of _ "map (\<lambda>t. wire_of e req (fst t)) ts"])
       (use own walk_sent [OF ts] in \<open>simp add: list_all_iff\<close>)
qed

lemma byok_requests_stay_with_the_user_witness:
  "list_all (\<lambda>q. wire_url q \<in> request_url ` set two_providers)
     (sent (snd (route (constant_env (NetError (lit ''ReadTimeout'') True) JNull) []
       (plain_request []) (Some two_providers) None fresh_world)))"
  using byok_requests_stay_with_the_user [where e = "constant_env (NetError (lit ''ReadTimeout'') True) JNull"
      and static = "[]" and req = "plain_request []" and ps = two_providers and routing = None
      and w = fresh_world, OF surjective_pairing]
  by (auto simp: list_all_iff)

lemma reject_not_served:
  assumes "status r = 400" and "is_model_not_served (parse_json_or_raw (loads e) (resp_body r))"
    and "model_override p" and "\<not> failover_on_400 p" and "raises r" and "upstream e = (\<lambda>n q. Responded r)"
  shows "\<exists>w'. attempt e req p idx w = (FailedOver (lit ''model_not_served'')
           (Some (400, parse_json_or_raw (loads e) (resp_body r))), w')
         \<and> sent w' = sent w @ [wire_of e req p] \<and> tracker w' = tracker w"
  using assms
  by (simp add: attempt_def attempt_streaming_def attempt_nonstreaming_def reject_def Let_def
      status_wants_failover_def frame_simps)


abbreviation unserved_response :: http_response where
  "unserved_response \<equiv> \<lparr>status = 400, raises = True, resp_body = [], resp_lines = [], resp_broken = None\<rparr>"

abbreviation overriding :: "provider \<Rightarrow> provider" where
  "overriding p \<equiv> p\<lparr>model_override := True\<rparr>"


end
