(* ===== verification/Pairing.thy ===== *)
theory Pairing
  imports Trimming "HOL-Library.Multiset"
begin

text \<open>
  The protocol-neutral helpers of the compatibility layers (\<open>invincible/compat/common.py\<close>), with
  the repair of unpaired tool calls as the main one. The repair moves messages inside one list
  and tracks positions; its abstract view is a list of segments (a message and the tool results
  that answer it), and every step of the code refines the step on segments.
\<close>

definition build_message :: "ustr \<Rightarrow> json \<Rightarrow> pydict" where
  "build_message role content = [(lit ''role'', JStr role), (lit ''content'', content)]"

definition build_usage :: "int \<Rightarrow> int \<Rightarrow> pydict" where
  "build_usage input_tokens output_tokens =
     [(lit ''input_tokens'', JInt input_tokens), (lit ''output_tokens'', JInt output_tokens)]"

definition estimate_token_sum :: "pydict list \<Rightarrow> int" where
  "estimate_token_sum messages = sum_list (map estimate_tokens messages)"

definition estimate_assistant_tokens :: "json \<Rightarrow> json list \<Rightarrow> int" where
  "estimate_assistant_tokens content tool_calls =
     (let message = build_message (lit ''assistant'') content in
      estimate_tokens (if tool_calls \<noteq> [] then dset (lit ''tool_calls'') (JList tool_calls) message
                       else message))"

definition upstream_error_detail :: "json \<Rightarrow> nat \<Rightarrow> ustr option" where
  "upstream_error_detail body limit =
     (case body of
        JObj d \<Rightarrow>
          let message = (case dget d (lit ''error'') of
                JObj e \<Rightarrow> py_or (dget e (lit ''message'')) (dget e (lit ''type''))
              | JStr s \<Rightarrow> JStr s
              | _ \<Rightarrow> py_or (dget d (lit ''message'')) (dget d (lit ''detail'')))
          in (case message of
                JStr s \<Rightarrow> if strip s = [] then None else Some (take limit s)
              | _ \<Rightarrow> None)
      | _ \<Rightarrow> None)"

section \<open>repair_tool_pairing\<close>

datatype pairing_error = NotAnObject nat | BadCalls nat | Unpaired nat

text \<open>
  A turn of the source is a dictionary; its fields here. Ids compare as JSON values.
  \<open>BadCalls\<close>: a \<open>tool_calls\<close> value that is not a list of objects makes \<open>call.get\<close> raise.
\<close>

record turn_state =
  t_ids :: "json list"
  t_covered :: "json list"
  t_attached :: nat
  t_position :: nat

record repair_state =
  r_out :: "pydict list"
  r_turns :: "turn_state list"
  r_orphans :: "(nat \<times> pydict) list"

definition open_slots :: "turn_state \<Rightarrow> json list" where
  "open_slots t = filter (\<lambda>i. i \<notin> set (t_covered t)) (t_ids t)"

definition insert_at :: "nat \<Rightarrow> 'a \<Rightarrow> 'a list \<Rightarrow> 'a list" where
  "insert_at p x xs = take p xs @ x # drop p xs"

definition shift_turn :: "nat \<Rightarrow> turn_state \<Rightarrow> turn_state" where
  "shift_turn p u = (if p \<le> t_position u then u\<lparr>t_position := Suc (t_position u)\<rparr> else u)"

text \<open>\<open>_insert\<close>, for the turn with index \<open>k\<close>.\<close>

definition insert_tool :: "nat \<Rightarrow> pydict \<Rightarrow> json \<Rightarrow> repair_state \<Rightarrow> repair_state" where
  "insert_tool k message bound_id st =
     (let turn = r_turns st ! k;
          position = t_position turn + 1 + t_attached turn
      in st\<lparr>r_out := insert_at position message (r_out st),
            r_turns := map (shift_turn position) (take k (r_turns st))
              @ turn\<lparr>t_attached := Suc (t_attached turn), t_covered := t_covered turn @ [bound_id]\<rparr>
              # map (shift_turn position) (drop (Suc k) (r_turns st))\<rparr>)"

definition last_index :: "('a \<Rightarrow> bool) \<Rightarrow> 'a list \<Rightarrow> nat option" where
  "last_index P xs = (case filter (\<lambda>i. P (xs ! i)) (rev [0..<length xs]) of
       [] \<Rightarrow> None | i # _ \<Rightarrow> Some i)"

fun normalize_calls :: "nat \<Rightarrow> nat \<Rightarrow> json list \<Rightarrow> json list option" where
  "normalize_calls index position [] = Some []"
| "normalize_calls index position (JObj call # calls) =
     (case normalize_calls index (Suc position) calls of
        None \<Rightarrow> None
      | Some rest \<Rightarrow> Some (JObj
          (if truthy (dget call (lit ''id'')) then call
           else dset (lit ''id'') (JStr (lit ''call_missing_'' @ dec (int index) @ lit ''_''
                  @ dec (int position))) call) # rest))"
| "normalize_calls index position (_ # calls) = None"

definition tool_id_of :: "pydict \<Rightarrow> json" where
  "tool_id_of m = py_or (dget m (lit ''tool_call_id'')) (JStr [])"

text \<open>The turn a tool message binds to, and the id it binds as.\<close>

definition id_target :: "turn_state list \<Rightarrow> json \<Rightarrow> nat option" where
  "id_target turns tool_id =
     (if truthy tool_id then
        (case last_index (\<lambda>t. tool_id \<in> set (t_ids t)) turns of
           Some k \<Rightarrow> if tool_id \<notin> set (t_covered (turns ! k)) then Some k else None
         | None \<Rightarrow> None)
      else None)"

definition bind_target :: "turn_state list \<Rightarrow> json \<Rightarrow> (nat \<times> json) option" where
  "bind_target turns tool_id =
     (case id_target turns tool_id of
        Some k \<Rightarrow> Some (k, tool_id)
      | None \<Rightarrow>
          (case last_index (\<lambda>t. open_slots t \<noteq> []) turns of
             Some k \<Rightarrow> Some (k, hd (open_slots (turns ! k)))
           | None \<Rightarrow> None))"

definition bind_message :: "pydict \<Rightarrow> json \<Rightarrow> pydict" where
  "bind_message m bound_id =
     (if bound_id \<noteq> tool_id_of m then dset (lit ''tool_call_id'') bound_id m else m)"

definition repair_step :: "nat \<Rightarrow> pydict \<Rightarrow> repair_state \<Rightarrow> pairing_error + repair_state" where
  "repair_step index m st =
     (if \<not> role_is m ''tool'' then
        let calls = dget m (lit ''tool_calls'') in
        if truthy calls then
          (case calls of
             JList cs \<Rightarrow>
               (case normalize_calls index 0 cs of
                  None \<Rightarrow> Inl (BadCalls index)
                | Some normalized \<Rightarrow>
                    Inr (st\<lparr>r_out := r_out st @ [dset (lit ''tool_calls'') (JList normalized) m],
                            r_turns := r_turns st
                              @ [\<lparr>t_ids = json_ids normalized, t_covered = [], t_attached = 0,
                                  t_position = length (r_out st)\<rparr>]\<rparr>))
           | _ \<Rightarrow> Inl (BadCalls index))
        else Inr (st\<lparr>r_out := r_out st @ [m]\<rparr>)
      else
        (case bind_target (r_turns st) (tool_id_of m) of
           None \<Rightarrow> Inr (st\<lparr>r_orphans := r_orphans st @ [(index, m)]\<rparr>)
         | Some (k, bound_id) \<Rightarrow> Inr (insert_tool k (bind_message m bound_id) bound_id st)))"

fun repair_loop :: "nat \<Rightarrow> json list \<Rightarrow> repair_state \<Rightarrow> pairing_error + repair_state" where
  "repair_loop index [] st = Inr st"
| "repair_loop index (JObj m # ms) st =
     (case repair_step index m st of
        Inl e \<Rightarrow> Inl e
      | Inr st' \<Rightarrow> repair_loop (Suc index) ms st')"
| "repair_loop index (_ # ms) st = Inl (NotAnObject index)"

text \<open>The second pass, over the buffered outputs: an orphan stays one unless its id is open.\<close>

definition orphan_target :: "turn_state list \<Rightarrow> json \<Rightarrow> nat option" where
  "orphan_target turns tool_id =
     (if truthy tool_id
      then last_index (\<lambda>t. tool_id \<in> set (t_ids t) \<and> tool_id \<notin> set (t_covered t)) turns
      else None)"

fun fold_orphans :: "(nat \<times> pydict) list \<Rightarrow> repair_state \<Rightarrow> repair_state" where
  "fold_orphans [] st = st"
| "fold_orphans ((index, m) # os) st =
     (case orphan_target (r_turns st) (tool_id_of m) of
        None \<Rightarrow> fold_orphans os st
      | Some k \<Rightarrow>
          let st' = insert_tool k m (tool_id_of m) st
          in fold_orphans os (st'\<lparr>r_orphans := remove1 (index, m) (r_orphans st')\<rparr>))"

text \<open>The third pass: dangling calls are dropped.\<close>

fun surviving_calls :: "json list \<Rightarrow> json list \<Rightarrow> json list" where
  "surviving_calls slots [] = []"
| "surviving_calls slots (JObj c # cs) =
     (if dget c (lit ''id'') \<in> set slots then surviving_calls slots cs
      else JObj c # surviving_calls slots cs)"
| "surviving_calls slots (c # cs) = surviving_calls slots cs"

definition drop_calls :: "json list \<Rightarrow> pydict \<Rightarrow> pydict" where
  "drop_calls slots original =
     (let surviving = (case dget original (lit ''tool_calls'') of
            JList cs \<Rightarrow> surviving_calls slots cs | _ \<Rightarrow> []);
          repaired = ddel (lit ''tool_calls'') original
      in if surviving \<noteq> [] then dset (lit ''tool_calls'') (JList surviving) repaired else repaired)"

definition drop_dangling :: "turn_state \<Rightarrow> pydict list \<Rightarrow> pydict list" where
  "drop_dangling t out =
     (if open_slots t = [] then out
      else out[t_position t := drop_calls (open_slots t) (out ! t_position t)])"

definition repair_tool_pairing :: "json list \<Rightarrow> pairing_error + pydict list" where
  "repair_tool_pairing messages =
     (case repair_loop 0 messages \<lparr>r_out = [], r_turns = [], r_orphans = []\<rparr> of
        Inl e \<Rightarrow> Inl e
      | Inr st \<Rightarrow>
          let st' = fold_orphans (r_orphans st) st;
              out = fold drop_dangling (r_turns st') (r_out st')
          in if r_orphans st' \<noteq> [] then Inl (Unpaired (Min (fst ` set (r_orphans st'))))
             else Inr out)"

section \<open>The abstract view: segments\<close>

text \<open>A segment is a message that is not a tool result, with the results attached to it.\<close>

type_synonym segment = "pydict \<times> pydict list"

definition flat :: "segment list \<Rightarrow> pydict list" where
  "flat segs = concat (map (\<lambda>(h, ts). h # ts) segs)"

abbreviation has_calls :: "pydict \<Rightarrow> bool" where
  "has_calls h \<equiv> truthy (dget h (lit ''tool_calls''))"

definition result_id :: "pydict \<Rightarrow> json" where
  "result_id t = dget t (lit ''tool_call_id'')"

text \<open>The turns the code tracks, read off the segments; \<open>p\<close> is the position of the first one.\<close>

fun layout :: "nat \<Rightarrow> segment list \<Rightarrow> turn_state list" where
  "layout p [] = []"
| "layout p ((h, ts) # segs) =
     (if has_calls h
      then [\<lparr>t_ids = call_ids h, t_covered = map result_id ts, t_attached = length ts, t_position = p\<rparr>]
      else []) @ layout (p + 1 + length ts) segs"

fun attach :: "nat \<Rightarrow> pydict \<Rightarrow> segment list \<Rightarrow> segment list" where
  "attach k m [] = []"
| "attach k m ((h, ts) # segs) =
     (if has_calls h
      then (case k of 0 \<Rightarrow> (h, ts @ [m]) # segs | Suc j \<Rightarrow> (h, ts) # attach j m segs)
      else (h, ts) # attach k m segs)"

definition seg_ok :: "segment \<Rightarrow> bool" where
  "seg_ok s \<longleftrightarrow> \<not> role_is (fst s) ''tool'' \<and> list_all (\<lambda>t. role_is t ''tool'') (snd s)
     \<and> (\<not> has_calls (fst s) \<longrightarrow> snd s = []) \<and> list_all truthy (call_ids (fst s))
     \<and> set (map result_id (snd s)) \<subseteq> set (call_ids (fst s))"

lemma flat_simps [simp]: "flat [] = []" "flat ((h, ts) # segs) = h # ts @ flat segs"
  "flat (segs @ segs') = flat segs @ flat segs'"
  by (simp_all add: flat_def)

lemma layout_append: "layout p (segs @ segs') = layout p segs @ layout (p + length (flat segs)) segs'"
proof (induction p segs rule: layout.induct)
  case (2 p h ts segs)
  have "p + 1 + length ts + length (flat segs) = p + length (flat ((h, ts) # segs))" by simp
  then show ?case using 2 by (simp only: layout.simps append_Cons append_assoc)
qed simp

lemma layout_Suc: "layout (Suc p) segs = map (\<lambda>u. u\<lparr>t_position := Suc (t_position u)\<rparr>) (layout p segs)"
  by (induction p segs rule: layout.induct) simp_all

lemma layout_position: "u \<in> set (layout p segs) \<Longrightarrow> p \<le> t_position u"
  by (induction p segs rule: layout.induct) (auto split: if_splits)

lemma shift_layout: "q \<le> p \<Longrightarrow> map (shift_turn q) (layout p segs) = layout (Suc p) segs"
  unfolding layout_Suc
  by (intro map_cong refl) (auto simp: shift_turn_def dest: layout_position)

text \<open>Inserting a tool message refines attaching it to its segment.\<close>

lemma insert_at_append:
  "length xs \<le> n \<Longrightarrow> insert_at n m (xs @ ys) = xs @ insert_at (n - length xs) m ys"
  by (simp add: insert_at_def)

lemma attach_refined:
  "k < length (layout q segs) \<Longrightarrow> t = layout q segs ! k \<Longrightarrow> p = t_position t + 1 + t_attached t \<Longrightarrow>
   q < p \<and> flat (attach k m segs) = insert_at (p - q) m (flat segs)
   \<and> layout q (attach k m segs) = map (shift_turn p) (take k (layout q segs))
        @ t\<lparr>t_attached := Suc (t_attached t), t_covered := t_covered t @ [result_id m]\<rparr>
        # map (shift_turn p) (drop (Suc k) (layout q segs))"
proof (induction q segs arbitrary: k rule: layout.induct)
  case (2 q h ts segs)
  let ?q = "q + 1 + length ts"
  have flat: "flat ((h, ts) # segs) = (h # ts) @ flat segs" by simp
  show ?case
  proof (cases "has_calls h \<and> k = 0")
    case True
    then have "p = ?q" "t = \<lparr>t_ids = call_ids h, t_covered = map result_id ts,
        t_attached = length ts, t_position = q\<rparr>" using 2 by simp_all
    then show ?thesis using True shift_layout [of p ?q segs]
      by (simp add: insert_at_def)
  next
    case False
    define j where "j = (if has_calls h then k - 1 else k)"
    have j: "j < length (layout ?q segs)" "t = layout ?q segs ! j"
      using 2(2,3) False by (auto simp: j_def)
    note IH = 2(1) [OF j 2(4)]
    have "attach k m ((h, ts) # segs) = (h, ts) # attach j m segs"
      using False by (cases k) (simp_all add: j_def)
    moreover have "insert_at (p - q) m (flat ((h, ts) # segs)) = (h # ts) @ insert_at (p - ?q) m (flat segs)"
    proof -
      have "length (h # ts) \<le> p - q" "p - q - length (h # ts) = p - ?q" using IH by auto
      then show ?thesis unfolding flat by (subst insert_at_append) simp_all
    qed
    moreover have "shift_turn p u = u" if "t_position u = q" for u
      using IH that by (simp add: shift_turn_def)
    ultimately show ?thesis using IH False by (cases k) (auto simp: j_def)
  qed
qed simp

lemma insert_tool_refines:
  assumes "r_turns st = layout 0 segs" and "r_out st = flat segs"
    and "k < length (r_turns st)" and "result_id m = bound_id"
  shows "r_out (insert_tool k m bound_id st) = flat (attach k m segs)"
    and "r_turns (insert_tool k m bound_id st) = layout 0 (attach k m segs)"
    and "r_orphans (insert_tool k m bound_id st) = r_orphans st"
  using attach_refined [OF assms(3) [unfolded assms(1)] refl refl, of m] assms
  by (simp_all add: insert_tool_def Let_def)

text \<open>What attaching keeps: the heads, and the multiset of results.\<close>

lemma fst_attach: "map fst (attach k m segs) = map fst segs"
  by (induction k m segs rule: attach.induct) (auto split: nat.split)

lemma results_attach:
  "k < length (layout q segs) \<Longrightarrow>
   mset (concat (map snd (attach k m segs))) = add_mset m (mset (concat (map snd segs)))"
proof (induction q segs arbitrary: k rule: layout.induct)
  case (2 q h ts segs)
  show ?case
  proof (cases k)
    case 0
    then show ?thesis using 2 by auto
  next
    case (Suc j)
    then show ?thesis using 2(1) [of j] 2(1) [of k] 2(2) by auto
  qed
qed simp

lemma seg_ok_attach:
  "k < length (layout q segs) \<Longrightarrow> list_all seg_ok segs \<Longrightarrow> role_is m ''tool'' \<Longrightarrow>
   result_id m \<in> set (t_ids (layout q segs ! k)) \<Longrightarrow> list_all seg_ok (attach k m segs)"
proof (induction q segs arbitrary: k rule: layout.induct)
  case (2 q h ts segs)
  show ?case
  proof (cases k)
    case 0
    then show ?thesis using 2 by (auto simp: seg_ok_def)
  next
    case (Suc j)
    then show ?thesis using 2(1) [of j] 2(1) [of k] 2(2-) by auto
  qed
qed simp

lemma last_index_Some: "last_index P xs = Some k \<Longrightarrow> k < length xs \<and> P (xs ! k)"
proof -
  assume "last_index P xs = Some k"
  then obtain js where "filter (\<lambda>i. P (xs ! i)) (rev [0..<length xs]) = k # js"
    by (auto simp: last_index_def split: list.splits)
  then have "k \<in> set (filter (\<lambda>i. P (xs ! i)) (rev [0..<length xs]))" by (metis list.set_intros(1))
  then show ?thesis by simp
qed

lemma bind_target_Some:
  "bind_target turns tool_id = Some (k, b) \<Longrightarrow>
   k < length turns \<and> b \<in> set (t_ids (turns ! k)) \<and> b \<notin> set (t_covered (turns ! k))"
proof -
  have slot: "open_slots t \<noteq> [] \<Longrightarrow> hd (open_slots t) \<in> set (t_ids t) - set (t_covered t)" for t
    using hd_in_set [of "open_slots t"] by (auto simp: open_slots_def simp del: hd_in_set)
  assume "bind_target turns tool_id = Some (k, b)"
  then show ?thesis
    using slot by (auto simp: bind_target_def id_target_def dest!: last_index_Some
        split: option.splits if_splits)
qed

lemma orphan_target_Some:
  "orphan_target turns tool_id = Some k \<Longrightarrow>
   k < length turns \<and> tool_id \<in> set (t_ids (turns ! k)) \<and> truthy tool_id"
  by (auto simp: orphan_target_def dest!: last_index_Some split: if_splits)

lemma result_id_bind: "b \<noteq> JStr [] \<Longrightarrow> result_id (bind_message m b) = b"
  by (auto simp: result_id_def bind_message_def tool_id_of_def py_or_def split: if_splits)

section \<open>The passes\<close>

definition headless :: "pydict \<Rightarrow> pydict" where
  "headless m = ddel (lit ''tool_calls'') m"

definition unbound :: "pydict \<Rightarrow> pydict" where
  "unbound m = ddel (lit ''tool_call_id'') m"

text \<open>
  The invariant of the first two passes: the state is the image of a list of well-formed
  segments; the heads are the other messages so far, up to their calls; the results and the
  buffered orphans are the tool messages so far, up to the ids they carry.
\<close>

definition repair_inv :: "pydict list \<Rightarrow> repair_state \<Rightarrow> segment list \<Rightarrow> bool" where
  "repair_inv seen st segs \<longleftrightarrow>
     r_out st = flat segs \<and> r_turns st = layout 0 segs \<and> list_all seg_ok segs
     \<and> map (headless \<circ> fst) segs = map headless (filter (\<lambda>m. \<not> role_is m ''tool'') seen)
     \<and> image_mset unbound (mset (concat (map snd segs)) + mset (map snd (r_orphans st)))
       = image_mset unbound (mset (filter (\<lambda>m. role_is m ''tool'') seen))
     \<and> list_all (\<lambda>(i, m). role_is m ''tool'') (r_orphans st)"

lemma layout_ids: "layout p segs ! k = u \<Longrightarrow> k < length (layout p segs) \<Longrightarrow>
   \<exists>s \<in> set segs. t_ids u = call_ids (fst s)"
proof (induction p segs arbitrary: k rule: layout.induct)
  case (2 p h ts segs)
  show ?case
  proof (cases "has_calls h")
    case True
    then show ?thesis using 2 by (cases k) fastforce+
  next
    case False
    then show ?thesis using 2 by fastforce
  qed
qed simp

lemma layout_truthy:
  assumes "list_all seg_ok segs" and "k < length (layout p segs)" and "b \<in> set (t_ids (layout p segs ! k))"
  shows "truthy b"
proof -
  obtain s where "s \<in> set segs" "t_ids (layout p segs ! k) = call_ids (fst s)"
    using layout_ids [OF refl assms(2)] by blast
  then show ?thesis using assms(1,3) by (auto simp: list_all_iff seg_ok_def)
qed

lemma insert_tool_inv:
  assumes "repair_inv seen st segs" and "k < length (r_turns st)" and "b \<in> set (t_ids (r_turns st ! k))"
    and "role_is m ''tool''"
  shows "\<exists>segs'. r_out (insert_tool k (bind_message m b) b st) = flat segs'
    \<and> r_turns (insert_tool k (bind_message m b) b st) = layout 0 segs' \<and> list_all seg_ok segs'
    \<and> map (headless \<circ> fst) segs' = map (headless \<circ> fst) segs
    \<and> image_mset unbound (mset (concat (map snd segs')))
      = add_mset (unbound m) (image_mset unbound (mset (concat (map snd segs))))
    \<and> r_orphans (insert_tool k (bind_message m b) b st) = r_orphans st"
proof -
  note inv = assms(1) [unfolded repair_inv_def]
  have k: "k < length (layout 0 segs)" using assms(2) inv by simp
  have "truthy b" using layout_truthy [of segs k 0 b] k assms(3) inv by simp
  then have id: "result_id (bind_message m b) = b" by (intro result_id_bind) auto
  have tool: "role_is (bind_message m b) ''tool''"
    using assms(4) by (simp add: bind_message_def)
  have unb: "unbound (bind_message m b) = unbound m" by (simp add: bind_message_def unbound_def)
  have "list_all seg_ok (attach k (bind_message m b) segs)"
    using seg_ok_attach [OF k] inv tool id assms(3) by simp
  moreover have "map (headless \<circ> fst) (attach k (bind_message m b) segs) = map (headless \<circ> fst) segs"
    by (metis fst_attach map_map)
  ultimately show ?thesis
    using insert_tool_refines [of st segs k "bind_message m b" b] inv assms(2) id
      results_attach [OF k, of "bind_message m b"] unb
    by (intro exI [of _ "attach k (bind_message m b) segs"]) simp
qed

lemma normalize_calls_ids:
  "normalize_calls i p cs = Some ns \<Longrightarrow> list_all truthy (json_ids ns)"
  by (induction i p cs arbitrary: ns rule: normalize_calls.induct) (auto split: option.splits)

lemma normalize_calls_Nil: "normalize_calls i p cs = Some ns \<Longrightarrow> ns = [] \<longleftrightarrow> cs = []"
  by (induction i p cs arbitrary: ns rule: normalize_calls.induct) (auto split: option.splits)

lemma call_ids_falsy: "\<not> has_calls h \<Longrightarrow> call_ids h = []"
  by (cases "dget h (lit ''tool_calls'')") (auto simp: call_ids_def)

lemma repair_step_inv:
  assumes "repair_inv seen st segs" and "repair_step i m st = Inr st'"
  shows "\<exists>segs'. repair_inv (seen @ [m]) st' segs'"
proof (cases "role_is m ''tool''")
  case False
  note inv = assms(1) [unfolded repair_inv_def]
  show ?thesis
  proof (cases "has_calls m")
    case True
    then obtain cs ns where cs: "dget m (lit ''tool_calls'') = JList cs" "normalize_calls i 0 cs = Some ns"
      and st': "st' = st\<lparr>r_out := r_out st @ [dset (lit ''tool_calls'') (JList ns) m],
        r_turns := r_turns st @ [\<lparr>t_ids = json_ids ns, t_covered = [], t_attached = 0,
          t_position = length (r_out st)\<rparr>]\<rparr>"
      using assms(2) False by (auto simp: repair_step_def Let_def split: json.splits option.splits)
    let ?h = "dset (lit ''tool_calls'') (JList ns) m"
    have "ns \<noteq> []" using True cs normalize_calls_Nil [OF cs(2)] by auto
    then have "repair_inv (seen @ [m]) st' (segs @ [(?h, [])])"
      using inv False normalize_calls_ids [OF cs(2)]
      by (simp add: repair_inv_def st' layout_append seg_ok_def call_ids_def headless_def)
    then show ?thesis ..
  next
    case no: False
    then have "st' = st\<lparr>r_out := r_out st @ [m]\<rparr>" using assms(2) False
      by (simp add: repair_step_def Let_def)
    then have "repair_inv (seen @ [m]) st' (segs @ [(m, [])])"
      using inv False no by (simp add: repair_inv_def layout_append seg_ok_def call_ids_falsy)
    then show ?thesis ..
  qed
next
  case True
  note inv = assms(1) [unfolded repair_inv_def]
  show ?thesis
  proof (cases "bind_target (r_turns st) (tool_id_of m)")
    case None
    then have "st' = st\<lparr>r_orphans := r_orphans st @ [(i, m)]\<rparr>"
      using assms(2) True by (simp add: repair_step_def)
    then have "repair_inv (seen @ [m]) st' segs" using inv True by (simp add: repair_inv_def)
    then show ?thesis ..
  next
    case (Some kb)
    then obtain k b where kb: "bind_target (r_turns st) (tool_id_of m) = Some (k, b)" by (cases kb) auto
    then have st': "st' = insert_tool k (bind_message m b) b st"
      using assms(2) True by (simp add: repair_step_def)
    from bind_target_Some [OF kb] insert_tool_inv [OF assms(1) _ _ True, of k b]
    obtain segs' where "r_out st' = flat segs'" "r_turns st' = layout 0 segs'" "list_all seg_ok segs'"
      "map (headless \<circ> fst) segs' = map (headless \<circ> fst) segs"
      "image_mset unbound (mset (concat (map snd segs')))
        = add_mset (unbound m) (image_mset unbound (mset (concat (map snd segs))))"
      "r_orphans st' = r_orphans st" unfolding st' by blast
    then have "repair_inv (seen @ [m]) st' segs'"
      using inv True by (simp add: repair_inv_def)
    then show ?thesis ..
  qed
qed

lemma repair_loop_inv:
  "repair_loop i messages st = Inr st' \<Longrightarrow> repair_inv seen st segs \<Longrightarrow>
   \<exists>ms segs'. messages = map JObj ms \<and> repair_inv (seen @ ms) st' segs'"
proof (induction i messages st arbitrary: seen segs rule: repair_loop.induct)
  case (1 i st)
  then show ?case by (intro exI [of _ "[]"] exI [of _ segs]) auto
next
  case (2 i m ms st)
  then obtain st1 where st1: "repair_step i m st = Inr st1" "repair_loop (Suc i) ms st1 = Inr st'"
    by (auto split: sum.splits)
  obtain segs1 where "repair_inv (seen @ [m]) st1 segs1"
    using repair_step_inv [OF 2(3) st1(1)] by blast
  from 2(1) [OF st1(1,2) this] obtain ms' segs' where "ms = map JObj ms'"
    "repair_inv ((seen @ [m]) @ ms') st' segs'" by blast
  then show ?case by (intro exI [of _ "m # ms'"] exI [of _ segs']) simp
qed auto

lemma fold_orphans_inv:
  "repair_inv seen st segs \<Longrightarrow> mset os \<subseteq># mset (r_orphans st) \<Longrightarrow>
   \<exists>segs'. repair_inv seen (fold_orphans os st) segs'"
proof (induction os st arbitrary: segs rule: fold_orphans.induct)
  case (2 i m os st)
  show ?case
  proof (cases "orphan_target (r_turns st) (tool_id_of m)")
    case None
    have "mset os \<subseteq># mset (r_orphans st)"
      using 2(4) by (metis mset.simps(2) mset_subset_eq_insertD subset_mset.less_imp_le)
    then show ?thesis using 2(1) [OF None 2(3)] None by simp
  next
    case (Some k)
    note inv = 2(3) [unfolded repair_inv_def]
    have mem: "(i, m) \<in> set (r_orphans st)" and sub: "mset os \<subseteq># mset (remove1 (i, m) (r_orphans st))"
      using 2(4) by (simp_all add: insert_subset_eq_iff)
    have tool: "role_is m ''tool''" using inv mem by (auto simp: list_all_iff)
    note target = orphan_target_Some [OF Some]
    have "bind_message m (tool_id_of m) = m" by (simp add: bind_message_def)
    then obtain segs' where segs': "r_out (insert_tool k m (tool_id_of m) st) = flat segs'"
      "r_turns (insert_tool k m (tool_id_of m) st) = layout 0 segs'" "list_all seg_ok segs'"
      "map (headless \<circ> fst) segs' = map (headless \<circ> fst) segs"
      "image_mset unbound (mset (concat (map snd segs')))
        = add_mset (unbound m) (image_mset unbound (mset (concat (map snd segs))))"
      "r_orphans (insert_tool k m (tool_id_of m) st) = r_orphans st"
      using insert_tool_inv [OF 2(3) _ _ tool, of k "tool_id_of m"] target by auto
    define st' where "st' = (insert_tool k m (tool_id_of m) st)
      \<lparr>r_orphans := remove1 (i, m) (r_orphans (insert_tool k m (tool_id_of m) st))\<rparr>"
    have split: "mset (map snd (r_orphans st)) = add_mset m (mset (map snd (remove1 (i, m) (r_orphans st))))"
    proof -
      have "mset (r_orphans st) = add_mset (i, m) (mset (remove1 (i, m) (r_orphans st)))"
        using mem by simp
      then show ?thesis unfolding mset_map by (metis image_mset_add_mset snd_conv)
    qed
    have "repair_inv seen st' segs'"
      using inv segs' split set_remove1_subset [of "(i, m)" "r_orphans st"]
      by (auto simp: repair_inv_def st'_def list_all_iff)
    moreover have "mset os \<subseteq># mset (r_orphans st')" using sub segs'(6) by (simp add: st'_def)
    ultimately show ?thesis using 2(2) [OF Some refl] Some by (auto simp: st'_def Let_def)
  qed
qed auto

section \<open>Dropping dangling calls\<close>

fun drop_seg :: "segment \<Rightarrow> segment" where
  "drop_seg (h, ts) =
     (let slots = filter (\<lambda>i. i \<notin> set (map result_id ts)) (call_ids h)
      in (if slots = [] then h else drop_calls slots h, ts))"

lemma fold_drop_dangling:
  "fold drop_dangling (layout (length pre) segs) (pre @ flat segs) = pre @ flat (map drop_seg segs)"
proof (induction segs arbitrary: pre)
  case (Cons s segs)
  obtain h ts where s: "s = (h, ts)" by (cases s)
  obtain h' where h': "drop_seg (h, ts) = (h', ts)" by (simp add: Let_def)
  have IH: "fold drop_dangling (layout (length pre + 1 + length ts) segs) (pre @ h' # ts @ flat segs)
      = pre @ h' # ts @ flat (map drop_seg segs)"
    using Cons [of "pre @ h' # ts"] by simp
  show ?case
  proof (cases "has_calls h")
    case True
    let ?t = "\<lparr>t_ids = call_ids h, t_covered = map result_id ts, t_attached = length ts,
      t_position = length pre\<rparr>"
    have "drop_dangling ?t (pre @ h # ts @ flat segs) = pre @ h' # ts @ flat segs"
      using h' by (auto simp: drop_dangling_def open_slots_def Let_def)
    then show ?thesis using s True IH h' by simp
  next
    case False
    then have "h' = h" using h' by (simp add: call_ids_falsy)
    then show ?thesis using s False IH h' by simp
  qed
qed simp

lemma json_ids_surviving: "json_ids (surviving_calls slots cs) = filter (\<lambda>i. i \<notin> set slots) (json_ids cs)"
  by (induction slots cs rule: surviving_calls.induct) auto

lemma call_ids_drop_calls: "call_ids (drop_calls slots h) = filter (\<lambda>i. i \<notin> set slots) (call_ids h)"
proof (cases "dget h (lit ''tool_calls'')")
  case (JList cs)
  show ?thesis
  proof (cases "surviving_calls slots cs = []")
    case True
    have "filter (\<lambda>i. i \<notin> set slots) (json_ids cs) = []"
      using json_ids_surviving [of slots cs] by (simp add: True)
    then show ?thesis using JList True by (simp add: call_ids_def drop_calls_def)
  next
    case False
    then show ?thesis using JList by (simp add: call_ids_def drop_calls_def json_ids_surviving)
  qed
qed (simp_all add: call_ids_def drop_calls_def)

lemma headless_drop_calls [simp]: "headless (drop_calls slots h) = headless h"
  by (simp add: headless_def drop_calls_def Let_def) (simp add: ddel_def)

lemma role_is_drop_calls [simp]: "role_is (drop_calls slots h) r = role_is h r"
  by (simp add: drop_calls_def Let_def role_is_def)

text \<open>
  What an upstream demands: after a message come exactly the results of its calls, all of them,
  and there are no others.
\<close>

function paired :: "pydict list \<Rightarrow> bool" where
  "paired [] = True"
| "paired (m # ms) \<longleftrightarrow> \<not> role_is m ''tool''
     \<and> set (map result_id (takeWhile (\<lambda>t. role_is t ''tool'') ms)) = set (call_ids m)
     \<and> paired (dropWhile (\<lambda>t. role_is t ''tool'') ms)"
  by pat_completeness auto

termination
  by (relation "measure length") (auto simp: le_imp_less_Suc length_dropWhile_le)

lemma flat_not_tool: "list_all seg_ok segs \<Longrightarrow> takeWhile (\<lambda>t. role_is t ''tool'') (flat segs) = []
    \<and> dropWhile (\<lambda>t. role_is t ''tool'') (flat segs) = flat segs"
  by (cases segs) (auto simp: seg_ok_def)

lemma drop_seg_ids:
  assumes "seg_ok (h, ts)" and "drop_seg (h, ts) = (h', ts')"
  shows "ts' = ts" and "set (call_ids h') = set (map result_id ts)"
    and "\<not> role_is h' ''tool''" and "headless h' = headless h"
proof -
  let ?slots = "filter (\<lambda>i. i \<notin> set (map result_id ts)) (call_ids h)"
  have "call_ids h' = filter (\<lambda>i. i \<notin> set ?slots) (call_ids h)"
  proof (cases "?slots = []")
    case True
    then have "h' = h" using assms(2) by (simp only: drop_seg.simps Let_def prod.inject) simp
    then show ?thesis unfolding True by simp
  next
    case False
    then have "h' = drop_calls ?slots h"
      using assms(2) [unfolded drop_seg.simps Let_def if_not_P [OF False]] by blast
    then show ?thesis by (simp only: call_ids_drop_calls)
  qed
  then show "set (call_ids h') = set (map result_id ts)"
    using assms(1) by (auto simp: seg_ok_def)
qed (use assms in \<open>auto simp: Let_def seg_ok_def split: if_splits\<close>)

lemma paired_dropped:
  "list_all seg_ok segs \<Longrightarrow> paired (flat (map drop_seg segs))"
proof (induction segs)
  case (Cons s segs)
  obtain h ts where s: "s = (h, ts)" by (cases s)
  obtain h' where h': "drop_seg (h, ts) = (h', ts)" by (simp add: Let_def)
  note ids = drop_seg_ids [OF _ h']
  have ok: "seg_ok (h, ts)" "list_all seg_ok segs" using Cons(2) s by simp_all
  have tools: "\<forall>t \<in> set ts. role_is t ''tool''" using ok(1) by (simp add: seg_ok_def list_all_iff)
  have heads: "takeWhile (\<lambda>t. role_is t ''tool'') (flat (map drop_seg segs)) = []
      \<and> dropWhile (\<lambda>t. role_is t ''tool'') (flat (map drop_seg segs)) = flat (map drop_seg segs)"
  proof (cases segs)
    case (Cons s' segs')
    obtain g us where g: "s' = (g, us)" by (cases s')
    obtain g' where g': "drop_seg (g, us) = (g', us)" by (simp add: Let_def)
    have "\<not> role_is g' ''tool''" using drop_seg_ids(3) [OF _ g'] ok(2) Cons g by simp
    then show ?thesis using Cons g g' by (simp del: drop_seg.simps)
  qed simp
  have "takeWhile (\<lambda>t. role_is t ''tool'') (ts @ flat (map drop_seg segs)) = ts"
    using tools heads by (simp add: takeWhile_append)
  moreover have "dropWhile (\<lambda>t. role_is t ''tool'') (ts @ flat (map drop_seg segs)) = flat (map drop_seg segs)"
    using tools heads by (simp add: dropWhile_append)
  ultimately show ?case using Cons(1) [OF ok(2)] ids(2,3) [OF ok(1)] s h' by simp
qed simp

section \<open>Properties\<close>

lemma flat_heads:
  "list_all seg_ok segs \<Longrightarrow>
   filter (\<lambda>m. \<not> role_is m ''tool'') (flat (map drop_seg segs)) = map (\<lambda>s. fst (drop_seg s)) segs
   \<and> filter (\<lambda>m. role_is m ''tool'') (flat (map drop_seg segs)) = concat (map snd segs)"
proof (induction segs)
  case (Cons s segs)
  obtain h ts where s: "s = (h, ts)" by (cases s)
  obtain h' where h': "drop_seg (h, ts) = (h', ts)" by (simp add: Let_def)
  have ok: "seg_ok (h, ts)" using Cons(2) s by simp
  then have "\<forall>t \<in> set ts. role_is t ''tool''" by (simp add: seg_ok_def list_all_iff)
  then show ?case using Cons s h' drop_seg_ids(3) [OF ok h'] by simp
qed simp


abbreviation tool_result :: "string \<Rightarrow> pydict" where
  "tool_result i \<equiv> [(lit ''role'', JStr (lit ''tool'')), (lit ''tool_call_id'', JStr (lit i))]"

abbreviation caller :: "string \<Rightarrow> pydict" where
  "caller i \<equiv> [(lit ''role'', JStr (lit ''assistant'')),
     (lit ''tool_calls'', JList [JObj [(lit ''id'', JStr (lit i))]])]"


text \<open>A history that needs no repair.\<close>

definition calls_ok :: "pydict \<Rightarrow> bool" where
  "calls_ok m \<longleftrightarrow> \<not> has_calls m \<or>
     (case dget m (lit ''tool_calls'') of
        JList cs \<Rightarrow> list_all (\<lambda>c. case c of JObj d \<Rightarrow> truthy (dget d (lit ''id'')) | _ \<Rightarrow> False) cs
      | _ \<Rightarrow> False)"

function exactly_paired :: "pydict list \<Rightarrow> bool" where
  "exactly_paired [] = True"
| "exactly_paired (m # ms) \<longleftrightarrow> \<not> role_is m ''tool'' \<and> calls_ok m
     \<and> set (map result_id (takeWhile (\<lambda>t. role_is t ''tool'') ms)) = set (call_ids m)
     \<and> distinct (map result_id (takeWhile (\<lambda>t. role_is t ''tool'') ms))
     \<and> exactly_paired (dropWhile (\<lambda>t. role_is t ''tool'') ms)"
  by pat_completeness auto

termination
  by (relation "measure length") (auto simp: le_imp_less_Suc length_dropWhile_le)

definition image_of :: "segment list \<Rightarrow> repair_state" where
  "image_of segs = \<lparr>r_out = flat segs, r_turns = layout 0 segs, r_orphans = []\<rparr>"

lemma normalize_calls_id:
  "list_all (\<lambda>c. case c of JObj d \<Rightarrow> truthy (dget d (lit ''id'')) | _ \<Rightarrow> False) cs \<Longrightarrow>
   normalize_calls i p cs = Some cs"
  by (induction i p cs rule: normalize_calls.induct) auto

lemma dset_dget_self: "dget m k = v \<Longrightarrow> v \<noteq> JNull \<Longrightarrow> dset k v m = m"
  by (auto simp: dget_def dset_eq_self split: option.splits)

lemma step_head:
  assumes "\<not> role_is m ''tool''" and "calls_ok m"
  shows "repair_step i m (image_of segs) = Inr (image_of (segs @ [(m, [])]))"
proof (cases "has_calls m")
  case True
  then obtain cs where cs: "dget m (lit ''tool_calls'') = JList cs"
    "list_all (\<lambda>c. case c of JObj d \<Rightarrow> truthy (dget d (lit ''id'')) | _ \<Rightarrow> False) cs"
    using assms(2) by (auto simp: calls_ok_def split: json.splits)
  then show ?thesis using assms(1) True
    by (simp add: repair_step_def image_of_def normalize_calls_id dset_dget_self layout_append call_ids_def)
next
  case False
  then show ?thesis using assms(1) by (simp add: repair_step_def image_of_def layout_append Let_def)
qed

lemma last_index_last: "P x \<Longrightarrow> last_index P (xs @ [x]) = Some (length xs)"
  by (simp add: last_index_def)

lemma attach_last: "has_calls h \<Longrightarrow>
   attach (length (layout p segs)) m (segs @ [(h, ts)]) = segs @ [(h, ts @ [m])]"
proof (induction p segs rule: layout.induct)
  case (2 q g us segs)
  then show ?case by (cases "has_calls g") simp_all
qed simp

lemma step_result:
  assumes "role_is t ''tool''" and "has_calls h" and "result_id t \<in> set (call_ids h)"
    and "result_id t \<notin> set (map result_id ts)" and "list_all truthy (call_ids h)"
  shows "repair_step i t (image_of (segs @ [(h, ts)])) = Inr (image_of (segs @ [(h, ts @ [t])]))"
proof -
  let ?segs = "segs @ [(h, ts)]"
  let ?k = "length (layout 0 segs)"
  have "truthy (result_id t)" using assms(3,5) by (auto simp: list_all_iff)
  then have id: "tool_id_of t = result_id t" by (simp add: tool_id_of_def result_id_def py_or_def)
  have layout: "layout 0 ?segs = layout 0 segs @ [\<lparr>t_ids = call_ids h, t_covered = map result_id ts,
      t_attached = length ts, t_position = length (flat segs)\<rparr>]"
    using assms(2) by (simp add: layout_append)
  have "last_index (\<lambda>u. result_id t \<in> set (t_ids u)) (layout 0 ?segs) = Some ?k"
    unfolding layout using assms(3) by (intro last_index_last) simp
  then have "bind_target (layout 0 ?segs) (tool_id_of t) = Some (?k, result_id t)"
    using \<open>truthy (result_id t)\<close> assms(4) layout by (simp add: bind_target_def id_target_def id)
  then have step: "repair_step i t (image_of ?segs) = Inr (insert_tool ?k t (result_id t) (image_of ?segs))"
    using assms(1) by (simp add: repair_step_def image_of_def bind_message_def id)
  have "insert_tool ?k t (result_id t) (image_of ?segs) = image_of (attach ?k t ?segs)"
    using insert_tool_refines [of "image_of ?segs" ?segs ?k t "result_id t"] layout
    by (auto simp: image_of_def intro: repair_state.equality)
  then show ?thesis using step attach_last [OF assms(2), of 0 segs t ts] by simp
qed

lemma loop_results:
  assumes "has_calls h" and "list_all truthy (call_ids h)"
  shows "list_all (\<lambda>t. role_is t ''tool'' \<and> result_id t \<in> set (call_ids h)) us \<Longrightarrow>
    distinct (map result_id (ts @ us)) \<Longrightarrow>
    repair_loop i (map JObj us @ rest) (image_of (segs @ [(h, ts)]))
      = repair_loop (i + length us) rest (image_of (segs @ [(h, ts @ us)]))"
proof (induction us arbitrary: i ts)
  case (Cons u us)
  have "repair_step i u (image_of (segs @ [(h, ts)])) = Inr (image_of (segs @ [(h, ts @ [u])]))"
    using Cons.prems assms by (intro step_result) auto
  then show ?case using Cons.IH [of "ts @ [u]" "Suc i"] Cons.prems by simp
qed simp

lemma calls_ok_truthy: "calls_ok m \<Longrightarrow> list_all truthy (call_ids m)"
proof (cases "has_calls m")
  case True
  assume "calls_ok m"
  then obtain cs where cs: "dget m (lit ''tool_calls'') = JList cs"
    "list_all (\<lambda>c. case c of JObj d \<Rightarrow> truthy (dget d (lit ''id'')) | _ \<Rightarrow> False) cs"
    using True by (auto simp: calls_ok_def split: json.splits)
  from normalize_calls_ids [OF normalize_calls_id [OF cs(2)]] show ?thesis
    by (simp add: call_ids_def cs(1))
qed (simp add: call_ids_falsy)

definition full_seg :: "segment \<Rightarrow> bool" where
  "full_seg s \<longleftrightarrow> set (call_ids (fst s)) = set (map result_id (snd s))"

lemma loop_exactly_paired:
  "exactly_paired ms \<Longrightarrow> list_all full_seg segs \<Longrightarrow>
   \<exists>segs'. repair_loop i (map JObj ms) (image_of segs) = Inr (image_of segs')
     \<and> flat segs' = flat segs @ ms \<and> list_all full_seg segs'"
proof (induction ms arbitrary: i segs rule: exactly_paired.induct)
  case (2 m ms)
  let ?ts = "takeWhile (\<lambda>t. role_is t ''tool'') ms" and ?rest = "dropWhile (\<lambda>t. role_is t ''tool'') ms"
  have m: "\<not> role_is m ''tool''" "calls_ok m" "set (map result_id ?ts) = set (call_ids m)"
    "distinct (map result_id ?ts)" "exactly_paired ?rest" using 2(2) by simp_all
  have full: "list_all full_seg (segs @ [(m, ?ts)])" using 2(3) m(3) by (simp add: full_seg_def [of "(m, _)"])
  have "repair_loop (Suc i) (map JObj ms) (image_of (segs @ [(m, [])]))
      = repair_loop (Suc i + length ?ts) (map JObj ?rest) (image_of (segs @ [(m, ?ts)]))"
  proof (cases "has_calls m")
    case True
    have "list_all (\<lambda>t. role_is t ''tool'' \<and> result_id t \<in> set (call_ids m)) ?ts"
      using m(3) by (auto simp: list_all_iff dest: set_takeWhileD)
    from loop_results [OF True calls_ok_truthy [OF m(2)] this, of "[]" "Suc i" "map JObj ?rest" segs]
    show ?thesis using m(4) by (simp flip: map_append)
  next
    case False
    then have "?ts = []" using m(3) by (simp add: call_ids_falsy)
    then show ?thesis by (metis append_Nil list.size(3) add_0_right takeWhile_dropWhile_id)
  qed
  then have run: "repair_loop i (map JObj (m # ms)) (image_of segs)
      = repair_loop (Suc i + length ?ts) (map JObj ?rest) (image_of (segs @ [(m, ?ts)]))"
    using step_head [OF m(1,2)] by simp
  from 2(1) [OF m(5) full] obtain segs' where
    "repair_loop (Suc i + length ?ts) (map JObj ?rest) (image_of (segs @ [(m, ?ts)])) = Inr (image_of segs')"
    "flat segs' = flat (segs @ [(m, ?ts)]) @ ?rest" "list_all full_seg segs'" by blast
  then show ?case using run by (intro exI [of _ segs']) simp
qed (auto intro: exI [of _ segs])

text \<open>
  A history whose results already answer their calls, each once, comes back unchanged.
\<close>

lemma repair_keeps_valid_history:
  assumes "exactly_paired ms"
  shows "repair_tool_pairing (map JObj ms) = Inr ms"
proof -
  have start: "image_of [] = \<lparr>r_out = [], r_turns = [], r_orphans = []\<rparr>" by (simp add: image_of_def)
  from loop_exactly_paired [OF assms, of "[]" 0] obtain segs where
    run: "repair_loop 0 (map JObj ms) (image_of []) = Inr (image_of segs)"
    and segs: "flat segs = ms" "list_all full_seg segs" by auto
  have "drop_seg s = s" if "s \<in> set segs" for s
    using segs(2) that by (cases s) (auto simp: list_all_iff full_seg_def filter_empty_conv)
  then have "map drop_seg segs = segs" by (simp add: map_idI)
  then have "fold drop_dangling (layout 0 segs) ms = ms"
    using fold_drop_dangling [of "[]" segs] segs(1) by simp
  then show ?thesis using run segs(1) by (simp add: repair_tool_pairing_def start [symmetric])
      (simp add: image_of_def)
qed

lemma repair_keeps_valid_history_witness:
  "repair_tool_pairing [JObj (caller ''a''), JObj (tool_result ''a'')]
   = Inr [caller ''a'', tool_result ''a'']"
proof -
  have "exactly_paired [caller ''a'', tool_result ''a'']"
    by (simp add: calls_ok_def role_is_def dget_def call_ids_def result_id_def lit_def)
  from repair_keeps_valid_history [OF this] show ?thesis by simp
qed

end
