(* ===== verification/AnthropicCompat.thy ===== *)
theory AnthropicCompat
  imports Pairing
begin

text \<open>
  The Anthropic compatibility layer (\<open>invincible/compat/anthropic.py\<close>): the translations between
  the Anthropic and the internal message model. The stream translation is theory
  \<open>AnthropicStream\<close>. Where the source raises on a malformed value, the result is \<open>None\<close> or a value
  of \<open>translate_error\<close>; \<open>uuid.uuid4().hex\<close> is the n-th value of a supply; \<open>str\<close> of a value that is
  not a string is the argument \<open>str_of\<close>.
\<close>

definition ERROR_TYPE_BY_STATUS :: "(int \<times> ustr) list" where
  "ERROR_TYPE_BY_STATUS =
     [(400, lit ''invalid_request_error''), (401, lit ''authentication_error''),
      (403, lit ''permission_error''), (404, lit ''not_found_error''), (429, lit ''rate_limit_error''),
      (500, lit ''api_error''), (503, lit ''overloaded_error'')]"

definition FINISH_REASON_MAP :: "(ustr \<times> ustr) list" where
  "FINISH_REASON_MAP =
     [(lit ''stop'', lit ''end_turn''), (lit ''length'', lit ''max_tokens''),
      (lit ''tool_calls'', lit ''tool_use'')]"

definition DEFAULT_STOP_REASON :: ustr where
  "DEFAULT_STOP_REASON = lit ''end_turn''"

text \<open>A list or an object is unhashable: the dictionary lookup raises.\<close>

definition translate_finish_reason :: "json \<Rightarrow> ustr option" where
  "translate_finish_reason finish_reason = (case finish_reason of
       JNull \<Rightarrow> Some DEFAULT_STOP_REASON
     | JStr s \<Rightarrow> Some (case map_of FINISH_REASON_MAP s of Some r \<Rightarrow> r | None \<Rightarrow> DEFAULT_STOP_REASON)
     | JList _ \<Rightarrow> None
     | JObj _ \<Rightarrow> None
     | _ \<Rightarrow> Some DEFAULT_STOP_REASON)"

section \<open>Tools\<close>

fun openai_tool :: "json \<Rightarrow> json option" where
  "openai_tool (JObj tool) =
     (let name = dget tool (lit ''name'') in
      if \<not> truthy name then None
      else Some (JObj [(lit ''type'', JStr (lit ''function'')),
        (lit ''function'', JObj ([(lit ''name'', name)]
          @ (if truthy (dget tool (lit ''description''))
             then [(lit ''description'', dget tool (lit ''description''))] else [])
          @ (case dget tool (lit ''input_schema'') of
               JObj schema \<Rightarrow> [(lit ''parameters'', JObj schema)] | _ \<Rightarrow> [])))]))"
| "openai_tool _ = None"

definition anthropic_tools_to_openai :: "json list \<Rightarrow> json list option" where
  "anthropic_tools_to_openai tools =
     (let openai_tools = List.map_filter openai_tool tools
      in if openai_tools = [] then None else Some openai_tools)"

definition translate_tool_choice :: "json \<Rightarrow> json" where
  "translate_tool_choice choice = (case choice of
       JStr s \<Rightarrow> if s = lit ''auto'' \<or> s = lit ''none'' then JStr s else JNull
     | JObj d \<Rightarrow>
         let choice_type = dget d (lit ''type'') in
         if choice_type = JStr (lit ''auto'') then JStr (lit ''auto'')
         else if choice_type = JStr (lit ''none'') then JStr (lit ''none'')
         else if choice_type = JStr (lit ''any'') then JStr (lit ''required'')
         else if choice_type = JStr (lit ''tool'') \<and> truthy (dget d (lit ''name'')) then
           JObj [(lit ''type'', JStr (lit ''function'')),
                 (lit ''function'', JObj [(lit ''name'', dget d (lit ''name''))])]
         else JNull
     | _ \<Rightarrow> JNull)"

section \<open>Content blocks\<close>

definition text_value :: "(json \<Rightarrow> ustr) \<Rightarrow> json \<Rightarrow> ustr" where
  "text_value str_of v = (case v of JStr s \<Rightarrow> s | _ \<Rightarrow> str_of v)"

definition block_text :: "(json \<Rightarrow> ustr) \<Rightarrow> pydict \<Rightarrow> ustr" where
  "block_text str_of block =
     (let t = dget block (lit ''text'') in if truthy t then text_value str_of t else [])"

lemma size_dget_or: "size (dget_or d k (JStr [])) < size (JObj d)"
proof (cases "map_of d k")
  case (Some v)
  then have "size v < size_list (size_prod (\<lambda>x. 0) size) d"
    by (induction d) (auto split: if_splits)
  then show ?thesis using Some by (simp add: dget_or_def)
qed (simp add: dget_or_def)

lemma size_list_member: "(x :: json) \<in> set xs \<Longrightarrow> size x < size (JList xs)"
  by (induction xs) auto

function (sequential) flatten_content_blocks :: "(json \<Rightarrow> ustr) \<Rightarrow> json \<Rightarrow> ustr" where
  "flatten_content_blocks str_of (JStr s) = s"
| "flatten_content_blocks str_of (JList blocks) = concat (map (\<lambda>b. case b of
       JObj block \<Rightarrow>
         let block_type = dget block (lit ''type'') in
         if block_type = JStr (lit ''text'') then block_text str_of block
         else if block_type = JStr (lit ''tool_result'') then
           flatten_content_blocks str_of (dget_or block (lit ''content'') (JStr []))
         else if block_type = JStr (lit ''tool_use'') then
           lit ''[tool_use: ''
             @ text_value str_of (py_or (dget block (lit ''name'')) (JStr (lit ''tool''))) @ lit '']''
         else []
     | _ \<Rightarrow> []) blocks)"
| "flatten_content_blocks str_of _ = []"
  by pat_completeness auto

termination
proof (relation "measure (\<lambda>(str_of, c). size c)", simp)
  fix str_of blocks b block
  assume "b \<in> set blocks" "b = JObj block"
  then show "((str_of, dget_or block (lit ''content'') (JStr [])), str_of, JList blocks)
      \<in> measure (\<lambda>(str_of, c). size c)"
    using size_list_member [of b blocks] size_dget_or [of block "lit ''content''"] by simp
qed

definition tool_use_blocks :: "json \<Rightarrow> pydict list" where
  "tool_use_blocks content = (case content of
       JList blocks \<Rightarrow> List.map_filter (\<lambda>b. case b of
           JObj d \<Rightarrow> if dget d (lit ''type'') = JStr (lit ''tool_use'') then Some d else None
         | _ \<Rightarrow> None) blocks
     | _ \<Rightarrow> [])"

definition text_blocks_of :: "(json \<Rightarrow> ustr) \<Rightarrow> json \<Rightarrow> ustr" where
  "text_blocks_of str_of content = (case content of
       JStr s \<Rightarrow> s
     | JList blocks \<Rightarrow> concat (map (\<lambda>b. case b of
           JObj d \<Rightarrow> if dget d (lit ''type'') = JStr (lit ''text'') then block_text str_of d else []
         | _ \<Rightarrow> []) blocks)
     | _ \<Rightarrow> [])"

section \<open>Messages\<close>

definition missing_call_id :: "nat \<Rightarrow> ustr" where
  "missing_call_id position = lit ''call_missing_'' @ dec (int position)"

definition tool_call_of :: "nat \<Rightarrow> pydict \<Rightarrow> json" where
  "tool_call_of position block = JObj
     [(lit ''id'', py_or (dget block (lit ''id'')) (JStr (missing_call_id position))),
      (lit ''type'', JStr (lit ''function'')),
      (lit ''function'', JObj
         [(lit ''name'', py_or (dget block (lit ''name'')) (JStr [])),
          (lit ''arguments'', JStr (dumps True (py_or (dget block (lit ''input'')) (JObj []))))])]"

definition assistant_to_internal :: "(json \<Rightarrow> ustr) \<Rightarrow> json \<Rightarrow> pydict" where
  "assistant_to_internal str_of content =
     (let txt = text_blocks_of str_of content; tool_uses = tool_use_blocks content in
      if tool_uses = [] then build_message (lit ''assistant'') (JStr txt)
      else [(lit ''role'', JStr (lit ''assistant'')),
            (lit ''content'', if txt \<noteq> [] then JStr txt else JNull),
            (lit ''tool_calls'', JList (map (\<lambda>(i, b). tool_call_of i b) (enumerate 0 tool_uses)))])"

definition tool_result_of :: "(json \<Rightarrow> ustr) \<Rightarrow> pydict \<Rightarrow> pydict" where
  "tool_result_of str_of block =
     [(lit ''role'', JStr (lit ''tool'')),
      (lit ''tool_call_id'', py_or (dget block (lit ''tool_use_id'')) (JStr [])),
      (lit ''content'', JStr (flatten_content_blocks str_of (dget_or block (lit ''content'') (JStr []))))]"

definition blocks_of_type :: "string \<Rightarrow> json list \<Rightarrow> pydict list" where
  "blocks_of_type ty blocks = List.map_filter (\<lambda>b. case b of
       JObj d \<Rightarrow> if dget d (lit ''type'') = JStr (lit ty) then Some d else None
     | _ \<Rightarrow> None) blocks"

definition user_to_internal :: "(json \<Rightarrow> ustr) \<Rightarrow> json \<Rightarrow> pydict list" where
  "user_to_internal str_of content = (case content of
       JStr s \<Rightarrow> if s \<noteq> [] then [build_message (lit ''user'') (JStr s)] else []
     | JList blocks \<Rightarrow>
         let txt = concat (map (block_text str_of) (blocks_of_type ''text'' blocks)) in
         map (tool_result_of str_of) (blocks_of_type ''tool_result'' blocks)
         @ (if txt \<noteq> [] then [build_message (lit ''user'') (JStr txt)] else [])
     | v \<Rightarrow> if truthy v then [build_message (lit ''user'') (JStr (str_of v))] else [])"

datatype translate_error = MessageNotAnObject | UnsupportedRole json | NoUsableContent

definition system_message :: "(json \<Rightarrow> ustr) \<Rightarrow> json \<Rightarrow> pydict list" where
  "system_message str_of content =
     (let t = flatten_content_blocks str_of content
      in if t \<noteq> [] then [build_message (lit ''system'') (JStr t)] else [])"

definition message_to_internal :: "(json \<Rightarrow> ustr) \<Rightarrow> json \<Rightarrow> translate_error + pydict list" where
  "message_to_internal str_of message = (case message of
       JObj d \<Rightarrow>
         let role = dget d (lit ''role''); content = dget_or d (lit ''content'') (JStr []) in
         if role = JStr (lit ''system'') then Inr (system_message str_of content)
         else if role = JStr (lit ''user'') then Inr (user_to_internal str_of content)
         else if role = JStr (lit ''assistant'') then
           let translated = assistant_to_internal str_of content
           in Inr (if truthy (dget translated (lit ''content''))
                      \<or> truthy (dget translated (lit ''tool_calls'')) then [translated] else [])
         else Inl (UnsupportedRole role)
     | _ \<Rightarrow> Inl MessageNotAnObject)"

fun messages_to_internal :: "(json \<Rightarrow> ustr) \<Rightarrow> json list \<Rightarrow> translate_error + pydict list" where
  "messages_to_internal str_of [] = Inr []"
| "messages_to_internal str_of (m # ms) =
     (case message_to_internal str_of m of
        Inl e \<Rightarrow> Inl e
      | Inr xs \<Rightarrow> (case messages_to_internal str_of ms of Inl e \<Rightarrow> Inl e | Inr ys \<Rightarrow> Inr (xs @ ys)))"

definition anthropic_to_internal ::
  "(json \<Rightarrow> ustr) \<Rightarrow> json list \<Rightarrow> json \<Rightarrow> translate_error + pydict list" where
  "anthropic_to_internal str_of messages system =
     (case messages_to_internal str_of messages of
        Inl e \<Rightarrow> Inl e
      | Inr ms \<Rightarrow>
          let internal = (if system \<noteq> JNull then system_message str_of system else []) @ ms
          in if internal = [] then Inl NoUsableContent else Inr internal)"

section \<open>Responses\<close>

definition message_id :: "ustr \<Rightarrow> ustr" where
  "message_id uuid = lit ''msg_'' @ uuid"

definition build_message_skeleton :: "ustr \<Rightarrow> json \<Rightarrow> int \<Rightarrow> pydict" where
  "build_message_skeleton mid model input_tokens =
     [(lit ''id'', JStr mid), (lit ''type'', JStr (lit ''message'')),
      (lit ''role'', JStr (lit ''assistant'')), (lit ''model'', model), (lit ''content'', JList []),
      (lit ''stop_reason'', JNull), (lit ''stop_sequence'', JNull),
      (lit ''usage'', JObj (build_usage input_tokens 0))]"

text \<open>\<open>x.get(k) or {}\<close> followed by a lookup: an object, or an error for another truthy value.\<close>

definition obj_or_empty :: "json \<Rightarrow> pydict option" where
  "obj_or_empty v = (case v of JObj d \<Rightarrow> Some d | _ \<Rightarrow> if truthy v then None else Some [])"

definition parse_arguments :: "(ustr \<Rightarrow> json option) \<Rightarrow> json \<Rightarrow> json" where
  "parse_arguments loads arguments =
     (case py_or arguments (JStr (lit ''{}'')) of
        JStr s \<Rightarrow> (case loads s of Some (JObj d) \<Rightarrow> JObj d | _ \<Rightarrow> JObj [])
      | _ \<Rightarrow> JObj [])"

text \<open>The blocks of the calls; \<open>n\<close> counts the uuids drawn so far.\<close>

fun tool_use_of ::
  "(ustr \<Rightarrow> json option) \<Rightarrow> (nat \<Rightarrow> ustr) \<Rightarrow> nat \<Rightarrow> json list \<Rightarrow> (json list \<times> nat) option" where
  "tool_use_of loads uuid n [] = Some ([], n)"
| "tool_use_of loads uuid n (JObj call # calls) =
     (case obj_or_empty (dget call (lit ''function'')) of
        None \<Rightarrow> None
      | Some function \<Rightarrow>
          let missing = \<not> truthy (dget call (lit ''id''));
              block = JObj [(lit ''type'', JStr (lit ''tool_use'')),
                (lit ''id'', if missing then JStr (lit ''toolu_'' @ uuid n) else dget call (lit ''id'')),
                (lit ''name'', py_or (dget function (lit ''name'')) (JStr (lit ''function''))),
                (lit ''input'', parse_arguments loads (dget function (lit ''arguments'')))]
          in (case tool_use_of loads uuid (if missing then Suc n else n) calls of
                None \<Rightarrow> None | Some (rest, n') \<Rightarrow> Some (block # rest, n')))"
| "tool_use_of loads uuid n (_ # calls) = None"

definition first_choice_of :: "pydict \<Rightarrow> pydict option" where
  "first_choice_of body = (case py_or (dget body (lit ''choices'')) (JList []) of
       JList [] \<Rightarrow> Some []
     | JList (JObj c # _) \<Rightarrow> Some c
     | _ \<Rightarrow> None)"

definition calls_of_message :: "pydict \<Rightarrow> json list option" where
  "calls_of_message message = (case py_or (dget message (lit ''tool_calls'')) (JList []) of
       JList cs \<Rightarrow> Some cs | _ \<Rightarrow> None)"

definition internal_to_anthropic ::
  "(ustr \<Rightarrow> json option) \<Rightarrow> (nat \<Rightarrow> ustr) \<Rightarrow> pydict \<Rightarrow> json \<Rightarrow> int \<Rightarrow> pydict option" where
  "internal_to_anthropic loads uuid openai_body served_model input_tokens =
     (case first_choice_of openai_body of
        None \<Rightarrow> None
      | Some first_choice \<Rightarrow>
     (case obj_or_empty (dget first_choice (lit ''message'')) of
        None \<Rightarrow> None
      | Some message \<Rightarrow>
     (case calls_of_message message of
        None \<Rightarrow> None
      | Some tool_calls \<Rightarrow>
     (case tool_use_of loads uuid 0 tool_calls of
        None \<Rightarrow> None
      | Some (tool_blocks, n) \<Rightarrow>
     (case translate_finish_reason (dget first_choice (lit ''finish_reason'')) of
        None \<Rightarrow> None
      | Some reason \<Rightarrow>
          let content = py_or (dget message (lit ''content'')) (JStr []);
              text_block = (if truthy content
                then [JObj [(lit ''type'', JStr (lit ''text'')), (lit ''text'', content)]] else [])
          in Some
            [(lit ''id'', JStr (message_id (uuid n))), (lit ''type'', JStr (lit ''message'')),
             (lit ''role'', JStr (lit ''assistant'')),
             (lit ''model'', py_or served_model
                (py_or (dget openai_body (lit ''model'')) (JStr (lit ''invincible'')))),
             (lit ''content'', JList (text_block @ tool_blocks)),
             (lit ''stop_reason'', JStr (if tool_calls \<noteq> [] then lit ''tool_use'' else reason)),
             (lit ''stop_sequence'', JNull),
             (lit ''usage'', JObj (build_usage input_tokens
                (estimate_assistant_tokens content tool_calls)))])))))"

definition build_error :: "int \<Rightarrow> ustr \<Rightarrow> int \<times> pydict" where
  "build_error status_code message =
     (let error_type = (case map_of ERROR_TYPE_BY_STATUS status_code of
            Some t \<Rightarrow> t | None \<Rightarrow> lit ''api_error'')
      in (status_code,
          [(lit ''type'', JStr (lit ''error'')),
           (lit ''error'', JObj [(lit ''type'', JStr error_type), (lit ''message'', JStr message)])]))"

section \<open>Property\<close>

text \<open>A call as the client and the store see it: its id, its name and its arguments.\<close>

definition call_view :: "json \<Rightarrow> json \<times> json \<times> json" where
  "call_view c = (case c of
       JObj d \<Rightarrow> (case dget d (lit ''function'') of
           JObj f \<Rightarrow> (dget d (lit ''id''), dget f (lit ''name''), dget f (lit ''arguments''))
         | _ \<Rightarrow> (dget d (lit ''id''), JNull, JNull))
     | _ \<Rightarrow> (JNull, JNull, JNull))"

definition complete_call :: "json \<Rightarrow> bool" where
  "complete_call c \<longleftrightarrow> (case c of
       JObj d \<Rightarrow> truthy (dget d (lit ''id'')) \<and> (case dget d (lit ''function'') of
           JObj f \<Rightarrow> truthy (dget f (lit ''name'')) | _ \<Rightarrow> False)
     | _ \<Rightarrow> False)"

definition canonical_view :: "(ustr \<Rightarrow> json option) \<Rightarrow> json \<Rightarrow> json \<times> json \<times> json" where
  "canonical_view loads c = (let (i, n, a) = call_view c
     in (i, n, JStr (dumps True (parse_arguments loads a))))"

lemma parse_arguments_obj: "\<exists>d. parse_arguments loads a = JObj d"
  by (auto simp: parse_arguments_def split: json.splits option.splits)

lemma tool_use_of_complete:
  "tool_use_of loads uuid n cs = Some (bs, n') \<Longrightarrow> list_all complete_call cs \<Longrightarrow>
   \<exists>ds. bs = map JObj ds \<and> n' = n
     \<and> map (\<lambda>d. (dget d (lit ''type''), dget d (lit ''id''), dget d (lit ''name''),
            JStr (dumps True (dget d (lit ''input'')))) ) ds
       = map (\<lambda>c. (JStr (lit ''tool_use''), canonical_view loads c)) cs
     \<and> list_all (\<lambda>d. truthy (dget d (lit ''id'')) \<and> truthy (dget d (lit ''name''))
          \<and> (\<exists>a. dget d (lit ''input'') = JObj a)) ds"
proof (induction loads uuid n cs arbitrary: bs n' rule: tool_use_of.induct)
  case (2 loads uuid n call calls)
  obtain f where f: "dget call (lit ''function'') = JObj f" "truthy (dget f (lit ''name''))"
    and id: "truthy (dget call (lit ''id''))"
    using 2(3) by (auto simp: complete_call_def split: json.splits)
  obtain bs' where bs': "tool_use_of loads uuid n calls = Some (bs', n')"
    "bs = JObj [(lit ''type'', JStr (lit ''tool_use'')), (lit ''id'', dget call (lit ''id'')),
       (lit ''name'', dget f (lit ''name'')),
       (lit ''input'', parse_arguments loads (dget f (lit ''arguments'')))] # bs'"
    using 2(2) f id by (auto simp: obj_or_empty_def py_or_def Let_def split: option.splits)
  from 2(1) [of f "\<not> truthy (dget call (lit ''id''))" _ bs' n'] bs'(1) 2(3) f id
  obtain ds where ds: "bs' = map JObj ds" "n' = n"
    "map (\<lambda>d. (dget d (lit ''type''), dget d (lit ''id''), dget d (lit ''name''),
            JStr (dumps True (dget d (lit ''input'')))) ) ds
       = map (\<lambda>c. (JStr (lit ''tool_use''), canonical_view loads c)) calls"
    "list_all (\<lambda>d. truthy (dget d (lit ''id'')) \<and> truthy (dget d (lit ''name''))
          \<and> (\<exists>a. dget d (lit ''input'') = JObj a)) ds"
    by (auto simp: obj_or_empty_def)
  let ?d = "[(lit ''type'', JStr (lit ''tool_use'')), (lit ''id'', dget call (lit ''id'')),
       (lit ''name'', dget f (lit ''name'')),
       (lit ''input'', parse_arguments loads (dget f (lit ''arguments'')))]"
  show ?case
    using ds bs'(2) f id parse_arguments_obj
    by (intro exI [of _ "?d # ds"])
       (simp add: dget_def [of ?d] canonical_view_def call_view_def del: dumps.simps)
qed auto

lemma tool_use_blocks_JObj:
  "list_all (\<lambda>d. dget d (lit ''type'') = JStr (lit ''tool_use'')) ds \<Longrightarrow>
   tool_use_blocks (JList (pre @ map JObj ds)) = tool_use_blocks (JList pre) @ ds"
  by (induction ds) (auto simp: tool_use_blocks_def map_filter_def)

lemma text_blocks_of_tools:
  "list_all (\<lambda>d. dget d (lit ''type'') = JStr (lit ''tool_use'')) ds \<Longrightarrow>
   text_blocks_of str_of (JList (pre @ map JObj ds)) = text_blocks_of str_of (JList pre)"
  by (induction ds) (auto simp: text_blocks_of_def)

lemma call_view_tool_call_of:
  assumes "truthy (dget d (lit ''id''))" and "truthy (dget d (lit ''name''))" and "dget d (lit ''input'') = JObj a"
  shows "call_view (tool_call_of i d)
    = (dget d (lit ''id''), dget d (lit ''name''), JStr (dumps True (dget d (lit ''input''))))"
proof -
  have "py_or (JObj a) (JObj []) = JObj a" by (simp add: py_or_def)
  then show ?thesis using assms
    by (simp add: call_view_def tool_call_of_def py_or_def [of "dget d (lit ''id'')"]
        py_or_def [of "dget d (lit ''name'')"] dget_def [of "_ # _"])
qed

lemma views_enumerated:
  "list_all (\<lambda>d. truthy (dget d (lit ''id'')) \<and> truthy (dget d (lit ''name''))
      \<and> (\<exists>a. dget d (lit ''input'') = JObj a)) ds \<Longrightarrow>
   map (call_view \<circ> (\<lambda>(i, b). tool_call_of i b)) (enumerate n ds)
   = map (\<lambda>d. (dget d (lit ''id''), dget d (lit ''name''), JStr (dumps True (dget d (lit ''input''))))) ds"
  by (induction ds arbitrary: n) (auto simp: call_view_tool_call_of)


abbreviation sample_call :: json where
  "sample_call \<equiv> JObj [(lit ''id'', JStr (lit ''c1'')), (lit ''function'', JObj [(lit ''name'', JStr (lit ''run''))])]"

abbreviation sample_reply :: pydict where
  "sample_reply \<equiv> [(lit ''choices'', JList [JObj [(lit ''message'', JObj
     [(lit ''content'', JStr (lit ''ok'')), (lit ''tool_calls'', JList [sample_call])])]])]"


end
