(* ===== verification/AnthropicStream.thy ===== *)
theory AnthropicStream
  imports AnthropicCompat Attempt
begin

text \<open>
  The stream translation of the Anthropic layer (\<open>build_stream_events\<close> in
  \<open>invincible/compat/anthropic.py\<close>): a state machine that turns the chunks of an upstream stream into
  Anthropic events and accumulates the assistant message to persist. A step that raises has
  yielded some frames already; it returns them, the state so far and \<open>False\<close>.
\<close>

section \<open>Frames\<close>

datatype frame =
    MessageStart pydict
  | TextStart nat
  | ToolStart nat json json
  | TextDelta nat ustr
  | JsonDelta nat ustr
  | BlockStop nat
  | MessageDelta ustr pydict
  | MessageStop
  | ErrorFrame

abbreviation typed :: "string \<Rightarrow> pydict \<Rightarrow> ustr \<times> pydict" where
  "typed ty d \<equiv> (lit ty, (lit ''type'', JStr (lit ty)) # d)"

fun frame_event :: "frame \<Rightarrow> ustr \<times> pydict" where
  "frame_event (MessageStart m) = typed ''message_start'' [(lit ''message'', JObj m)]"
| "frame_event (TextStart i) = typed ''content_block_start''
     [(lit ''index'', JInt (int i)),
      (lit ''content_block'', JObj [(lit ''type'', JStr (lit ''text'')), (lit ''text'', JStr [])])]"
| "frame_event (ToolStart i tid nm) = typed ''content_block_start''
     [(lit ''index'', JInt (int i)),
      (lit ''content_block'', JObj [(lit ''type'', JStr (lit ''tool_use'')), (lit ''id'', tid),
         (lit ''name'', nm), (lit ''input'', JObj [])])]"
| "frame_event (TextDelta i s) = typed ''content_block_delta''
     [(lit ''index'', JInt (int i)),
      (lit ''delta'', JObj [(lit ''type'', JStr (lit ''text_delta'')), (lit ''text'', JStr s)])]"
| "frame_event (JsonDelta i s) = typed ''content_block_delta''
     [(lit ''index'', JInt (int i)),
      (lit ''delta'', JObj [(lit ''type'', JStr (lit ''input_json_delta'')), (lit ''partial_json'', JStr s)])]"
| "frame_event (BlockStop i) = typed ''content_block_stop'' [(lit ''index'', JInt (int i))]"
| "frame_event (MessageDelta r usage) = typed ''message_delta''
     [(lit ''delta'', JObj [(lit ''stop_reason'', JStr r), (lit ''stop_sequence'', JNull)]),
      (lit ''usage'', JObj usage)]"
| "frame_event MessageStop = typed ''message_stop'' []"
| "frame_event ErrorFrame = typed ''error''
     [(lit ''error'', JObj [(lit ''type'', JStr (lit ''api_error'')),
        (lit ''message'', JStr (lit ''Stream terminated unexpectedly''))])]"

definition sse_frame :: "ustr \<Rightarrow> pydict \<Rightarrow> ustr" where
  "sse_frame event d = lit ''event: '' @ event @ [10] @ lit ''data: '' @ dumps True (JObj d) @ [10, 10]"

definition render :: "frame \<Rightarrow> ustr" where
  "render f = (case frame_event f of (event, d) \<Rightarrow> sse_frame event d)"

section \<open>The state machine\<close>

record tool_state =
  ts_block :: nat
  ts_id :: json
  ts_name :: json
  ts_args :: ustr

text \<open>
  \<open>tool_states\<close> is keyed by 0, 1, \<dots> in the source, a list here; \<open>current\<close> maps an upstream index to
  the position of its state, since both dictionaries of the source share the state objects.
  \<open>text_index\<close> is \<open>text_block_index\<close>, \<open>None\<close> while \<open>text_started\<close> is false.
\<close>

record stream_state =
  reply_text :: ustr
  finish :: json
  text_index :: "nat option"
  tool_states :: "tool_state list"
  current :: "(json \<times> nat) list"
  next_block :: nat
  uuids :: nat

type_synonym step = "frame list \<times> stream_state \<times> bool"

definition start_text :: "stream_state \<Rightarrow> nat \<times> frame list \<times> stream_state" where
  "start_text st = (case text_index st of
       Some i \<Rightarrow> (i, [], st)
     | None \<Rightarrow> (next_block st, [TextStart (next_block st)],
         st\<lparr>text_index := Some (next_block st), next_block := Suc (next_block st)\<rparr>))"

definition feed_text :: "json \<Rightarrow> stream_state \<Rightarrow> step" where
  "feed_text piece st =
     (if \<not> truthy piece then ([], st, True)
      else case start_text st of (i, fs, st') \<Rightarrow>
        (case piece of
           JStr s \<Rightarrow> (fs @ [TextDelta i s], st'\<lparr>reply_text := reply_text st' @ s\<rparr>, True)
         | _ \<Rightarrow> (fs, st', False)))"

text \<open>The state a tool delta belongs to, if it continues a call.\<close>

definition continued :: "json \<Rightarrow> json \<Rightarrow> stream_state \<Rightarrow> nat option" where
  "continued upstream_index delta_id st = (case map_of (current st) upstream_index of
       None \<Rightarrow> None
     | Some q \<Rightarrow> if truthy delta_id \<and> delta_id \<noteq> ts_id (tool_states st ! q) then None else Some q)"

definition open_tool ::
  "(nat \<Rightarrow> ustr) \<Rightarrow> json \<Rightarrow> json \<Rightarrow> json \<Rightarrow> stream_state \<Rightarrow> nat \<times> frame list \<times> stream_state" where
  "open_tool uuid upstream_index delta_id nm st =
     (case continued upstream_index delta_id st of
        None \<Rightarrow>
          let missing = \<not> truthy delta_id;
              tool = \<lparr>ts_block = next_block st,
                      ts_id = (if missing then JStr (lit ''call_'' @ uuid (uuids st)) else delta_id),
                      ts_name = py_or nm (JStr []), ts_args = []\<rparr>
          in (length (tool_states st), [ToolStart (ts_block tool) (ts_id tool) (ts_name tool)],
              st\<lparr>tool_states := tool_states st @ [tool],
                 current := dset upstream_index (length (tool_states st)) (current st),
                 next_block := Suc (next_block st),
                 uuids := (if missing then Suc (uuids st) else uuids st)\<rparr>)
      | Some q \<Rightarrow>
          let old = tool_states st ! q;
              tool = old\<lparr>ts_id := (if truthy delta_id \<and> \<not> truthy (ts_id old) then delta_id else ts_id old),
                         ts_name := (if truthy nm \<and> \<not> truthy (ts_name old) then nm else ts_name old)\<rparr>
          in (q, [], st\<lparr>tool_states := (tool_states st)[q := tool]\<rparr>))"

text \<open>
  One entry of \<open>delta.tool_calls\<close>. The source looks into \<open>function\<close> later than it is read here, but
  raises then without a frame or a stored state in between.
\<close>

definition feed_tool :: "(nat \<Rightarrow> ustr) \<Rightarrow> json \<Rightarrow> stream_state \<Rightarrow> step" where
  "feed_tool uuid tool_call st = (case tool_call of
       JObj d \<Rightarrow>
         let upstream_index = dget_or d (lit ''index'') (JInt 0) in
         (case obj_or_empty (dget d (lit ''function'')) of
            None \<Rightarrow> ([], st, False)
          | Some function \<Rightarrow>
              if unhashable upstream_index then ([], st, False)
              else case open_tool uuid upstream_index (dget d (lit ''id'')) (dget function (lit ''name'')) st of
                (q, fs, st') \<Rightarrow>
                  let arguments = dget function (lit ''arguments''); tool = tool_states st' ! q in
                  if \<not> truthy arguments then (fs, st', True)
                  else (case arguments of
                      JStr a \<Rightarrow> (fs @ [JsonDelta (ts_block tool) a],
                        st'\<lparr>tool_states := (tool_states st')[q := tool\<lparr>ts_args := ts_args tool @ a\<rparr>]\<rparr>,
                        True)
                    | _ \<Rightarrow> (fs, st', False)))
     | _ \<Rightarrow> ([], st, False))"

fun feed_tools :: "(nat \<Rightarrow> ustr) \<Rightarrow> json list \<Rightarrow> stream_state \<Rightarrow> step" where
  "feed_tools uuid [] st = ([], st, True)"
| "feed_tools uuid (c # cs) st = (case feed_tool uuid c st of
       (fs, st', False) \<Rightarrow> (fs, st', False)
     | (fs, st', True) \<Rightarrow> (case feed_tools uuid cs st' of (gs, st'', ok) \<Rightarrow> (fs @ gs, st'', ok)))"

definition feed :: "(nat \<Rightarrow> ustr) \<Rightarrow> json \<Rightarrow> stream_state \<Rightarrow> step" where
  "feed uuid chunk st = (case chunk of
       JObj d \<Rightarrow>
         (case first_choice_of d of
            None \<Rightarrow> ([], st, False)
          | Some choice \<Rightarrow>
              let st1 = st\<lparr>finish := py_or (dget choice (lit ''finish_reason'')) (finish st)\<rparr> in
              (case obj_or_empty (dget choice (lit ''delta'')) of
                 None \<Rightarrow> ([], st1, False)
               | Some delta \<Rightarrow>
                   (case feed_text (dget delta (lit ''content'')) st1 of
                      (fs, st2, False) \<Rightarrow> (fs, st2, False)
                    | (fs, st2, True) \<Rightarrow>
                        (case calls_of_message delta of
                           None \<Rightarrow> (fs, st2, False)
                         | Some calls \<Rightarrow>
                             (case feed_tools uuid calls st2 of
                                (gs, st3, ok) \<Rightarrow> (fs @ gs, st3, ok))))))
     | _ \<Rightarrow> ([], st, False))"

fun feed_all :: "(nat \<Rightarrow> ustr) \<Rightarrow> stream_event list \<Rightarrow> stream_state \<Rightarrow> step" where
  "feed_all uuid [] st = ([], st, True)"
| "feed_all uuid (Chunk c # es) st = (case feed uuid c st of
       (fs, st', False) \<Rightarrow> (fs, st', False)
     | (fs, st', True) \<Rightarrow> (case feed_all uuid es st' of (gs, st'', ok) \<Rightarrow> (fs @ gs, st'', ok)))"
| "feed_all uuid (_ # es) st = ([], st, False)"

definition stored_call :: "tool_state \<Rightarrow> json" where
  "stored_call t = JObj
     [(lit ''id'', ts_id t), (lit ''type'', JStr (lit ''function'')),
      (lit ''function'', JObj [(lit ''name'', py_or (ts_name t) (JStr [])),
         (lit ''arguments'', JStr (if ts_args t \<noteq> [] then ts_args t else lit ''{}''))])]"

definition stream_assistant_message :: "stream_state \<Rightarrow> pydict" where
  "stream_assistant_message st =
     [(lit ''role'', JStr (lit ''assistant'')),
      (lit ''content'', if reply_text st \<noteq> [] then JStr (reply_text st) else JNull)]
     @ (if tool_states st \<noteq> []
        then [(lit ''tool_calls'', JList (map stored_call (tool_states st)))] else [])"

definition initial_stream :: stream_state where
  "initial_stream = \<lparr>reply_text = [], finish = JNull, text_index = None, tool_states = [],
     current = [], next_block = 0, uuids = 1\<rparr>"

text \<open>
  The whole stream: the frames yielded and the messages given to \<open>on_complete\<close>. A finish reason
  that is a list or an object makes the generator raise after the block stops.
\<close>

definition build_stream_events ::
  "(nat \<Rightarrow> ustr) \<Rightarrow> json \<Rightarrow> stream_event list \<Rightarrow> json \<Rightarrow> int \<Rightarrow> frame list \<times> pydict list" where
  "build_stream_events uuid first tail served_model input_tokens =
     (let start = MessageStart (build_message_skeleton (message_id (uuid 0))
            (py_or served_model (JStr (lit ''invincible''))) input_tokens)
      in case feed_all uuid (if first \<noteq> JNull then Chunk first # tail else tail) initial_stream of
        (fs, st, ok) \<Rightarrow>
          let message = stream_assistant_message st;
              stops = map BlockStop [0..<next_block st]
          in if \<not> ok then (start # fs @ [ErrorFrame], [message])
             else case (if tool_states st \<noteq> [] then Some (lit ''tool_use'')
                        else translate_finish_reason (finish st)) of
                 None \<Rightarrow> (start # fs @ stops, [])
               | Some stop_reason \<Rightarrow>
                   (start # fs @ stops
                      @ [MessageDelta stop_reason
                           (build_usage input_tokens (estimate_token_sum [message])), MessageStop],
                    [message]))"

section \<open>What the frames say\<close>

text \<open>
  The grammar of the frames between the start and the end of a message: blocks open with the
  indices 0, 1, \<dots> in order, one text block at most, and a delta goes to an open block of its kind.
  The scanner's state: the next index, the text block, the tool blocks.
\<close>

fun scan :: "nat \<times> nat option \<times> nat list \<Rightarrow> frame list \<Rightarrow> (nat \<times> nat option \<times> nat list) option" where
  "scan s [] = Some s"
| "scan (n, t, js) (TextStart i # fs) = (if i = n \<and> t = None then scan (Suc n, Some i, js) fs else None)"
| "scan (n, t, js) (ToolStart i a b # fs) = (if i = n then scan (Suc n, t, js @ [i]) fs else None)"
| "scan (n, t, js) (TextDelta i x # fs) = (if t = Some i then scan (n, t, js) fs else None)"
| "scan (n, t, js) (JsonDelta i x # fs) = (if i \<in> set js then scan (n, t, js) fs else None)"
| "scan s (_ # fs) = None"

fun frame_text :: "frame \<Rightarrow> ustr" where
  "frame_text (TextDelta i x) = x"
| "frame_text _ = []"

fun frame_tool :: "frame \<Rightarrow> (nat \<times> json) list" where
  "frame_tool (ToolStart i a b) = [(i, a)]"
| "frame_tool _ = []"

fun frame_args :: "nat \<Rightarrow> frame \<Rightarrow> ustr" where
  "frame_args i (JsonDelta j x) = (if i = j then x else [])"
| "frame_args i _ = []"

definition text_sent :: "frame list \<Rightarrow> ustr" where
  "text_sent fs = concat (map frame_text fs)"

definition tools_sent :: "frame list \<Rightarrow> (nat \<times> json) list" where
  "tools_sent fs = concat (map frame_tool fs)"

definition args_sent :: "nat \<Rightarrow> frame list \<Rightarrow> ustr" where
  "args_sent i fs = concat (map (frame_args i) fs)"

lemma sent_simps [simp]:
  "text_sent [] = []" "tools_sent [] = []" "args_sent i [] = []"
  "text_sent (f # fs) = frame_text f @ text_sent fs"
  "tools_sent (f # fs) = frame_tool f @ tools_sent fs"
  "args_sent i (f # fs) = frame_args i f @ args_sent i fs"
  "text_sent (fs @ gs) = text_sent fs @ text_sent gs"
  "tools_sent (fs @ gs) = tools_sent fs @ tools_sent gs"
  "args_sent i (fs @ gs) = args_sent i fs @ args_sent i gs"
  by (simp_all add: text_sent_def tools_sent_def args_sent_def)

lemma scan_append: "scan s (fs @ gs) = (case scan s fs of None \<Rightarrow> None | Some s' \<Rightarrow> scan s' gs)"
  by (induction s fs rule: scan.induct) auto

section \<open>The invariant\<close>

definition blocks :: "stream_state \<Rightarrow> nat list" where
  "blocks st = map ts_block (tool_states st)"

definition stream_inv :: "stream_state \<Rightarrow> bool" where
  "stream_inv st \<longleftrightarrow> distinct (blocks st) \<and> list_all (\<lambda>b. b < next_block st) (blocks st)
     \<and> list_all (\<lambda>(i, q). q < length (tool_states st)) (current st)
     \<and> list_all (\<lambda>t. truthy (ts_id t)) (tool_states st)"

definition scan_view :: "stream_state \<Rightarrow> nat \<times> nat option \<times> nat list" where
  "scan_view st = (next_block st, text_index st, blocks st)"

definition args_of :: "stream_state \<Rightarrow> nat \<Rightarrow> ustr" where
  "args_of st b = concat (map ts_args (filter (\<lambda>t. ts_block t = b) (tool_states st)))"

text \<open>\<open>fed st fs st'\<close>: the frames \<open>fs\<close> tell exactly what happened between the states.\<close>

definition fed :: "stream_state \<Rightarrow> frame list \<Rightarrow> stream_state \<Rightarrow> bool" where
  "fed st fs st' \<longleftrightarrow> stream_inv st' \<and> scan (scan_view st) fs = Some (scan_view st')
     \<and> reply_text st' = reply_text st @ text_sent fs
     \<and> map (\<lambda>t. (ts_block t, ts_id t)) (tool_states st')
       = map (\<lambda>t. (ts_block t, ts_id t)) (tool_states st) @ tools_sent fs
     \<and> (\<forall>b. args_of st' b = args_of st b @ args_sent b fs)"

lemma fed_refl: "stream_inv st \<Longrightarrow> fed st [] st"
  by (simp add: fed_def)

lemma fed_inv: "fed st fs st' \<Longrightarrow> stream_inv st'"
  by (simp add: fed_def)

lemma fed_trans: "fed st fs st' \<Longrightarrow> fed st' gs st'' \<Longrightarrow> fed st (fs @ gs) st''"
  by (simp add: fed_def scan_append)

lemma fed_finish: "stream_inv st \<Longrightarrow> fed st [] (st\<lparr>finish := r\<rparr>)"
  by (simp add: fed_def stream_inv_def scan_view_def blocks_def args_of_def)

lemma args_of_fresh: "b \<notin> set (blocks st) \<Longrightarrow> args_of st b = []"
  by (auto simp: args_of_def blocks_def filter_empty_conv)

lemma feed_text_fed:
  assumes "stream_inv st" and "feed_text piece st = (fs, st', ok)"
  shows "fed st fs st'"
proof (cases "text_index st")
  case None
  then show ?thesis using assms
    by (auto simp: feed_text_def start_text_def fed_def stream_inv_def scan_view_def blocks_def
        args_of_def list_all_iff less_Suc_eq split: if_splits json.splits)
next
  case (Some i)
  then show ?thesis using assms
    by (auto simp: feed_text_def start_text_def fed_def stream_inv_def scan_view_def blocks_def
        args_of_def split: if_splits json.splits)
qed

lemma continued_Some:
  "stream_inv st \<Longrightarrow> continued u d st = Some q \<Longrightarrow> q < length (tool_states st)"
  by (auto simp: continued_def stream_inv_def list_all_iff split: option.splits if_splits
      dest!: map_of_SomeD)

lemma map_update_same: "f x = f (xs ! q) \<Longrightarrow> map f (xs[q := x]) = map f xs"
  by (metis list_update_id map_update)

lemma open_tool_fed:
  assumes "stream_inv st" and "open_tool uuid u d nm st = (q, fs, st')"
  shows "fed st fs st' \<and> q < length (tool_states st')"
proof (cases "continued u d st")
  case None
  have fresh: "next_block st \<notin> set (blocks st)"
    using assms(1) by (auto simp: stream_inv_def list_all_iff)
  have "args_of st' b = args_of st b @ args_sent b fs" for b
    using assms(2) None by (auto simp: open_tool_def Let_def args_of_def)
  moreover have "stream_inv st'"
    using assms None fresh
    by (auto simp: open_tool_def Let_def stream_inv_def blocks_def list_all_iff less_Suc_eq
        dest!: set_dset_subset [THEN subsetD])
  ultimately show ?thesis
    using assms(2) None by (auto simp: open_tool_def Let_def fed_def scan_view_def blocks_def)
next
  case (Some p)
  note p = continued_Some [OF assms(1) Some]
  define old where "old = tool_states st ! p"
  define tool where "tool = old\<lparr>ts_id := (if truthy d \<and> \<not> truthy (ts_id old) then d else ts_id old),
    ts_name := (if truthy nm \<and> \<not> truthy (ts_name old) then nm else ts_name old)\<rparr>"
  have "(p, [], st\<lparr>tool_states := (tool_states st)[p := tool]\<rparr>) = (q, fs, st')"
    using assms(2) unfolding open_tool_def Some option.case Let_def tool_def old_def .
  then have r: "q = p" "fs = []" "st' = st\<lparr>tool_states := (tool_states st)[p := tool]\<rparr>"
    unfolding prod.inject by blast+
  have id: "truthy (ts_id old)" using assms(1) p by (simp add: stream_inv_def list_all_length old_def)
  then have same: "ts_block tool = ts_block old" "ts_id tool = ts_id old" "ts_args tool = ts_args old"
    by (simp_all add: tool_def)
  have maps: "map ts_block (tool_states st') = map ts_block (tool_states st)"
    "map (\<lambda>t. (ts_block t, ts_id t)) (tool_states st') = map (\<lambda>t. (ts_block t, ts_id t)) (tool_states st)"
    "map (\<lambda>t. (ts_block t, ts_args t)) (tool_states st') = map (\<lambda>t. (ts_block t, ts_args t)) (tool_states st)"
    "map ts_id (tool_states st') = map ts_id (tool_states st)"
    using same by (simp_all add: r old_def map_update_same)
  have args: "args_of s b = concat (map snd (filter (\<lambda>x. fst x = b) (map (\<lambda>t. (ts_block t, ts_args t)) (tool_states s))))"
    for s b by (simp add: args_of_def filter_map comp_def)
  have "list_all truthy (map ts_id (tool_states st))"
    using assms(1) by (simp add: stream_inv_def list.pred_map comp_def)
  then have "list_all (\<lambda>t. truthy (ts_id t)) (tool_states st')"
    by (simp add: maps(4) [symmetric] list.pred_map comp_def)
  then have "stream_inv st'"
    using assms(1) by (simp add: stream_inv_def blocks_def maps(1)) (simp add: r)
  then show ?thesis using p r(1,2) maps
    by (simp add: fed_def scan_view_def blocks_def args) (simp add: r)
qed

lemma feed_tool_fed:
  assumes "stream_inv st" and "feed_tool uuid c st = (fs, st', ok)"
  shows "fed st fs st'"
proof (cases "\<exists>d f. c = JObj d \<and> obj_or_empty (dget d (lit ''function'')) = Some f
    \<and> \<not> unhashable (dget_or d (lit ''index'') (JInt 0))")
  case False
  then have "fs = [] \<and> st' = st" using assms(2)
    by (auto simp: feed_tool_def Let_def split: json.splits option.splits)
  then show ?thesis using assms(1) by (simp add: fed_refl)
next
  case True
  then obtain d f where d: "c = JObj d" "obj_or_empty (dget d (lit ''function'')) = Some f"
    "\<not> unhashable (dget_or d (lit ''index'') (JInt 0))" by blast
  obtain q gs st1 where op: "open_tool uuid (dget_or d (lit ''index'') (JInt 0)) (dget d (lit ''id''))
      (dget f (lit ''name'')) st = (q, gs, st1)" by (metis prod_cases3)
  note fed1 = open_tool_fed [OF assms(1) op]
  show ?thesis
  proof (cases "\<exists>a. dget f (lit ''arguments'') = JStr a \<and> a \<noteq> []")
    case False
    then have "fs = gs \<and> st' = st1" using assms(2) d op
      by (auto simp: feed_tool_def Let_def split: json.splits if_splits)
    then show ?thesis using fed1 by simp
  next
    case True
    then obtain a where a: "dget f (lit ''arguments'') = JStr a" "a \<noteq> []" by blast
    define tool where "tool = tool_states st1 ! q"
    define st2 where "st2 = st1\<lparr>tool_states := (tool_states st1)[q := tool\<lparr>ts_args := ts_args tool @ a\<rparr>]\<rparr>"
    have r: "fs = gs @ [JsonDelta (ts_block tool) a]" "st' = st2"
      using assms(2) d op a by (simp_all add: feed_tool_def Let_def tool_def st2_def)
    have q: "q < length (tool_states st1)" and inv1: "stream_inv st1" using fed1 fed_inv by blast+
    have maps: "map ts_block (tool_states st2) = map ts_block (tool_states st1)"
      "map (\<lambda>t. (ts_block t, ts_id t)) (tool_states st2) = map (\<lambda>t. (ts_block t, ts_id t)) (tool_states st1)"
      "map ts_id (tool_states st2) = map ts_id (tool_states st1)"
      by (simp_all add: st2_def tool_def map_update_same)
    have mem: "ts_block tool \<in> set (blocks st1)" using q by (simp add: blocks_def tool_def)
    have args: "args_of st2 b = args_of st1 b @ args_sent b [JsonDelta (ts_block tool) a]" for b
    proof -
      let ?ts = "tool_states st1"
      have cut: "?ts = take q ?ts @ tool # drop (Suc q) ?ts"
        using q by (simp add: tool_def id_take_nth_drop)
      have upd: "tool_states st2 = take q ?ts @ tool\<lparr>ts_args := ts_args tool @ a\<rparr> # drop (Suc q) ?ts"
        using q by (simp add: st2_def upd_conv_take_nth_drop)
      have "distinct (map ts_block (take q ?ts @ tool # drop (Suc q) ?ts))"
        using inv1 cut by (metis blocks_def stream_inv_def)
      then have "ts_block tool \<notin> ts_block ` set (drop (Suc q) ?ts)" by simp
      then have "filter (\<lambda>t. ts_block t = ts_block tool) (drop (Suc q) ?ts) = []"
        unfolding filter_empty_conv by (metis imageI)
      then show ?thesis
        unfolding args_of_def upd by (subst (2) cut) auto
    qed
    have fields: "next_block st2 = next_block st1" "current st2 = current st1"
      "text_index st2 = text_index st1" "reply_text st2 = reply_text st1"
      "length (tool_states st2) = length (tool_states st1)" by (simp_all add: st2_def)
    have "list_all truthy (map ts_id (tool_states st2))"
      using inv1 by (simp add: maps stream_inv_def list.pred_map comp_def)
    then have "list_all (\<lambda>t. truthy (ts_id t)) (tool_states st2)" by (simp add: list.pred_map comp_def)
    then have "stream_inv st2" using inv1 by (simp add: stream_inv_def blocks_def maps(1) fields)
    then have "fed st1 [JsonDelta (ts_block tool) a] st2"
      using mem maps(2) args by (simp add: fed_def scan_view_def blocks_def maps(1) fields)
    then show ?thesis using fed1 fed_trans r by blast
  qed
qed

lemma feed_tools_fed:
  "stream_inv st \<Longrightarrow> feed_tools uuid cs st = (fs, st', ok) \<Longrightarrow> fed st fs st'"
proof (induction cs arbitrary: st fs)
  case (Cons c cs)
  obtain gs st1 ok1 where c: "feed_tool uuid c st = (gs, st1, ok1)" by (metis prod_cases3)
  note fed1 = feed_tool_fed [OF Cons.prems(1) c]
  show ?case
  proof (cases ok1)
    case True
    obtain hs st2 ok2 where cs: "feed_tools uuid cs st1 = (hs, st2, ok2)" by (metis prod_cases3)
    have "fed st1 hs st2" using Cons.IH [OF fed_inv [OF fed1]] cs Cons.prems c True by simp
    then show ?thesis using fed_trans [OF fed1] Cons.prems c cs True by auto
  qed (use Cons.prems c fed1 in simp)
qed (simp add: fed_refl)

lemma feed_fed:
  assumes "stream_inv st" and "feed uuid chunk st = (fs, st', ok)"
  shows "fed st fs st'"
proof (cases "\<exists>d c. chunk = JObj d \<and> first_choice_of d = Some c")
  case False
  then have "fs = [] \<and> st' = st" using assms(2)
    by (auto simp: feed_def split: json.splits option.splits)
  then show ?thesis using assms(1) by (simp add: fed_refl)
next
  case True
  then obtain d c where c: "chunk = JObj d" "first_choice_of d = Some c" by blast
  define st1 where "st1 = st\<lparr>finish := py_or (dget c (lit ''finish_reason'')) (finish st)\<rparr>"
  have fed1: "fed st [] st1" unfolding st1_def by (rule fed_finish [OF assms(1)])
  show ?thesis
  proof (cases "obj_or_empty (dget c (lit ''delta''))")
    case None
    then show ?thesis using assms(2) c fed1 by (simp add: feed_def Let_def st1_def)
  next
    case (Some delta)
    obtain gs st2 ok2 where tx: "feed_text (dget delta (lit ''content'')) st1 = (gs, st2, ok2)"
      by (metis prod_cases3)
    have fed2: "fed st gs st2"
      using fed_trans [OF fed1 feed_text_fed [OF fed_inv [OF fed1] tx]] by simp
    show ?thesis
    proof (cases "ok2 \<and> calls_of_message delta \<noteq> None")
      case True
      then obtain calls where calls: "calls_of_message delta = Some calls" by blast
      obtain hs st3 ok3 where tl: "feed_tools uuid calls st2 = (hs, st3, ok3)" by (metis prod_cases3)
      have "fed st (gs @ hs) st3"
        using fed_trans [OF fed2 feed_tools_fed [OF fed_inv [OF fed2] tl]] .
      then show ?thesis using assms(2) c Some tx True calls tl
        by (simp add: feed_def Let_def st1_def [symmetric])
    next
      case False
      then have "fs = gs \<and> st' = st2" using assms(2) c Some tx
        by (cases ok2) (auto simp: feed_def Let_def st1_def [symmetric])
      then show ?thesis using fed2 by simp
    qed
  qed
qed

lemma feed_all_fed:
  "stream_inv st \<Longrightarrow> feed_all uuid es st = (fs, st', ok) \<Longrightarrow> fed st fs st'"
proof (induction uuid es st arbitrary: fs rule: feed_all.induct)
  case (2 uuid c es st)
  obtain gs st1 ok1 where c: "feed uuid c st = (gs, st1, ok1)" by (metis prod_cases3)
  note fed1 = feed_fed [OF 2(2) c]
  show ?case
  proof (cases ok1)
    case True
    obtain hs st2 ok2 where cs: "feed_all uuid es st1 = (hs, st2, ok2)" by (metis prod_cases3)
    have "fed st1 hs st2" using 2(1) [OF c [symmetric]] fed_inv [OF fed1] cs 2(3) c True by simp
    then show ?thesis using fed_trans [OF fed1] 2(3) c cs True by auto
  qed (use 2(3) c fed1 in simp)
qed (auto simp: fed_refl)

section \<open>Properties\<close>

lemma initial_stream_views:
  "stream_inv initial_stream" "scan_view initial_stream = (0, None, [])"
  "reply_text initial_stream = []" "tool_states initial_stream = []" "args_of initial_stream b = []"
  by (simp_all add: initial_stream_def stream_inv_def blocks_def scan_view_def args_of_def)

lemma build_stream_events_cases:
  assumes "build_stream_events uuid first tail served_model n = (frames, done)"
  obtains fs st m where "fed initial_stream fs st"
    "frames = MessageStart m # fs @ [ErrorFrame]" "done = [stream_assistant_message st]"
  | fs st m where "fed initial_stream fs st" "frames = MessageStart m # fs @ map BlockStop [0..<next_block st]"
    "done = []"
  | fs st m r u where "fed initial_stream fs st"
    "frames = MessageStart m # fs @ map BlockStop [0..<next_block st] @ [MessageDelta r u, MessageStop]"
    "done = [stream_assistant_message st]" "tool_states st = [] \<or> r = lit ''tool_use''"
proof -
  obtain fs st ok where run: "feed_all uuid (if first \<noteq> JNull then Chunk first # tail else tail) initial_stream
      = (fs, st, ok)" by (metis prod_cases3)
  note fed = feed_all_fed [OF initial_stream_views(1) run]
  let ?r = "if tool_states st \<noteq> [] then Some (lit ''tool_use'') else translate_finish_reason (finish st)"
  show thesis
  proof (cases ok)
    case False
    then show ?thesis using assms run that(1) [OF fed]
      by (simp add: build_stream_events_def Let_def del: feed_all.simps) blast
  next
    case True
    show ?thesis
    proof (cases ?r)
      case None
      then show ?thesis using assms run True that(2) [OF fed]
        by (simp only: build_stream_events_def Let_def prod.case option.case simp_thms if_False) blast
    next
      case (Some r)
      have "tool_states st = [] \<or> r = lit ''tool_use''" using Some by (auto split: if_splits)
      moreover have "build_stream_events uuid first tail served_model n
          = (MessageStart (build_message_skeleton (message_id (uuid 0))
               (py_or served_model (JStr (lit ''invincible''))) n) # fs @ map BlockStop [0..<next_block st]
             @ [MessageDelta r (build_usage n (estimate_token_sum [stream_assistant_message st])), MessageStop],
             [stream_assistant_message st])"
        unfolding build_stream_events_def Let_def run prod.case Some option.case using True by simp
      ultimately show ?thesis using that(3) [OF fed] assms by auto
    qed
  qed
qed



definition sent_arguments :: "nat \<Rightarrow> frame list \<Rightarrow> json" where
  "sent_arguments i frames =
     JStr (if args_sent i frames = [] then lit ''{}'' else args_sent i frames)"

definition stored_arguments :: "json \<Rightarrow> json" where
  "stored_arguments c = snd (snd (call_view c))"

lemma stored_call_views:
  "call_view (stored_call t) = (ts_id t, py_or (ts_name t) (JStr []),
     JStr (if ts_args t \<noteq> [] then ts_args t else lit ''{}''))"
  by (simp add: call_view_def stored_call_def dget_def)

lemma json_ids_stored: "json_ids (map stored_call ts) = map ts_id ts"
  by (induction ts) (simp_all add: stored_call_def dget_def)

lemma args_of_member:
  assumes "distinct (blocks st)" and "t \<in> set (tool_states st)"
  shows "args_of st (ts_block t) = ts_args t"
proof -
  obtain xs ys where split: "tool_states st = xs @ t # ys" using assms(2) by (metis split_list)
  then have "ts_block t \<notin> ts_block ` set xs" "ts_block t \<notin> ts_block ` set ys"
    using assms(1) by (auto simp: blocks_def)
  then have "filter (\<lambda>u. ts_block u = ts_block t) xs = []" "filter (\<lambda>u. ts_block u = ts_block t) ys = []"
    unfolding filter_empty_conv by (metis imageI)+
  then show ?thesis by (simp add: args_of_def split)
qed

text \<open>
  The message that is persisted is the one that was streamed: its text is the concatenation of
  the text deltas, its tool calls are those of the tool blocks, in order and with the ids the
  client saw, and each call's arguments are the concatenation of that block's deltas.
\<close>

lemma persisted_message_is_streamed:
  assumes "build_stream_events uuid first tail served_model n = (frames, [msg])"
  shows "dget msg (lit ''content'') = (if text_sent frames = [] then JNull else JStr (text_sent frames))
    \<and> call_ids msg = map snd (tools_sent frames)
    \<and> (case dget msg (lit ''tool_calls'') of
         JList cs \<Rightarrow> map stored_arguments cs = map (\<lambda>(i, tid). sent_arguments i frames) (tools_sent frames)
       | _ \<Rightarrow> tools_sent frames = [])"
proof -
  have key: "dget msg (lit ''content'') = (if text_sent fs = [] then JNull else JStr (text_sent fs))
    \<and> call_ids msg = map snd (tools_sent fs)
    \<and> (case dget msg (lit ''tool_calls'') of
         JList cs \<Rightarrow> map stored_arguments cs = map (\<lambda>(i, tid). sent_arguments i fs) (tools_sent fs)
       | _ \<Rightarrow> tools_sent fs = [])"
    if fed: "fed initial_stream fs st" and msg: "msg = stream_assistant_message st" for fs st
  proof -
    have st: "reply_text st = text_sent fs" "stream_inv st"
      "map (\<lambda>t. (ts_block t, ts_id t)) (tool_states st) = tools_sent fs"
      "args_of st b = args_sent b fs" for b
      using fed by (simp_all add: fed_def initial_stream_views)
    have distinct: "distinct (blocks st)" using st(2) by (simp add: stream_inv_def)
    have "dget msg (lit ''content'') = (if text_sent fs = [] then JNull else JStr (text_sent fs))"
      using st(1) by (simp add: msg stream_assistant_message_def dget_def)
    moreover have calls: "dget msg (lit ''tool_calls'')
        = (if tool_states st = [] then JNull else JList (map stored_call (tool_states st)))"
      by (simp add: msg stream_assistant_message_def dget_def)
    moreover have "map ts_id (tool_states st) = map snd (tools_sent fs)"
      by (simp add: st(3) [symmetric])
    moreover have "map stored_arguments (map stored_call (tool_states st))
        = map (\<lambda>(i, tid). sent_arguments i fs) (tools_sent fs)"
      unfolding st(3) [symmetric] map_map
      by (rule map_cong) (simp_all add: stored_arguments_def stored_call_views sent_arguments_def
          st(4) [symmetric] args_of_member [OF distinct])
    moreover have "tools_sent fs = [] \<longleftrightarrow> tool_states st = []"
      using st(3) by (metis map_is_Nil_conv)
    ultimately show ?thesis by (simp add: call_ids_def json_ids_stored)
  qed
  have skip: "text_sent (map BlockStop is) = []" "tools_sent (map BlockStop is) = []"
    "args_sent i (map BlockStop is) = []" for "is" i
    by (induction "is") simp_all
  have same: ?thesis if fed: "fed initial_stream fs st" and msg: "msg = stream_assistant_message st"
    and fs: "text_sent frames = text_sent fs" "tools_sent frames = tools_sent fs"
      "\<And>i. args_sent i frames = args_sent i fs" for fs st
  proof -
    have "sent_arguments i frames = sent_arguments i fs" for i by (simp add: sent_arguments_def fs(3))
    then show ?thesis using key [OF fed msg] unfolding fs by (simp only:)
  qed
  from assms show ?thesis
  proof (cases rule: build_stream_events_cases)
    case (1 fs st m)
    then show ?thesis by (intro same [OF 1(1)]) simp_all
  next
    case (3 fs st m r u)
    then show ?thesis by (intro same [OF 3(1)]) (simp_all add: skip)
  qed simp
qed

lemma persisted_message_is_streamed_witness:
  "\<exists>frames msg. build_stream_events (\<lambda>_. []) (JObj []) [Dropped [] False] JNull 5 = (frames, [msg])
     \<and> dget msg (lit ''content'') = (if text_sent frames = [] then JNull else JStr (text_sent frames))"
proof -
  obtain frames msg where eq: "build_stream_events (\<lambda>_. []) (JObj []) [Dropped [] False] JNull 5 = (frames, [msg])"
    by (simp add: build_stream_events_def feed_def first_choice_of_def obj_or_empty_def feed_text_def
        calls_of_message_def dget_def py_or_def initial_stream_def Let_def)
  from persisted_message_is_streamed [OF eq] eq show ?thesis by blast
qed

end
