(* ===== verification/SessionStore.thy ===== *)
theory SessionStore
  imports Turns Settings
begin

text \<open>
  Session persistence (\<open>invincible/core/session_store.py\<close>): the tables \<open>sessions\<close>, \<open>turns\<close> and
  \<open>messages\<close> as lists of rows, and the store's operations as transactions on them. Every write
  holds the row lock of its session for the whole transaction, so operations on one session run
  one after the other. The abstraction of a session is its list of turns; appending refines the
  grouping of theory \<open>Turns\<close>. Not modelled: the derived \<open>role\<close> column of a message and the two
  listing queries of the dashboard that read it.
\<close>

record session_row =
  s_id :: nat
  s_user :: int
  s_project :: int
  s_client :: ustr
  s_created :: int
  s_updated :: int
  s_title :: "ustr option"
  s_pinned :: bool

record turn_row =
  tr_id :: nat
  tr_session :: nat
  tr_seq :: nat

record message_row =
  mr_turn :: nat
  mr_seq :: nat
  mr_payload :: pydict

text \<open>\<open>linked\<close>: the \<open>session_pk\<close> of each row of \<open>checkpoints\<close>, \<open>task_states\<close> and \<open>runs\<close>.\<close>

record db =
  sessions :: "session_row list"
  turns :: "turn_row list"
  msgs :: "message_row list"
  linked :: "nat list"
  next_session :: nat
  next_turn :: nat

text \<open>The ownership triple of the unique constraint.\<close>

definition owns :: "int \<Rightarrow> int \<Rightarrow> session_row \<Rightarrow> bool" where
  "owns user project s \<longleftrightarrow> s_user s = user \<and> s_project s = project"

definition lookup :: "ustr \<Rightarrow> int \<Rightarrow> int \<Rightarrow> db \<Rightarrow> nat option" where
  "lookup client user project d =
     map_option s_id (find (\<lambda>s. owns user project s \<and> s_client s = client) (sessions d))"

definition lookup_by_pk :: "nat \<Rightarrow> int \<Rightarrow> int \<Rightarrow> db \<Rightarrow> (ustr \<times> int \<times> int) option" where
  "lookup_by_pk pk user project d =
     map_option (\<lambda>s. (s_client s, s_user s, s_project s))
       (find (\<lambda>s. s_id s = pk \<and> owns user project s) (sessions d))"

definition resolve_for_write :: "int \<Rightarrow> ustr \<Rightarrow> int \<Rightarrow> int \<Rightarrow> db \<Rightarrow> nat \<times> db" where
  "resolve_for_write now client user project d =
     (case lookup client user project d of
        Some pk \<Rightarrow> (pk, d)
      | None \<Rightarrow>
          (next_session d,
           d\<lparr>sessions := sessions d @
               [\<lparr>s_id = next_session d, s_user = user, s_project = project, s_client = client,
                 s_created = now, s_updated = now, s_title = None, s_pinned = False\<rparr>],
             next_session := Suc (next_session d)\<rparr>))"

definition bump_updated_at :: "nat \<Rightarrow> int \<Rightarrow> db \<Rightarrow> db" where
  "bump_updated_at pk now d =
     d\<lparr>sessions := map (\<lambda>s. if s_id s = pk then s\<lparr>s_updated := now\<rparr> else s) (sessions d)\<rparr>"

section \<open>Reading\<close>

definition turns_of :: "nat \<Rightarrow> db \<Rightarrow> turn_row list" where
  "turns_of pk d = sort_key tr_seq (filter (\<lambda>t. tr_session t = pk) (turns d))"

definition msgs_of :: "nat \<Rightarrow> db \<Rightarrow> message_row list" where
  "msgs_of tid d = sort_key mr_seq (filter (\<lambda>m. mr_turn m = tid) (msgs d))"

definition payloads :: "turn_row list \<Rightarrow> db \<Rightarrow> pydict list" where
  "payloads ts d = concat (map (\<lambda>t. map mr_payload (msgs_of (tr_id t) d)) ts)"

text \<open>
  \<open>load\<close> with its effective limit. The window's first row belongs to the first selected turn that
  has messages.
\<close>

definition load_window :: "nat option \<Rightarrow> nat \<Rightarrow> db \<Rightarrow> pydict list" where
  "load_window limit pk d = (case limit of
       None \<Rightarrow> payloads (turns_of pk d) d
     | Some n \<Rightarrow>
         let newest = last_n n (turns_of pk d);
             pairs = filter (\<lambda>t. msgs_of (tr_id t) d \<noteq> []) newest;
             truncated = (case pairs of [] \<Rightarrow> False | t # _ \<Rightarrow> 0 < tr_seq t);
             rows = payloads newest d
         in if truncated then dropWhile (\<lambda>m. role_is m ''tool'') rows else rows)"

definition read_limit :: "env \<Rightarrow> int option \<Rightarrow> nat option" where
  "read_limit e max_turns = (case max_turns of
       None \<Rightarrow> map_option nat (history_read_max_turns e)
     | Some n \<Rightarrow> if n > 0 then Some (nat n) else None)"

definition load_session ::
  "env \<Rightarrow> ustr \<Rightarrow> int \<Rightarrow> int \<Rightarrow> int option \<Rightarrow> db \<Rightarrow> pydict list" where
  "load_session e client user project max_turns d =
     (case lookup client user project d of
        None \<Rightarrow> []
      | Some pk \<Rightarrow> load_window (read_limit e max_turns) pk d)"

section \<open>Writing\<close>

text \<open>\<open>_last_turn\<close>: the newest turn's id, whether it has messages, its next position, its seq.\<close>

definition last_turn :: "nat \<Rightarrow> db \<Rightarrow> (nat \<times> bool \<times> nat \<times> nat) option" where
  "last_turn pk d = (case rev (turns_of pk d) of
       [] \<Rightarrow> None
     | t # _ \<Rightarrow>
         let ms = msgs_of (tr_id t) d
         in Some (tr_id t, ms \<noteq> [], (case rev ms of [] \<Rightarrow> 0 | m # _ \<Rightarrow> Suc (mr_seq m)), tr_seq t))"

datatype turn_ref = Old nat | New nat

text \<open>
  The walk of the boundary rule: where each message lands, and the seqs of the turns it opens
  (\<open>opened\<close> of them so far).
\<close>

fun plan_messages ::
  "turn_ref option \<Rightarrow> bool \<Rightarrow> nat \<Rightarrow> nat \<Rightarrow> nat \<Rightarrow> pydict list
   \<Rightarrow> (turn_ref \<times> nat \<times> pydict) list \<times> nat list" where
  "plan_messages ref has_msgs position next_seq opened [] = ([], [])"
| "plan_messages ref has_msgs position next_seq opened (m # ms) =
     (if ref = None \<or> is_user m \<and> has_msgs then
        (case plan_messages (Some (New opened)) True 1 (Suc next_seq) (Suc opened) ms of
           (plan, seqs) \<Rightarrow> ((New opened, 0, m) # plan, next_seq # seqs))
      else
        (case plan_messages ref True (Suc position) next_seq opened ms of
           (plan, seqs) \<Rightarrow> ((the ref, position, m) # plan, seqs)))"

fun resolve_ref :: "nat \<Rightarrow> turn_ref \<Rightarrow> nat" where
  "resolve_ref base (Old t) = t"
| "resolve_ref base (New j) = base + j"

definition insert_grouped :: "nat \<Rightarrow> pydict list \<Rightarrow> db \<Rightarrow> db" where
  "insert_grouped pk ms d =
     (let (ref, has_msgs, position, next_seq) =
            (case last_turn pk d of
               None \<Rightarrow> (None, False, 0, 0)
             | Some (tid, has_msgs, position, seq) \<Rightarrow> (Some (Old tid), has_msgs, position, Suc seq));
          (plan, seqs) = plan_messages ref has_msgs position next_seq 0 ms
      in d\<lparr>turns := turns d @ map (\<lambda>(j, q). \<lparr>tr_id = next_turn d + j, tr_session = pk, tr_seq = q\<rparr>)
                                 (enumerate 0 seqs),
           msgs := msgs d @ map (\<lambda>(r, p, m). \<lparr>mr_turn = resolve_ref (next_turn d) r, mr_seq = p,
                                              mr_payload = m\<rparr>) plan,
           next_turn := next_turn d + length seqs\<rparr>)"

definition delete_turns :: "nat \<Rightarrow> nat \<Rightarrow> db \<Rightarrow> db" where
  "delete_turns pk keep_from d =
     (let gone = map tr_id (filter (\<lambda>t. tr_session t = pk \<and> tr_seq t < keep_from) (turns d))
      in d\<lparr>msgs := filter (\<lambda>m. mr_turn m \<notin> set gone) (msgs d),
           turns := filter (\<lambda>t. \<not> (tr_session t = pk \<and> tr_seq t < keep_from)) (turns d)\<rparr>)"

text \<open>\<open>ROW_NUMBER() OVER (ORDER BY seq) - 1\<close> within the session.\<close>

definition resequence :: "nat \<Rightarrow> db \<Rightarrow> db" where
  "resequence pk d =
     d\<lparr>turns := map (\<lambda>t. if tr_session t = pk
                          then t\<lparr>tr_seq := length (filter (\<lambda>u. tr_session u = pk \<and> tr_seq u < tr_seq t) (turns d))\<rparr>
                          else t) (turns d)\<rparr>"

definition retention_limit :: "env \<Rightarrow> int option \<Rightarrow> nat option" where
  "retention_limit e max_turns = (case max_turns of
       None \<Rightarrow> map_option nat (history_max_turns e)
     | Some n \<Rightarrow> Some (nat (max 1 n)))"

definition enforce_retention :: "nat option \<Rightarrow> nat \<Rightarrow> db \<Rightarrow> db" where
  "enforce_retention limit pk d = (case limit of
       None \<Rightarrow> d
     | Some n \<Rightarrow>
         if length (filter (\<lambda>t. tr_session t = pk) (turns d)) \<le> n then d
         else case last_n n (turns_of pk d) of
           [] \<Rightarrow> d
         | t # _ \<Rightarrow> resequence pk (delete_turns pk (tr_seq t) d))"

definition append_session ::
  "env \<Rightarrow> int \<Rightarrow> ustr \<Rightarrow> pydict list \<Rightarrow> int \<Rightarrow> int \<Rightarrow> int option \<Rightarrow> db \<Rightarrow> db" where
  "append_session e now client ms user project max_turns d =
     (if ms = [] then d
      else case resolve_for_write now client user project d of
        (pk, d') \<Rightarrow> enforce_retention (retention_limit e max_turns) pk
                     (bump_updated_at pk now (insert_grouped pk ms d')))"

definition delete_turn_rows :: "nat \<Rightarrow> db \<Rightarrow> db" where
  "delete_turn_rows pk d =
     (let gone = map tr_id (filter (\<lambda>t. tr_session t = pk) (turns d))
      in d\<lparr>msgs := filter (\<lambda>m. mr_turn m \<notin> set gone) (msgs d),
           turns := filter (\<lambda>t. tr_session t \<noteq> pk) (turns d)\<rparr>)"

definition save_session ::
  "env \<Rightarrow> int \<Rightarrow> ustr \<Rightarrow> pydict list \<Rightarrow> int \<Rightarrow> int \<Rightarrow> int option \<Rightarrow> db \<Rightarrow> db" where
  "save_session e now client ms user project max_turns d =
     (case resolve_for_write now client user project d of
        (pk, d') \<Rightarrow> enforce_retention (retention_limit e max_turns) pk
                     (bump_updated_at pk now (insert_grouped pk ms (delete_turn_rows pk d'))))"

section \<open>Sidebar management\<close>

definition update_owned ::
  "nat \<Rightarrow> int \<Rightarrow> int \<Rightarrow> (session_row \<Rightarrow> session_row) \<Rightarrow> db \<Rightarrow> bool \<times> db" where
  "update_owned pk user project f d =
     (list_ex (\<lambda>s. s_id s = pk \<and> owns user project s) (sessions d),
      d\<lparr>sessions := map (\<lambda>s. if s_id s = pk \<and> owns user project s then f s else s) (sessions d)\<rparr>)"

definition rename_session :: "nat \<Rightarrow> int \<Rightarrow> int \<Rightarrow> ustr option \<Rightarrow> db \<Rightarrow> bool \<times> db" where
  "rename_session pk user project title d = update_owned pk user project (s_title_update (\<lambda>_. title)) d"

definition set_pinned :: "nat \<Rightarrow> int \<Rightarrow> int \<Rightarrow> bool \<Rightarrow> db \<Rightarrow> bool option \<times> db" where
  "set_pinned pk user project pinned d =
     (case update_owned pk user project (s_pinned_update (\<lambda>_. pinned)) d of
        (found, d') \<Rightarrow> (if found then Some pinned else None, d'))"

definition delete_session :: "nat \<Rightarrow> int \<Rightarrow> int \<Rightarrow> db \<Rightarrow> bool \<times> db" where
  "delete_session pk user project d =
     (if \<not> list_ex (\<lambda>s. s_id s = pk \<and> owns user project s) (sessions d) then (False, d)
      else let d' = delete_turn_rows pk d
           in (True, d'\<lparr>linked := filter (\<lambda>k. k \<noteq> pk) (linked d'),
                        sessions := filter (\<lambda>s. s_id s \<noteq> pk) (sessions d')\<rparr>))"

definition count_for_user :: "int \<Rightarrow> int option \<Rightarrow> db \<Rightarrow> nat" where
  "count_for_user user project d = length (filter (\<lambda>s. s_user s = user
     \<and> (case project of None \<Rightarrow> True | Some p \<Rightarrow> s_project s = p)) (sessions d))"

section \<open>The abstract session\<close>

text \<open>A session is its list of turns. \<open>spill\<close>: what goes to the open turn, and the turns after it.\<close>

fun spill :: "bool \<Rightarrow> pydict list \<Rightarrow> pydict list \<times> pydict list list" where
  "spill has_msgs [] = ([], [])"
| "spill has_msgs (m # ms) = (case spill True ms of (xs, gs) \<Rightarrow>
     if is_user m \<and> has_msgs then ([], (m # xs) # gs) else (m # xs, gs))"

definition extend :: "pydict list list \<Rightarrow> pydict list \<Rightarrow> pydict list list" where
  "extend ts ms = (if ts = [] then group_into_turns ms else butlast ts @ group_loop ms [] (last ts))"

lemma spill_group: "cur \<noteq> [] \<Longrightarrow> spill True ms = (xs, gs) \<Longrightarrow> group_loop ms [] cur = (cur @ xs) # gs"
proof (induction ms arbitrary: cur xs gs)
  case (Cons m ms)
  obtain ys hs where s: "spill True ms = (ys, hs)" by fastforce
  show ?case
  proof (cases "is_user m")
    case True
    have "group_loop ms [cur] [m] = cur # group_loop ms [] [m]"
      using group_loop_turns [of ms "[cur]" "[m]"] by simp
    then show ?thesis using True Cons.IH [of "[m]" ys hs] Cons.prems s by simp
  next
    case False
    then show ?thesis using Cons.IH [of "cur @ [m]" ys hs] Cons.prems s by simp
  qed
qed simp

lemma spill_nonempty: "spill has_msgs ms = (xs, gs) \<Longrightarrow> list_all (\<lambda>g. g \<noteq> []) gs"
  by (induction ms arbitrary: has_msgs xs gs) (auto split: prod.splits if_splits)

lemma group_into_turns_spill:
  "spill True ms = (xs, gs) \<Longrightarrow> group_into_turns (m # ms) = (m # xs) # gs"
  using spill_group [of "[m]" ms xs gs] by (simp add: group_into_turns_def)

lemma group_loop_append:
  "cur \<noteq> [] \<Longrightarrow> group_loop (xs @ ys) ts cur
     = butlast (group_loop xs ts cur) @ group_loop ys [] (last (group_loop xs ts cur))"
proof (induction xs arbitrary: ts cur)
  case Nil
  then show ?case using group_loop_turns [of ys ts cur] by simp
qed simp

lemma group_loop_not_Nil: "cur \<noteq> [] \<Longrightarrow> group_loop ms ts cur \<noteq> []"
  by (induction ms arbitrary: ts cur) auto

lemma extend_group: "extend (group_into_turns xs) ys = group_into_turns (xs @ ys)"
proof (cases xs)
  case (Cons x xs')
  have g: "group_into_turns (x # zs) = group_loop zs [] [x]" for zs by (simp add: group_into_turns_def)
  have "group_loop xs' [] [x] \<noteq> []" by (rule group_loop_not_Nil) simp
  then show ?thesis
    unfolding Cons append_Cons g extend_def
    by (simp only: if_False group_loop_append [of "[x]" xs' ys "[]", OF list.distinct(2)])
qed (simp add: extend_def)

lemma last_n_append_right: "n \<le> length ys \<Longrightarrow> last_n n (xs @ ys) = last_n n ys"
  by (simp add: last_n_def)

lemma last_n_last_n_append: "n \<le> k + length zs \<Longrightarrow> last_n n (last_n k xs @ zs) = last_n n (xs @ zs)"
proof (cases "length xs \<le> k")
  case False
  assume "n \<le> k + length zs"
  then have "last_n n (but_last_n k xs @ last_n k xs @ zs) = last_n n (last_n k xs @ zs)"
    using False by (intro last_n_append_right) simp
  then show ?thesis by (metis append_assoc but_last_n_last_n)
qed (simp add: last_n_all)

lemma butlast_last_n: "butlast (last_n n xs) = last_n (n - 1) (butlast xs)"
  by (cases n) (simp_all add: last_n_def butlast_drop)

text \<open>Dropping old turns first makes no difference to what is kept afterwards.\<close>

lemma extend_last_n:
  assumes "1 \<le> n" and "list_all (\<lambda>t. t \<noteq> []) ts"
  shows "last_n n (extend (last_n n ts) ms) = last_n n (extend ts ms)"
proof (cases "ts = []")
  case False
  then have "0 < length ts" by simp
  then have less: "length ts - n < length ts" using assms(1) by linarith
  then have ne: "last_n n ts \<noteq> []" and last: "last (last_n n ts) = last ts"
    by (simp_all add: last_n_def)
  have "last ts \<noteq> []" using assms(2) False by (simp add: list_all_iff)
  then have "1 \<le> length (group_loop ms [] (last ts))"
    using group_loop_not_Nil [of "last ts" ms "[]"] by (cases "group_loop ms [] (last ts)") auto
  then show ?thesis using False ne last assms(1)
    by (simp add: extend_def butlast_last_n last_n_last_n_append)
qed (simp add: last_n_def)

section \<open>The tables refine it\<close>

definition wf_db :: "db \<Rightarrow> bool" where
  "wf_db d \<longleftrightarrow> distinct (map tr_id (turns d))
     \<and> list_all (\<lambda>t. tr_id t < next_turn d \<and> filter (\<lambda>m. mr_turn m = tr_id t) (msgs d) \<noteq> []) (turns d)
     \<and> list_all (\<lambda>m. mr_turn m < next_turn d) (msgs d)
     \<and> (\<forall>pk. map tr_seq (filter (\<lambda>t. tr_session t = pk) (turns d))
          = [0..<length (filter (\<lambda>t. tr_session t = pk) (turns d))])
     \<and> (\<forall>tid. map mr_seq (filter (\<lambda>m. mr_turn m = tid) (msgs d))
          = [0..<length (filter (\<lambda>m. mr_turn m = tid) (msgs d))])"

lemma wf_db_id: "wf_db d \<Longrightarrow> t \<in> set (turns d) \<Longrightarrow> tr_id t < next_turn d"
  by (simp add: wf_db_def list_all_iff)

lemma wf_db_turn: "wf_db d \<Longrightarrow> m \<in> set (msgs d) \<Longrightarrow> mr_turn m < next_turn d"
  by (simp add: wf_db_def list_all_iff)

definition conv :: "nat \<Rightarrow> db \<Rightarrow> pydict list list" where
  "conv pk d = map (\<lambda>t. map mr_payload (msgs_of (tr_id t) d)) (turns_of pk d)"

lemma turns_of_wf: "wf_db d \<Longrightarrow> turns_of pk d = filter (\<lambda>t. tr_session t = pk) (turns d)"
  unfolding turns_of_def by (intro sort_key_id_if_sorted) (simp add: wf_db_def)

lemma msgs_of_wf: "wf_db d \<Longrightarrow> msgs_of tid d = filter (\<lambda>m. mr_turn m = tid) (msgs d)"
  unfolding msgs_of_def by (intro sort_key_id_if_sorted) (simp add: wf_db_def)

lemma tr_seq_turns_of: "wf_db d \<Longrightarrow> map tr_seq (turns_of pk d) = [0..<length (turns_of pk d)]"
  by (simp add: turns_of_wf) (simp add: wf_db_def)

lemma mr_seq_msgs_of: "wf_db d \<Longrightarrow> map mr_seq (msgs_of tid d) = [0..<length (msgs_of tid d)]"
  by (simp add: msgs_of_wf) (simp add: wf_db_def)

lemma conv_nonempty: "wf_db d \<Longrightarrow> list_all (\<lambda>t. t \<noteq> []) (conv pk d)"
  by (auto simp: conv_def list_all_iff turns_of_wf msgs_of_wf wf_db_def)

lemma payloads_conv: "payloads (turns_of pk d) d = concat (conv pk d)"
  by (simp add: payloads_def conv_def)

definition row_plan :: "turn_ref \<Rightarrow> nat \<Rightarrow> pydict list \<Rightarrow> (turn_ref \<times> nat \<times> pydict) list" where
  "row_plan r position xs = map (\<lambda>(p, m). (r, p, m)) (enumerate position xs)"

definition new_plan :: "nat \<Rightarrow> pydict list list \<Rightarrow> (turn_ref \<times> nat \<times> pydict) list" where
  "new_plan opened gs = concat (map (\<lambda>(j, g). row_plan (New j) 0 g) (enumerate opened gs))"

lemma plan_simps [simp]:
  "row_plan r p [] = []" "row_plan r p (x # xs) = (r, p, x) # row_plan r (Suc p) xs"
  "new_plan j [] = []" "new_plan j (g # gs) = row_plan (New j) 0 g @ new_plan (Suc j) gs"
  by (simp_all add: row_plan_def new_plan_def)

lemma upt_Cons: "q # [Suc q..<Suc (q + n)] = [q..<Suc (q + n)]"
  by (simp add: upt_conv_Cons del: upt_Suc)

lemma plan_messages_Some:
  "spill has_msgs ms = (xs, gs) \<Longrightarrow> plan_messages (Some r) has_msgs p q j ms
     = (row_plan r p xs @ new_plan j gs, [q..<q + length gs])"
proof (induction ms arbitrary: has_msgs r p q j xs gs)
  case (Cons m ms)
  obtain ys hs where s: "spill True ms = (ys, hs)" by fastforce
  show ?case
    using Cons.prems s Cons.IH [OF s, of "New j" 1 "Suc q" "Suc j"] Cons.IH [OF s, of r "Suc p" q j]
    by (cases "is_user m \<and> has_msgs") (auto simp del: upt_Suc simp: upt_Cons)
qed simp

lemma plan_messages_None:
  "spill True ms = (xs, gs) \<Longrightarrow> plan_messages None has_msgs p q j (m # ms)
     = (new_plan j ((m # xs) # gs), [q..<q + length ((m # xs) # gs)])"
  using plan_messages_Some [of True ms xs gs "New j" 1 "Suc q" "Suc j"]
  by (simp add: upt_Cons del: upt_Suc)

definition message_rows :: "nat \<Rightarrow> nat \<Rightarrow> pydict list \<Rightarrow> message_row list" where
  "message_rows tid position xs =
     map (\<lambda>(p, m). \<lparr>mr_turn = tid, mr_seq = p, mr_payload = m\<rparr>) (enumerate position xs)"

lemma message_rows_maps [simp]:
  "map mr_seq (message_rows tid p xs) = [p..<p + length xs]"
  "map mr_payload (message_rows tid p xs) = xs"
  "length (message_rows tid p xs) = length xs"
  "message_rows tid p xs = [] \<longleftrightarrow> xs = []"
  "r \<in> set (message_rows tid p xs) \<Longrightarrow> mr_turn r = tid"
  by (auto simp: message_rows_def comp_def case_prod_beta enumerate_eq_zip intro: nth_equalityI)

lemma filter_message_rows [simp]:
  "filter (\<lambda>m. mr_turn m = t) (message_rows tid p xs) = (if t = tid then message_rows tid p xs else [])"
  by (auto simp: filter_empty_conv filter_id_conv)

definition new_rows :: "nat \<Rightarrow> pydict list list \<Rightarrow> message_row list" where
  "new_rows base gs = concat (map (\<lambda>(t, g). message_rows t 0 g) (enumerate base gs))"

lemma rows_of_plan:
  "map (\<lambda>(r, p, m). \<lparr>mr_turn = resolve_ref base r, mr_seq = p, mr_payload = m\<rparr>) (row_plan r p xs)
     = message_rows (resolve_ref base r) p xs"
  "map (\<lambda>(r, p, m). \<lparr>mr_turn = resolve_ref base r, mr_seq = p, mr_payload = m\<rparr>) (new_plan j gs)
     = new_rows (base + j) gs"
proof -
  show rows: "map (\<lambda>(r, p, m). \<lparr>mr_turn = resolve_ref base r, mr_seq = p, mr_payload = m\<rparr>) (row_plan r p xs)
     = message_rows (resolve_ref base r) p xs" for r p xs
    by (simp add: row_plan_def message_rows_def case_prod_beta comp_def)
  show "map (\<lambda>(r, p, m). \<lparr>mr_turn = resolve_ref base r, mr_seq = p, mr_payload = m\<rparr>) (new_plan j gs)
     = new_rows (base + j) gs"
    by (induction gs arbitrary: j) (simp_all add: new_rows_def rows)
qed

lemma filter_new_rows:
  "filter (\<lambda>m. mr_turn m = t) (new_rows base gs) =
     (if base \<le> t \<and> t < base + length gs then message_rows t 0 (gs ! (t - base)) else [])"
proof (induction gs arbitrary: base)
  case (Cons g gs)
  have "new_rows base (g # gs) = message_rows base 0 g @ new_rows (Suc base) gs"
    by (simp add: new_rows_def)
  then show ?case using Cons [of "Suc base"] by (auto simp: Suc_diff_le nth_Cons')
qed (auto simp: new_rows_def)

text \<open>The effect of one batch: \<open>xs\<close> go to turn \<open>tid\<close>, then come the new turns \<open>gs\<close>.\<close>

definition new_turns :: "nat \<Rightarrow> nat \<Rightarrow> nat \<Rightarrow> nat \<Rightarrow> turn_row list" where
  "new_turns pk base seq n =
     map (\<lambda>j. \<lparr>tr_id = base + j, tr_session = pk, tr_seq = seq + j\<rparr>) [0..<n]"

definition insert_rows ::
  "nat \<Rightarrow> nat \<Rightarrow> nat \<Rightarrow> pydict list \<Rightarrow> pydict list list \<Rightarrow> db \<Rightarrow> db" where
  "insert_rows pk tid p xs gs d =
     d\<lparr>turns := turns d @ new_turns pk (next_turn d) (length (turns_of pk d)) (length gs),
       msgs := msgs d @ message_rows tid p xs @ new_rows (next_turn d) gs,
       next_turn := next_turn d + length gs\<rparr>"

lemma enumerate_new_turns:
  "map (\<lambda>(j, q). \<lparr>tr_id = base + j, tr_session = pk, tr_seq = q\<rparr>) (enumerate 0 [s..<s + n]) = new_turns pk base s n"
  by (rule nth_equalityI) (simp_all add: new_turns_def nth_enumerate_eq)

lemma filter_new_turns:
  "filter (\<lambda>t. tr_session t = q) (new_turns pk base s n) = (if q = pk then new_turns pk base s n else [])"
  by (auto simp: new_turns_def filter_empty_conv filter_id_conv)

lemma new_rows_turn: "m \<in> set (new_rows base gs) \<Longrightarrow> base \<le> mr_turn m \<and> mr_turn m < base + length gs"
  by (auto simp: new_rows_def in_set_enumerate_eq)

definition batch_ok :: "db \<Rightarrow> nat \<Rightarrow> nat \<Rightarrow> nat \<Rightarrow> pydict list \<Rightarrow> pydict list list \<Rightarrow> bool" where
  "batch_ok d pk tid p xs gs \<longleftrightarrow> wf_db d \<and> list_all (\<lambda>g. g \<noteq> []) gs
     \<and> (xs = [] \<or> turns_of pk d \<noteq> [] \<and> tid = tr_id (last (turns_of pk d)) \<and> p = length (msgs_of tid d))"

lemma target_turn:
  assumes "batch_ok d pk tid p xs gs" and "xs \<noteq> []"
  shows "last (turns_of pk d) \<in> set (turns d)" "tr_session (last (turns_of pk d)) = pk"
    "tid = tr_id (last (turns_of pk d))" "tid < next_turn d"
    "p = length (filter (\<lambda>m. mr_turn m = tid) (msgs d))"
proof -
  have wf: "wf_db d" and ne: "turns_of pk d \<noteq> []" and tid: "tid = tr_id (last (turns_of pk d))"
    and p: "p = length (msgs_of tid d)" using assms by (auto simp: batch_ok_def)
  have "last (turns_of pk d) \<in> set (filter (\<lambda>t. tr_session t = pk) (turns d))"
    using ne turns_of_wf [OF wf] by (metis last_in_set)
  then show "last (turns_of pk d) \<in> set (turns d)" "tr_session (last (turns_of pk d)) = pk" by auto
  then show "tid < next_turn d" using wf tid by (auto simp: wf_db_def list_all_iff)
  show "tid = tr_id (last (turns_of pk d))" by (rule tid)
  show "p = length (filter (\<lambda>m. mr_turn m = tid) (msgs d))" using p msgs_of_wf [OF wf] by simp
qed

lemma filter_turns_batch:
  "filter (\<lambda>t. tr_session t = q) (turns (insert_rows pk tid p xs gs d))
    = filter (\<lambda>t. tr_session t = q) (turns d)
      @ (if q = pk then new_turns pk (next_turn d) (length (turns_of pk d)) (length gs) else [])"
  by (simp add: insert_rows_def filter_new_turns)

lemma filter_msgs_batch:
  assumes "batch_ok d pk tid p xs gs"
  shows "filter (\<lambda>m. mr_turn m = t) (msgs (insert_rows pk tid p xs gs d))
    = (if next_turn d \<le> t
       then if t < next_turn d + length gs then message_rows t 0 (gs ! (t - next_turn d)) else []
       else filter (\<lambda>m. mr_turn m = t) (msgs d) @ (if t = tid then message_rows tid p xs else []))"
proof -
  have wf: "wf_db d" using assms by (simp add: batch_ok_def)
  have "filter (\<lambda>m. mr_turn m = t) (msgs d) = []" if "next_turn d \<le> t"
    using wf that by (auto simp: wf_db_def list_all_iff filter_empty_conv)
  moreover have "xs = []" if "next_turn d \<le> tid" using target_turn(4) [OF assms] that by fastforce
  ultimately show ?thesis by (auto simp: insert_rows_def filter_new_rows)
qed

lemma wf_batch:
  assumes ok: "batch_ok d pk tid p xs gs"
  shows "wf_db (insert_rows pk tid p xs gs d)" (is "wf_db ?d")
  unfolding wf_db_def
proof (intro conjI allI)
  have wf: "wf_db d" and gs: "\<forall>g \<in> set gs. g \<noteq> []" using ok by (auto simp: batch_ok_def list_all_iff)
  have turns: "turns ?d = turns d @ new_turns pk (next_turn d) (length (turns_of pk d)) (length gs)"
    and next': "next_turn ?d = next_turn d + length gs" by (simp_all add: insert_rows_def)
  have msgs: "set (msgs ?d) = set (msgs d) \<union> set (message_rows tid p xs) \<union> set (new_rows (next_turn d) gs)"
    by (auto simp: insert_rows_def)
  have ids: "distinct (map tr_id (turns d))" "\<forall>t \<in> set (turns d). tr_id t < next_turn d"
    using wf by (auto simp: wf_db_def list_all_iff)
  then show "distinct (map tr_id (turns ?d))"
    unfolding turns by (auto simp: new_turns_def distinct_map inj_on_def)
  have "tr_id t < next_turn ?d \<and> filter (\<lambda>m. mr_turn m = tr_id t) (msgs ?d) \<noteq> []" if "t \<in> set (turns d)" for t
  proof -
    have "filter (\<lambda>m. mr_turn m = tr_id t) (msgs d) \<noteq> []" using wf that by (simp add: wf_db_def list_all_iff)
    moreover have "tr_id t < next_turn d" using ids(2) that by blast
    ultimately show ?thesis unfolding filter_msgs_batch [OF ok] next' by simp
  qed
  moreover have "tr_id t < next_turn ?d \<and> filter (\<lambda>m. mr_turn m = tr_id t) (msgs ?d) \<noteq> []"
    if "t \<in> set (new_turns pk (next_turn d) s (length gs))" for t s
    using that gs unfolding filter_msgs_batch [OF ok] next' by (auto simp: new_turns_def)
  ultimately show "list_all (\<lambda>t. tr_id t < next_turn ?d \<and> filter (\<lambda>m. mr_turn m = tr_id t) (msgs ?d) \<noteq> []) (turns ?d)"
    unfolding turns list_all_iff by auto
  have "mr_turn m < next_turn d + length gs" if m: "m \<in> set (msgs ?d)" for m
  proof -
    consider "m \<in> set (msgs d)" | "m \<in> set (message_rows tid p xs)" | "m \<in> set (new_rows (next_turn d) gs)"
      using m unfolding msgs by blast
    then show ?thesis
    proof cases
      case 1
      then show ?thesis using wf_db_turn [OF wf, of m] by linarith
    next
      case 2
      then have "message_rows tid p xs \<noteq> []" by (metis empty_iff list.set(1))
      then have "xs \<noteq> []" by simp
      then show ?thesis using target_turn(4) [OF ok] message_rows_maps(5) [OF 2] by linarith
    next
      case 3
      then show ?thesis using new_rows_turn by blast
    qed
  qed
  then show "list_all (\<lambda>m. mr_turn m < next_turn ?d) (msgs ?d)"
    unfolding list_all_iff next' by blast
  fix q
  have "map tr_seq (filter (\<lambda>t. tr_session t = q) (turns d))
      = [0..<length (filter (\<lambda>t. tr_session t = q) (turns d))]" using wf by (simp add: wf_db_def)
  moreover have "map tr_seq (new_turns q b s n) = [s..<s + n]" for b s n
    by (rule nth_equalityI) (simp_all add: new_turns_def)
  moreover have "length (new_turns q b s n) = n" for b s n by (simp add: new_turns_def)
  ultimately show "map tr_seq (filter (\<lambda>t. tr_session t = q) (turns ?d))
      = [0..<length (filter (\<lambda>t. tr_session t = q) (turns ?d))]"
    unfolding filter_turns_batch using turns_of_wf [OF wf, of pk]
    by (cases "q = pk") (simp_all add: upt_add_eq_append [of 0, simplified])
next
  fix t
  have wf: "wf_db d" using ok by (simp add: batch_ok_def)
  have "map mr_seq (filter (\<lambda>m. mr_turn m = t) (msgs d))
      = [0..<length (filter (\<lambda>m. mr_turn m = t) (msgs d))]" using wf by (simp add: wf_db_def)
  then show "map mr_seq (filter (\<lambda>m. mr_turn m = t) (msgs ?d))
      = [0..<length (filter (\<lambda>m. mr_turn m = t) (msgs ?d))]"
    unfolding filter_msgs_batch [OF ok] using target_turn(5) [OF ok]
    by (cases "xs = []") (auto simp: upt_add_eq_append [of 0, simplified])
qed

lemma msgs_of_batch:
  assumes ok: "batch_ok d pk tid p xs gs" and t: "t \<in> set (turns d)"
  shows "msgs_of (tr_id t) (insert_rows pk tid p xs gs d)
    = msgs_of (tr_id t) d @ (if tr_id t = tid then message_rows tid p xs else [])"
proof -
  have wf: "wf_db d" using ok by (simp add: batch_ok_def)
  then have "\<not> next_turn d \<le> tr_id t" using wf_db_id t by fastforce
  then show ?thesis by (simp add: msgs_of_wf [OF wf] msgs_of_wf [OF wf_batch [OF ok]] filter_msgs_batch [OF ok])
qed

lemma turns_of_subset: "wf_db d \<Longrightarrow> t \<in> set (turns_of q d) \<Longrightarrow> t \<in> set (turns d) \<and> tr_session t = q"
  by (simp add: turns_of_wf)

lemma conv_other:
  assumes ok: "batch_ok d pk tid p xs gs" and q: "q \<noteq> pk"
  shows "conv q (insert_rows pk tid p xs gs d) = conv q d"
proof -
  have wf: "wf_db d" using ok by (simp add: batch_ok_def)
  have turns: "turns_of q (insert_rows pk tid p xs gs d) = turns_of q d"
    using q by (simp add: turns_of_wf [OF wf] turns_of_wf [OF wf_batch [OF ok]] filter_turns_batch)
  have inj: "inj_on tr_id (set (turns d))" using wf by (simp add: wf_db_def distinct_map)
  have "xs = [] \<or> tr_id t \<noteq> tid" if "t \<in> set (turns_of q d)" for t
  proof (rule ccontr)
    assume "\<not> (xs = [] \<or> tr_id t \<noteq> tid)"
    then have "xs \<noteq> []" "tr_id t = tid" by auto
    with target_turn(1,3) [OF ok] turns_of_subset [OF wf that] have "t = last (turns_of pk d)"
      using inj by (metis inj_onD)
    then show False using q turns_of_subset [OF wf that] target_turn(2) [OF ok \<open>xs \<noteq> []\<close>] by simp
  qed
  then have "msgs_of (tr_id t) (insert_rows pk tid p xs gs d) = msgs_of (tr_id t) d"
    if "t \<in> set (turns_of q d)" for t
    using msgs_of_batch [OF ok] turns_of_subset [OF wf that] that by (fastforce simp: message_rows_def)
  then show ?thesis by (simp add: conv_def turns)
qed

lemma conv_batch:
  assumes ok: "batch_ok d pk tid p xs gs"
  shows "conv pk (insert_rows pk tid p xs gs d)
    = (if xs = [] then conv pk d else butlast (conv pk d) @ [last (conv pk d) @ xs]) @ gs"
proof -
  let ?d = "insert_rows pk tid p xs gs d"
  let ?new = "new_turns pk (next_turn d) (length (turns_of pk d)) (length gs)"
  let ?f = "\<lambda>t. map mr_payload (msgs_of (tr_id t) d)"
  have wf: "wf_db d" using ok by (simp add: batch_ok_def)
  have turns: "turns_of pk ?d = turns_of pk d @ ?new"
    by (simp add: turns_of_wf [OF wf] turns_of_wf [OF wf_batch [OF ok]] filter_turns_batch)
  have new: "map (\<lambda>t. map mr_payload (msgs_of (tr_id t) ?d)) ?new = gs"
    by (rule nth_equalityI) (simp_all add: new_turns_def msgs_of_wf [OF wf_batch [OF ok]] filter_msgs_batch [OF ok])
  have old: "map mr_payload (msgs_of (tr_id t) ?d) = ?f t @ (if tr_id t = tid then xs else [])"
    if "t \<in> set (turns_of pk d)" for t
    using msgs_of_batch [OF ok] turns_of_subset [OF wf that] by simp
  have parts: "conv pk ?d = map (\<lambda>t. ?f t @ (if tr_id t = tid then xs else [])) (turns_of pk d) @ gs"
    unfolding conv_def turns map_append new using old by simp
  show ?thesis
  proof (cases "xs = []")
    case False
    then have last: "turns_of pk d \<noteq> []" "tid = tr_id (last (turns_of pk d))"
      using ok by (auto simp: batch_ok_def)
    define bs l where "bs = butlast (turns_of pk d)" and "l = last (turns_of pk d)"
    have split: "turns_of pk d = bs @ [l]" using last(1) by (simp add: bs_def l_def)
    have "distinct (map tr_id (turns_of pk d))"
      using wf by (simp add: turns_of_wf [OF wf] wf_db_def distinct_map_filter)
    then have "tr_id t \<noteq> tid" if "t \<in> set bs" for t
      using that last(2) unfolding l_def [symmetric] split by (auto intro: rev_image_eqI)
    moreover have "tr_id l = tid" using last(2) by (simp add: l_def)
    moreover have "conv pk d = map ?f bs @ [?f l]" by (simp add: conv_def split)
    ultimately show ?thesis using False unfolding parts split by simp
  next
    case True
    then show ?thesis unfolding parts by (simp add: conv_def)
  qed
qed


lemma case_rev: "xs \<noteq> [] \<Longrightarrow> (case rev xs of [] \<Rightarrow> a | x # _ \<Rightarrow> f x) = f (last xs)"
  by (cases xs rule: rev_cases) simp_all

lemma insert_grouped_is_batch:
  assumes wf: "wf_db d"
  shows "\<exists>tid p xs gs. batch_ok d pk tid p xs gs \<and> insert_grouped pk ms d = insert_rows pk tid p xs gs d
    \<and> (if xs = [] then conv pk d else butlast (conv pk d) @ [last (conv pk d) @ xs]) @ gs
      = extend (conv pk d) ms"
proof (cases "turns_of pk d = []")
  case True
  then have last: "last_turn pk d = None" and conv: "conv pk d = []"
    by (simp_all add: last_turn_def conv_def)
  show ?thesis
  proof (cases ms)
    case Nil
    then have "batch_ok d pk 0 0 [] [] \<and> insert_grouped pk ms d = insert_rows pk 0 0 [] [] d"
      using wf last by (simp add: batch_ok_def insert_grouped_def insert_rows_def new_turns_def
        message_rows_def new_rows_def)
    then show ?thesis using Nil conv by (intro exI [of _ 0] exI [of _ "[]"]) (simp add: extend_def)
  next
    case (Cons m ms')
    obtain xs gs where s: "spill True ms' = (xs, gs)" by fastforce
    let ?gs = "(m # xs) # gs"
    have "insert_grouped pk ms d = insert_rows pk 0 0 [] ?gs d"
      using plan_messages_None [OF s, of False 0 0 0] enumerate_new_turns [of "next_turn d" pk 0 "length ?gs"]
        rows_of_plan(2) [of "next_turn d" 0 ?gs] last True
      by (simp add: insert_grouped_def insert_rows_def Cons message_rows_def del: plan_messages.simps
          list.size(4) plan_simps)
    moreover have "batch_ok d pk 0 0 [] ?gs"
      using wf spill_nonempty [OF s] by (simp add: batch_ok_def)
    moreover have "extend (conv pk d) ms = ?gs"
      using group_into_turns_spill [OF s] conv Cons by (simp add: extend_def)
    ultimately show ?thesis using conv by fastforce
  qed
next
  case False
  define t tid where "t = last (turns_of pk d)" and "tid = tr_id t"
  have t: "t \<in> set (turns d)" using False turns_of_subset [OF wf, of t pk] by (simp add: t_def)
  have "msgs_of tid d \<noteq> []" using wf t by (simp add: msgs_of_wf tid_def) (simp add: wf_db_def list_all_iff)
  moreover from this have "mr_seq (last (msgs_of tid d)) = length (msgs_of tid d) - 1"
    using mr_seq_msgs_of [OF wf, of tid] by (metis last_map last_upt length_greater_0_conv length_0_conv map_is_Nil_conv upt_eq_Nil_conv minus_nat.diff_0 not_gr_zero One_nat_def)
  moreover have "tr_seq t = length (turns_of pk d) - 1"
    using False tr_seq_turns_of [OF wf, of pk] unfolding t_def
    by (metis last_map last_upt length_greater_0_conv)
  ultimately have lt: "last_turn pk d = Some (tid, True, length (msgs_of tid d), length (turns_of pk d) - 1)"
    unfolding last_turn_def case_rev [OF False] Let_def t_def [symmetric] tid_def [symmetric]
    by (simp add: case_rev)
  obtain xs gs where s: "spill True ms = (xs, gs)" by fastforce
  have "insert_grouped pk ms d = insert_rows pk tid (length (msgs_of tid d)) xs gs d"
    using plan_messages_Some [OF s] False enumerate_new_turns [of "next_turn d" pk "length (turns_of pk d)" "length gs"]
    by (simp add: insert_grouped_def insert_rows_def lt rows_of_plan)
  moreover have "batch_ok d pk tid (length (msgs_of tid d)) xs gs"
    using wf spill_nonempty [OF s] False by (simp add: batch_ok_def tid_def t_def)
  moreover have "extend (conv pk d) ms
      = (if xs = [] then conv pk d else butlast (conv pk d) @ [last (conv pk d) @ xs]) @ gs"
  proof -
    have c: "conv pk d \<noteq> []" using False by (simp add: conv_def)
    then have "last (conv pk d) \<noteq> []" using conv_nonempty [OF wf, of pk] by (simp add: list_all_iff)
    then show ?thesis using spill_group [OF _ s] c append_butlast_last_id [OF c] by (simp add: extend_def)
  qed
  ultimately show ?thesis by metis
qed

lemma insert_grouped_refines:
  assumes "wf_db d"
  shows "wf_db (insert_grouped pk ms d)" "conv pk (insert_grouped pk ms d) = extend (conv pk d) ms"
    "q \<noteq> pk \<Longrightarrow> conv q (insert_grouped pk ms d) = conv q d"
  using insert_grouped_is_batch [OF assms, of pk ms] wf_batch conv_batch conv_other by metis+


text \<open>Retention: the rows below \<open>k\<close> go, the others move down by \<open>k\<close>.\<close>

lemma filter_numbered: "map f xs = [0..<length xs] \<Longrightarrow> filter (\<lambda>x. \<not> f x < k) xs = drop k xs"
proof -
  assume num: "map f xs = [0..<length xs]"
  then have nth: "f (xs ! i) = i" if "i < length xs" for i
    using that by (metis add_0 nth_map nth_upt)
  have "filter (\<lambda>x. \<not> f x < k) (take k xs) = []"
    by (auto simp: filter_empty_conv in_set_conv_nth nth)
  moreover have "filter (\<lambda>x. \<not> f x < k) (drop k xs) = drop k xs"
    by (auto simp: filter_id_conv in_set_conv_nth nth)
  ultimately show ?thesis by (metis append_Nil append_take_drop_id filter_append)
qed

lemma count_below: "length (filter (\<lambda>x. x < s) [k..<n]) = min s n - k"
  by (induction n) (auto simp: min_def)

definition gone :: "nat \<Rightarrow> nat \<Rightarrow> db \<Rightarrow> nat set" where
  "gone pk k d = {tr_id t | t. t \<in> set (turns d) \<and> tr_session t = pk \<and> tr_seq t < k}"

definition moved :: "nat \<Rightarrow> nat \<Rightarrow> turn_row \<Rightarrow> turn_row" where
  "moved pk k t = (if tr_session t = pk then t\<lparr>tr_seq := tr_seq t - k\<rparr> else t)"

lemma moved_simps [simp]:
  "tr_id (moved pk k t) = tr_id t" "tr_session (moved pk k t) = tr_session t"
  by (simp_all add: moved_def)

lemma cut_msgs:
  "msgs (resequence pk (delete_turns pk k d)) = filter (\<lambda>m. mr_turn m \<notin> gone pk k d) (msgs d)"
  by (auto simp: resequence_def delete_turns_def gone_def Let_def intro!: filter_cong)

lemma cut_next: "next_turn (resequence pk (delete_turns pk k d)) = next_turn d"
  by (simp add: resequence_def delete_turns_def)

lemma cut_turns:
  assumes wf: "wf_db d"
  shows "turns (resequence pk (delete_turns pk k d))
    = map (moved pk k) (filter (\<lambda>t. \<not> (tr_session t = pk \<and> tr_seq t < k)) (turns d))"
proof -
  let ?D = "filter (\<lambda>t. \<not> (tr_session t = pk \<and> tr_seq t < k)) (turns d)"
  define own where "own = filter (\<lambda>t. tr_session t = pk) (turns d)"
  have seqs: "map tr_seq own = [0..<length own]" using wf unfolding own_def by (simp add: wf_db_def)
  have "filter (\<lambda>u. tr_session u = pk) ?D = filter (\<lambda>x. \<not> tr_seq x < k) own"
    unfolding own_def filter_filter by (rule filter_cong) auto
  then have D: "filter (\<lambda>u. tr_session u = pk) ?D = drop k own"
    by (simp only: filter_numbered [OF seqs])
  have "length (filter (\<lambda>u. tr_session u = pk \<and> tr_seq u < tr_seq t) ?D) = tr_seq t - k"
    if t: "t \<in> set (turns d)" "tr_session t = pk" for t
  proof -
    have "t \<in> set own" using t by (simp add: own_def)
    then have "tr_seq t < length own" using seqs by (metis atLeastLessThan_iff image_eqI set_map set_upt)
    moreover have "map tr_seq (drop k own) = [k..<length own]" by (simp add: seqs drop_map [symmetric])
    moreover have "filter (\<lambda>u. tr_session u = pk \<and> tr_seq u < tr_seq t) ?D
        = filter (\<lambda>u. tr_seq u < tr_seq t) (drop k own)"
      unfolding D [symmetric] filter_filter by (rule filter_cong) auto
    moreover have "length (filter (\<lambda>u. tr_seq u < tr_seq t) (drop k own))
        = length (filter (\<lambda>x. x < tr_seq t) (map tr_seq (drop k own)))"
      by (simp add: filter_map comp_def)
    ultimately show ?thesis using count_below [of "tr_seq t" k "length own"] by (simp add: min_def)
  qed
  then show ?thesis
    by (simp add: resequence_def delete_turns_def moved_def cong: conj_cong)
qed


lemma gone_turn: "wf_db d \<Longrightarrow> t \<in> set (turns d) \<Longrightarrow> tr_id t \<in> gone pk k d \<longleftrightarrow> tr_session t = pk \<and> tr_seq t < k"
proof -
  assume wf: "wf_db d" and t: "t \<in> set (turns d)"
  have "inj_on tr_id (set (turns d))" using wf by (simp add: wf_db_def distinct_map)
  then show ?thesis using t unfolding gone_def by (auto dest: inj_onD)
qed

lemma filter_turns_cut:
  assumes wf: "wf_db d"
  shows "filter (\<lambda>t. tr_session t = q) (turns (resequence pk (delete_turns pk k d)))
    = map (moved pk k) (if q = pk then drop k (turns_of pk d) else turns_of q d)"
proof -
  have num: "map tr_seq (turns_of pk d) = [0..<length (turns_of pk d)]" by (rule tr_seq_turns_of [OF wf])
  have "filter (\<lambda>t. tr_session t = q) (turns (resequence pk (delete_turns pk k d)))
      = map (moved pk k) (filter (\<lambda>t. tr_session t = q \<and> \<not> (tr_session t = pk \<and> tr_seq t < k)) (turns d))"
    unfolding cut_turns [OF wf] by (simp add: filter_map comp_def conj_commute)
  also have "filter (\<lambda>t. tr_session t = q \<and> \<not> (tr_session t = pk \<and> tr_seq t < k)) (turns d)
      = (if q = pk then filter (\<lambda>t. \<not> tr_seq t < k) (turns_of pk d) else turns_of q d)"
    unfolding turns_of_wf [OF wf] by (auto intro: filter_cong)
  finally show ?thesis by (simp only: filter_numbered [OF num])
qed

lemma filter_msgs_cut:
  "filter (\<lambda>m. mr_turn m = t) (msgs (resequence pk (delete_turns pk k d)))
    = (if t \<in> gone pk k d then [] else filter (\<lambda>m. mr_turn m = t) (msgs d))"
  unfolding cut_msgs by (auto simp: filter_empty_conv intro: filter_cong)

lemma wf_cut:
  assumes wf: "wf_db d"
  shows "wf_db (resequence pk (delete_turns pk k d))" (is "wf_db ?d")
  unfolding wf_db_def
proof (intro conjI allI)
  have turns: "turns ?d = map (moved pk k) (filter (\<lambda>t. \<not> (tr_session t = pk \<and> tr_seq t < k)) (turns d))"
    by (rule cut_turns [OF wf])
  have "distinct (map tr_id (turns d))" using wf by (simp add: wf_db_def)
  then show "distinct (map tr_id (turns ?d))"
    unfolding turns by (simp add: comp_def distinct_map_filter)
  have "tr_id t < next_turn d \<and> filter (\<lambda>m. mr_turn m = tr_id t) (msgs ?d) \<noteq> []"
    if "t \<in> set (turns d)" "\<not> (tr_session t = pk \<and> tr_seq t < k)" for t
    using that gone_turn [OF wf that(1), of pk k] wf_db_id [OF wf that(1)] wf
    unfolding filter_msgs_cut by (simp add: wf_db_def list_all_iff)
  then show "list_all (\<lambda>t. tr_id t < next_turn ?d \<and> filter (\<lambda>m. mr_turn m = tr_id t) (msgs ?d) \<noteq> []) (turns ?d)"
    unfolding turns list_all_iff cut_next by auto
  show "list_all (\<lambda>m. mr_turn m < next_turn ?d) (msgs ?d)"
    unfolding cut_msgs list_all_iff cut_next using wf_db_turn [OF wf] by auto
  fix q
  have num: "map tr_seq (turns_of q d) = [0..<length (turns_of q d)]" for q by (rule tr_seq_turns_of [OF wf])
  have "map tr_seq (map (moved pk k) (drop k (turns_of pk d))) = map (\<lambda>x. x - k) (map tr_seq (drop k (turns_of pk d)))"
    using turns_of_subset [OF wf] by (auto simp: moved_def dest: in_set_dropD)
  also have "\<dots> = map (\<lambda>x. x - k) [k..<length (turns_of pk d)]" by (simp add: num drop_map [symmetric])
  also have "\<dots> = [0..<length (turns_of pk d) - k]" by (rule nth_equalityI) simp_all
  finally have own: "map tr_seq (map (moved pk k) (drop k (turns_of pk d))) = [0..<length (turns_of pk d) - k]" .
  have "map tr_seq (map (moved pk k) (turns_of q d)) = map tr_seq (turns_of q d)" if "q \<noteq> pk"
    using that turns_of_subset [OF wf] by (fastforce simp: moved_def)
  then show "map tr_seq (filter (\<lambda>t. tr_session t = q) (turns ?d))
      = [0..<length (filter (\<lambda>t. tr_session t = q) (turns ?d))]"
    unfolding filter_turns_cut [OF wf] using own num [of q] by (cases "q = pk") (simp_all del: map_map)
next
  fix t
  show "map mr_seq (filter (\<lambda>m. mr_turn m = t) (msgs ?d))
      = [0..<length (filter (\<lambda>m. mr_turn m = t) (msgs ?d))]"
    unfolding filter_msgs_cut using wf by (simp add: wf_db_def)
qed

lemma conv_cut:
  assumes wf: "wf_db d"
  shows "conv q (resequence pk (delete_turns pk k d)) = (if q = pk then drop k (conv pk d) else conv q d)"
proof -
  let ?d = "resequence pk (delete_turns pk k d)"
  have num: "map tr_seq (turns_of pk d) = [0..<length (turns_of pk d)]" by (rule tr_seq_turns_of [OF wf])
  have kept: "msgs_of (tr_id t) ?d = msgs_of (tr_id t) d"
    if "t \<in> set (turns d)" "\<not> (tr_session t = pk \<and> tr_seq t < k)" for t
    using that gone_turn [OF wf that(1), of pk k]
    by (auto simp: msgs_of_wf [OF wf] msgs_of_wf [OF wf_cut [OF wf]] filter_msgs_cut)
  have high: "\<not> tr_seq t < k" if "t \<in> set (drop k (turns_of pk d))" for t
  proof -
    have "t \<in> set (filter (\<lambda>t. \<not> tr_seq t < k) (turns_of pk d))"
      unfolding filter_numbered [OF num] by (rule that)
    then show ?thesis by simp
  qed
  have "msgs_of (tr_id t) ?d = msgs_of (tr_id t) d" if "t \<in> set (drop k (turns_of pk d))" for t
    using high [OF that] turns_of_subset [OF wf in_set_dropD [OF that]] by (intro kept) auto
  then have "map (\<lambda>t. map mr_payload (msgs_of (tr_id t) ?d)) (drop k (turns_of pk d)) = drop k (conv pk d)"
    unfolding conv_def drop_map by simp
  moreover have "map (\<lambda>t. map mr_payload (msgs_of (tr_id t) ?d)) (turns_of q d) = conv q d" if "q \<noteq> pk"
  proof -
    have "msgs_of (tr_id t) ?d = msgs_of (tr_id t) d" if "t \<in> set (turns_of q d)" for t
      using that \<open>q \<noteq> pk\<close> by (intro kept) (auto dest: turns_of_subset [OF wf])
    then show ?thesis unfolding conv_def by simp
  qed
  ultimately show ?thesis
    by (simp add: conv_def [of q ?d] turns_of_wf [OF wf_cut [OF wf]] filter_turns_cut [OF wf] comp_def)
qed

lemma enforce_retention_refines:
  assumes wf: "wf_db d" and n: "\<And>n. limit = Some n \<Longrightarrow> 1 \<le> n"
  shows "wf_db (enforce_retention limit pk d)"
    "conv q (enforce_retention limit pk d)
      = (if q = pk then case limit of None \<Rightarrow> conv pk d | Some n \<Rightarrow> last_n n (conv pk d) else conv q d)"
proof -
  have "wf_db (enforce_retention limit pk d) \<and> conv q (enforce_retention limit pk d)
      = (if q = pk then case limit of None \<Rightarrow> conv pk d | Some n \<Rightarrow> last_n n (conv pk d) else conv q d)"
  proof (cases limit)
    case None
    then show ?thesis using wf by (simp add: enforce_retention_def)
  next
    case (Some n)
    let ?L = "length (turns_of pk d)"
    have L: "length (filter (\<lambda>t. tr_session t = pk) (turns d)) = ?L" by (simp add: turns_of_wf [OF wf])
    have C: "length (conv pk d) = ?L" by (simp add: conv_def)
    show ?thesis
    proof (cases "?L \<le> n")
      case True
      then show ?thesis using Some wf C by (simp add: enforce_retention_def L last_n_all)
    next
      case False
      obtain t ts where t: "last_n n (turns_of pk d) = t # ts"
        using False n [OF Some] by (cases "last_n n (turns_of pk d)") (auto simp: last_n_def)
      have below: "?L - n < ?L" using False n [OF Some] by linarith
      have "t = hd (last_n n (turns_of pk d))" by (simp add: t)
      also have "\<dots> = turns_of pk d ! (?L - n)" unfolding last_n_def by (rule hd_drop_conv_nth [OF below])
      finally have "tr_seq t = map tr_seq (turns_of pk d) ! (?L - n)" using below by simp
      then have "tr_seq t = ?L - n" using below by (simp add: tr_seq_turns_of [OF wf])
      then show ?thesis using Some False t wf_cut [OF wf] conv_cut [OF wf] C
        by (simp add: enforce_retention_def L last_n_def)
    qed
  qed
  then show "wf_db (enforce_retention limit pk d)"
    "conv q (enforce_retention limit pk d)
      = (if q = pk then case limit of None \<Rightarrow> conv pk d | Some n \<Rightarrow> last_n n (conv pk d) else conv q d)"
    by blast+
qed


section \<open>Whole operations\<close>

definition keep :: "nat option \<Rightarrow> 'a list \<Rightarrow> 'a list" where
  "keep limit xs = (case limit of None \<Rightarrow> xs | Some n \<Rightarrow> last_n n xs)"

definition stored :: "ustr \<Rightarrow> int \<Rightarrow> int \<Rightarrow> db \<Rightarrow> pydict list list" where
  "stored client user project d =
     (case lookup client user project d of None \<Rightarrow> [] | Some pk \<Rightarrow> conv pk d)"

definition store_ok :: "db \<Rightarrow> bool" where
  "store_ok d \<longleftrightarrow> wf_db d \<and> distinct (map s_id (sessions d))
     \<and> (\<forall>s \<in> set (sessions d). s_id s < next_session d)
     \<and> (\<forall>t \<in> set (turns d). tr_session t < next_session d)"

lemma retention_limit_pos: "retention_limit e max_turns = Some n \<Longrightarrow> 1 \<le> n"
  by (auto simp: retention_limit_def history_max_turns_def env_turn_cap_def Let_def
      split: option.splits if_splits)

lemma read_limit_pos: "read_limit e max_turns = Some n \<Longrightarrow> 1 \<le> n"
  by (auto simp: read_limit_def history_read_max_turns_def env_turn_cap_def Let_def
      split: option.splits if_splits)

lemma find_id: "distinct (map s_id ss) \<Longrightarrow> find P ss = Some s \<Longrightarrow> find Q ss = Some s'
    \<Longrightarrow> s_id s = s_id s' \<Longrightarrow> s = s'"
  by (auto simp: find_Some_iff) (metis distinct_map inj_onD nth_mem)

lemma lookup_other:
  assumes "store_ok d" and "lookup c u p d = Some pk" and "lookup c' u' p' d = Some pk"
  shows "(c', u', p') = (c, u, p)"
proof -
  obtain s s' where "find (\<lambda>s. owns u p s \<and> s_client s = c) (sessions d) = Some s"
      "find (\<lambda>s. owns u' p' s \<and> s_client s = c') (sessions d) = Some s'" "s_id s = s_id s'"
    using assms(2,3) by (auto simp: lookup_def)
  moreover from this have "s = s'" using assms(1) find_id by (auto simp: store_ok_def)
  ultimately show ?thesis by (auto simp: find_Some_iff owns_def)
qed

lemma lookup_below: "store_ok d \<Longrightarrow> lookup c u p d = Some pk \<Longrightarrow> pk < next_session d"
  by (auto simp: lookup_def store_ok_def find_Some_iff)

text \<open>What the steps of a write leave alone.\<close>

lemma frame_insert:
  "sessions (insert_grouped pk ms d) = sessions d" "next_session (insert_grouped pk ms d) = next_session d"
  "set (map tr_session (turns (insert_grouped pk ms d))) \<subseteq> insert pk (set (map tr_session (turns d)))"
  by (auto simp: insert_grouped_def Let_def split: prod.splits)

lemma frame_cut:
  "sessions (resequence pk (delete_turns pk k d)) = sessions d"
  "next_session (resequence pk (delete_turns pk k d)) = next_session d"
  "set (map tr_session (turns (resequence pk (delete_turns pk k d)))) \<subseteq> set (map tr_session (turns d))"
  by (auto simp: resequence_def delete_turns_def Let_def)

lemma frame_retention:
  "sessions (enforce_retention limit pk d) = sessions d"
  "next_session (enforce_retention limit pk d) = next_session d"
  "set (map tr_session (turns (enforce_retention limit pk d))) \<subseteq> set (map tr_session (turns d))"
  using frame_cut by (auto simp: enforce_retention_def split: option.splits list.splits)

lemma frame_bump:
  "turns (bump_updated_at pk now d) = turns d" "msgs (bump_updated_at pk now d) = msgs d"
  "next_turn (bump_updated_at pk now d) = next_turn d"
  "next_session (bump_updated_at pk now d) = next_session d"
  "map s_id (sessions (bump_updated_at pk now d)) = map s_id (sessions d)"
  by (auto simp: bump_updated_at_def)

lemma conv_cong: "turns d' = turns d \<Longrightarrow> msgs d' = msgs d \<Longrightarrow> conv pk d' = conv pk d"
  by (simp add: conv_def turns_of_def msgs_of_def)

lemma wf_db_cong: "turns d' = turns d \<Longrightarrow> msgs d' = msgs d \<Longrightarrow> next_turn d' = next_turn d \<Longrightarrow> wf_db d' = wf_db d"
  by (simp add: wf_db_def)

lemma lookup_cong: "sessions d' = sessions d \<Longrightarrow> lookup c u p d' = lookup c u p d"
  by (simp add: lookup_def)

lemma lookup_bump: "lookup c u p (bump_updated_at pk now d) = lookup c u p d"
proof -
  let ?P = "\<lambda>s. owns u p s \<and> s_client s = c"
  have "map_option s_id (find ?P (map (\<lambda>s. if s_id s = pk then s\<lparr>s_updated := now\<rparr> else s) ss))
      = map_option s_id (find ?P ss)" for ss
    by (induction ss) (auto simp: owns_def)
  then show ?thesis by (simp add: lookup_def bump_updated_at_def)
qed

lemma delete_turn_rows_cut:
  assumes "wf_db d"
  shows "delete_turn_rows pk d = resequence pk (delete_turns pk (length (turns_of pk d)) d)"
proof -
  let ?k = "length (turns_of pk d)"
  have below: "tr_seq t < ?k" if "t \<in> set (turns d)" "tr_session t = pk" for t
  proof -
    have "tr_seq t \<in> set (map tr_seq (turns_of pk d))" using that by (simp add: turns_of_wf [OF assms])
    then show ?thesis by (simp add: tr_seq_turns_of [OF assms] del: set_map)
  qed
  have "filter (\<lambda>t. \<not> (tr_session t = pk \<and> tr_seq t < ?k)) (turns d)
      = filter (\<lambda>t. tr_session t \<noteq> pk) (turns d)"
    by (rule filter_cong) (use below in auto)
  moreover have "map (moved pk ?k) (filter (\<lambda>t. tr_session t \<noteq> pk) (turns d))
      = filter (\<lambda>t. tr_session t \<noteq> pk) (turns d)"
    by (rule map_idI) (simp add: moved_def)
  ultimately have "turns (resequence pk (delete_turns pk ?k d)) = filter (\<lambda>t. tr_session t \<noteq> pk) (turns d)"
    by (simp add: cut_turns [OF assms])
  moreover have "filter (\<lambda>t. tr_session t = pk \<and> tr_seq t < ?k) (turns d) = filter (\<lambda>t. tr_session t = pk) (turns d)"
    by (rule filter_cong) (use below in auto)
  ultimately show ?thesis
    by (simp add: delete_turn_rows_def resequence_def delete_turns_def Let_def)
qed

lemma delete_turn_rows_refines:
  assumes "wf_db d"
  shows "wf_db (delete_turn_rows pk d)" "conv q (delete_turn_rows pk d) = (if q = pk then [] else conv q d)"
  using wf_cut [OF assms] conv_cut [OF assms]
  by (simp_all add: delete_turn_rows_cut [OF assms]) (simp add: conv_def)

lemma resolve_for_write_refines:
  assumes "store_ok d" and "resolve_for_write now c u p d = (pk, d')"
  shows "store_ok d'" "lookup c u p d' = Some pk" "conv q d' = conv q d" "conv pk d' = stored c u p d"
    "(c', u', p') \<noteq> (c, u, p) \<Longrightarrow> lookup c' u' p' d' = lookup c' u' p' d"
    "pk < next_session d'"
proof -
  have "store_ok d' \<and> lookup c u p d' = Some pk \<and> conv q d' = conv q d \<and> conv pk d' = stored c u p d
    \<and> ((c', u', p') \<noteq> (c, u, p) \<longrightarrow> lookup c' u' p' d' = lookup c' u' p' d) \<and> pk < next_session d'"
  proof (cases "lookup c u p d")
    case None
    then have d': "pk = next_session d" "turns d' = turns d" "msgs d' = msgs d" "next_turn d' = next_turn d"
        "next_session d' = Suc (next_session d)"
        "sessions d' = sessions d @ [\<lparr>s_id = next_session d, s_user = u, s_project = p, s_client = c,
                 s_created = now, s_updated = now, s_title = None, s_pinned = False\<rparr>]"
      using assms(2) by (auto simp: resolve_for_write_def)
    have none: "find (\<lambda>s. owns u p s \<and> s_client s = c) (sessions d) = None"
      using None by (simp add: lookup_def)
    have app: "find P (xs @ ys) = (case find P xs of None \<Rightarrow> find P ys | Some y \<Rightarrow> Some y)"
      for P and xs ys :: "session_row list" by (induction xs) simp_all
    have "filter (\<lambda>t. tr_session t = next_session d) (turns d) = []"
      using assms(1) by (auto simp: store_ok_def filter_empty_conv)
    then have "conv (next_session d) d = []" by (simp add: conv_def turns_of_def)
    then have "conv pk d' = stored c u p d" using d' conv_cong [OF d'(2,3)] None by (simp add: stored_def)
    moreover have "store_ok d'"
      using assms(1) wf_db_cong [OF d'(2,3,4)] by (auto simp: store_ok_def d'(2,5,6))
    moreover have "lookup c u p d' = Some pk"
      using none by (simp add: lookup_def d' app owns_def)
    moreover have "lookup c' u' p' d' = lookup c' u' p' d" if "(c', u', p') \<noteq> (c, u, p)"
      using that by (auto simp: lookup_def d' app owns_def split: option.split)
    ultimately show ?thesis using d' conv_cong [OF d'(2,3)] by simp
  next
    case (Some k)
    then have "d' = d" "k = pk" using assms(2) by (simp_all add: resolve_for_write_def)
    then show ?thesis using Some assms(1) lookup_below [OF assms(1) Some] by (simp add: stored_def)
  qed
  then show "store_ok d'" "lookup c u p d' = Some pk" "conv q d' = conv q d" "conv pk d' = stored c u p d"
    "(c', u', p') \<noteq> (c, u, p) \<Longrightarrow> lookup c' u' p' d' = lookup c' u' p' d"
    "pk < next_session d'" by blast+
qed


text \<open>Every write ends the same way: a session-local step, the bump, the retention.\<close>

lemma finish_write:
  assumes ok: "store_ok d" and pk: "lookup c u p d = Some pk"
    and wf: "wf_db d1" and same: "sessions d1 = sessions d" "next_session d1 = next_session d"
    and ref: "set (map tr_session (turns d1)) \<subseteq> insert pk (set (map tr_session (turns d)))"
    and others: "\<And>q. q \<noteq> pk \<Longrightarrow> conv q d1 = conv q d"
    and limit: "\<And>n. limit = Some n \<Longrightarrow> 1 \<le> n"
  shows "store_ok (enforce_retention limit pk (bump_updated_at pk now d1))" (is "store_ok ?d")
    "stored c u p (enforce_retention limit pk (bump_updated_at pk now d1)) = keep limit (conv pk d1)"
    "(c', u', p') \<noteq> (c, u, p) \<Longrightarrow>
       stored c' u' p' (enforce_retention limit pk (bump_updated_at pk now d1)) = stored c' u' p' d"
proof -
  let ?b = "bump_updated_at pk now d1"
  have b: "wf_db ?b" "conv q ?b = conv q d1" for q
    using wf wf_db_cong [OF frame_bump(1,2,3)] conv_cong [OF frame_bump(1,2)] by simp_all
  note r = enforce_retention_refines [OF b(1) limit, of limit]
  have lookup: "lookup c u p ?d = lookup c u p d" for c u p
    using lookup_cong [OF frame_retention(1)] lookup_bump lookup_cong [OF same(1)] by metis
  have "set (map tr_session (turns ?d)) \<subseteq> insert pk (set (map tr_session (turns d)))"
    using frame_retention(3) [of limit pk ?b] ref unfolding frame_bump by blast
  then have "\<forall>t \<in> set (turns ?d). tr_session t < next_session d"
    using lookup_below [OF ok pk] ok by (fastforce simp: store_ok_def)
  moreover have ids: "map s_id (sessions ?d) = map s_id (sessions d)"
    by (simp add: frame_retention frame_bump same)
  moreover have "\<forall>s \<in> set (sessions ?d). s_id s < next_session d"
  proof
    fix s assume "s \<in> set (sessions ?d)"
    then have "s_id s \<in> set (map s_id (sessions d))" unfolding ids [symmetric] by simp
    then show "s_id s < next_session d" using ok by (auto simp: store_ok_def)
  qed
  ultimately show "store_ok ?d"
    using ok r(1) by (simp add: store_ok_def frame_retention frame_bump same)
  show "stored c u p ?d = keep limit (conv pk d1)"
    using r(2) [of pk pk] by (simp add: stored_def lookup pk b(2) keep_def cong: option.case_cong)
  show "stored c' u' p' ?d = stored c' u' p' d" if ne: "(c', u', p') \<noteq> (c, u, p)"
  proof (cases "lookup c' u' p' d")
    case (Some q)
    then have "q \<noteq> pk" using lookup_other [OF ok pk] ne by blast
    then show ?thesis using r(2) others by (simp add: stored_def lookup Some b(2))
  qed (simp add: stored_def lookup)
qed

lemma stored_resolved:
  assumes "store_ok d" and "resolve_for_write now c u p d = (pk, d')"
    and "(c', u', p') \<noteq> (c, u, p)"
  shows "stored c' u' p' d' = stored c' u' p' d"
  using resolve_for_write_refines(3,5) [OF assms(1,2)] assms(3)
  by (auto simp: stored_def split: option.split)

lemma append_session_refines:
  assumes ok: "store_ok d"
  shows "store_ok (append_session e now c ms u p mt d)"
    "stored c u p (append_session e now c ms u p mt d)
      = (if ms = [] then stored c u p d else keep (retention_limit e mt) (extend (stored c u p d) ms))"
    "(c', u', p') \<noteq> (c, u, p) \<Longrightarrow> stored c' u' p' (append_session e now c ms u p mt d) = stored c' u' p' d"
proof -
  obtain pk d' where r: "resolve_for_write now c u p d = (pk, d')" by fastforce
  note res = resolve_for_write_refines [OF ok r]
  have wf: "wf_db d'" using res(1) by (simp add: store_ok_def)
  note ins = insert_grouped_refines [OF wf]
  note fin = finish_write [OF res(1) res(2) ins(1) frame_insert ins(3) retention_limit_pos]
  show "store_ok (append_session e now c ms u p mt d)"
    using fin(1) ok by (simp add: append_session_def r)
  show "stored c u p (append_session e now c ms u p mt d)
      = (if ms = [] then stored c u p d else keep (retention_limit e mt) (extend (stored c u p d) ms))"
    using fin(2) res(4) ins(2) by (simp add: append_session_def r)
  show "(c', u', p') \<noteq> (c, u, p) \<Longrightarrow> stored c' u' p' (append_session e now c ms u p mt d) = stored c' u' p' d"
    using fin(3) stored_resolved [OF ok r] by (auto simp: append_session_def r)
qed

lemma save_session_refines:
  assumes ok: "store_ok d"
  shows "store_ok (save_session e now c ms u p mt d)"
    "stored c u p (save_session e now c ms u p mt d) = keep (retention_limit e mt) (group_into_turns ms)"
    "(c', u', p') \<noteq> (c, u, p) \<Longrightarrow> stored c' u' p' (save_session e now c ms u p mt d) = stored c' u' p' d"
proof -
  obtain pk d' where r: "resolve_for_write now c u p d = (pk, d')" by fastforce
  note res = resolve_for_write_refines [OF ok r]
  have wf: "wf_db d'" using res(1) by (simp add: store_ok_def)
  let ?e = "delete_turn_rows pk d'"
  note del = delete_turn_rows_refines [OF wf, where pk = pk]
  note ins = insert_grouped_refines [OF del(1), where pk = pk and ms = ms]
  have empty: "conv pk (insert_grouped pk ms ?e) = group_into_turns ms"
    using ins(2) del(2) by (simp add: extend_def)
  have frame: "sessions (insert_grouped pk ms ?e) = sessions d'"
    "next_session (insert_grouped pk ms ?e) = next_session d'"
    "set (map tr_session (turns (insert_grouped pk ms ?e))) \<subseteq> insert pk (set (map tr_session (turns d')))"
    using frame_insert [where pk = pk and ms = ms and d = ?e] by (auto simp: delete_turn_rows_def Let_def)
  have others: "conv q (insert_grouped pk ms ?e) = conv q d'" if "q \<noteq> pk" for q
    using ins(3) [OF that] del(2) that by simp
  note fin = finish_write [OF res(1) res(2) ins(1) frame others retention_limit_pos]
  show "store_ok (save_session e now c ms u p mt d)"
    using fin(1) by (simp add: save_session_def r)
  show "stored c u p (save_session e now c ms u p mt d) = keep (retention_limit e mt) (group_into_turns ms)"
    using fin(2) empty by (simp add: save_session_def r)
  show "(c', u', p') \<noteq> (c, u, p) \<Longrightarrow> stored c' u' p' (save_session e now c ms u p mt d) = stored c' u' p' d"
    using fin(3) stored_resolved [OF ok r] by (simp add: save_session_def r)
qed


section \<open>A sequence of requests\<close>

type_synonym append_op = "int \<times> ustr \<times> int \<times> int \<times> pydict list"

definition run_append :: "env \<Rightarrow> int option \<Rightarrow> append_op \<Rightarrow> db \<Rightarrow> db" where
  "run_append e mt opn d = (case opn of (now, c, u, p, ms) \<Rightarrow> append_session e now c ms u p mt d)"

definition empty_db :: db where
  "empty_db = \<lparr>sessions = [], turns = [], msgs = [], linked = [], next_session = 1, next_turn = 1\<rparr>"

text \<open>What a session was sent, over all the requests.\<close>

definition sent :: "ustr \<Rightarrow> int \<Rightarrow> int \<Rightarrow> append_op list \<Rightarrow> pydict list" where
  "sent c u p ops = concat (map (\<lambda>(_, c', u', p', ms). if (c', u', p') = (c, u, p) then ms else []) ops)"

lemma keep_extend:
  assumes "\<And>n. limit = Some n \<Longrightarrow> 1 \<le> n"
  shows "keep limit (extend (keep limit (group_into_turns xs)) ms) = keep limit (group_into_turns (xs @ ms))"
proof (cases limit)
  case (Some n)
  have "list_all (\<lambda>t. t \<noteq> []) (group_into_turns xs)"
    using well_grouped_group_into_turns [of xs] by (simp add: well_grouped_def is_turn_def list_all_iff)
  then show ?thesis using Some extend_last_n [OF assms] by (simp add: keep_def extend_group)
qed (simp add: keep_def extend_group)

lemma stored_run_append:
  assumes "store_ok d" and "stored c u p d = keep (retention_limit e mt) (group_into_turns xs)"
  shows "store_ok (fold (run_append e mt) ops d)
    \<and> stored c u p (fold (run_append e mt) ops d)
      = keep (retention_limit e mt) (group_into_turns (xs @ sent c u p ops))"
  using assms
proof (induction ops arbitrary: d xs)
  case (Cons opn ops)
  obtain now c' u' p' ms where opn: "opn = (now, c', u', p', ms)" by (metis prod_cases5)
  let ?d = "append_session e now c' ms u' p' mt d"
  let ?more = "if (c', u', p') = (c, u, p) then ms else []"
  have "stored c u p ?d = keep (retention_limit e mt) (group_into_turns (xs @ ?more))"
  proof (cases "(c', u', p') = (c, u, p)")
    case True
    then show ?thesis
      using append_session_refines(2) [OF Cons.prems(1)] Cons.prems(2) keep_extend [OF retention_limit_pos]
      by auto
  next
    case False
    then have "(c, u, p) \<noteq> (c', u', p')" by auto
    then show ?thesis using append_session_refines(3) [OF Cons.prems(1)] Cons.prems(2) by auto
  qed
  then show ?case
    using Cons.IH [OF append_session_refines(1) [OF Cons.prems(1)], where xs = "xs @ ?more"]
    by (simp add: opn run_append_def sent_def)
qed (simp add: sent_def)

lemma store_ok_empty: "store_ok empty_db" "stored c u p empty_db = []"
  by (simp_all add: store_ok_def empty_db_def wf_db_def stored_def lookup_def)

text \<open>Reading back: the window's head is dropped to its first message that is not a tool result.\<close>

definition read_view :: "nat option \<Rightarrow> pydict list list \<Rightarrow> pydict list" where
  "read_view limit ts = (if keep limit ts = ts then concat ts
     else dropWhile (\<lambda>m. role_is m ''tool'') (concat (keep limit ts)))"

lemma last_n_same: "length xs \<le> n \<Longrightarrow> last_n n xs = xs"
  by (simp add: last_n_all)

lemma load_window_refines:
  assumes wf: "wf_db d" and pos: "\<And>n. limit = Some n \<Longrightarrow> 1 \<le> n"
  shows "load_window limit pk d = read_view limit (conv pk d)"
proof (cases limit)
  case None
  then show ?thesis by (simp add: load_window_def read_view_def keep_def payloads_conv)
next
  case (Some n)
  let ?L = "length (turns_of pk d)"
  let ?w = "last_n n (turns_of pk d)"
  have sub: "set ?w \<subseteq> set (turns_of pk d)" by (simp add: last_n_def set_drop_subset)
  have "filter (\<lambda>t. msgs_of (tr_id t) d \<noteq> []) ?w = ?w"
    unfolding filter_id_conv
  proof
    fix t assume "t \<in> set ?w"
    then have "t \<in> set (turns d)" using sub turns_of_subset [OF wf] by blast
    then show "msgs_of (tr_id t) d \<noteq> []"
      unfolding msgs_of_wf [OF wf] using wf unfolding wf_db_def list_all_iff by blast
  qed
  then have w: "load_window limit pk d = (if (case ?w of [] \<Rightarrow> False | t # _ \<Rightarrow> 0 < tr_seq t)
      then dropWhile (\<lambda>m. role_is m ''tool'') (payloads ?w d) else payloads ?w d)"
    by (simp add: load_window_def Some Let_def)
  have rows: "payloads ?w d = concat (keep limit (conv pk d))"
    by (simp add: payloads_def keep_def Some conv_def last_n_def drop_map)
  have L: "length (conv pk d) = ?L" by (simp add: conv_def)
  have "(case ?w of [] \<Rightarrow> False | t # _ \<Rightarrow> 0 < tr_seq t) \<longleftrightarrow> n < ?L"
  proof (cases ?w)
    case Nil
    then have "?L \<le> ?L - n" by (simp add: last_n_def)
    then have "?L = 0" using pos [OF Some] by linarith
    then show ?thesis using Nil by simp
  next
    case (Cons t ts)
    then have below: "?L - n < ?L" by (auto simp: last_n_def dest: arg_cong [where f = length])
    have "t = hd ?w" by (simp add: Cons)
    also have "\<dots> = turns_of pk d ! (?L - n)" unfolding last_n_def by (rule hd_drop_conv_nth [OF below])
    finally have "tr_seq t = map tr_seq (turns_of pk d) ! (?L - n)" using below by simp
    then have "tr_seq t = ?L - n" using below by (simp add: tr_seq_turns_of [OF wf])
    then show ?thesis using Cons by simp
  qed
  moreover have "keep limit (conv pk d) = conv pk d \<longleftrightarrow> \<not> n < ?L"
  proof
    assume eq: "keep limit (conv pk d) = conv pk d"
    have "length (keep limit (conv pk d)) = min n ?L" by (simp add: keep_def Some last_n_def L)
    then show "\<not> n < ?L" using eq L by simp
  qed (simp add: keep_def Some last_n_all L)
  ultimately show ?thesis unfolding w rows read_view_def by auto
qed

lemma load_session_refines:
  assumes "store_ok d"
  shows "load_session e c u p mt d = read_view (read_limit e mt) (stored c u p d)"
proof (cases "lookup c u p d")
  case None
  then show ?thesis by (simp add: load_session_def stored_def read_view_def keep_def last_n_def split: option.split)
next
  case (Some pk)
  then show ?thesis using load_window_refines [OF _ read_limit_pos] assms
    by (simp add: load_session_def stored_def store_ok_def)
qed

text \<open>
  C4: After any sequence of requests, of any users on any sessions, a session stores exactly the
  newest whole turns of all it was sent (up to the retention limit), whatever the other sessions
  did and wherever the requests were cut.\<close>

theorem stored_history_is_newest_turns:
  "stored c u p (fold (run_append e mt) ops empty_db)
     = keep (retention_limit e mt) (group_into_turns (sent c u p ops))"
  using stored_run_append [OF store_ok_empty(1), where xs = "[]" and c = c and u = u and p = p]
  by (simp add: store_ok_empty keep_def last_n_def split: option.split)


text \<open>
  A load after any sequence of requests returns the newest whole turns of what the session was
  sent, bounded by the retention limit and then the read limit; only when older turns were cut
  is a leading run of tool results dropped.\<close>

lemma load_returns_newest_turns:
  "load_session e c u p mt_read (fold (run_append e mt) ops empty_db)
     = read_view (read_limit e mt_read)
         (keep (retention_limit e mt) (group_into_turns (sent c u p ops)))"
proof -
  have nil: "keep limit [] = []" for limit :: "nat option"
    by (simp add: keep_def last_n_def split: option.split)
  have "store_ok (fold (run_append e mt) ops empty_db)
      \<and> stored c u p (fold (run_append e mt) ops empty_db)
        = keep (retention_limit e mt) (group_into_turns ([] @ sent c u p ops))"
    by (rule stored_run_append [OF store_ok_empty(1)]) (simp add: store_ok_empty nil)
  then show ?thesis using load_session_refines by simp
qed


lemma foreign_untouched:
  assumes "lookup_by_pk pk u p d = None"
  shows "rename_session pk u p title d = (False, d)" "set_pinned pk u p pinned d = (None, d)"
    "delete_session pk u p d = (False, d)"
proof -
  have none: "\<forall>s \<in> set (sessions d). \<not> (s_id s = pk \<and> owns u p s)"
    using assms by (auto simp: lookup_by_pk_def find_None_iff)
  then have "\<not> list_ex (\<lambda>s. s_id s = pk \<and> owns u p s) (sessions d)" by (simp add: list_ex_iff)
  moreover have "map (\<lambda>s. if s_id s = pk \<and> owns u p s then f s else s) (sessions d) = sessions d" for f
    by (rule map_idI) (use none in auto)
  ultimately have "update_owned pk u p f d = (False, d)" for f by (simp add: update_owned_def)
  then show "rename_session pk u p title d = (False, d)" "set_pinned pk u p pinned d = (None, d)"
    by (simp_all add: rename_session_def set_pinned_def)
  show "delete_session pk u p d = (False, d)"
    using \<open>\<not> list_ex _ _\<close> by (simp add: delete_session_def)
qed

lemma delete_owned:
  assumes ok: "store_ok d" and own: "lookup_by_pk pk u p d = Some row"
  obtains d' where "delete_session pk u p d = (True, d')" "store_ok d'"
    "lookup_by_pk pk u' p' d' = None" "pk \<notin> set (linked d')" "conv pk d' = []"
    "q \<noteq> pk \<Longrightarrow> conv q d' = conv q d" "q \<noteq> pk \<Longrightarrow> lookup_by_pk q u' p' d' = lookup_by_pk q u' p' d"
proof -
  have wf: "wf_db d" using ok by (simp add: store_ok_def)
  let ?e = "delete_turn_rows pk d"
  let ?d = "?e\<lparr>linked := filter (\<lambda>k. k \<noteq> pk) (linked ?e), sessions := filter (\<lambda>s. s_id s \<noteq> pk) (sessions ?e)\<rparr>"
  note del = delete_turn_rows_refines [OF wf, where pk = pk]
  have frame: "sessions ?e = sessions d" "next_session ?e = next_session d"
    "set (turns ?e) \<subseteq> set (turns d)"
    by (auto simp: delete_turn_rows_def Let_def)
  have "list_ex (\<lambda>s. s_id s = pk \<and> owns u p s) (sessions d)"
    using own by (auto simp: lookup_by_pk_def find_Some_iff list_ex_iff)
  then have d: "delete_session pk u p d = (True, ?d)" by (simp add: delete_session_def Let_def)
  have wf': "wf_db ?d" using del(1) by (subst wf_db_cong [where d = ?e]) simp_all
  have c: "conv q ?d = conv q ?e" for q by (rule conv_cong) simp_all
  have "store_ok ?d" using ok wf' frame
    by (auto simp: store_ok_def distinct_map_filter)
  moreover have "lookup_by_pk pk u' p' ?d = None"
    by (auto simp: lookup_by_pk_def find_None_iff)
  moreover have "find (\<lambda>s. s_id s = q \<and> owns u' p' s) (filter (\<lambda>s. s_id s \<noteq> pk) ss)
      = find (\<lambda>s. s_id s = q \<and> owns u' p' s) ss" if "q \<noteq> pk" for ss
    using that by (induction ss) auto
  then have "q \<noteq> pk \<Longrightarrow> lookup_by_pk q u' p' ?d = lookup_by_pk q u' p' d"
    by (simp add: lookup_by_pk_def frame)
  ultimately show thesis using that [OF d] c del(2) by simp
qed

text \<open>
  A session of somebody else is as good as unknown to the sidebar operations: they change
  nothing and say so. Deleting one's own session removes every row of it (also the linked run
  and checkpoint rows) and no other session.\<close>

lemma sidebar_respects_ownership:
  assumes "store_ok d"
  shows "case lookup_by_pk pk u p d of
      None \<Rightarrow> rename_session pk u p title d = (False, d) \<and> set_pinned pk u p pinned d = (None, d)
        \<and> delete_session pk u p d = (False, d)
    | Some _ \<Rightarrow> (case delete_session pk u p d of (found, d') \<Rightarrow> found \<and> store_ok d' \<and> conv pk d' = []
        \<and> pk \<notin> set (linked d') \<and> lookup_by_pk pk u' p' d' = None
        \<and> (q \<noteq> pk \<longrightarrow> conv q d' = conv q d \<and> lookup_by_pk q u' p' d' = lookup_by_pk q u' p' d))"
proof (cases "lookup_by_pk pk u p d")
  case (Some row)
  show ?thesis
    by (rule delete_owned [OF assms Some, where u' = u' and p' = p' and q = q]) (simp add: Some)
qed (simp add: foreign_untouched)

definition sample_db :: db where
  "sample_db = \<lparr>sessions = [\<lparr>s_id = 1, s_user = 7, s_project = 7, s_client = [], s_created = 0,
      s_updated = 0, s_title = None, s_pinned = False\<rparr>], turns = [], msgs = [], linked = [1],
      next_session = 2, next_turn = 1\<rparr>"

lemma sidebar_respects_ownership_witness:
  "store_ok sample_db \<and> delete_session 1 8 8 sample_db = (False, sample_db)
    \<and> (case delete_session 1 7 7 sample_db of (found, d') \<Rightarrow> found \<and> 1 \<notin> set (linked d'))"
proof -
  have ok: "store_ok sample_db" by (simp add: store_ok_def wf_db_def sample_db_def)
  have "lookup_by_pk 1 8 8 sample_db = None" "lookup_by_pk 1 7 7 sample_db = Some ([], 7, 7)"
    by (simp_all add: lookup_by_pk_def sample_db_def owns_def)
  then show ?thesis
    using ok sidebar_respects_ownership [OF ok, where pk = 1 and u = 8 and p = 8]
      sidebar_respects_ownership [OF ok, where pk = 1 and u = 7 and p = 7]
    by (auto split: prod.splits)
qed

end
