(* ===== verification/Denylist.thy ===== *)
theory Denylist
  imports Prelude
begin

text \<open>
  The denylists of \<open>invincible/core/tool_executor.py\<close>: which shell commands and which paths are
  refused before anything is staged. The patterns are regular expressions; the first section
  models the part of Python's \<open>re\<close> they use (case-insensitive characters, classes, repetition,
  lookaround, word boundaries), as the list of positions a match can end at.
\<close>

section \<open>Regular expressions\<close>

datatype rx =
    Eps
  | Ch "int \<Rightarrow> bool"
  | Seq rx rx
  | Alt rx rx
  | Star rx
  | Ahead rx
  | NotAfter "int \<Rightarrow> bool"
  | NotNext "int \<Rightarrow> bool"
  | Boundary
  | AtEnd

text \<open>\<open>\w\<close>: \<open>alnum\<close> says which characters outside ASCII are alphanumeric (the Unicode database).\<close>

definition word_char :: "(int \<Rightarrow> bool) \<Rightarrow> int \<Rightarrow> bool" where
  "word_char alnum c \<longleftrightarrow> (48 \<le> c \<and> c \<le> 57) \<or> (65 \<le> c \<and> c \<le> 90) \<or> c = 95 \<or> (97 \<le> c \<and> c \<le> 122)
     \<or> (128 \<le> c \<and> alnum c)"

fun star_ends :: "(nat \<Rightarrow> nat list) \<Rightarrow> nat \<Rightarrow> nat \<Rightarrow> nat list" where
  "star_ends f 0 i = [i]"
| "star_ends f (Suc n) i = i # concat (map (\<lambda>j. if i < j then star_ends f n j else []) (f i))"

primrec ends :: "(int \<Rightarrow> bool) \<Rightarrow> rx \<Rightarrow> ustr \<Rightarrow> nat \<Rightarrow> nat list" where
  "ends u Eps s i = [i]"
| "ends u (Ch p) s i = (if i < length s \<and> p (s ! i) then [Suc i] else [])"
| "ends u (Seq r r') s i = concat (map (ends u r' s) (ends u r s i))"
| "ends u (Alt r r') s i = ends u r s i @ ends u r' s i"
| "ends u (Star r) s i = star_ends (ends u r s) (length s - i) i"
| "ends u (Ahead r) s i = (if ends u r s i \<noteq> [] then [i] else [])"
| "ends u (NotAfter p) s i = (if 0 < i \<and> p (s ! (i - 1)) then [] else [i])"
| "ends u (NotNext p) s i = (if i < length s \<and> p (s ! i) then [] else [i])"
| "ends u Boundary s i = (if (0 < i \<and> word_char u (s ! (i - 1))) \<noteq> (i < length s \<and> word_char u (s ! i))
     then [i] else [])"
| "ends u AtEnd s i = (if i = length s \<or> Suc i = length s \<and> s ! i = 10 then [i] else [])"

definition matches_at :: "(int \<Rightarrow> bool) \<Rightarrow> rx \<Rightarrow> ustr \<Rightarrow> bool" where
  "matches_at u r s \<longleftrightarrow> ends u r s 0 \<noteq> []"

definition searches :: "(int \<Rightarrow> bool) \<Rightarrow> rx \<Rightarrow> ustr \<Rightarrow> bool" where
  "searches u r s \<longleftrightarrow> list_ex (\<lambda>i. ends u r s i \<noteq> []) [0..<Suc (length s)]"

text \<open>
  \<open>re.I\<close> on a lower-case letter: its capital, and the four characters outside ASCII that fold to
  ASCII letters.
\<close>

definition ci :: "int \<Rightarrow> int \<Rightarrow> bool" where
  "ci p c \<longleftrightarrow> c = p \<or> (97 \<le> p \<and> p \<le> 122 \<and> c = p - 32)
     \<or> (p = 105 \<and> (c = 304 \<or> c = 305)) \<or> (p = 107 \<and> c = 8490) \<or> (p = 115 \<and> c = 383)"

definition letter :: "int \<Rightarrow> bool" where
  "letter c \<longleftrightarrow> (97 \<le> c \<and> c \<le> 122) \<or> (65 \<le> c \<and> c \<le> 90) \<or> c \<in> {304, 305, 383, 8490}"

definition chars :: "string \<Rightarrow> rx" where
  "chars t = foldr (\<lambda>c r. Seq (Ch (ci c)) r) (lit t) Eps"

abbreviation seqs :: "rx list \<Rightarrow> rx" where "seqs rs \<equiv> foldr Seq rs Eps"
abbreviation opt :: "rx \<Rightarrow> rx" where "opt r \<equiv> Alt r Eps"
abbreviation some_of :: "rx \<Rightarrow> rx" where "some_of r \<equiv> Seq r (Star r)"
abbreviation spc :: rx where "spc \<equiv> Ch is_space"
abbreviation any_char :: rx where "any_char \<equiv> Ch (\<lambda>c. c \<noteq> 10)"
abbreviation not_space :: rx where "not_space \<equiv> Ch (\<lambda>c. \<not> is_space c)"

definition alts :: "string list \<Rightarrow> rx" where
  "alts ts = foldr (\<lambda>t r. Alt (chars t) r) (butlast ts) (chars (last ts))"

section \<open>Commands\<close>

text \<open>\<open>DENYLIST_PATTERNS\<close>, without the reasons, in order.\<close>

definition DENYLIST_PATTERNS :: "(int \<Rightarrow> bool) \<Rightarrow> rx list" where
  "DENYLIST_PATTERNS u =
     (let w = Star (Ch (word_char u)); root_end = Alt spc AtEnd in
      [seqs [chars ''rm'', some_of spc,
             Alt (seqs [chars ''-'', w, chars ''r'', w, chars ''f'', w])
                 (seqs [chars ''-'', w, chars ''f'', w, chars ''r'', w]),
             some_of spc, alts [''/'', ''~'', ''$home''], Alt spc (Alt (chars ''/'') AtEnd)],
       seqs [chars ''rm'', some_of spc, chars ''-'', Star (Ch letter), chars ''r'', Star (Ch letter),
             some_of spc, chars ''/'', root_end],
       seqs [chars '':()'', Star spc, chars ''{'', Star spc, chars '':'', Star spc, chars ''|'', Star spc,
             chars '':'', Star spc, chars ''&'', Star spc, chars ''}'', Star spc, chars '';'', Star spc,
             chars '':''],
       seqs [Boundary, chars ''dd'', some_of spc, Star any_char, chars ''of=/dev/''],
       seqs [Boundary, chars ''mkfs'', opt (seqs [chars ''.'', some_of (Ch (word_char u))]), Boundary],
       seqs [chars ''>'', Star spc, chars ''/dev/'', alts [''sd'', ''nvme'', ''hd'', ''disk'']],
       seqs [Boundary, alts [''shutdown'', ''reboot'', ''halt'', ''poweroff''], Boundary],
       seqs [Boundary, chars ''sudo'', Boundary],
       seqs [Boundary, chars ''chmod'', some_of spc, opt (seqs [chars ''-r'', some_of spc]),
             chars ''777'', some_of spc, chars ''/'', root_end],
       seqs [Boundary, chars ''chown'', some_of spc, chars ''-r'', some_of spc, some_of not_space,
             some_of spc, chars ''/'', root_end],
       seqs [alts [''curl'', ''wget''], some_of spc, Star any_char, chars ''|'', Star spc,
             opt (seqs [chars ''sudo'', some_of spc]), alts [''sh'', ''bash'', ''zsh''], Boundary],
       seqs [Boundary, chars ''kill'', some_of spc, chars ''-9'', some_of spc, chars ''-1'', Boundary],
       seqs [chars ''>'', Star spc, chars ''/etc/'', alts [''passwd'', ''shadow'', ''sudoers''], Boundary],
       seqs [Boundary, alts [''rd'', ''rmdir'', ''del'', ''erase''], Boundary,
             Ahead (seqs [Star any_char, NotAfter (\<lambda>c. \<not> is_space c), chars ''/s'',
                          NotNext (\<lambda>c. \<not> is_space c)]),
             Ahead (seqs [Star any_char, Ch letter, chars '':'', some_of (Ch (\<lambda>c. c = 92)),
                          opt (seqs [chars ''*'', opt (chars ''.*'')]),
                          Alt spc (Alt (Ch (\<lambda>c. c \<in> {34, 39, 38, 124})) AtEnd)])],
       seqs [Boundary, chars ''format'', some_of spc, Ch letter, chars '':'']])"

definition check_denylist :: "(int \<Rightarrow> bool) \<Rightarrow> ustr \<Rightarrow> bool" where
  "check_denylist u command \<longleftrightarrow> list_ex (\<lambda>r. searches u r command) (DENYLIST_PATTERNS u)"

section \<open>Paths\<close>

text \<open>
  An absolute path is its list of components. \<open>os.path.relpath\<close> drops the common prefix and goes
  up once for every component of the root that is left.
\<close>

fun rel_parts :: "ustr list \<Rightarrow> ustr list \<Rightarrow> ustr list" where
  "rel_parts (r # rs) (p # ps) = (if r = p then rel_parts rs ps else map (\<lambda>_. lit ''..'') (r # rs) @ p # ps)"
| "rel_parts rs ps = map (\<lambda>_. lit ''..'') rs @ ps"

definition relpath :: "ustr list \<Rightarrow> ustr list \<Rightarrow> ustr" where
  "relpath root path = (case rel_parts root path of [] \<Rightarrow> lit ''.'' | ps \<Rightarrow> join (lit ''/'') ps)"

definition env_file :: rx where
  "env_file = seqs [chars ''.env'', opt (seqs [chars ''.'', some_of any_char]), AtEnd]"

definition WRITE_DENYLIST_PATTERNS :: "rx list" where
  "WRITE_DENYLIST_PATTERNS =
     [env_file, seqs [chars ''providers.yaml'', AtEnd], seqs [chars ''sessions.db'', AtEnd],
      chars ''invincible/'', chars ''tests/'', chars ''.git/'']"

definition READ_DENYLIST_PATTERNS :: "rx list" where
  "READ_DENYLIST_PATTERNS = [env_file, seqs [chars ''sessions.db'', AtEnd], chars ''.git/'']"

definition BASENAME_READ_DENYLIST :: "rx list" where
  "BASENAME_READ_DENYLIST =
     [env_file, seqs [chars ''sessions.db'', AtEnd], seqs [chars ''.git'', AtEnd]]"

text \<open>\<open>_check_protected_path\<close>, after the path and the root were made absolute: true is blocked.\<close>

definition check_protected_path :: "ustr list \<Rightarrow> ustr list \<Rightarrow> rx list \<Rightarrow> bool" where
  "check_protected_path root path patterns =
     (let rel = relpath root path
      in \<not> is_prefix (lit ''..'') rel \<and> list_ex (\<lambda>r. matches_at (\<lambda>_. False) r rel) patterns)"

text \<open>
  The file system as the checks see it (POSIX, where \<open>normcase\<close> is the identity): \<open>real\<close> is \<open>realpath(abspath(p))\<close>, \<open>given\<close> is \<open>abspath(p)\<close>;
  the repository root both ways, and the allowed read roots, resolved.
\<close>

record paths =
  real_path :: "ustr \<Rightarrow> ustr list"
  given_path :: "ustr \<Rightarrow> ustr list"
  repo_root :: "ustr list"
  repo_root_unresolved :: "ustr list"
  allowed_read_roots :: "ustr list list"

definition check_write_denylist :: "paths \<Rightarrow> ustr \<Rightarrow> bool" where
  "check_write_denylist fs path = check_protected_path (repo_root fs) (real_path fs path) WRITE_DENYLIST_PATTERNS"

definition check_edit_denylist :: "paths \<Rightarrow> ustr \<Rightarrow> bool" where
  "check_edit_denylist fs path \<longleftrightarrow>
     check_protected_path (repo_root fs) (real_path fs path) WRITE_DENYLIST_PATTERNS
     \<or> check_protected_path (repo_root_unresolved fs) (given_path fs path) WRITE_DENYLIST_PATTERNS"

definition check_read_denylist :: "paths \<Rightarrow> ustr \<Rightarrow> bool" where
  "check_read_denylist fs path =
     (let p = real_path fs path
      in \<not> list_ex (\<lambda>root. p = root \<or> root \<noteq> [] \<and> take (length root) p = root) (allowed_read_roots fs)
         \<or> list_ex (\<lambda>part. list_ex (\<lambda>r. matches_at (\<lambda>_. False) r part) BASENAME_READ_DENYLIST) p
         \<or> check_protected_path (repo_root fs) p READ_DENYLIST_PATTERNS)"


section \<open>Matching\<close>

text \<open>\<open>folds t s\<close>: \<open>s\<close> is the lower-case text \<open>t\<close> in some spelling of its letters.\<close>

definition folds :: "string \<Rightarrow> ustr \<Rightarrow> bool" where
  "folds t s \<longleftrightarrow> list_all2 ci (lit t) s"

lemma folds_simps [simp]:
  "folds [] s \<longleftrightarrow> s = []"
  "folds (c # t) [] \<longleftrightarrow> False"
  "folds (c # t) (d # s) \<longleftrightarrow> ci (of_char c) d \<and> folds t s"
  by (simp_all add: folds_def lit_def)

lemma folds_append: "folds t a \<Longrightarrow> folds t' b \<Longrightarrow> folds (t @ t') (a @ b)"
  by (simp add: folds_def lit_def list_all2_appendI)

lemma folds_length: "folds t s \<Longrightarrow> length s = length t"
  by (auto simp: folds_def lit_def dest: list_all2_lengthD)

lemma chars_simps [simp]: "chars [] = Eps" "chars (c # t) = Seq (Ch (ci (of_char c))) (chars t)"
  by (simp_all add: chars_def lit_def)

lemma ends_chars: "folds t w \<Longrightarrow> ends u (chars t) (a @ w @ b) (length a) = [length (a @ w)]"
proof (induction t arbitrary: w a)
  case (Cons c t)
  then obtain d v where w: "w = d # v" "ci (of_char c) d" "folds t v" by (cases w) auto
  then show ?case using Cons.IH [of v "a @ [d]"] by simp
qed simp

lemma searchesI: "i \<le> length s \<Longrightarrow> ends u r s i \<noteq> [] \<Longrightarrow> searches u r s"
  unfolding searches_def list_ex_iff by (intro bexI [of _ i]) (simp_all del: upt_Suc)

lemma searches_alt:
  "searches u (Seq x (Seq (Alt r r') z)) s \<longleftrightarrow> searches u (Seq x (Seq r z)) s \<or> searches u (Seq x (Seq r' z)) s"
proof -
  have "ends u (Seq x (Seq (Alt r r') z)) s i \<noteq> [] \<longleftrightarrow>
      ends u (Seq x (Seq r z)) s i \<noteq> [] \<or> ends u (Seq x (Seq r' z)) s i \<noteq> []" for i
    by auto
  then show ?thesis unfolding searches_def list_ex_iff by blast
qed

text \<open>A word is found when it stands between characters that are not part of a word.\<close>

definition apart :: "(int \<Rightarrow> bool) \<Rightarrow> ustr \<Rightarrow> ustr \<Rightarrow> bool" where
  "apart u a b \<longleftrightarrow> (a = [] \<or> \<not> word_char u (last a)) \<and> (b = [] \<or> \<not> word_char u (hd b))"

lemma boundary_before:
  assumes "a = [] \<or> \<not> word_char u (last a)" and "w \<noteq> []" and "word_char u (hd w)"
  shows "ends u Boundary (a @ w @ b) (length a) = [length a]"
proof -
  have "0 < length a \<Longrightarrow> (a @ w @ b) ! (length a - 1) = last a"
    by (simp add: nth_append last_conv_nth)
  moreover have "(a @ w @ b) ! length a = hd w" using assms(2) by (cases w) simp_all
  ultimately show ?thesis using assms by (cases w) auto
qed

lemma boundary_after:
  assumes "b = [] \<or> \<not> word_char u (hd b)" and "w \<noteq> []" and "word_char u (last w)"
  shows "ends u Boundary (a @ w @ b) (length (a @ w)) = [length (a @ w)]"
proof -
  have "(a @ w @ b) ! (length (a @ w) - 1) = last w"
    using assms(2) by (cases w rule: rev_cases) (simp_all add: nth_append)
  moreover have "b \<noteq> [] \<Longrightarrow> (a @ w @ b) ! length (a @ w) = hd b"
    by (metis append_assoc hd_conv_nth nth_append_length_plus add_0_right)
  ultimately show ?thesis using assms by (cases b) auto
qed

lemma word_found:
  assumes "folds t w" and "apart u a b" and "w \<noteq> []" and "word_char u (hd w)" and "word_char u (last w)"
  shows "searches u (seqs [Boundary, chars t, Boundary]) (a @ w @ b)"
proof (rule searchesI [where i = "length a"])
  show "ends u (seqs [Boundary, chars t, Boundary]) (a @ w @ b) (length a) \<noteq> []"
    using boundary_before [of a u w b] boundary_after [of b u w a] ends_chars [OF assms(1), of u a b] assms
    by (simp only: foldr.simps comp_apply id_apply ends.simps(3) apart_def list.map concat.simps
        append_Nil2 ends.simps(1)) simp
qed simp


lemma ci_word: "word_char u (of_char c) \<Longrightarrow> of_char c < (128::int) \<Longrightarrow> ci (of_char c) d \<Longrightarrow> d < 128 \<Longrightarrow> word_char u d"
  by (auto simp: ci_def word_char_def)

text \<open>Which path names are protected.\<close>

definition protected_file :: "ustr \<Rightarrow> bool" where
  "protected_file c \<longleftrightarrow> folds ''.env'' c \<or> folds ''providers.yaml'' c \<or> folds ''sessions.db'' c
     \<or> (\<exists>e x. c = e @ x \<and> folds ''.env.'' e \<and> x \<noteq> [] \<and> 10 \<notin> set x)"

definition protected_dir :: "ustr \<Rightarrow> bool" where
  "protected_dir c \<longleftrightarrow> folds ''invincible'' c \<or> folds ''tests'' c \<or> folds ''.git'' c"

lemma join_Cons: "join sep (c # cs) = c @ (if cs = [] then [] else sep @ join sep cs)"
  by (cases cs) simp_all

lemma ends_chars_0: "folds t w \<Longrightarrow> ends u (chars t) (w @ b) 0 = [length t]"
  using ends_chars [of t w u "[]" b] folds_length [of t w] by simp

lemma match_prefix: "folds t w \<Longrightarrow> matches_at u (chars t) (w @ b)"
  by (simp add: matches_at_def ends_chars_0)

lemma match_whole: "folds t w \<Longrightarrow> matches_at u (seqs [chars t, AtEnd]) w"
  using ends_chars_0 [of t w u "[]"] folds_length [of t w] by (simp add: matches_at_def)

lemma star_ends_all:
  assumes "\<And>j. i \<le> j \<Longrightarrow> j < n \<Longrightarrow> f j = [Suc j]" and "i \<le> n"
  shows "n \<in> set (star_ends f (n - i) i)"
  using assms
proof (induction "n - i" arbitrary: i)
  case (Suc k)
  then have i: "i < n" "k = n - Suc i" "n - i = Suc (n - Suc i)" by auto
  then have "n \<in> set (star_ends f (n - Suc i) (Suc i))" using Suc.prems by (intro Suc.hyps(1)) auto
  then show ?case using Suc.prems(1) [of i] i by simp
qed simp

lemma match_env:
  assumes "folds ''.env'' c \<or> (\<exists>e x. c = e @ x \<and> folds ''.env.'' e \<and> x \<noteq> [] \<and> 10 \<notin> set x)"
  shows "matches_at u env_file c"
  using assms
proof
  assume "folds ''.env'' c"
  then show ?thesis using ends_chars_0 [of "''.env''" c u "[]"] folds_length [of "''.env''" c]
    by (simp add: matches_at_def env_file_def del: chars_simps)
next
  assume "\<exists>e x. c = e @ x \<and> folds ''.env.'' e \<and> x \<noteq> [] \<and> 10 \<notin> set x"
  then obtain e x where c: "c = e @ x" "folds ''.env.'' e" "x \<noteq> []" "10 \<notin> set x" by blast
  then obtain v d where e: "e = v @ [d]" "folds ''.env'' v" "folds ''.'' [d]"
    by (auto simp: folds_def lit_def list_all2_Cons1)
  have len: "length v = 4" "length c = 5 + length x" using folds_length [OF e(2)] c(1) e(1) by simp_all
  have first: "ends u (chars ''.env'') c 0 = [4]" using ends_chars_0 [OF e(2), of u "d # x"] c(1) e(1) by simp
  have dot: "ends u (chars ''.'') c 4 = [5]"
    using ends_chars [OF e(3), of u v x] c(1) e(1) len(1) by (simp del: chars_simps)
  have step: "ends u any_char c j = [Suc j]" if "5 \<le> j" "j < length c" for j
  proof -
    have "c ! j = x ! (j - 5)" using c(1) e(1) len(1) that by (simp add: nth_append)
    then have "c ! j \<in> set x" using that len(2) by (simp add: nth_mem)
    then show ?thesis using c(4) that by auto
  qed
  have "0 < length x" using c(3) by simp
  have "length c \<in> set (star_ends (ends u any_char c) (length c - 6) 6)"
  proof (rule star_ends_all)
    show "ends u any_char c j = [Suc j]" if "6 \<le> j" "j < length c" for j using that by (intro step) auto
    show "6 \<le> length c" using len(2) \<open>0 < length x\<close> by linarith
  qed
  then have "length c \<in> set (ends u (some_of any_char) c 5)"
    using step [of 5] len(2) \<open>0 < length x\<close> by simp
  then have "ends u (seqs [opt (seqs [chars ''.'', some_of any_char]), AtEnd]) c 4 \<noteq> []"
    using dot by (auto simp del: chars_simps ends.simps(5))
  then show ?thesis unfolding matches_at_def env_file_def using first by (simp del: chars_simps)
qed


lemma protected_file_matches: "protected_file c \<Longrightarrow> list_ex (\<lambda>r. matches_at u r c) WRITE_DENYLIST_PATTERNS"
  using match_env [of c u] match_whole [of "''providers.yaml''" c u] match_whole [of "''sessions.db''" c u]
  unfolding protected_file_def WRITE_DENYLIST_PATTERNS_def by (simp del: chars_simps foldr.simps) blast

lemma protected_dir_matches:
  assumes "protected_dir c"
  shows "list_ex (\<lambda>r. matches_at u r (c @ 47 # b)) WRITE_DENYLIST_PATTERNS"
proof -
  have "folds (t @ ''/'') (c @ [47])" if "folds t c" for t
    by (rule folds_append [OF that]) (simp add: ci_def)
  then have "matches_at u (chars (t @ ''/'')) (c @ 47 # b)" if "folds t c" for t
    using match_prefix [of "t @ ''/''" "c @ [47]" u b] that by simp
  from this [of "''invincible''"] this [of "''tests''"] this [of "''.git''"] show ?thesis
    using assms unfolding protected_dir_def WRITE_DENYLIST_PATTERNS_def
    by (auto simp del: chars_simps foldr.simps)
qed

lemma up_folds: "folds (x # y # t) c \<Longrightarrow> is_prefix (lit ''..'') (c @ b) \<Longrightarrow> ci (of_char x) 46 \<and> ci (of_char y) 46"
  by (cases c; cases "tl c") (auto simp: lit_def)

lemma not_up:
  assumes "protected_file c \<or> protected_dir c"
  shows "\<not> is_prefix (lit ''..'') (c @ b)"
proof
  assume up: "is_prefix (lit ''..'') (c @ b)"
  have no: "\<not> folds (x # y # t) e" if "c = e @ z" "\<not> (ci (of_char x) 46 \<and> ci (of_char y) 46)" for x y t e z
    using up_folds [of x y t e "z @ b"] up that by auto
  have whole: "\<not> folds (x # y # t) c" if "\<not> (ci (of_char x) 46 \<and> ci (of_char y) 46)" for x y t
    using no [of c "[]" x y t] that by simp
  have env: "\<not> (\<exists>e z. c = e @ z \<and> folds ''.env.'' e \<and> z \<noteq> [] \<and> 10 \<notin> set z)"
    using no by (auto simp: ci_def)
  show False using assms env whole [of "CHR ''.''" "CHR ''e''"] whole [of "CHR ''p''" "CHR ''r''"]
      whole [of "CHR ''s''" "CHR ''e''"] whole [of "CHR ''i''" "CHR ''n''"] whole [of "CHR ''t''" "CHR ''e''"]
      whole [of "CHR ''.''" "CHR ''g''"]
    unfolding protected_file_def protected_dir_def by (simp add: ci_def del: folds_simps)
qed

lemma rel_parts_below: "rel_parts root (root @ ps) = ps"
  by (induction root) (cases ps; simp)+

lemma relpath_below: "relpath root (root @ c # cs) = c @ (if cs = [] then [] else 47 # join (lit ''/'') cs)"
  by (simp add: relpath_def rel_parts_below join_Cons) (simp add: lit_def)

lemma protected_blocked:
  assumes "protected_file c \<and> cs = [] \<or> protected_dir c \<and> cs \<noteq> []"
  shows "check_protected_path root (root @ c # cs) WRITE_DENYLIST_PATTERNS"
  using assms protected_file_matches [of c] protected_dir_matches [of c _ "join (lit ''/'') cs"]
    not_up [of c "[]"] not_up [of c "47 # join (lit ''/'') cs"]
  by (auto simp: check_protected_path_def relpath_below Let_def)

lemma outside_not_blocked:
  assumes "take (length root) path \<noteq> root"
  shows "\<not> check_protected_path root path patterns"
proof -
  have "\<exists>ps. rel_parts root path = lit ''..'' # ps" using assms
    by (induction root path rule: rel_parts.induct) (auto split: list.splits, metis list.exhaust list.simps(9))
  then have "is_prefix (lit ''..'') (relpath root path)"
    by (auto simp: relpath_def join_Cons lit_def)
  then show ?thesis by (simp add: check_protected_path_def)
qed

text \<open>
  C20: no write or edit is staged for a protected file: whatever the spelling of its letters and
  whichever links lead to it, the repository's .env files, provider configuration and session
  database, and everything below invincible/, tests/ and .git/, are refused. An edit is refused
  also when the name that was given lies there, wherever it leads. Paths outside the repository
  are left to the approval step.\<close>

theorem protected_paths_are_refused:
  assumes "protected_file c \<and> cs = [] \<or> protected_dir c \<and> cs \<noteq> []"
  shows "(real_path fs p = repo_root fs @ c # cs \<longrightarrow> check_write_denylist fs p \<and> check_edit_denylist fs p)
    \<and> (given_path fs p = repo_root_unresolved fs @ c # cs \<longrightarrow> check_edit_denylist fs p)
    \<and> (take (length (repo_root fs)) (real_path fs p) \<noteq> repo_root fs \<longrightarrow> \<not> check_write_denylist fs p)"
  using protected_blocked [OF assms] outside_not_blocked
  by (auto simp: check_write_denylist_def check_edit_denylist_def)

definition sample_paths :: paths where
  "sample_paths = \<lparr>real_path = (\<lambda>p. if p = lit ''notes'' then [lit ''repo'', lit ''.ENV''] else [lit ''tmp'']),
     given_path = (\<lambda>p. [lit ''repo'', p]), repo_root = [lit ''repo''],
     repo_root_unresolved = [lit ''repo''], allowed_read_roots = [[lit ''repo'']]\<rparr>"

lemma protected_paths_are_refused_witness:
  "check_write_denylist sample_paths (lit ''notes'') \<and> \<not> check_write_denylist sample_paths (lit ''other'')"
proof -
  have "protected_file (lit ''.ENV'') \<and> [] = ([] :: ustr list) \<or> protected_dir (lit ''.ENV'') \<and> [] \<noteq> ([] :: ustr list)"
    by (simp add: protected_file_def lit_def ci_def)
  then show ?thesis
    using protected_paths_are_refused [of "lit ''.ENV''" "[]" sample_paths "lit ''notes''"]
      protected_paths_are_refused [of "lit ''.ENV''" "[]" sample_paths "lit ''other''"]
    by (simp add: sample_paths_def)
qed

text \<open>
  A command with the word sudo, shutdown, reboot, halt or poweroff in it is refused, however
  its letters are spelled and whatever stands around the word, as long as that is no part of a
  word.\<close>

lemma privileged_words_are_refused:
  assumes "folds t w" and "t \<in> {''sudo'', ''shutdown'', ''reboot'', ''halt'', ''poweroff''}"
    and "apart u a b" and "word_char u (hd w)" and "word_char u (last w)"
  shows "check_denylist u (a @ w @ b)"
proof -
  have ne: "w \<noteq> []" using assms(1,2) folds_length by fastforce
  have found: "searches u (seqs [Boundary, chars t, Boundary]) (a @ w @ b)"
    by (rule word_found) (use assms ne in auto)
  have power: "searches u (seqs [Boundary, alts [''shutdown'', ''reboot'', ''halt'', ''poweroff''], Boundary]) s"
    if "searches u (seqs [Boundary, chars t, Boundary]) s" "t \<noteq> ''sudo''" for s
    using that assms(2) unfolding alts_def
    by (simp only: list.simps butlast.simps last.simps foldr.simps comp_apply id_apply searches_alt if_True if_False simp_thms) blast
  show ?thesis
  proof (cases "t = ''sudo''")
    case True
    then have "searches u (seqs [Boundary, chars ''sudo'', Boundary]) (a @ w @ b)" using found by (simp only:)
    then show ?thesis unfolding check_denylist_def DENYLIST_PATTERNS_def Let_def list_ex_Cons_iff by blast
  next
    case False
    from power [OF found False] show ?thesis
      unfolding check_denylist_def DENYLIST_PATTERNS_def Let_def list_ex_Cons_iff by blast
  qed
qed

lemma privileged_words_are_refused_witness:
  "check_denylist (\<lambda>_. False) (lit ''ls; SuDo id'')"
proof -
  have "check_denylist (\<lambda>_. False) (lit ''ls; '' @ lit ''SuDo'' @ lit '' id'')"
    by (rule privileged_words_are_refused [where t = "''sudo''"])
       (simp_all add: lit_def ci_def apart_def word_char_def)
  then show ?thesis by (simp add: lit_def)
qed

end
