(* ===== verification/ComputerArgs.thy ===== *)
theory ComputerArgs
  imports Settings
begin

text \<open>
  The desktop tools of \<open>invincible/core/tool_executor.py\<close> (click, type_text, press_keys, scroll,
  drag, open_app, open_url): validation and normalisation of their arguments, which runs once
  before an action is staged and again on the machine that executes it. Texts of error messages
  are not modelled; \<open>int\<close> of a float is the argument \<open>float_int\<close>; digits and letter case follow
  theories \<open>Settings\<close> and \<open>Prelude\<close> (ASCII). \<open>str\<close> of a value that is no string is never one of
  the words \<open>button\<close> and \<open>direction\<close> are compared with.
\<close>

text \<open>\<open>ValueError\<close>, \<open>ToolBlocked\<close>, and any other exception.\<close>

datatype tool_error = ValueErr | Blocked | Crash

type_synonym 'a checked = "tool_error + 'a"

fun check :: "'a checked \<Rightarrow> ('a \<Rightarrow> 'b checked) \<Rightarrow> 'b checked" where
  "check (Inl e) f = Inl e"
| "check (Inr x) f = f x"

lemma check_Inr [simp]: "check r f = Inr y \<longleftrightarrow> (\<exists>x. r = Inr x \<and> f x = Inr y)"
  by (cases r) auto

definition require :: "bool \<Rightarrow> 'a checked \<Rightarrow> 'a checked" where
  "require b r = (if b then r else Inl ValueErr)"

lemma require_Inr [simp]: "require b r = Inr y \<longleftrightarrow> b \<and> r = Inr y"
  by (simp add: require_def)

type_synonym float_int = "ustr \<Rightarrow> int checked"

section \<open>Text helpers\<close>

fun words_from :: "ustr \<Rightarrow> ustr \<Rightarrow> ustr list" where
  "words_from w [] = (if w = [] then [] else [w])"
| "words_from w (c # cs) =
     (if is_space c then (if w = [] then words_from [] cs else w # words_from [] cs)
      else words_from (w @ [c]) cs)"

text \<open>\<open>" ".join(text.split())\<close>\<close>

definition look_collapse :: "ustr \<Rightarrow> ustr" where
  "look_collapse s = join [32] (words_from [] s)"

definition partition_at :: "int \<Rightarrow> ustr \<Rightarrow> ustr \<times> bool \<times> ustr" where
  "partition_at x s = (takeWhile (\<lambda>c. c \<noteq> x) s, x \<in> set s, tl (dropWhile (\<lambda>c. c \<noteq> x) s))"

section \<open>Window selectors and waits\<close>

datatype window_target = Foreground | Pid int | Process ustr | Title ustr | AnyWindow ustr

definition look_window_target :: "json \<Rightarrow> window_target checked" where
  "look_window_target text = (case text of
       JNull \<Rightarrow> Inr Foreground
     | JStr t \<Rightarrow>
         let raw = strip t in
         if raw = [] then Inr Foreground
         else (case partition_at 58 raw of (prefix, sep, v) \<Rightarrow>
           let named = lower (strip prefix) in
           if sep \<and> named \<in> {lit ''pid'', lit ''process'', lit ''title''} then
             let v' = strip v in
             if v' = [] then Inl ValueErr
             else if named = lit ''pid'' then
               (case parse_int v' of None \<Rightarrow> Inl ValueErr | Some pid \<Rightarrow> require (0 < pid) (Inr (Pid pid)))
             else Inr (if named = lit ''process'' then Process v' else Title v')
           else if list_all (\<lambda>c. 48 \<le> c \<and> c \<le> 57) raw then
             (case parse_int raw of None \<Rightarrow> Inl ValueErr | Some pid \<Rightarrow> require (0 < pid) (Inr (Pid pid)))
           else Inr (AnyWindow raw))
     | _ \<Rightarrow> Inl ValueErr)"

definition LOOK_KIND_NAMES :: "ustr list" where
  "LOOK_KIND_NAMES = map lit [''button'', ''calendar'', ''checkbox'', ''combo box'', ''control'', ''document'',
     ''grid'', ''group'', ''header'', ''image'', ''item'', ''link'', ''list'', ''list item'', ''menu'', ''menu bar'',
     ''menu item'', ''option'', ''progress'', ''slider'', ''spinner'', ''tab'', ''tab item'', ''table'', ''text'',
     ''text field'', ''toolbar'', ''tooltip'', ''tree'', ''tree item'']"

definition LOOK_WAIT_MAX_MS :: int where "LOOK_WAIT_MAX_MS = 10000"
definition LOOK_WAIT_DEFAULT_MS :: int where "LOOK_WAIT_DEFAULT_MS = 3000"
definition OPEN_APP_WAIT_DEFAULT_MS :: int where "OPEN_APP_WAIT_DEFAULT_MS = 8000"

record look_spec =
  sp_window :: window_target
  sp_kind :: "ustr option"
  sp_label :: "ustr option"
  sp_timeout :: int
  sp_wait_window :: bool

definition nonempty :: "ustr \<Rightarrow> ustr option" where
  "nonempty s = (if s = [] then None else Some s)"

fun to_int :: "float_int \<Rightarrow> json \<Rightarrow> int checked" where
  "to_int fi (JInt i) = Inr i"
| "to_int fi (JBool b) = Inr (if b then 1 else 0)"
| "to_int fi (JFloat r) = fi r"
| "to_int fi (JStr s) = (case parse_int s of None \<Rightarrow> Inl ValueErr | Some i \<Rightarrow> Inr i)"
| "to_int fi _ = Inl ValueErr"

definition look_call_args ::
  "float_int \<Rightarrow> json \<Rightarrow> json \<Rightarrow> json \<Rightarrow> json \<Rightarrow> int \<Rightarrow> bool \<Rightarrow> look_spec checked" where
  "look_call_args fi window wait_kind wait_label timeout_ms default_ms wait_window0 =
     check (look_window_target window) (\<lambda>target.
     check (case wait_kind of
         JNull \<Rightarrow> Inr None
       | JStr k \<Rightarrow>
           if k = [] then Inr None
           else let kind = nonempty (lower (strip k)) in
             require (case kind of None \<Rightarrow> True | Some n \<Rightarrow> n \<in> set LOOK_KIND_NAMES) (Inr kind)
       | _ \<Rightarrow> Inl ValueErr) (\<lambda>kind.
     check (case wait_label of
         JNull \<Rightarrow> Inr None
       | JStr l \<Rightarrow> if l = [] then Inr None else Inr (nonempty (look_collapse l))
       | _ \<Rightarrow> Inl ValueErr) (\<lambda>label.
     let wait_window = (wait_window0 \<and> target \<noteq> Foreground);
         wait = (kind \<noteq> None \<or> label \<noteq> None \<or> wait_window)
     in check (if \<not> wait then Inr 0
               else if timeout_ms = JNull then Inr default_ms
               else check (to_int fi timeout_ms) (\<lambda>t. require (0 \<le> t) (Inr (min t LOOK_WAIT_MAX_MS))))
          (\<lambda>timeout. Inr \<lparr>sp_window = target, sp_kind = kind, sp_label = label, sp_timeout = timeout,
                           sp_wait_window = wait_window\<rparr>))))"

section \<open>Key chords\<close>

definition KEY_ALIASES :: "(ustr \<times> ustr) list" where
  "KEY_ALIASES = map (\<lambda>(a, b). (lit a, lit b)) [(''windows'', ''win''), (''super'', ''win''), (''meta'', ''win''),
     (''cmd'', ''win''), (''control'', ''ctrl''), (''delete'', ''del''), (''escape'', ''esc''),
     (''return'', ''enter'')]"

definition KEY_MODIFIERS :: "ustr list" where
  "KEY_MODIFIERS = map lit [''alt'', ''ctrl'', ''shift'', ''win'']"

definition BLOCKED_CHORDS :: "ustr list list" where
  "BLOCKED_CHORDS = map (map lit) [[''win'', ''l''], [''alt'', ''f4''], [''ctrl'', ''alt'', ''del''],
     [''ctrl'', ''shift'', ''esc'']]"

definition key_name :: "ustr \<Rightarrow> ustr option" where
  "key_name raw = (let name = lower (strip raw) in
     if name = [] then None
     else Some (case map_of KEY_ALIASES name of Some n \<Rightarrow> n | None \<Rightarrow> name))"

text \<open>A chord is a set of names; here the list of them without repetition.\<close>

definition parse_keys_chord :: "ustr \<Rightarrow> ustr list" where
  "parse_keys_chord text = remdups (List.map_filter key_name (split_on 43 text))"

definition blocked_chord :: "ustr list \<Rightarrow> bool" where
  "blocked_chord chord \<longleftrightarrow> list_ex (\<lambda>b. set b = set chord) BLOCKED_CHORDS"

section \<open>normalize_computer_args\<close>

definition COMPUTER_GRID_MAX :: int where "COMPUTER_GRID_MAX = 1000"
definition COMPUTER_SCROLL_MAX_AMOUNT :: int where "COMPUTER_SCROLL_MAX_AMOUNT = 10"
definition COMPUTER_TYPE_MAX_CHARS :: nat where "COMPUTER_TYPE_MAX_CHARS = 2000"
definition COMPUTER_APP_NAME_MAX_CHARS :: nat where "COMPUTER_APP_NAME_MAX_CHARS = 500"

definition COMPUTER_TOOLS :: "ustr list" where
  "COMPUTER_TOOLS = map lit [''click'', ''type_text'', ''press_keys'', ''scroll'', ''drag'', ''open_app'',
     ''open_url'']"

definition computer_grid_int :: "float_int \<Rightarrow> json \<Rightarrow> int checked" where
  "computer_grid_int fi v = (case v of
       JInt i \<Rightarrow> require (0 \<le> i \<and> i \<le> COMPUTER_GRID_MAX) (Inr i)
     | JFloat r \<Rightarrow> check (fi r) (\<lambda>i. require (0 \<le> i \<and> i \<le> COMPUTER_GRID_MAX) (Inr i))
     | _ \<Rightarrow> Inl ValueErr)"

definition computer_target ::
  "float_int \<Rightarrow> pydict \<Rightarrow> bool \<Rightarrow> string \<Rightarrow> string \<Rightarrow> string \<Rightarrow> pydict checked" where
  "computer_target fi args allow_bare xkey ykey ckey =
     (if dget args (lit ckey) \<noteq> JNull then
        (case dget args (lit ckey) of
           JStr c \<Rightarrow> require (strip c \<noteq> []) (Inr [(lit ''control'', JStr (strip c))])
         | _ \<Rightarrow> Inl ValueErr)
      else let x = dget args (lit xkey); y = dget args (lit ykey) in
        if x = JNull \<and> y = JNull then require allow_bare (Inr [])
        else require (x \<noteq> JNull \<and> y \<noteq> JNull)
          (check (computer_grid_int fi x) (\<lambda>gx. check (computer_grid_int fi y) (\<lambda>gy.
             Inr [(lit xkey, JInt gx), (lit ykey, JInt gy)]))))"

text \<open>\<open>str(v).strip().lower()\<close>, where it is one of the words.\<close>

definition one_of :: "ustr list \<Rightarrow> json \<Rightarrow> ustr checked" where
  "one_of ws v = (case v of JStr s \<Rightarrow> require (lower (strip s) \<in> set ws) (Inr (lower (strip s))) | _ \<Rightarrow> Inl ValueErr)"

definition str_opt :: "ustr option \<Rightarrow> json" where
  "str_opt s = (case s of None \<Rightarrow> JNull | Some t \<Rightarrow> JStr t)"

text \<open>\<open>re.match("^https?://", url, re.I)\<close>; the long s folds to s.\<close>

definition http_url :: "ustr \<Rightarrow> bool" where
  "http_url s \<longleftrightarrow> is_prefix (lit ''http://'') (lower s)
     \<or> is_prefix (lit ''https://'') (lower (map (\<lambda>c. if c = 383 then 115 else c) s))"

definition norm_click :: "float_int \<Rightarrow> pydict \<Rightarrow> pydict checked" where
  "norm_click fi args =
     check (computer_target fi args False ''x'' ''y'' ''control'') (\<lambda>target.
     check (one_of (map lit [''left'', ''right'', ''middle'']) (dget_or args (lit ''button'') (JStr (lit ''left''))))
       (\<lambda>button. Inr (target @ [(lit ''button'', JStr button),
          (lit ''double'', JBool (dget args (lit ''double'') = JBool True))])))"

definition norm_type_text :: "float_int \<Rightarrow> pydict \<Rightarrow> pydict checked" where
  "norm_type_text fi args = (case dget args (lit ''text'') of
       JStr text \<Rightarrow> require (text \<noteq> [] \<and> length text \<le> COMPUTER_TYPE_MAX_CHARS)
         (check (computer_target fi args True ''x'' ''y'' ''control'') (\<lambda>target.
            Inr (target @ [(lit ''text'', JStr text),
              (lit ''submit'', JBool (dget args (lit ''submit'') = JBool True))])))
     | _ \<Rightarrow> Inl ValueErr)"

definition norm_press_keys :: "float_int \<Rightarrow> pydict \<Rightarrow> pydict checked" where
  "norm_press_keys fi args = (case dget args (lit ''keys'') of
       JStr keys \<Rightarrow>
         if strip keys = [] then Inl ValueErr
         else if blocked_chord (parse_keys_chord keys) then Inl Blocked
         else require (length (filter (\<lambda>k. k \<notin> set KEY_MODIFIERS) (parse_keys_chord keys)) = 1)
           (check (computer_target fi args True ''x'' ''y'' ''control'') (\<lambda>target.
              Inr (target @ [(lit ''keys'', JStr (strip keys))])))
     | _ \<Rightarrow> Inl ValueErr)"

definition norm_scroll :: "float_int \<Rightarrow> pydict \<Rightarrow> pydict checked" where
  "norm_scroll fi args =
     check (one_of (map lit [''up'', ''down'', ''left'', ''right'']) (dget_or args (lit ''direction'') (JStr [])))
       (\<lambda>direction.
     check (to_int fi (dget_or args (lit ''amount'') (JInt 3))) (\<lambda>amount.
     require (1 \<le> amount \<and> amount \<le> COMPUTER_SCROLL_MAX_AMOUNT)
       (check (computer_target fi args True ''x'' ''y'' ''control'') (\<lambda>target.
          Inr (target @ [(lit ''direction'', JStr direction), (lit ''amount'', JInt amount)])))))"

definition norm_drag :: "float_int \<Rightarrow> pydict \<Rightarrow> pydict checked" where
  "norm_drag fi args =
     check (computer_target fi args False ''x1'' ''y1'' ''control_from'') (\<lambda>src.
     check (computer_target fi args False ''x2'' ''y2'' ''control_to'') (\<lambda>dst.
       Inr [(lit ''from'', JObj src), (lit ''to'', JObj dst)]))"

definition norm_open_app :: "float_int \<Rightarrow> pydict \<Rightarrow> pydict checked" where
  "norm_open_app fi args = (case dget args (lit ''name'') of
       JStr name0 \<Rightarrow>
         let app = strip name0 in
         require (app \<noteq> [] \<and> length app \<le> COMPUTER_APP_NAME_MAX_CHARS)
         (check (case dget_or args (lit ''args'') (JStr []) of
               JNull \<Rightarrow> Inr [] | JStr e \<Rightarrow> Inr (strip e) | _ \<Rightarrow> Inl ValueErr) (\<lambda>extra.
          let window = dget args (lit ''window'');
              named = (case window of JStr w \<Rightarrow> strip w \<noteq> [] | _ \<Rightarrow> False) in
          check (look_call_args fi window (dget args (lit ''wait_kind'')) (dget args (lit ''wait_label''))
                   (dget args (lit ''timeout_ms'')) OPEN_APP_WAIT_DEFAULT_MS named) (\<lambda>spec.
          Inr ([(lit ''name'', JStr app), (lit ''args'', JStr extra)] @
            (if sp_kind spec \<noteq> None \<or> sp_label spec \<noteq> None \<or> sp_wait_window spec
             then [(lit ''window'', if sp_wait_window spec then window else JNull),
                   (lit ''wait_kind'', str_opt (sp_kind spec)), (lit ''wait_label'', str_opt (sp_label spec)),
                   (lit ''timeout_ms'', JInt (sp_timeout spec)),
                   (lit ''wait_window'', JBool (sp_wait_window spec))]
             else [])))))
     | _ \<Rightarrow> Inl ValueErr)"

definition norm_open_url :: "pydict \<Rightarrow> pydict checked" where
  "norm_open_url args = (case dget args (lit ''url'') of
       JStr url \<Rightarrow> require (http_url (strip url)) (Inr [(lit ''url'', JStr (strip url))])
     | _ \<Rightarrow> Inl ValueErr)"

definition normalize_computer_args :: "float_int \<Rightarrow> ustr \<Rightarrow> pydict \<Rightarrow> pydict checked" where
  "normalize_computer_args fi name args =
     (if name = lit ''click'' then norm_click fi args
      else if name = lit ''type_text'' then norm_type_text fi args
      else if name = lit ''press_keys'' then norm_press_keys fi args
      else if name = lit ''scroll'' then norm_scroll fi args
      else if name = lit ''drag'' then norm_drag fi args
      else if name = lit ''open_app'' then norm_open_app fi args
      else if name = lit ''open_url'' then norm_open_url args
      else Inl ValueErr)"


section \<open>Normalisation again\<close>

lemma lstrip_hd: "lstrip s = [] \<or> \<not> is_space (hd (lstrip s))"
  unfolding lstrip_def using hd_dropWhile by blast

lemma lstrip_id: "s = [] \<or> \<not> is_space (hd s) \<Longrightarrow> lstrip s = s"
  by (cases s) (auto simp: lstrip_def)

lemma lstrip_suffix: "\<exists>p. s = p @ lstrip s"
  unfolding lstrip_def by (metis takeWhile_dropWhile_id)

lemma strip_strip [simp]: "strip (strip s) = strip s"
proof -
  let ?t = "lstrip s"
  let ?u = "lstrip (rev ?t)"
  obtain p where p: "rev ?t = p @ ?u" using lstrip_suffix by blast
  have "rev ?u = [] \<or> \<not> is_space (hd (rev ?u))"
  proof (cases "?u = []")
    case False
    have "?t = rev ?u @ rev p" by (metis p rev_append rev_rev_ident)
    then show ?thesis using False lstrip_hd [of s] by (metis hd_append2 append_is_Nil_conv)
  qed simp
  then have "lstrip (rev ?u) = rev ?u" by (rule lstrip_id)
  moreover have "lstrip ?u = ?u" by (rule lstrip_id) (rule lstrip_hd)
  ultimately show ?thesis by (simp add: strip_def)
qed

lemma words_from_word: "w \<noteq> [] \<Longrightarrow> list_all (\<lambda>c. \<not> is_space c) v \<Longrightarrow> words_from w (v @ 32 # s) = (w @ v) # words_from [] s"
  by (induction v arbitrary: w) (auto simp: is_space_def)

lemma words_from_end: "w \<noteq> [] \<Longrightarrow> list_all (\<lambda>c. \<not> is_space c) v \<Longrightarrow> words_from w v = [w @ v]"
  by (induction v arbitrary: w) auto

definition is_word :: "ustr \<Rightarrow> bool" where
  "is_word w \<longleftrightarrow> w \<noteq> [] \<and> list_all (\<lambda>c. \<not> is_space c) w"

lemma words_join: "list_all is_word ws \<Longrightarrow> words_from [] (join [32] ws) = ws"
proof (induction ws rule: induct_list012)
  case (2 w)
  then show ?case using words_from_end [of "[hd w]" "tl w"] by (cases w) (auto simp: is_word_def)
next
  case (3 w w' ws)
  then show ?case using words_from_word [of "[hd w]" "tl w"] by (cases w) (auto simp: is_word_def)
qed simp

lemma words_are_words: "list_all (\<lambda>c. \<not> is_space c) w \<Longrightarrow> list_all is_word (words_from w s)"
  by (induction w s rule: words_from.induct) (auto simp: is_word_def)

lemma look_collapse_idem [simp]: "look_collapse (look_collapse s) = look_collapse s"
  unfolding look_collapse_def using words_join words_are_words by (metis list.pred_inject(1))

lemma split_on_not_Nil [simp]: "split_on x s \<noteq> []"
  by (cases s) (auto split: list.splits)

lemma split_on_app_space:
  "\<not> is_space x \<Longrightarrow> list_all is_space w \<Longrightarrow>
     split_on x (w @ s) = (w @ hd (split_on x s)) # tl (split_on x s)"
proof (induction w)
  case (Cons c w)
  then have "c \<noteq> x" by auto
  then show ?case using Cons by simp
qed simp

lemma split_on_rev: "split_on x (rev s) = rev (map rev (split_on x s))"
proof -
  have snoc: "split_on x (s @ [c]) = (if c = x then split_on x s @ [[]]
      else butlast (split_on x s) @ [last (split_on x s) @ [c]])" for s c
    by (induction s) (auto split: list.splits)
  show ?thesis
  proof (induction s)
    case (Cons c s)
    then show ?case
      by (cases "split_on x s") (auto simp: snoc butlast_append)
  qed simp
qed

lemma lstrip_spaces: "\<exists>w. s = w @ lstrip s \<and> list_all is_space w"
  unfolding lstrip_def by (metis list_all_iff set_takeWhileD takeWhile_dropWhile_id)

lemma strip_spaces_left: "list_all is_space w \<Longrightarrow> strip (w @ s) = strip s"
  unfolding strip_def lstrip_def by (induction w) auto

lemma strip_spaces_right: "list_all is_space w \<Longrightarrow> strip (s @ w) = strip s"
proof -
  assume w: "list_all is_space w"
  show ?thesis
  proof (cases "list_all is_space s")
    case True
    then have "lstrip s = []" "lstrip (s @ w) = []"
      using w unfolding lstrip_def by (simp_all add: dropWhile_eq_Nil_conv list_all_iff ball_Un)
    then show ?thesis by (simp add: strip_def)
  next
    case False
    then have "lstrip (s @ w) = lstrip s @ w"
      unfolding lstrip_def by (auto simp: list_all_iff)
    moreover have "lstrip (rev w @ t) = lstrip t" for t
      using w unfolding lstrip_def by (intro dropWhile_append2) (auto simp: list_all_iff)
    ultimately show ?thesis by (simp add: strip_def)
  qed
qed

lemma chord_of_strip: "parse_keys_chord (strip s) = parse_keys_chord s"
proof -
  have plus: "\<not> is_space 43" by (simp add: is_space_def)
  have left: "List.map_filter key_name (split_on 43 (lstrip s)) = List.map_filter key_name (split_on 43 s)" for s
  proof -
    obtain w where w: "s = w @ lstrip s" "list_all is_space w" using lstrip_spaces by blast
    have "split_on 43 s = (w @ hd (split_on 43 (lstrip s))) # tl (split_on 43 (lstrip s))"
      using split_on_app_space [OF plus w(2), of "lstrip s"] w(1) by simp
    moreover have "key_name (w @ v) = key_name v" for v using strip_spaces_left [OF w(2)] by (simp add: key_name_def)
    ultimately show ?thesis by (cases "split_on 43 (lstrip s)") (simp_all add: List.map_filter_def)
  qed
  have right: "List.map_filter key_name (split_on 43 (rev (lstrip (rev s)))) = List.map_filter key_name (split_on 43 s)" for s
  proof -
    obtain w where w: "rev s = w @ lstrip (rev s)" "list_all is_space w" using lstrip_spaces by blast
    let ?p = "split_on 43 (lstrip (rev s))"
    have p: "?p = hd ?p # tl ?p" by simp
    have key: "key_name (v @ rev w) = key_name v" for v
      using strip_spaces_right [of "rev w"] w(2) by (simp add: key_name_def)
    have "split_on 43 s = rev (map rev (split_on 43 (rev s)))" using split_on_rev [of 43 "rev s"] by simp
    also have "split_on 43 (rev s) = (w @ hd ?p) # tl ?p"
      using split_on_app_space [OF plus w(2), of "lstrip (rev s)"] w(1) by simp
    finally have s: "split_on 43 s = rev (map rev (tl ?p)) @ [rev (hd ?p) @ rev w]" by simp
    have "split_on 43 (rev (lstrip (rev s))) = rev (map rev (tl ?p)) @ [rev (hd ?p)]"
      by (subst split_on_rev) (subst p, simp del: hd_Cons_tl)
    then show ?thesis using s key by (simp add: List.map_filter_def)
  qed
  have "List.map_filter key_name (split_on 43 (strip s)) = List.map_filter key_name (split_on 43 s)"
    using right [of "lstrip s"] left [of s] by (simp add: strip_def)
  then show ?thesis by (simp add: parse_keys_chord_def)
qed


lemma dget_literal [simp]:
  "dget [] k = JNull" "dget ((k', v) # d) k = (if k' = k then v else dget d k)"
  "dget_or [] k w = w" "dget_or ((k', v) # d) k w = (if k' = k then v else dget_or d k w)"
  by (auto simp: dget_def dget_or_def)

text \<open>What a target is, and that its keys are read back.\<close>

lemma computer_target_cases:
  assumes "computer_target fi args bare xkey ykey ckey = Inr target"
  obtains "target = []" "bare"
  | c where "target = [(lit ''control'', JStr c)]" "strip c = c" "c \<noteq> []"
  | gx gy where "target = [(lit xkey, JInt gx), (lit ykey, JInt gy)]"
      "0 \<le> gx" "gx \<le> COMPUTER_GRID_MAX" "0 \<le> gy" "gy \<le> COMPUTER_GRID_MAX"
proof -
  have grid: "0 \<le> g \<and> g \<le> COMPUTER_GRID_MAX" if "computer_grid_int fi v = Inr g" for v g
    using that by (auto simp: computer_grid_int_def split: json.splits)
  show thesis
  proof (cases "dget args (lit ckey) = JNull")
    case False
    then show thesis using assms that(2) by (auto simp: computer_target_def split: json.splits)
  next
    case True
    then show thesis using assms that(1,3) grid
      by (auto simp: computer_target_def Let_def split: if_splits)
  qed
qed

lemma computer_target_again:
  assumes t: "computer_target fi args bare ''x'' ''y'' ''control'' = Inr target"
    and "map_of rest (lit ''control'') = None" "map_of rest (lit ''x'') = None" "map_of rest (lit ''y'') = None"
  shows "computer_target fi (target @ rest) bare ''x'' ''y'' ''control'' = Inr target"
  using t
proof (cases rule: computer_target_cases)
  case 1
  then show ?thesis using assms(2-) by (simp add: computer_target_def dget_def require_def)
next
  case (2 c)
  then show ?thesis by (simp add: computer_target_def dget_def require_def)
next
  case (3 gx gy)
  then show ?thesis using assms(2-) by (simp add: computer_target_def dget_def require_def computer_grid_int_def)
qed

lemma target_keys:
  assumes "computer_target fi args bare ''x'' ''y'' ''control'' = Inr target"
    and "k \<notin> {lit ''x'', lit ''y'', lit ''control''}"
  shows "dget (target @ rest) k = dget rest k" "dget_or (target @ rest) k v = dget_or rest k v"
  using assms(1) by (cases rule: computer_target_cases, use assms(2) in \<open>auto simp: dget_def dget_or_def\<close>)+

lemma norm_click_again: "norm_click fi args = Inr n \<Longrightarrow> norm_click fi n = Inr n"
proof -
  assume "norm_click fi args = Inr n"
  then obtain target button db where n: "n = target @ [(lit ''button'', JStr button), (lit ''double'', JBool db)]"
    and t: "computer_target fi args False ''x'' ''y'' ''control'' = Inr target"
    and b: "button \<in> set (map lit [''left'', ''right'', ''middle''])"
    by (auto simp: norm_click_def one_of_def split: json.splits)
  have "lower (strip button) = button" using b by (auto simp: lit_def strip_def lstrip_def lower_def lower_char_def is_space_def)
  then show ?thesis
    using computer_target_again [OF t, where rest = "[(lit ''button'', JStr button), (lit ''double'', JBool db)]"] b
    by (simp add: n norm_click_def one_of_def target_keys [OF t])
qed

lemma norm_type_text_again: "norm_type_text fi args = Inr n \<Longrightarrow> norm_type_text fi n = Inr n"
proof -
  assume "norm_type_text fi args = Inr n"
  then obtain target tx sb where n: "n = target @ [(lit ''text'', JStr tx), (lit ''submit'', JBool sb)]"
    and t: "computer_target fi args True ''x'' ''y'' ''control'' = Inr target"
    and b: "tx \<noteq> []" "length tx \<le> COMPUTER_TYPE_MAX_CHARS"
    by (auto simp: norm_type_text_def split: json.splits)
  then show ?thesis
    using computer_target_again [OF t, where rest = "[(lit ''text'', JStr tx), (lit ''submit'', JBool sb)]"]
    by (simp add: n norm_type_text_def target_keys [OF t])
qed

lemma norm_press_keys_again: "norm_press_keys fi args = Inr n \<Longrightarrow> norm_press_keys fi n = Inr n"
proof -
  assume "norm_press_keys fi args = Inr n"
  then obtain target keys where n: "n = target @ [(lit ''keys'', JStr (strip keys))]"
    and t: "computer_target fi args True ''x'' ''y'' ''control'' = Inr target"
    and b: "strip keys \<noteq> []" "\<not> blocked_chord (parse_keys_chord keys)"
      "length (filter (\<lambda>k. k \<notin> set KEY_MODIFIERS) (parse_keys_chord keys)) = 1"
    by (auto simp: norm_press_keys_def split: json.splits if_splits)
  then show ?thesis
    using computer_target_again [OF t, where rest = "[(lit ''keys'', JStr (strip keys))]"]
    by (simp add: n norm_press_keys_def target_keys [OF t] chord_of_strip)
qed

lemma norm_scroll_again: "norm_scroll fi args = Inr n \<Longrightarrow> norm_scroll fi n = Inr n"
proof -
  assume "norm_scroll fi args = Inr n"
  then obtain target d a where n: "n = target @ [(lit ''direction'', JStr d), (lit ''amount'', JInt a)]"
    and t: "computer_target fi args True ''x'' ''y'' ''control'' = Inr target"
    and b: "d \<in> set (map lit [''up'', ''down'', ''left'', ''right''])" "1 \<le> a" "a \<le> COMPUTER_SCROLL_MAX_AMOUNT"
    by (auto simp: norm_scroll_def one_of_def split: json.splits)
  have "lower (strip d) = d" using b by (auto simp: lit_def strip_def lstrip_def lower_def lower_char_def is_space_def)
  then show ?thesis
    using computer_target_again [OF t, where rest = "[(lit ''direction'', JStr d), (lit ''amount'', JInt a)]"] b
    by (simp add: n norm_scroll_def one_of_def target_keys [OF t])
qed

lemma norm_open_url_again: "norm_open_url args = Inr n \<Longrightarrow> norm_open_url n = Inr n"
  by (auto simp: norm_open_url_def split: json.splits)


lemma kinds_normal: "n \<in> set LOOK_KIND_NAMES \<Longrightarrow> lower (strip n) = n \<and> n \<noteq> []"
  by (auto simp: LOOK_KIND_NAMES_def lit_def strip_def lstrip_def lower_def lower_char_def is_space_def)

lemma look_call_args_again:
  assumes spec: "look_call_args fi window k l t OPEN_APP_WAIT_DEFAULT_MS named = Inr spec"
    and wait: "sp_kind spec \<noteq> None \<or> sp_label spec \<noteq> None \<or> sp_wait_window spec"
    and named: "named \<longleftrightarrow> (case window of JStr w \<Rightarrow> strip w \<noteq> [] | _ \<Rightarrow> False)"
  shows "\<exists>spec'. look_call_args fi (if sp_wait_window spec then window else JNull) (str_opt (sp_kind spec))
      (str_opt (sp_label spec)) (JInt (sp_timeout spec)) OPEN_APP_WAIT_DEFAULT_MS
      (case (if sp_wait_window spec then window else JNull) of JStr w \<Rightarrow> strip w \<noteq> [] | _ \<Rightarrow> False) = Inr spec'
    \<and> sp_kind spec' = sp_kind spec \<and> sp_label spec' = sp_label spec \<and> sp_timeout spec' = sp_timeout spec
    \<and> sp_wait_window spec' = sp_wait_window spec"
proof -
  have target: "\<exists>tg. look_window_target window = Inr tg \<and> (sp_wait_window spec \<longleftrightarrow> named \<and> tg \<noteq> Foreground)"
    using spec by (auto simp: look_call_args_def Let_def split: if_splits)
  have kind: "sp_kind spec = None \<or> (\<exists>n \<in> set LOOK_KIND_NAMES. sp_kind spec = Some n)"
    using spec by (auto simp: look_call_args_def Let_def nonempty_def split: if_splits json.splits)
  have label: "sp_label spec = None \<or> (\<exists>v. sp_label spec = Some (look_collapse v) \<and> look_collapse v \<noteq> [])"
    using spec by (auto simp: look_call_args_def Let_def nonempty_def split: if_splits json.splits)
  have time: "0 \<le> sp_timeout spec \<and> sp_timeout spec \<le> LOOK_WAIT_MAX_MS"
    using spec wait by (auto simp: look_call_args_def Let_def LOOK_WAIT_MAX_MS_def OPEN_APP_WAIT_DEFAULT_MS_def
        split: if_splits)
  obtain tg where tg: "look_window_target (if sp_wait_window spec then window else JNull) = Inr tg"
      "(case (if sp_wait_window spec then window else JNull) of JStr w \<Rightarrow> strip w \<noteq> [] | _ \<Rightarrow> False) \<and> tg \<noteq> Foreground
        \<longleftrightarrow> sp_wait_window spec"
    using target named by (cases "sp_wait_window spec") (auto simp: look_window_target_def)
  have k: "(case str_opt (sp_kind spec) of JNull \<Rightarrow> Inr None
       | JStr k \<Rightarrow> if k = [] then Inr None
           else let kind = nonempty (lower (strip k)) in
             require (case kind of None \<Rightarrow> True | Some n \<Rightarrow> n \<in> set LOOK_KIND_NAMES) (Inr kind)
       | _ \<Rightarrow> Inl ValueErr) = Inr (sp_kind spec)"
    using kind kinds_normal by (auto simp: str_opt_def nonempty_def Let_def require_def)
  have l: "(case str_opt (sp_label spec) of JNull \<Rightarrow> Inr None
       | JStr l \<Rightarrow> if l = [] then Inr None else Inr (nonempty (look_collapse l))
       | _ \<Rightarrow> Inl ValueErr) = (Inr (sp_label spec) :: ustr option checked)"
    using label by (auto simp: str_opt_def nonempty_def)
  have w: "\<not> \<not> (sp_kind spec \<noteq> None \<or> sp_label spec \<noteq> None \<or> sp_wait_window spec)" using wait by blast
  have t: "(if JInt (sp_timeout spec) = JNull then Inr OPEN_APP_WAIT_DEFAULT_MS
      else check (to_int fi (JInt (sp_timeout spec))) (\<lambda>t. require (0 \<le> t) (Inr (min t LOOK_WAIT_MAX_MS))))
      = (Inr (sp_timeout spec) :: int checked)"
    using time by (simp add: require_def)
  show ?thesis unfolding look_call_args_def Let_def tg(1) k [unfolded Let_def] l check.simps tg(2) if_not_P [OF w] t
    by (intro exI conjI, rule refl) simp_all
qed

lemma norm_open_app_again: "norm_open_app fi args = Inr n \<Longrightarrow> norm_open_app fi n = Inr n"
proof -
  assume "norm_open_app fi args = Inr n"
  then have norm: "norm_open_app fi args = Inr n" .
  define window where "window = dget args (lit ''window'')"
  obtain name0 where name: "dget args (lit ''name'') = JStr name0"
    using norm by (cases "dget args (lit ''name'')") (simp_all add: norm_open_app_def)
  have app: "strip name0 \<noteq> []" "length (strip name0) \<le> COMPUTER_APP_NAME_MAX_CHARS"
    using norm by (simp_all add: norm_open_app_def name Let_def)
  define E :: "ustr checked" where "E = (case dget_or args (lit ''args'') (JStr []) of
      JNull \<Rightarrow> Inr [] | JStr e \<Rightarrow> Inr (strip e) | _ \<Rightarrow> Inl ValueErr)"
  obtain extra spec where e: "E = Inr extra"
    and spec: "look_call_args fi window (dget args (lit ''wait_kind'')) (dget args (lit ''wait_label''))
         (dget args (lit ''timeout_ms'')) OPEN_APP_WAIT_DEFAULT_MS
         (case window of JStr w \<Rightarrow> strip w \<noteq> [] | _ \<Rightarrow> False) = Inr spec"
    and n: "n = [(lit ''name'', JStr (strip name0)), (lit ''args'', JStr extra)] @
      (if sp_kind spec \<noteq> None \<or> sp_label spec \<noteq> None \<or> sp_wait_window spec
       then [(lit ''window'', if sp_wait_window spec then window else JNull),
             (lit ''wait_kind'', str_opt (sp_kind spec)), (lit ''wait_label'', str_opt (sp_label spec)),
             (lit ''timeout_ms'', JInt (sp_timeout spec)), (lit ''wait_window'', JBool (sp_wait_window spec))]
       else [])"
    using norm unfolding norm_open_app_def name json.case Let_def window_def [symmetric] E_def [symmetric]
    unfolding require_Inr check_Inr sum.inject by blast
  have [simp]: "strip [] = []" by (simp add: strip_def lstrip_def)
  have extra: "strip extra = extra" using e by (auto simp: E_def split: json.splits)
  show ?thesis
  proof (cases "sp_kind spec \<noteq> None \<or> sp_label spec \<noteq> None \<or> sp_wait_window spec")
    case True
    then obtain spec' where
      again: "look_call_args fi (if sp_wait_window spec then window else JNull) (str_opt (sp_kind spec))
        (str_opt (sp_label spec)) (JInt (sp_timeout spec)) OPEN_APP_WAIT_DEFAULT_MS
        (case (if sp_wait_window spec then window else JNull) of JStr w \<Rightarrow> strip w \<noteq> [] | _ \<Rightarrow> False) = Inr spec'"
      and same: "sp_kind spec' = sp_kind spec" "sp_label spec' = sp_label spec"
        "sp_timeout spec' = sp_timeout spec" "sp_wait_window spec' = sp_wait_window spec"
      using look_call_args_again [OF spec] by blast
    show ?thesis unfolding n if_P [OF True] norm_open_app_def
      by (simp add: app extra again same Let_def) (use True in auto)
  next
    case False
    show ?thesis unfolding n if_not_P [OF False] norm_open_app_def
      by (simp add: app extra look_call_args_def look_window_target_def Let_def)
  qed
qed

text \<open>
  The machine that executes an action sees the arguments that were approved: normalising what
  was staged gives it back unchanged, for every tool but drag.\<close>

lemma second_check_keeps_the_action:
  assumes "normalize_computer_args fi name args = Inr n" and "name \<noteq> lit ''drag''"
  shows "normalize_computer_args fi name n = Inr n"
  using assms norm_click_again norm_type_text_again norm_press_keys_again norm_scroll_again norm_open_app_again
    norm_open_url_again
  by (auto simp: normalize_computer_args_def split: if_splits)

lemma second_check_keeps_the_action_witness:
  "normalize_computer_args (\<lambda>_. Inl Crash) (lit ''press_keys'') [(lit ''keys'', JStr (lit ''Ctrl + S''))]
     = Inr [(lit ''keys'', JStr (lit ''Ctrl + S''))]"
proof -
  have "normalize_computer_args (\<lambda>_. Inl Crash) (lit ''press_keys'') [(lit ''keys'', JStr (lit '' Ctrl + S''))]
      = Inr [(lit ''keys'', JStr (lit ''Ctrl + S''))]"
    by code_simp
  from second_check_keeps_the_action [OF this] show ?thesis by simp
qed

text \<open>
  A drag that passed the check and was approved is refused by the machine that should execute
  it: the staged form has the keys from and to, which the second check does not read.\<close>

lemma approved_drag_is_refused:
  assumes "normalize_computer_args fi (lit ''drag'') args = Inr n"
  shows "normalize_computer_args fi (lit ''drag'') n = Inl ValueErr"
proof -
  obtain src dst where "n = [(lit ''from'', JObj src), (lit ''to'', JObj dst)]"
    using assms by (auto simp: normalize_computer_args_def norm_drag_def)
  then show ?thesis
    by (simp add: normalize_computer_args_def norm_drag_def computer_target_def require_def)
qed

lemma approved_drag_is_refused_witness:
  "\<exists>n. normalize_computer_args (\<lambda>_. Inl Crash) (lit ''drag'')
       [(lit ''x1'', JInt 1), (lit ''y1'', JInt 2), (lit ''x2'', JInt 3), (lit ''y2'', JInt 4)] = Inr n
     \<and> normalize_computer_args (\<lambda>_. Inl Crash) (lit ''drag'') n = Inl ValueErr"
proof -
  have "normalize_computer_args (\<lambda>_. Inl Crash) (lit ''drag'')
       [(lit ''x1'', JInt 1), (lit ''y1'', JInt 2), (lit ''x2'', JInt 3), (lit ''y2'', JInt 4)]
     = Inr [(lit ''from'', JObj [(lit ''x1'', JInt 1), (lit ''y1'', JInt 2)]),
            (lit ''to'', JObj [(lit ''x2'', JInt 3), (lit ''y2'', JInt 4)])]"
    by code_simp
  with approved_drag_is_refused [OF this] show ?thesis by blast
qed

end
