(* ===== verification/Tickets.thy ===== *)
theory Tickets
  imports Prelude
begin

text \<open>
  The interface of a store of single-use tokens. Four components of the gateway promise it: the
  staged actions that wait for confirmation (\<open>PendingActionStore\<close>), the approvals of suspended
  workflows (\<open>ApprovalStore\<close>), the authorization codes of the OAuth server and the jobs that wait
  for a machine's answer (\<open>AgentRegistry\<close>). A token is issued with a payload; redeeming it gives the payload back and
  takes the token out; nothing else puts a token in.
\<close>

text \<open>Looking a row up by its key.\<close>

lemma find_key_iff: "distinct (map key xs) \<Longrightarrow> find (\<lambda>x. key x = a) xs = Some x \<longleftrightarrow> x \<in> set xs \<and> key x = a"
  by (induction xs) (auto simp: image_iff)

locale ticket_box =
  fixes ok :: "'s \<Rightarrow> bool"
    and holds :: "'s \<Rightarrow> ustr \<Rightarrow> 'a option"
    and issue :: "'q \<Rightarrow> ustr \<Rightarrow> 'x \<Rightarrow> 's \<Rightarrow> 's"
    and made :: "'q \<Rightarrow> 'x \<Rightarrow> 'a"
    and redeem :: "'p \<Rightarrow> ustr \<Rightarrow> 's \<Rightarrow> 'a option \<times> 's"
  assumes ok_issue: "ok s \<Longrightarrow> ok (issue q t x s)"
    and ok_redeem: "ok s \<Longrightarrow> redeem p t s = (r, s') \<Longrightarrow> ok s'"
    and holds_issue: "ok s \<Longrightarrow> holds (issue q t x s) t' = Some a \<Longrightarrow> (t' = t \<and> a = made q x) \<or> holds s t' = Some a"
    and redeem_gives: "ok s \<Longrightarrow> redeem p t s = (Some a, s') \<Longrightarrow> holds s t = Some a \<and> holds s' t = None"
    and redeem_keeps: "ok s \<Longrightarrow> redeem p t s = (r, s') \<Longrightarrow> holds s' t' = Some a \<Longrightarrow> holds s t' = Some a"
begin

text \<open>
  The invariant of a run: \<open>issued\<close> are the tokens with their payloads, \<open>used\<close> the tokens that were
  redeemed. What the store holds was issued and is not used.
\<close>

definition accounted :: "'s \<Rightarrow> (ustr \<times> 'a) set \<Rightarrow> ustr set \<Rightarrow> bool" where
  "accounted s issued used \<longleftrightarrow> ok s \<and> used \<subseteq> fst ` issued
     \<and> (\<forall>t a. holds s t = Some a \<longrightarrow> (t, a) \<in> issued \<and> t \<notin> used)"

lemma accounted_start: "ok s \<Longrightarrow> (\<And>t. holds s t = None) \<Longrightarrow> accounted s {} {}"
  by (simp add: accounted_def)

lemma accounted_issue:
  assumes "accounted s issued used" and "t \<notin> fst ` issued"
  shows "accounted (issue q t x s) (insert (t, made q x) issued) used"
proof -
  have "ok (issue q t x s)" using assms(1) ok_issue by (simp add: accounted_def)
  moreover have "(t', a) \<in> insert (t, made q x) issued \<and> t' \<notin> used"
    if "holds (issue q t x s) t' = Some a" for t' a
    using that assms holds_issue [of s q t x t' a] by (auto simp: accounted_def)
  ultimately show ?thesis using assms(1) by (auto simp: accounted_def)
qed

lemma accounted_redeem:
  assumes "accounted s issued used" and "redeem p t s = (Some a, s')"
  shows "accounted s' issued (insert t used)" "(t, a) \<in> issued" "t \<notin> used"
proof -
  have ok: "ok s" using assms(1) by (simp add: accounted_def)
  have got: "holds s t = Some a" "holds s' t = None" using redeem_gives [OF ok assms(2)] by auto
  then show issued: "(t, a) \<in> issued" and "t \<notin> used" using assms(1) by (auto simp: accounted_def)
  have "(t', b) \<in> issued \<and> t' \<notin> insert t used" if "holds s' t' = Some b" for t' b
    using that got redeem_keeps [OF ok assms(2) that] assms(1) by (auto simp: accounted_def)
  moreover have "used \<subseteq> fst ` issued" using assms(1) by (simp add: accounted_def)
  moreover have "t \<in> fst ` issued" using issued by (rule rev_image_eqI) simp
  ultimately show "accounted s' issued (insert t used)"
    using ok_redeem [OF ok assms(2)] by (simp add: accounted_def)
qed

lemma accounted_shrink:
  assumes "accounted s issued used" and "ok s'" and "\<And>t a. holds s' t = Some a \<Longrightarrow> holds s t = Some a"
  shows "accounted s' issued used"
  using assms by (simp add: accounted_def)

lemma accounted_refuse: "accounted s issued used \<Longrightarrow> redeem p t s = (r, s') \<Longrightarrow> accounted s' issued used"
  using accounted_shrink ok_redeem redeem_keeps by (metis accounted_def)

end

end
