(* ===== verification/Staging.thy ===== *)
theory Staging
  imports Denylist ComputerArgs Tickets
begin

text \<open>
  Staged actions (\<open>PendingActionStore\<close>, the staging functions and \<open>confirm_action\<close> of
  \<open>invincible/core/tool_executor.py\<close>): nothing that changes the machine runs before its token is
  confirmed. The clock is an explicit argument (seconds); the token is an argument of \<open>put\<close>, with
  the assumption, where a theorem needs it, that \<open>secrets.token_urlsafe\<close> does not repeat. The
  persistence of the store is a list of scheduled writes to the table \<open>pending_actions\<close>, each of
  which is carried out or fails later.
\<close>

record pending_record =
  pr_type :: ustr
  pr_args :: pydict
  pr_created :: int
  pr_owner :: "int option"

datatype db_write = InsertRow ustr ustr pydict int | DeleteRows "ustr list"

record pending_store =
  pending :: "(ustr \<times> pending_record) list"
  attached :: bool
  writes :: "db_write list"

definition OWNER_SUBJECT_KEY :: ustr where
  "OWNER_SUBJECT_KEY = lit ''_owner_subject''"

definition persist :: "db_write \<Rightarrow> pending_store \<Rightarrow> pending_store" where
  "persist w s = (if attached s then s\<lparr>writes := writes s @ [w]\<rparr> else s)"

definition sweep :: "int \<Rightarrow> int \<Rightarrow> pending_store \<Rightarrow> pending_store" where
  "sweep ttl now s =
     (let expired = map fst (filter (\<lambda>(t, r). pr_created r < now - ttl) (pending s));
          s' = s\<lparr>pending := filter (\<lambda>(t, r). \<not> pr_created r < now - ttl) (pending s)\<rparr>
      in if expired \<noteq> [] then persist (DeleteRows expired) s' else s')"

fun owner_json :: "int option \<Rightarrow> json" where
  "owner_json None = JNull"
| "owner_json (Some u) = JInt u"

definition put :: "int \<Rightarrow> int \<Rightarrow> ustr \<Rightarrow> ustr \<Rightarrow> pydict \<Rightarrow> int option \<Rightarrow> pending_store \<Rightarrow> pending_store" where
  "put ttl now token action_type args owner s =
     (let s1 = sweep ttl now s;
          s2 = s1\<lparr>pending := dset token \<lparr>pr_type = action_type, pr_args = args, pr_created = now,
                                         pr_owner = owner\<rparr> (pending s1)\<rparr>
      in persist (InsertRow token action_type (dset OWNER_SUBJECT_KEY (owner_json owner) args) now) s2)"

definition discard :: "ustr \<Rightarrow> pending_store \<Rightarrow> pending_store" where
  "discard token s = persist (DeleteRows [token]) (s\<lparr>pending := ddel token (pending s)\<rparr>)"

text \<open>The subject check that \<open>take\<close> and \<open>peek_type\<close> share.\<close>

definition subject_ok :: "int option \<Rightarrow> int option \<Rightarrow> bool" where
  "subject_ok owner requester \<longleftrightarrow>
     \<not> (owner = None \<and> requester \<noteq> None) \<and> \<not> (owner \<noteq> None \<and> requester \<noteq> owner)"

definition take_pending ::
  "int \<Rightarrow> int \<Rightarrow> ustr \<Rightarrow> int option \<Rightarrow> pending_store \<Rightarrow> pending_record option \<times> pending_store" where
  "take_pending ttl now token requester s =
     (let s1 = sweep ttl now s in
      case map_of (pending s1) token of
        None \<Rightarrow> (None, s1)
      | Some r \<Rightarrow>
          if now - pr_created r > ttl then (None, discard token s1)
          else if \<not> subject_ok (pr_owner r) requester then (None, s1)
          else (Some r, discard token s1))"

definition peek_type :: "int \<Rightarrow> int \<Rightarrow> ustr \<Rightarrow> int option \<Rightarrow> pending_store \<Rightarrow> ustr option \<times> pending_store" where
  "peek_type ttl now token requester s =
     (let s1 = sweep ttl now s in
      (case map_of (pending s1) token of
         None \<Rightarrow> None
       | Some r \<Rightarrow> if now - pr_created r > ttl then None
                   else if \<not> subject_ok (pr_owner r) requester then None else Some (pr_type r), s1))"

section \<open>Persistence\<close>

type_synonym pending_row = "ustr \<times> ustr \<times> pydict \<times> int"

fun exec_write :: "db_write \<Rightarrow> pending_row list \<Rightarrow> pending_row list" where
  "exec_write (InsertRow t ty args created) rows = rows @ [(t, ty, args, created)]"
| "exec_write (DeleteRows ts) rows = filter (\<lambda>(t, _). t \<notin> set ts) rows"

definition json_owner :: "json \<Rightarrow> int option" where
  "json_owner v = (case v of JInt u \<Rightarrow> Some u | _ \<Rightarrow> None)"

definition load_row :: "pending_row \<Rightarrow> pending_store \<Rightarrow> pending_store" where
  "load_row row s = (case row of (t, ty, args, created) \<Rightarrow>
     s\<lparr>pending := dset t \<lparr>pr_type = ty, pr_args = ddel OWNER_SUBJECT_KEY args, pr_created = created,
                          pr_owner = json_owner (dget args OWNER_SUBJECT_KEY)\<rparr> (pending s)\<rparr>)"

definition load_persisted :: "int \<Rightarrow> int \<Rightarrow> pending_row list \<Rightarrow> pending_store \<Rightarrow> pending_store" where
  "load_persisted ttl now rows s = (if attached s then sweep ttl now (fold load_row rows s) else s)"

definition new_store :: "bool \<Rightarrow> pending_store" where
  "new_store persistent = \<lparr>pending = [], attached = persistent, writes = []\<rparr>"

section \<open>Staging and confirming\<close>

text \<open>
  What a staging call asks for. A refused call stages nothing: a denylisted command or path, or
  arguments of a desktop tool that do not normalise.
\<close>

datatype request =
    ExecuteBash ustr json
  | WriteFile ustr ustr
  | EditFile ustr ustr ustr bool
  | Computer ustr pydict

record checks =
  alnum :: "int \<Rightarrow> bool"
  fs :: paths
  to_integer :: float_int

definition staged_action :: "checks \<Rightarrow> request \<Rightarrow> (ustr \<times> pydict) checked" where
  "staged_action c r = (case r of
       ExecuteBash command timeout \<Rightarrow>
         if check_denylist (alnum c) command then Inl Blocked
         else Inr (lit ''execute_bash'', [(lit ''command'', JStr command), (lit ''timeout'', timeout)])
     | WriteFile path content \<Rightarrow>
         if check_write_denylist (fs c) path then Inl Blocked
         else Inr (lit ''write_file'', [(lit ''path'', JStr path), (lit ''content'', JStr content)])
     | EditFile path old new all \<Rightarrow>
         if check_edit_denylist (fs c) path then Inl Blocked
         else Inr (lit ''edit_file'', [(lit ''path'', JStr path), (lit ''old_string'', JStr old),
                (lit ''new_string'', JStr new), (lit ''replace_all'', JBool all)])
     | Computer name args \<Rightarrow>
         check (normalize_computer_args (to_integer c) name args) (\<lambda>n. Inr (name, n)))"

definition stage ::
  "checks \<Rightarrow> int \<Rightarrow> int \<Rightarrow> ustr \<Rightarrow> request \<Rightarrow> int option \<Rightarrow> pending_store \<Rightarrow> ustr checked \<times> pending_store" where
  "stage c ttl now token r owner s = (case staged_action c r of
       Inl e \<Rightarrow> (Inl e, s)
     | Inr (ty, args) \<Rightarrow> (Inr token, put ttl now token ty args owner s))"

datatype resolution =
    NotFound
  | Declined
  | NoDesktop
  | Forwarded ustr pydict
  | RanLocally ustr pydict
  | UnknownType ustr

definition confirm_action ::
  "bool \<Rightarrow> int \<Rightarrow> int \<Rightarrow> ustr \<Rightarrow> bool \<Rightarrow> int option \<Rightarrow> pending_store \<Rightarrow> resolution \<times> pending_store" where
  "confirm_action has_executor ttl now token approve requester s =
     (case take_pending ttl now token requester s of
        (None, s') \<Rightarrow> (NotFound, s')
      | (Some r, s') \<Rightarrow>
          (if \<not> approve then Declined
           else if pr_type r \<in> set COMPUTER_TOOLS then
             (if \<not> has_executor then NoDesktop else Forwarded (pr_type r) (pr_args r))
           else if pr_type r \<in> set (map lit [''execute_bash'', ''write_file'', ''edit_file'', ''expose_port''])
                   \<and> has_executor then Forwarded (pr_type r) (pr_args r)
           else if pr_type r \<in> set (map lit [''execute_bash'', ''write_file'', ''edit_file''])
           then RanLocally (pr_type r) (pr_args r)
           else UnknownType (pr_type r), s'))"

section \<open>Runs\<close>

text \<open>
  A run of the server, with what each call did. Staging uses a token that was never used before.
\<close>

datatype event =
    Staged int ustr request "int option"
  | Refused request
  | Resolved int ustr bool "int option" resolution
  | Peeked

definition tokens_staged :: "event list \<Rightarrow> ustr set" where
  "tokens_staged tr = {t. \<exists>now r owner. Staged now t r owner \<in> set tr}"

inductive run :: "checks \<Rightarrow> int \<Rightarrow> event list \<Rightarrow> pending_store \<Rightarrow> bool" for c ttl where
  start: "run c ttl [] (new_store persistent)"
| staged: "run c ttl tr s \<Longrightarrow> token \<notin> tokens_staged tr \<Longrightarrow> stage c ttl now token r owner s = (Inr tok, s')
    \<Longrightarrow> run c ttl (tr @ [Staged now token r owner]) s'"
| refused: "run c ttl tr s \<Longrightarrow> stage c ttl now token r owner s = (Inl e, s')
    \<Longrightarrow> run c ttl (tr @ [Refused r]) s'"
| confirm: "run c ttl tr s \<Longrightarrow> confirm_action ex ttl now token approve requester s = (res, s')
    \<Longrightarrow> run c ttl (tr @ [Resolved now token approve requester res]) s'"
| peek: "run c ttl tr s \<Longrightarrow> peek_type ttl now token requester s = (ty, s')
    \<Longrightarrow> run c ttl (tr @ [Peeked]) s'"

inductive_cases run_snocE: "run c ttl (tr @ [e]) s"


section \<open>The store keeps the token contract\<close>

definition keys_ok :: "pending_store \<Rightarrow> bool" where
  "keys_ok s \<longleftrightarrow> distinct (map fst (pending s))"

lemma pending_persist [simp]: "pending (persist w s) = pending s"
  by (simp add: persist_def)

lemma pending_sweep: "pending (sweep ttl now s) = filter (\<lambda>(t, r). \<not> pr_created r < now - ttl) (pending s)"
  by (simp add: sweep_def Let_def)

lemma pending_put: "pending (put ttl now t ty args owner s)
    = dset t \<lparr>pr_type = ty, pr_args = args, pr_created = now, pr_owner = owner\<rparr> (pending (sweep ttl now s))"
  by (simp add: put_def Let_def)

lemma pending_discard [simp]: "pending (discard t s) = ddel t (pending s)"
  by (simp add: discard_def)

lemma keys_ok_sweep: "keys_ok s \<Longrightarrow> keys_ok (sweep ttl now s)"
  by (simp add: keys_ok_def pending_sweep distinct_map_filter)

lemma map_of_filter_Some: "distinct (map fst xs) \<Longrightarrow> map_of (filter P xs) k = Some v \<Longrightarrow> map_of xs k = Some v"
  by (simp add: distinct_map_filter)

lemma holds_sweep: "keys_ok s \<Longrightarrow> map_of (pending (sweep ttl now s)) t = Some r \<Longrightarrow> map_of (pending s) t = Some r"
  unfolding keys_ok_def pending_sweep by (rule map_of_filter_Some)

lemma keys_ok_take: "keys_ok s \<Longrightarrow> take_pending ttl now t requester s = (r, s') \<Longrightarrow> keys_ok s'"
  using keys_ok_sweep [of s ttl now]
  by (auto simp: take_pending_def Let_def keys_ok_def distinct_keys_ddel split: option.splits if_splits)

lemma take_keeps: "keys_ok s \<Longrightarrow> take_pending ttl now t requester s = (r, s')
    \<Longrightarrow> map_of (pending s') t' = Some a \<Longrightarrow> map_of (pending s) t' = Some a"
  using holds_sweep [of s ttl now t' a]
  by (auto simp: take_pending_def Let_def map_of_ddel split: option.splits if_splits)

lemma take_gives:
  assumes "keys_ok s" and "take_pending ttl now t requester s = (Some r, s')"
  shows "map_of (pending s) t = Some r" "map_of (pending s') t = None" "now - pr_created r \<le> ttl"
    "subject_ok (pr_owner r) requester"
  using assms holds_sweep [OF assms(1), of ttl now t]
  by (auto simp: take_pending_def Let_def map_of_ddel split: option.splits if_splits)

type_synonym clock = "int \<times> int"

definition made_record :: "clock \<Rightarrow> ustr \<times> pydict \<times> int option \<Rightarrow> pending_record" where
  "made_record q x = (case x of (ty, args, owner) \<Rightarrow>
     \<lparr>pr_type = ty, pr_args = args, pr_created = snd q, pr_owner = owner\<rparr>)"

interpretation pending_box: ticket_box keys_ok "\<lambda>s. map_of (pending s)"
  "\<lambda>(q :: clock) t x s. case x of (ty, args, owner) \<Rightarrow> put (fst q) (snd q) t ty args owner s"
  made_record "\<lambda>(p :: clock \<times> int option) t s. take_pending (fst (fst p)) (snd (fst p)) t (snd p) s"
proof (unfold_locales, goal_cases)
  case (1 s q t x)
  then show ?case using keys_ok_sweep [of s "fst q" "snd q"]
    by (auto simp: keys_ok_def pending_put distinct_keys_dset split: prod.splits)
next
  case (2 s p t r s')
  then show ?case using keys_ok_take by blast
next
  case (3 s q t x t' a)
  then show ?case using holds_sweep [OF 3(1), of "fst q" "snd q" t' a]
    by (auto simp: pending_put map_of_dset made_record_def split: prod.splits if_splits)
next
  case (4 s p t a s')
  then show ?case using take_gives by blast
next
  case (5 s p t r s' t' a)
  then show ?case using take_keeps by blast
qed


section \<open>What a run can do\<close>

definition effect_of :: "resolution \<Rightarrow> (ustr \<times> pydict) option" where
  "effect_of res = (case res of Forwarded ty args \<Rightarrow> Some (ty, args) | RanLocally ty args \<Rightarrow> Some (ty, args)
     | _ \<Rightarrow> None)"

definition resolves :: "ustr \<Rightarrow> event \<Rightarrow> bool" where
  "resolves t e = (case e of Resolved _ t' _ _ res \<Rightarrow> t' = t \<and> res \<noteq> NotFound | _ \<Rightarrow> False)"

lemma resolves_simps [simp]:
  "\<not> resolves t (Staged now t' r owner)" "\<not> resolves t (Refused r)" "\<not> resolves t Peeked"
  "resolves t (Resolved now t' approve requester res) \<longleftrightarrow> t' = t \<and> res \<noteq> NotFound"
  by (simp_all add: resolves_def)

definition issued_by :: "checks \<Rightarrow> event list \<Rightarrow> (ustr \<times> pending_record) set" where
  "issued_by c tr = {(t, made_record (0, now) (ty, args, owner)) | t now ty args owner.
     \<exists>r. Staged now t r owner \<in> set tr \<and> staged_action c r = Inr (ty, args)}"

definition used_in :: "event list \<Rightarrow> ustr set" where
  "used_in tr = {t. \<exists>e \<in> set tr. resolves t e}"

lemma made_record_clock: "made_record (ttl, now) x = made_record (0, now) x"
  by (simp add: made_record_def)

lemma issued_by_snoc:
  "issued_by c (tr @ [Refused r]) = issued_by c tr"
  "issued_by c (tr @ [Peeked]) = issued_by c tr"
  "issued_by c (tr @ [Resolved now t approve requester res]) = issued_by c tr"
  "staged_action c r = Inr (ty, args) \<Longrightarrow> issued_by c (tr @ [Staged now t r owner])
     = insert (t, made_record (0, now) (ty, args, owner)) (issued_by c tr)"
  unfolding issued_by_def by fastforce+

lemma used_in_snoc:
  "used_in (tr @ [e]) = used_in tr \<union> {t. resolves t e}"
  by (auto simp: used_in_def)

lemma tokens_issued: "fst ` issued_by c tr \<subseteq> tokens_staged tr"
  unfolding issued_by_def tokens_staged_def by fastforce

lemma confirm_cases:
  assumes "confirm_action ex ttl now t approve requester s = (res, s')"
  obtains "take_pending ttl now t requester s = (None, s')" "res = NotFound"
  | r where "take_pending ttl now t requester s = (Some r, s')" "res \<noteq> NotFound"
      "effect_of res \<noteq> None \<Longrightarrow> approve \<and> effect_of res = Some (pr_type r, pr_args r)"
  using assms by (auto simp: confirm_action_def effect_of_def split: prod.splits option.splits if_splits)

text \<open>The ticket store's invariant along a run, and that a token resolves once.\<close>

lemma run_accounted:
  assumes "run c ttl tr s"
  shows "pending_box.accounted s (issued_by c tr) (used_in tr)
    \<and> (\<forall>t. length (filter (resolves t) tr) \<le> 1)"
  using assms
proof (induction rule: run.induct)
  case (start persistent)
  have "pending_box.accounted (new_store persistent) {} {}"
    by (rule pending_box.accounted_start) (simp_all add: new_store_def keys_ok_def)
  then show ?case by (simp add: issued_by_def used_in_def)
next
  case (staged tr s token now r owner tok s')
  then obtain ty args where r: "staged_action c r = Inr (ty, args)" "s' = put ttl now token ty args owner s"
    by (auto simp: stage_def split: sum.splits prod.splits)
  have "token \<notin> fst ` issued_by c tr" using staged(2) tokens_issued by blast
  then have "pending_box.accounted s' (insert (token, made_record (0, now) (ty, args, owner)) (issued_by c tr)) (used_in tr)"
    using pending_box.accounted_issue [of s "issued_by c tr" "used_in tr" token "(ttl, now)" "(ty, args, owner)"]
      staged.IH r(2) by (simp add: made_record_clock [of ttl])
  then show ?case using staged.IH by (simp add: issued_by_snoc(4) [OF r(1)] used_in_snoc)
next
  case (refused tr s now token r owner e s')
  then have "s' = s" by (auto simp: stage_def split: sum.splits prod.splits)
  then show ?case using refused.IH by (simp add: issued_by_snoc used_in_snoc)
next
  case (confirm tr s ex now token approve requester res s')
  from confirm(2) show ?case
  proof (cases rule: confirm_cases)
    case 1
    then have "pending_box.accounted s' (issued_by c tr) (used_in tr)"
      using pending_box.accounted_refuse [of s _ _ "((ttl, now), requester)" token None s'] confirm.IH by simp
    then show ?thesis using confirm.IH 1 by (simp add: issued_by_snoc used_in_snoc)
  next
    case (2 r)
    then have red: "pending_box.accounted s' (issued_by c tr) (insert token (used_in tr))" "token \<notin> used_in tr"
      using pending_box.accounted_redeem [of s "issued_by c tr" "used_in tr" "((ttl, now), requester)" token r s']
        confirm.IH by simp_all
    have none: "filter (resolves token) tr = []"
      using red(2) by (auto simp: used_in_def filter_empty_conv)
    have "{t. resolves t (Resolved now token approve requester res)} = {token}"
      using 2(2) by auto
    then show ?thesis using confirm.IH red(1) none 2(2)
      by (auto simp: issued_by_snoc used_in_snoc)
  qed
next
  case (peek tr s now token requester ty s')
  then have s': "s' = sweep ttl now s" by (simp add: peek_type_def Let_def)
  have ok: "keys_ok s" using peek.IH by (simp add: pending_box.accounted_def)
  have "pending_box.accounted s' (issued_by c tr) (used_in tr)"
    using pending_box.accounted_shrink [of s "issued_by c tr" "used_in tr" s'] peek.IH
      keys_ok_sweep [OF ok] holds_sweep [OF ok] by (simp add: s')
  then show ?case using peek.IH by (simp add: issued_by_snoc used_in_snoc)
qed

text \<open>
  C1: nothing runs that was not approved: in every run, each effect comes from an approving
  confirmation by the very subject who staged the action, of exactly the action that passed the
  checks, no later than the token's lifetime; and a token resolves at most once.\<close>

theorem only_approved_actions_run:
  assumes "run c ttl tr s"
  shows "length (filter (resolves t) tr) \<le> 1 \<and>
    (Resolved now t approve requester res \<in> set tr \<and> effect_of res = Some (ty, args) \<longrightarrow>
       approve \<and> (\<exists>now0 r. Staged now0 t r requester \<in> set tr \<and> staged_action c r = Inr (ty, args)
                            \<and> now - now0 \<le> ttl))"
proof -
  have "approve \<and> (\<exists>now0 r. Staged now0 t r requester \<in> set tr \<and> staged_action c r = Inr (ty, args) \<and> now - now0 \<le> ttl)"
    if "Resolved now t approve requester res \<in> set tr" "effect_of res = Some (ty, args)"
    using assms that
  proof (induction rule: run.induct)
    case (confirm tr s ex now' token approve' requester' res' s')
    show ?case
    proof (cases "Resolved now t approve requester res \<in> set tr")
      case True
      then show ?thesis using confirm by auto
    next
      case False
      then have same: "now' = now" "token = t" "approve' = approve" "requester' = requester" "res' = res"
        using confirm.prems by auto
      from confirm(2) [unfolded same] show ?thesis
      proof (cases rule: confirm_cases)
        case (2 r)
        have acc: "pending_box.accounted s (issued_by c tr) (used_in tr)" using run_accounted [OF confirm(1)] by blast
        then have ok: "keys_ok s" by (simp add: pending_box.accounted_def)
        have "(t, r) \<in> issued_by c tr"
          using pending_box.accounted_redeem(2) [OF acc, of "((ttl, now), requester)" t r s'] 2(1) by simp
        then obtain now0 ty' args' owner q where q: "Staged now0 t q owner \<in> set tr"
            "staged_action c q = Inr (ty', args')" "r = made_record (0, now0) (ty', args', owner)"
          by (auto simp: issued_by_def)
        moreover have "owner = requester" "now - now0 \<le> ttl"
          using take_gives(3,4) [OF ok 2(1)] q(3) by (auto simp: made_record_def subject_ok_def)
        ultimately show ?thesis using 2(3) confirm.prems(2) by (auto simp: made_record_def)
      qed (use confirm.prems in \<open>simp add: effect_of_def\<close>)
    qed
  qed auto
  then show ?thesis using run_accounted [OF assms] by blast
qed


lemma only_approved_actions_run_witness:
  "\<exists>tr s. run \<lparr>alnum = \<lambda>_. False, fs = sample_paths, to_integer = \<lambda>_. Inl Crash\<rparr> 600 tr s
     \<and> Resolved 5 [1] True (Some 7) (RanLocally (lit ''write_file'')
          [(lit ''path'', JStr (lit ''other'')), (lit ''content'', JStr [])]) \<in> set tr
     \<and> length (filter (resolves [1]) tr) \<le> 1"
proof -
  let ?c = "\<lparr>alnum = \<lambda>_. False, fs = sample_paths, to_integer = \<lambda>_. Inl Crash\<rparr>"
  let ?args = "[(lit ''path'', JStr (lit ''other'')), (lit ''content'', JStr [])]"
  let ?r = "WriteFile (lit ''other'') []"
  let ?s = "put 600 0 [1] (lit ''write_file'') ?args (Some 7) (new_store False)"
  have ok: "\<not> check_write_denylist sample_paths (lit ''other'')"
    using outside_not_blocked [of "[lit ''repo'']" "[lit ''tmp'']"]
    by (simp add: check_write_denylist_def sample_paths_def)
  have r0: "run ?c 600 [] (new_store False)" by (rule run.start)
  have r1: "run ?c 600 ([] @ [Staged 0 [1] ?r (Some 7)]) ?s"
    by (rule run.staged [OF r0]) (simp_all add: tokens_staged_def stage_def staged_action_def ok)
  obtain s2 where conf: "confirm_action False 600 5 [1] True (Some 7) ?s = (RanLocally (lit ''write_file'') ?args, s2)"
    by (auto simp: confirm_action_def take_pending_def pending_sweep pending_put new_store_def subject_ok_def
        COMPUTER_TOOLS_def Let_def)
  from run.confirm [OF r1 conf] only_approved_actions_run [OF run.confirm [OF r1 conf], where t = "[1]"]
  show ?thesis by (intro exI conjI) (assumption, auto)
qed

section \<open>Restarts\<close>

definition row_record :: "ustr \<times> pydict \<times> int \<Rightarrow> pending_record" where
  "row_record row = (case row of (ty, args, created) \<Rightarrow>
     \<lparr>pr_type = ty, pr_args = ddel OWNER_SUBJECT_KEY args, pr_created = created,
      pr_owner = json_owner (dget args OWNER_SUBJECT_KEY)\<rparr>)"

lemma load_rows:
  "distinct (map fst rows) \<Longrightarrow> map_of (pending (fold load_row rows s)) t
     = (case map_of rows t of Some row \<Rightarrow> Some (row_record row) | None \<Rightarrow> map_of (pending s) t)"
proof (induction rows arbitrary: s)
  case (Cons row rows)
  obtain k v where row: "row = (k, v)" by (cases row)
  have "pending (load_row row s) = dset k (row_record v) (pending s)"
    by (cases v) (simp add: row load_row_def row_record_def)
  moreover have "map_of rows k = None" using Cons.prems by (simp add: row map_of_eq_None_iff)
  ultimately show ?case using Cons by (auto simp: row map_of_dset split: option.split)
qed simp

text \<open>The table when every write so far was carried out in order, and its agreement with memory.\<close>

definition table :: "pending_store \<Rightarrow> pending_row list" where
  "table s = fold exec_write (writes s) []"

definition mirrored :: "pending_store \<Rightarrow> bool" where
  "mirrored s \<longleftrightarrow> distinct (map fst (table s))
     \<and> (\<forall>t. map_option row_record (map_of (table s) t) = map_of (pending s) t)"

lemma attached_simps [simp]:
  "attached (persist w s) = attached s" "attached (sweep ttl now s) = attached s"
  "attached (put ttl now t ty args owner s) = attached s" "attached (discard t s) = attached s"
  by (auto simp: persist_def sweep_def put_def discard_def Let_def)

lemma map_of_filter_key: "map_of (filter (\<lambda>(t, r). t \<notin> S) xs) k = (if k \<in> S then None else map_of xs k)"
  by (induction xs) auto

lemma map_of_filter_value:
  "distinct (map fst xs) \<Longrightarrow> map_of (filter (\<lambda>(t, r). \<not> Q r) xs) t
     = (if t \<in> set (map fst (filter (\<lambda>(t, r). Q r) xs)) then None else map_of xs t)"
proof (induction xs)
  case (Cons x xs)
  obtain k v where x: "x = (k, v)" by (cases x)
  have "k \<notin> fst ` set xs" using Cons.prems by (simp add: x)
  then have "k \<notin> set (map fst (filter (\<lambda>(t, r). Q r) xs))" "map_of (filter (\<lambda>(t, r). \<not> Q r) xs) k = None"
    by (auto simp: map_of_eq_None_iff)
  then show ?case using Cons by (auto simp: x)
qed simp

lemma map_of_filter_case:
  "distinct (map fst xs) \<Longrightarrow> map_of (filter (\<lambda>(t, r). \<not> Q r) xs) t
     = (case map_of xs t of None \<Rightarrow> None | Some r \<Rightarrow> if Q r then None else Some r)"
proof (induction xs)
  case (Cons x xs)
  obtain k v where x: "x = (k, v)" by (cases x)
  have "map_of (filter (\<lambda>(t, r). \<not> Q r) xs) k = None"
    using Cons.prems by (auto simp: x map_of_eq_None_iff)
  then show ?case using Cons by (auto simp: x)
qed simp

lemma mirrored_delete:
  assumes "mirrored s" and "attached s" and "\<And>t. map_of (pending s') t = (if t \<in> set ts then None else map_of (pending s) t)"
    and "writes s' = writes s" "attached s' = attached s"
  shows "mirrored (persist (DeleteRows ts) s')"
proof -
  have "table (persist (DeleteRows ts) s') = filter (\<lambda>(t, _). t \<notin> set ts) (table s)"
    using assms(2,4,5) by (simp add: table_def persist_def)
  then show ?thesis using assms(1,3) by (simp add: mirrored_def map_of_filter_key distinct_map_filter)
qed

lemma mirrored_sweep:
  assumes "mirrored s" and "attached s" and "keys_ok s"
  shows "mirrored (sweep ttl now s)"
proof -
  let ?expired = "map fst (filter (\<lambda>(t, r). pr_created r < now - ttl) (pending s))"
  let ?s = "s\<lparr>pending := filter (\<lambda>(t, r). \<not> pr_created r < now - ttl) (pending s)\<rparr>"
  have lookup: "map_of (pending ?s) t = (if t \<in> set ?expired then None else map_of (pending s) t)" for t
    using assms(3) map_of_filter_value [of "pending s" "\<lambda>r. pr_created r < now - ttl" t] by (simp add: keys_ok_def)
  show ?thesis
  proof (cases "?expired = []")
    case True
    then have "filter (\<lambda>(t, r). \<not> pr_created r < now - ttl) (pending s) = pending s"
      by (auto simp: filter_empty_conv intro: filter_True)
    then show ?thesis using assms(1) True by (simp add: sweep_def Let_def)
  next
    case False
    have "mirrored (persist (DeleteRows ?expired) ?s)"
      by (rule mirrored_delete [OF assms(1,2) lookup]) simp_all
    then show ?thesis using False by (simp add: sweep_def Let_def)
  qed
qed

lemma mirrored_discard: "mirrored s \<Longrightarrow> attached s \<Longrightarrow> mirrored (discard t s)"
  unfolding discard_def by (rule mirrored_delete) (auto simp: map_of_ddel)

lemma ddel_new: "map_of d k = None \<Longrightarrow> ddel k d = d"
  by (induction d) (auto simp: ddel_def map_of_eq_None_iff filter_id_conv split: if_splits)

lemma mirrored_put:
  assumes "mirrored s" and "attached s" and "keys_ok s" and "map_of args OWNER_SUBJECT_KEY = None"
    and "map_of (table (sweep ttl now s)) t = None"
  shows "mirrored (put ttl now t ty args owner s)"
proof -
  let ?s = "sweep ttl now s"
  have m: "mirrored ?s" by (rule mirrored_sweep [OF assms(1-3)])
  have "json_owner (owner_json owner) = owner" by (cases owner) (simp_all add: json_owner_def)
  then have "row_record (ty, dset OWNER_SUBJECT_KEY (owner_json owner) args, now)
      = \<lparr>pr_type = ty, pr_args = args, pr_created = now, pr_owner = owner\<rparr>"
    by (simp add: row_record_def ddel_new [OF assms(4)])
  moreover have "table (put ttl now t ty args owner s)
      = table ?s @ [(t, ty, dset OWNER_SUBJECT_KEY (owner_json owner) args, now)]"
    using assms(2) by (simp add: table_def put_def persist_def Let_def)
  moreover have "t \<notin> set (map fst (table ?s))" using assms(5) by (simp add: map_of_eq_None_iff)
  moreover have "map_of (pending ?s) k = map_option row_record (map_of (table ?s) k)" for k
    using m by (simp add: mirrored_def)
  ultimately show ?thesis using m assms(5)
    by (auto simp: mirrored_def pending_put map_of_dset map_add_def split: option.split)
qed


lemma target_no_owner:
  "computer_target fi args bare xk yk ck = Inr target \<Longrightarrow> lit xk \<noteq> OWNER_SUBJECT_KEY \<Longrightarrow> lit yk \<noteq> OWNER_SUBJECT_KEY
     \<Longrightarrow> map_of target OWNER_SUBJECT_KEY = None"
  by (erule computer_target_cases) (auto simp: OWNER_SUBJECT_KEY_def)

lemma normalized_no_owner:
  "norm_click fi a = Inr n \<Longrightarrow> map_of n OWNER_SUBJECT_KEY = None"
  "norm_type_text fi a = Inr n \<Longrightarrow> map_of n OWNER_SUBJECT_KEY = None"
  "norm_press_keys fi a = Inr n \<Longrightarrow> map_of n OWNER_SUBJECT_KEY = None"
  "norm_scroll fi a = Inr n \<Longrightarrow> map_of n OWNER_SUBJECT_KEY = None"
  "norm_drag fi a = Inr n \<Longrightarrow> map_of n OWNER_SUBJECT_KEY = None"
  "norm_open_app fi a = Inr n \<Longrightarrow> map_of n OWNER_SUBJECT_KEY = None"
  "norm_open_url a = Inr n \<Longrightarrow> map_of n OWNER_SUBJECT_KEY = None"
proof -
  have t: "map_of target OWNER_SUBJECT_KEY = None"
    if "computer_target fi b bare ''x'' ''y'' ''control'' = Inr target" for fi b bare target
    using target_no_owner [OF that] by (simp add: OWNER_SUBJECT_KEY_def)
  note defs = OWNER_SUBJECT_KEY_def map_add_def
  show "norm_click fi a = Inr n \<Longrightarrow> map_of n OWNER_SUBJECT_KEY = None"
    using t by (auto simp: norm_click_def defs)
  show "norm_type_text fi a = Inr n \<Longrightarrow> map_of n OWNER_SUBJECT_KEY = None"
    using t by (auto simp: norm_type_text_def defs split: json.splits)
  show "norm_press_keys fi a = Inr n \<Longrightarrow> map_of n OWNER_SUBJECT_KEY = None"
    using t by (auto simp: norm_press_keys_def defs split: if_splits json.splits)
  show "norm_scroll fi a = Inr n \<Longrightarrow> map_of n OWNER_SUBJECT_KEY = None"
    using t by (auto simp: norm_scroll_def defs)
  show "norm_drag fi a = Inr n \<Longrightarrow> map_of n OWNER_SUBJECT_KEY = None"
    by (auto simp: norm_drag_def defs)
  show "norm_open_app fi a = Inr n \<Longrightarrow> map_of n OWNER_SUBJECT_KEY = None"
  proof (cases "dget a (lit ''name'')")
    case (JStr name)
    then show "norm_open_app fi a = Inr n \<Longrightarrow> map_of n OWNER_SUBJECT_KEY = None"
      by (auto simp: norm_open_app_def Let_def defs split: if_splits)
  qed (simp_all add: norm_open_app_def)
  show "norm_open_url a = Inr n \<Longrightarrow> map_of n OWNER_SUBJECT_KEY = None"
    by (auto simp: norm_open_url_def defs split: json.splits)
qed

lemma staged_no_owner: "staged_action c r = Inr (ty, args) \<Longrightarrow> map_of args OWNER_SUBJECT_KEY = None"
proof (cases r)
  case (Computer name a)
  assume "staged_action c r = Inr (ty, args)"
  then have n: "normalize_computer_args (to_integer c) name a = Inr args"
    by (auto simp: staged_action_def Computer)
  then show ?thesis using normalized_no_owner
    unfolding normalize_computer_args_def by (simp split: if_splits)
qed (auto simp: staged_action_def OWNER_SUBJECT_KEY_def split: if_splits)

lemma table_shrinks:
  "set (table (sweep ttl now s)) \<subseteq> set (table s)" "set (table (discard t s)) \<subseteq> set (table s)"
  "set (table (put ttl now t ty args owner s)) \<subseteq>
     insert (t, ty, dset OWNER_SUBJECT_KEY (owner_json owner) args, now) (set (table s))"
proof -
  show sw: "set (table (sweep ttl now s)) \<subseteq> set (table s)" for s
    by (auto simp: sweep_def persist_def table_def Let_def)
  show "set (table (discard t s)) \<subseteq> set (table s)"
    by (auto simp: discard_def persist_def table_def)
  show "set (table (put ttl now t ty args owner s)) \<subseteq>
     insert (t, ty, dset OWNER_SUBJECT_KEY (owner_json owner) args, now) (set (table s))"
    using sw [of s] by (auto simp: put_def persist_def table_def Let_def)
qed

lemma take_mirrored:
  assumes "mirrored s" and "attached s" and "keys_ok s" and "take_pending ttl now t requester s = (r, s')"
  shows "mirrored s' \<and> attached s' \<and> keys_ok s' \<and> set (table s') \<subseteq> set (table s)"
proof -
  have sw: "mirrored (sweep ttl now s)" by (rule mirrored_sweep [OF assms(1-3)])
  then have "s' = sweep ttl now s \<or> s' = discard t (sweep ttl now s)"
    using assms(4) by (auto simp: take_pending_def Let_def split: option.splits if_splits)
  then show ?thesis
    using sw mirrored_discard [OF sw] assms(2) keys_ok_take [OF assms(3,4)] table_shrinks(1) [of ttl now s]
      table_shrinks(2) [of t "sweep ttl now s"] by auto
qed

lemma tokens_snoc [simp]:
  "tokens_staged (tr @ [Refused r]) = tokens_staged tr" "tokens_staged (tr @ [Peeked]) = tokens_staged tr"
  "tokens_staged (tr @ [Resolved now t approve requester res]) = tokens_staged tr"
  by (simp_all add: tokens_staged_def)

lemma run_mirrored:
  assumes "run c ttl tr s" and "attached s"
  shows "mirrored s \<and> keys_ok s \<and> fst ` set (table s) \<subseteq> tokens_staged tr"
  using assms
proof (induction rule: run.induct)
  case (start persistent)
  show ?case by (simp add: mirrored_def table_def new_store_def keys_ok_def)
next
  case (staged tr s token now r owner tok s')
  then obtain ty args where r: "staged_action c r = Inr (ty, args)" "s' = put ttl now token ty args owner s"
    by (auto simp: stage_def split: sum.splits prod.splits)
  then have s: "mirrored s" "keys_ok s" "fst ` set (table s) \<subseteq> tokens_staged tr" "attached s"
    using staged.IH staged.prems by auto
  have fresh: "map_of (table (sweep ttl now s)) token = None"
    using s(3) staged(2) table_shrinks(1) [of ttl now s] by (auto simp: map_of_eq_None_iff)
  have "keys_ok s'" using keys_ok_sweep [OF s(2), of ttl now]
    by (simp add: r keys_ok_def pending_put distinct_keys_dset)
  moreover have "tokens_staged (tr @ [Staged now token r owner]) = insert token (tokens_staged tr)"
    by (auto simp: tokens_staged_def)
  moreover have "fst ` set (table s') \<subseteq> insert token (fst ` set (table s))"
    using table_shrinks(3) unfolding r(2) by fastforce
  ultimately show ?case
    using mirrored_put [OF s(1,4,2) staged_no_owner [OF r(1)] fresh] s(3) unfolding r(2) by blast
next
  case (refused tr s now token r owner e s')
  then have "s' = s" by (auto simp: stage_def split: sum.splits prod.splits)
  then show ?case using refused by (auto simp: tokens_staged_def)
next
  case (confirm tr s ex now token approve requester res s')
  then obtain r where t: "take_pending ttl now token requester s = (r, s')"
    using confirm_cases by metis
  have "attached s' = attached s"
    using t by (auto simp: take_pending_def Let_def split: option.splits if_splits)
  then have "mirrored s" "keys_ok s" "fst ` set (table s) \<subseteq> tokens_staged tr" "attached s"
    using confirm.IH confirm.prems by auto
  then show ?case using take_mirrored [OF _ _ _ t] unfolding tokens_snoc by blast
next
  case (peek tr s now token requester ty s')
  then have s': "s' = sweep ttl now s" by (simp add: peek_type_def Let_def)
  then have s: "mirrored s" "keys_ok s" "fst ` set (table s) \<subseteq> tokens_staged tr" "attached s"
    using peek.IH peek.prems by auto
  then show ?case using mirrored_sweep [OF s(1,4,2)] keys_ok_sweep [OF s(2)] table_shrinks(1) [of ttl now s]
    unfolding s' tokens_snoc by blast
qed

text \<open>
  Staged actions survive a restart: when every write of a run was carried out, a new process
  that loads the table holds the same actions, for the same subjects and until the same time, as
  the old one.\<close>

lemma restart_keeps_staged_actions:
  assumes "run c ttl tr s" and "attached s"
  shows "map_of (pending (load_persisted ttl now (table s) (new_store True))) t
    = map_of (pending (sweep ttl now s)) t"
proof -
  have m: "mirrored s" "keys_ok s" using run_mirrored [OF assms] by auto
  let ?new = "fold load_row (table s) (new_store True)"
  have att: "attached (new_store True)" by (simp add: new_store_def)
  have keys: "keys_ok (fold load_row rows s0)" if "keys_ok s0" for rows s0
    using that by (induction rows arbitrary: s0)
      (auto simp: keys_ok_def load_row_def distinct_keys_dset split: prod.splits)
  have new: "map_of (pending ?new) k = map_of (pending s) k" for k
  proof -
    have "distinct (map fst (table s))" "map_of (pending s) k = map_option row_record (map_of (table s) k)"
      using m(1) by (simp_all add: mirrored_def)
    moreover have "map_of (pending (new_store True)) k = None" by (simp add: new_store_def)
    ultimately show ?thesis using load_rows [of "table s" "new_store True" k] by (simp split: option.split)
  qed
  have "distinct (map fst (pending ?new))" "distinct (map fst (pending s))"
    using keys [of "new_store True"] m(2) by (simp_all add: keys_ok_def new_store_def)
  note filt = map_of_filter_case [OF this(1), of "\<lambda>r. pr_created r < now - ttl" t]
    map_of_filter_case [OF this(2), of "\<lambda>r. pr_created r < now - ttl" t]
  have "map_of (pending (sweep ttl now ?new)) t = map_of (pending (sweep ttl now s)) t"
    unfolding pending_sweep filt new ..
  then show ?thesis by (simp add: load_persisted_def att)
qed


lemma restart_keeps_staged_actions_witness:
  "map_of (pending (load_persisted 600 9
      (table (put 600 0 [1] (lit ''write_file'') [(lit ''path'', JStr (lit ''other'')), (lit ''content'', JStr [])]
                (Some 7) (new_store True))) (new_store True))) [1]
     = Some \<lparr>pr_type = lit ''write_file'',
         pr_args = [(lit ''path'', JStr (lit ''other'')), (lit ''content'', JStr [])],
         pr_created = 0, pr_owner = Some 7\<rparr>"
proof -
  let ?c = "\<lparr>alnum = \<lambda>_. False, fs = sample_paths, to_integer = \<lambda>_. Inl Crash\<rparr>"
  let ?args = "[(lit ''path'', JStr (lit ''other'')), (lit ''content'', JStr [])]"
  let ?s = "put 600 0 [1] (lit ''write_file'') ?args (Some 7) (new_store True)"
  have ok: "\<not> check_write_denylist sample_paths (lit ''other'')"
    using outside_not_blocked [of "[lit ''repo'']" "[lit ''tmp'']"]
    by (simp add: check_write_denylist_def sample_paths_def)
  have r1: "run ?c 600 ([] @ [Staged 0 [1] (WriteFile (lit ''other'') []) (Some 7)]) ?s"
    by (rule run.staged [OF run.start]) (simp_all add: tokens_staged_def stage_def staged_action_def ok)
  have att: "attached ?s" by (simp add: new_store_def)
  show ?thesis using restart_keeps_staged_actions [OF r1 att, of 9 "[1]"]
    by (simp add: pending_sweep pending_put) (simp add: new_store_def)
qed

text \<open>
  A write may fail, and the failure is only logged. When the one that removes a confirmed action
  is lost, the row is read back after a restart and the same token confirms the action again.
\<close>

lemma lost_delete_runs_the_action_twice:
  "let s1 = put 600 0 [1] (lit ''execute_bash'') [(lit ''command'', JStr (lit ''make''))] (Some 7) (new_store True);
       (first, s2) = confirm_action False 600 5 [1] True (Some 7) s1;
       rows = exec_write (hd (writes s2)) [];
       (second, _) = confirm_action False 600 9 [1] True (Some 7) (load_persisted 600 8 rows (new_store True))
   in first = RanLocally (lit ''execute_bash'') [(lit ''command'', JStr (lit ''make''))] \<and> second = first
      \<and> writes s2 = [hd (writes s2), DeleteRows [[1]]]"
  by code_simp

end
