(* ===== verification/ComputerInput.thy ===== *)
theory ComputerInput
  imports ComputerArgs "HOL-Library.Word"
begin

unbundle bit_operations_syntax

text \<open>
  What a desktop action sends to the operating system (\<open>_computer_act\<close> and the functions it calls
  in \<open>invincible/core/tool_executor.py\<close>): batches of \<open>SendInput\<close> records at their machine widths,
  and program launches. The screen reader is the argument \<open>look\<close>: the grid point of each control
  id, or nothing when the screen cannot be read; the password probe is the argument \<open>focus\<close>. Not
  modelled: pauses, the overlay, failures of \<open>SendInput\<close> and
  \<open>ShellExecute\<close>, the fields of the result dictionaries.
\<close>

datatype input =
    Mouse "32 word" "32 word" "32 word" "32 word"
  | Key "16 word" "16 word" "32 word"

text \<open>\<open>Mouse dx dy mouseData dwFlags\<close> and \<open>Key wVk wScan dwFlags\<close>.\<close>

definition computer_abs :: "int \<Rightarrow> int" where
  "computer_abs v = v * 65535 div COMPUTER_GRID_MAX"

definition MOVE_FLAGS :: "32 word" where
  "MOVE_FLAGS = 0x0001 OR 0x8000 OR 0x4000"

definition computer_move_to :: "int \<Rightarrow> int \<Rightarrow> input list list" where
  "computer_move_to x y =
     [[Mouse (word_of_int (computer_abs x)) (word_of_int (computer_abs y)) 0 MOVE_FLAGS]]"

definition button_flags :: "ustr \<Rightarrow> 32 word \<times> 32 word" where
  "button_flags button = (if button = lit ''left'' then (0x0002, 0x0004)
     else if button = lit ''right'' then (0x0008, 0x0010) else (0x0020, 0x0040))"

definition computer_click_at :: "int \<Rightarrow> int \<Rightarrow> ustr \<Rightarrow> bool \<Rightarrow> input list list" where
  "computer_click_at x y button double =
     (let (down, up) = button_flags button; click = [Mouse 0 0 0 down, Mouse 0 0 0 up]
      in computer_move_to x y @ [click] @ (if double then [click] else []))"

definition computer_scroll_at :: "(int \<times> int) option \<Rightarrow> ustr \<Rightarrow> int \<Rightarrow> input list list" where
  "computer_scroll_at point direction amount =
     (let delta = word_of_int (120 * amount) :: 32 word;
          (flags, dat) = (if direction = lit ''up'' then (0x0800, delta)
             else if direction = lit ''down'' then (0x0800, - delta)
             else if direction = lit ''right'' then (0x1000, delta) else (0x1000, - delta))
      in (case point of Some (x, y) \<Rightarrow> computer_move_to x y | None \<Rightarrow> []) @ [[Mouse 0 0 dat flags]])"

definition computer_drag :: "int \<Rightarrow> int \<Rightarrow> int \<Rightarrow> int \<Rightarrow> input list list" where
  "computer_drag x1 y1 x2 y2 =
     computer_move_to x1 y1 @ [[Mouse 0 0 0 0x0002]] @ computer_move_to x2 y2 @ [[Mouse 0 0 0 0x0004]]"

text \<open>\<open>encode("utf-16-le")\<close>, as code units; a lone surrogate does not encode.\<close>

definition is_surrogate :: "int \<Rightarrow> bool" where
  "is_surrogate c \<longleftrightarrow> 0xD800 \<le> c \<and> c \<le> 0xDFFF"

definition utf16_char :: "int \<Rightarrow> 16 word list" where
  "utf16_char c = (if c < 0x10000 then [word_of_int c]
     else [word_of_int (0xD800 + (c - 0x10000) div 1024), word_of_int (0xDC00 + (c - 0x10000) mod 1024)])"

definition utf16_units :: "ustr \<Rightarrow> 16 word list option" where
  "utf16_units s = (if list_ex is_surrogate s then None else Some (concat (map utf16_char s)))"

definition unicode_stroke :: "16 word \<Rightarrow> input list" where
  "unicode_stroke unit = [Key 0 unit 0x0004, Key 0 unit (0x0004 OR 0x0002)]"

definition computer_type :: "ustr \<Rightarrow> input list list checked" where
  "computer_type text = (case utf16_units text of
       None \<Rightarrow> Inl ValueErr
     | Some us \<Rightarrow> Inr (if us = [] then [] else [concat (map unicode_stroke us)]))"

definition VK_MODIFIERS :: "(ustr \<times> 16 word) list" where
  "VK_MODIFIERS = map (\<lambda>(a, b). (lit a, b)) [(''shift'', 0x10), (''ctrl'', 0x11), (''alt'', 0x12), (''win'', 0x5B)]"

definition VK_NAMED :: "(ustr \<times> 16 word) list" where
  "VK_NAMED = map (\<lambda>(a, b). (lit a, b)) [(''backspace'', 0x08), (''tab'', 0x09), (''enter'', 0x0D), (''esc'', 0x1B),
     (''space'', 0x20), (''pgup'', 0x21), (''pgdn'', 0x22), (''end'', 0x23), (''home'', 0x24), (''left'', 0x25),
     (''up'', 0x26), (''right'', 0x27), (''down'', 0x28), (''insert'', 0x2D), (''del'', 0x2E)]
     @ map (\<lambda>i. (102 # dec_nat i, word_of_nat (0x6F + i))) [1..<25]"

definition vk_alnum :: "ustr \<Rightarrow> 16 word option" where
  "vk_alnum s = (case s of [c] \<Rightarrow>
       if 97 \<le> c \<and> c \<le> 122 then Some (word_of_int (0x41 + (c - 97)))
       else if 48 \<le> c \<and> c \<le> 57 then Some (word_of_int (0x30 + (c - 48))) else None
     | _ \<Rightarrow> None)"

definition vk_stroke :: "16 word \<Rightarrow> input list" where
  "vk_stroke vk = [Key vk 0 0, Key vk 0 0x0002]"

fun least_str :: "ustr list \<Rightarrow> ustr option" where
  "least_str [] = None"
| "least_str (x # xs) = (case least_str xs of None \<Rightarrow> Some x | Some y \<Rightarrow> Some (if ustr_le x y then x else y))"

definition held_modifiers :: "ustr list \<Rightarrow> 16 word list" where
  "held_modifiers chord =
     map (\<lambda>k. the (map_of VK_MODIFIERS k)) (filter (\<lambda>k. k \<in> set chord) KEY_MODIFIERS)"

definition computer_press :: "ustr list \<Rightarrow> input list list checked" where
  "computer_press chord =
     (case least_str (filter (\<lambda>k. k \<notin> set KEY_MODIFIERS) chord) of
        None \<Rightarrow> Inl Crash
      | Some main \<Rightarrow>
          let mods = held_modifiers chord in
          check (case (if mods \<noteq> [] then vk_alnum main else None) of
              Some vk \<Rightarrow> Inr (vk_stroke vk)
            | None \<Rightarrow>
                if length main = 1 then
                  (case utf16_units main of None \<Rightarrow> Inl ValueErr | Some us \<Rightarrow> Inr (concat (map unicode_stroke us)))
                else (case map_of VK_NAMED main of Some vk \<Rightarrow> Inr (vk_stroke vk) | None \<Rightarrow> Inl ValueErr))
            (\<lambda>stroke. Inr [map (\<lambda>vk. Key vk 0 0) mods @ stroke @ map (\<lambda>vk. Key vk 0 0x0002) (rev mods)]))"

section \<open>One action\<close>

datatype effect = Send "input list" | RestorePointer | Launch ustr ustr | ReadScreen

datatype outcome = Done | Failed | Refused | Unavailable | Crashed

fun err_outcome :: "tool_error \<Rightarrow> outcome" where
  "err_outcome ValueErr = Failed"
| "err_outcome Blocked = Refused"
| "err_outcome Crash = Crashed"

type_synonym acted = "outcome \<times> effect list"

definition send_all :: "input list list checked \<Rightarrow> effect list \<Rightarrow> acted" where
  "send_all r before = (case r of
       Inl e \<Rightarrow> (err_outcome e, before)
     | Inr batches \<Rightarrow> (Done, before @ map Send batches))"

type_synonym screen = "(ustr \<Rightarrow> (int \<times> int) option) option"

text \<open>The pointer is saved before a pointer action and put back after it.\<close>

definition warped :: "input list list \<Rightarrow> acted" where
  "warped batches = (Done, map Send batches @ [RestorePointer])"

definition int_of :: "json \<Rightarrow> int" where
  "int_of v = (case v of JInt i \<Rightarrow> i | _ \<Rightarrow> 0)"

text \<open>\<open>_computer_resolve\<close>: \<open>None\<close> where the target names no point.\<close>

definition computer_resolve :: "screen \<Rightarrow> pydict \<Rightarrow> (int \<times> int) option checked" where
  "computer_resolve look target = (case dget target (lit ''control'') of
       JStr c \<Rightarrow> (case look of None \<Rightarrow> Inl ValueErr
         | Some points \<Rightarrow> (case points c of None \<Rightarrow> Inl ValueErr | Some p \<Rightarrow> Inr (Some p)))
     | _ \<Rightarrow>
         let x = dget_or target (lit ''x'') (dget_or target (lit ''x1'') (dget target (lit ''x2'')));
             y = dget_or target (lit ''y'') (dget_or target (lit ''y1'') (dget target (lit ''y2'')))
         in Inr (if x = JNull then None else Some (int_of x, int_of y)))"

definition pointed :: "pydict \<Rightarrow> bool" where
  "pointed norm \<longleftrightarrow> dhas norm (lit ''control'') \<or> dhas norm (lit ''x'')"

text \<open>The click that moves the focus before typing; the continuation gets what was sent.\<close>

definition focus_click :: "screen \<Rightarrow> pydict \<Rightarrow> (effect list \<Rightarrow> acted) \<Rightarrow> acted" where
  "focus_click look norm f =
     (if \<not> pointed norm then f []
      else case computer_resolve look norm of
          Inl e \<Rightarrow> (err_outcome e, [])
        | Inr None \<Rightarrow> (Crashed, [])
        | Inr (Some (x, y)) \<Rightarrow> f (map Send (computer_click_at x y (lit ''left'') False) @ [RestorePointer]))"

definition str_at :: "pydict \<Rightarrow> string \<Rightarrow> ustr" where
  "str_at d k = (case dget d (lit k) of JStr s \<Rightarrow> s | _ \<Rightarrow> [])"

definition dict_at :: "pydict \<Rightarrow> string \<Rightarrow> pydict" where
  "dict_at d k = (case dget d (lit k) of JObj o' \<Rightarrow> o' | _ \<Rightarrow> [])"

definition act_click :: "screen \<Rightarrow> pydict \<Rightarrow> acted" where
  "act_click look norm = (case computer_resolve look norm of
       Inl e \<Rightarrow> (err_outcome e, [])
     | Inr None \<Rightarrow> (Crashed, [])
     | Inr (Some (x, y)) \<Rightarrow>
         warped (computer_click_at x y (str_at norm ''button'') (truthy (dget norm (lit ''double'')))))"

definition act_type_text :: "screen \<Rightarrow> bool option \<Rightarrow> pydict \<Rightarrow> acted" where
  "act_type_text look focus norm = focus_click look norm (\<lambda>sent.
     case focus of
       Some True \<Rightarrow> (Refused, sent)
     | None \<Rightarrow> (Failed, sent)
     | Some False \<Rightarrow>
         (case send_all (computer_type (str_at norm ''text'')) sent of
            (Done, sent') \<Rightarrow>
              if truthy (dget norm (lit ''submit'')) then send_all (computer_press [lit ''enter'']) sent'
              else (Done, sent')
          | r \<Rightarrow> r))"

definition act_press_keys :: "screen \<Rightarrow> pydict \<Rightarrow> acted" where
  "act_press_keys look norm = focus_click look norm (\<lambda>sent.
     send_all (computer_press (parse_keys_chord (str_at norm ''keys''))) sent)"

definition act_scroll :: "screen \<Rightarrow> pydict \<Rightarrow> acted" where
  "act_scroll look norm = (case computer_resolve look norm of
       Inl e \<Rightarrow> (err_outcome e, [])
     | Inr p \<Rightarrow> warped (computer_scroll_at p (str_at norm ''direction'')
                            (int_of (dget norm (lit ''amount'')))))"

definition act_drag :: "screen \<Rightarrow> pydict \<Rightarrow> acted" where
  "act_drag look norm =
     (case (computer_resolve look (dict_at norm ''from''), computer_resolve look (dict_at norm ''to'')) of
        (Inl e, _) \<Rightarrow> (err_outcome e, [])
      | (_, Inl e) \<Rightarrow> (err_outcome e, [])
      | (Inr (Some (x1, y1)), Inr (Some (x2, y2))) \<Rightarrow> warped (computer_drag x1 y1 x2 y2)
      | _ \<Rightarrow> (Crashed, []))"

definition act_open_app :: "pydict \<Rightarrow> acted" where
  "act_open_app norm = (Done, Launch (str_at norm ''name'') (str_at norm ''args'')
     # (if dhas norm (lit ''wait_window'') then [ReadScreen] else []))"

definition computer_act ::
  "float_int \<Rightarrow> bool \<Rightarrow> screen \<Rightarrow> bool option \<Rightarrow> ustr \<Rightarrow> pydict \<Rightarrow> acted" where
  "computer_act fi windows look focus name args =
     (if \<not> windows then (Unavailable, [])
      else case normalize_computer_args fi name args of
        Inl e \<Rightarrow> (err_outcome e, [])
      | Inr norm \<Rightarrow>
          if name = lit ''click'' then act_click look norm
          else if name = lit ''type_text'' then act_type_text look focus norm
          else if name = lit ''press_keys'' then act_press_keys look norm
          else if name = lit ''scroll'' then act_scroll look norm
          else if name = lit ''drag'' then act_drag look norm
          else if name = lit ''open_app'' then act_open_app norm
          else (Done, [Launch (str_at norm ''url'') []]))"


section \<open>What the events amount to\<close>

definition is_up :: "32 word \<Rightarrow> bool" where
  "is_up f \<longleftrightarrow> f AND 2 \<noteq> 0"

fun key_step :: "input \<Rightarrow> (16 word \<times> 16 word) set \<Rightarrow> (16 word \<times> 16 word) set" where
  "key_step (Key vk sc f) H = (if is_up f then H - {(vk, sc)} else insert (vk, sc) H)"
| "key_step (Mouse dx dy d f) H = H"

definition sent_events :: "effect list \<Rightarrow> input list" where
  "sent_events effs = concat (map (\<lambda>e. case e of Send b \<Rightarrow> b | _ \<Rightarrow> []) effs)"

text \<open>The keys that are down after the effects.\<close>

definition held_after :: "effect list \<Rightarrow> (16 word \<times> 16 word) set" where
  "held_after effs = fold key_step (sent_events effs) {}"

lemma sent_events_simps [simp]:
  "sent_events [] = []" "sent_events (a @ b) = sent_events a @ sent_events b"
  "sent_events (map Send bs) = concat bs" "sent_events (Send evs # effs) = evs @ sent_events effs"
  "sent_events (Launch app extra # effs) = sent_events effs" "sent_events (ReadScreen # effs) = sent_events effs"
  "sent_events (RestorePointer # effs) = sent_events effs"
  by (simp_all add: sent_events_def comp_def)

lemma up_flags [simp]: "\<not> is_up 0" "is_up 2" "\<not> is_up 4" "is_up 6"
  by (simp_all add: is_up_def)

lemma fold_strokes [simp]:
  "fold key_step (map (\<lambda>vk. Key vk 0 0) mods) H = H \<union> (\<lambda>vk. (vk, 0)) ` set mods"
  "fold key_step (map (\<lambda>vk. Key vk 0 2) mods) H = H - (\<lambda>vk. (vk, 0)) ` set mods"
  "fold key_step (vk_stroke vk) H = H - {(vk, 0)}"
  "fold key_step (unicode_stroke unit) H = H - {(0, unit)}"
  by (induction mods arbitrary: H) (auto simp: vk_stroke_def unicode_stroke_def)

lemma fold_unicode: "fold key_step (concat (map unicode_stroke us)) H \<subseteq> H"
  by (induction us arbitrary: H) (auto dest!: subsetD)

lemma fold_mouse: "(\<And>e. e \<in> set evs \<Longrightarrow> \<exists>a b c d. e = Mouse a b c d) \<Longrightarrow> fold key_step evs H = H"
proof (induction evs)
  case (Cons e evs)
  then obtain a b c d where "e = Mouse a b c d" by (meson list.set_intros(1))
  then show ?case using Cons by simp
qed simp

definition no_keys :: "input list \<Rightarrow> bool" where
  "no_keys evs \<longleftrightarrow> (\<forall>e \<in> set evs. case e of Mouse _ _ _ _ \<Rightarrow> True | Key _ _ _ \<Rightarrow> False)"

lemma fold_no_keys: "no_keys evs \<Longrightarrow> fold key_step evs H = H"
  by (rule fold_mouse) (metis input.exhaust input.simps(6) no_keys_def)

lemma no_keys_pointer [simp]:
  "no_keys []" "no_keys (concat (computer_click_at x y b db))" "no_keys (concat (computer_scroll_at p d a))"
  "no_keys (concat (computer_drag x1 y1 x2 y2))"
  by (auto simp: no_keys_def computer_click_at_def computer_scroll_at_def computer_drag_def
      computer_move_to_def Let_def split: option.splits)

lemma press_releases:
  assumes "computer_press chord = Inr bs"
  shows "fold key_step (concat bs) {} = {}"
proof -
  obtain stroke where bs: "bs = [map (\<lambda>vk. Key vk 0 0) (held_modifiers chord) @ stroke
        @ map (\<lambda>vk. Key vk 0 0x0002) (rev (held_modifiers chord))]"
    and "(\<exists>vk. stroke = vk_stroke vk) \<or> (\<exists>us. stroke = concat (map unicode_stroke us))"
    using assms by (auto simp: computer_press_def Let_def split: option.splits if_splits)
  then have "fold key_step stroke H \<subseteq> H" for H using fold_unicode by auto
  then show ?thesis using bs by (auto dest!: subsetD)
qed

lemma type_releases: "computer_type text = Inr bs \<Longrightarrow> fold key_step (concat bs) {} = {}"
  using fold_unicode [of _ "{}"] by (auto simp: computer_type_def split: option.splits if_splits)

lemma focus_click_cases:
  assumes "focus_click look norm f = (r, effs)"
  obtains "effs = []" | sent where "no_keys (sent_events sent)" "f sent = (r, effs)"
proof -
  consider "effs = []" | "f [] = (r, effs)"
    | x y where "f (map Send (computer_click_at x y (lit ''left'') False) @ [RestorePointer]) = (r, effs)"
    using assms by (force simp: focus_click_def split: if_splits sum.splits option.splits)
  then show thesis
  proof cases
    case 2
    then show thesis using that(2) [of "[]"] by simp
  next
    case (3 x y)
    then show thesis using that(2) [of "map Send (computer_click_at x y (lit ''left'') False) @ [RestorePointer]"] by simp
  qed (rule that(1))
qed

lemma send_all_released:
  assumes "send_all r sent = (out, effs)" and "fold key_step (sent_events sent) {} = {}"
    and "\<And>bs. r = Inr bs \<Longrightarrow> fold key_step (concat bs) {} = {}"
  shows "fold key_step (sent_events effs) {} = {}"
  using assms by (auto simp: send_all_def split: sum.splits)

lemma act_type_text_released:
  assumes "act_type_text look focus norm = (out, effs)"
  shows "fold key_step (sent_events effs) {} = {}" "focus \<noteq> Some False \<Longrightarrow> no_keys (sent_events effs)"
proof -
  have "fold key_step (sent_events effs) {} = {} \<and> (focus \<noteq> Some False \<longrightarrow> no_keys (sent_events effs))"
    using assms unfolding act_type_text_def
  proof (cases rule: focus_click_cases)
    case 1
    then show ?thesis by simp
  next
    case (2 sent)
    then have start: "fold key_step (sent_events sent) {} = {}" by (simp add: fold_no_keys)
    have typed: "fold key_step (sent_events e) {} = {}"
      if "send_all (computer_type (str_at norm ''text'')) sent = (o', e)" for o' e
      by (rule send_all_released [OF that start]) (rule type_releases)
    have entered: "fold key_step (sent_events e) {} = {}"
      if "send_all (computer_press [lit ''enter'']) e0 = (o', e)" "fold key_step (sent_events e0) {} = {}" for o' e e0
      by (rule send_all_released [OF that]) (rule press_releases)
    show ?thesis using 2 start typed entered
      by (auto split: option.splits bool.splits prod.splits outcome.splits if_splits)
  qed
  then show "fold key_step (sent_events effs) {} = {}" "focus \<noteq> Some False \<Longrightarrow> no_keys (sent_events effs)" by auto
qed

lemma act_press_keys_released:
  assumes "act_press_keys look norm = (out, effs)"
  shows "fold key_step (sent_events effs) {} = {}"
  using assms unfolding act_press_keys_def
proof (cases rule: focus_click_cases)
  case (2 sent)
  then have "fold key_step (sent_events sent) {} = {}" by (simp add: fold_no_keys)
  with 2(2) show ?thesis by (rule send_all_released) (rule press_releases)
qed simp

lemma pointer_acts:
  "act_click look norm = (out, effs) \<Longrightarrow> no_keys (sent_events effs)"
  "act_scroll look norm = (out, effs) \<Longrightarrow> no_keys (sent_events effs)"
  "act_drag look norm = (out, effs) \<Longrightarrow> no_keys (sent_events effs)"
  "act_open_app norm = (out, effs) \<Longrightarrow> no_keys (sent_events effs)"
  by (auto simp: act_click_def act_scroll_def act_drag_def act_open_app_def warped_def
      split: sum.splits option.splits prod.splits if_splits)

lemmas act_splits = prod.splits sum.splits if_splits




section \<open>Typed text and pointer positions\<close>

text \<open>What a receiver makes of the key-down events: UTF-16 units, decoded.\<close>

fun typed_units :: "input list \<Rightarrow> 16 word list" where
  "typed_units [] = []"
| "typed_units (Key vk sc f # evs) = (if f = 4 then sc # typed_units evs else typed_units evs)"
| "typed_units (Mouse _ _ _ _ # evs) = typed_units evs"

fun utf16_decode :: "16 word list \<Rightarrow> ustr" where
  "utf16_decode [] = []"
| "utf16_decode [unit] = [uint unit]"
| "utf16_decode (hi # lo # us) =
     (if 0xD800 \<le> uint hi \<and> uint hi < 0xDC00
      then (0x10000 + (uint hi - 0xD800) * 1024 + (uint lo - 0xDC00)) # utf16_decode us
      else uint hi # utf16_decode (lo # us))"

lemma typed_units_append [simp]: "typed_units (a @ b) = typed_units a @ typed_units b"
proof (induction a)
  case (Cons e a)
  then show ?case by (cases e) auto
qed simp

lemma typed_units_strokes: "typed_units (concat (map unicode_stroke us)) = us"
  by (induction us) (auto simp: unicode_stroke_def)

lemma uint_small: "0 \<le> c \<Longrightarrow> c < 65536 \<Longrightarrow> uint (word_of_int c :: 16 word) = c"
  by (simp add: unsigned_of_int take_bit_int_eq_self)

lemma utf16_decode_char:
  assumes "0 \<le> c" and "c \<le> 0x10FFFF" and "\<not> is_surrogate c"
  shows "utf16_decode (utf16_char c @ us) = c # utf16_decode us"
proof (cases "c < 0x10000")
  case True
  then have u: "uint (word_of_int c :: 16 word) = c" using assms(1) by (simp add: uint_small)
  have "\<not> (0xD800 \<le> c \<and> c < 0xDC00)" using assms(3) by (auto simp: is_surrogate_def)
  then show ?thesis using True u by (cases us) (auto simp: utf16_char_def)
next
  case False
  define h l where "h = (c - 0x10000) div 1024" and "l = (c - 0x10000) mod 1024"
  have hl: "c = 0x10000 + h * 1024 + l" "0 \<le> h" "h < 1024" "0 \<le> l" "l < 1024"
    using False assms(2) by (simp_all add: h_def l_def)
  have "uint (word_of_int (0xD800 + h) :: 16 word) = 0xD800 + h"
    by (rule uint_small) (use hl in linarith)+
  moreover have "uint (word_of_int (0xDC00 + l) :: 16 word) = 0xDC00 + l"
    by (rule uint_small) (use hl in linarith)+
  ultimately have "uint (word_of_int (0xD800 + h) :: 16 word) = 0xD800 + h"
    "uint (word_of_int (0xDC00 + l) :: 16 word) = 0xDC00 + l" by auto
  then show ?thesis using False hl
    by (simp add: utf16_char_def h_def [symmetric] l_def [symmetric] del: of_int_add)
qed

text \<open>
  Typing is faithful for every text, characters outside the basic plane included: the
  key-down events decode, as UTF-16, to the text that was approved.\<close>

lemma typed_text_is_received:
  assumes "computer_type t = Inr bs" and "\<forall>c \<in> set t. 0 \<le> c \<and> c \<le> 0x10FFFF"
  shows "utf16_decode (typed_units (concat bs)) = t"
proof -
  have ok: "\<forall>c \<in> set t. \<not> is_surrogate c"
    using assms(1) by (auto simp: computer_type_def utf16_units_def list_ex_iff split: option.splits if_splits)
  have "typed_units (concat bs) = concat (map utf16_char t)"
    using assms(1) typed_units_strokes
    by (auto simp: computer_type_def utf16_units_def split: option.splits if_splits)
  moreover have "utf16_decode (concat (map utf16_char t)) = t"
    using ok assms(2) by (induction t) (simp_all add: utf16_decode_char)
  ultimately show ?thesis by simp
qed

lemma typed_text_is_received_witness:
  "computer_type [97, 0x1F600] = Inr [concat (map unicode_stroke [0x61, 0xD83D, 0xDE00])]
   \<and> utf16_decode (typed_units (concat (map unicode_stroke [0x61, 0xD83D, 0xDE00]))) = [97, 0x1F600]"
proof -
  have t: "computer_type [97, 0x1F600] = Inr [concat (map unicode_stroke [0x61, 0xD83D, 0xDE00])]"
    by (simp add: computer_type_def utf16_units_def is_surrogate_def utf16_char_def)
  show ?thesis using t typed_text_is_received [OF t] by simp
qed

definition in_grid :: "int \<Rightarrow> bool" where
  "in_grid v \<longleftrightarrow> 0 \<le> v \<and> v \<le> COMPUTER_GRID_MAX"

definition look_in_grid :: "screen \<Rightarrow> bool" where
  "look_in_grid look \<longleftrightarrow> (\<forall>f c x y. look = Some f \<longrightarrow> f c = Some (x, y) \<longrightarrow> in_grid x \<and> in_grid y)"

definition on_desktop :: "input \<Rightarrow> bool" where
  "on_desktop e = (case e of
       Mouse dx dy dat f \<Rightarrow> uint dx \<le> 65535 \<and> uint dy \<le> 65535 \<and> \<bar>sint dat\<bar> \<le> 1200
     | Key _ _ _ \<Rightarrow> True)"

lemma computer_abs_range: "in_grid v \<Longrightarrow> 0 \<le> computer_abs v \<and> computer_abs v \<le> 65535"
  by (auto simp: in_grid_def computer_abs_def COMPUTER_GRID_MAX_def)

lemma uint_abs: "in_grid v \<Longrightarrow> uint (word_of_int (computer_abs v) :: 32 word) = computer_abs v"
  using computer_abs_range [of v] by (simp add: unsigned_of_int take_bit_int_eq_self)

lemma click_on_desktop:
  "in_grid x \<Longrightarrow> in_grid y \<Longrightarrow> \<forall>e \<in> set (concat (computer_move_to x y)). on_desktop e"
  "in_grid x \<Longrightarrow> in_grid y \<Longrightarrow> \<forall>e \<in> set (concat (computer_click_at x y button double)). on_desktop e"
  by (auto simp: computer_click_at_def computer_move_to_def on_desktop_def Let_def uint_abs computer_abs_range
      split: prod.splits)


lemma drag_on_desktop:
  "in_grid x1 \<Longrightarrow> in_grid y1 \<Longrightarrow> in_grid x2 \<Longrightarrow> in_grid y2 \<Longrightarrow>
     \<forall>e \<in> set (concat (computer_drag x1 y1 x2 y2)). on_desktop e"
  using click_on_desktop(1) by (auto simp: computer_drag_def) (auto simp: on_desktop_def)

lemma scroll_data:
  assumes "1 \<le> amount" and "amount \<le> 10"
  shows "\<bar>sint (word_of_int (120 * amount) :: 32 word)\<bar> \<le> 1200" "\<bar>sint (- word_of_int (120 * amount) :: 32 word)\<bar> \<le> 1200"
proof -
  have "amount \<in> {1, 2, 3, 4, 5, 6, 7, 8, 9, 10}" using assms unfolding insert_iff empty_iff by presburger
  then show "\<bar>sint (word_of_int (120 * amount) :: 32 word)\<bar> \<le> 1200" "\<bar>sint (- word_of_int (120 * amount) :: 32 word)\<bar> \<le> 1200"
    by auto
qed

lemma scroll_on_desktop:
  assumes "1 \<le> amount" and "amount \<le> 10" and "\<And>x y. p = Some (x, y) \<Longrightarrow> in_grid x \<and> in_grid y"
  shows "\<forall>e \<in> set (concat (computer_scroll_at p direction amount)). on_desktop e"
proof -
  have moves: "\<forall>e \<in> set (concat (case p of Some (x, y) \<Rightarrow> computer_move_to x y | None \<Rightarrow> [])). on_desktop e"
    using click_on_desktop(1) assms(3) by (cases p) auto
  have "on_desktop (Mouse 0 0 dat f)" if "dat \<in> {word_of_int (120 * amount), - word_of_int (120 * amount)}" for dat f
    using that scroll_data [OF assms(1,2)] by (auto simp: on_desktop_def simp del: of_int_mult)
  then show ?thesis using moves by (auto simp: computer_scroll_at_def Let_def simp del: of_int_mult)
qed

lemma keys_on_desktop: "(\<And>e. e \<in> set evs \<Longrightarrow> \<exists>vk sc f. e = Key vk sc f) \<Longrightarrow> \<forall>e \<in> set evs. on_desktop e"
  by (fastforce simp: on_desktop_def)

lemma press_type_on_desktop:
  "computer_press chord = Inr bs \<Longrightarrow> \<forall>e \<in> set (concat bs). on_desktop e"
  "computer_type txt' = Inr bs \<Longrightarrow> \<forall>e \<in> set (concat bs). on_desktop e"
  by (intro keys_on_desktop; auto simp: computer_press_def computer_type_def vk_stroke_def unicode_stroke_def Let_def
      split: option.splits if_splits)+


definition plain_rest :: "pydict \<Rightarrow> bool" where
  "plain_rest rest \<longleftrightarrow> (\<forall>k \<in> set [''control'', ''x'', ''y'', ''x1'', ''y1'', ''x2'', ''y2'']. map_of rest (lit k) = None)"

lemma resolve_target:
  assumes t: "computer_target fi args bare xk yk ck = Inr target"
    and k: "(xk, yk) \<in> {(''x'', ''y''), (''x1'', ''y1''), (''x2'', ''y2'')}"
    and look: "look_in_grid look" and rest: "plain_rest rest"
    and r: "computer_resolve look (target @ rest) = Inr (Some (gx, gy))"
  shows "in_grid gx \<and> in_grid gy"
  using t
proof (cases rule: computer_target_cases)
  case 1
  then show ?thesis using r rest by (simp add: computer_resolve_def dget_def dget_or_def plain_rest_def)
next
  case (2 c)
  then show ?thesis using r look
    by (auto simp: computer_resolve_def look_in_grid_def split: option.splits)
next
  case (3 ax ay)
  then show ?thesis using r k rest
    by (auto simp: computer_resolve_def dget_def dget_or_def plain_rest_def int_of_def in_grid_def)
qed

lemma focus_click_on_desktop:
  assumes "focus_click look norm f = (out, effs)"
    and "\<And>x y. computer_resolve look norm = Inr (Some (x, y)) \<Longrightarrow> in_grid x \<and> in_grid y"
    and "\<And>sent out effs. f sent = (out, effs) \<Longrightarrow> \<forall>e \<in> set (sent_events sent). on_desktop e
      \<Longrightarrow> \<forall>e \<in> set (sent_events effs). on_desktop e"
  shows "\<forall>e \<in> set (sent_events effs). on_desktop e"
proof -
  consider "effs = []" | "f [] = (out, effs)"
    | x y where "computer_resolve look norm = Inr (Some (x, y))"
        "f (map Send (computer_click_at x y (lit ''left'') False) @ [RestorePointer]) = (out, effs)"
    using assms(1) by (force simp: focus_click_def split: if_splits sum.splits option.splits)
  then show ?thesis
  proof cases
    case 2
    then show ?thesis using assms(3) by (metis empty_iff list.set(1) sent_events_simps(1))
  next
    case (3 x y)
    then show ?thesis using assms(3) [OF 3(2)] assms(2) [OF 3(1)] click_on_desktop(2) [of x y "lit ''left''" False]
      by (simp del: set_concat)
  qed simp
qed

lemma send_all_on_desktop:
  assumes "send_all r sent = (out, effs)" and "\<forall>e \<in> set (sent_events sent). on_desktop e"
    and "\<And>bs. r = Inr bs \<Longrightarrow> \<forall>e \<in> set (concat bs). on_desktop e"
  shows "\<forall>e \<in> set (sent_events effs). on_desktop e"
proof (cases r)
  case (Inl e)
  then show ?thesis using assms by (auto simp: send_all_def)
next
  case (Inr bs)
  then have "sent_events effs = sent_events sent @ concat bs" using assms(1) by (auto simp: send_all_def)
  then show ?thesis using assms(2) assms(3) [OF Inr] by (simp del: set_concat) blast
qed


lemma act_on_desktop:
  assumes look: "look_in_grid look"
  shows "norm_click fi args = Inr n \<Longrightarrow> act_click look n = (out, effs) \<Longrightarrow> \<forall>e \<in> set (sent_events effs). on_desktop e"
    and "norm_type_text fi args = Inr n \<Longrightarrow> act_type_text look focus n = (out, effs) \<Longrightarrow> \<forall>e \<in> set (sent_events effs). on_desktop e"
    and "norm_press_keys fi args = Inr n \<Longrightarrow> act_press_keys look n = (out, effs) \<Longrightarrow> \<forall>e \<in> set (sent_events effs). on_desktop e"
    and "norm_scroll fi args = Inr n \<Longrightarrow> act_scroll look n = (out, effs) \<Longrightarrow> \<forall>e \<in> set (sent_events effs). on_desktop e"
    and "norm_drag fi args = Inr n \<Longrightarrow> act_drag look n = (out, effs) \<Longrightarrow> \<forall>e \<in> set (sent_events effs). on_desktop e"
proof -
  have plain: "in_grid x \<and> in_grid y"
    if "computer_target fi args bare ''x'' ''y'' ''control'' = Inr target" "plain_rest rest"
      "computer_resolve look (target @ rest) = Inr (Some (x, y))" for bare target rest x y
    using resolve_target [OF that(1) _ look that(2,3)] by simp
  note rest = plain_rest_def
  {
    assume "norm_click fi args = Inr n" and act: "act_click look n = (out, effs)"
    then obtain target rest where n: "n = target @ rest" "plain_rest rest"
      "computer_target fi args False ''x'' ''y'' ''control'' = Inr target"
      by (auto simp: norm_click_def rest)
    then show "\<forall>e \<in> set (sent_events effs). on_desktop e"
      using act plain [OF n(3,2)] click_on_desktop(2)
      by (auto simp: act_click_def warped_def simp del: set_concat split: sum.splits option.splits prod.splits)
  }
  {
    assume "norm_scroll fi args = Inr n" and act: "act_scroll look n = (out, effs)"
    then obtain target d amount where t: "computer_target fi args True ''x'' ''y'' ''control'' = Inr target"
      and n: "n = target @ [(lit ''direction'', JStr d), (lit ''amount'', JInt amount)]"
      and amount: "1 \<le> amount" "amount \<le> 10"
      by (auto simp: norm_scroll_def COMPUTER_SCROLL_MAX_AMOUNT_def)
    have pr: "plain_rest [(lit ''direction'', JStr d), (lit ''amount'', JInt amount)]" by (simp add: rest)
    have a: "int_of (dget n (lit ''amount'')) = amount" by (simp add: n target_keys [OF t] int_of_def)
    show "\<forall>e \<in> set (sent_events effs). on_desktop e"
    proof (cases "computer_resolve look n")
      case (Inl e)
      then show ?thesis using act by (auto simp: act_scroll_def)
    next
      case (Inr pt)
      then have "in_grid x \<and> in_grid y" if "pt = Some (x, y)" for x y
        using plain [OF t pr] that n by simp
      then have "\<forall>e \<in> set (concat (computer_scroll_at pt (str_at n ''direction'') amount)). on_desktop e"
        by (intro scroll_on_desktop amount) auto
      then show ?thesis using act Inr a by (auto simp: act_scroll_def warped_def simp del: set_concat)
    qed
  }
  {
    assume "norm_drag fi args = Inr n" and act: "act_drag look n = (out, effs)"
    then obtain src dst where n: "n = [(lit ''from'', JObj src), (lit ''to'', JObj dst)]"
      and t: "computer_target fi args False ''x1'' ''y1'' ''control_from'' = Inr src"
        "computer_target fi args False ''x2'' ''y2'' ''control_to'' = Inr dst"
      by (auto simp: norm_drag_def)
    have "in_grid x \<and> in_grid y" if "computer_resolve look src = Inr (Some (x, y))" for x y
      using resolve_target [OF t(1) _ look, of "[]" x y] that by (simp add: rest)
    moreover have "in_grid x \<and> in_grid y" if "computer_resolve look dst = Inr (Some (x, y))" for x y
      using resolve_target [OF t(2) _ look, of "[]" x y] that by (simp add: rest)
    ultimately show "\<forall>e \<in> set (sent_events effs). on_desktop e"
      using act drag_on_desktop
      by (auto simp: act_drag_def n dict_at_def warped_def simp del: set_concat
          split: sum.splits option.splits prod.splits)
  }
  {
    assume "norm_press_keys fi args = Inr n" and act: "act_press_keys look n = (out, effs)"
    then obtain target rest where n: "n = target @ rest" "plain_rest rest"
      "computer_target fi args True ''x'' ''y'' ''control'' = Inr target"
      by (auto simp: norm_press_keys_def rest split: json.splits if_splits)
    from act show "\<forall>e \<in> set (sent_events effs). on_desktop e" unfolding act_press_keys_def
    proof (rule focus_click_on_desktop)
      fix sent out effs
      assume f: "send_all (computer_press (parse_keys_chord (str_at n ''keys''))) sent = (out, effs)"
        and sent: "\<forall>e \<in> set (sent_events sent). on_desktop e"
      show "\<forall>e \<in> set (sent_events effs). on_desktop e"
        by (rule send_all_on_desktop [OF f sent]) (rule press_type_on_desktop)
    qed (use plain [OF n(3,2)] n(1) in auto)
  }
  {
    assume "norm_type_text fi args = Inr n" and act: "act_type_text look focus n = (out, effs)"
    then obtain target rest where n: "n = target @ rest" "plain_rest rest"
      "computer_target fi args True ''x'' ''y'' ''control'' = Inr target"
      by (auto simp: norm_type_text_def rest split: json.splits)
    from act show "\<forall>e \<in> set (sent_events effs). on_desktop e" unfolding act_type_text_def
    proof (rule focus_click_on_desktop)
      fix sent out effs
      assume f: "(case focus of None \<Rightarrow> (Failed, sent) | Some True \<Rightarrow> (Refused, sent)
          | Some False \<Rightarrow> (case send_all (computer_type (str_at n ''text'')) sent of
              (Done, sent') \<Rightarrow> if truthy (dget n (lit ''submit'')) then send_all (computer_press [lit ''enter'']) sent'
                else (Done, sent') | r \<Rightarrow> r)) = (out, effs)"
        and sent: "\<forall>e \<in> set (sent_events sent). on_desktop e"
      have typed: "\<forall>e \<in> set (sent_events e1). on_desktop e"
        if "send_all (computer_type (str_at n ''text'')) sent = (o1, e1)" for o1 e1
        by (rule send_all_on_desktop [OF that sent]) (rule press_type_on_desktop)
      have entered: "\<forall>e \<in> set (sent_events e2). on_desktop e"
        if "send_all (computer_press [lit ''enter'']) e1 = (o2, e2)" "\<forall>e \<in> set (sent_events e1). on_desktop e" for o2 e1 e2
        by (rule send_all_on_desktop [OF that]) (rule press_type_on_desktop)
      show "\<forall>e \<in> set (sent_events effs). on_desktop e"
        using f sent typed entered
        by (auto split: option.splits bool.splits prod.splits outcome.splits if_splits)
    qed (use plain [OF n(3,2)] n(1) in auto)
  }
qed

text \<open>
  The pointer stays on the desktop: whatever the arguments, every absolute position that is sent
  lies in the 16-bit range of the virtual screen and no wheel turn exceeds ten notches, read back
  from the 32-bit fields (negative turns are encoded by wrap-around).\<close>

lemma pointer_stays_on_the_desktop:
  assumes "look_in_grid look" and "computer_act fi windows look focus name args = (out, effs)"
  shows "\<forall>e \<in> set (sent_events effs). on_desktop e"
  using assms(2) act_on_desktop [OF assms(1)]
  by (auto simp: computer_act_def normalize_computer_args_def act_open_app_def split: act_splits)

lemma pointer_stays_on_the_desktop_witness:
  "list_all on_desktop (sent_events (snd (computer_act (\<lambda>_. Inl Crash) True (Some (\<lambda>_. Some (1000, 7))) None
     (lit ''scroll'') [(lit ''control'', JStr (lit ''C1'')), (lit ''direction'', JStr (lit ''down''))])))"
proof -
  have "look_in_grid (Some (\<lambda>_. Some (1000, 7)))"
    by (simp add: look_in_grid_def in_grid_def COMPUTER_GRID_MAX_def)
  then show ?thesis unfolding list_all_iff using pointer_stays_on_the_desktop by (metis surjective_pairing)
qed


text \<open>
  A chord whose main key is neither a letter nor a digit nor a named key goes out as a Unicode
  stroke between the modifiers, although such strokes ignore held modifiers.
\<close>

lemma punctuation_chord_is_a_unicode_stroke:
  "computer_press (parse_keys_chord (lit ''ctrl+/''))
     = Inr [[Key 0x11 0 0, Key 0 0x2F 4, Key 0 0x2F (4 OR 2), Key 0x11 0 2]]"
  by code_simp

end
