(* ===== verification/FileTools.thy ===== *)
theory FileTools
  imports ComputerArgs
begin

text \<open>
  The file tools of \<open>invincible/core/tool_executor.py\<close>: the paged read (\<open>_read_file\<close>) and the exact
  replacement (\<open>_edit_file\<close>). The file system enters as what opening the path gives: nothing, a
  directory, or a text (decoded; for the read with the line ends of text mode, which are single
  line feeds). Texts of error messages and the atomic write itself are not modelled.
\<close>

section \<open>Reading a window of lines\<close>

definition READ_FILE_CONTENT_CHAR_CAP :: nat where
  "READ_FILE_CONTENT_CHAR_CAP = 65536"

text \<open>\<open>f.readline()\<close> and the text that is left.\<close>

fun readline :: "ustr \<Rightarrow> ustr \<times> ustr" where
  "readline [] = ([], [])"
| "readline (c # s) = (if c = 10 then ([c], s) else (case readline s of (l, r) \<Rightarrow> (c # l, r)))"

lemma readline_append: "fst (readline s) @ snd (readline s) = s"
  by (induction s) (auto split: prod.splits)

lemma readline_Nil [simp]: "fst (readline s) = [] \<longleftrightarrow> s = []"
  by (cases s) (auto split: prod.splits)

lemma readline_shorter: "s \<noteq> [] \<Longrightarrow> length (snd (readline s)) < length s"
  by (metis readline_append readline_Nil add_less_cancel_right add_0 length_append length_greater_0_conv)

fun skip_lines :: "nat \<Rightarrow> ustr \<Rightarrow> ustr option" where
  "skip_lines 0 s = Some s"
| "skip_lines (Suc n) s = (if s = [] then None else skip_lines n (snd (readline s)))"

text \<open>The loop: the characters so far, the lines taken, whether it stopped early, the rest.\<close>

function take_lines :: "nat \<Rightarrow> nat option \<Rightarrow> nat \<Rightarrow> ustr \<Rightarrow> ustr \<Rightarrow> ustr \<times> nat \<times> bool \<times> ustr" where
  "take_lines cap max_lines taken acc s =
     (if \<not> (case max_lines of None \<Rightarrow> True | Some m \<Rightarrow> taken < m) then (acc, taken, False, s)
      else if s = [] then (acc, taken, False, s)
      else let line = fst (readline s); rest = snd (readline s); room = cap + 1 - length acc in
        if cap + 1 \<le> length acc then (acc, taken, True, rest)
        else if length line > room then (acc @ take room line, taken, True, rest)
        else take_lines cap max_lines (Suc taken) (acc @ line) rest)"
  by pat_completeness auto
termination
  by (relation "measure (\<lambda>(_, _, _, _, s). length s)") (auto simp: readline_shorter)

declare take_lines.simps [simp del]

datatype opened = NoFile | Directory | TextFile ustr

datatype read_result = ReadOk ustr bool | ReadError | ReadRaises

definition as_int :: "float_int \<Rightarrow> json \<Rightarrow> int option \<Rightarrow> int option checked" where
  "as_int fi v dflt = (if v = JNull then Inr dflt
     else case to_int fi v of Inr i \<Rightarrow> Inr (Some i) | Inl ValueErr \<Rightarrow> Inr dflt | Inl e \<Rightarrow> Inl e)"

definition read_text :: "nat \<Rightarrow> nat \<Rightarrow> nat option \<Rightarrow> ustr \<Rightarrow> ustr \<times> bool" where
  "read_text cap first_line max_lines s =
     (case skip_lines (first_line - 1) s of
        None \<Rightarrow> ([], False)
      | Some s' \<Rightarrow>
          (case take_lines cap max_lines 0 [] s' of (content, taken, truncated, rest) \<Rightarrow>
             (take cap content,
              truncated
              \<or> (case max_lines of None \<Rightarrow> False | Some m \<Rightarrow> m \<le> taken \<and> rest \<noteq> [])
              \<or> cap < length content)))"

definition read_file :: "float_int \<Rightarrow> (ustr \<Rightarrow> opened) \<Rightarrow> ustr \<Rightarrow> json \<Rightarrow> json \<Rightarrow> read_result" where
  "read_file fi files path offset limit =
     (case (as_int fi offset (Some 1), as_int fi limit None) of
        (Inr (Some first), Inr max_lines) \<Rightarrow>
          (case files path of
             TextFile s \<Rightarrow>
               (case read_text READ_FILE_CONTENT_CHAR_CAP (nat (max first 1))
                       (map_option (\<lambda>m. nat (max m 0)) max_lines) s of
                  (content, truncated) \<Rightarrow> ReadOk content truncated)
           | _ \<Rightarrow> ReadError)
      | _ \<Rightarrow> ReadRaises)"

text \<open>The reference: the lines of a text, and the window of them that was asked for.\<close>

function lines :: "ustr \<Rightarrow> ustr list" where
  "lines s = (if s = [] then [] else fst (readline s) # lines (snd (readline s)))"
  by pat_completeness auto
termination
  by (relation "measure length") (auto simp: readline_shorter)

declare lines.simps [simp del]

lemma concat_lines: "concat (lines s) = s"
proof (induction s rule: lines.induct)
  case (1 s)
  then show ?case by (subst lines.simps) (simp add: readline_append)
qed

lemma lines_skip: "skip_lines n s = (if n \<le> length (lines s) then Some (concat (drop n (lines s))) else None)"
proof (induction n arbitrary: s)
  case 0
  then show ?case by (simp add: concat_lines)
next
  case (Suc n)
  have "lines s = (if s = [] then [] else fst (readline s) # lines (snd (readline s)))" by (rule lines.simps)
  then show ?case using Suc [of "snd (readline s)"] by auto
qed

definition window_lines :: "nat option \<Rightarrow> 'a list \<Rightarrow> 'a list" where
  "window_lines max_lines ls = (case max_lines of None \<Rightarrow> ls | Some m \<Rightarrow> take m ls)"

definition left_over :: "nat option \<Rightarrow> nat \<Rightarrow> nat option" where
  "left_over max_lines taken = map_option (\<lambda>m. m - taken) max_lines"

lemma take_lines_spec:
  assumes "length acc \<le> cap + 1" and "take_lines cap max_lines taken acc s = (content, taken', truncated, rest)"
  shows "let w = concat (window_lines (left_over max_lines taken) (lines s)) in
      content = take (cap + 1) (acc @ w) \<and> (truncated \<longleftrightarrow> cap + 1 < length (acc @ w))
      \<and> (\<not> truncated \<longrightarrow> w @ rest = s \<and> (rest \<noteq> [] \<longleftrightarrow> (\<exists>m. max_lines = Some m \<and> m \<le> taken' \<and> rest \<noteq> [])))"
  using assms
proof (induction cap max_lines taken acc s rule: take_lines.induct)
  case (1 cap max_lines taken acc s)
  let ?line = "fst (readline s)" and ?rest = "snd (readline s)"
  note ls = lines.simps [of s]
  show ?case
  proof (cases "(case max_lines of None \<Rightarrow> True | Some m \<Rightarrow> taken < m) \<and> s \<noteq> []")
    case False
    then show ?thesis using 1(2,3) ls
      by (auto simp: take_lines.simps [of cap max_lines taken acc s] window_lines_def left_over_def Let_def
          split: option.splits if_splits)
  next
    case True
    then have more: "(case max_lines of None \<Rightarrow> True | Some m \<Rightarrow> taken < m)" "s \<noteq> []" by auto
    have w: "concat (window_lines (left_over max_lines taken) (lines s))
        = ?line @ concat (window_lines (left_over max_lines (Suc taken)) (lines ?rest))"
      using more ls by (cases max_lines) (auto simp: window_lines_def left_over_def take_Cons' Suc_diff_Suc)
    have pos: "0 < length ?line" using more(2) by simp
    show ?thesis
    proof (cases "cap + 1 \<le> length acc \<or> length ?line > cap + 1 - length acc")
      case True
      have "take_lines cap max_lines taken acc s = (if cap + 1 \<le> length acc then (acc, taken, True, ?rest)
          else (acc @ take (cap + 1 - length acc) ?line, taken, True, ?rest))"
        using more True by (auto simp: take_lines.simps [of cap max_lines taken acc s] Let_def)
      then show ?thesis using 1(2,3) True pos unfolding w Let_def by (auto split: if_splits)
    next
      case False
      then have rec: "take_lines cap max_lines (Suc taken) (acc @ ?line) ?rest = (content, taken', truncated, rest)"
        using more 1(3) by (auto simp: take_lines.simps [of cap max_lines taken acc s] Let_def)
      have "length (acc @ ?line) \<le> cap + 1" using False unfolding length_append by linarith
      from 1(1) [OF _ more(2) refl refl refl _ _ this rec] more False
      show ?thesis unfolding w Let_def by (auto simp: readline_append)
    qed
  qed
qed


lemma skip_lines_Some: "skip_lines n s = Some s' \<Longrightarrow> lines s' = drop n (lines s) \<and> s' = concat (drop n (lines s))"
proof (induction n arbitrary: s)
  case 0
  then show ?case by (simp add: concat_lines)
next
  case (Suc n)
  then have "s \<noteq> []" "skip_lines n (snd (readline s)) = Some s'" by (auto split: if_splits)
  then show ?case using Suc.IH lines.simps [of s] by simp
qed

lemma skip_lines_None: "skip_lines n s = None \<longleftrightarrow> length (lines s) < n"
  by (simp add: lines_skip)

text \<open>
  C15: a read returns the lines that were asked for, up to the character cap, and reports truncation
  exactly when the file goes on after what was returned.\<close>

theorem read_returns_the_window:
  "read_text cap first_line max_lines s =
     (let ls = drop (first_line - 1) (lines s);
          content = take cap (concat (window_lines max_lines ls))
      in (content, content \<noteq> concat ls))"
proof (cases "skip_lines (first_line - 1) s")
  case None
  then have "drop (first_line - 1) (lines s) = []" using skip_lines_None by fastforce
  then show ?thesis using None by (simp add: read_text_def window_lines_def split: option.split)
next
  case (Some s')
  note s' = skip_lines_Some [OF Some]
  obtain content taken truncated rest where t: "take_lines cap max_lines 0 [] s' = (content, taken, truncated, rest)"
    by (metis prod_cases4)
  define w where "w = concat (window_lines max_lines (lines s'))"
  have "left_over max_lines 0 = max_lines" by (cases max_lines) (simp_all add: left_over_def)
  then have spec: "content = take (cap + 1) w" "truncated \<longleftrightarrow> cap + 1 < length w"
    "\<not> truncated \<Longrightarrow> w @ rest = s'"
    "\<not> truncated \<Longrightarrow> rest \<noteq> [] \<longleftrightarrow> (\<exists>m. max_lines = Some m \<and> m \<le> taken \<and> rest \<noteq> [])"
    using take_lines_spec [OF _ t] by (simp_all add: w_def Let_def)
  have whole: "s' = concat (lines s')" by (simp add: concat_lines)
  have w_prefix: "\<exists>r. s' = w @ r"
    using whole unfolding w_def window_lines_def
    by (metis append_Nil2 append_take_drop_id concat_append option.case_eq_if)
  have len: "length w \<le> length s'" using w_prefix by auto
  have read: "read_text cap first_line max_lines s = (take cap w, truncated
      \<or> (\<exists>m. max_lines = Some m \<and> m \<le> taken \<and> rest \<noteq> []) \<or> cap < length content)"
  proof -
    have "take cap content = take cap w" by (simp add: spec(1))
    moreover have "(case max_lines of None \<Rightarrow> False | Some m \<Rightarrow> m \<le> taken \<and> rest \<noteq> [])
        \<longleftrightarrow> (\<exists>m. max_lines = Some m \<and> m \<le> taken \<and> rest \<noteq> [])" by (cases max_lines) auto
    ultimately show ?thesis unfolding read_text_def Some option.case t prod.case by (simp only:)
  qed
  have "(truncated \<or> (\<exists>m. max_lines = Some m \<and> m \<le> taken \<and> rest \<noteq> []) \<or> cap < length content)
      \<longleftrightarrow> take cap w \<noteq> s'"
  proof (cases truncated)
    case True
    then have "length (take cap w) < length s'" using spec(2) len by simp
    then show ?thesis using True by auto
  next
    case False
    then have "content = w" using spec(1,2) by simp
    moreover have "take cap w = s' \<longleftrightarrow> rest = [] \<and> length w \<le> cap"
    proof -
      have s: "s' = w @ rest" using spec(3) False by simp
      show ?thesis
      proof
        assume "take cap w = s'"
        then have "length (take cap w) = length w + length rest" by (simp add: s)
        then show "rest = [] \<and> length w \<le> cap" by (cases rest) auto
      qed (simp add: s)
    qed
    ultimately show ?thesis using spec(4) False by auto
  qed
  then show ?thesis unfolding Let_def s' [THEN conjunct1, symmetric] concat_lines w_def [symmetric] read by simp
qed


section \<open>Exact replacement\<close>

text \<open>\<open>str.count\<close>, \<open>str.replace\<close> and \<open>str.find\<close> for a non-empty needle.\<close>

function count_str :: "ustr \<Rightarrow> ustr \<Rightarrow> nat" where
  "count_str old s = (if s = [] then 0
     else if is_prefix old s then Suc (count_str old (drop (length old - 1) (tl s)))
     else count_str old (tl s))"
  by pat_completeness auto
termination
  by (relation "measure (\<lambda>(_, s). length s)") (auto intro!: diff_less)

declare count_str.simps [simp del]

function replace_str :: "ustr \<Rightarrow> ustr \<Rightarrow> ustr \<Rightarrow> ustr" where
  "replace_str old new s = (if s = [] then []
     else if is_prefix old s then new @ replace_str old new (drop (length old - 1) (tl s))
     else hd s # replace_str old new (tl s))"
  by pat_completeness auto
termination
  by (relation "measure (\<lambda>(_, _, s). length s)") (auto intro!: diff_less)

declare replace_str.simps [simp del]

fun replace_first :: "ustr \<Rightarrow> ustr \<Rightarrow> ustr \<Rightarrow> ustr" where
  "replace_first old new [] = []"
| "replace_first old new (c # s) =
     (if is_prefix old (c # s) then new @ drop (length old) (c # s) else c # replace_first old new s)"

fun find_str :: "ustr \<Rightarrow> ustr \<Rightarrow> nat option" where
  "find_str old s = (if is_prefix old s then Some 0
     else (case s of [] \<Rightarrow> None | c # r \<Rightarrow> map_option Suc (find_str old r)))"

declare find_str.simps [simp del]

text \<open>\<open>.replace("\r\n", "\n").replace("\r", "\n")\<close>\<close>

definition norm_ends :: "ustr \<Rightarrow> ustr" where
  "norm_ends s = replace_str [13] [10] (replace_str [13, 10] [10] s)"

definition EDIT_FILE_BYTES_CAP :: nat where
  "EDIT_FILE_BYTES_CAP = 1024 * 1024"

text \<open>
  What the edit finds at its path. A readable file has a size in bytes, a NUL byte at its start or
  not, a byte order mark or not, and the rest of it decoded, when it is UTF-8.
\<close>

datatype edit_source =
    Missing
  | IsDirectory
  | Contents nat bool bool "ustr option"

datatype edit_error =
    EmptyOld | NotFoundFile | Identical | DirectoryErr | TooLarge | BinaryFile | NotUtf8 | NoMatch | ManyMatches nat

text \<open>The preview: about three lines around the first replacement, at most 500 characters.\<close>

fun line_at :: "nat \<Rightarrow> nat \<Rightarrow> nat \<Rightarrow> ustr list \<Rightarrow> nat" where
  "line_at match_at i pos [] = 0"
| "line_at match_at i pos (l # ls) =
     (if pos + length l + 1 > match_at then i else line_at match_at (Suc i) (pos + length l + 1) ls)"

definition edit_preview :: "ustr \<Rightarrow> nat \<Rightarrow> ustr" where
  "edit_preview new_norm match_at =
     (let ls = split_on 10 new_norm;
          start = line_at match_at 0 0 ls - 1;
          snippet = join [10] (take 3 (drop start ls))
      in if 500 < length snippet then take 500 snippet @ [8230] else snippet)"

record edited =
  out_text :: ustr
  out_bom :: bool
  replacements :: nat
  preview :: ustr

definition edit_text :: "ustr \<Rightarrow> bool \<Rightarrow> ustr \<Rightarrow> ustr \<Rightarrow> bool \<Rightarrow> edit_error + edited" where
  "edit_text t bom old_string new_string replace_all =
     (let crlf = count_str [13, 10] t;
          lf = count_str [10] t - crlf;
          windows = (0 < crlf \<and> lf \<le> crlf);
          norm_text = norm_ends t; norm_old = norm_ends old_string; norm_new = norm_ends new_string
      in if norm_old = [] then Inl EmptyOld
         else if norm_old = norm_new then Inl Identical
         else let count = count_str norm_old norm_text in
           if count = 0 then Inl NoMatch
           else if 1 < count \<and> \<not> replace_all then Inl (ManyMatches count)
           else let new_norm = (if replace_all then replace_str norm_old norm_new norm_text
                                else replace_first norm_old norm_new norm_text);
                    match_at = (if norm_new = [] then 0
                      else case find_str (take 60 norm_new) new_norm of None \<Rightarrow> 0 | Some i \<Rightarrow> i)
                in Inr \<lparr>out_text = (if windows then replace_str [10] [13, 10] new_norm else new_norm),
                        out_bom = bom, replacements = (if replace_all then count else 1),
                        preview = edit_preview new_norm match_at\<rparr>)"

definition edit_file :: "(ustr \<Rightarrow> edit_source) \<Rightarrow> ustr \<Rightarrow> ustr \<Rightarrow> ustr \<Rightarrow> bool \<Rightarrow> edit_error + edited" where
  "edit_file files path old_string new_string replace_all =
     (if old_string = [] then Inl EmptyOld
      else if strip path = [] then Inl NotFoundFile
      else if old_string = new_string then Inl Identical
      else case files path of
        Missing \<Rightarrow> Inl NotFoundFile
      | IsDirectory \<Rightarrow> Inl DirectoryErr
      | Contents bytes nul bom t \<Rightarrow>
          if EDIT_FILE_BYTES_CAP < bytes then Inl TooLarge
          else if nul then Inl BinaryFile
          else (case t of None \<Rightarrow> Inl NotUtf8
                | Some t' \<Rightarrow> edit_text t' bom old_string new_string replace_all))"


lemma replace_str_Nil [simp]: "replace_str old new [] = []" "count_str old [] = 0"
  by (simp_all add: replace_str.simps count_str.simps)

lemma replace_str_Cons:
  "replace_str old new (c # s) = (if is_prefix old (c # s) then new @ replace_str old new (drop (length old - 1) s)
     else c # replace_str old new s)"
  "count_str old (c # s) = (if is_prefix old (c # s) then Suc (count_str old (drop (length old - 1) s))
     else count_str old s)"
  by (simp_all add: replace_str.simps [of old new "c # s"] count_str.simps [of old "c # s"])

lemma replace_char: "replace_str [c] new s = concat (map (\<lambda>x. if x = c then new else [x]) s)"
  by (induction s) (auto simp: replace_str_Cons)

lemma count_char: "count_str [c] s = length (filter (\<lambda>x. x = c) s)"
  by (induction s) (auto simp: replace_str_Cons)

lemma replace_absent: "c \<notin> set s \<Longrightarrow> replace_str (c # old) new s = s \<and> count_str (c # old) s = 0"
  by (induction s) (auto simp: replace_str_Cons)

definition with_ends :: "bool \<Rightarrow> ustr \<Rightarrow> ustr" where
  "with_ends windows t = (if windows then concat (map (\<lambda>x. if x = 10 then [13, 10] else [x]) t) else t)"

lemma crlf_back:
  "13 \<notin> set t \<Longrightarrow> replace_str [13, 10] [10] (with_ends True t) = t
     \<and> count_str [13, 10] (with_ends True t) = length (filter (\<lambda>x. x = 10) t)
     \<and> length (filter (\<lambda>x. x = 10) (with_ends True t)) = length (filter (\<lambda>x. x = 10) t)"
  by (induction t) (auto simp: replace_str_Cons with_ends_def)

lemma norm_ends_with_ends: "13 \<notin> set t \<Longrightarrow> norm_ends (with_ends windows t) = t"
proof (cases windows)
  case True
  moreover assume "13 \<notin> set t"
  ultimately show ?thesis using crlf_back [of t] replace_absent [of 13 t "[]" "[10]"] by (simp add: norm_ends_def)
next
  case False
  moreover assume "13 \<notin> set t"
  ultimately show ?thesis using replace_absent [of 13 t "[10]" "[10]"] replace_absent [of 13 t "[]" "[10]"]
    by (simp add: norm_ends_def with_ends_def)
qed

lemma is_prefix_append: "is_prefix old s \<Longrightarrow> s = old @ drop (length old) s"
  by (induction old s rule: is_prefix.induct) auto

lemma replace_first_match:
  "count_str old s \<noteq> 0 \<Longrightarrow> old \<noteq> [] \<Longrightarrow> \<exists>a b. s = a @ old @ b \<and> replace_first old new s = a @ new @ b"
proof (induction s)
  case (Cons c s)
  show ?case
  proof (cases "is_prefix old (c # s)")
    case True
    then have "c # s = [] @ old @ drop (length old) (c # s)" using is_prefix_append by simp
    moreover have "replace_first old new (c # s) = [] @ new @ drop (length old) (c # s)" using True by simp
    ultimately show ?thesis by blast
  next
    case False
    then obtain a b where "s = a @ old @ b" "replace_first old new s = a @ new @ b"
      using Cons by (auto simp: replace_str_Cons)
    then have "c # s = (c # a) @ old @ b \<and> replace_first old new (c # s) = (c # a) @ new @ b"
      using False by simp
    then show ?thesis by blast
  qed
qed simp

text \<open>
  An edit without replace-all changes one place and nothing else: in a file whose line ends are
  all of one kind, the one occurrence of the old text becomes the new text, and the line ends and
  the byte order mark stay what they were.\<close>

lemma edit_changes_one_place:
  assumes "edit_text (with_ends windows t) bom old_string new_string False = Inr e"
    and "13 \<notin> set t" and "10 \<in> set t"
  shows "count_str (norm_ends old_string) t = 1 \<and> replacements e = 1 \<and> out_bom e = bom
    \<and> (\<exists>a b. t = a @ norm_ends old_string @ b
           \<and> out_text e = with_ends windows (a @ norm_ends new_string @ b))"
proof -
  let ?old = "norm_ends old_string" and ?new = "norm_ends new_string"
  note norm = norm_ends_with_ends [OF assms(2), of windows]
  have newlines: "0 < length (filter (\<lambda>x. x = 10) t)" using assms(3) by (auto simp: filter_empty_conv)
  have "count_str [13, 10] (with_ends windows t) = (if windows then length (filter (\<lambda>x. x = 10) t) else 0)"
    using crlf_back [OF assms(2)] replace_absent [OF assms(2), of "[10]"] by (simp add: with_ends_def)
  moreover have "count_str [10] (with_ends windows t) = length (filter (\<lambda>x. x = 10) t)"
    using crlf_back [OF assms(2)] by (cases windows) (simp_all add: count_char, simp add: with_ends_def)
  ultimately have w: "(0 < count_str [13, 10] (with_ends windows t) \<and>
      count_str [10] (with_ends windows t) - count_str [13, 10] (with_ends windows t)
        \<le> count_str [13, 10] (with_ends windows t)) \<longleftrightarrow> windows"
    using newlines by simp
  have old: "?old \<noteq> []" and count: "count_str ?old t = 1" and rep: "replacements e = 1" "out_bom e = bom"
    and out: "out_text e = (if windows then replace_str [10] [13, 10] (replace_first ?old ?new t)
       else replace_first ?old ?new t)"
    using assms(1) unfolding edit_text_def Let_def norm w by (auto split: if_splits)
  obtain a b where "t = a @ ?old @ b" "replace_first ?old ?new t = a @ ?new @ b"
    using replace_first_match [of ?old t ?new] count old by auto
  moreover from this have "out_text e = with_ends windows (a @ ?new @ b)"
    unfolding out by (simp add: with_ends_def replace_char)
  ultimately show ?thesis using count rep by blast
qed

definition sample_lines :: ustr where
  "sample_lines = lit ''one'' @ [10] @ lit ''two'' @ [10]"

lemma edit_changes_one_place_witness:
  "\<exists>e a b. edit_text (with_ends True sample_lines) False (lit ''two'') (lit ''2'') False = Inr e
     \<and> sample_lines = a @ lit ''two'' @ b \<and> out_text e = with_ends True (a @ lit ''2'' @ b)"
proof -
  have "\<not> isl (edit_text (with_ends True sample_lines) False (lit ''two'') (lit ''2'') False)" by code_simp
  then obtain e where e: "edit_text (with_ends True sample_lines) False (lit ''two'') (lit ''2'') False = Inr e"
    by (cases "edit_text (with_ends True sample_lines) False (lit ''two'') (lit ''2'') False") simp_all
  have "norm_ends (lit ''two'') = lit ''two''" "norm_ends (lit ''2'') = lit ''2''" by code_simp+
  then show ?thesis
    using e edit_changes_one_place [OF e] by (auto simp: sample_lines_def lit_def)
qed

text \<open>
  In a file with mixed line ends the lines that the edit does not touch are rewritten too: all of
  them get the line end that is the more frequent one.
\<close>

lemma mixed_line_ends_are_rewritten:
  "map_sum id out_text (edit_text (lit ''a'' @ [10] @ lit ''b'' @ [13, 10]) False (lit ''b'') (lit ''c'') False)
     = Inr (lit ''a'' @ [13, 10] @ lit ''c'' @ [13, 10])"
  by code_simp

end
