(* ===== verification/OAuthStore.thy ===== *)
theory OAuthStore
  imports Tickets
begin

text \<open>
  The grants of the OAuth authorization server (\<open>invincible/core/oauth_store.py\<close>): clients,
  authorization codes and tokens as lists of rows. The clock and the random values (codes, tokens)
  are arguments; \<open>hash\<close> is the SHA-256 of \<open>token_hash\<close>, \<open>s256\<close> the code challenge of a verifier,
  \<open>urlparse\<close> the parts of a URL. An operation that the source runs in several transactions is
  split where it commits, so that requests can be interleaved. Texts of errors are not modelled.
\<close>

record code_row =
  c_code :: ustr
  c_client :: ustr
  c_redirect :: ustr
  c_challenge :: ustr
  c_subject :: "int option"
  c_expires :: int
  c_used :: bool

datatype token_type = Access | Refresh

record token_row =
  t_hash :: ustr
  t_type :: token_type
  t_client :: ustr
  t_subject :: "int option"
  t_expires :: int
  t_revoked :: bool
  t_created :: int

record client_row =
  cl_id :: ustr
  cl_name :: ustr
  cl_redirects :: "ustr list"
  cl_owner :: "int option"
  cl_created :: int

record grants =
  clients :: "client_row list"
  codes :: "code_row list"
  tokens :: "token_row list"

text \<open>\<open>Integrity\<close> is the database's refusal of a second row with the same key; it leaves the
  operation as an exception of its own.\<close>

datatype oauth_error = InvalidRequest | InvalidRedirectUri | InvalidGrant | Integrity

definition CODE_TTL :: int where "CODE_TTL = 300"
definition ACCESS_TOKEN_TTL :: int where "ACCESS_TOKEN_TTL = 3600"
definition REFRESH_TOKEN_TTL :: int where "REFRESH_TOKEN_TTL = 30 * 24 * 3600"

definition expire_lazy :: "int \<Rightarrow> grants \<Rightarrow> grants" where
  "expire_lazy now g =
     g\<lparr>codes := filter (\<lambda>c. \<not> c_expires c \<le> now) (codes g),
       tokens := filter (\<lambda>t. \<not> t_expires t \<le> now) (tokens g)\<rparr>"

section \<open>Clients\<close>

record url_parts =
  scheme :: ustr
  netloc :: ustr
  hostname :: ustr
  fragment :: ustr

definition valid_redirect_uri :: "(ustr \<Rightarrow> url_parts option) \<Rightarrow> ustr \<Rightarrow> bool" where
  "valid_redirect_uri urlparse uri = (case urlparse uri of
       None \<Rightarrow> False
     | Some p \<Rightarrow>
         if scheme p = lit ''https'' then netloc p \<noteq> [] \<and> fragment p = []
         else if scheme p = lit ''http''
         then lower (hostname p) \<in> {lit ''localhost'', lit ''127.0.0.1''}
         else False)"

definition register_client ::
  "(ustr \<Rightarrow> url_parts option) \<Rightarrow> int \<Rightarrow> ustr \<Rightarrow> json \<Rightarrow> ustr \<Rightarrow> int option \<Rightarrow> grants \<Rightarrow> oauth_error + grants" where
  "register_client urlparse now client_id redirect_uris client_name owner g =
     (case redirect_uris of
        JList us \<Rightarrow>
          if us = [] then Inl InvalidRequest
          else if \<not> list_all is_str us then Inl InvalidRequest
          else let uris = map (\<lambda>u. case u of JStr s \<Rightarrow> s | _ \<Rightarrow> []) us in
            if list_ex (\<lambda>u. \<not> valid_redirect_uri urlparse u) uris then Inl InvalidRedirectUri
            else if list_ex (\<lambda>c. cl_id c = client_id) (clients g) then Inl Integrity
            else Inr (g\<lparr>clients := clients g @ [\<lparr>cl_id = client_id, cl_name = strip client_name,
                   cl_redirects = uris, cl_owner = owner, cl_created = now\<rparr>]\<rparr>)
      | _ \<Rightarrow> Inl InvalidRequest)"

definition get_client :: "ustr \<Rightarrow> grants \<Rightarrow> client_row option" where
  "get_client client_id g = find (\<lambda>c. cl_id c = client_id) (clients g)"

definition attach_owner :: "ustr \<Rightarrow> int \<Rightarrow> grants \<Rightarrow> grants" where
  "attach_owner client_id user g =
     g\<lparr>clients := map (\<lambda>c. if cl_id c = client_id then c\<lparr>cl_owner := Some user\<rparr> else c) (clients g)\<rparr>"

definition get_client_owner :: "ustr \<Rightarrow> grants \<Rightarrow> int option" where
  "get_client_owner client_id g = (case get_client client_id g of None \<Rightarrow> None | Some c \<Rightarrow> cl_owner c)"

text \<open>What the listings show of a client: not its owner.\<close>

definition client_view :: "client_row \<Rightarrow> ustr \<times> ustr \<times> ustr list \<times> int" where
  "client_view c = (cl_id c, cl_name c, cl_redirects c, cl_created c)"

definition list_clients :: "grants \<Rightarrow> (ustr \<times> ustr \<times> ustr list \<times> int) list" where
  "list_clients g = map client_view (sort_key cl_created (clients g))"

definition list_clients_manageable :: "int list \<Rightarrow> bool \<Rightarrow> grants \<Rightarrow> (ustr \<times> ustr \<times> ustr list \<times> int) list" where
  "list_clients_manageable user_ids include_unowned g =
     (if user_ids = [] then []
      else map client_view (sort_key cl_created (filter (\<lambda>c. case cl_owner c of
          None \<Rightarrow> include_unowned | Some u \<Rightarrow> u \<in> set user_ids) (clients g))))"

section \<open>Authorization codes\<close>

text \<open>The code is the primary key: inserting one that is there already fails.\<close>

definition create_code ::
  "int \<Rightarrow> int \<Rightarrow> ustr \<Rightarrow> ustr \<Rightarrow> ustr \<Rightarrow> ustr \<Rightarrow> int \<Rightarrow> grants \<Rightarrow> grants" where
  "create_code now ttl code client redirect challenge subject g =
     (if list_ex (\<lambda>c. c_code c = code) (codes g) then g
      else g\<lparr>codes := codes g @ [\<lparr>c_code = code, c_client = client, c_redirect = redirect,
               c_challenge = challenge, c_subject = Some subject, c_expires = now + ttl, c_used = False\<rparr>]\<rparr>)"

definition find_code :: "ustr \<Rightarrow> grants \<Rightarrow> code_row option" where
  "find_code code g = find (\<lambda>c. c_code c = code) (codes g)"

text \<open>The checks of \<open>consume_code_subject\<close> on the row that was read.\<close>

definition check_code ::
  "(ustr \<Rightarrow> ustr) \<Rightarrow> ustr \<Rightarrow> ustr \<Rightarrow> ustr \<Rightarrow> code_row option \<Rightarrow> oauth_error + int option" where
  "check_code s256 client redirect verifier row = (case row of
       None \<Rightarrow> Inl InvalidGrant
     | Some c \<Rightarrow>
         if c_used c then Inl InvalidGrant
         else if c_client c \<noteq> client \<or> c_redirect c \<noteq> redirect then Inl InvalidGrant
         else if s256 verifier \<noteq> c_challenge c then Inl InvalidGrant
         else Inr (c_subject c))"

definition mark_used :: "ustr \<Rightarrow> grants \<Rightarrow> grants" where
  "mark_used code g = g\<lparr>codes := map (\<lambda>c. if c_code c = code then c\<lparr>c_used := True\<rparr> else c) (codes g)\<rparr>"

definition consume_code_subject ::
  "(ustr \<Rightarrow> ustr) \<Rightarrow> int \<Rightarrow> ustr \<Rightarrow> ustr \<Rightarrow> ustr \<Rightarrow> ustr \<Rightarrow> grants \<Rightarrow> (oauth_error + int option) \<times> grants" where
  "consume_code_subject s256 now code client redirect verifier g =
     (let g1 = expire_lazy now g in
      case check_code s256 client redirect verifier (find_code code g1) of
        Inl e \<Rightarrow> (Inl e, g1)
      | Inr subject \<Rightarrow> (Inr subject, mark_used code g1))"

section \<open>Tokens\<close>

text \<open>The hash is the primary key; the result says whether the row went in.\<close>

definition insert_token ::
  "(ustr \<Rightarrow> ustr) \<Rightarrow> int \<Rightarrow> ustr \<Rightarrow> token_type \<Rightarrow> ustr \<Rightarrow> int \<Rightarrow> int \<Rightarrow> grants \<Rightarrow> bool \<times> grants" where
  "insert_token hash now raw ty client ttl subject g =
     (if list_ex (\<lambda>t. t_hash t = hash raw) (tokens g) then (False, g)
      else (True, g\<lparr>tokens := tokens g @ [\<lparr>t_hash = hash raw, t_type = ty, t_client = client, t_subject = Some subject,
                              t_expires = now + ttl, t_revoked = False, t_created = now\<rparr>]\<rparr>))"

definition issue_token_pair ::
  "(ustr \<Rightarrow> ustr) \<Rightarrow> int \<Rightarrow> ustr \<Rightarrow> ustr \<Rightarrow> ustr \<Rightarrow> int \<Rightarrow> grants \<Rightarrow> bool \<times> grants" where
  "issue_token_pair hash now access refresh client subject g =
     (case insert_token hash now access Access client ACCESS_TOKEN_TTL subject g of
        (True, g1) \<Rightarrow> insert_token hash now refresh Refresh client REFRESH_TOKEN_TTL subject g1
      | (False, g1) \<Rightarrow> (False, g1))"

definition token_row_for :: "(ustr \<Rightarrow> ustr) \<Rightarrow> ustr \<Rightarrow> grants \<Rightarrow> token_row option" where
  "token_row_for hash raw g = find (\<lambda>t. t_hash t = hash raw) (tokens g)"

definition validate_access ::
  "(ustr \<Rightarrow> ustr) \<Rightarrow> int \<Rightarrow> ustr \<Rightarrow> grants \<Rightarrow> (ustr \<times> int option) option \<times> grants" where
  "validate_access hash now raw g =
     (let g1 = expire_lazy now g in
      (case token_row_for hash raw g1 of
         None \<Rightarrow> None
       | Some t \<Rightarrow> if t_type t \<noteq> Access \<or> t_revoked t then None else Some (t_client t, t_subject t), g1))"

definition revoke_by_hash :: "ustr \<Rightarrow> grants \<Rightarrow> grants" where
  "revoke_by_hash h g = g\<lparr>tokens := map (\<lambda>t. if t_hash t = h then t\<lparr>t_revoked := True\<rparr> else t) (tokens g)\<rparr>"

definition check_refresh :: "token_row option \<Rightarrow> oauth_error + ustr \<times> int" where
  "check_refresh row = (case row of
       None \<Rightarrow> Inl InvalidGrant
     | Some t \<Rightarrow>
         if t_type t \<noteq> Refresh \<or> t_revoked t then Inl InvalidGrant
         else (case t_subject t of None \<Rightarrow> Inl InvalidGrant | Some u \<Rightarrow> Inr (t_client t, u)))"

definition rotate_refresh ::
  "(ustr \<Rightarrow> ustr) \<Rightarrow> int \<Rightarrow> ustr \<Rightarrow> ustr \<Rightarrow> ustr \<Rightarrow> grants \<Rightarrow> (oauth_error + ustr \<times> int) \<times> grants" where
  "rotate_refresh hash now raw access refresh g =
     (let g1 = expire_lazy now g in
      case check_refresh (token_row_for hash raw g1) of
        Inl e \<Rightarrow> (Inl e, g1)
      | Inr (client, subject) \<Rightarrow>
          (case issue_token_pair hash now access refresh client subject (revoke_by_hash (hash raw) g1) of
             (True, g2) \<Rightarrow> (Inr (client, subject), g2)
           | (False, g2) \<Rightarrow> (Inl Integrity, g2)))"

definition revoke :: "(ustr \<Rightarrow> ustr) \<Rightarrow> int \<Rightarrow> ustr \<Rightarrow> grants \<Rightarrow> bool \<times> grants" where
  "revoke hash now raw g =
     (let g1 = expire_lazy now g in
      case token_row_for hash raw g1 of
        None \<Rightarrow> (False, g1)
      | Some t \<Rightarrow> if t_revoked t then (False, g1) else (True, revoke_by_hash (hash raw) g1))"

definition revoke_client_tokens :: "int \<Rightarrow> ustr \<Rightarrow> grants \<Rightarrow> nat \<times> grants" where
  "revoke_client_tokens now client g =
     (let g1 = expire_lazy now g in
      (length (filter (\<lambda>t. t_client t = client \<and> \<not> t_revoked t) (tokens g1)),
       g1\<lparr>tokens := map (\<lambda>t. if t_client t = client \<and> \<not> t_revoked t then t\<lparr>t_revoked := True\<rparr> else t) (tokens g1)\<rparr>))"

definition list_active_tokens ::
  "int \<Rightarrow> ustr option \<Rightarrow> grants \<Rightarrow> (ustr \<times> token_type \<times> ustr \<times> int \<times> bool) list \<times> grants" where
  "list_active_tokens now client g =
     (let g1 = expire_lazy now g in
      (map (\<lambda>t. (take 12 (t_hash t), t_type t, t_client t, t_expires t, t_revoked t))
         (sort_key t_created (filter (\<lambda>t. case client of None \<Rightarrow> True | Some c \<Rightarrow> t_client t = c) (tokens g1))), g1))"

section \<open>Codes keep the token contract\<close>

definition codes_ok :: "grants \<Rightarrow> bool" where
  "codes_ok g \<longleftrightarrow> distinct (map c_code (codes g))"

definition open_code :: "grants \<Rightarrow> ustr \<Rightarrow> code_row option" where
  "open_code g code = (case find_code code g of None \<Rightarrow> None | Some c \<Rightarrow> if c_used c then None else Some c)"

lemma open_code_iff: "codes_ok g \<Longrightarrow> open_code g code = Some c \<longleftrightarrow> c \<in> set (codes g) \<and> c_code c = code \<and> \<not> c_used c"
proof -
  assume ok: "codes_ok g"
  have "find_code code g = Some c \<longleftrightarrow> c \<in> set (codes g) \<and> c_code c = code"
    using ok find_key_iff by (simp add: find_code_def codes_ok_def)
  moreover have "open_code g code = Some c \<longleftrightarrow> find_code code g = Some c \<and> \<not> c_used c"
    by (auto simp: open_code_def split: option.split)
  ultimately show ?thesis by blast
qed

lemma codes_ok_expire: "codes_ok g \<Longrightarrow> codes_ok (expire_lazy now g)"
  by (simp add: codes_ok_def expire_lazy_def distinct_map_filter)

lemma codes_ok_mark: "codes_ok g \<Longrightarrow> codes_ok (mark_used code g)"
proof -
  have "map c_code (codes (mark_used code g)) = map c_code (codes g)" by (simp add: mark_used_def)
  then show "codes_ok g \<Longrightarrow> codes_ok (mark_used code g)" by (simp add: codes_ok_def)
qed

lemma check_code_Inr:
  "check_code s256 client redirect verifier row = Inr u \<longleftrightarrow>
     (\<exists>c. row = Some c \<and> \<not> c_used c \<and> c_client c = client \<and> c_redirect c = redirect
        \<and> s256 verifier = c_challenge c \<and> u = c_subject c)"
  by (cases row) (auto simp: check_code_def)

lemma consume_cases:
  assumes "consume_code_subject s256 now code client redirect verifier g = (r, g')"
  obtains e where "r = Inl e" "g' = expire_lazy now g"
  | c where "find_code code (expire_lazy now g) = Some c" "r = Inr (c_subject c)" "\<not> c_used c" "c_client c = client"
      "c_redirect c = redirect" "s256 verifier = c_challenge c" "g' = mark_used code (expire_lazy now g)"
proof (cases "check_code s256 client redirect verifier (find_code code (expire_lazy now g))")
  case (Inl e)
  then have "r = Inl e" "g' = expire_lazy now g"
    using assms by (simp_all add: consume_code_subject_def Let_def)
  then show thesis by (rule that(1))
next
  case (Inr u)
  then have "r = Inr u" "g' = mark_used code (expire_lazy now g)"
    using assms by (simp_all add: consume_code_subject_def Let_def)
  then show thesis using Inr that(2) unfolding check_code_Inr by blast
qed

type_synonym code_request = "int \<times> ustr \<times> ustr \<times> ustr"

type_synonym code_data = "ustr \<times> ustr \<times> ustr \<times> int option \<times> int"

definition code_data :: "code_row \<Rightarrow> code_data" where
  "code_data c = (c_client c, c_redirect c, c_challenge c, c_subject c, c_expires c)"

definition open_data :: "grants \<Rightarrow> ustr \<Rightarrow> code_data option" where
  "open_data g code = map_option code_data (open_code g code)"

text \<open>Consuming a code, with all that is on record about it as the result.\<close>

definition redeem_code ::
  "(ustr \<Rightarrow> ustr) \<Rightarrow> code_request \<Rightarrow> ustr \<Rightarrow> grants \<Rightarrow> code_data option \<times> grants" where
  "redeem_code s256 p code g = (case p of (now, client, redirect, verifier) \<Rightarrow>
     (case consume_code_subject s256 now code client redirect verifier g of
        (Inl e, g') \<Rightarrow> (None, g')
      | (Inr u, g') \<Rightarrow> (open_data (expire_lazy now g) code, g')))"

lemma open_data_iff:
  "codes_ok g \<Longrightarrow> open_data g code = Some x \<longleftrightarrow> (\<exists>c \<in> set (codes g). c_code c = code \<and> \<not> c_used c \<and> x = code_data c)"
  using open_code_iff by (auto simp: open_data_def)

lemma open_expire: "codes_ok g \<Longrightarrow> open_data (expire_lazy now g) code = Some x \<Longrightarrow> open_data g code = Some x"
  using open_data_iff codes_ok_expire by (auto simp: expire_lazy_def)

lemma open_mark: "codes_ok g \<Longrightarrow> open_data (mark_used code g) code' = Some x
    \<longleftrightarrow> code' \<noteq> code \<and> open_data g code' = Some x"
proof -
  assume ok: "codes_ok g"
  have rows: "c' \<in> set (codes (mark_used code g)) \<longleftrightarrow>
      (\<exists>c \<in> set (codes g). c' = (if c_code c = code then c\<lparr>c_used := True\<rparr> else c))" for c'
  proof -
    have "codes (mark_used code g) = map (\<lambda>c. if c_code c = code then c\<lparr>c_used := True\<rparr> else c) (codes g)"
      by (simp add: mark_used_def)
    then show ?thesis by (simp only: set_map image_iff)
  qed
  show ?thesis unfolding open_data_iff [OF ok] open_data_iff [OF codes_ok_mark [OF ok]] Bex_def rows
    by (intro iffI; (elim exE conjE bexE)?; force split: if_splits)
qed

lemma redeem_code_cases:
  assumes "codes_ok g" and "redeem_code s256 (now, client, redirect, verifier) code g = (r, g')"
  obtains "r = None" "g' = expire_lazy now g"
  | subject expires where "r = Some (client, redirect, s256 verifier, subject, expires)" "now < expires"
      "open_data g code = r" "g' = mark_used code (expire_lazy now g)"
      "consume_code_subject s256 now code client redirect verifier g = (Inr subject, g')"
proof -
  obtain u g1 where cons: "consume_code_subject s256 now code client redirect verifier g = (u, g1)" by fastforce
  from cons show thesis
  proof (cases rule: consume_cases)
    case (1 e)
    then show thesis using assms(2) cons that(1) by (simp add: redeem_code_def)
  next
    case (2 c)
    have c: "c \<in> set (codes (expire_lazy now g))" "c_code c = code"
      using 2(1) by (auto simp: find_code_def find_Some_iff)
    then have live: "now < c_expires c" by (auto simp: expire_lazy_def)
    have r: "open_data (expire_lazy now g) code = Some (code_data c)"
      using 2(1,3) by (simp add: open_data_def open_code_def)
    then have "r = Some (client, redirect, s256 verifier, c_subject c, c_expires c)"
      using assms(2) cons 2 by (auto simp: redeem_code_def code_data_def)
    then show thesis using that(2) [of "c_subject c" "c_expires c"] live r open_expire [OF assms(1) r] cons 2
        assms(2) by (auto simp: redeem_code_def code_data_def)
  qed
qed

type_synonym code_issue = "int \<times> int"

definition made_code :: "code_issue \<Rightarrow> ustr \<times> ustr \<times> ustr \<times> int \<Rightarrow> code_data" where
  "made_code q x = (case (q, x) of ((now, ttl), (client, redirect, challenge, subject)) \<Rightarrow>
     (client, redirect, challenge, Some subject, now + ttl))"

interpretation code_box: ticket_box codes_ok open_data
  "\<lambda>(q :: code_issue) code x g. case x of (client, redirect, challenge, subject) \<Rightarrow>
     create_code (fst q) (snd q) code client redirect challenge subject g"
  made_code "redeem_code s256" for s256
proof (unfold_locales, goal_cases)
  case (1 g q code x)
  then show ?case by (auto simp: codes_ok_def create_code_def list_ex_iff split: prod.splits)
next
  case (2 g p code r g')
  obtain now client redirect verifier where "p = (now, client, redirect, verifier)" by (metis prod_cases4)
  then show ?case using 2 redeem_code_cases [OF 2(1)] codes_ok_expire [OF 2(1)] codes_ok_mark by metis
next
  case (3 g q code x code' a)
  obtain client redirect challenge subject where x: "x = (client, redirect, challenge, subject)" by (metis prod_cases4)
  have "codes_ok (create_code (fst q) (snd q) code client redirect challenge subject g)"
    using 3(1) by (auto simp: codes_ok_def create_code_def list_ex_iff)
  then show ?case using 3 open_data_iff
    by (auto simp: x create_code_def made_code_def code_data_def split: prod.splits if_splits)
next
  case (4 g p code a g')
  obtain now client redirect verifier where p: "p = (now, client, redirect, verifier)" by (metis prod_cases4)
  from 4(1) 4(2) [unfolded p] show ?case
  proof (cases rule: redeem_code_cases)
    case (2 subject expires)
    have "open_data g' code \<noteq> Some y" for y
      using open_mark [OF codes_ok_expire [OF 4(1)], where code = code and code' = code and x = y] 2(4) by simp
    then have "open_data g' code = None" by (meson not_None_eq)
    then show ?thesis using 2(1,3) by simp
  qed simp
next
  case (5 g p code r g' code' a)
  obtain now client redirect verifier where p: "p = (now, client, redirect, verifier)" by (metis prod_cases4)
  from 5(1) 5(2) [unfolded p] show ?case
    by (cases rule: redeem_code_cases)
       (use 5(1,3) open_expire open_mark codes_ok_expire in metis)+
qed


section \<open>Requests one after the other\<close>

datatype grant_event =
    Created int int ustr ustr ustr ustr int
  | Exchanged int ustr ustr ustr ustr "oauth_error + int option"
  | Housekeeping

definition created_codes :: "grant_event list \<Rightarrow> ustr set" where
  "created_codes tr = {code. \<exists>now ttl client redirect challenge subject.
     Created now ttl code client redirect challenge subject \<in> set tr}"

text \<open>The other operations do not touch the codes, except that expired ones go.\<close>

inductive grants_run :: "(ustr \<Rightarrow> ustr) \<Rightarrow> grant_event list \<Rightarrow> grants \<Rightarrow> bool" for s256 where
  start: "codes g = [] \<Longrightarrow> grants_run s256 [] g"
| create: "grants_run s256 tr g \<Longrightarrow> code \<notin> created_codes tr
    \<Longrightarrow> grants_run s256 (tr @ [Created now ttl code client redirect challenge subject])
          (create_code now ttl code client redirect challenge subject g)"
| exchange: "grants_run s256 tr g \<Longrightarrow> consume_code_subject s256 now code client redirect verifier g = (r, g')
    \<Longrightarrow> grants_run s256 (tr @ [Exchanged now code client redirect verifier r]) g'"
| other: "grants_run s256 tr g \<Longrightarrow> codes g' = codes g \<or> codes g' = codes (expire_lazy now g)
    \<Longrightarrow> grants_run s256 (tr @ [Housekeeping]) g'"

definition wins :: "ustr \<Rightarrow> grant_event \<Rightarrow> bool" where
  "wins code e = (case e of Exchanged _ code' _ _ _ r \<Rightarrow> code' = code \<and> \<not> isl r | _ \<Rightarrow> False)"

lemma wins_simps [simp]:
  "\<not> wins code (Created now ttl code' client redirect challenge subject)" "\<not> wins code Housekeeping"
  "wins code (Exchanged now code' client redirect verifier r) \<longleftrightarrow> code' = code \<and> \<not> isl r"
  by (simp_all add: wins_def)

definition made_by :: "grant_event \<Rightarrow> (ustr \<times> code_data) option" where
  "made_by e = (case e of
       Created now ttl code client redirect challenge subject \<Rightarrow>
         Some (code, made_code (now, ttl) (client, redirect, challenge, subject))
     | _ \<Rightarrow> None)"

lemma made_by_iff: "made_by e = Some d \<longleftrightarrow> (\<exists>now ttl code client redirect challenge subject.
    e = Created now ttl code client redirect challenge subject
    \<and> d = (code, made_code (now, ttl) (client, redirect, challenge, subject)))"
  by (cases e) (auto simp: made_by_def)

definition created_data :: "grant_event list \<Rightarrow> (ustr \<times> code_data) set" where
  "created_data tr = {d. \<exists>e \<in> set tr. made_by e = Some d}"

definition won_codes :: "grant_event list \<Rightarrow> ustr set" where
  "won_codes tr = {code. \<exists>e \<in> set tr. wins code e}"

lemma created_data_snoc:
  "created_data (tr @ [Created now ttl code client redirect challenge subject])
     = insert (code, made_code (now, ttl) (client, redirect, challenge, subject)) (created_data tr)"
  "created_data (tr @ [Exchanged now code client redirect verifier r]) = created_data tr"
  "created_data (tr @ [Housekeeping]) = created_data tr"
  "won_codes (tr @ [e]) = won_codes tr \<union> {code. wins code e}"
  unfolding created_data_def won_codes_def by (auto simp: made_by_def)

lemma created_codes_data: "fst ` created_data tr \<subseteq> created_codes tr"
  unfolding created_data_def created_codes_def by (fastforce simp: made_by_iff)

lemma exchange_redeem:
  assumes "codes_ok g" and "consume_code_subject s256 now code client redirect verifier g = (r, g')"
  shows "case r of
      Inl _ \<Rightarrow> redeem_code s256 (now, client, redirect, verifier) code g = (None, g')
    | Inr subject \<Rightarrow> \<exists>expires. now < expires \<and> redeem_code s256 (now, client, redirect, verifier) code g
        = (Some (client, redirect, s256 verifier, subject, expires), g')"
  using assms(2)
proof (cases rule: consume_cases)
  case (1 e)
  then show ?thesis using assms(2) by (simp add: redeem_code_def)
next
  case (2 c)
  have "c \<in> set (codes (expire_lazy now g))" using 2(1) by (auto simp: find_code_def find_Some_iff)
  then have "now < c_expires c" by (auto simp: expire_lazy_def)
  moreover have "redeem_code s256 (now, client, redirect, verifier) code g = (Some (code_data c), g')"
    using assms(2) 2 by (simp add: redeem_code_def open_data_def open_code_def)
  ultimately show ?thesis using 2 by (auto simp: code_data_def)
qed

lemma grants_accounted:
  assumes "grants_run s256 tr g"
  shows "code_box.accounted g (created_data tr) (won_codes tr) \<and> (\<forall>code. length (filter (wins code) tr) \<le> 1)"
  using assms
proof (induction rule: grants_run.induct)
  case (start g)
  have "code_box.accounted g {} {}"
    by (rule code_box.accounted_start)
       (simp_all add: codes_ok_def start open_data_def open_code_def find_code_def)
  then show ?case by (simp add: created_data_def won_codes_def)
next
  case (create tr g code now ttl client redirect challenge subject)
  have "code \<notin> fst ` created_data tr" using create(2) created_codes_data by blast
  then show ?case
    using code_box.accounted_issue [of g "created_data tr" "won_codes tr" code "(now, ttl)"
        "(client, redirect, challenge, subject)"] create.IH
    by (simp add: created_data_snoc)
next
  case (exchange tr g now code client redirect verifier r g')
  then have ok: "codes_ok g" by (simp add: code_box.accounted_def)
  show ?case
  proof (cases r)
    case (Inl e)
    then have "redeem_code s256 (now, client, redirect, verifier) code g = (None, g')"
      using exchange_redeem [OF ok exchange(2)] by simp
    then have "code_box.accounted g' (created_data tr) (won_codes tr)"
      using code_box.accounted_refuse exchange.IH by blast
    then show ?thesis using exchange.IH Inl by (simp add: created_data_snoc)
  next
    case (Inr subject)
    then obtain d where "redeem_code s256 (now, client, redirect, verifier) code g = (Some d, g')"
      using exchange_redeem [OF ok exchange(2)] by auto
    then have red: "code_box.accounted g' (created_data tr) (insert code (won_codes tr))" "code \<notin> won_codes tr"
      using code_box.accounted_redeem(1,3) exchange.IH by blast+
    have "filter (wins code) tr = []" using red(2) by (auto simp: won_codes_def filter_empty_conv)
    then show ?thesis using exchange.IH red(1) Inr by (auto simp: created_data_snoc)
  qed
next
  case (other tr g g' now)
  then have ok: "codes_ok g" by (simp add: code_box.accounted_def)
  have same: "codes_ok g' = codes_ok h \<and> open_data g' = open_data h" if "codes g' = codes h" for h
    using that by (auto simp: codes_ok_def open_data_def open_code_def find_code_def fun_eq_iff)
  have "codes_ok g' \<and> (\<forall>code x. open_data g' code = Some x \<longrightarrow> open_data g code = Some x)"
    using other(2) same [of g] same [of "expire_lazy now g"] ok codes_ok_expire [OF ok] open_expire [OF ok] by auto
  then have "code_box.accounted g' (created_data tr) (won_codes tr)"
    using code_box.accounted_shrink other.IH by blast
  then show ?case using other.IH by (simp add: created_data_snoc)
qed

text \<open>
  C6: with exchanges that run one after the other, an authorization code is worth one exchange, and
  only for the client and redirect URI it was created for, by who knows the verifier of its
  challenge, before it expires; the exchange acts as the user who consented.\<close>

theorem codes_are_single_use:
  assumes "grants_run s256 tr g"
  shows "length (filter (wins code) tr) \<le> 1 \<and>
    (Exchanged now code client redirect verifier (Inr subject) \<in> set tr \<longrightarrow>
       (\<exists>now0 ttl user. Created now0 ttl code client redirect (s256 verifier) user \<in> set tr
          \<and> subject = Some user \<and> now < now0 + ttl))"
proof -
  have "\<exists>now0 ttl user. Created now0 ttl code client redirect (s256 verifier) user \<in> set tr
          \<and> subject = Some user \<and> now < now0 + ttl"
    if "Exchanged now code client redirect verifier (Inr subject) \<in> set tr"
    using assms that
  proof (induction rule: grants_run.induct)
    case (exchange tr g now' code' client' redirect' verifier' r g')
    show ?case
    proof (cases "Exchanged now code client redirect verifier (Inr subject) \<in> set tr")
      case True
      then show ?thesis using exchange.IH by auto
    next
      case False
      then have same: "now' = now" "code' = code" "client' = client" "redirect' = redirect" "verifier' = verifier"
        "r = Inr subject" using exchange.prems by auto
      have acc: "code_box.accounted g (created_data tr) (won_codes tr)" using grants_accounted [OF exchange(1)] by blast
      then have ok: "codes_ok g" by (simp add: code_box.accounted_def)
      obtain expires where "now < expires" "redeem_code s256 (now, client, redirect, verifier) code g
          = (Some (client, redirect, s256 verifier, subject, expires), g')"
        using exchange_redeem [OF ok exchange(2)] same by auto
      moreover from this(2) have "(code, (client, redirect, s256 verifier, subject, expires)) \<in> created_data tr"
        using code_box.accounted_redeem(2) [OF acc] by blast
      ultimately show ?thesis by (fastforce simp: created_data_def made_by_iff made_code_def)
    qed
  qed auto
  then show ?thesis using grants_accounted [OF assms] by blast
qed


definition demo_trace :: "grant_event list" where
  "demo_trace = [Created 0 CODE_TTL [1] [2] [3] [4] 7, Exchanged 10 [1] [2] [3] [4] (Inr (Some 7)),
     Exchanged 11 [1] [2] [3] [4] (Inl InvalidGrant)]"

lemma demo_trace_runs: "grants_run (\<lambda>v. v) demo_trace
    \<lparr>clients = [], codes = [\<lparr>c_code = [1], c_client = [2], c_redirect = [3], c_challenge = [4],
       c_subject = Some 7, c_expires = 300, c_used = True\<rparr>], tokens = []\<rparr>"
  (is "grants_run _ _ ?g")
proof -
  let ?none = "\<lparr>clients = [], codes = [], tokens = []\<rparr> :: grants"
  let ?made = "create_code 0 CODE_TTL [1] [2] [3] [4] 7 ?none"
  have 0: "grants_run (\<lambda>v. v) [] ?none" by (rule grants_run.start) simp
  have 1: "grants_run (\<lambda>v. v) ([] @ [Created 0 CODE_TTL [1] [2] [3] [4] 7]) ?made"
    by (rule grants_run.create [OF 0]) (simp add: created_codes_def)
  have 2: "grants_run (\<lambda>v. v) (([] @ [Created 0 CODE_TTL [1] [2] [3] [4] 7]) @ [Exchanged 10 [1] [2] [3] [4] (Inr (Some 7))]) ?g"
    by (rule grants_run.exchange [OF 1])
       code_simp
  have 3: "consume_code_subject (\<lambda>v. v) 11 [1] [2] [3] [4] ?g = (Inl InvalidGrant, ?g)" by code_simp
  show ?thesis using grants_run.exchange [OF 2 3] by (simp add: demo_trace_def)
qed

theorem codes_are_single_use_witness:
  "length (filter (wins [1]) demo_trace) = 1 \<and>
    (\<exists>now0 ttl user. Created now0 ttl [1] [2] [3] [4] user \<in> set demo_trace \<and> Some 7 = Some user \<and> 10 < now0 + ttl)"
proof -
  have "length (filter (wins [1]) demo_trace) = 1" by (simp add: demo_trace_def)
  moreover have "Exchanged 10 [1] [2] [3] [4] (Inr (Some 7)) \<in> set demo_trace" by (simp add: demo_trace_def)
  ultimately show ?thesis
    using codes_are_single_use [OF demo_trace_runs, where code = "[1]" and now = 10 and client = "[2]"
        and redirect = "[3]" and verifier = "[4]" and subject = "Some 7"] by blast
qed

text \<open>
  The read of a code and the write that marks it used are transactions of their own, and the write
  does not ask whether the code is still unused. Two requests that both read before either
  writes are both answered with the grant: the code is worth two token pairs.\<close>

lemma overlapping_exchanges_both_succeed:
  assumes "consume_code_subject s256 now code client redirect verifier g = (Inr subject, g')"
    and "g1 = expire_lazy now g"
    and "first_read = find_code code g1" and "second_read = find_code code g1"
  shows "check_code s256 client redirect verifier first_read = Inr subject
    \<and> check_code s256 client redirect verifier second_read = Inr subject
    \<and> mark_used code (mark_used code g1) = g'"
proof -
  have "mark_used code (mark_used code g1) = mark_used code g1"
    by (simp add: mark_used_def comp_def if_distrib cong: if_cong)
  then show ?thesis using assms
    by (auto simp: consume_code_subject_def Let_def split: sum.splits)
qed

section \<open>Rotation of refresh tokens\<close>

definition tokens_ok :: "grants \<Rightarrow> bool" where
  "tokens_ok g \<longleftrightarrow> distinct (map t_hash (tokens g))"

lemma tokens_expire: "set (tokens (expire_lazy now g)) = {t \<in> set (tokens g). now < t_expires t}"
  by (auto simp: expire_lazy_def)

lemma tokens_ok_expire: "tokens_ok g \<Longrightarrow> tokens_ok (expire_lazy now g)"
  by (simp add: tokens_ok_def expire_lazy_def distinct_map_filter)

lemma token_row_iff: "tokens_ok g \<Longrightarrow> token_row_for hash raw (expire_lazy now g) = Some t
    \<longleftrightarrow> t \<in> set (tokens g) \<and> now < t_expires t \<and> t_hash t = hash raw"
  using tokens_ok_expire [of g now] find_key_iff [where key = t_hash and xs = "tokens (expire_lazy now g)"]
  by (auto simp: token_row_for_def tokens_ok_def tokens_expire)

lemma insert_token_cases:
  assumes "insert_token hash now raw ty client ttl subject g = (True, g')"
  shows "hash raw \<notin> t_hash ` set (tokens g)"
    and "tokens g' = tokens g @ [\<lparr>t_hash = hash raw, t_type = ty, t_client = client, t_subject = Some subject,
      t_expires = now + ttl, t_revoked = False, t_created = now\<rparr>]"
  using assms by (auto simp: insert_token_def list_ex_iff split: if_splits)

lemma hashes_revoked: "map t_hash (tokens (revoke_by_hash h g)) = map t_hash (tokens g)"
  by (simp add: revoke_by_hash_def)

lemma rotate_cases:
  assumes "rotate_refresh hash now raw access refresh g = (Inr (client, subject), g')"
  obtains t g1 g2 where "token_row_for hash raw (expire_lazy now g) = Some t" "t_type t = Refresh" "\<not> t_revoked t"
    "t_client t = client" "t_subject t = Some subject"
    "insert_token hash now access Access client ACCESS_TOKEN_TTL subject (revoke_by_hash (hash raw) (expire_lazy now g)) = (True, g1)"
    "insert_token hash now refresh Refresh client REFRESH_TOKEN_TTL subject g1 = (True, g')"
  using assms that
  by (auto simp: rotate_refresh_def check_refresh_def issue_token_pair_def Let_def
      split: sum.splits option.splits prod.splits if_splits bool.splits)

lemma rotated_tokens:
  assumes "rotate_refresh hash now raw access refresh g = (Inr (client, subject), g')" and "tokens_ok g"
  shows "tokens_ok g'"
    and "\<And>t. t \<in> set (tokens g') \<Longrightarrow> t_hash t = hash raw \<Longrightarrow> t_revoked t"
    and "\<lparr>t_hash = hash access, t_type = Access, t_client = client, t_subject = Some subject,
      t_expires = now + ACCESS_TOKEN_TTL, t_revoked = False, t_created = now\<rparr> \<in> set (tokens g')"
    and "\<lparr>t_hash = hash refresh, t_type = Refresh, t_client = client, t_subject = Some subject,
      t_expires = now + REFRESH_TOKEN_TTL, t_revoked = False, t_created = now\<rparr> \<in> set (tokens g')"
proof -
  obtain t g1 where t: "token_row_for hash raw (expire_lazy now g) = Some t"
    and a: "insert_token hash now access Access client ACCESS_TOKEN_TTL subject
      (revoke_by_hash (hash raw) (expire_lazy now g)) = (True, g1)"
    and r: "insert_token hash now refresh Refresh client REFRESH_TOKEN_TTL subject g1 = (True, g')"
    using rotate_cases [OF assms(1)] by metis
  let ?old = "tokens (revoke_by_hash (hash raw) (expire_lazy now g))"
  have old: "distinct (map t_hash ?old)" "hash raw \<in> set (map t_hash ?old)"
    using tokens_ok_expire [OF assms(2), of now] t
    by (auto simp: hashes_revoked tokens_ok_def token_row_for_def find_Some_iff in_set_conv_nth simp del: set_map)
  have revoked: "t_revoked t" if "t \<in> set ?old" "t_hash t = hash raw" for t
    using that by (auto simp: revoke_by_hash_def split: if_splits)
  note new = insert_token_cases [OF a] insert_token_cases [OF r]
  show "tokens_ok g'" using old(1) new by (auto simp: tokens_ok_def)
  show "t_revoked t" if "t \<in> set (tokens g')" "t_hash t = hash raw" for t
    using that old(2) new revoked by auto
  show "\<lparr>t_hash = hash access, t_type = Access, t_client = client, t_subject = Some subject,
      t_expires = now + ACCESS_TOKEN_TTL, t_revoked = False, t_created = now\<rparr> \<in> set (tokens g')"
    and "\<lparr>t_hash = hash refresh, t_type = Refresh, t_client = client, t_subject = Some subject,
      t_expires = now + REFRESH_TOKEN_TTL, t_revoked = False, t_created = now\<rparr> \<in> set (tokens g')"
    using new by auto
qed

text \<open>
  Rotation retires the refresh token it was called with, whatever the time: it neither rotates
  again nor opens anything as an access token. The new pair acts for the same client and user: the
  access token opens for an hour, the refresh token rotates for thirty days, and only that.\<close>

lemma rotation_replaces_the_pair:
  assumes "rotate_refresh hash now raw access refresh g = (Inr (client, subject), g')" and "tokens_ok g"
  shows "fst (rotate_refresh hash later raw a r g') = Inl InvalidGrant
    \<and> fst (validate_access hash later raw g') = None
    \<and> fst (validate_access hash later access g')
        = (if later < now + ACCESS_TOKEN_TTL then Some (client, Some subject) else None)
    \<and> check_refresh (token_row_for hash refresh (expire_lazy later g'))
        = (if later < now + REFRESH_TOKEN_TTL then Inr (client, subject) else Inl InvalidGrant)
    \<and> fst (validate_access hash later refresh g') = None"
proof -
  note rot = rotated_tokens [OF assms]
  have the_row: "token_row_for hash x (expire_lazy later g') = (if later < t_expires t then Some t else None)"
    if "t \<in> set (tokens g')" "t_hash t = hash x" for x t
  proof (cases "token_row_for hash x (expire_lazy later g')")
    case None
    then show ?thesis using token_row_iff [OF rot(1), of hash x later t] that by auto
  next
    case (Some t')
    moreover from this have "t' \<in> set (tokens g')" "t_hash t' = t_hash t" "later < t_expires t'"
      using token_row_iff [OF rot(1), of hash x later t'] that by auto
    moreover from this have "t' = t" using that rot(1) by (auto simp: tokens_ok_def distinct_map inj_on_def)
    ultimately show ?thesis by auto
  qed
  have old: "t_revoked t" if "token_row_for hash raw (expire_lazy later g') = Some t" for t
    using that token_row_iff [OF rot(1)] rot(2) by blast
  show ?thesis
    using old the_row [OF rot(3), where x = access] the_row [OF rot(4), where x = refresh]
    by (auto simp: rotate_refresh_def validate_access_def check_refresh_def Let_def split: option.splits)
qed

lemma rotation_replaces_the_pair_witness:
  "\<exists>g'. rotate_refresh (\<lambda>t. t) 100 [1] [2] [3]
      \<lparr>clients = [], codes = [], tokens = [\<lparr>t_hash = [1], t_type = Refresh, t_client = [9], t_subject = Some 7,
         t_expires = 500, t_revoked = False, t_created = 0\<rparr>]\<rparr> = (Inr ([9], 7), g')
    \<and> fst (rotate_refresh (\<lambda>t. t) 200 [1] [4] [5] g') = Inl InvalidGrant
    \<and> fst (validate_access (\<lambda>t. t) 200 [2] g') = Some ([9], Some 7)"
proof -
  let ?g = "\<lparr>clients = [], codes = [], tokens = [\<lparr>t_hash = [1], t_type = Refresh, t_client = [9], t_subject = Some 7,
         t_expires = 500, t_revoked = False, t_created = 0\<rparr>]\<rparr> :: grants"
  have ok: "tokens_ok ?g" by (simp add: tokens_ok_def)
  have "fst (rotate_refresh (\<lambda>t. t) 100 [1] [2] [3] ?g) = Inr ([9], 7)" by code_simp
  then have rot: "rotate_refresh (\<lambda>t. t) 100 [1] [2] [3] ?g
      = (Inr ([9], 7), snd (rotate_refresh (\<lambda>t. t) 100 [1] [2] [3] ?g))" by (metis prod.collapse)
  from rotation_replaces_the_pair [OF rot ok, where later = 200 and a = "[4]" and r = "[5]"] rot
  show ?thesis by (auto simp: ACCESS_TOKEN_TTL_def)
qed

end
