(* ===== verification/AgentRegistry.thy ===== *)
theory AgentRegistry
  imports Tickets
begin

text \<open>
  The table that hands confirmed work to paired machines (\<open>invincible/core/agent_registry.py\<close>).
  Its queues are mutable deques that held polls keep a reference to, and that \<open>_drop_job\<close>
  replaces instead of changing; so deques live in a store of their own and the table holds their
  addresses. Every operation is atomic; the coroutines \<open>poll\<close> and \<open>dispatch\<close> are split where they
  await, and a run interleaves the parts of any number of them. Clock, random ids and the outcome
  of a send on a socket are arguments; an event object is the flag of \<open>asyncio.Event\<close>.
\<close>

record job =
  j_id :: ustr
  j_type :: ustr
  j_args :: pydict

record job_entry =
  jo_owner :: int
  jo_type :: ustr
  jo_args :: pydict
  jo_deadline :: int

record machine =
  m_name :: ustr
  m_platform :: ustr
  m_capabilities :: pydict
  m_seen :: int

record handoff =
  h_id :: ustr
  h_task :: ustr
  h_context :: ustr
  h_from :: ustr
  h_at :: int

record voice =
  v_id :: ustr
  v_state :: ustr
  v_at :: int

text \<open>A user's entry that is missing reads as the empty one in \<open>pollers\<close>, \<open>futures\<close>, \<open>sockets\<close>,
  \<open>machines\<close> and \<open>handoffs\<close>, as the code's \<open>get\<close> calls have it. A future is its result, if any.\<close>

record registry =
  last_seen :: "int \<Rightarrow> int option"
  pollers :: "int \<Rightarrow> nat"
  queues :: "int \<Rightarrow> nat option"
  deques :: "nat \<Rightarrow> job list"
  fresh :: nat
  wake :: "int \<Rightarrow> bool option"
  futures :: "int \<Rightarrow> (ustr \<times> pydict option) list"
  jobs :: "ustr \<Rightarrow> job_entry option"
  sockets :: "int \<Rightarrow> nat list"
  machines :: "int \<Rightarrow> (ustr \<times> machine) list"
  handoffs :: "int \<Rightarrow> handoff list"
  voices :: "int \<Rightarrow> voice option"
  last_prune :: int

definition MAX_POLLS_PER_USER :: nat where "MAX_POLLS_PER_USER = 5"
definition MAX_WS_PER_USER :: nat where "MAX_WS_PER_USER = 5"
definition MAX_MACHINES_PER_USER :: nat where "MAX_MACHINES_PER_USER = 20"
definition MAX_HANDOFFS_PER_USER :: nat where "MAX_HANDOFFS_PER_USER = 10"
definition VOICE_STATE_TTL_SECONDS :: int where "VOICE_STATE_TTL_SECONDS = 30"
definition STALE_USER_SECONDS :: int where "STALE_USER_SECONDS = 3600"
definition PRUNE_INTERVAL_SECONDS :: int where "PRUNE_INTERVAL_SECONDS = 60"

definition VOICE_SIGNAL_STATES :: "ustr list" where
  "VOICE_SIGNAL_STATES = map lit [''listening'', ''speaking'', ''idle'']"

definition empty_registry :: registry where
  "empty_registry = \<lparr>last_seen = (\<lambda>_. None), pollers = (\<lambda>_. 0), queues = (\<lambda>_. None), deques = (\<lambda>_. []), fresh = 0,
     wake = (\<lambda>_. None), futures = (\<lambda>_. []), jobs = (\<lambda>_. None), sockets = (\<lambda>_. []), machines = (\<lambda>_. []),
     handoffs = (\<lambda>_. []), voices = (\<lambda>_. None), last_prune = 0\<rparr>"

section \<open>Liveness\<close>

definition queue_of :: "int \<Rightarrow> registry \<Rightarrow> job list" where
  "queue_of user r = (case queues r user of None \<Rightarrow> [] | Some a \<Rightarrow> deques r a)"

definition live_voices :: "int \<Rightarrow> registry \<Rightarrow> int \<Rightarrow> voice option" where
  "live_voices now r user = (case voices r user of None \<Rightarrow> None
     | Some v \<Rightarrow> if VOICE_STATE_TTL_SECONDS < now - v_at v then None else Some v)"

definition forgotten :: "int \<Rightarrow> registry \<Rightarrow> int \<Rightarrow> bool" where
  "forgotten now r user = (case last_seen r user of
       None \<Rightarrow> False
     | Some seen \<Rightarrow> seen \<le> now - STALE_USER_SECONDS \<and>
         \<not> (pollers r user \<noteq> 0 \<or> queue_of user r \<noteq> [] \<or> futures r user \<noteq> [] \<or> sockets r user \<noteq> []
            \<or> machines r user \<noteq> [] \<or> handoffs r user \<noteq> [] \<or> live_voices now r user \<noteq> None))"

definition prune :: "int \<Rightarrow> registry \<Rightarrow> registry" where
  "prune now r =
     (if now - last_prune r < PRUNE_INTERVAL_SECONDS then r
      else r\<lparr>last_prune := now,
             voices := (\<lambda>u. if forgotten now r u then None else live_voices now r u),
             last_seen := (\<lambda>u. if forgotten now r u then None else last_seen r u),
             wake := (\<lambda>u. if forgotten now r u then None else wake r u),
             queues := (\<lambda>u. if forgotten now r u then None else queues r u),
             sockets := (\<lambda>u. if forgotten now r u then [] else sockets r u),
             machines := (\<lambda>u. if forgotten now r u then [] else machines r u),
             handoffs := (\<lambda>u. if forgotten now r u then [] else handoffs r u)\<rparr>)"

definition heartbeat :: "int \<Rightarrow> int \<Rightarrow> registry \<Rightarrow> registry" where
  "heartbeat now user r = prune now (r\<lparr>last_seen := (last_seen r)(user := Some now)\<rparr>)"

definition online :: "int \<Rightarrow> int \<Rightarrow> int \<Rightarrow> registry \<Rightarrow> bool" where
  "online ttl now user r = (case last_seen r user of None \<Rightarrow> False | Some l \<Rightarrow> now - l \<le> ttl)"

section \<open>Sockets\<close>

text \<open>None where \<open>PollCapacityExceeded\<close> is raised.\<close>

definition attach_ws :: "int \<Rightarrow> int \<Rightarrow> nat \<Rightarrow> registry \<Rightarrow> registry option" where
  "attach_ws now user ws r =
     (if MAX_WS_PER_USER \<le> length (sockets r user) then None
      else Some (heartbeat now user
        (if ws \<in> set (sockets r user) then r
         else r\<lparr>sockets := (sockets r)(user := sockets r user @ [ws])\<rparr>)))"

definition detach_ws :: "int \<Rightarrow> nat \<Rightarrow> registry \<Rightarrow> registry" where
  "detach_ws user ws r = r\<lparr>sockets := (sockets r)(user := filter (\<lambda>w. w \<noteq> ws) (sockets r user))\<rparr>"

fun send_first :: "(nat \<Rightarrow> bool) \<Rightarrow> int \<Rightarrow> nat list \<Rightarrow> registry \<Rightarrow> nat option \<times> registry" where
  "send_first works user [] r = (None, r)"
| "send_first works user (ws # rest) r =
     (if works ws then (Some ws, r) else send_first works user rest (detach_ws user ws r))"

definition push_ws :: "(nat \<Rightarrow> bool) \<Rightarrow> int \<Rightarrow> int \<Rightarrow> registry \<Rightarrow> bool \<times> registry" where
  "push_ws works now user r = (case send_first works user (sockets r user) r of
       (None, r1) \<Rightarrow> (False, r1)
     | (Some ws, r1) \<Rightarrow> (True, heartbeat now user r1))"

section \<open>Machines, handoffs, voice\<close>

fun evict :: "nat \<Rightarrow> (ustr \<times> machine) list \<Rightarrow> (ustr \<times> machine) list" where
  "evict 0 table = table"
| "evict (Suc n) table =
     (if length table \<le> MAX_MACHINES_PER_USER then table
      else evict n (case find (\<lambda>e. list_all (\<lambda>f. m_seen (snd e) \<le> m_seen (snd f)) table) table of
          None \<Rightarrow> table | Some e \<Rightarrow> ddel (fst e) table))"

definition update_machine :: "int \<Rightarrow> int \<Rightarrow> ustr \<Rightarrow> machine \<Rightarrow> registry \<Rightarrow> registry" where
  "update_machine now user machine_id info r =
     (let mid = take 64 (strip machine_id) in
      if mid = [] then r
      else let r1 = heartbeat now user r;
               table = dset mid \<lparr>m_name = take 128 (m_name info), m_platform = take 128 (m_platform info),
                 m_capabilities = m_capabilities info, m_seen = now\<rparr> (machines r1 user)
           in r1\<lparr>machines := (machines r1)(user := evict (length table) table)\<rparr>)"

definition machines_for :: "int \<Rightarrow> int \<Rightarrow> int \<Rightarrow> registry \<Rightarrow> (ustr \<times> machine \<times> bool) list" where
  "machines_for ttl now user r =
     map (\<lambda>(k, m). (k, m, now - m_seen m \<le> ttl)) (sort_key (\<lambda>(k, m). - m_seen m) (machines r user))"

definition set_wake :: "int \<Rightarrow> registry \<Rightarrow> registry" where
  "set_wake user r = (if wake r user = None then r else r\<lparr>wake := (wake r)(user := Some True)\<rparr>)"

definition post_handoff :: "int \<Rightarrow> int \<Rightarrow> ustr \<Rightarrow> ustr \<Rightarrow> ustr \<Rightarrow> ustr \<Rightarrow> registry \<Rightarrow> registry" where
  "post_handoff now user hid task context device r =
     (let q = handoffs r user @ [\<lparr>h_id = hid, h_task = task, h_context = context, h_from = device, h_at = now\<rparr>]
      in set_wake user (r\<lparr>handoffs := (handoffs r)(user := drop (length q - MAX_HANDOFFS_PER_USER) q)\<rparr>))"

definition take_handoff :: "int \<Rightarrow> registry \<Rightarrow> handoff option \<times> registry" where
  "take_handoff user r = (case handoffs r user of
       [] \<Rightarrow> (None, r)
     | h # hs \<Rightarrow> (Some h, r\<lparr>handoffs := (handoffs r)(user := hs)\<rparr>))"

definition drop_handoff :: "int \<Rightarrow> ustr \<Rightarrow> registry \<Rightarrow> registry" where
  "drop_handoff user hid r = r\<lparr>handoffs := (handoffs r)(user := filter (\<lambda>h. h_id h \<noteq> hid) (handoffs r user))\<rparr>"

definition post_voice_state :: "int \<Rightarrow> int \<Rightarrow> ustr \<Rightarrow> ustr \<Rightarrow> registry \<Rightarrow> voice option \<times> registry" where
  "post_voice_state now user vid state r =
     (if state \<notin> set VOICE_SIGNAL_STATES then (None, r)
      else let v = \<lparr>v_id = vid, v_state = state, v_at = now\<rparr>
           in (Some v, set_wake user (r\<lparr>voices := (voices r)(user := Some v)\<rparr>)))"

definition take_voice_state :: "int \<Rightarrow> int \<Rightarrow> registry \<Rightarrow> voice option \<times> registry" where
  "take_voice_state now user r = (live_voices now r user, r\<lparr>voices := (voices r)(user := None)\<rparr>)"

definition drop_voice_state :: "int \<Rightarrow> ustr \<Rightarrow> registry \<Rightarrow> registry" where
  "drop_voice_state user vid r = (case voices r user of
       Some v \<Rightarrow> if v_id v = vid then r\<lparr>voices := (voices r)(user := None)\<rparr> else r
     | None \<Rightarrow> r)"

section \<open>Polls and jobs\<close>

text \<open>The deque of a user, made when there is none.\<close>

definition get_queue :: "int \<Rightarrow> registry \<Rightarrow> nat \<times> registry" where
  "get_queue user r = (case queues r user of
       Some a \<Rightarrow> (a, r)
     | None \<Rightarrow> (fresh r, r\<lparr>queues := (queues r)(user := Some (fresh r)), fresh := Suc (fresh r),
                          deques := (deques r)(fresh r := [])\<rparr>))"

text \<open>\<open>poll\<close> up to its loop (None where the cap raises), one look at the deque it holds, the wait,
  and its end.\<close>

definition poll_enter :: "int \<Rightarrow> int \<Rightarrow> registry \<Rightarrow> (nat \<times> registry) option" where
  "poll_enter now user r =
     (if MAX_POLLS_PER_USER \<le> pollers r user then None
      else Some (get_queue user (heartbeat now user (r\<lparr>pollers := (pollers r)(user := Suc (pollers r user))\<rparr>))))"

definition poll_look :: "nat \<Rightarrow> registry \<Rightarrow> (job \<times> registry) option" where
  "poll_look a r = (case deques r a of [] \<Rightarrow> None | j # js \<Rightarrow> Some (j, r\<lparr>deques := (deques r)(a := js)\<rparr>))"

definition poll_sleep :: "int \<Rightarrow> registry \<Rightarrow> registry" where
  "poll_sleep user r = (if wake r user = None then r\<lparr>wake := (wake r)(user := Some False)\<rparr> else r)"

definition poll_woken :: "int \<Rightarrow> registry \<Rightarrow> registry" where
  "poll_woken user r = r\<lparr>wake := (wake r)(user := Some False)\<rparr>"

definition poll_leave :: "int \<Rightarrow> registry \<Rightarrow> registry" where
  "poll_leave user r = r\<lparr>pollers := (pollers r)(user := pollers r user - 1)\<rparr>"

text \<open>\<open>dispatch\<close> up to the push, and \<open>_drop_job\<close>: the queue becomes a new deque.\<close>

definition start_dispatch :: "int \<Rightarrow> int \<Rightarrow> int \<Rightarrow> job \<Rightarrow> registry \<Rightarrow> registry" where
  "start_dispatch now timeout user j r =
     (let r1 = r\<lparr>jobs := (jobs r)(j_id j := Some \<lparr>jo_owner = user, jo_type = j_type j, jo_args = j_args j,
                  jo_deadline = now + timeout\<rparr>),
                futures := (futures r)(user := dset (j_id j) None (futures r user))\<rparr>;
          (a, r2) = get_queue user r1
      in set_wake user (r2\<lparr>deques := (deques r2)(a := deques r2 a @ [j])\<rparr>))"

definition drop_job :: "int \<Rightarrow> ustr \<Rightarrow> registry \<Rightarrow> registry" where
  "drop_job user jid r = (case queues r user of
       None \<Rightarrow> r
     | Some a \<Rightarrow> r\<lparr>queues := (queues r)(user := Some (fresh r)), fresh := Suc (fresh r),
                   deques := (deques r)(fresh r := filter (\<lambda>j. j_id j \<noteq> jid) (deques r a))\<rparr>)"

text \<open>What the dispatcher returns (None: \<open>agent_timeout\<close>) and its \<open>finally\<close>.\<close>

definition dispatch_result :: "int \<Rightarrow> ustr \<Rightarrow> registry \<Rightarrow> pydict option" where
  "dispatch_result user jid r = (case map_of (futures r user) jid of Some (Some res) \<Rightarrow> Some res | _ \<Rightarrow> None)"

definition end_dispatch :: "int \<Rightarrow> ustr \<Rightarrow> registry \<Rightarrow> registry" where
  "end_dispatch user jid r =
     (let r1 = drop_job user jid r
      in r1\<lparr>futures := (futures r1)(user := ddel jid (futures r1 user)), jobs := (jobs r1)(jid := None)\<rparr>)"

definition submit_result :: "int \<Rightarrow> int \<Rightarrow> ustr \<Rightarrow> pydict \<Rightarrow> registry \<Rightarrow> bool \<times> registry" where
  "submit_result now user jid res r = (case jobs r jid of
       None \<Rightarrow> (False, r)
     | Some e \<Rightarrow>
         if jo_owner e \<noteq> user then (False, r)
         else if jo_deadline e < now then (False, r)
         else (case map_of (futures r user) jid of
             Some None \<Rightarrow> (True, r\<lparr>futures := (futures r)(user := dset jid (Some res) (futures r user))\<rparr>)
           | _ \<Rightarrow> (False, r)))"

section \<open>Runs\<close>

text \<open>
  Polls in progress are triples of a handle, the user and the deque they hold. \<open>Handed\<close> is a job
  that leaves on a connection of a user, \<open>Returned\<close> what a dispatcher gives back.
\<close>

record hub =
  reg :: registry
  held :: "(nat \<times> int \<times> nat) list"

datatype channel = Socket | LongPoll

datatype hub_event =
    Dispatched int int int job
  | Handed channel int job
  | Accepted int int ustr pydict
  | Returned int ustr "pydict option"
  | Internal

text \<open>The operations that touch neither jobs nor futures nor the contents of a deque.\<close>

inductive side_step :: "registry \<Rightarrow> registry \<Rightarrow> bool" where
  "side_step r (heartbeat now user r)"
| "attach_ws now user ws r = Some r' \<Longrightarrow> side_step r r'"
| "side_step r (detach_ws user ws r)"
| "side_step r (update_machine now user mid info r)"
| "side_step r (post_handoff now user hid task context device r)"
| "side_step r (snd (take_handoff user r))"
| "side_step r (drop_handoff user hid r)"
| "side_step r (snd (post_voice_state now user vid state r))"
| "side_step r (snd (take_voice_state now user r))"
| "side_step r (drop_voice_state user vid r)"
| "side_step r (poll_sleep user r)"
| "side_step r (poll_woken user r)"

definition job_ids :: "hub_event list \<Rightarrow> ustr set" where
  "job_ids tr = {jid. \<exists>now timeout user j. Dispatched now timeout user j \<in> set tr \<and> j_id j = jid}"

inductive hub_run :: "hub_event list \<Rightarrow> hub \<Rightarrow> bool" where
  start: "hub_run [] \<lparr>reg = empty_registry, held = []\<rparr>"
| side: "hub_run tr h \<Longrightarrow> side_step (reg h) r \<Longrightarrow> hub_run (tr @ [Internal]) (h\<lparr>reg := r\<rparr>)"
| dispatch: "hub_run tr h \<Longrightarrow> j_id j \<notin> job_ids tr
    \<Longrightarrow> hub_run (tr @ [Dispatched now timeout user j]) (h\<lparr>reg := start_dispatch now timeout user j (reg h)\<rparr>)"
| send: "hub_run tr h \<Longrightarrow> Dispatched now timeout user j \<in> set tr
    \<Longrightarrow> send_first works user (sockets (reg h) user) (reg h) = (Some ws, r)
    \<Longrightarrow> hub_run (tr @ [Handed Socket user j]) (h\<lparr>reg := r\<rparr>)"
| sent: "hub_run tr h \<Longrightarrow> Handed Socket user j \<in> set tr
    \<Longrightarrow> hub_run (tr @ [Internal]) (h\<lparr>reg := drop_job user (j_id j) (heartbeat now user (reg h))\<rparr>)"
| enter: "hub_run tr h \<Longrightarrow> poll_enter now user (reg h) = Some (a, r) \<Longrightarrow> hd' \<notin> fst ` set (held h)
    \<Longrightarrow> hub_run (tr @ [Internal]) (h\<lparr>reg := r, held := (hd', user, a) # held h\<rparr>)"
| take: "hub_run tr h \<Longrightarrow> (hd', user, a) \<in> set (held h) \<Longrightarrow> poll_look a (reg h) = Some (j, r)
    \<Longrightarrow> hub_run (tr @ [Handed LongPoll user j])
          (h\<lparr>reg := poll_leave user r, held := filter (\<lambda>p. fst p \<noteq> hd') (held h)\<rparr>)"
| leave: "hub_run tr h \<Longrightarrow> (hd', user, a) \<in> set (held h)
    \<Longrightarrow> hub_run (tr @ [Internal])
          (h\<lparr>reg := poll_leave user (reg h), held := filter (\<lambda>p. fst p \<noteq> hd') (held h)\<rparr>)"
| submit: "hub_run tr h \<Longrightarrow> submit_result now user jid res (reg h) = (ok, r)
    \<Longrightarrow> hub_run (tr @ [if ok then Accepted now user jid res else Internal]) (h\<lparr>reg := r\<rparr>)"
| finish: "hub_run tr h \<Longrightarrow> Dispatched now timeout user j \<in> set tr
    \<Longrightarrow> hub_run (tr @ [Returned user (j_id j) (dispatch_result user (j_id j) (reg h))])
          (h\<lparr>reg := end_dispatch user (j_id j) (reg h)\<rparr>)"

text \<open>What an operation leaves alone. \<open>same_work\<close>: jobs, futures, deques and poll slots stay, and a
  user's deque is forgotten at most.\<close>

definition same_work :: "registry \<Rightarrow> registry \<Rightarrow> bool" where
  "same_work r r' \<longleftrightarrow> jobs r' = jobs r \<and> futures r' = futures r \<and> deques r' = deques r \<and> fresh r' = fresh r
     \<and> pollers r' = pollers r \<and> (\<forall>u a. queues r' u = Some a \<longrightarrow> queues r u = Some a)"

lemma same_work_refl [simp]: "same_work r r"
  by (simp add: same_work_def)

lemma same_work_trans: "same_work r r1 \<Longrightarrow> same_work r1 r2 \<Longrightarrow> same_work r r2"
  by (simp add: same_work_def)

lemma same_work_heartbeat: "same_work r (heartbeat now user r)"
  by (simp add: same_work_def heartbeat_def prune_def)

lemma same_work_wake: "same_work r (set_wake user r)"
  by (simp add: same_work_def set_wake_def)

lemma same_work_send: "send_first works user ws r = (res, r') \<Longrightarrow> same_work r r'"
proof (induction ws arbitrary: r)
  case (Cons w ws)
  have "same_work r (detach_ws user w r)" by (simp add: same_work_def detach_ws_def)
  then show ?case using Cons same_work_trans by (auto split: if_splits)
qed simp

lemma same_work_side: "side_step r r' \<Longrightarrow> same_work r r'"
proof (induction rule: side_step.induct)
  case (1 r now user)
  show ?case by (rule same_work_heartbeat)
next
  case (2 now user ws r r')
  then show ?case
    using same_work_heartbeat [of "r\<lparr>sockets := (sockets r)(user := sockets r user @ [ws])\<rparr>" now user]
      same_work_heartbeat [of r now user]
    by (auto simp: attach_ws_def same_work_def split: if_splits)
next
  case (4 r now user mid info)
  then show ?case using same_work_heartbeat [of r now user] by (simp add: update_machine_def Let_def same_work_def)
qed (auto simp: post_handoff_def post_voice_state_def Let_def set_wake_def same_work_def
      detach_ws_def take_handoff_def drop_handoff_def take_voice_state_def drop_voice_state_def poll_sleep_def
      poll_woken_def split: list.splits option.splits)

section \<open>Whose work a deque holds\<close>

definition dispatched :: "hub_event list \<Rightarrow> (int \<times> job) set" where
  "dispatched tr = {(user, j). \<exists>now timeout. Dispatched now timeout user j \<in> set tr}"

lemma dispatched_snoc [simp]:
  "dispatched (tr @ [Dispatched now timeout user j]) = insert (user, j) (dispatched tr)"
  "dispatched (tr @ [Internal]) = dispatched tr" "dispatched (tr @ [Handed ch user j]) = dispatched tr"
  "dispatched (tr @ [Accepted now user jid res]) = dispatched tr"
  "dispatched (tr @ [Returned user jid out]) = dispatched tr"
  by (auto simp: dispatched_def)

text \<open>\<open>own\<close> gives every deque one user: the deques a user's table entry or polls refer to are their
  own, and hold only what was dispatched for them.\<close>

definition owned :: "(nat \<Rightarrow> int) \<Rightarrow> (int \<times> job) set \<Rightarrow> registry \<Rightarrow> (nat \<times> int \<times> nat) list \<Rightarrow> bool" where
  "owned own work r polls \<longleftrightarrow>
     (\<forall>u a. queues r u = Some a \<longrightarrow> own a = u \<and> a < fresh r)
     \<and> (\<forall>(p, u, a) \<in> set polls. own a = u \<and> a < fresh r)
     \<and> (\<forall>a. \<forall>j \<in> set (deques r a). (own a, j) \<in> work)"

lemma owned_same_work: "owned own work r polls \<Longrightarrow> same_work r r' \<Longrightarrow> owned own work r' polls"
  unfolding owned_def same_work_def by simp blast

lemma owned_mono: "owned own work r polls \<Longrightarrow> work \<subseteq> work' \<Longrightarrow> set polls' \<subseteq> set polls \<Longrightarrow> owned own work' r polls'"
  unfolding owned_def by blast

lemma owned_cong:
  "owned own work r polls \<Longrightarrow> queues r' = queues r \<Longrightarrow> deques r' = deques r \<Longrightarrow> fresh r' = fresh r
    \<Longrightarrow> owned own work r' polls"
  by (simp add: owned_def)

lemma owned_get_queue:
  assumes "owned own work r polls" and "get_queue user r = (a, r')"
  obtains own' where "owned own' work r' ((p, user, a) # polls)" "own' a = user" "a < fresh r'"
    "queues r' user = Some a"
proof (cases "queues r user")
  case None
  then have r': "a = fresh r" "r' = r\<lparr>queues := (queues r)(user := Some (fresh r)), fresh := Suc (fresh r),
      deques := (deques r)(fresh r := [])\<rparr>" using assms(2) by (auto simp: get_queue_def)
  have "owned (own(fresh r := user)) work r' ((p, user, a) # polls)"
    using assms(1) unfolding owned_def r' by (auto simp: less_Suc_eq split: if_splits)
  then show thesis using that r' by simp
next
  case (Some b)
  then show thesis using that [of own] assms by (auto simp: get_queue_def owned_def)
qed

lemma owned_append:
  assumes "owned own work r polls" and "own a = user"
  shows "owned own (insert (user, j) work) (r\<lparr>deques := (deques r)(a := deques r a @ [j])\<rparr>) polls"
  using assms unfolding owned_def by auto

lemma owned_drop:
  assumes "owned own work r polls"
  obtains own' where "owned own' work (drop_job user jid r) polls"
proof (cases "queues r user")
  case None
  then show thesis using that assms by (simp add: drop_job_def)
next
  case (Some a)
  then have mine: "own a = user" using assms by (simp add: owned_def)
  have "(user, j) \<in> work" if "j \<in> set (deques r a)" for j using assms that mine unfolding owned_def by blast
  then have "owned (own(fresh r := user)) work (drop_job user jid r) polls"
    using assms Some unfolding owned_def by (auto simp: drop_job_def less_Suc_eq split: if_splits)
  then show thesis by (rule that)
qed

lemma owned_look:
  assumes "owned own work r polls" and "poll_look a r = Some (j, r')"
  shows "owned own work r' polls" "(own a, j) \<in> work"
  using assms by (auto simp: owned_def poll_look_def split: list.splits if_splits)

lemma poll_leave_frame [simp]:
  "queues (poll_leave user r) = queues r" "deques (poll_leave user r) = deques r" "fresh (poll_leave user r) = fresh r"
  "futures (poll_leave user r) = futures r" "jobs (poll_leave user r) = jobs r"
  by (simp_all add: poll_leave_def)

lemma submit_frame:
  assumes "submit_result now user jid res r = (ok, r')"
  shows "queues r' = queues r" "deques r' = deques r" "fresh r' = fresh r" "jobs r' = jobs r" "pollers r' = pollers r"
  using assms by (auto simp: submit_result_def split: option.splits if_splits)

lemma end_dispatch_frame:
  "queues (end_dispatch user jid r) = queues (drop_job user jid r)"
  "deques (end_dispatch user jid r) = deques (drop_job user jid r)"
  "fresh (end_dispatch user jid r) = fresh (drop_job user jid r)"
  by (simp_all add: end_dispatch_def Let_def)

lemma owned_start_dispatch:
  assumes "owned own work r polls"
  obtains own' where "owned own' (insert (user, j) work) (start_dispatch now timeout user j r) polls"
proof -
  let ?r1 = "r\<lparr>jobs := (jobs r)(j_id j := Some \<lparr>jo_owner = user, jo_type = j_type j, jo_args = j_args j,
                  jo_deadline = now + timeout\<rparr>),
                futures := (futures r)(user := dset (j_id j) None (futures r user))\<rparr>"
  obtain a r2 where q: "get_queue user ?r1 = (a, r2)" by fastforce
  have "owned own work ?r1 polls" by (rule owned_cong [OF assms]) simp_all
  then obtain own' where own': "owned own' work r2 ((0, user, a) # polls)" "own' a = user"
    using owned_get_queue [OF _ q] by metis
  have "owned own' work r2 polls" using owned_mono [OF own'(1)] by auto
  from owned_append [OF this own'(2), of j]
  have "owned own' (insert (user, j) work) (start_dispatch now timeout user j r) polls"
    using owned_same_work [OF _ same_work_wake] q by (simp add: start_dispatch_def)
  then show thesis by (rule that)
qed

lemma poll_enter_Some:
  assumes "poll_enter now user r = Some (a, r')"
  obtains r1 where "pollers r user < MAX_POLLS_PER_USER"
    "r1 = heartbeat now user (r\<lparr>pollers := (pollers r)(user := Suc (pollers r user))\<rparr>)" "get_queue user r1 = (a, r')"
  using assms by (auto simp: poll_enter_def split: if_splits)

text \<open>The isolation invariant of a run.\<close>

lemma hub_owned: "hub_run tr h \<Longrightarrow> \<exists>own. owned own (dispatched tr) (reg h) (held h)"
proof (induction rule: hub_run.induct)
  case start
  show ?case by (simp add: owned_def empty_registry_def)
next
  case (side tr h r)
  then show ?case using owned_same_work same_work_side by fastforce
next
  case (dispatch tr h j now timeout user)
  then obtain own where "owned own (dispatched tr) (reg h) (held h)" by blast
  then obtain own' where "owned own' (insert (user, j) (dispatched tr)) (start_dispatch now timeout user j (reg h)) (held h)"
    by (rule owned_start_dispatch)
  then show ?case by auto
next
  case (send tr h now timeout user j works ws r)
  then show ?case using owned_same_work same_work_send by fastforce
next
  case (sent tr h user j now)
  then obtain own where "owned own (dispatched tr) (heartbeat now user (reg h)) (held h)"
    using owned_same_work same_work_heartbeat by metis
  then obtain own' where "owned own' (dispatched tr) (drop_job user (j_id j) (heartbeat now user (reg h))) (held h)"
    by (rule owned_drop)
  then show ?case by auto
next
  case (enter tr h now user a r hd')
  from enter(2) show ?case
  proof (rule poll_enter_Some)
    fix r1
    assume r1: "r1 = heartbeat now user ((reg h)\<lparr>pollers := (pollers (reg h))(user := Suc (pollers (reg h) user))\<rparr>)"
      and q: "get_queue user r1 = (a, r)"
    obtain own where own: "owned own (dispatched tr) (reg h) (held h)" using enter.IH by blast
    have "owned own (dispatched tr) ((reg h)\<lparr>pollers := (pollers (reg h))(user := Suc (pollers (reg h) user))\<rparr>) (held h)"
      by (rule owned_cong [OF own]) simp_all
    then have "owned own (dispatched tr) r1 (held h)" unfolding r1 by (rule owned_same_work) (rule same_work_heartbeat)
    then obtain own' where "owned own' (dispatched tr) r ((hd', user, a) # held h)" by (rule owned_get_queue [OF _ q])
    then show ?case by auto
  qed
next
  case (take tr h hd' user a j r)
  then obtain own where "owned own (dispatched tr) r (held h)" using owned_look by blast
  then have "owned own (dispatched tr) (poll_leave user r) (filter (\<lambda>p. fst p \<noteq> hd') (held h))"
    by (rule owned_mono [OF owned_cong]) auto
  then show ?case by auto
next
  case (leave tr h hd' user a)
  then obtain own where "owned own (dispatched tr) (reg h) (held h)" by blast
  then have "owned own (dispatched tr) (poll_leave user (reg h)) (filter (\<lambda>p. fst p \<noteq> hd') (held h))"
    by (rule owned_mono [OF owned_cong]) auto
  then show ?case by auto
next
  case (submit tr h now user jid res ok r)
  then obtain own where own: "owned own (dispatched tr) (reg h) (held h)" by blast
  have "owned own (dispatched tr) r (held h)" by (rule owned_cong [OF own]) (rule submit_frame [OF submit(2)])+
  then show ?case by (cases ok) auto
next
  case (finish tr h now timeout user j)
  then obtain own where "owned own (dispatched tr) (drop_job user (j_id j) (reg h)) (held h)" using owned_drop by metis
  then have "owned own (dispatched tr) (end_dispatch user (j_id j) (reg h)) (held h)"
    by (rule owned_cong) (rule end_dispatch_frame)+
  then show ?case by auto
qed

lemma hub_run_prefix: "hub_run tr h \<Longrightarrow> tr = xs @ ys \<Longrightarrow> \<exists>h'. hub_run xs h'"
proof (induction arbitrary: ys rule: hub_run.induct)
  case start
  then show ?case using hub_run.start by auto
qed (metis hub_run.intros butlast_append butlast_snoc)+

inductive_cases handed_step: "hub_run (xs @ [Handed ch user j]) h"

text \<open>
  C17: a machine only ever gets its own user's work: whatever polls, sockets, timeouts and results
  interleave, a job that leaves on a connection of a user was dispatched for that user before, with
  that type and those arguments.\<close>

theorem machines_get_their_users_work:
  assumes "hub_run (before @ Handed ch user j # after) h"
  shows "\<exists>now timeout. Dispatched now timeout user j \<in> set before"
proof -
  obtain h' where "hub_run (before @ [Handed ch user j]) h'"
    using hub_run_prefix [OF assms, of "before @ [Handed ch user j]" after] by auto
  then show ?thesis
  proof (rule handed_step, goal_cases)
    case (2 h0 hd' a r)
    obtain own where own: "owned own (dispatched before) (reg h0) (held h0)" using hub_owned [OF 2(3)] by blast
    then have "own a = user" using 2(4) by (auto simp: owned_def)
    then show ?thesis using owned_look(2) [OF own 2(5)] by (auto simp: dispatched_def)
  qed (blast, simp split: if_splits)
qed

section \<open>Results\<close>

text \<open>The jobs whose dispatcher still waits, with owner and deadline: a token store.\<close>

definition waiting :: "registry \<Rightarrow> ustr \<Rightarrow> (int \<times> int) option" where
  "waiting r jid = (case jobs r jid of
       None \<Rightarrow> None
     | Some e \<Rightarrow> (case map_of (futures r (jo_owner e)) jid of
           Some None \<Rightarrow> Some (jo_owner e, jo_deadline e)
         | _ \<Rightarrow> None))"

definition redeem_result :: "int \<times> int \<times> pydict \<Rightarrow> ustr \<Rightarrow> registry \<Rightarrow> (int \<times> int) option \<times> registry" where
  "redeem_result p jid r = (case p of (now, user, res) \<Rightarrow>
     (case submit_result now user jid res r of
        (True, r') \<Rightarrow> (waiting r jid, r')
      | (False, r') \<Rightarrow> (None, r')))"

definition job_of :: "ustr \<Rightarrow> ustr \<Rightarrow> pydict \<Rightarrow> job" where
  "job_of jid ty args = \<lparr>j_id = jid, j_type = ty, j_args = args\<rparr>"

lemma job_of_id [simp]: "job_of (j_id j) (j_type j) (j_args j) = j"
  by (simp add: job_of_def)

lemma start_dispatch_fields [simp]:
  "jobs (start_dispatch now timeout user j r) = (jobs r)(j_id j := Some \<lparr>jo_owner = user, jo_type = j_type j,
      jo_args = j_args j, jo_deadline = now + timeout\<rparr>)"
  "futures (start_dispatch now timeout user j r) = (futures r)(user := dset (j_id j) None (futures r user))"
  "pollers (start_dispatch now timeout user j r) = pollers r"
  by (auto simp: start_dispatch_def Let_def get_queue_def set_wake_def split: option.splits prod.splits)

lemma drop_job_fields [simp]:
  "jobs (drop_job user jid r) = jobs r" "futures (drop_job user jid r) = futures r" "pollers (drop_job user jid r) = pollers r"
  by (auto simp: drop_job_def split: option.splits)

lemma submit_accepted:
  "submit_result now user jid res r = (True, r') \<longleftrightarrow>
     (\<exists>deadline. waiting r jid = Some (user, deadline) \<and> now \<le> deadline)
     \<and> r' = r\<lparr>futures := (futures r)(user := dset jid (Some res) (futures r user))\<rparr>"
  by (auto simp: submit_result_def waiting_def split: option.splits if_splits)

lemma submit_refused: "submit_result now user jid res r = (False, r') \<Longrightarrow> r' = r"
  by (auto simp: submit_result_def split: option.splits if_splits)

lemma waiting_resolved:
  assumes "waiting r jid = Some (user, deadline)"
  shows "waiting (r\<lparr>futures := (futures r)(user := dset jid (Some res) (futures r user))\<rparr>) t
    = (if t = jid then None else waiting r t)"
  using assms by (auto simp: waiting_def map_of_dset split: option.splits if_splits)

lemma redeem_result_cases:
  assumes "redeem_result p jid r = (out, r')"
  obtains "out = None" "r' = r"
  | now user res deadline where "p = (now, user, res)" "out = Some (user, deadline)" "waiting r jid = out"
      "submit_result now user jid res r = (True, r')" "\<And>t. waiting r' t = (if t = jid then None else waiting r t)"
proof -
  obtain now user res where p: "p = (now, user, res)" by (metis prod_cases3)
  obtain ok r1 where s: "submit_result now user jid res r = (ok, r1)" by fastforce
  show thesis
  proof (cases ok)
    case False
    then show thesis using that(1) assms s submit_refused p by (auto simp: redeem_result_def)
  next
    case True
    then obtain deadline where w: "waiting r jid = Some (user, deadline)"
      and r1: "r1 = r\<lparr>futures := (futures r)(user := dset jid (Some res) (futures r user))\<rparr>"
      using s by (auto simp: submit_accepted)
    have "out = Some (user, deadline)" "r' = r1" using assms s True w by (auto simp: redeem_result_def p)
    then show thesis using that(2) [OF p] w s True waiting_resolved [OF w] r1 by simp
  qed
qed

interpretation job_box: ticket_box "\<lambda>_. True" waiting
  "\<lambda>now jid (user, timeout, ty, args) r. start_dispatch now timeout user (job_of jid ty args) r"
  "\<lambda>now (user, timeout, ty, args). (user, now + timeout)" redeem_result
proof (unfold_locales, goal_cases)
  case (3 r now jid x t a)
  then show ?case
    by (auto simp: waiting_def job_of_def map_of_dset split: prod.splits option.splits if_splits)
next
  case (4 r p jid a r')
  from 4(2) show ?case by (cases rule: redeem_result_cases) auto
next
  case (5 r p jid out r' t a)
  from 5(2) show ?case by (cases rule: redeem_result_cases) (use 5(3) in \<open>auto split: if_splits\<close>)
qed simp_all

definition issued_jobs :: "hub_event list \<Rightarrow> (ustr \<times> int \<times> int) set" where
  "issued_jobs tr = {(j_id j, user, now + timeout) | now timeout user j. Dispatched now timeout user j \<in> set tr}"

definition accepts :: "ustr \<Rightarrow> hub_event \<Rightarrow> bool" where
  "accepts jid e = (case e of Accepted _ _ jid' _ \<Rightarrow> jid' = jid | _ \<Rightarrow> False)"

definition answered :: "hub_event list \<Rightarrow> ustr set" where
  "answered tr = {jid. \<exists>e \<in> set tr. accepts jid e}"

lemma accepts_simps [simp]:
  "accepts jid (Accepted now user jid' res) \<longleftrightarrow> jid' = jid" "\<not> accepts jid (Dispatched now timeout user j)"
  "\<not> accepts jid (Handed ch user j)" "\<not> accepts jid (Returned user jid' out)" "\<not> accepts jid Internal"
  by (auto simp: accepts_def)

lemma answered_snoc: "answered (tr @ [e]) = answered tr \<union> {jid. accepts jid e}"
  by (auto simp: answered_def)

lemma issued_jobs_snoc:
  "issued_jobs (tr @ [Dispatched now timeout user j]) = insert (j_id j, user, now + timeout) (issued_jobs tr)"
  "issued_jobs (tr @ [Internal]) = issued_jobs tr" "issued_jobs (tr @ [Handed ch user j]) = issued_jobs tr"
  "issued_jobs (tr @ [Accepted now user jid res]) = issued_jobs tr"
  "issued_jobs (tr @ [Returned user jid out]) = issued_jobs tr"
  unfolding issued_jobs_def by auto

lemma issued_jobs_ids: "fst ` issued_jobs tr \<subseteq> job_ids tr"
  unfolding issued_jobs_def job_ids_def by fastforce

text \<open>Steps that leave jobs and futures alone.\<close>

definition same_futures :: "registry \<Rightarrow> registry \<Rightarrow> bool" where
  "same_futures r r' \<longleftrightarrow> jobs r' = jobs r \<and> futures r' = futures r"

lemma waiting_cong: "same_futures r r' \<Longrightarrow> waiting r' = waiting r"
  by (rule ext) (simp add: waiting_def same_futures_def split: option.split)

lemma same_futures_simps [simp]:
  "same_work r r' \<Longrightarrow> same_futures r r'" "same_futures r (poll_leave user r)" "same_futures r r"
  by (simp_all add: same_futures_def same_work_def)

lemma same_futures_trans: "same_futures r r1 \<Longrightarrow> same_futures r1 r2 \<Longrightarrow> same_futures r r2"
  by (simp add: same_futures_def)

lemma same_futures_poll:
  "poll_enter now user r = Some (a, r') \<Longrightarrow> same_futures r r'" "poll_look a r = Some (j, r') \<Longrightarrow> same_futures r r'"
  "same_futures r (drop_job user jid (heartbeat now user r))"
proof -
  have hb: "same_futures r (heartbeat now user (r\<lparr>pollers := f\<rparr>))" for r f now user
    using same_work_heartbeat [of "r\<lparr>pollers := f\<rparr>" now user] by (simp add: same_futures_def same_work_def)
  show "poll_enter now user r = Some (a, r') \<Longrightarrow> same_futures r r'"
    using hb [of r now user "(pollers r)(user := Suc (pollers r user))"]
    by (auto simp: poll_enter_def get_queue_def same_futures_def split: if_splits option.splits)
  show "poll_look a r = Some (j, r') \<Longrightarrow> same_futures r r'"
    by (auto simp: poll_look_def same_futures_def split: list.splits)
  show "same_futures r (drop_job user jid (heartbeat now user r))"
    using same_work_heartbeat [of r now user] by (simp add: same_futures_def same_work_def)
qed

text \<open>The three facts a run maintains about results.\<close>

definition answers_inv :: "hub_event list \<Rightarrow> registry \<Rightarrow> bool" where
  "answers_inv tr r \<longleftrightarrow> job_box.accounted r (issued_jobs tr) (answered tr)
     \<and> (\<forall>jid. length (filter (accepts jid) tr) \<le> 1)
     \<and> (\<forall>user jid res. map_of (futures r user) jid = Some (Some res) \<longrightarrow> (\<exists>now. Accepted now user jid res \<in> set tr))"

lemma answers_inv_same:
  assumes "answers_inv tr r" and "same_futures r r'" and "\<And>jid. \<not> accepts jid e" and "issued_jobs (tr @ [e]) = issued_jobs tr"
  shows "answers_inv (tr @ [e]) r'"
proof -
  have "job_box.accounted r' (issued_jobs tr) (answered tr)"
    using job_box.accounted_shrink [of r "issued_jobs tr" "answered tr" r'] assms(1) waiting_cong [OF assms(2)]
    by (simp add: answers_inv_def)
  then show ?thesis
    using assms unfolding answers_inv_def same_futures_def by (simp add: answered_snoc) blast
qed

lemma answers_inv_quiet:
  "answers_inv tr r \<Longrightarrow> same_futures r r' \<Longrightarrow> answers_inv (tr @ [Internal]) r'"
  "answers_inv tr r \<Longrightarrow> same_futures r r' \<Longrightarrow> answers_inv (tr @ [Handed ch user j]) r'"
  by (rule answers_inv_same; simp add: issued_jobs_snoc)+

lemma hub_answers: "hub_run tr h \<Longrightarrow> answers_inv tr (reg h)"
proof (induction rule: hub_run.induct)
  case start
  have "job_box.accounted empty_registry {} {}"
    by (rule job_box.accounted_start) (simp_all add: waiting_def empty_registry_def)
  then show ?case by (simp add: answers_inv_def issued_jobs_def answered_def empty_registry_def)
next
  case (side tr h r)
  have "same_futures (reg h) r" by (rule same_futures_simps(1) [OF same_work_side [OF side(2)]])
  then show ?case using answers_inv_quiet(1) [OF side.IH] by simp
next
  case (dispatch tr h j now timeout user)
  have "j_id j \<notin> fst ` issued_jobs tr" using dispatch(2) issued_jobs_ids by blast
  then have "job_box.accounted (start_dispatch now timeout user j (reg h)) (issued_jobs (tr @ [Dispatched now timeout user j]))
      (answered (tr @ [Dispatched now timeout user j]))"
    using job_box.accounted_issue [of "reg h" "issued_jobs tr" "answered tr" "j_id j" now "(user, timeout, j_type j, j_args j)"]
      dispatch.IH job_of_id by (simp add: answers_inv_def issued_jobs_snoc answered_snoc)
  then show ?case using dispatch.IH by (auto simp: answers_inv_def map_of_dset split: if_splits)
next
  case (send tr h now timeout user j works ws r)
  have "same_futures (reg h) r" by (rule same_futures_simps(1) [OF same_work_send [OF send(3)]])
  then show ?case using answers_inv_quiet(2) [OF send.IH] by simp
next
  case (sent tr h user j now)
  then show ?case using answers_inv_quiet(1) same_futures_poll(3) by simp
next
  case (enter tr h now user a r hd')
  show ?case using answers_inv_quiet(1) [OF enter.IH same_futures_poll(1) [OF enter(2)]] by simp
next
  case (take tr h hd' user a j r)
  have "same_futures (reg h) (poll_leave user r)"
    using same_futures_trans [OF same_futures_poll(2) [OF take(3)] same_futures_simps(2)] .
  then show ?case using answers_inv_quiet(2) [OF take.IH] by simp
next
  case (leave tr h hd' user a)
  then show ?case using answers_inv_quiet(1) same_futures_simps(2) by simp
next
  case (submit tr h now user jid res ok r)
  show ?case
  proof (cases ok)
    case False
    then have "r = reg h" using submit(2) by (simp add: submit_refused)
    then show ?thesis using answers_inv_quiet(1) [OF submit.IH] False by simp
  next
    case True
    have sub: "submit_result now user jid res (reg h) = (True, r)" using submit(2) True by simp
    then obtain deadline where w: "waiting (reg h) jid = Some (user, deadline)"
      and r: "r = (reg h)\<lparr>futures := (futures (reg h))(user := dset jid (Some res) (futures (reg h) user))\<rparr>"
      by (auto simp: submit_accepted)
    have "redeem_result (now, user, res) jid (reg h) = (Some (user, deadline), r)"
      by (simp add: redeem_result_def sub w)
    then have acc: "job_box.accounted r (issued_jobs tr) (insert jid (answered tr))" "jid \<notin> answered tr"
      using job_box.accounted_redeem(1,3) submit.IH unfolding answers_inv_def by blast+
    have "filter (accepts jid) tr = []" using acc(2) by (auto simp: answered_def filter_empty_conv)
    then show ?thesis using submit.IH acc(1) True r
      by (auto simp: answers_inv_def issued_jobs_snoc answered_snoc map_of_dset split: if_splits)
  qed
next
  case (finish tr h now timeout user j)
  let ?r = "end_dispatch user (j_id j) (reg h)"
  have "waiting (reg h) t = Some a" if "waiting ?r t = Some a" for t a
    using that by (auto simp: waiting_def end_dispatch_def Let_def map_of_ddel split: option.splits if_splits)
  then have "job_box.accounted ?r (issued_jobs tr) (answered tr)"
    using job_box.accounted_shrink finish.IH unfolding answers_inv_def by blast
  then show ?case using finish.IH
    by (auto simp: answers_inv_def issued_jobs_snoc answered_snoc end_dispatch_def Let_def map_of_ddel split: if_splits)
qed

text \<open>
  C21: the answer to a dispatched job is taken once, only from the user the job was dispatched for and
  no later than its deadline; and what a dispatcher gives back is that answer.\<close>

theorem results_are_accepted_once:
  assumes "hub_run tr h"
  shows "length (filter (accepts jid) tr) \<le> 1
    \<and> (Accepted now user jid res \<in> set tr \<longrightarrow>
        (\<exists>t0 timeout j. Dispatched t0 timeout user j \<in> set tr \<and> j_id j = jid \<and> now \<le> t0 + timeout))
    \<and> (Returned user jid (Some res) \<in> set tr \<longrightarrow> (\<exists>t. Accepted t user jid res \<in> set tr))"
proof -
  have "\<exists>t0 timeout j. Dispatched t0 timeout user j \<in> set tr \<and> j_id j = jid \<and> now \<le> t0 + timeout"
    if "Accepted now user jid res \<in> set tr"
    using assms that
  proof (induction rule: hub_run.induct)
    case (submit tr h now' user' jid' res' ok r)
    show ?case
    proof (cases "Accepted now user jid res \<in> set tr")
      case False
      then have sub: "submit_result now user jid res (reg h) = (True, r)" using submit by (auto split: if_splits)
      then obtain deadline where w: "waiting (reg h) jid = Some (user, deadline)" "now \<le> deadline"
        by (auto simp: submit_accepted)
      then have "(jid, user, deadline) \<in> issued_jobs tr"
        using hub_answers [OF submit(1)] unfolding answers_inv_def job_box.accounted_def by blast
      then show ?thesis using w(2) by (auto simp: issued_jobs_def)
    qed (use submit.IH in auto)
  qed auto
  moreover have "\<exists>t. Accepted t user jid res \<in> set tr" if "Returned user jid (Some res) \<in> set tr"
    using assms that
  proof (induction rule: hub_run.induct)
    case (finish tr h now' timeout user' j)
    then show ?case using hub_answers [OF finish(1)]
      by (auto simp: answers_inv_def dispatch_result_def split: option.splits)
  qed (auto split: if_splits)
  ultimately show ?thesis using hub_answers [OF assms] by (simp add: answers_inv_def)
qed

section \<open>Poll slots\<close>

lemma pollers_frame [simp]:
  "pollers (heartbeat now user r) = pollers r" "get_queue user r = (a, r') \<Longrightarrow> pollers r' = pollers r"
  "pollers (poll_leave user r) = (pollers r)(user := pollers r user - 1)"
  "poll_look a r = Some (j, r') \<Longrightarrow> pollers r' = pollers r" "pollers (end_dispatch user jid r) = pollers r"
  using same_work_heartbeat [of r now user]
  by (auto simp: same_work_def get_queue_def poll_leave_def poll_look_def end_dispatch_def Let_def
      split: option.splits list.splits)

definition polls_of :: "int \<Rightarrow> (nat \<times> int \<times> nat) list \<Rightarrow> nat" where
  "polls_of user polls = length (filter (\<lambda>(p, u, a). u = user) polls)"

lemma polls_of_remove:
  assumes "distinct (map fst polls)" and "(p, user, a) \<in> set polls"
  shows "polls_of u (filter (\<lambda>q. fst q \<noteq> p) polls) = (if u = user then polls_of u polls - 1 else polls_of u polls)"
  using assms
proof (induction polls)
  case (Cons q polls)
  show ?case
  proof (cases "fst q = p")
    case True
    then have "q = (p, user, a)" using Cons.prems by (cases q) (force simp: image_iff)
    moreover have "filter (\<lambda>q. fst q \<noteq> p) polls = polls"
      using Cons.prems(1) True by (auto simp: filter_id_conv image_iff)
    ultimately show ?thesis by (simp add: polls_of_def)
  next
    case False
    then have "(p, user, a) \<in> set polls" using Cons.prems(2) by auto
    then have IH: "polls_of u (filter (\<lambda>q. fst q \<noteq> p) polls) = (if u = user then polls_of u polls - 1 else polls_of u polls)"
      and "0 < polls_of user polls"
      using Cons.IH Cons.prems(1) by (auto simp: polls_of_def filter_empty_conv)
    then show ?thesis using False by (cases q) (auto simp: polls_of_def)
  qed
qed simp

text \<open>
  The count of a user's open polls is exact, whatever way they end, so that it can neither leak
  slots nor let a user hold more than five.\<close>

lemma poll_slots_are_exact:
  assumes "hub_run tr h"
  shows "distinct (map fst (held h)) \<and> pollers (reg h) user = polls_of user (held h)
    \<and> polls_of user (held h) \<le> MAX_POLLS_PER_USER"
  using assms
proof (induction rule: hub_run.induct)
  case start
  show ?case by (simp add: polls_of_def empty_registry_def)
next
  case (side tr h r)
  then show ?case using same_work_side [OF side(2)] by (simp add: same_work_def)
next
  case (send tr h now timeout user' j works ws r)
  then show ?case using same_work_send [OF send(3)] by (simp add: same_work_def)
next
  case (enter tr h now user' a r hd')
  then show ?case by (auto simp: poll_enter_def polls_of_def split: if_splits)
next
  case (take tr h hd' user' a j r)
  then show ?case using polls_of_remove [OF _ take(2), of user] pollers_frame(4) [OF take(3)]
    by (auto simp: distinct_map_filter)
next
  case (leave tr h hd' user' a)
  then show ?case using polls_of_remove [OF _ leave(2), of user] by (auto simp: distinct_map_filter)
next
  case (submit tr h now user' jid res ok r)
  then show ?case using submit_frame(5) [OF submit(2)] by simp
qed simp_all

section \<open>A job that is delivered twice\<close>

text \<open>
  A machine waits in a poll, another holds a socket. The job is appended to the deque the poll
  holds, goes out on the socket, and is dropped, into a new deque: the poll still finds it in the
  old one. The dispatcher's comment has it that it never executes twice.\<close>

definition demo_job :: job where
  "demo_job = \<lparr>j_id = [1], j_type = [2], j_args = []\<rparr>"

definition twice_trace :: "hub_event list" where
  "twice_trace = [Internal, Internal, Dispatched 0 30 7 demo_job, Handed Socket 7 demo_job, Internal,
     Handed LongPoll 7 demo_job, Accepted 5 7 [1] [], Returned 7 [1] (Some [])]"

lemma twice_run:
  obtains h where "hub_run twice_trace h"
proof -
  define r1 where "r1 = empty_registry\<lparr>pollers := (\<lambda>_. 0)(7 := 1), last_seen := [7 \<mapsto> 0], queues := [7 \<mapsto> 0], fresh := 1,
    deques := (\<lambda>_. [])(0 := [])\<rparr>"
  define r2 where "r2 = r1\<lparr>sockets := (sockets r1)(7 := [0])\<rparr>"
  define r3 where "r3 = start_dispatch 0 30 7 demo_job r2"
  define r4 where "r4 = drop_job 7 (j_id demo_job) (heartbeat 0 7 r3)"
  have hb: "heartbeat 0 7 r = r\<lparr>last_seen := (last_seen r)(7 := Some 0)\<rparr>" if "last_prune r = 0" for r
    using that by (simp add: heartbeat_def prune_def PRUNE_INTERVAL_SECONDS_def)
  have "poll_enter 0 7 empty_registry = Some (0, r1)"
    by (simp add: poll_enter_def hb get_queue_def r1_def MAX_POLLS_PER_USER_def empty_registry_def)
  from hub_run.enter [OF hub_run.start, of 0 7 0 r1 0] this
  have 1: "hub_run [Internal] \<lparr>reg = r1, held = [(0, 7, 0)]\<rparr>" by simp
  have "attach_ws 0 7 0 r1 = Some r2"
    by (simp add: attach_ws_def MAX_WS_PER_USER_def hb r1_def r2_def empty_registry_def)
  from hub_run.side [OF 1] side_step.intros(2) [OF this]
  have 2: "hub_run [Internal, Internal] \<lparr>reg = r2, held = [(0, 7, 0)]\<rparr>" by simp
  have 3: "hub_run [Internal, Internal, Dispatched 0 30 7 demo_job] \<lparr>reg = r3, held = [(0, 7, 0)]\<rparr>"
    using hub_run.dispatch [OF 2, of demo_job 0 30 7] by (simp add: job_ids_def r3_def)
  have q: "queues r3 7 = Some 0" "deques r3 0 = [demo_job]" "fresh r3 = 1" "last_prune r3 = 0" "sockets r3 7 = [0]"
    by (simp_all add: r3_def r2_def r1_def start_dispatch_def get_queue_def set_wake_def empty_registry_def)
  have 4: "hub_run (twice_trace ! 0 # twice_trace ! 1 # twice_trace ! 2 # [twice_trace ! 3]) \<lparr>reg = r3, held = [(0, 7, 0)]\<rparr>"
    using hub_run.send [OF 3, of 0 30 7 demo_job "\<lambda>_. True" 0 r3] q by (simp add: twice_trace_def)
  have 5: "hub_run (take 5 twice_trace) \<lparr>reg = r4, held = [(0, 7, 0)]\<rparr>"
    using hub_run.sent [OF 4, of 7 demo_job 0] by (simp add: twice_trace_def r4_def)
  have d: "deques r4 0 = [demo_job]" using q by (simp add: r4_def hb drop_job_def)
  have 6: "hub_run (take 6 twice_trace) \<lparr>reg = poll_leave 7 (r4\<lparr>deques := (deques r4)(0 := [])\<rparr>), held = []\<rparr>"
    using hub_run.take [OF 5, of 0 7 0 demo_job "r4\<lparr>deques := (deques r4)(0 := [])\<rparr>"] d
    by (simp add: poll_look_def twice_trace_def)
  let ?r6 = "poll_leave 7 (r4\<lparr>deques := (deques r4)(0 := [])\<rparr>)"
  have w: "waiting ?r6 [1] = Some (7, 30)"
    by (simp add: waiting_def r4_def hb q r3_def demo_job_def)
       (simp add: waiting_def r4_def r3_def demo_job_def heartbeat_def prune_def)
  have "submit_result 5 7 [1] [] ?r6 = (True, ?r6\<lparr>futures := (futures ?r6)(7 := dset [1] (Some []) (futures ?r6 7))\<rparr>)"
    using w by (auto simp: submit_accepted)
  from hub_run.submit [OF 6, of 5 7 "[1]" "[]"] this
  have 7: "hub_run (take 7 twice_trace)
      \<lparr>reg = ?r6\<lparr>futures := (futures ?r6)(7 := dset [1] (Some []) (futures ?r6 7))\<rparr>, held = []\<rparr>"
    by (auto simp: twice_trace_def)
  from hub_run.finish [OF 7, of 0 30 7 demo_job]
  show thesis using that by (simp add: twice_trace_def demo_job_def dispatch_result_def)
qed

lemma machines_get_their_users_work_witness:
  "\<exists>now timeout. Dispatched now timeout 7 demo_job \<in> set [Internal, Internal, Dispatched 0 30 7 demo_job, Handed Socket 7 demo_job, Internal]"
proof -
  obtain h where "hub_run twice_trace h" by (rule twice_run)
  then have "hub_run ([Internal, Internal, Dispatched 0 30 7 demo_job, Handed Socket 7 demo_job, Internal]
      @ Handed LongPoll 7 demo_job # [Accepted 5 7 [1] [], Returned 7 [1] (Some [])]) h"
    by (simp add: twice_trace_def)
  then show ?thesis by (rule machines_get_their_users_work)
qed

lemma results_are_accepted_once_witness:
  "\<exists>t0 timeout j. Dispatched t0 timeout 7 j \<in> set twice_trace \<and> j_id j = [1] \<and> 5 \<le> t0 + timeout"
proof -
  obtain h where "hub_run twice_trace h" by (rule twice_run)
  moreover have "Accepted 5 7 [1] [] \<in> set twice_trace" by (simp add: twice_trace_def)
  ultimately show ?thesis using results_are_accepted_once by blast
qed

lemma poll_slots_are_exact_witness:
  "\<exists>h. hub_run twice_trace h \<and> polls_of 7 (held h) \<le> MAX_POLLS_PER_USER"
  using twice_run poll_slots_are_exact by metis

end
