(* ===== verification/Continuity.thy ===== *)
theory Continuity
  imports Settings
begin

text \<open>
  Task states and checkpoints (\<open>invincible/core/continuity.py\<close>): versioned states per session and
  task key with optimistic compare-and-set, checkpoints that pin a version, and the brief that is
  injected into a request. The tables are lists of rows in insertion order; a write is one
  transaction under the advisory lock of its chain. A payload is the value the JSONB column reads
  back. The run store is an argument: its rows for the session, newest first, or none attached.
\<close>

definition MAX_PAYLOAD_CHARS :: nat where "MAX_PAYLOAD_CHARS = 4096"
definition MAX_RENDER_CHARS_PER_TASK :: nat where "MAX_RENDER_CHARS_PER_TASK = 1200"
definition BRIEF_TOTAL_CHAR_CAP :: nat where "BRIEF_TOTAL_CHAR_CAP = 4096"
definition MAX_TASK_KEYS_RENDERED :: nat where "MAX_TASK_KEYS_RENDERED = 5"

definition VALID_STATUSES :: "ustr list" where
  "VALID_STATUSES = map lit [''active'', ''blocked'', ''done'', ''cancelled'']"

record state_row =
  ts_session :: ustr
  ts_pk :: "int option"
  ts_key :: ustr
  ts_status :: ustr
  ts_payload :: json
  ts_version :: nat
  ts_actor :: ustr
  ts_request :: "ustr option"
  ts_at :: int

record checkpoint_row =
  cp_id :: nat
  cp_session :: ustr
  cp_pk :: "int option"
  cp_key :: ustr
  cp_version :: nat
  cp_note :: ustr
  cp_at :: int

record continuity =
  states :: "state_row list"
  checkpoint_rows :: "checkpoint_row list"

datatype state_error = UnresolvedScope | BadPayload | TooLarge nat | BadStatus | Conflict

fun scope_pk :: "scope \<Rightarrow> int option" where
  "scope_pk (Scoped pk) = Some pk"
| "scope_pk _ = None"

fun in_scope :: "scope \<Rightarrow> ustr \<Rightarrow> ustr \<Rightarrow> int option \<Rightarrow> bool" where
  "in_scope (Scoped pk) session row_session row_pk \<longleftrightarrow> row_pk = Some pk"
| "in_scope Unscoped session row_session row_pk \<longleftrightarrow> row_session = session"
| "in_scope Unresolved session row_session row_pk \<longleftrightarrow> False"

definition chain :: "scope \<Rightarrow> ustr \<Rightarrow> ustr \<Rightarrow> continuity \<Rightarrow> state_row list" where
  "chain scope session key c =
     filter (\<lambda>r. in_scope scope session (ts_session r) (ts_pk r) \<and> ts_key r = key) (states c)"

definition head_version :: "scope \<Rightarrow> ustr \<Rightarrow> ustr \<Rightarrow> continuity \<Rightarrow> nat" where
  "head_version scope session key c = fold max (map ts_version (chain scope session key c)) 0"

text \<open>The partial unique index: owning session, task key, version.\<close>

definition violates_unique :: "state_row \<Rightarrow> continuity \<Rightarrow> bool" where
  "violates_unique row c \<longleftrightarrow> ts_pk row \<noteq> None
     \<and> list_ex (\<lambda>r. ts_pk r = ts_pk row \<and> ts_key r = ts_key row \<and> ts_version r = ts_version row) (states c)"

record state_write =
  w_payload :: json
  w_status :: ustr
  w_actor :: ustr
  w_expected :: "nat option"
  w_request :: "ustr option"

definition check_write :: "state_write \<Rightarrow> state_error option" where
  "check_write w = (case w_payload w of
       JObj d \<Rightarrow>
         let blob = dumps False (w_payload w) in
         if MAX_PAYLOAD_CHARS < length blob then Some (TooLarge (length blob))
         else if w_status w \<notin> set VALID_STATUSES then Some BadStatus
         else None
     | _ \<Rightarrow> Some BadPayload)"

definition set_state ::
  "int \<Rightarrow> scope \<Rightarrow> ustr \<Rightarrow> ustr \<Rightarrow> state_write \<Rightarrow> continuity \<Rightarrow> (state_error + nat) \<times> continuity" where
  "set_state now scope session key w c =
     (if scope = Unresolved then (Inl UnresolvedScope, c)
      else case check_write w of
        Some e \<Rightarrow> (Inl e, c)
      | None \<Rightarrow>
          let head = head_version scope session key c;
              row = \<lparr>ts_session = session, ts_pk = scope_pk scope, ts_key = key, ts_status = w_status w,
                     ts_payload = w_payload w, ts_version = Suc head, ts_actor = w_actor w,
                     ts_request = w_request w, ts_at = now\<rparr>
          in if (case w_expected w of None \<Rightarrow> False | Some v \<Rightarrow> v \<noteq> head) then (Inl Conflict, c)
             else if violates_unique row c then (Inl Conflict, c)
             else (Inr (Suc head), c\<lparr>states := states c @ [row]\<rparr>))"

section \<open>Reads\<close>

text \<open>Newest first.\<close>

definition newest :: "('a \<Rightarrow> nat) \<Rightarrow> 'a list \<Rightarrow> 'a list" where
  "newest version rows = rev (sort_key version rows)"

definition history :: "scope \<Rightarrow> ustr \<Rightarrow> ustr \<Rightarrow> nat \<Rightarrow> continuity \<Rightarrow> state_row list" where
  "history scope session key limit c =
     (if scope = Unresolved then [] else take limit (newest ts_version (chain scope session key c)))"

definition get_state :: "scope \<Rightarrow> ustr \<Rightarrow> ustr \<Rightarrow> continuity \<Rightarrow> state_row option" where
  "get_state scope session key c = (case history scope session key 1 c of [] \<Rightarrow> None | r # _ \<Rightarrow> Some r)"

definition active_task_keys :: "scope \<Rightarrow> ustr \<Rightarrow> nat \<Rightarrow> continuity \<Rightarrow> ustr list" where
  "active_task_keys scope session limit c =
     (let rows = filter (\<lambda>r. in_scope scope session (ts_session r) (ts_pk r)) (states c);
          last_at = (\<lambda>k. case map ts_at (filter (\<lambda>r. ts_key r = k) rows) of [] \<Rightarrow> 0 | t # ts \<Rightarrow> fold max ts t)
      in take limit (sort_key (\<lambda>k. - last_at k) (remdups (map ts_key rows))))"

text \<open>The dashboard list: the heads of a user's sessions; \<open>sessions\<close> are pairs of id and user.\<close>

definition list_for_user :: "(int \<times> int) list \<Rightarrow> int \<Rightarrow> ustr \<Rightarrow> nat \<Rightarrow> continuity \<Rightarrow> state_row list" where
  "list_for_user sessions user status limit c =
     take limit (sort_key (\<lambda>r. - ts_at r) (filter (\<lambda>r. (case ts_pk r of
         None \<Rightarrow> False
       | Some pk \<Rightarrow> (pk, user) \<in> set sessions
           \<and> ts_version r = head_version (Scoped pk) (ts_session r) (ts_key r) c) \<and> ts_status r = status) (states c)))"

section \<open>Checkpoints\<close>

definition create_checkpoint ::
  "int \<Rightarrow> scope \<Rightarrow> ustr \<Rightarrow> ustr \<Rightarrow> ustr \<Rightarrow> continuity \<Rightarrow> (state_error + checkpoint_row) \<times> continuity" where
  "create_checkpoint now scope session key note c =
     (if scope = Unresolved then (Inl UnresolvedScope, c)
      else let row = \<lparr>cp_id = Suc (fold max (map cp_id (checkpoint_rows c)) 0), cp_session = session,
             cp_pk = scope_pk scope, cp_key = key, cp_version = head_version scope session key c,
             cp_note = take 500 note, cp_at = now\<rparr>
           in (Inr row, c\<lparr>checkpoint_rows := checkpoint_rows c @ [row]\<rparr>))"

definition checkpoints_of :: "scope \<Rightarrow> ustr \<Rightarrow> ustr option \<Rightarrow> nat \<Rightarrow> continuity \<Rightarrow> checkpoint_row list" where
  "checkpoints_of scope session key limit c =
     take limit (newest cp_id (filter (\<lambda>r. in_scope scope session (cp_session r) (cp_pk r)
        \<and> (case key of None \<Rightarrow> True | Some k \<Rightarrow> cp_key r = k)) (checkpoint_rows c)))"

text \<open>The hook that runs before a failover: every tracked task is pinned, the newest five.\<close>

fun checkpoint_all ::
  "int \<Rightarrow> scope \<Rightarrow> ustr \<Rightarrow> ustr \<Rightarrow> ustr list \<Rightarrow> continuity \<Rightarrow> (state_error + checkpoint_row list) \<times> continuity" where
  "checkpoint_all now scope session note [] c = (Inr [], c)"
| "checkpoint_all now scope session note (k # ks) c =
     (case create_checkpoint now scope session k note c of
        (Inl e, c1) \<Rightarrow> (Inl e, c1)
      | (Inr row, c1) \<Rightarrow>
          (case checkpoint_all now scope session note ks c1 of
             (Inl e, c2) \<Rightarrow> (Inl e, c2)
           | (Inr rows, c2) \<Rightarrow> (Inr (row # rows), c2)))"

definition reactive_checkpoint ::
  "int \<Rightarrow> scope \<Rightarrow> ustr \<Rightarrow> ustr \<Rightarrow> continuity \<Rightarrow> (state_error + checkpoint_row list) \<times> continuity" where
  "reactive_checkpoint now scope session note c =
     checkpoint_all now scope session note (active_task_keys scope session MAX_TASK_KEYS_RENDERED c) c"

definition failover_note :: "ustr option \<Rightarrow> ustr option \<Rightarrow> ustr" where
  "failover_note failed_provider error_class =
     lit ''auto: pre-failover snapshot ('' @ (case failed_provider of Some (x # xs) \<Rightarrow> x # xs | _ \<Rightarrow> lit ''?'')
     @ lit '' failed: '' @ (case error_class of Some (x # xs) \<Rightarrow> x # xs | _ \<Rightarrow> lit ''?'') @ lit '')''"

section \<open>The brief\<close>

record recent_run =
  rr_finished :: "int option"
  rr_outcome :: ustr
  rr_provider :: ustr
  rr_error :: "ustr option"

fun interruption_loop :: "int \<Rightarrow> recent_run list \<Rightarrow> ustr option" where
  "interruption_loop cp_after [] = None"
| "interruption_loop cp_after (r # rs) =
     (if (case rr_finished r of None \<Rightarrow> 0 | Some t \<Rightarrow> t) \<le> cp_after then interruption_loop cp_after rs
      else if rr_outcome r = lit ''ok'' then None
      else Some (lit ''The previous attempt ended unexpectedly on provider '' @ [39] @ rr_provider r @ [39]
        @ lit '' ('' @ (case rr_error r of Some (x # xs) \<Rightarrow> x # xs | _ \<Rightarrow> rr_outcome r)
        @ lit ''). Continue from the trusted state below instead of restarting.''))"

definition interruption_from :: "checkpoint_row option \<Rightarrow> recent_run list option \<Rightarrow> ustr option" where
  "interruption_from latest recent = (case recent of
       None \<Rightarrow> None
     | Some rs \<Rightarrow> interruption_loop (case latest of None \<Rightarrow> 0 | Some cp \<Rightarrow> cp_at cp) rs)"

definition render_payload :: "json \<Rightarrow> ustr" where
  "render_payload payload =
     (let rendered = dumps False (sort_keys payload) in
      if MAX_RENDER_CHARS_PER_TASK < length rendered
      then take MAX_RENDER_CHARS_PER_TASK rendered @ [8230] @ lit ''[truncated]'' else rendered)"

definition task_chunk :: "state_row \<Rightarrow> checkpoint_row option \<Rightarrow> ustr" where
  "task_chunk r cp = join [10]
     ([lit ''Task '' @ [39] @ ts_key r @ [39] @ lit '' (status: '' @ ts_status r @ lit '', v''
         @ dec_nat (ts_version r) @ lit ''):'', render_payload (ts_payload r)]
      @ (case cp of None \<Rightarrow> []
         | Some p \<Rightarrow> [lit ''Latest checkpoint #'' @ dec_nat (cp_id p) @ lit '' (at v'' @ dec_nat (cp_version p)
              @ lit ''): '' @ cp_note p]))"

fun brief_loop :: "nat \<Rightarrow> (ustr \<Rightarrow> ustr option) \<Rightarrow> nat \<Rightarrow> nat \<Rightarrow> ustr list \<Rightarrow> ustr list \<times> bool" where
  "brief_loop cap chunk idx used [] = ([], False)"
| "brief_loop cap chunk idx used (k # ks) = (case chunk k of
       None \<Rightarrow> brief_loop cap chunk (Suc idx) used ks
     | Some t \<Rightarrow>
         if cap < used + length t \<and> 0 < idx then ([], True)
         else (case brief_loop cap chunk (Suc idx) (used + length t + 1) ks of (ts, omitted) \<Rightarrow> (t # ts, omitted)))"

definition brief_opening :: ustr where
  "brief_opening = lit ''[Session continuity '' @ [8212] @ lit '' canonical task state maintained by ''
     @ lit ''Invincible. Trust this over reconstructed transcript details.]''"

definition brief_omitted :: ustr where
  "brief_omitted = lit ''['' @ [8230] @ lit ''additional tasks omitted to bound prompt size]''"

definition brief_closing :: ustr where
  "brief_closing = lit ''[End session continuity]''"

definition context_message ::
  "env \<Rightarrow> scope \<Rightarrow> ustr \<Rightarrow> recent_run list option \<Rightarrow> continuity \<Rightarrow> ustr option" where
  "context_message e scope session recent c =
     (if \<not> continuity_enabled e \<or> scope = Unresolved then None
      else let keys = active_task_keys scope session MAX_TASK_KEYS_RENDERED c in
      if keys = [] then None
      else
        let newest_cp = (\<lambda>k. case checkpoints_of scope session k 1 c of [] \<Rightarrow> None | p # _ \<Rightarrow> Some p);
            opening = brief_opening # (case interruption_from (newest_cp None) recent of None \<Rightarrow> [] | Some t \<Rightarrow> [t]);
            chunk = (\<lambda>k. map_option (\<lambda>r. task_chunk r (newest_cp (Some k))) (get_state scope session k c));
            (chunks, omitted) = brief_loop BRIEF_TOTAL_CHAR_CAP chunk 0 (sum_list (map (\<lambda>l. length l + 1) opening)) keys
        in Some (join [10] (opening @ chunks @ (if omitted then [brief_omitted] else []) @ [brief_closing])))"

section \<open>A chain of versions is a log\<close>

type_synonym write_op = "int \<times> scope \<times> ustr \<times> ustr \<times> state_write"

definition no_states :: continuity where
  "no_states = \<lparr>states = [], checkpoint_rows = []\<rparr>"

definition run_writes :: "write_op list \<Rightarrow> continuity \<Rightarrow> continuity" where
  "run_writes ops c = fold (\<lambda>(now, scope, session, key, w) c. snd (set_state now scope session key w c)) ops c"

text \<open>The abstract specification: per owning session and task key a list of writes, and the writes
  it takes: valid ones that expect no version, or the one that is current.\<close>

definition admits :: "state_write list \<Rightarrow> state_write \<Rightarrow> bool" where
  "admits log w \<longleftrightarrow> check_write w = None \<and> w_expected w \<in> {None, Some (length log)}"

fun log_of :: "int \<Rightarrow> ustr \<Rightarrow> write_op list \<Rightarrow> state_write list \<Rightarrow> state_write list" where
  "log_of pk key [] log = log"
| "log_of pk key ((now, scope, session, k, w) # ops) log =
     log_of pk key ops (if scope = Scoped pk \<and> k = key \<and> admits log w then log @ [w] else log)"

definition logged :: "nat \<times> state_write \<Rightarrow> nat \<times> json \<times> ustr \<times> ustr" where
  "logged = (\<lambda>(v, w). (v, w_payload w, w_status w, w_actor w))"

definition state_view :: "state_row \<Rightarrow> nat \<times> json \<times> ustr \<times> ustr" where
  "state_view r = (ts_version r, ts_payload r, ts_status r, ts_actor r)"

definition holds_log :: "int \<Rightarrow> ustr \<Rightarrow> state_write list \<Rightarrow> continuity \<Rightarrow> bool" where
  "holds_log pk key log c \<longleftrightarrow> (\<forall>session. map state_view (chain (Scoped pk) session key c) = map logged (enumerate 1 log))"

lemma versions_of_log: "holds_log pk key log c \<Longrightarrow> map ts_version (chain (Scoped pk) session key c) = [1..<Suc (length log)]"
proof -
  assume "holds_log pk key log c"
  then have "map fst (map state_view (chain (Scoped pk) session key c)) = map fst (map logged (enumerate 1 log))"
    by (simp add: holds_log_def)
  moreover have "map fst (map logged (enumerate n log)) = [n..<n + length log]" for n
    by (rule nth_equalityI) (simp_all add: logged_def nth_enumerate_eq)
  ultimately show ?thesis by (simp add: state_view_def comp_def)
qed

lemma fold_max_upt: "fold max [Suc 0..<Suc n] (0::nat) = n"
  by (induction n) simp_all

lemma head_of_log: "holds_log pk key log c \<Longrightarrow> head_version (Scoped pk) session key c = length log"
  by (simp add: head_version_def versions_of_log fold_max_upt del: upt_Suc)

lemma no_violation:
  assumes "holds_log pk key log c" and "ts_pk row = Some pk" "ts_key row = key" "ts_version row = Suc (length log)"
  shows "\<not> violates_unique row c"
proof
  assume "violates_unique row c"
  then obtain r where r: "r \<in> set (chain (Scoped pk) [] key c)" "ts_version r = Suc (length log)"
    using assms by (auto simp: violates_unique_def list_ex_iff chain_def)
  have "ts_version r \<in> set (map ts_version (chain (Scoped pk) [] key c))" using r(1) by simp
  then show False using r(2) unfolding versions_of_log [OF assms(1)] by simp
qed

lemma set_state_of_log:
  assumes "holds_log pk key log c"
  shows "fst (set_state now (Scoped pk) session key w c) = (case check_write w of
      Some e \<Rightarrow> Inl e | None \<Rightarrow> if admits log w then Inr (Suc (length log)) else Inl Conflict)"
    and "holds_log pk key (if admits log w then log @ [w] else log) (snd (set_state now (Scoped pk) session key w c))"
proof -
  show "fst (set_state now (Scoped pk) session key w c) = (case check_write w of
      Some e \<Rightarrow> Inl e | None \<Rightarrow> if admits log w then Inr (Suc (length log)) else Inl Conflict)"
    using assms no_violation [OF assms]
    by (auto simp: set_state_def head_of_log admits_def Let_def split: option.splits)
  show "holds_log pk key (if admits log w then log @ [w] else log) (snd (set_state now (Scoped pk) session key w c))"
    using assms no_violation [OF assms]
    by (auto simp: set_state_def head_of_log admits_def Let_def holds_log_def chain_def state_view_def logged_def
        enumerate_append_eq split: option.splits)
qed

lemma set_state_elsewhere:
  assumes "\<not> (scope = Scoped pk \<and> k = key)"
  shows "holds_log pk key log (snd (set_state now scope session k w c)) = holds_log pk key log c"
  using assms by (cases scope) (auto simp: set_state_def Let_def holds_log_def chain_def split: option.splits)

lemma run_writes_log: "holds_log pk key log c \<Longrightarrow> holds_log pk key (log_of pk key ops log) (run_writes ops c)"
proof (induction ops arbitrary: log c)
  case Nil
  then show ?case by (simp add: run_writes_def)
next
  case (Cons op ops)
  obtain now scope session k w where op: "op = (now, scope, session, k, w)" by (metis prod_cases5)
  have "holds_log pk key (if scope = Scoped pk \<and> k = key \<and> admits log w then log @ [w] else log)
      (snd (set_state now scope session k w c))"
    using set_state_of_log(2) [OF Cons.prems, of w now session] set_state_elsewhere [of scope pk k key log] Cons.prems
    by (cases "scope = Scoped pk \<and> k = key") auto
  from Cons.IH [OF this] show ?case by (simp add: op run_writes_def)
qed

text \<open>
  C19: a task's chain refines a log. After any writes on any sessions, the history of a task is the
  log of its own admitted writes, newest first, numbered from one without gaps; a write is answered
  as the log answers it: refused when it is invalid or expects another version than the current one,
  and otherwise the next version. Nothing a write on another session or task does changes it.\<close>

theorem history_is_the_log:
  "let c = run_writes ops no_states; log = log_of pk key ops [] in
     map state_view (history (Scoped pk) session key limit c) = take limit (rev (map logged (enumerate 1 log)))
     \<and> fst (set_state now (Scoped pk) session key w c) = (case check_write w of
         Some e \<Rightarrow> Inl e | None \<Rightarrow> if admits log w then Inr (Suc (length log)) else Inl Conflict)"
proof -
  define c log where "c = run_writes ops no_states" and "log = log_of pk key ops []"
  have "holds_log pk key [] no_states" by (simp add: holds_log_def chain_def no_states_def)
  then have log: "holds_log pk key log c" using run_writes_log unfolding c_def log_def by blast
  have "sorted (map ts_version (chain (Scoped pk) session key c))" unfolding versions_of_log [OF log] by (simp del: upt_Suc)
  then have "newest ts_version (chain (Scoped pk) session key c) = rev (chain (Scoped pk) session key c)"
    by (simp add: newest_def sort_key_id_if_sorted)
  then have "map state_view (history (Scoped pk) session key limit c) = take limit (rev (map logged (enumerate 1 log)))"
    using log by (simp add: history_def holds_log_def rev_map [symmetric] take_map [symmetric])
  then show ?thesis using set_state_of_log(1) [OF log]
    unfolding Let_def c_def [symmetric] log_def [symmetric] by blast
qed

end
