(* ===== verification/Todos.thy ===== *)
theory Todos
  imports Continuity
begin

text \<open>
  The todo tool on top of the continuity store (\<open>invincible/core/todos.py\<close>): the list is the
  payload of the chain of the task key \<open>todos\<close>. \<open>run_todo\<close> reads the head, decides, and writes; the
  three parts are separate definitions, so that calls can overlap. The texts of errors are not
  modelled; \<open>repr\<close> is Python's \<open>str\<close> of a value that is no text, number or boolean.
\<close>

definition TODO_TASK_KEY :: ustr where "TODO_TASK_KEY = lit ''todos''"
definition TODO_MAX_ITEMS :: nat where "TODO_MAX_ITEMS = 20"
definition TODO_MAX_TEXT_CHARS :: nat where "TODO_MAX_TEXT_CHARS = 200"

record todo_item =
  it_id :: ustr
  it_text :: ustr
  it_done :: bool

text \<open>\<open>next_id\<close> stays the value it is in the payload: an integer, or \<open>True\<close>, which Python counts
  as one.\<close>

record todo_list =
  td_items :: "todo_item list"
  td_next :: json

fun as_count :: "json \<Rightarrow> int option" where
  "as_count (JInt i) = Some i"
| "as_count (JBool b) = Some (if b then 1 else 0)"
| "as_count _ = None"

definition normalize_item :: "(json \<Rightarrow> ustr) \<Rightarrow> json \<Rightarrow> todo_item option" where
  "normalize_item repr entry = (case entry of
       JObj d \<Rightarrow>
         (case dget d (lit ''text'') of
            JStr t \<Rightarrow> if dget d (lit ''id'') = JNull then None
              else Some \<lparr>it_id = py_str repr (dget d (lit ''id'')), it_text = t,
                         it_done = (dget d (lit ''done'') = JBool True)\<rparr>
          | _ \<Rightarrow> None)
     | _ \<Rightarrow> None)"

definition normalize_todos :: "(json \<Rightarrow> ustr) \<Rightarrow> json \<Rightarrow> todo_list" where
  "normalize_todos repr payload = (case payload of
       JObj d \<Rightarrow>
         \<lparr>td_items = (case dget d (lit ''items'') of
              JList es \<Rightarrow> List.map_filter (normalize_item repr) es | _ \<Rightarrow> []),
          td_next = (case as_count (dget d (lit ''next_id'')) of
              Some i \<Rightarrow> if 1 \<le> i then dget d (lit ''next_id'') else JInt 1 | None \<Rightarrow> JInt 1)\<rparr>
     | _ \<Rightarrow> \<lparr>td_items = [], td_next = JInt 1\<rparr>)"

definition item_json :: "todo_item \<Rightarrow> json" where
  "item_json i = JObj [(lit ''id'', JStr (it_id i)), (lit ''text'', JStr (it_text i)), (lit ''done'', JBool (it_done i))]"

definition todo_payload :: "todo_list \<Rightarrow> json" where
  "todo_payload t = JObj [(lit ''items'', JList (map item_json (td_items t))), (lit ''next_id'', td_next t)]"

datatype todo_action = Add ustr | ListItems | Complete ustr | Clear | UnknownAction

datatype todo_result =
    NoEngine
  | BadAction
  | NothingTracked
  | NoSession
  | Listed "todo_item list" nat
  | EmptyText
  | TextTooLong
  | ListFull
  | MissingId
  | UnknownId
  | StoreRefused state_error
  | Cleared nat
  | Added todo_item "todo_item list" nat
  | Completed todo_item "todo_item list" nat

text \<open>What an action makes of the list that was read: an answer at once, or a new list to store and
  the answer to give when it is stored.\<close>

datatype plan = Answer todo_result | Store todo_list "nat \<Rightarrow> todo_result"

definition todo_plan :: "(json \<Rightarrow> ustr) \<Rightarrow> todo_action \<Rightarrow> nat \<Rightarrow> todo_list \<Rightarrow> plan" where
  "todo_plan repr action version current = (case action of
       UnknownAction \<Rightarrow> Answer BadAction
     | ListItems \<Rightarrow> Answer (Listed (td_items current) version)
     | Clear \<Rightarrow> Store (current\<lparr>td_items := []\<rparr>) Cleared
     | Add text \<Rightarrow>
         let step = strip text in
         if step = [] then Answer EmptyText
         else if TODO_MAX_TEXT_CHARS < length step then Answer TextTooLong
         else if TODO_MAX_ITEMS \<le> length (td_items current) then Answer ListFull
         else let item = \<lparr>it_id = py_str repr (td_next current), it_text = step, it_done = False\<rparr>;
                  items = td_items current @ [item]
           in Store \<lparr>td_items = items, td_next = JInt (the (as_count (td_next current)) + 1)\<rparr> (Added item items)
     | Complete todo_id \<Rightarrow>
         let want = strip todo_id in
         if want = [] then Answer MissingId
         else (case find (\<lambda>i. it_id i = want) (td_items current) of
             None \<Rightarrow> Answer UnknownId
           | Some target \<Rightarrow>
               let items = map (\<lambda>i. if it_id i = want then i\<lparr>it_done := True\<rparr> else i) (td_items current)
               in Store (current\<lparr>td_items := items\<rparr>) (Completed (target\<lparr>it_done := True\<rparr>) items)))"

definition read_todos :: "(json \<Rightarrow> ustr) \<Rightarrow> int \<Rightarrow> ustr \<Rightarrow> continuity \<Rightarrow> nat \<times> todo_list" where
  "read_todos repr pk session c = (case get_state (Scoped pk) session TODO_TASK_KEY c of
       None \<Rightarrow> (0, normalize_todos repr JNull)
     | Some r \<Rightarrow> (ts_version r, normalize_todos repr (ts_payload r)))"

definition write_todos ::
  "int \<Rightarrow> int \<Rightarrow> ustr \<Rightarrow> ustr \<Rightarrow> plan \<Rightarrow> continuity \<Rightarrow> todo_result \<times> continuity" where
  "write_todos now pk session actor p c = (case p of
       Answer r \<Rightarrow> (r, c)
     | Store t answer \<Rightarrow>
         (case set_state now (Scoped pk) session TODO_TASK_KEY
             \<lparr>w_payload = todo_payload t, w_status = lit ''active'', w_actor = actor, w_expected = None, w_request = None\<rparr> c of
            (Inl e, c') \<Rightarrow> (StoreRefused e, c')
          | (Inr v, c') \<Rightarrow> (answer v, c')))"

definition run_todo ::
  "(json \<Rightarrow> ustr) \<Rightarrow> int \<Rightarrow> ustr \<Rightarrow> int option \<Rightarrow> ustr \<Rightarrow> todo_action \<Rightarrow> continuity option \<Rightarrow> todo_result \<times> continuity option" where
  "run_todo repr now session session_pk actor action store = (case store of
       None \<Rightarrow> (NoEngine, None)
     | Some c \<Rightarrow>
         if action = UnknownAction then (BadAction, Some c)
         else (case session_pk of
             None \<Rightarrow> (if action = ListItems then NothingTracked else NoSession, Some c)
           | Some pk \<Rightarrow>
               (case read_todos repr pk session c of (version, current) \<Rightarrow>
                 (case write_todos now pk session actor (todo_plan repr action version current) c of
                    (r, c') \<Rightarrow> (r, Some c')))))"

section \<open>What is stored is read back\<close>

lemma normalize_payload:
  assumes "as_count (td_next t) = Some i" and "1 \<le> i"
  shows "normalize_todos repr (todo_payload t) = t"
proof -
  have item: "normalize_item repr (item_json i) = Some i" for i
    by (simp add: normalize_item_def item_json_def dget_def)
  have "List.map_filter (normalize_item repr) (map item_json items) = items" for items
    by (induction items) (simp_all add: item List.map_filter_simps)
  then show ?thesis using assms by (simp add: normalize_todos_def todo_payload_def dget_def)
qed

lemma next_counts: "\<exists>i. as_count (td_next (normalize_todos repr payload)) = Some i \<and> 1 \<le> i"
  by (cases payload) (simp_all add: normalize_todos_def split: option.split)

lemma insort_key_greater: "f x \<le> f r \<Longrightarrow> insort_key f x (ys @ [r]) = insort_key f x ys @ [r]"
  by (induction ys) auto

lemma sort_key_greatest: "(\<And>x. x \<in> set xs \<Longrightarrow> f x \<le> f r) \<Longrightarrow> sort_key f (xs @ [r]) = sort_key f xs @ [r]"
  for f :: "'a \<Rightarrow> nat"
  by (induction xs) (simp_all add: insort_key_greater)

lemma fold_max_ge: "x \<in> set xs \<or> x \<le> n \<Longrightarrow> x \<le> fold max xs (n :: nat)"
proof -
  have "fold max xs n = Max (insert n (set xs))" using Max.set_eq_fold [of n xs] by simp
  then show "x \<in> set xs \<or> x \<le> n \<Longrightarrow> x \<le> fold max xs n"
    by (metis Max_ge List.finite_set finite_insert insertI1 insertI2 le_trans)
qed

text \<open>A write that is taken is the state that is read next.\<close>

lemma get_state_written:
  assumes "set_state now (Scoped pk) session key w c = (Inr v, c')"
  shows "\<exists>r. get_state (Scoped pk) session' key c' = Some r \<and> ts_version r = v \<and> ts_payload r = w_payload w"
proof -
  let ?row = "\<lparr>ts_session = session, ts_pk = Some pk, ts_key = key, ts_status = w_status w, ts_payload = w_payload w,
    ts_version = Suc (head_version (Scoped pk) session key c), ts_actor = w_actor w, ts_request = w_request w, ts_at = now\<rparr>"
  have v: "v = ts_version ?row" and c': "c' = c\<lparr>states := states c @ [?row]\<rparr>"
    using assms by (auto simp: set_state_def Let_def split: option.splits if_splits)
  have same: "chain (Scoped pk) session' key c = chain (Scoped pk) session key c" by (simp add: chain_def)
  have "ts_version r \<le> ts_version ?row" if "r \<in> set (chain (Scoped pk) session key c)" for r
    using fold_max_ge [of "ts_version r" "map ts_version (chain (Scoped pk) session key c)" 0] that
    by (simp add: head_version_def le_SucI)
  then have "newest ts_version (chain (Scoped pk) session' key c') = ?row # newest ts_version (chain (Scoped pk) session key c)"
    using sort_key_greatest [of "chain (Scoped pk) session key c" ts_version ?row] same
    by (simp add: newest_def c' chain_def)
  then show ?thesis using v by (simp add: get_state_def history_def)
qed

lemma set_state_failed: "set_state now scope session key w c = (Inl e, c') \<Longrightarrow> c' = c"
  by (auto simp: set_state_def Let_def split: option.splits if_splits)

definition counts :: "plan \<Rightarrow> bool" where
  "counts p = (case p of Answer r \<Rightarrow> True | Store t f \<Rightarrow> \<exists>i. as_count (td_next t) = Some i \<and> 1 \<le> i)"

lemma plan_counts: "as_count (td_next t) = Some i \<Longrightarrow> 1 \<le> i \<Longrightarrow> counts (todo_plan repr action v t)"
  by (auto simp: todo_plan_def counts_def Let_def split: todo_action.splits option.splits)

lemma read_counts: "read_todos repr pk session c = (v, t) \<Longrightarrow> \<exists>i. as_count (td_next t) = Some i \<and> 1 \<le> i"
  using next_counts by (auto simp: read_todos_def split: option.splits)

lemma write_todos_cases:
  assumes "write_todos now pk session actor p c = (r, c')" and "counts p"
  obtains "p = Answer r" "c' = c" | e where "r = StoreRefused e" "c' = c"
  | t answer v where "p = Store t answer" "r = answer v" "read_todos repr pk session' c' = (v, t)"
proof (cases p)
  case (Answer a)
  then show thesis using that(1) assms(1) by (simp add: write_todos_def)
next
  case (Store t answer)
  then obtain i where i: "as_count (td_next t) = Some i" "1 \<le> i" using assms(2) by (auto simp: counts_def)
  obtain out c1 where s: "set_state now (Scoped pk) session TODO_TASK_KEY \<lparr>w_payload = todo_payload t,
      w_status = lit ''active'', w_actor = actor, w_expected = None, w_request = None\<rparr> c = (out, c1)" by fastforce
  show thesis
  proof (cases out)
    case (Inl e)
    then show thesis using that(2) assms(1) s Store set_state_failed by (auto simp: write_todos_def)
  next
    case (Inr v)
    then obtain row where "get_state (Scoped pk) session' TODO_TASK_KEY c1 = Some row" "ts_version row = v"
      "ts_payload row = todo_payload t" using get_state_written s by fastforce
    then have "read_todos repr pk session' c1 = (v, t)" using normalize_payload [OF i] by (simp add: read_todos_def)
    then show thesis using that(3) [OF Store] assms(1) s Store Inr by (auto simp: write_todos_def)
  qed
qed

text \<open>The list an answer shows, with its version.\<close>

fun shown :: "todo_result \<Rightarrow> (todo_item list \<times> nat) option" where
  "shown (Listed items v) = Some (items, v)"
| "shown (Cleared v) = Some ([], v)"
| "shown (Added i items v) = Some (items, v)"
| "shown (Completed i items v) = Some (items, v)"
| "shown _ = None"

lemma plan_shows:
  "todo_plan repr action v t = Answer r \<Longrightarrow> action \<noteq> UnknownAction \<Longrightarrow>
     shown r = (if action = ListItems then Some (td_items t, v) else None)"
  "todo_plan repr action v t = Store t' f \<Longrightarrow> shown (f v') = Some (td_items t', v')"
  by (cases action; auto simp: todo_plan_def Let_def split: if_splits option.splits)+

lemma todo_keeps_store: "\<exists>r c'. run_todo repr now session (Some pk) actor action (Some c) = (r, Some c')"
  by (auto simp: run_todo_def split: prod.splits)

text \<open>
  What a todo action shows is what is stored: when an action shows a list, listing right after
  it, under whatever client string the session goes by, gives that list at that version; when it
  shows none (it was refused) the store is as before.\<close>

lemma shown_todos_are_stored:
  assumes "run_todo repr now session (Some pk) actor action (Some c) = (r, Some c')"
  shows "case shown r of
      Some (items, v) \<Rightarrow> run_todo repr later session' (Some pk) actor' ListItems (Some c') = (Listed items v, Some c')
    | None \<Rightarrow> c' = c"
proof -
  have lists: "run_todo repr later session' (Some pk) actor' ListItems (Some d)
      = (Listed (td_items t) v, Some d)" if "read_todos repr pk session' d = (v, t)" for d v t
    using that by (simp add: run_todo_def todo_plan_def write_todos_def)
  obtain v t where read: "read_todos repr pk session c = (v, t)" by fastforce
  have read': "read_todos repr pk session' c = (v, t)" using read by (simp add: read_todos_def get_state_def history_def chain_def)
  have cnt: "counts (todo_plan repr action v t)" using read_counts [OF read] plan_counts by blast
  show ?thesis
  proof (cases "action = UnknownAction")
    case True
    then show ?thesis using assms by (auto simp: run_todo_def)
  next
    case False
    then have w: "write_todos now pk session actor (todo_plan repr action v t) c = (r, c')"
      using assms read by (auto simp: run_todo_def split: prod.splits)
    show ?thesis
      using w cnt
    proof (cases rule: write_todos_cases [where repr = repr and session' = session'])
      case 1
      then show ?thesis using plan_shows(1) [OF 1(1) False] lists [OF read'] by simp
    next
      case (3 t' answer v')
      then show ?thesis using plan_shows(2) [OF 3(1), of v'] lists [OF 3(3)] by simp
    qed simp
  qed
qed

lemma shown_todos_are_stored_witness:
  "\<exists>r d. run_todo (\<lambda>_. []) 0 [] (Some 7) [] (Add [97]) (Some no_states) = (r, Some d) \<and>
    (case shown r of
       Some (items, v) \<Rightarrow> run_todo (\<lambda>_. []) 1 [98] (Some 7) [] ListItems (Some d) = (Listed items v, Some d)
     | None \<Rightarrow> d = no_states)"
  using shown_todos_are_stored todo_keeps_store by meson

section \<open>Ids\<close>

text \<open>The id a list hands out next, and the ids it can hand out from a count on.\<close>

definition id_from :: "(json \<Rightarrow> ustr) \<Rightarrow> int \<Rightarrow> json \<Rightarrow> bool" where
  "id_from repr i v \<longleftrightarrow> (\<exists>n. as_count v = Some n \<and> i \<le> n \<and> 1 \<le> n)"

definition ids_from :: "(json \<Rightarrow> ustr) \<Rightarrow> int \<Rightarrow> ustr set" where
  "ids_from repr i = {py_str repr v | v. id_from repr i v}"

lemma id_fresh:
  assumes "as_count v = Some n" and "1 \<le> n"
  shows "py_str repr v \<notin> ids_from repr (n + 1)"
proof
  assume "py_str repr v \<in> ids_from repr (n + 1)"
  then obtain v' n' where v': "py_str repr v = py_str repr v'" "as_count v' = Some n'" "n + 1 \<le> n'"
    by (auto simp: ids_from_def id_from_def)
  then have "v' = JInt n'" using assms(2) by (cases v') (auto split: if_splits)
  then have id: "py_str repr v = dec_nat (nat n')" using v' assms(2) by (simp add: dec_def)
  show False
  proof (cases v)
    case (JInt i)
    then have "dec_nat (nat n) = dec_nat (nat n')" using id assms by (simp add: dec_def)
    then show False using dec_nat_inject v'(3) assms(2) by fastforce
  next
    case (JBool b)
    then have "84 \<in> set (dec_nat (nat n'))" using id assms by (auto simp: lit_def split: if_splits) (metis list.set_intros(1))
    then show False using dec_nat_digits by fastforce
  qed (use assms in simp_all)
qed

lemma ids_from_mono: "i \<le> j \<Longrightarrow> ids_from repr j \<subseteq> ids_from repr i"
  by (auto simp: ids_from_def id_from_def)

type_synonym todo_call = "int \<times> ustr \<times> ustr \<times> todo_action"

fun run_todos :: "(json \<Rightarrow> ustr) \<Rightarrow> int \<Rightarrow> todo_call list \<Rightarrow> continuity \<Rightarrow> todo_result list" where
  "run_todos repr pk [] c = []"
| "run_todos repr pk ((now, session, actor, action) # calls) c =
     (case run_todo repr now session (Some pk) actor action (Some c) of
        (r, c') \<Rightarrow> r # run_todos repr pk calls (case c' of Some d \<Rightarrow> d | None \<Rightarrow> c))"

definition added_ids :: "todo_result list \<Rightarrow> ustr list" where
  "added_ids rs = List.map_filter (\<lambda>r. case r of Added i items v \<Rightarrow> Some (it_id i) | _ \<Rightarrow> None) rs"

definition next_count :: "(json \<Rightarrow> ustr) \<Rightarrow> int \<Rightarrow> continuity \<Rightarrow> int" where
  "next_count repr pk c = the (as_count (td_next (snd (read_todos repr pk [] c))))"

lemma read_any: "read_todos repr pk session c = read_todos repr pk [] c"
  by (simp add: read_todos_def get_state_def history_def chain_def)

lemma plan_next:
  "todo_plan repr action v t = Answer r \<Longrightarrow> added_ids [r] = []"
  "todo_plan repr action v t = Store t' f \<Longrightarrow>
     td_next t' = td_next t \<and> added_ids [f v'] = []
     \<or> td_next t' = JInt (the (as_count (td_next t)) + 1) \<and> added_ids [f v'] = [py_str repr (td_next t)]"
  by (cases action; auto simp: todo_plan_def Let_def added_ids_def List.map_filter_simps split: if_splits option.splits)+

text \<open>One call hands out at most the id that is next, and moves on when it does.\<close>

lemma todo_step:
  assumes "run_todo repr now session (Some pk) actor action (Some c) = (r, Some c')"
  shows "1 \<le> next_count repr pk c \<and> (added_ids [r] = [] \<and> next_count repr pk c \<le> next_count repr pk c'
     \<or> (\<exists>x. added_ids [r] = [x] \<and> x \<in> ids_from repr (next_count repr pk c)
         \<and> x \<notin> ids_from repr (next_count repr pk c') \<and> next_count repr pk c \<le> next_count repr pk c'))"
proof -
  obtain v t where read: "read_todos repr pk session c = (v, t)" by fastforce
  obtain i where i: "as_count (td_next t) = Some i" "1 \<le> i" using read_counts [OF read] by blast
  have n: "next_count repr pk c = i" using read read_any [of repr pk session c] i by (simp add: next_count_def)
  show ?thesis
  proof (cases "action = UnknownAction")
    case True
    then show ?thesis using assms i n by (auto simp: run_todo_def added_ids_def List.map_filter_simps)
  next
    case False
    then have w: "write_todos now pk session actor (todo_plan repr action v t) c = (r, c')"
      using assms read by (auto simp: run_todo_def split: prod.splits)
    from w plan_counts [OF i] show ?thesis
    proof (cases rule: write_todos_cases [where repr = repr and session' = "[]"])
      case 1
      then show ?thesis using plan_next(1) i n by fastforce
    next
      case (2 e)
      then show ?thesis using i n by (simp add: added_ids_def List.map_filter_simps)
    next
      case (3 t' answer v')
      have n': "next_count repr pk c' = the (as_count (td_next t'))" using 3(3) by (simp add: next_count_def)
      have "py_str repr (td_next t) \<in> ids_from repr i" using i by (auto simp: ids_from_def id_from_def)
      then show ?thesis using plan_next(2) [OF 3(1), of v'] 3(2) n n' i id_fresh [OF i] by auto
    qed
  qed
qed

lemma added_ids_Cons: "added_ids (r # rs) = added_ids [r] @ added_ids rs"
  by (simp add: added_ids_def List.map_filter_def)

lemma added_from: "set (added_ids (run_todos repr pk calls c)) \<subseteq> ids_from repr (next_count repr pk c)
    \<and> distinct (added_ids (run_todos repr pk calls c))"
proof (induction calls arbitrary: c)
  case Nil
  then show ?case by (simp add: added_ids_def List.map_filter_simps)
next
  case (Cons call calls)
  obtain now session actor action where call: "call = (now, session, actor, action)" by (metis prod_cases4)
  obtain r c' where run: "run_todo repr now session (Some pk) actor action (Some c) = (r, Some c')"
    using todo_keeps_store by blast
  have ids: "added_ids (run_todos repr pk (call # calls) c) = added_ids [r] @ added_ids (run_todos repr pk calls c')"
    by (simp add: call run added_ids_Cons [of r "run_todos repr pk calls c'"])
  show ?case unfolding ids using todo_step [OF run] Cons.IH [of c'] ids_from_mono by fastforce
qed

text \<open>
  An id is never reused: whatever a session's todo calls are, one after the other, with completed
  and cleared lists, refused writes and payloads of foreign writers among them, no two items they
  add have the same id.\<close>

lemma todo_ids_are_never_reused:
  "distinct (added_ids (run_todos repr pk calls c))"
  using added_from by blast

text \<open>
  The write does not state the version it read: two adds that both read before either writes are
  both confirmed, with the same id, and the first of them is lost.\<close>

lemma overlapping_adds_share_an_id:
  fixes c :: continuity
  defines "plan \<equiv> \<lambda>t. todo_plan (\<lambda>_. []) (Add t) 0 (snd (read_todos (\<lambda>_. []) 7 [] no_states))"
  shows "case write_todos 0 7 [] [] (plan [97]) no_states of (r1, c1) \<Rightarrow>
    (case write_todos 0 7 [] [] (plan [98]) c1 of (r2, c2) \<Rightarrow>
      added_ids [r1, r2] = [[49], [49]]
      \<and> fst (run_todo (\<lambda>_. []) 0 [] (Some 7) [] ListItems (Some c2))
          = Listed [\<lparr>it_id = [49], it_text = [98], it_done = False\<rparr>] 2)"
  unfolding plan_def by code_simp

end
