(* ===== verification/Approvals.thy ===== *)
theory Approvals
  imports Staging
begin

text \<open>
  The durable approvals (\<open>invincible/core/harness_approvals.py\<close>): actions of suspended workflows
  parked in the table that the staged actions of theory Staging are also written to. A row is a
  staged action's when it names no workflow. The clock and the tokens are arguments.
\<close>

definition DEFAULT_SUSPEND_TTL_SECONDS :: int where "DEFAULT_SUSPEND_TTL_SECONDS = 86400"

record parked =
  pk_token :: ustr
  pk_type :: ustr
  pk_args :: pydict
  pk_created :: int
  pk_workflow :: "ustr option"
  pk_deadline :: "int option"

datatype approval = NotOurs | DeclinedFor ustr | Resume ustr pydict ustr int

definition add_row :: "parked \<Rightarrow> parked list \<Rightarrow> parked list" where
  "add_row r rows = (if list_ex (\<lambda>r'. pk_token r' = pk_token r) rows then rows else rows @ [r])"

definition suspend ::
  "int \<Rightarrow> int \<Rightarrow> ustr \<Rightarrow> ustr \<Rightarrow> ustr \<Rightarrow> pydict \<Rightarrow> int option \<Rightarrow> parked list \<Rightarrow> parked list" where
  "suspend now ttl token workflow ty args owner rows =
     add_row \<lparr>pk_token = token, pk_type = ty, pk_args = dset OWNER_SUBJECT_KEY (owner_json owner) args,
       pk_created = now, pk_workflow = Some workflow, pk_deadline = Some (now + ttl)\<rparr> rows"

definition delete_row :: "ustr \<Rightarrow> parked list \<Rightarrow> parked list" where
  "delete_row token rows = filter (\<lambda>r. pk_token r \<noteq> token) rows"

definition resolve :: "int \<Rightarrow> ustr \<Rightarrow> bool \<Rightarrow> int option \<Rightarrow> parked list \<Rightarrow> approval \<times> parked list" where
  "resolve now token approve requester rows = (case find (\<lambda>r. pk_token r = token) rows of
       None \<Rightarrow> (NotOurs, rows)
     | Some r \<Rightarrow> (case pk_workflow r of
           None \<Rightarrow> (NotOurs, rows)
         | Some workflow \<Rightarrow>
             if (case pk_deadline r of None \<Rightarrow> False | Some d \<Rightarrow> d < now) then (NotOurs, delete_row token rows)
             else if \<not> subject_ok (json_owner (dget (pk_args r) OWNER_SUBJECT_KEY)) requester then (NotOurs, rows)
             else (if approve then Resume (pk_type r) (ddel OWNER_SUBJECT_KEY (pk_args r)) workflow (pk_created r)
                   else DeclinedFor workflow, delete_row token rows)))"

definition pending_for_workflow :: "ustr \<Rightarrow> parked list \<Rightarrow> (ustr \<times> ustr \<times> int \<times> int option) list" where
  "pending_for_workflow workflow rows =
     map (\<lambda>r. (pk_token r, pk_type r, pk_created r, pk_deadline r)) (filter (\<lambda>r. pk_workflow r = Some workflow) rows)"

definition sweep_expired :: "int \<Rightarrow> parked list \<Rightarrow> nat \<times> parked list" where
  "sweep_expired now rows =
     (let old = (\<lambda>r. pk_workflow r \<noteq> None \<and> (case pk_deadline r of None \<Rightarrow> False | Some d \<Rightarrow> d \<le> now))
      in (length (filter old rows), filter (\<lambda>r. \<not> old r) rows))"

text \<open>The rows of the staged actions, as \<open>load_persisted\<close> selects them, and their writes.\<close>

definition fast_rows :: "parked list \<Rightarrow> pending_row list" where
  "fast_rows rows = map (\<lambda>r. (pk_token r, pk_type r, pk_args r, pk_created r)) (filter (\<lambda>r. pk_workflow r = None) rows)"

fun exec_fast :: "db_write \<Rightarrow> parked list \<Rightarrow> parked list" where
  "exec_fast (InsertRow t ty args created) rows = add_row
     \<lparr>pk_token = t, pk_type = ty, pk_args = args, pk_created = created, pk_workflow = None, pk_deadline = None\<rparr> rows"
| "exec_fast (DeleteRows ts) rows = filter (\<lambda>r. pk_token r \<notin> set ts) rows"

section \<open>Parked actions keep the token contract\<close>

definition rows_ok :: "parked list \<Rightarrow> bool" where
  "rows_ok rows \<longleftrightarrow> distinct (map pk_token rows)"

definition parked_action :: "parked list \<Rightarrow> ustr \<Rightarrow> parked option" where
  "parked_action rows token = (case find (\<lambda>r. pk_token r = token) rows of
       None \<Rightarrow> None | Some r \<Rightarrow> if pk_workflow r = None then None else Some r)"

lemma find_token: "rows_ok rows \<Longrightarrow> find (\<lambda>r. pk_token r = t) rows = Some r \<longleftrightarrow> r \<in> set rows \<and> pk_token r = t"
  unfolding rows_ok_def by (rule find_key_iff)

lemma parked_action_iff:
  assumes "rows_ok rows"
  shows "parked_action rows t = Some r \<longleftrightarrow> r \<in> set rows \<and> pk_token r = t \<and> pk_workflow r \<noteq> None"
proof -
  have "parked_action rows t = Some r \<longleftrightarrow> find (\<lambda>r. pk_token r = t) rows = Some r \<and> pk_workflow r \<noteq> None"
    by (auto simp: parked_action_def split: option.splits)
  then show ?thesis using find_token [OF assms] by auto
qed

lemma rows_ok_filter: "rows_ok rows \<Longrightarrow> rows_ok (filter P rows)"
  by (simp add: rows_ok_def distinct_map_filter)

lemma rows_ok_add: "rows_ok rows \<Longrightarrow> rows_ok (add_row r rows)"
  by (auto simp: rows_ok_def add_row_def list_ex_iff)

type_synonym parked_data = "ustr \<times> pydict \<times> int \<times> ustr option \<times> int option"

definition parked_data :: "parked \<Rightarrow> parked_data" where
  "parked_data r = (pk_type r, pk_args r, pk_created r, pk_workflow r, pk_deadline r)"

definition parked_at :: "parked list \<Rightarrow> ustr \<Rightarrow> parked_data option" where
  "parked_at rows token = map_option parked_data (parked_action rows token)"

type_synonym suspension = "ustr \<times> ustr \<times> pydict \<times> int option"

definition made_parked :: "int \<times> int \<Rightarrow> suspension \<Rightarrow> parked_data" where
  "made_parked q x = (case (q, x) of ((now, ttl), (workflow, ty, args, owner)) \<Rightarrow>
     (ty, dset OWNER_SUBJECT_KEY (owner_json owner) args, now, Some workflow, Some (now + ttl)))"

definition settle :: "int \<times> bool \<times> int option \<Rightarrow> ustr \<Rightarrow> parked list \<Rightarrow> parked_data option \<times> parked list" where
  "settle p token rows = (case p of (now, approve, requester) \<Rightarrow>
     (case resolve now token approve requester rows of
        (NotOurs, rows') \<Rightarrow> (None, rows')
      | (_, rows') \<Rightarrow> (parked_at rows token, rows')))"

lemma parked_at_iff:
  "rows_ok rows \<Longrightarrow> parked_at rows t = Some a \<longleftrightarrow>
     (\<exists>r \<in> set rows. pk_token r = t \<and> pk_workflow r \<noteq> None \<and> a = parked_data r)"
  using parked_action_iff by (auto simp: parked_at_def)

lemma parked_at_filter: "rows_ok rows \<Longrightarrow> parked_at (filter P rows) t = Some a \<Longrightarrow> parked_at rows t = Some a"
  using parked_at_iff rows_ok_filter by auto

lemma parked_at_delete: "rows_ok rows \<Longrightarrow> parked_at (delete_row t rows) t = None"
proof -
  assume ok: "rows_ok rows"
  have "parked_at (delete_row t rows) t \<noteq> Some a" for a
    using parked_at_iff [OF rows_ok_filter [OF ok], of "\<lambda>r. pk_token r \<noteq> t" t a] by (auto simp: delete_row_def)
  then show ?thesis by (meson not_None_eq)
qed

lemma resolve_cases:
  assumes "resolve now t approve requester rows = (out, rows')"
  obtains "out = NotOurs" "rows' = rows" | "out = NotOurs" "rows' = delete_row t rows"
  | r workflow where "find (\<lambda>r. pk_token r = t) rows = Some r" "pk_workflow r = Some workflow"
      "\<And>d. pk_deadline r = Some d \<Longrightarrow> now \<le> d"
      "subject_ok (json_owner (dget (pk_args r) OWNER_SUBJECT_KEY)) requester"
      "out = (if approve then Resume (pk_type r) (ddel OWNER_SUBJECT_KEY (pk_args r)) workflow (pk_created r)
              else DeclinedFor workflow)" "rows' = delete_row t rows"
proof (cases "find (\<lambda>r. pk_token r = t) rows")
  case None
  then show thesis using that(1) assms by (simp add: resolve_def)
next
  case (Some r)
  show thesis
  proof (cases "pk_workflow r")
    case None
    then show thesis using that(1) assms Some by (simp add: resolve_def)
  next
    case (Some workflow)
    consider "case pk_deadline r of None \<Rightarrow> False | Some d \<Rightarrow> d < now"
      | "\<not> (case pk_deadline r of None \<Rightarrow> False | Some d \<Rightarrow> d < now)"
        "\<not> subject_ok (json_owner (dget (pk_args r) OWNER_SUBJECT_KEY)) requester"
      | "\<not> (case pk_deadline r of None \<Rightarrow> False | Some d \<Rightarrow> d < now)"
        "subject_ok (json_owner (dget (pk_args r) OWNER_SUBJECT_KEY)) requester" by blast
    then show thesis
    proof cases
      case 1
      then show thesis using that(2) assms \<open>find _ rows = Some r\<close> Some by (simp add: resolve_def)
    next
      case 2
      then show thesis using that(1) assms \<open>find _ rows = Some r\<close> Some by (simp add: resolve_def)
    next
      case 3
      have "now \<le> d" if "pk_deadline r = Some d" for d using 3(1) that by simp
      then show thesis using that(3) [OF \<open>find _ rows = Some r\<close> Some _ 3(2)] 3 assms \<open>find _ rows = Some r\<close> Some
        by (simp add: resolve_def)
    qed
  qed
qed

text \<open>A definitive outcome takes the parked action out.\<close>

lemma settle_cases:
  assumes "settle p t rows = (out, rows')"
  obtains "out = None" "rows' = rows" | "out = None" "rows' = delete_row t rows"
  | "out = parked_at rows t" "parked_at rows t \<noteq> None" "rows' = delete_row t rows"
proof -
  obtain now approve requester where p: "p = (now, approve, requester)" by (metis prod_cases3)
  obtain res rows1 where r: "resolve now t approve requester rows = (res, rows1)" by fastforce
  from r show thesis
  proof (cases rule: resolve_cases)
    case (3 row workflow)
    then have "parked_at rows t \<noteq> None" by (simp add: parked_at_def parked_action_def)
    then show thesis using that(3) 3 assms r p by (auto simp: settle_def split: if_splits)
  qed (use that(1,2) assms r p in \<open>simp_all add: settle_def\<close>)
qed

interpretation parked_box: ticket_box rows_ok parked_at
  "\<lambda>(q :: int \<times> int) t (workflow, ty, args, owner) rows. suspend (fst q) (snd q) t workflow ty args owner rows"
  made_parked settle
proof (unfold_locales, goal_cases)
  case (1 rows q t x)
  then show ?case by (auto simp: suspend_def rows_ok_add split: prod.splits)
next
  case (2 rows p t out rows')
  from 2(2) show ?case by (cases rule: settle_cases) (use 2(1) rows_ok_filter in \<open>auto simp: delete_row_def\<close>)
next
  case (3 rows q t x t' a)
  obtain workflow ty args owner where x: "x = (workflow, ty, args, owner)" by (metis prod_cases4)
  have "rows_ok (suspend (fst q) (snd q) t workflow ty args owner rows)" using 3(1) by (simp add: suspend_def rows_ok_add)
  then show ?case using 3 parked_at_iff
    by (auto simp: x suspend_def add_row_def made_parked_def parked_data_def split: prod.splits if_splits)
next
  case (4 rows p t a rows')
  from 4(2) show ?case by (cases rule: settle_cases) (use 4(1) parked_at_delete in auto)
next
  case (5 rows p t out rows' t' a)
  from 5(2) show ?case by (cases rule: settle_cases) (use 5(1,3) parked_at_filter in \<open>auto simp: delete_row_def\<close>)
qed

section \<open>Two paths over one table\<close>

datatype table_event =
    Suspended int int ustr ustr ustr pydict "int option"
  | Settled int ustr bool "int option" approval
  | Fast db_write
  | Swept int

fun fast_token :: "table_event \<Rightarrow> ustr option" where
  "fast_token (Fast (InsertRow t ty args created)) = Some t"
| "fast_token _ = None"

fun suspended_by :: "table_event \<Rightarrow> (ustr \<times> parked_data) option" where
  "suspended_by (Suspended now ttl t workflow ty args owner) = Some (t, made_parked (now, ttl) (workflow, ty, args, owner))"
| "suspended_by _ = None"

definition fast_tokens :: "table_event list \<Rightarrow> ustr set" where
  "fast_tokens tr = {t. \<exists>e \<in> set tr. fast_token e = Some t}"

definition suspensions :: "table_event list \<Rightarrow> (ustr \<times> parked_data) set" where
  "suspensions tr = {d. \<exists>e \<in> set tr. suspended_by e = Some d}"

definition tokens_used :: "table_event list \<Rightarrow> ustr set" where
  "tokens_used tr = fst ` suspensions tr \<union> fast_tokens tr"

text \<open>Tokens are drawn fresh, for either path; the staged actions delete only tokens of their own.\<close>

inductive table_run :: "table_event list \<Rightarrow> parked list \<Rightarrow> bool" where
  start: "table_run [] []"
| suspend: "table_run tr rows \<Longrightarrow> t \<notin> tokens_used tr
    \<Longrightarrow> table_run (tr @ [Suspended now ttl t workflow ty args owner]) (suspend now ttl t workflow ty args owner rows)"
| settle: "table_run tr rows \<Longrightarrow> resolve now t approve requester rows = (out, rows')
    \<Longrightarrow> table_run (tr @ [Settled now t approve requester out]) rows'"
| put: "table_run tr rows \<Longrightarrow> t \<notin> tokens_used tr
    \<Longrightarrow> table_run (tr @ [Fast (InsertRow t ty args created)]) (exec_fast (InsertRow t ty args created) rows)"
| delete: "table_run tr rows \<Longrightarrow> set ts \<subseteq> fast_tokens tr
    \<Longrightarrow> table_run (tr @ [Fast (DeleteRows ts)]) (exec_fast (DeleteRows ts) rows)"
| sweep: "table_run tr rows \<Longrightarrow> table_run (tr @ [Swept now]) (snd (sweep_expired now rows))"

definition fast_writes :: "table_event list \<Rightarrow> db_write list" where
  "fast_writes tr = List.map_filter (\<lambda>e. case e of Fast w \<Rightarrow> Some w | _ \<Rightarrow> None) tr"

lemma fast_writes_snoc [simp]:
  "fast_writes (tr @ [Fast w]) = fast_writes tr @ [w]" "fast_writes (tr @ [Swept now]) = fast_writes tr"
  "fast_writes (tr @ [Suspended now ttl t workflow ty args owner]) = fast_writes tr"
  "fast_writes (tr @ [Settled now t approve requester out]) = fast_writes tr"
  by (simp_all add: fast_writes_def List.map_filter_def)

definition settles :: "ustr \<Rightarrow> table_event \<Rightarrow> bool" where
  "settles t e = (case e of Settled _ t' _ _ out \<Rightarrow> t' = t \<and> out \<noteq> NotOurs | _ \<Rightarrow> False)"

lemma settles_simps [simp]:
  "\<not> settles t (Suspended now ttl t' workflow ty args owner)" "\<not> settles t (Fast w)" "\<not> settles t (Swept now)"
  "settles t (Settled now t' approve requester out) \<longleftrightarrow> t' = t \<and> out \<noteq> NotOurs"
  by (auto simp: settles_def)

definition settled :: "table_event list \<Rightarrow> ustr set" where
  "settled tr = {t. \<exists>e \<in> set tr. settles t e}"

lemma trace_snoc:
  "suspensions (tr @ [e]) = suspensions tr \<union> set_option (suspended_by e)"
  "fast_tokens (tr @ [e]) = fast_tokens tr \<union> set_option (fast_token e)"
  "settled (tr @ [e]) = settled tr \<union> {t. settles t e}"
  unfolding suspensions_def settled_def fast_tokens_def by auto

lemma token_rows: "table_run tr rows \<Longrightarrow> r \<in> set rows \<Longrightarrow>
    pk_token r \<in> tokens_used tr \<and> (pk_token r \<in> fast_tokens tr \<longleftrightarrow> pk_workflow r = None)"
proof (induction arbitrary: r rule: table_run.induct)
  case (suspend tr rows t now ttl workflow ty args owner)
  show ?case
  proof (cases "r \<in> set rows")
    case True
    then have "pk_token r \<noteq> t" using suspend.IH suspend(2) by blast
    then show ?thesis using suspend.IH [OF True] by (auto simp: tokens_used_def trace_snoc)
  next
    case False
    then show ?thesis using suspend(2,4) by (auto simp: suspend_def add_row_def tokens_used_def trace_snoc split: if_splits)
  qed
next
  case (settle tr rows now t approve requester out rows')
  from settle(2) have "r \<in> set rows" using settle(4)
    by (cases rule: resolve_cases) (auto simp: delete_row_def)
  then show ?case using settle.IH [of r] by (auto simp: tokens_used_def trace_snoc)
next
  case (put tr rows t ty args created)
  show ?case
  proof (cases "r \<in> set rows")
    case True
    then have "pk_token r \<noteq> t" using put.IH put(2) by blast
    then show ?thesis using put.IH [OF True] by (auto simp: tokens_used_def trace_snoc)
  next
    case False
    then show ?thesis using put(4) by (auto simp: add_row_def tokens_used_def trace_snoc split: if_splits)
  qed
next
  case (delete tr rows ts)
  then show ?case using delete.IH [of r] by (auto simp: tokens_used_def trace_snoc)
next
  case (sweep tr rows now)
  then show ?case using sweep.IH [of r] by (auto simp: sweep_expired_def Let_def tokens_used_def trace_snoc)
qed simp

lemma fast_rows_delete:
  assumes "rows_ok rows" and "find (\<lambda>r. pk_token r = t) rows = Some r" and "pk_workflow r \<noteq> None"
  shows "fast_rows (delete_row t rows) = fast_rows rows"
proof -
  have r: "r \<in> set rows" "pk_token r = t" using find_token [OF assms(1), of t r] assms(2) by auto
  have "q = r" if "q \<in> set rows" "pk_token q = t" for q
    using that r assms(1) by (auto simp: rows_ok_def distinct_map inj_on_def)
  then have "filter (\<lambda>q. pk_workflow q = None) (delete_row t rows) = filter (\<lambda>q. pk_workflow q = None) rows"
    unfolding delete_row_def filter_filter using assms(3) by (intro filter_cong) auto
  then show ?thesis by (simp add: fast_rows_def)
qed

lemma resolve_fast:
  assumes "rows_ok rows" and "resolve now t approve requester rows = (out, rows')"
  shows "fast_rows rows' = fast_rows rows"
proof (cases "find (\<lambda>r. pk_token r = t) rows")
  case None
  then show ?thesis using assms(2) by (simp add: resolve_def)
next
  case (Some r)
  then show ?thesis using assms fast_rows_delete [OF assms(1) Some]
    by (auto simp: resolve_def split: option.splits if_splits)
qed

lemma table_accounted:
  "table_run tr rows \<Longrightarrow> parked_box.accounted rows (suspensions tr) (settled tr)
     \<and> (\<forall>t. length (filter (settles t) tr) \<le> 1) \<and> fast_rows rows = fold exec_write (fast_writes tr) []"
proof (induction rule: table_run.induct)
  case start
  have "parked_box.accounted [] {} {}"
    by (rule parked_box.accounted_start) (simp_all add: rows_ok_def parked_at_def parked_action_def)
  then show ?case by (simp add: suspensions_def settled_def fast_rows_def fast_writes_def List.map_filter_simps)
next
  case (suspend tr rows t now ttl workflow ty args owner)
  have "t \<notin> fst ` suspensions tr" using suspend(2) by (simp add: tokens_used_def)
  then have "parked_box.accounted (suspend now ttl t workflow ty args owner rows)
      (insert (t, made_parked (now, ttl) (workflow, ty, args, owner)) (suspensions tr)) (settled tr)"
    using parked_box.accounted_issue [of rows "suspensions tr" "settled tr" t "(now, ttl)" "(workflow, ty, args, owner)"]
      suspend.IH by simp
  then show ?case using suspend.IH by (auto simp: trace_snoc suspend_def add_row_def fast_rows_def)
next
  case (settle tr rows now t approve requester out rows')
  then have ok: "rows_ok rows" by (simp add: parked_box.accounted_def)
  have fast: "fast_rows rows' = fast_rows rows" by (rule resolve_fast [OF ok settle(2)])
  show ?case
  proof (cases "out = NotOurs")
    case True
    then have "settle (now, approve, requester) t rows = (None, rows')" using settle(2) by (simp add: settle_def)
    then show ?thesis using parked_box.accounted_refuse settle.IH True fast by (simp add: trace_snoc) blast
  next
    case False
    from settle(2) obtain d where "parked_at rows t = Some d"
      by (cases rule: resolve_cases) (use False in \<open>auto simp: parked_at_def parked_action_def\<close>)
    then have "settle (now, approve, requester) t rows = (Some d, rows')"
      using settle(2) False by (cases out) (simp_all add: settle_def)
    then have acc: "parked_box.accounted rows' (suspensions tr) (insert t (settled tr))" "t \<notin> settled tr"
      using parked_box.accounted_redeem(1,3) settle.IH by blast+
    have "filter (settles t) tr = []" using acc(2) by (auto simp: settled_def filter_empty_conv)
    then show ?thesis using settle.IH acc(1) False fast by (auto simp: trace_snoc)
  qed
next
  case (put tr rows t ty args created)
  have new: "\<not> list_ex (\<lambda>r. pk_token r = t) rows" using put(2) token_rows [OF put(1)] by (auto simp: list_ex_iff)
  then have rows': "exec_fast (InsertRow t ty args created) rows = rows @ [\<lparr>pk_token = t, pk_type = ty, pk_args = args,
      pk_created = created, pk_workflow = None, pk_deadline = None\<rparr>]" by (simp add: add_row_def)
  have ok: "rows_ok rows" using put.IH by (simp add: parked_box.accounted_def)
  then have ok': "rows_ok (exec_fast (InsertRow t ty args created) rows)" by (simp add: rows_ok_add)
  have "parked_box.accounted (exec_fast (InsertRow t ty args created) rows) (suspensions tr) (settled tr)"
    by (rule parked_box.accounted_shrink [OF conjunct1 [OF put.IH] ok'])
       (use parked_at_iff [OF ok] parked_at_iff [OF ok'] rows' in auto)
  then show ?case using put.IH unfolding rows' by (simp add: trace_snoc fast_rows_def)
next
  case (delete tr rows ts)
  then have ok: "rows_ok rows" by (simp add: parked_box.accounted_def)
  have "parked_box.accounted (exec_fast (DeleteRows ts) rows) (suspensions tr) (settled tr)"
    using parked_box.accounted_shrink [OF conjunct1 [OF delete.IH]] parked_at_filter [OF ok] rows_ok_filter [OF ok] by simp
  moreover have "fast_rows (exec_fast (DeleteRows ts) rows) = exec_write (DeleteRows ts) (fast_rows rows)"
    by (simp add: fast_rows_def filter_map comp_def conj_commute case_prod_beta)
  ultimately show ?case using delete.IH by (simp add: trace_snoc)
next
  case (sweep tr rows now)
  then have ok: "rows_ok rows" by (simp add: parked_box.accounted_def)
  have "parked_box.accounted (snd (sweep_expired now rows)) (suspensions tr) (settled tr)"
    using parked_box.accounted_shrink [OF conjunct1 [OF sweep.IH]] parked_at_filter [OF ok] rows_ok_filter [OF ok]
    by (simp add: sweep_expired_def Let_def)
  moreover have "fast_rows (snd (sweep_expired now rows)) = fast_rows rows"
    by (simp add: fast_rows_def sweep_expired_def Let_def conj_commute cong: conj_cong)
  ultimately show ?case using sweep.IH by (simp add: trace_snoc)
qed

text \<open>The other direction: the parked actions, and what their own operations alone would make.\<close>

definition slow_rows :: "parked list \<Rightarrow> parked list" where
  "slow_rows rows = filter (\<lambda>r. pk_workflow r \<noteq> None) rows"

fun exec_slow :: "table_event \<Rightarrow> parked list \<Rightarrow> parked list" where
  "exec_slow (Suspended now ttl t workflow ty args owner) rows = suspend now ttl t workflow ty args owner rows"
| "exec_slow (Settled now t approve requester out) rows = snd (resolve now t approve requester rows)"
| "exec_slow (Swept now) rows = snd (sweep_expired now rows)"
| "exec_slow (Fast w) rows = rows"

lemma slow_find:
  assumes "rows_ok rows"
  shows "find (\<lambda>r. pk_token r = t) (slow_rows rows) = parked_action rows t"
proof -
  have "find (\<lambda>r. pk_token r = t) (slow_rows rows) = Some r \<longleftrightarrow> parked_action rows t = Some r" for r
    using find_token [OF rows_ok_filter [OF assms]] parked_action_iff [OF assms] by (auto simp: slow_rows_def)
  then show ?thesis by (metis option.exhaust)
qed

lemma slow_resolve:
  assumes "rows_ok rows"
  shows "slow_rows (snd (resolve now t approve requester rows)) = snd (resolve now t approve requester (slow_rows rows))"
proof -
  have del: "slow_rows (delete_row t rows) = delete_row t (slow_rows rows)"
    by (simp add: slow_rows_def delete_row_def conj_commute)
  show ?thesis
  proof (cases "parked_action rows t")
    case None
    then have "resolve now t approve requester (slow_rows rows) = (NotOurs, slow_rows rows)"
      by (simp add: resolve_def slow_find [OF assms])
    moreover have "resolve now t approve requester rows = (NotOurs, rows)"
      using None by (auto simp: resolve_def parked_action_def split: option.splits if_splits)
    ultimately show ?thesis by simp
  next
    case (Some r)
    then have "find (\<lambda>r. pk_token r = t) rows = Some r" by (auto simp: parked_action_def split: option.splits if_splits)
    then show ?thesis using Some del
      by (auto simp: resolve_def slow_find [OF assms] split: option.split)
  qed
qed

lemma slow_rows_apart: "table_run tr rows \<Longrightarrow> slow_rows rows = fold exec_slow tr []"
proof (induction rule: table_run.induct)
  case (suspend tr rows t now ttl workflow ty args owner)
  have "\<not> list_ex (\<lambda>r. pk_token r = t) rows" using token_rows [OF suspend(1)] suspend(2) by (auto simp: list_ex_iff)
  then have "slow_rows (suspend now ttl t workflow ty args owner rows) = suspend now ttl t workflow ty args owner (slow_rows rows)"
    by (auto simp: suspend_def add_row_def slow_rows_def list_ex_iff)
  then show ?case using suspend.IH by simp
next
  case (settle tr rows now t approve requester out rows')
  have "rows_ok rows" using table_accounted [OF settle(1)] by (simp add: parked_box.accounted_def)
  then show ?case using slow_resolve [of rows now t approve requester] settle(2) settle.IH by simp
next
  case (delete tr rows ts)
  have "pk_token r \<notin> set ts" if "r \<in> set rows" "pk_workflow r \<noteq> None" for r
    using token_rows [OF delete(1) that(1)] that(2) delete(2) by auto
  then have "slow_rows (exec_fast (DeleteRows ts) rows) = slow_rows rows"
    by (auto simp: slow_rows_def intro!: filter_cong)
  then show ?case using delete.IH by simp
next
  case (sweep tr rows now)
  have "slow_rows (snd (sweep_expired now rows)) = snd (sweep_expired now (slow_rows rows))"
    by (simp add: slow_rows_def sweep_expired_def Let_def conj_commute)
  then show ?case using sweep.IH by simp
qed (simp_all add: slow_rows_def add_row_def)

inductive_cases settled_step: "table_run (xs @ [Settled now t approve requester out]) rows"

lemma table_run_prefix: "table_run tr rows \<Longrightarrow> tr = xs @ ys \<Longrightarrow> \<exists>rows'. table_run xs rows'"
proof (induction arbitrary: ys rule: table_run.induct)
  case start
  then show ?case using table_run.start by auto
qed (metis table_run.intros butlast_append butlast_snoc)+


definition demo_table :: "table_event list" where
  "demo_table = [Suspended 0 86400 [1] [9] [2] [] (Some 7), Fast (InsertRow [3] [2] [] 5),
     Settled 10 [1] True (Some 7) (Resume [2] [] [9] 0), Settled 11 [1] True (Some 7) NotOurs,
     Settled 12 [3] True None NotOurs]"

lemma demo_table_runs: "\<exists>rows. table_run demo_table rows"
proof -
  let ?r1 = "suspend 0 86400 [1] [9] [2] [] (Some 7) []"
  let ?r2 = "exec_fast (InsertRow [3] [2] [] 5) ?r1"
  have 1: "table_run ([] @ [Suspended 0 86400 [1] [9] [2] [] (Some 7)]) ?r1"
    by (rule table_run.suspend [OF table_run.start]) (simp add: tokens_used_def suspensions_def fast_tokens_def)
  have 2: "table_run (([] @ [Suspended 0 86400 [1] [9] [2] [] (Some 7)]) @ [Fast (InsertRow [3] [2] [] 5)]) ?r2"
    by (rule table_run.put [OF 1]) (simp add: tokens_used_def suspensions_def fast_tokens_def)
  have "resolve 10 [1] True (Some 7) ?r2 = (Resume [2] [] [9] 0, exec_fast (InsertRow [3] [2] [] 5) [])" by code_simp
  note 3 = table_run.settle [OF 2 this]
  have "resolve 11 [1] True (Some 7) (exec_fast (InsertRow [3] [2] [] 5) []) = (NotOurs, exec_fast (InsertRow [3] [2] [] 5) [])"
    by code_simp
  note 4 = table_run.settle [OF 3 this]
  have "resolve 12 [3] True None (exec_fast (InsertRow [3] [2] [] 5) []) = (NotOurs, exec_fast (InsertRow [3] [2] [] 5) [])"
    by code_simp
  from table_run.settle [OF 4 this] show ?thesis by (auto simp: demo_table_def)
qed


end
