(* ===== verification/Tools.thy ===== *)
theory Tools
  imports ComputerArgs Tickets
begin

text \<open>
  The tool registry (\<open>invincible/core/harness_tools.py\<close>) and the hand-over between agents
  (\<open>invincible/core/harness_router.py\<close>): the metadata every surface derives its tool lists from.
  Of the property schemas the names are kept; descriptions and the schemas themselves, which
  only model providers read, are not modelled, so a list of schemas is the list of its names.
\<close>

section \<open>The registry\<close>

record harness_tool =
  ht_name :: ustr
  ht_properties :: "ustr list"
  ht_required :: "ustr list"
  read_only :: bool
  needs_approval :: bool
  on_mcp :: bool
  on_webchat :: bool
  webchat_modes :: "ustr list"
  agent_job :: "ustr option"
  router_agents :: "ustr list"
  data_plane :: bool
  server_executable :: bool

text \<open>An entry with the defaults: one that says nothing needs approval.\<close>

definition new_tool :: "string \<Rightarrow> harness_tool" where
  "new_tool name = \<lparr>ht_name = lit name, ht_properties = [], ht_required = [], read_only = False,
     needs_approval = True, on_mcp = False, on_webchat = False, webchat_modes = [], agent_job = None,
     router_agents = [], data_plane = False, server_executable = True\<rparr>"

definition tool_read_file :: harness_tool where
  "tool_read_file = (new_tool ''read_file'')
     \<lparr>ht_properties := map lit [''path'', ''offset'', ''limit''],
       ht_required := map lit [''path''], read_only := True, needs_approval := False,
       on_mcp := True, on_webchat := True,
       webchat_modes := map lit [''plan'', ''manual'', ''auto''],
       agent_job := Some (lit ''read_file''),
       router_agents := map lit [''triage'', ''operator'']\<rparr>"

definition tool_execute_bash :: harness_tool where
  "tool_execute_bash = (new_tool ''execute_bash'')
     \<lparr>ht_properties := map lit [''command''], ht_required := map lit [''command''],
       on_mcp := True, on_webchat := True, webchat_modes := map lit [''manual'', ''auto''],
       agent_job := Some (lit ''execute_bash''), router_agents := map lit [''operator'']\<rparr>"

definition tool_write_file :: harness_tool where
  "tool_write_file = (new_tool ''write_file'')
     \<lparr>ht_properties := map lit [''path'', ''content''],
       ht_required := map lit [''path'', ''content''], on_mcp := True, on_webchat := True,
       webchat_modes := map lit [''manual'', ''auto''],
       agent_job := Some (lit ''write_file''), router_agents := map lit [''operator'']\<rparr>"

definition tool_edit_file :: harness_tool where
  "tool_edit_file = (new_tool ''edit_file'')
     \<lparr>ht_properties := map lit [''path'', ''old_string'', ''new_string'', ''replace_all''],
       ht_required := map lit [''path'', ''old_string'', ''new_string''], on_mcp := True,
       on_webchat := True, webchat_modes := map lit [''manual'', ''auto''],
       agent_job := Some (lit ''edit_file''), router_agents := map lit [''operator'']\<rparr>"

definition tool_code_search :: harness_tool where
  "tool_code_search = (new_tool ''code_search'')
     \<lparr>ht_properties := map lit [''pattern'', ''path'', ''max_results''],
       ht_required := map lit [''pattern'', ''path''], read_only := True,
       needs_approval := False, on_mcp := True, on_webchat := True,
       webchat_modes := map lit [''plan'', ''manual'', ''auto''],
       agent_job := Some (lit ''code_search'')\<rparr>"

definition tool_list_dir :: harness_tool where
  "tool_list_dir = (new_tool ''list_dir'')
     \<lparr>ht_properties := map lit [''path'', ''limit'', ''show_hidden''],
       ht_required := map lit [''path''], read_only := True, needs_approval := False,
       on_mcp := True, on_webchat := True,
       webchat_modes := map lit [''plan'', ''manual'', ''auto''],
       agent_job := Some (lit ''list_dir'')\<rparr>"

definition tool_find_files :: harness_tool where
  "tool_find_files = (new_tool ''find_files'')
     \<lparr>ht_properties := map lit [''pattern'', ''path'', ''max_results'', ''show_hidden''],
       ht_required := map lit [''pattern'', ''path''], read_only := True,
       needs_approval := False, on_mcp := True, on_webchat := True,
       webchat_modes := map lit [''plan'', ''manual'', ''auto''],
       agent_job := Some (lit ''find_files'')\<rparr>"

definition tool_git_status :: harness_tool where
  "tool_git_status = (new_tool ''git_status'')
     \<lparr>ht_properties := map lit [''path''], ht_required := map lit [''path''],
       read_only := True, needs_approval := False, on_mcp := True, on_webchat := True,
       webchat_modes := map lit [''plan'', ''manual'', ''auto''],
       agent_job := Some (lit ''git_status'')\<rparr>"

definition tool_git_diff :: harness_tool where
  "tool_git_diff = (new_tool ''git_diff'')
     \<lparr>ht_properties := map lit [''path''], ht_required := map lit [''path''],
       read_only := True, needs_approval := False, on_mcp := True, on_webchat := True,
       webchat_modes := map lit [''plan'', ''manual'', ''auto''],
       agent_job := Some (lit ''git_diff'')\<rparr>"

definition tool_git_log :: harness_tool where
  "tool_git_log = (new_tool ''git_log'')
     \<lparr>ht_properties := map lit [''path'', ''limit''], ht_required := map lit [''path''],
       read_only := True, needs_approval := False, on_mcp := True, on_webchat := True,
       webchat_modes := map lit [''plan'', ''manual'', ''auto''],
       agent_job := Some (lit ''git_log'')\<rparr>"

definition tool_process_list :: harness_tool where
  "tool_process_list = (new_tool ''process_list'')
     \<lparr>ht_properties := map lit [''limit''], read_only := True, needs_approval := False,
       on_mcp := True, on_webchat := True,
       webchat_modes := map lit [''plan'', ''manual'', ''auto''],
       agent_job := Some (lit ''process_list'')\<rparr>"

definition tool_screenshot :: harness_tool where
  "tool_screenshot = (new_tool ''screenshot'')
     \<lparr>ht_properties := map lit [''url''], ht_required := map lit [''url''],
       read_only := True, needs_approval := False, on_mcp := True, on_webchat := True,
       webchat_modes := map lit [''plan'', ''manual'', ''auto''],
       agent_job := Some (lit ''screenshot''), server_executable := False\<rparr>"

definition tool_web_fetch :: harness_tool where
  "tool_web_fetch = (new_tool ''web_fetch'')
     \<lparr>ht_properties := map lit [''url''], ht_required := map lit [''url''],
       read_only := True, needs_approval := False, on_mcp := True, on_webchat := True,
       webchat_modes := map lit [''plan'', ''manual'', ''auto''],
       agent_job := Some (lit ''web_fetch''), server_executable := False\<rparr>"

definition tool_web_research :: harness_tool where
  "tool_web_research = (new_tool ''web_research'')
     \<lparr>ht_properties := map lit [''question'', ''context''],
       ht_required := map lit [''question''], read_only := True, needs_approval := False,
       on_mcp := True, on_webchat := True,
       webchat_modes := map lit [''plan'', ''manual'', ''auto'']\<rparr>"

definition tool_look_at_screen :: harness_tool where
  "tool_look_at_screen = (new_tool ''look_at_screen'')
     \<lparr>ht_properties := map lit [''window'', ''wait_kind'', ''wait_label'', ''timeout_ms''],
       read_only := True, needs_approval := False, on_mcp := True, on_webchat := True,
       webchat_modes := map lit [''plan'', ''manual'', ''auto''],
       agent_job := Some (lit ''look_at_screen''), server_executable := False\<rparr>"

definition tool_click :: harness_tool where
  "tool_click = (new_tool ''click'')
     \<lparr>ht_properties := map lit [''x'', ''y'', ''control'', ''button'', ''double''],
       on_mcp := True, on_webchat := True, webchat_modes := map lit [''manual'', ''auto''],
       agent_job := Some (lit ''click''), server_executable := False\<rparr>"

definition tool_type_text :: harness_tool where
  "tool_type_text = (new_tool ''type_text'')
     \<lparr>ht_properties := map lit [''text'', ''control'', ''x'', ''y'', ''submit''],
       ht_required := map lit [''text''], on_mcp := True, on_webchat := True,
       webchat_modes := map lit [''manual'', ''auto''], agent_job := Some (lit ''type_text''),
       server_executable := False\<rparr>"

definition tool_press_keys :: harness_tool where
  "tool_press_keys = (new_tool ''press_keys'')
     \<lparr>ht_properties := map lit [''keys'', ''control'', ''x'', ''y''],
       ht_required := map lit [''keys''], on_mcp := True, on_webchat := True,
       webchat_modes := map lit [''manual'', ''auto''],
       agent_job := Some (lit ''press_keys''), server_executable := False\<rparr>"

definition tool_scroll :: harness_tool where
  "tool_scroll = (new_tool ''scroll'')
     \<lparr>ht_properties := map lit [''direction'', ''amount'', ''x'', ''y'', ''control''],
       ht_required := map lit [''direction''], on_mcp := True, on_webchat := True,
       webchat_modes := map lit [''manual'', ''auto''], agent_job := Some (lit ''scroll''),
       server_executable := False\<rparr>"

definition tool_drag :: harness_tool where
  "tool_drag = (new_tool ''drag'')
     \<lparr>
       ht_properties := map lit [''x1'', ''y1'', ''x2'', ''y2'', ''control_from'', ''control_to''],
       on_mcp := True, on_webchat := True, webchat_modes := map lit [''manual'', ''auto''],
       agent_job := Some (lit ''drag''), server_executable := False\<rparr>"

definition tool_open_app :: harness_tool where
  "tool_open_app = (new_tool ''open_app'')
     \<lparr>
       ht_properties := map lit [''name'', ''args'', ''window'', ''wait_kind'', ''wait_label'', ''timeout_ms''],
       ht_required := map lit [''name''], on_mcp := True, on_webchat := True,
       webchat_modes := map lit [''manual'', ''auto''], agent_job := Some (lit ''open_app''),
       server_executable := False\<rparr>"

definition tool_open_url :: harness_tool where
  "tool_open_url = (new_tool ''open_url'')
     \<lparr>ht_properties := map lit [''url''], ht_required := map lit [''url''], on_mcp := True,
       on_webchat := True, webchat_modes := map lit [''manual'', ''auto''],
       agent_job := Some (lit ''open_url''), server_executable := False\<rparr>"

definition tool_confirm_action :: harness_tool where
  "tool_confirm_action = (new_tool ''confirm_action'')
     \<lparr>ht_properties := map lit [''token'', ''approve''],
       ht_required := map lit [''token'', ''approve''], needs_approval := False,
       on_mcp := True\<rparr>"

definition tool_expose_port :: harness_tool where
  "tool_expose_port = (new_tool ''expose_port'')
     \<lparr>ht_properties := map lit [''port''], ht_required := map lit [''port''], on_mcp := True,
       server_executable := False\<rparr>"

definition tool_tunnel_close :: harness_tool where
  "tool_tunnel_close = (new_tool ''tunnel_close'')
     \<lparr>ht_properties := map lit [''token''], ht_required := map lit [''token''],
       needs_approval := False, on_mcp := True\<rparr>"

definition tool_task_state_set :: harness_tool where
  "tool_task_state_set = (new_tool ''task_state_set'')
     \<lparr>
       ht_properties := map lit [''payload'', ''task_key'', ''status'', ''expected_version'', ''session_id''],
       ht_required := map lit [''payload''], needs_approval := False, on_mcp := True,
       on_webchat := True, webchat_modes := map lit [''manual'', ''auto''],
       router_agents := map lit [''operator''], data_plane := True\<rparr>"

definition tool_task_state_get :: harness_tool where
  "tool_task_state_get = (new_tool ''task_state_get'')
     \<lparr>ht_properties := map lit [''task_key'', ''session_id''], read_only := True,
       needs_approval := False, on_mcp := True, on_webchat := True,
       webchat_modes := map lit [''plan'', ''manual'', ''auto''],
       router_agents := map lit [''triage'', ''operator''], data_plane := True\<rparr>"

definition tool_checkpoint_create :: harness_tool where
  "tool_checkpoint_create = (new_tool ''checkpoint_create'')
     \<lparr>ht_properties := map lit [''note'', ''task_key'', ''session_id''],
       needs_approval := False, on_mcp := True, on_webchat := True,
       webchat_modes := map lit [''manual'', ''auto''],
       router_agents := map lit [''operator''], data_plane := True\<rparr>"

definition tool_todo :: harness_tool where
  "tool_todo = (new_tool ''todo'')
     \<lparr>ht_properties := map lit [''action'', ''text'', ''id'', ''session_id''],
       ht_required := map lit [''action''], needs_approval := False, on_mcp := True,
       on_webchat := True, webchat_modes := map lit [''plan'', ''manual'', ''auto''],
       router_agents := map lit [''triage'', ''operator''], data_plane := True\<rparr>"

definition tool_memory_save :: harness_tool where
  "tool_memory_save = (new_tool ''memory_save'')
     \<lparr>ht_properties := map lit [''content'', ''kind'', ''project''],
       ht_required := map lit [''content''], needs_approval := False, on_mcp := True,
       on_webchat := True, webchat_modes := map lit [''manual'', ''auto''],
       data_plane := True\<rparr>"

definition tool_memory_search :: harness_tool where
  "tool_memory_search = (new_tool ''memory_search'')
     \<lparr>ht_properties := map lit [''query'', ''project'', ''limit''],
       ht_required := map lit [''query''], read_only := True, needs_approval := False,
       on_mcp := True, on_webchat := True,
       webchat_modes := map lit [''plan'', ''manual'', ''auto''],
       router_agents := map lit [''triage''], data_plane := True\<rparr>"

definition tool_memory_list :: harness_tool where
  "tool_memory_list = (new_tool ''memory_list'')
     \<lparr>ht_properties := map lit [''limit'', ''kind'', ''project''], read_only := True,
       needs_approval := False, on_mcp := True, on_webchat := True,
       webchat_modes := map lit [''plan'', ''manual'', ''auto''],
       router_agents := map lit [''triage''], data_plane := True\<rparr>"

definition tool_project_create :: harness_tool where
  "tool_project_create = (new_tool ''project_create'')
     \<lparr>ht_properties := map lit [''name''], ht_required := map lit [''name''],
       needs_approval := False, on_mcp := True, on_webchat := True,
       webchat_modes := map lit [''manual'', ''auto''], data_plane := True\<rparr>"

definition tool_project_list :: harness_tool where
  "tool_project_list = (new_tool ''project_list'')
     \<lparr>ht_properties := map lit [''include_archived''], read_only := True,
       needs_approval := False, on_mcp := True, on_webchat := True,
       webchat_modes := map lit [''plan'', ''manual'', ''auto''], data_plane := True\<rparr>"

definition tool_handoff :: harness_tool where
  "tool_handoff = (new_tool ''handoff'')
     \<lparr>needs_approval := False, router_agents := map lit [''triage'']\<rparr>"

definition TOOLS :: "harness_tool list" where
  "TOOLS = [
     tool_read_file, tool_execute_bash, tool_write_file, tool_edit_file, tool_code_search, tool_list_dir,
     tool_find_files, tool_git_status, tool_git_diff, tool_git_log, tool_process_list, tool_screenshot,
     tool_web_fetch, tool_web_research, tool_look_at_screen, tool_click, tool_type_text, tool_press_keys,
     tool_scroll, tool_drag, tool_open_app, tool_open_url, tool_confirm_action, tool_expose_port,
     tool_tunnel_close, tool_task_state_set, tool_task_state_get, tool_checkpoint_create, tool_todo, tool_memory_save,
     tool_memory_search, tool_memory_list, tool_project_create, tool_project_list, tool_handoff]"

definition WEBCHAT_ORDER :: "ustr list" where
  "WEBCHAT_ORDER = map lit [
     ''read_file'', ''list_dir'', ''find_files'', ''code_search'', ''git_status'', ''git_diff'',
     ''git_log'', ''process_list'', ''execute_bash'', ''write_file'', ''edit_file'', ''screenshot'',
     ''web_fetch'', ''web_research'', ''look_at_screen'', ''click'', ''type_text'', ''press_keys'',
     ''scroll'', ''drag'', ''open_app'', ''open_url'', ''memory_save'', ''memory_search'',
     ''memory_list'', ''project_create'', ''project_list'', ''task_state_set'', ''task_state_get'', ''checkpoint_create'',
     ''todo'']"

definition get_tool :: "ustr \<Rightarrow> harness_tool option" where
  "get_tool name = find (\<lambda>t. ht_name t = name) TOOLS"

definition webchat_entries :: "harness_tool list" where
  "webchat_entries = List.map_filter get_tool WEBCHAT_ORDER"

definition names_where :: "(harness_tool \<Rightarrow> bool) \<Rightarrow> ustr list" where
  "names_where P = map ht_name (filter P webchat_entries)"

definition read_only_names :: "ustr list" where
  "read_only_names = names_where (\<lambda>t. read_only t \<and> \<not> data_plane t \<and> server_executable t)"

definition approval_required_names :: "ustr list" where
  "approval_required_names = names_where needs_approval"

definition data_read_names :: "ustr list" where
  "data_read_names = names_where (\<lambda>t. data_plane t \<and> read_only t)"

definition data_write_names :: "ustr list" where
  "data_write_names = names_where (\<lambda>t. data_plane t \<and> \<not> read_only t)"

definition agent_only_names :: "ustr list" where
  "agent_only_names = names_where (\<lambda>t. \<not> server_executable t)"

definition webchat_names_for_mode :: "ustr \<Rightarrow> ustr list" where
  "webchat_names_for_mode mode = names_where (\<lambda>t. mode \<in> set (webchat_modes t))"

definition explore_names :: "ustr list" where
  "explore_names = filter (\<lambda>n. n \<noteq> lit ''web_research'') read_only_names"

definition router_tools :: "ustr \<Rightarrow> ustr list" where
  "router_tools agent = map ht_name (filter (\<lambda>t. agent \<in> set (router_agents t)) TOOLS)"

definition mcp_tool_names :: "ustr list" where
  "mcp_tool_names = map ht_name (filter on_mcp TOOLS)"

definition agent_job_names :: "ustr list" where
  "agent_job_names = map ht_name (filter (\<lambda>t. case agent_job t of None \<Rightarrow> False | Some j \<Rightarrow> j \<noteq> []) TOOLS)"

definition docs_data_plane_names :: "ustr list" where
  "docs_data_plane_names = map ht_name (filter data_plane TOOLS)"

definition expected_args_hint :: "ustr \<Rightarrow> ustr" where
  "expected_args_hint name = (case get_tool name of
       None \<Rightarrow> []
     | Some t \<Rightarrow> lit '' Expected arguments for '' @ ht_name t @ lit '': {''
         @ (if ht_properties t = [] then lit ''(no arguments)'' else join (lit '', '') (ht_properties t))
         @ lit ''}; required: ''
         @ (if ht_required t = [] then lit ''none'' else join (lit '', '') (ht_required t)) @ lit ''.'')"

text \<open>The key of a call in the guards against repetition.\<close>

definition call_key :: "ustr \<Rightarrow> json \<Rightarrow> ustr" where
  "call_key name args = name @ lit '':'' @ dumps False (sort_keys args)"

section \<open>The derived lists\<close>

lemmas tool_defs = new_tool_def tool_read_file_def tool_execute_bash_def tool_write_file_def tool_edit_file_def tool_code_search_def
  tool_list_dir_def tool_find_files_def tool_git_status_def tool_git_diff_def tool_git_log_def
  tool_process_list_def tool_screenshot_def tool_web_fetch_def tool_web_research_def tool_look_at_screen_def
  tool_click_def tool_type_text_def tool_press_keys_def tool_scroll_def tool_drag_def
  tool_open_app_def tool_open_url_def tool_confirm_action_def tool_expose_port_def tool_tunnel_close_def
  tool_task_state_set_def tool_task_state_get_def tool_checkpoint_create_def tool_todo_def tool_memory_save_def
  tool_memory_search_def tool_memory_list_def tool_project_create_def tool_project_list_def tool_handoff_def

lemma tool_names: "map ht_name TOOLS = map lit [''read_file'', ''execute_bash'', ''write_file'', ''edit_file'', ''code_search'', ''list_dir'',
    ''find_files'', ''git_status'', ''git_diff'', ''git_log'', ''process_list'', ''screenshot'',
    ''web_fetch'', ''web_research'', ''look_at_screen'', ''click'', ''type_text'', ''press_keys'',
    ''scroll'', ''drag'', ''open_app'', ''open_url'', ''confirm_action'', ''expose_port'',
    ''tunnel_close'', ''task_state_set'', ''task_state_get'', ''checkpoint_create'', ''todo'', ''memory_save'',
    ''memory_search'', ''memory_list'', ''project_create'', ''project_list'', ''handoff'']"
  by (simp add: TOOLS_def tool_defs)

lemma map_filter_all: "map f xs = map Some ys \<Longrightarrow> List.map_filter f xs = ys"
  by (induction xs arbitrary: ys) (auto simp: List.map_filter_def)

lemma tool_ht_name:
  "ht_name tool_read_file = lit ''read_file''"
  "ht_name tool_execute_bash = lit ''execute_bash''"
  "ht_name tool_write_file = lit ''write_file''"
  "ht_name tool_edit_file = lit ''edit_file''"
  "ht_name tool_code_search = lit ''code_search''"
  "ht_name tool_list_dir = lit ''list_dir''"
  "ht_name tool_find_files = lit ''find_files''"
  "ht_name tool_git_status = lit ''git_status''"
  "ht_name tool_git_diff = lit ''git_diff''"
  "ht_name tool_git_log = lit ''git_log''"
  "ht_name tool_process_list = lit ''process_list''"
  "ht_name tool_screenshot = lit ''screenshot''"
  "ht_name tool_web_fetch = lit ''web_fetch''"
  "ht_name tool_web_research = lit ''web_research''"
  "ht_name tool_look_at_screen = lit ''look_at_screen''"
  "ht_name tool_click = lit ''click''"
  "ht_name tool_type_text = lit ''type_text''"
  "ht_name tool_press_keys = lit ''press_keys''"
  "ht_name tool_scroll = lit ''scroll''"
  "ht_name tool_drag = lit ''drag''"
  "ht_name tool_open_app = lit ''open_app''"
  "ht_name tool_open_url = lit ''open_url''"
  "ht_name tool_confirm_action = lit ''confirm_action''"
  "ht_name tool_expose_port = lit ''expose_port''"
  "ht_name tool_tunnel_close = lit ''tunnel_close''"
  "ht_name tool_task_state_set = lit ''task_state_set''"
  "ht_name tool_task_state_get = lit ''task_state_get''"
  "ht_name tool_checkpoint_create = lit ''checkpoint_create''"
  "ht_name tool_todo = lit ''todo''"
  "ht_name tool_memory_save = lit ''memory_save''"
  "ht_name tool_memory_search = lit ''memory_search''"
  "ht_name tool_memory_list = lit ''memory_list''"
  "ht_name tool_project_create = lit ''project_create''"
  "ht_name tool_project_list = lit ''project_list''"
  "ht_name tool_handoff = lit ''handoff''"
  by (simp_all add: tool_defs)

lemma get_tool_iff: "get_tool a = Some t \<longleftrightarrow> t \<in> set TOOLS \<and> ht_name t = a"
proof -
  have "inj_on lit A" for A by (simp add: inj_on_def)
  moreover have "distinct [''read_file'', ''execute_bash'', ''write_file'', ''edit_file'', ''code_search'', ''list_dir'',
    ''find_files'', ''git_status'', ''git_diff'', ''git_log'', ''process_list'', ''screenshot'',
    ''web_fetch'', ''web_research'', ''look_at_screen'', ''click'', ''type_text'', ''press_keys'',
    ''scroll'', ''drag'', ''open_app'', ''open_url'', ''confirm_action'', ''expose_port'',
    ''tunnel_close'', ''task_state_set'', ''task_state_get'', ''checkpoint_create'', ''todo'', ''memory_save'',
    ''memory_search'', ''memory_list'', ''project_create'', ''project_list'', ''handoff'']"
    by code_simp
  ultimately have "distinct (map ht_name TOOLS)" unfolding tool_names distinct_map by blast
  then show ?thesis unfolding get_tool_def by (rule find_key_iff)
qed

lemma webchat_tools: "map get_tool WEBCHAT_ORDER = map Some [tool_read_file, tool_list_dir, tool_find_files, tool_code_search, tool_git_status, tool_git_diff,
    tool_git_log, tool_process_list, tool_execute_bash, tool_write_file, tool_edit_file, tool_screenshot,
    tool_web_fetch, tool_web_research, tool_look_at_screen, tool_click, tool_type_text, tool_press_keys,
    tool_scroll, tool_drag, tool_open_app, tool_open_url, tool_memory_save, tool_memory_search,
    tool_memory_list, tool_project_create, tool_project_list, tool_task_state_set, tool_task_state_get, tool_checkpoint_create,
    tool_todo]"
  unfolding WEBCHAT_ORDER_def list.map by (intro arg_cong2 [of _ _ _ _ Cons] refl)
    (simp_all only: get_tool_iff tool_ht_name TOOLS_def set_simps insert_iff simp_thms)

lemma webchat_entries_eq: "webchat_entries = [tool_read_file, tool_list_dir, tool_find_files, tool_code_search, tool_git_status, tool_git_diff,
    tool_git_log, tool_process_list, tool_execute_bash, tool_write_file, tool_edit_file, tool_screenshot,
    tool_web_fetch, tool_web_research, tool_look_at_screen, tool_click, tool_type_text, tool_press_keys,
    tool_scroll, tool_drag, tool_open_app, tool_open_url, tool_memory_save, tool_memory_search,
    tool_memory_list, tool_project_create, tool_project_list, tool_task_state_set, tool_task_state_get, tool_checkpoint_create,
    tool_todo]"
  unfolding webchat_entries_def using webchat_tools by (simp only: map_filter_all)

lemma read_only_names_eq: "read_only_names = map lit [''read_file'', ''list_dir'', ''find_files'', ''code_search'',
    ''git_status'', ''git_diff'', ''git_log'', ''process_list'', ''web_research'']"
  by (simp add: read_only_names_def approval_required_names_def data_read_names_def data_write_names_def
      agent_only_names_def explore_names_def names_where_def webchat_entries_eq tool_defs)

lemma approval_required_names_eq: "approval_required_names = map lit [''execute_bash'', ''write_file'', ''edit_file'',
    ''click'', ''type_text'', ''press_keys'', ''scroll'', ''drag'', ''open_app'', ''open_url'']"
  by (simp add: read_only_names_def approval_required_names_def data_read_names_def data_write_names_def
      agent_only_names_def explore_names_def names_where_def webchat_entries_eq tool_defs)

lemma data_read_names_eq: "data_read_names = map lit [''memory_search'', ''memory_list'', ''project_list'', ''task_state_get'']"
  by (simp add: read_only_names_def approval_required_names_def data_read_names_def data_write_names_def
      agent_only_names_def explore_names_def names_where_def webchat_entries_eq tool_defs)

lemma data_write_names_eq: "data_write_names = map lit [''memory_save'', ''project_create'', ''task_state_set'',
    ''checkpoint_create'', ''todo'']"
  by (simp add: read_only_names_def approval_required_names_def data_read_names_def data_write_names_def
      agent_only_names_def explore_names_def names_where_def webchat_entries_eq tool_defs)

lemma agent_only_names_eq: "agent_only_names = map lit [''screenshot'', ''web_fetch'', ''look_at_screen'', ''click'',
    ''type_text'', ''press_keys'', ''scroll'', ''drag'', ''open_app'', ''open_url'']"
  by (simp add: read_only_names_def approval_required_names_def data_read_names_def data_write_names_def
      agent_only_names_def explore_names_def names_where_def webchat_entries_eq tool_defs)

lemma explore_names_eq: "explore_names = map lit [''read_file'', ''list_dir'', ''find_files'', ''code_search'',
    ''git_status'', ''git_diff'', ''git_log'', ''process_list'']"
  by (simp add: read_only_names_def approval_required_names_def data_read_names_def data_write_names_def
      agent_only_names_def explore_names_def names_where_def webchat_entries_eq tool_defs)

lemma plan_names_eq: "webchat_names_for_mode (lit ''plan'') = map lit [''read_file'', ''list_dir'', ''find_files'', ''code_search'',
    ''git_status'', ''git_diff'', ''git_log'', ''process_list'', ''screenshot'', ''web_fetch'', ''web_research'', ''look_at_screen'',
    ''memory_search'', ''memory_list'', ''project_list'', ''task_state_get'', ''todo'']"
  by (simp add: webchat_names_for_mode_def names_where_def webchat_entries_eq tool_defs)

lemmas name_lists = read_only_names_eq approval_required_names_eq data_read_names_eq data_write_names_eq
  agent_only_names_eq explore_names_eq

section \<open>Agents and hand-over\<close>

record agent =
  ag_name :: ustr
  ag_tools :: "ustr list"

definition allows :: "agent \<Rightarrow> ustr \<Rightarrow> bool" where
  "allows a tool \<longleftrightarrow> tool \<in> set (ag_tools a)"

definition TRIAGE_AGENT :: agent where
  "TRIAGE_AGENT = \<lparr>ag_name = lit ''triage'', ag_tools = router_tools (lit ''triage'')\<rparr>"

definition OPERATOR_AGENT :: agent where
  "OPERATOR_AGENT = \<lparr>ag_name = lit ''operator'', ag_tools = router_tools (lit ''operator'')\<rparr>"

definition AGENTS :: "(ustr \<times> agent) list" where
  "AGENTS = map (\<lambda>a. (ag_name a, a)) [TRIAGE_AGENT, OPERATOR_AGENT]"

definition HANDOFF_TOOL :: ustr where "HANDOFF_TOOL = lit ''handoff''"

text \<open>\<open>resolve\<close>: \<open>None\<close> is \<open>UnknownAgent\<close>.\<close>

definition resolve_agent :: "(ustr \<times> agent) list \<Rightarrow> ustr \<Rightarrow> agent option" where
  "resolve_agent agents name = map_of agents name"

text \<open>The answer of the intercepted hand-over, and the event on the bus.\<close>

datatype handoff_result = TookOver ustr | NoSuchAgent ustr

datatype handoff_event = Handoff ustr ustr "ustr option"

definition handle_tool_call ::
  "(json \<Rightarrow> ustr) \<Rightarrow> (ustr \<times> agent) list \<Rightarrow> agent \<Rightarrow> ustr \<Rightarrow> pydict
     \<Rightarrow> agent \<times> handoff_result option \<times> handoff_event list" where
  "handle_tool_call repr agents current tool_name args =
     (if tool_name \<noteq> HANDOFF_TOOL then (current, None, [])
      else let to = py_str repr (dget_or args (lit ''to'') (JStr []));
               reason = py_str repr (dget_or args (lit ''reason'') (JStr []))
           in (case resolve_agent agents to of
                 None \<Rightarrow> (current, Some (NoSuchAgent to), [Handoff (ag_name current) to None])
               | Some a \<Rightarrow> (a, Some (TookOver to), [Handoff (ag_name current) to (Some reason)])))"

end
