(* ===== verification/Tunnel.thy ===== *)
theory Tunnel
  imports Vision Settings
begin

text \<open>
  The tunnels to a port of the user's machine (\<open>invincible/core/harness_tunnel.py\<close>): the port and
  host policy, the frames that carry bytes over the machine's socket, and \<open>TunnelRegistry\<close> with its
  caps. Times are milliseconds. Queues are objects that a consumer keeps a reference to after
  its stream is dropped, so they live in a store of their own. \<open>spend\<close> is cut where it sleeps;
  the ack futures are three-valued. \<open>asyncio.Lock\<close> around a send is not modelled: a send is one step.
\<close>

section \<open>Policy\<close>

definition TUNNEL_DENIED_PORTS :: "int list" where
  "TUNNEL_DENIED_PORTS = [22, 3389, 5432, 5433, 3306, 1433, 6379, 27017, 25, 587]"

definition LOOPBACK_HOSTS :: "ustr list" where
  "LOOPBACK_HOSTS = map lit [''127.0.0.1'', ''::1'']"

text \<open>\<open>whole\<close> gives the integer a float text stands for, if it is one. \<open>None\<close> is \<open>ToolBlocked\<close>.\<close>

fun port_number :: "(ustr \<Rightarrow> int option) \<Rightarrow> json \<Rightarrow> int option" where
  "port_number whole (JInt i) = Some i"
| "port_number whole (JFloat r) = whole r"
| "port_number whole (JStr s) =
     (if strip s \<noteq> [] \<and> list_all (\<lambda>c. 48 \<le> c \<and> c \<le> 57) (strip s) then parse_int (strip s) else None)"
| "port_number whole _ = None"

definition check_tunnel_port :: "(ustr \<Rightarrow> int option) \<Rightarrow> json \<Rightarrow> int option" where
  "check_tunnel_port whole port = (case port_number whole port of
       None \<Rightarrow> None
     | Some n \<Rightarrow> if \<not> (1 \<le> n \<and> n \<le> 65535) \<or> n \<in> set TUNNEL_DENIED_PORTS then None else Some n)"

definition check_tunnel_host :: "ustr \<Rightarrow> ustr option" where
  "check_tunnel_host host = (if strip host \<in> set LOOPBACK_HOSTS then Some (strip host) else None)"

section \<open>Frames\<close>

definition MAX_FRAME_BYTES :: nat where "MAX_FRAME_BYTES = 16 * 1024"
definition MAX_HEAD_BYTES :: nat where "MAX_HEAD_BYTES = 32 * 1024"

definition TUNNEL_FRAME_TYPES :: "ustr list" where
  "TUNNEL_FRAME_TYPES = map lit [''tunnel_open'', ''tunnel_open_ack'', ''tunnel_request_head'',
     ''tunnel_response_head'', ''tunnel_data'', ''tunnel_half_close'', ''tunnel_close'', ''tunnel_window'']"

definition is_tunnel_frame :: "json \<Rightarrow> bool" where
  "is_tunnel_frame message = (case message of
       JObj d \<Rightarrow> (case dget d (lit ''type'') of JStr t \<Rightarrow> t \<in> set TUNNEL_FRAME_TYPES | _ \<Rightarrow> False)
         \<and> \<not> dhas d (lit ''job_id'') \<and> \<not> dhas d (lit ''result'')
     | _ \<Rightarrow> False)"

text \<open>\<open>base64.b64encode\<close>.\<close>

definition b64_char :: "int \<Rightarrow> int" where
  "b64_char v = (if v < 26 then v + 65 else if v < 52 then v + 71 else if v < 62 then v - 4
     else if v = 62 then 43 else 47)"

fun b64encode :: "int list \<Rightarrow> ustr" where
  "b64encode [] = []"
| "b64encode [a] = [b64_char (a div 4), b64_char (16 * (a mod 4)), 61, 61]"
| "b64encode [a, b] = [b64_char (a div 4), b64_char (16 * (a mod 4) + b div 16), b64_char (4 * (b mod 16)), 61]"
| "b64encode (a # b # c # rest) =
     b64_char (a div 4) # b64_char (16 * (a mod 4) + b div 16) # b64_char (4 * (b mod 16) + c div 64)
     # b64_char (c mod 64) # b64encode rest"

definition encode_data_frame :: "ustr \<Rightarrow> ustr \<Rightarrow> int \<Rightarrow> int list \<Rightarrow> pydict option" where
  "encode_data_frame tunnel_id stream_id seq raw =
     (if MAX_FRAME_BYTES < length raw then None
      else Some [(lit ''type'', JStr (lit ''tunnel_data'')), (lit ''tunnel_id'', JStr tunnel_id),
        (lit ''stream_id'', JStr stream_id), (lit ''seq'', JInt seq),
        (lit ''payload_b64'', JStr (b64encode raw))])"

definition decode_data_frame :: "json \<Rightarrow> int list option" where
  "decode_data_frame frame = (case frame of
       JObj d \<Rightarrow>
         if dget d (lit ''type'') \<noteq> JStr (lit ''tunnel_data'') then None
         else if dhas d (lit ''job_id'') \<or> dhas d (lit ''result'') then None
         else if \<not> list_all (\<lambda>k. dhas d (lit k)) [''tunnel_id'', ''stream_id'', ''seq'', ''payload_b64''] then None
         else (case dget d (lit ''payload_b64'') of
             JStr s \<Rightarrow> (case b64decode s of
                 Some raw \<Rightarrow> if MAX_FRAME_BYTES < length raw then None else Some raw
               | None \<Rightarrow> None)
           | _ \<Rightarrow> None)
     | _ \<Rightarrow> None)"

definition head_size_ok :: "json \<Rightarrow> bool" where
  "head_size_ok mapping = (case mapping of
       JObj d \<Rightarrow> length d \<le> 100 \<and> list_all (\<lambda>(k, v). is_str v) d
         \<and> sum_list (map (\<lambda>(k, v). length k + (case v of JStr s \<Rightarrow> length s | _ \<Rightarrow> 0)) d) \<le> MAX_HEAD_BYTES
     | _ \<Rightarrow> False)"

text \<open>\<open>str.upper\<close>, exact for every character whose upper-case form is made of ASCII letters; other
  characters are kept, which no ASCII comparison can tell apart.\<close>

definition upper_char :: "int \<Rightarrow> ustr" where
  "upper_char c = (if 97 \<le> c \<and> c \<le> 122 then [c - 32]
     else case map_of [(223, ''SS''), (305, ''I''), (383, ''S''), (64256, ''FF''), (64257, ''FI''), (64258, ''FL''),
         (64259, ''FFI''), (64260, ''FFL''), (64261, ''ST''), (64262, ''ST'')] c of
       Some t \<Rightarrow> lit t | None \<Rightarrow> [c])"

definition upper_text :: "ustr \<Rightarrow> ustr" where
  "upper_text s = concat (map upper_char s)"

definition TUNNEL_METHODS :: "ustr list" where
  "TUNNEL_METHODS = map lit [''GET'', ''POST'', ''PUT'', ''PATCH'', ''DELETE'', ''HEAD'', ''OPTIONS'']"

definition validate_request_head :: "(json \<Rightarrow> ustr) \<Rightarrow> json \<Rightarrow> (ustr \<times> ustr \<times> json) option" where
  "validate_request_head repr frame = (case frame of
       JObj d \<Rightarrow>
         let method = upper_text (py_str repr (dget_or d (lit ''method'') (JStr [])));
             path = py_str repr (dget_or d (lit ''path'') (JStr []));
             headers = dget d (lit ''headers'')
         in if dget d (lit ''type'') \<noteq> JStr (lit ''tunnel_request_head'') then None
            else if dhas d (lit ''job_id'') \<or> dhas d (lit ''result'') then None
            else if method \<notin> set TUNNEL_METHODS then None
            else if \<not> is_prefix (lit ''/'') path \<or> MAX_HEAD_BYTES < length path then None
            else if \<not> head_size_ok headers then None
            else Some (method, path, headers)
     | _ \<Rightarrow> None)"

text \<open>\<open>as_status\<close> is \<open>int\<close> of a value, \<open>None\<close> where it raises \<open>TypeError\<close> or \<open>ValueError\<close>.\<close>

definition validate_response_head :: "(json \<Rightarrow> int option) \<Rightarrow> json \<Rightarrow> (int \<times> json) option" where
  "validate_response_head as_status frame = (case frame of
       JObj d \<Rightarrow>
         if dget d (lit ''type'') \<noteq> JStr (lit ''tunnel_response_head'') then None
         else if dhas d (lit ''job_id'') \<or> dhas d (lit ''result'') then None
         else (case as_status (dget_or d (lit ''status'') (JInt 0)) of
             None \<Rightarrow> None
           | Some status \<Rightarrow>
               if \<not> (100 \<le> status \<and> status \<le> 599) then None
               else if \<not> head_size_ok (dget d (lit ''headers'')) then None
               else Some (status, dget d (lit ''headers'')))
     | _ \<Rightarrow> None)"

section \<open>The registry\<close>

definition STREAM_QUEUE_MAXSIZE :: nat where "STREAM_QUEUE_MAXSIZE = 64"
definition MAX_STREAMS_PER_TUNNEL :: nat where "MAX_STREAMS_PER_TUNNEL = 16"

datatype chunk = Payload "int list" | ResponseHead int json | StreamClosed

record tunnel =
  tn_owner :: int
  tn_port :: int
  tn_created :: int
  tn_bytes :: int
  tn_window_start :: int
  tn_window_used :: int
  tn_streams :: "(ustr \<times> nat) list"
  tn_ws :: "nat option"
  tn_acked :: bool
  tn_activity :: int

datatype ack = Waiting | Acked bool ustr

record tunnel_registry =
  tunnels :: "(ustr \<times> tunnel) list"
  by_owner :: "(int \<times> ustr list) list"
  acks :: "(ustr \<times> ack) list"
  queues :: "nat \<Rightarrow> chunk list"
  next_queue :: nat

definition no_tunnels :: tunnel_registry where
  "no_tunnels = \<lparr>tunnels = [], by_owner = [], acks = [], queues = (\<lambda>_. []), next_queue = 0\<rparr>"

text \<open>\<open>put_nowait\<close> with a full queue ignored, and the seal of a queue.\<close>

definition put_nowait :: "nat \<Rightarrow> chunk \<Rightarrow> (nat \<Rightarrow> chunk list) \<Rightarrow> bool \<times> (nat \<Rightarrow> chunk list)" where
  "put_nowait q c qs = (if length (qs q) < STREAM_QUEUE_MAXSIZE then (True, qs(q := qs q @ [c])) else (False, qs))"

definition seal :: "nat \<Rightarrow> (nat \<Rightarrow> chunk list) \<Rightarrow> nat \<Rightarrow> chunk list" where
  "seal q qs = snd (put_nowait q StreamClosed qs)"

definition owned_tokens :: "int \<Rightarrow> tunnel_registry \<Rightarrow> ustr list" where
  "owned_tokens owner s = (case map_of (by_owner s) owner of Some ts \<Rightarrow> ts | None \<Rightarrow> [])"

definition drop_tunnel :: "ustr \<Rightarrow> tunnel_registry \<Rightarrow> tunnel_registry" where
  "drop_tunnel token s = (case map_of (tunnels s) token of
       None \<Rightarrow> s
     | Some r \<Rightarrow> s\<lparr>tunnels := ddel token (tunnels s),
         by_owner := map (\<lambda>(u, ts). (u, if u = tn_owner r then removeAll token ts else ts)) (by_owner s),
         acks := ddel token (acks s),
         queues := fold seal (map snd (tn_streams r)) (queues s)\<rparr>)"

definition expired_tunnel :: "env \<Rightarrow> int \<Rightarrow> tunnel \<Rightarrow> bool" where
  "expired_tunnel e now r \<longleftrightarrow> now - tn_created r > 1000 * tunnel_ttl_seconds e"

definition sweep_tunnels :: "env \<Rightarrow> int \<Rightarrow> tunnel_registry \<Rightarrow> tunnel_registry" where
  "sweep_tunnels e now s =
     fold drop_tunnel (map fst (filter (\<lambda>(t, r). expired_tunnel e now r) (tunnels s))) s"

datatype tunnel_refusal = PortBlocked | CapExceeded nat

definition open_tunnel ::
  "env \<Rightarrow> (ustr \<Rightarrow> int option) \<Rightarrow> int \<Rightarrow> ustr \<Rightarrow> int \<Rightarrow> json \<Rightarrow> nat option \<Rightarrow> tunnel_registry
     \<Rightarrow> (tunnel_refusal + ustr) \<times> tunnel_registry" where
  "open_tunnel e whole now token owner port ws s = (case check_tunnel_port whole port of
       None \<Rightarrow> (Inl PortBlocked, s)
     | Some number \<Rightarrow>
         let s1 = sweep_tunnels e now s;
             live = length (filter (dhas (tunnels s1)) (owned_tokens owner s1))
         in if tunnel_max_per_user e \<le> int live then (Inl (CapExceeded live), s1)
            else (Inr token, s1\<lparr>
              tunnels := dset token \<lparr>tn_owner = owner, tn_port = number, tn_created = now, tn_bytes = 0,
                  tn_window_start = now, tn_window_used = 0, tn_streams = [], tn_ws = ws,
                  tn_acked = (ws = None), tn_activity = now\<rparr> (tunnels s1),
              by_owner := dset owner (List.insert token (owned_tokens owner s1)) (by_owner s1)\<rparr>))"

definition lookup_tunnel :: "env \<Rightarrow> int \<Rightarrow> ustr \<Rightarrow> tunnel_registry \<Rightarrow> tunnel option \<times> tunnel_registry" where
  "lookup_tunnel e now token s =
     (let s1 = sweep_tunnels e now s in
      case map_of (tunnels s1) token of
        None \<Rightarrow> (None, s1)
      | Some r \<Rightarrow> if expired_tunnel e now r then (None, drop_tunnel token s1) else (Some r, s1))"

definition close_tunnel :: "env \<Rightarrow> int \<Rightarrow> ustr \<Rightarrow> int option \<Rightarrow> tunnel_registry \<Rightarrow> bool \<times> tunnel_registry" where
  "close_tunnel e now token requester s =
     (let s1 = sweep_tunnels e now s in
      case map_of (tunnels s1) token of
        None \<Rightarrow> (False, s1)
      | Some r \<Rightarrow> if requester \<noteq> None \<and> requester \<noteq> Some (tn_owner r) then (False, s1)
                  else (True, drop_tunnel token s1))"

text \<open>Changing the record of a token, where there is one.\<close>

definition on_tunnel :: "ustr \<Rightarrow> (tunnel \<Rightarrow> tunnel) \<Rightarrow> tunnel_registry \<Rightarrow> bool \<times> tunnel_registry" where
  "on_tunnel token f s = (case map_of (tunnels s) token of
       None \<Rightarrow> (False, s) | Some r \<Rightarrow> (True, s\<lparr>tunnels := dset token (f r) (tunnels s)\<rparr>))"

section \<open>The ack of the machine\<close>

definition bind_ws :: "ustr \<Rightarrow> nat \<Rightarrow> tunnel_registry \<Rightarrow> bool \<times> tunnel_registry" where
  "bind_ws token ws s = on_tunnel token (\<lambda>r. r\<lparr>tn_ws := Some ws, tn_acked := True\<rparr>) s"

definition await_ack_enter :: "ustr \<Rightarrow> tunnel_registry \<Rightarrow> bool \<times> tunnel_registry" where
  "await_ack_enter token s =
     (if dhas (tunnels s) token then (True, s\<lparr>acks := dset token Waiting (acks s)\<rparr>) else (False, s))"

text \<open>The wait is over: answered, cancelled by a drop (no entry), or timed out.\<close>

definition await_ack_leave :: "ustr \<Rightarrow> tunnel_registry \<Rightarrow> (bool \<times> ustr) option \<times> tunnel_registry" where
  "await_ack_leave token s = (case map_of (acks s) token of
       Some (Acked ok err) \<Rightarrow> (Some (ok, err), s\<lparr>acks := ddel token (acks s)\<rparr>)
     | _ \<Rightarrow> (None, (let s1 = drop_tunnel token s in s1\<lparr>acks := ddel token (acks s1)\<rparr>)))"

definition resolve_ack :: "ustr \<Rightarrow> nat \<Rightarrow> bool \<Rightarrow> ustr \<Rightarrow> tunnel_registry \<Rightarrow> bool \<times> tunnel_registry" where
  "resolve_ack token ws ok err s =
     (if map_of (acks s) token \<noteq> Some Waiting then (False, s)
      else case (if ok then bind_ws token ws s else (True, s)) of
          (False, s1) \<Rightarrow> (False, s1)
        | (True, s1) \<Rightarrow> (True, s1\<lparr>acks := dset token (Acked ok err) (acks s1)\<rparr>))"

section \<open>Caps\<close>

datatype spend_step = Refused | Admitted | SleepFor int

definition charge :: "nat \<Rightarrow> int \<Rightarrow> tunnel \<Rightarrow> tunnel" where
  "charge n now r = r\<lparr>tn_window_used := tn_window_used r + int n, tn_bytes := tn_bytes r + int n, tn_activity := now\<rparr>"

definition spend_begin ::
  "env \<Rightarrow> int \<Rightarrow> ustr \<Rightarrow> nat \<Rightarrow> tunnel_registry \<Rightarrow> spend_step \<times> tunnel_registry" where
  "spend_begin e now token n s = (case map_of (tunnels s) token of
       None \<Rightarrow> (Refused, s)
     | Some r \<Rightarrow>
         if tunnel_total_bytes e < tn_bytes r + int n then (Refused, s)
         else let r1 = (if 1000 \<le> now - tn_window_start r then r\<lparr>tn_window_start := now, tn_window_used := 0\<rparr> else r)
              in if tunnel_bytes_per_second e < tn_window_used r1 + int n
                 then (SleepFor (max 0 (tn_window_start r1 + 1000 - now)), snd (on_tunnel token (\<lambda>_. r1) s))
                 else (Admitted, snd (on_tunnel token (\<lambda>_. charge n now r1) s)))"

text \<open>After the sleep the bytes are charged, whatever happened meanwhile; a record that was dropped is
  no longer seen by anyone.\<close>

definition spend_end :: "int \<Rightarrow> ustr \<Rightarrow> nat \<Rightarrow> tunnel_registry \<Rightarrow> tunnel_registry" where
  "spend_end now token n s =
     snd (on_tunnel token (\<lambda>r. charge n now (r\<lparr>tn_window_start := now, tn_window_used := 0\<rparr>)) s)"

section \<open>Streams\<close>

definition stream_queue ::
  "env \<Rightarrow> int \<Rightarrow> ustr \<Rightarrow> ustr \<Rightarrow> tunnel_registry \<Rightarrow> nat option \<times> tunnel_registry" where
  "stream_queue e now token stream_id s = (case lookup_tunnel e now token s of
       (None, s1) \<Rightarrow> (None, s1)
     | (Some r, s1) \<Rightarrow>
         (case map_of (tn_streams r) stream_id of
            Some q \<Rightarrow> (Some q, snd (on_tunnel token (tn_activity_update (\<lambda>_. now)) s1))
          | None \<Rightarrow>
              if MAX_STREAMS_PER_TUNNEL \<le> length (tn_streams r) then (None, s1)
              else let q = next_queue s1 in
                (Some q, snd (on_tunnel token
                   (\<lambda>r. r\<lparr>tn_streams := dset stream_id q (tn_streams r), tn_activity := now\<rparr>)
                   (s1\<lparr>next_queue := Suc q, queues := (queues s1)(q := [])\<rparr>)))))"

definition push_to_stream ::
  "int \<Rightarrow> ustr \<Rightarrow> ustr \<Rightarrow> chunk \<Rightarrow> tunnel_registry \<Rightarrow> bool \<times> tunnel_registry" where
  "push_to_stream now token stream_id c s = (case map_of (tunnels s) token of
       None \<Rightarrow> (False, s)
     | Some r \<Rightarrow>
         (case map_of (tn_streams r) stream_id of
            None \<Rightarrow> (False, s)
          | Some q \<Rightarrow>
              (case put_nowait q c (queues s) of
                 (False, _) \<Rightarrow> (False, s)
               | (True, qs) \<Rightarrow> (True, snd (on_tunnel token (tn_activity_update (\<lambda>_. now)) (s\<lparr>queues := qs\<rparr>))))))"

definition drop_stream :: "ustr \<Rightarrow> ustr \<Rightarrow> tunnel_registry \<Rightarrow> tunnel_registry" where
  "drop_stream token stream_id s = (case map_of (tunnels s) token of
       None \<Rightarrow> s
     | Some r \<Rightarrow>
         (case map_of (tn_streams r) stream_id of
            None \<Rightarrow> s
          | Some q \<Rightarrow> (snd (on_tunnel token (tn_streams_update (ddel stream_id)) s))\<lparr>queues := seal q (queues s)\<rparr>))"

text \<open>What the consumer of a stream takes from its queue (\<open>queue.get\<close>).\<close>

definition take_chunk :: "nat \<Rightarrow> tunnel_registry \<Rightarrow> chunk option \<times> tunnel_registry" where
  "take_chunk q s = (case queues s q of [] \<Rightarrow> (None, s) | c # cs \<Rightarrow> (Some c, s\<lparr>queues := (queues s)(q := cs)\<rparr>))"

definition socket_for :: "ustr \<Rightarrow> tunnel_registry \<Rightarrow> nat option" where
  "socket_for token s = (case map_of (tunnels s) token of
       None \<Rightarrow> None | Some r \<Rightarrow> if tn_acked r then tn_ws r else None)"

text \<open>\<open>went\<close>: whether the socket took the frame. The socket it goes to is \<open>socket_for\<close>.\<close>

definition send_frame :: "int \<Rightarrow> ustr \<Rightarrow> bool \<Rightarrow> tunnel_registry \<Rightarrow> bool \<times> tunnel_registry" where
  "send_frame now token went s =
     (if socket_for token s = None \<or> \<not> went then (False, s)
      else (True, snd (on_tunnel token (tn_activity_update (\<lambda>_. now)) s)))"

definition detach_ws_tunnels :: "nat \<Rightarrow> tunnel_registry \<Rightarrow> nat \<times> tunnel_registry" where
  "detach_ws_tunnels ws s =
     (let doomed = map fst (filter (\<lambda>(t, r). tn_ws r = Some ws) (tunnels s))
      in (length doomed, fold drop_tunnel doomed s))"

definition tunnels_for :: "env \<Rightarrow> int \<Rightarrow> int \<Rightarrow> tunnel_registry \<Rightarrow> (int \<times> int \<times> int \<times> bool) list \<times> tunnel_registry" where
  "tunnels_for e now owner s =
     (let s1 = sweep_tunnels e now s in
      (map (\<lambda>r. (tn_port r, tn_created r, tn_bytes r, tn_acked r))
         (List.map_filter (map_of (tunnels s1)) (owned_tokens owner s1)), s1))"

section \<open>Frames carry bytes\<close>

lemma b64_value_char: "0 \<le> v \<Longrightarrow> v < 64 \<Longrightarrow> b64_value (b64_char v) = Some v"
  by (simp add: b64_value_def b64_char_def)

lemma b64_char_not_pad: "0 \<le> v \<Longrightarrow> v < 64 \<Longrightarrow> b64_char v \<noteq> 61"
  by (simp add: b64_char_def)

definition bytes :: "int list \<Rightarrow> bool" where
  "bytes raw = list_all (\<lambda>b. 0 \<le> b \<and> b < 256) raw"

lemma two_digits:
  fixes y z :: int
  assumes "0 \<le> z" and "z < m"
  shows "(m * y + z) div m = y" "(m * y + z) mod m = z"
  using assms by (simp_all add: div_pos_pos_trivial)

lemma byte_parts:
  fixes b :: int
  assumes "0 \<le> b" and "b < 256"
  shows "0 \<le> b div 4" "b div 4 < 64" "0 \<le> b mod 4" "b mod 4 < 4" "0 \<le> b div 16" "b div 16 < 16"
    "0 \<le> b mod 16" "b mod 16 < 16" "0 \<le> b div 64" "b div 64 < 4" "0 \<le> b mod 64" "b mod 64 < 64"
  using assms by simp_all

lemma b64_triple:
  fixes a b c :: int
  assumes "0 \<le> a" "a < 256" "0 \<le> b" "b < 256" "0 \<le> c" "c < 256"
  defines "x \<equiv> a div 4" and "y \<equiv> 16 * (a mod 4) + b div 16" and "z \<equiv> 4 * (b mod 16) + c div 64" and "w \<equiv> c mod 64"
  shows "4 * x + y div 16 = a" "16 * (y mod 16) + z div 4 = b" "64 * (z mod 4) + w = c"
    and "b64_value (b64_char x) = Some x" "b64_value (b64_char y) = Some y"
    and "b64_value (b64_char z) = Some z" "b64_value (b64_char w) = Some w"
    and "b64_char z \<noteq> 61" "b64_char w \<noteq> 61"
proof -
  note pa = byte_parts [OF assms(1,2)] and pb = byte_parts [OF assms(3,4)] and pc = byte_parts [OF assms(5,6)]
  have y: "y div 16 = a mod 4" "y mod 16 = b div 16" unfolding y_def using two_digits pb(5,6) by blast+
  have z: "z div 4 = b mod 16" "z mod 4 = c div 64" unfolding z_def using two_digits pc(9,10) by blast+
  show "4 * x + y div 16 = a" "16 * (y mod 16) + z div 4 = b" "64 * (z mod 4) + w = c"
    unfolding y z unfolding x_def w_def by simp_all
  have range: "0 \<le> x" "x < 64" "0 \<le> y" "y < 64" "0 \<le> z" "z < 64" "0 \<le> w" "w < 64"
    unfolding x_def y_def z_def w_def using pa pb pc by linarith+
  show "b64_value (b64_char x) = Some x" "b64_value (b64_char y) = Some y"
    "b64_value (b64_char z) = Some z" "b64_value (b64_char w) = Some w"
    "b64_char z \<noteq> 61" "b64_char w \<noteq> 61"
    using range b64_value_char b64_char_not_pad by blast+
qed

lemma b64_roundtrip: "bytes raw \<Longrightarrow> b64decode (b64encode raw) = Some raw"
proof (induction raw rule: b64encode.induct)
  case (2 a)
  then have "0 \<le> a" "a < 256" by (simp_all add: bytes_def)
  from b64_triple [OF this, of 0 0] show ?case by simp
next
  case (3 a b)
  then have "0 \<le> a" "a < 256" "0 \<le> b" "b < 256" by (simp_all add: bytes_def)
  from b64_triple [OF this, of 0] show ?case by simp
next
  case (4 a b c rest)
  then have b: "0 \<le> a" "a < 256" "0 \<le> b" "b < 256" "0 \<le> c" "c < 256" "bytes rest" by (simp_all add: bytes_def)
  show ?case unfolding b64encode.simps
    by (simp only: b64decode.simps b64_triple [OF b(1-6)] 4(1) [OF b(7)] option.case prod.case simp_thms if_False)
qed simp



section \<open>The caps hold\<close>

datatype tunnel_event =
    OpenTunnel int ustr int json "nat option"
  | LookUp int ustr
  | CloseTunnel int ustr "int option"
  | AwaitAck ustr
  | AckOver ustr
  | AckArrived ustr nat bool ustr
  | Spend int int ustr nat
  | SpendStart int ustr nat
  | SpendDone int ustr nat
  | GetQueue int ustr ustr
  | PushChunk int ustr ustr chunk
  | DropStream ustr ustr
  | TakeChunk nat
  | SendFrame int ustr bool
  | SocketGone nat
  | ListTunnels int int

text \<open>A spend that nothing overlaps.\<close>

definition spend :: "env \<Rightarrow> int \<Rightarrow> int \<Rightarrow> ustr \<Rightarrow> nat \<Rightarrow> tunnel_registry \<Rightarrow> bool \<times> tunnel_registry" where
  "spend e now later token n s = (case spend_begin e now token n s of
       (Refused, s1) \<Rightarrow> (False, s1)
     | (Admitted, s1) \<Rightarrow> (True, s1)
     | (SleepFor t, s1) \<Rightarrow> (True, spend_end later token n s1))"

fun tunnel_step :: "env \<Rightarrow> (ustr \<Rightarrow> int option) \<Rightarrow> tunnel_event \<Rightarrow> tunnel_registry \<Rightarrow> tunnel_registry" where
  "tunnel_step e whole (OpenTunnel now token owner port ws) s = snd (open_tunnel e whole now token owner port ws s)"
| "tunnel_step e whole (LookUp now token) s = snd (lookup_tunnel e now token s)"
| "tunnel_step e whole (CloseTunnel now token requester) s = snd (close_tunnel e now token requester s)"
| "tunnel_step e whole (AwaitAck token) s = snd (await_ack_enter token s)"
| "tunnel_step e whole (AckOver token) s = snd (await_ack_leave token s)"
| "tunnel_step e whole (AckArrived token ws ok err) s = snd (resolve_ack token ws ok err s)"
| "tunnel_step e whole (Spend now later token n) s = snd (spend e now later token n s)"
| "tunnel_step e whole (SpendStart now token n) s = snd (spend_begin e now token n s)"
| "tunnel_step e whole (SpendDone now token n) s = spend_end now token n s"
| "tunnel_step e whole (GetQueue now token stream_id) s = snd (stream_queue e now token stream_id s)"
| "tunnel_step e whole (PushChunk now token stream_id c) s = snd (push_to_stream now token stream_id c s)"
| "tunnel_step e whole (DropStream token stream_id) s = drop_stream token stream_id s"
| "tunnel_step e whole (TakeChunk q) s = snd (take_chunk q s)"
| "tunnel_step e whole (SendFrame now token went) s = snd (send_frame now token went s)"
| "tunnel_step e whole (SocketGone ws) s = snd (detach_ws_tunnels ws s)"
| "tunnel_step e whole (ListTunnels now owner) s = snd (tunnels_for e now owner s)"

text \<open>The runs of the registry; \<open>secrets.token_urlsafe\<close> gives no token that is in use.\<close>

inductive tunnel_run :: "env \<Rightarrow> (ustr \<Rightarrow> int option) \<Rightarrow> tunnel_event list \<Rightarrow> tunnel_registry \<Rightarrow> bool" for e whole where
  start: "tunnel_run e whole [] no_tunnels"
| step: "tunnel_run e whole tr s \<Longrightarrow> (\<And>now t u p ws. ev = OpenTunnel now t u p ws \<Longrightarrow> \<not> dhas (tunnels s) t)
    \<Longrightarrow> tunnel_run e whole (tr @ [ev]) (tunnel_step e whole ev s)"

text \<open>A property of single records that dropping keeps: every operation is \<open>drop_tunnel\<close>, a change of one
  record, a new record, or touches no record.\<close>

definition port_allowed :: "int \<Rightarrow> bool" where
  "port_allowed p \<longleftrightarrow> 1 \<le> p \<and> p \<le> 65535 \<and> p \<notin> set TUNNEL_DENIED_PORTS"

definition registry_ok :: "env \<Rightarrow> tunnel_registry \<Rightarrow> bool" where
  "registry_ok e s \<longleftrightarrow> distinct (map fst (tunnels s))
     \<and> (\<forall>t r. map_of (tunnels s) t = Some r \<longrightarrow>
          port_allowed (tn_port r) \<and> length (tn_streams r) \<le> MAX_STREAMS_PER_TUNNEL)
     \<and> (\<forall>u. distinct (owned_tokens u s) \<and> int (length (owned_tokens u s)) \<le> tunnel_max_per_user e
          \<and> (\<forall>t. t \<in> set (owned_tokens u s) \<longleftrightarrow> (\<exists>r. map_of (tunnels s) t = Some r \<and> tn_owner r = u)))
     \<and> (\<forall>q. length (queues s q) \<le> STREAM_QUEUE_MAXSIZE)"

lemma dhas_map_of: "dhas d t \<longleftrightarrow> (\<exists>r. map_of d t = Some r)"
  unfolding dhas_def by (metis map_of_eq_None_iff not_None_eq)

lemma registry_shrinks:
  assumes "registry_ok e s" and "distinct (map fst (tunnels s'))"
    and recs: "\<And>t r'. map_of (tunnels s') t = Some r' \<Longrightarrow>
      \<exists>r. map_of (tunnels s) t = Some r \<and> tn_owner r' = tn_owner r \<and> tn_port r' = tn_port r
        \<and> length (tn_streams r') \<le> MAX_STREAMS_PER_TUNNEL"
    and owned: "\<And>u. owned_tokens u s' = filter (dhas (tunnels s')) (owned_tokens u s)"
    and "\<And>q. length (queues s' q) \<le> STREAM_QUEUE_MAXSIZE"
  shows "registry_ok e s'"
proof -
  have "port_allowed (tn_port r') \<and> length (tn_streams r') \<le> MAX_STREAMS_PER_TUNNEL"
    if "map_of (tunnels s') t = Some r'" for t r'
    using recs [OF that] assms(1) by (auto simp: registry_ok_def)
  moreover have "distinct (owned_tokens u s')" for u
    using assms(1) owned by (simp add: registry_ok_def)
  moreover have "int (length (owned_tokens u s')) \<le> tunnel_max_per_user e" for u
  proof -
    have "length (owned_tokens u s') \<le> length (owned_tokens u s)" using owned by simp
    moreover have "int (length (owned_tokens u s)) \<le> tunnel_max_per_user e" using assms(1) by (simp add: registry_ok_def)
    ultimately show ?thesis by linarith
  qed
  moreover have "t \<in> set (owned_tokens u s') \<longleftrightarrow> (\<exists>r. map_of (tunnels s') t = Some r \<and> tn_owner r = u)" for u t
  proof -
    have "t \<in> set (owned_tokens u s) \<longleftrightarrow> (\<exists>r. map_of (tunnels s) t = Some r \<and> tn_owner r = u)"
      using assms(1) by (simp add: registry_ok_def)
    then show ?thesis using recs [of t] by (fastforce simp: owned dhas_map_of)
  qed
  ultimately show ?thesis using assms(2,5) unfolding registry_ok_def by blast
qed

lemma length_seal: "(\<And>q. length (qs q) \<le> STREAM_QUEUE_MAXSIZE) \<Longrightarrow> length (seal q' qs q) \<le> STREAM_QUEUE_MAXSIZE"
  by (auto simp: seal_def put_nowait_def)

lemma length_fold_seal:
  "(\<And>q. length (qs q) \<le> STREAM_QUEUE_MAXSIZE) \<Longrightarrow> length (fold seal xs qs q) \<le> STREAM_QUEUE_MAXSIZE"
  by (induction xs arbitrary: qs q) (simp_all add: length_seal)

lemma map_of_drop_tunnel: "map_of (tunnels (drop_tunnel t s)) t' = (if t' = t then None else map_of (tunnels s) t')"
  by (simp add: drop_tunnel_def map_of_ddel split: option.split)

lemma map_of_map_values: "map_of (map (\<lambda>(k, v). (k, f k v)) d) k = map_option (f k) (map_of d k)"
  by (induction d) auto

lemma owned_drop_tunnel:
  "owned_tokens u (drop_tunnel t s) = (case map_of (tunnels s) t of
     Some r \<Rightarrow> if u = tn_owner r then removeAll t (owned_tokens u s) else owned_tokens u s
   | None \<Rightarrow> owned_tokens u s)"
  by (auto simp: drop_tunnel_def owned_tokens_def map_of_map_values split: option.split)

lemma ok_drop_tunnel: "registry_ok e s \<Longrightarrow> registry_ok e (drop_tunnel t s)"
proof (rule registry_shrinks, assumption)
  assume ok: "registry_ok e s"
  show "distinct (map fst (tunnels (drop_tunnel t s)))"
    using ok by (auto simp: registry_ok_def drop_tunnel_def ddel_def distinct_map_filter split: option.split)
  show "owned_tokens u (drop_tunnel t s) = filter (dhas (tunnels (drop_tunnel t s))) (owned_tokens u s)" for u
  proof -
    have live: "x \<in> set (owned_tokens u s) \<longleftrightarrow> (\<exists>r. map_of (tunnels s) x = Some r \<and> tn_owner r = u)" for x
      using ok by (simp add: registry_ok_def)
    have "owned_tokens u (drop_tunnel t s) = filter (\<lambda>x. x \<noteq> t) (owned_tokens u s)"
      using live [of t]
      by (auto simp: owned_drop_tunnel removeAll_filter_not_eq intro: filter_cong filter_True [symmetric] split: option.split)
    also have "\<dots> = filter (dhas (tunnels (drop_tunnel t s))) (owned_tokens u s)"
      by (rule filter_cong [OF refl]) (use live in \<open>auto simp: dhas_map_of map_of_drop_tunnel\<close>)
    finally show ?thesis .
  qed
  show "length (queues (drop_tunnel t s) q) \<le> STREAM_QUEUE_MAXSIZE" for q
    using ok length_fold_seal [of "queues s"] by (auto simp: registry_ok_def drop_tunnel_def split: option.split)
  show "\<exists>r. map_of (tunnels s) t' = Some r \<and> tn_owner r' = tn_owner r \<and> tn_port r' = tn_port r
      \<and> length (tn_streams r') \<le> MAX_STREAMS_PER_TUNNEL" if "map_of (tunnels (drop_tunnel t s)) t' = Some r'" for t' r'
    using ok that by (auto simp: registry_ok_def map_of_drop_tunnel split: if_splits)
qed

lemma ok_fold_drop: "registry_ok e s \<Longrightarrow> registry_ok e (fold drop_tunnel ts s)"
  by (induction ts arbitrary: s) (simp_all add: ok_drop_tunnel)

lemma ok_sweep_tunnels: "registry_ok e s \<Longrightarrow> registry_ok e (sweep_tunnels e now s)"
  by (simp add: sweep_tunnels_def ok_fold_drop)

lemma map_of_fold_drop:
  "map_of (tunnels (fold drop_tunnel ts s)) t = (if t \<in> set ts then None else map_of (tunnels s) t)"
  by (induction ts arbitrary: s) (simp_all add: map_of_drop_tunnel)

lemma map_of_sweep: "map_of (tunnels (sweep_tunnels e now s)) t = Some r \<Longrightarrow> map_of (tunnels s) t = Some r"
  by (simp add: sweep_tunnels_def map_of_fold_drop split: if_splits)

lemma ok_same_records:
  "registry_ok e s \<Longrightarrow> tunnels s' = tunnels s \<Longrightarrow> by_owner s' = by_owner s \<Longrightarrow>
   (\<And>q. length (queues s' q) \<le> STREAM_QUEUE_MAXSIZE) \<Longrightarrow> registry_ok e s'"
  by (simp add: registry_ok_def owned_tokens_def)

lemma ok_on_tunnel:
  assumes "registry_ok e s"
    and f: "\<And>r. map_of (tunnels s) t = Some r \<Longrightarrow> tn_owner (f r) = tn_owner r \<and> tn_port (f r) = tn_port r
      \<and> (length (tn_streams (f r)) \<le> length (tn_streams r) \<or> length (tn_streams (f r)) \<le> MAX_STREAMS_PER_TUNNEL)"
  shows "registry_ok e (snd (on_tunnel t f s))"
proof (rule registry_shrinks [OF assms(1)])
  show "distinct (map fst (tunnels (snd (on_tunnel t f s))))"
    using assms(1) distinct_keys_dset by (auto simp: registry_ok_def on_tunnel_def split: option.split)
  show "\<exists>r. map_of (tunnels s) t' = Some r \<and> tn_owner r' = tn_owner r \<and> tn_port r' = tn_port r
      \<and> length (tn_streams r') \<le> MAX_STREAMS_PER_TUNNEL" if got: "map_of (tunnels (snd (on_tunnel t f s))) t' = Some r'" for t' r'
  proof -
    obtain r where r: "map_of (tunnels s) t' = Some r" "r' = (if t' = t then f r else r)"
    proof (cases "map_of (tunnels s) t")
      case (Some a)
      then have "((map_of (tunnels s))(t \<mapsto> f a)) t' = Some r'" using got by (simp add: on_tunnel_def map_of_dset)
      then show thesis using Some that [of "if t' = t then a else r'"] by (cases "t' = t") simp_all
    next
      case None
      then have "map_of (tunnels s) t' = Some r'" "t' \<noteq> t" using got by (auto simp: on_tunnel_def)
      then show thesis using that [of r'] by simp
    qed
    moreover have "length (tn_streams r) \<le> MAX_STREAMS_PER_TUNNEL" using assms(1) r(1) by (auto simp: registry_ok_def)
    ultimately show ?thesis using f [of r] by auto
  qed
  show "owned_tokens u (snd (on_tunnel t f s)) = filter (dhas (tunnels (snd (on_tunnel t f s)))) (owned_tokens u s)" for u
  proof -
    have "owned_tokens u (snd (on_tunnel t f s)) = owned_tokens u s"
      by (simp add: on_tunnel_def owned_tokens_def split: option.split)
    moreover have "dhas (tunnels (snd (on_tunnel t f s))) x" if "x \<in> set (owned_tokens u s)" for x
    proof -
      have "dhas (tunnels s) x" using assms(1) that by (auto simp: registry_ok_def dhas_map_of)
      then show ?thesis by (simp add: on_tunnel_def split: option.split)
    qed
    ultimately show ?thesis by (simp add: filter_True)
  qed
  show "length (queues (snd (on_tunnel t f s)) q) \<le> STREAM_QUEUE_MAXSIZE" for q
    using assms(1) by (simp add: registry_ok_def on_tunnel_def split: option.split)
qed

lemma ok_put_nowait:
  "registry_ok e s \<Longrightarrow> put_nowait q c (queues s) = (b, qs) \<Longrightarrow> registry_ok e (s\<lparr>queues := qs\<rparr>)"
  by (rule ok_same_records [of e s]) (auto simp: registry_ok_def put_nowait_def split: if_splits)

lemma ok_open_tunnel:
  assumes ok: "registry_ok e s" and fresh: "\<not> dhas (tunnels s) token"
  shows "registry_ok e (snd (open_tunnel e whole now token owner port ws s))"
proof -
  define s1 where "s1 = sweep_tunnels e now s"
  have ok1: "registry_ok e s1" using ok ok_sweep_tunnels by (simp add: s1_def)
  show ?thesis
  proof (cases "check_tunnel_port whole port")
    case None
    then show ?thesis using ok by (simp add: open_tunnel_def)
  next
    case (Some number)
    define live where "live = length (filter (dhas (tunnels s1)) (owned_tokens owner s1))"
    show ?thesis
    proof (cases "tunnel_max_per_user e \<le> int live")
      case True
      then show ?thesis using ok1 Some by (simp add: open_tunnel_def live_def s1_def Let_def)
    next
      case False
      define s2 where "s2 = snd (open_tunnel e whole now token owner port ws s)"
      define r where "r = \<lparr>tn_owner = owner, tn_port = number, tn_created = now, tn_bytes = 0,
          tn_window_start = now, tn_window_used = 0, tn_streams = [], tn_ws = ws, tn_acked = (ws = None), tn_activity = now\<rparr>"
      have s2: "tunnels s2 = dset token r (tunnels s1)" "queues s2 = queues s1"
        "by_owner s2 = dset owner (List.insert token (owned_tokens owner s1)) (by_owner s1)"
        using Some False by (simp_all add: s2_def open_tunnel_def live_def s1_def r_def Let_def)
      have owned: "owned_tokens u s2 = (if u = owner then List.insert token (owned_tokens owner s1) else owned_tokens u s1)" for u
        by (simp add: owned_tokens_def s2 map_of_dset)
      have get: "map_of (tunnels s2) t = (if t = token then Some r else map_of (tunnels s1) t)" for t
        by (simp add: s2 map_of_dset)
      have old: "\<And>t r. map_of (tunnels s1) t = Some r \<Longrightarrow> port_allowed (tn_port r) \<and> length (tn_streams r) \<le> MAX_STREAMS_PER_TUNNEL"
        "\<And>u. distinct (owned_tokens u s1)" "\<And>u. int (length (owned_tokens u s1)) \<le> tunnel_max_per_user e"
        "\<And>u t. t \<in> set (owned_tokens u s1) \<longleftrightarrow> (\<exists>r. map_of (tunnels s1) t = Some r \<and> tn_owner r = u)"
        using ok1 by (simp_all add: registry_ok_def)
      have "map_of (tunnels s1) token = None" using fresh map_of_sweep [of e now s token] by (cases "map_of (tunnels s1) token") (simp_all add: s1_def dhas_map_of)
      moreover have "live = length (owned_tokens owner s1)"
        using old(4) by (auto simp: live_def dhas_map_of intro!: arg_cong [of _ _ length] filter_True)
      moreover have "port_allowed number" using Some by (auto simp: check_tunnel_port_def port_allowed_def split: option.splits if_splits)
      ultimately have new: "map_of (tunnels s1) token = None" "int (length (owned_tokens owner s1)) < tunnel_max_per_user e"
        "port_allowed (tn_port r)" "length (tn_streams r) \<le> MAX_STREAMS_PER_TUNNEL" "tn_owner r = owner"
        using False by (simp_all add: r_def)
      have not_owned: "token \<notin> set (owned_tokens owner s1)" using old(4) new(1) by simp
      have "distinct (map fst (tunnels s2))" unfolding s2 using ok1 by (intro distinct_keys_dset) (simp add: registry_ok_def)
      moreover have "port_allowed (tn_port q) \<and> length (tn_streams q) \<le> MAX_STREAMS_PER_TUNNEL"
        if "map_of (tunnels s2) t = Some q" for t q
        using that old(1) [of t q] new by (simp add: get split: if_splits)
      moreover have "distinct (owned_tokens u s2) \<and> int (length (owned_tokens u s2)) \<le> tunnel_max_per_user e" for u
        using old(2,3) [of u] old(2) [of owner] new not_owned by (simp add: owned List.insert_def)
      moreover have "t \<in> set (owned_tokens u s2) \<longleftrightarrow> (\<exists>r. map_of (tunnels s2) t = Some r \<and> tn_owner r = u)" for u t
        using old(4) [of t u] new by (auto simp: owned get)
      moreover have "length (queues s2 q) \<le> STREAM_QUEUE_MAXSIZE" for q using ok1 by (simp add: s2 registry_ok_def)
      ultimately have "registry_ok e s2" unfolding registry_ok_def by blast
      then show ?thesis by (simp add: s2_def)
    qed
  qed
qed

lemma ok_lookup: "registry_ok e s \<Longrightarrow> lookup_tunnel e now t s = (r, s') \<Longrightarrow> registry_ok e s'"
  by (auto simp: lookup_tunnel_def Let_def ok_sweep_tunnels ok_drop_tunnel split: option.splits if_splits)

lemma lookup_record: "lookup_tunnel e now t s = (Some r, s') \<Longrightarrow> map_of (tunnels s') t = Some r \<and> \<not> expired_tunnel e now r"
  by (auto simp: lookup_tunnel_def Let_def split: option.splits if_splits)

lemma ok_spend_begin: "registry_ok e s \<Longrightarrow> registry_ok e (snd (spend_begin e now t n s))"
  by (auto simp: spend_begin_def charge_def Let_def split: option.split intro!: ok_on_tunnel)

lemma ok_spend_end: "registry_ok e s \<Longrightarrow> registry_ok e (spend_end now t n s)"
  by (simp add: spend_end_def charge_def ok_on_tunnel)

lemma ok_stream_queue: "registry_ok e s \<Longrightarrow> registry_ok e (snd (stream_queue e now t i s))"
proof -
  assume ok: "registry_ok e s"
  obtain r s1 where l: "lookup_tunnel e now t s = (r, s1)" by fastforce
  have ok1: "registry_ok e s1" using ok_lookup [OF ok l] .
  show ?thesis
  proof (cases r)
    case None
    then show ?thesis using l ok1 by (simp add: stream_queue_def)
  next
    case (Some r0)
    have r0: "map_of (tunnels s1) t = Some r0" using lookup_record l Some by blast
    let ?s2 = "s1\<lparr>next_queue := Suc (next_queue s1), queues := (queues s1)(next_queue s1 := [])\<rparr>"
    have ok2: "registry_ok e ?s2" by (rule ok_same_records [OF ok1]) (use ok1 in \<open>auto simp: registry_ok_def\<close>)
    have len: "length (dset i q d) \<le> Suc (length d)" for q :: nat and d by (induction d) auto
    show ?thesis
    proof (cases "map_of (tn_streams r0) i = None \<and> length (tn_streams r0) < MAX_STREAMS_PER_TUNNEL")
      case True
      then have "registry_ok e (snd (on_tunnel t (\<lambda>r. r\<lparr>tn_streams := dset i (next_queue s1) (tn_streams r), tn_activity := now\<rparr>) ?s2))"
        using r0 len [of "next_queue s1" "tn_streams r0"] by (intro ok_on_tunnel [OF ok2]) simp
      then show ?thesis using l Some True by (simp add: stream_queue_def Let_def)
    next
      case False
      then show ?thesis using l Some ok1 by (auto simp: stream_queue_def intro!: ok_on_tunnel split: option.split)
    qed
  qed
qed

lemma ok_push: "registry_ok e s \<Longrightarrow> registry_ok e (snd (push_to_stream now t i c s))"
  by (auto simp: push_to_stream_def ok_put_nowait split: option.split prod.splits bool.splits intro!: ok_on_tunnel)

lemma ok_queues:
  "registry_ok e s \<Longrightarrow> (\<And>q. length (qs q) \<le> STREAM_QUEUE_MAXSIZE) \<Longrightarrow> registry_ok e (s\<lparr>queues := qs\<rparr>)"
  by (simp add: registry_ok_def owned_tokens_def)

lemma ok_drop_stream: "registry_ok e s \<Longrightarrow> registry_ok e (drop_stream t i s)"
proof -
  assume ok: "registry_ok e s"
  let ?s1 = "snd (on_tunnel t (tn_streams_update (ddel i)) s)"
  have "registry_ok e ?s1" by (rule ok_on_tunnel [OF ok]) (simp add: ddel_def)
  moreover have "length (seal q (queues s) q') \<le> STREAM_QUEUE_MAXSIZE" for q q'
    using ok by (intro length_seal) (simp add: registry_ok_def)
  ultimately have "registry_ok e (?s1\<lparr>queues := seal q (queues s)\<rparr>)" for q
    by (rule ok_queues)
  then show ?thesis using ok by (simp add: drop_stream_def split: option.split)
qed

lemma ok_acks [simp]: "registry_ok e (s\<lparr>acks := a\<rparr>) = registry_ok e s"
  by (simp add: registry_ok_def owned_tokens_def)

lemma ok_step:
  assumes "registry_ok e s" and "\<And>now t u p ws. ev = OpenTunnel now t u p ws \<Longrightarrow> \<not> dhas (tunnels s) t"
  shows "registry_ok e (tunnel_step e whole ev s)"
proof (cases ev)
  case (LookUp now t)
  then show ?thesis using assms(1) ok_lookup by (metis prod.collapse tunnel_step.simps(2))
next
  case (AwaitAck t)
  then show ?thesis using assms(1) by (simp add: await_ack_enter_def)
next
  case (AckOver t)
  then show ?thesis using assms(1) ok_drop_tunnel [OF assms(1), of t]
    by (simp add: await_ack_leave_def Let_def split: option.split ack.split)
next
  case (AckArrived t ws ok err)
  have bind: "registry_ok e (snd (bind_ws t ws s))" unfolding bind_ws_def by (rule ok_on_tunnel [OF assms(1)]) simp
  obtain b s1 where b: "bind_ws t ws s = (b, s1)" by fastforce
  then have "registry_ok e s1" using bind by simp
  then show ?thesis using assms(1) b AckArrived by (simp add: resolve_ack_def split: bool.split)
next
  case (Spend now later t n)
  obtain r s1 where b: "spend_begin e now t n s = (r, s1)" by fastforce
  then have "registry_ok e s1" using ok_spend_begin [OF assms(1), of now t n] by simp
  then show ?thesis using b Spend by (simp add: spend_def ok_spend_end split: spend_step.split)
next
  case (TakeChunk q)
  have "length cs \<le> STREAM_QUEUE_MAXSIZE" if "queues s q = c # cs" for c cs
    using assms(1) that unfolding registry_ok_def by (metis Suc_leD length_Cons)
  then show ?thesis using TakeChunk assms(1)
    by (auto simp: take_chunk_def split: list.split intro!: ok_same_records [OF assms(1)]) (auto simp: registry_ok_def)
next
  case (SendFrame now t went)
  then show ?thesis using assms(1) by (simp add: send_frame_def ok_on_tunnel)
qed (use assms in \<open>simp_all add: ok_open_tunnel close_tunnel_def Let_def ok_sweep_tunnels ok_drop_tunnel ok_spend_begin
    ok_spend_end ok_stream_queue ok_push ok_drop_stream detach_ws_tunnels_def ok_fold_drop tunnels_for_def split: option.split\<close>)

lemma run_ok: "tunnel_run e whole tr s \<Longrightarrow> registry_ok e s"
proof (induction rule: tunnel_run.induct)
  case start
  have "0 \<le> tunnel_max_per_user e" using tunnel_max_per_user_pos [of e] by linarith
  then show ?case by (simp add: registry_ok_def no_tunnels_def owned_tokens_def)
qed (rule ok_step)

text \<open>What every record satisfies is kept by what only drops records, or changes one.\<close>

definition records :: "(tunnel \<Rightarrow> bool) \<Rightarrow> tunnel_registry \<Rightarrow> bool" where
  "records P s \<longleftrightarrow> (\<forall>t r. map_of (tunnels s) t = Some r \<longrightarrow> P r)"

lemma records_same [simp]: "records P (s\<lparr>acks := a\<rparr>) = records P s" "records P (s\<lparr>queues := q\<rparr>) = records P s"
    "records P (s\<lparr>next_queue := k\<rparr>) = records P s"
  by (simp_all add: records_def)

lemma records_fold_drop: "records P s \<Longrightarrow> records P (fold drop_tunnel ts s)"
  by (simp add: records_def map_of_fold_drop)

lemma records_drop: "records P s \<Longrightarrow> records P (drop_tunnel t s)"
  by (simp add: records_def map_of_drop_tunnel)

lemma records_sweep: "records P s \<Longrightarrow> records P (sweep_tunnels e now s)"
  by (simp add: sweep_tunnels_def records_fold_drop)

lemma records_on:
  assumes "records P s" and "\<And>r. map_of (tunnels s) t = Some r \<Longrightarrow> P r \<Longrightarrow> P (f r)"
  shows "records P (snd (on_tunnel t f s))"
  using assms unfolding records_def on_tunnel_def
  by (cases "map_of (tunnels s) t") (auto simp: map_of_dset simp del: map_of_eq_Some_iff)

definition under_cap :: "env \<Rightarrow> tunnel \<Rightarrow> bool" where
  "under_cap e r \<longleftrightarrow> tn_bytes r \<le> tunnel_total_bytes e"

lemma under_cap_lookup: "records P s \<Longrightarrow> lookup_tunnel e now t s = (r, s') \<Longrightarrow> records P s'"
  by (auto simp: lookup_tunnel_def Let_def records_sweep records_drop split: option.splits if_splits)

lemma under_cap_spend:
  assumes "records (under_cap e) s"
  shows "records (under_cap e) (snd (spend e now later t n s))"
proof (cases "map_of (tunnels s) t")
  case None
  then show ?thesis using assms by (simp add: spend_def spend_begin_def)
next
  case (Some r)
  define r1 where "r1 = (if 1000 \<le> now - tn_window_start r then r\<lparr>tn_window_start := now, tn_window_used := 0\<rparr> else r)"
  have r1: "tn_bytes r1 = tn_bytes r" by (simp add: r1_def)
  have on: "on_tunnel t f s = (True, s\<lparr>tunnels := dset t (f r) (tunnels s)\<rparr>)" for f by (simp add: on_tunnel_def Some)
  show ?thesis
  proof (cases "tunnel_total_bytes e < tn_bytes r + int n")
    case True
    then show ?thesis using assms Some by (simp add: spend_def spend_begin_def)
  next
    case False
    then have fits: "under_cap e (charge n at (q\<lparr>tn_window_start := b, tn_window_used := 0\<rparr>))" "under_cap e (charge n at q)"
      if "tn_bytes q = tn_bytes r" for at b q
      using that by (simp_all add: under_cap_def charge_def)
    have "under_cap e r" using assms Some by (simp add: records_def)
    define s2 where "s2 = snd (on_tunnel t (\<lambda>_. r1) s)"
    have s2: "records (under_cap e) s2" "map_of (tunnels s2) t = Some r1"
      unfolding s2_def using \<open>under_cap e r\<close> by (intro records_on [OF assms]) (simp_all add: under_cap_def r1 on)
    have "records (under_cap e) (spend_end later t n s2)"
      unfolding spend_end_def by (rule records_on [OF s2(1)]) (use s2(2) fits(1) [OF r1] in simp)
    moreover have "records (under_cap e) (snd (on_tunnel t (\<lambda>_. charge n now r1) s))"
      by (intro records_on [OF assms]) (simp add: fits r1)
    ultimately show ?thesis using Some False by (simp add: spend_def spend_begin_def Let_def r1_def [symmetric] s2_def)
  qed
qed

definition spends_whole :: "tunnel_event list \<Rightarrow> bool" where
  "spends_whole tr = list_all (\<lambda>ev. case ev of SpendStart _ _ _ \<Rightarrow> False | SpendDone _ _ _ \<Rightarrow> False | _ \<Rightarrow> True) tr"

lemma under_cap_stream: "records (under_cap e) s \<Longrightarrow> records (under_cap e) (snd (stream_queue e now t i s))"
proof -
  assume s: "records (under_cap e) s"
  obtain r s1 where l: "lookup_tunnel e now t s = (r, s1)" by fastforce
  have s1: "records (under_cap e) s1" using under_cap_lookup [OF s l] .
  have "records (under_cap e) (s1\<lparr>next_queue := k, queues := qs\<rparr>)" for k qs using s1 by simp
  then show ?thesis using l s1
    by (auto simp: stream_queue_def Let_def under_cap_def intro!: records_on split: option.split)
qed

lemma under_cap_step:
  assumes "records (under_cap e) s" and "spends_whole [ev]"
  shows "records (under_cap e) (tunnel_step e whole ev s)"
proof (cases ev)
  case (OpenTunnel now t u p ws)
  have "records (under_cap e) (s\<lparr>tunnels := dset t r (tunnels s), by_owner := b\<rparr>)"
    if "records (under_cap e) s" "tn_bytes r = 0" for r b s
    using that tunnel_total_bytes_pos [of e] by (simp add: records_def map_of_dset under_cap_def)
  then show ?thesis using OpenTunnel assms(1) records_sweep [OF assms(1)]
    by (simp add: open_tunnel_def Let_def split: option.split)
next
  case (LookUp now t)
  then show ?thesis using assms(1) under_cap_lookup by (metis prod.collapse tunnel_step.simps(2))
next
  case (AckArrived t ws ok err)
  obtain b s1 where b: "bind_ws t ws s = (b, s1)" by fastforce
  have "records (under_cap e) (snd (bind_ws t ws s))"
    unfolding bind_ws_def by (rule records_on [OF assms(1)]) (simp add: under_cap_def)
  then have "records (under_cap e) s1" using b by simp
  then show ?thesis using assms(1) b AckArrived by (simp add: resolve_ack_def split: bool.split)
next
  case (PushChunk now t i c)
  have "records (under_cap e) (snd (on_tunnel t (tn_activity_update (\<lambda>_. now)) (s\<lparr>queues := qs\<rparr>)))" for qs
    by (rule records_on) (use assms in \<open>simp_all add: under_cap_def\<close>)
  then show ?thesis using PushChunk assms(1) by (simp add: push_to_stream_def split: option.split prod.split bool.split)
next
  case (DropStream t i)
  have "records (under_cap e) (snd (on_tunnel t (tn_streams_update (ddel i)) s))"
    by (rule records_on [OF assms(1)]) (simp add: under_cap_def)
  then show ?thesis using DropStream assms(1) by (simp add: drop_stream_def split: option.split)
next
  case (TakeChunk q)
  then show ?thesis using assms(1) by (simp add: take_chunk_def split: list.split)
next
  case (SendFrame now t went)
  have "records (under_cap e) (snd (on_tunnel t (tn_activity_update (\<lambda>_. now)) s))"
    by (rule records_on [OF assms(1)]) (simp add: under_cap_def)
  then show ?thesis using SendFrame assms(1) by (simp add: send_frame_def)
qed (use assms in \<open>simp_all add: close_tunnel_def await_ack_enter_def await_ack_leave_def Let_def records_sweep records_drop
    under_cap_spend spends_whole_def under_cap_stream detach_ws_tunnels_def records_fold_drop tunnels_for_def
    split: option.split ack.split\<close>)

lemma run_under_cap: "tunnel_run e whole tr s \<Longrightarrow> spends_whole tr \<Longrightarrow> records (under_cap e) s"
proof (induction rule: tunnel_run.induct)
  case start
  then show ?case by (simp add: records_def no_tunnels_def)
next
  case (step tr s ev)
  then show ?case using under_cap_step [of e s ev whole] by (simp add: spends_whole_def)
qed

text \<open>
  C24: a tunnel stays within its caps: in every run no user has more tunnels than the cap, every
  tunnel leads to an allowed port and has at most 16 streams, and no queue holds more than 64
  chunks; and while no two spends overlap, no tunnel carries more than its total of bytes.\<close>

theorem tunnel_caps_hold:
  assumes "tunnel_run e whole tr s"
  shows "int (length (filter (\<lambda>(t, r). tn_owner r = u) (tunnels s))) \<le> tunnel_max_per_user e
    \<and> list_all (\<lambda>(t, r). port_allowed (tn_port r) \<and> length (tn_streams r) \<le> MAX_STREAMS_PER_TUNNEL) (tunnels s)
    \<and> length (queues s q) \<le> STREAM_QUEUE_MAXSIZE
    \<and> (spends_whole tr \<longrightarrow> list_all (\<lambda>(t, r). tn_bytes r \<le> tunnel_total_bytes e) (tunnels s))"
proof -
  have ok: "registry_ok e s" using run_ok [OF assms] .
  then have d: "distinct (map fst (tunnels s))" by (simp add: registry_ok_def)
  let ?mine = "filter (\<lambda>(t, r). tn_owner r = u) (tunnels s)"
  have "set (map fst ?mine) \<subseteq> set (owned_tokens u s)"
    using ok d by (auto simp: registry_ok_def)
  moreover have "distinct (map fst ?mine)" using d by (simp add: distinct_map_filter)
  ultimately have "length ?mine \<le> length (owned_tokens u s)"
    by (metis card_length card_mono distinct_card length_map List.finite_set order_trans)
  moreover have "int (length (owned_tokens u s)) \<le> tunnel_max_per_user e" using ok by (simp add: registry_ok_def)
  moreover have bytes: "spends_whole tr \<Longrightarrow> list_all (\<lambda>(t, r). tn_bytes r \<le> tunnel_total_bytes e) (tunnels s)"
    using run_under_cap [OF assms] d by (auto simp: records_def under_cap_def list_all_iff)
  ultimately have "int (length ?mine) \<le> tunnel_max_per_user e" by linarith
  moreover have "list_all (\<lambda>(t, r). port_allowed (tn_port r) \<and> length (tn_streams r) \<le> MAX_STREAMS_PER_TUNNEL) (tunnels s)"
    using ok d by (auto simp: registry_ok_def list_all_iff)
  moreover have "length (queues s q) \<le> STREAM_QUEUE_MAXSIZE" using ok by (simp add: registry_ok_def)
  ultimately show ?thesis using bytes by blast
qed

theorem tunnel_caps_hold_witness:
  "\<exists>s. tunnel_run (\<lambda>_. None) (\<lambda>_. None) [OpenTunnel 0 [65] 7 (JInt 3000) None, Spend 5 5 [65] 10] s
     \<and> int (length (filter (\<lambda>(t, r). tn_owner r = 7) (tunnels s))) \<le> tunnel_max_per_user (\<lambda>_. None)
     \<and> list_all (\<lambda>(t, r). tn_bytes r \<le> tunnel_total_bytes (\<lambda>_. None)) (tunnels s)"
proof -
  let ?s = "tunnel_step (\<lambda>_. None) (\<lambda>_. None) (Spend 5 5 [65] 10)
        (tunnel_step (\<lambda>_. None) (\<lambda>_. None) (OpenTunnel 0 [65] 7 (JInt 3000) None) no_tunnels)"
  have "tunnel_run (\<lambda>_. None) (\<lambda>_. None) (([] @ [OpenTunnel 0 [65] 7 (JInt 3000) None]) @ [Spend 5 5 [65] 10]) ?s"
    by (intro tunnel_run.intros) (simp_all add: no_tunnels_def dhas_def)
  then have run: "tunnel_run (\<lambda>_. None) (\<lambda>_. None) [OpenTunnel 0 [65] 7 (JInt 3000) None, Spend 5 5 [65] 10] ?s"
    by simp
  show ?thesis using tunnel_caps_hold [OF run] run by (intro exI [of _ ?s]) (simp add: spends_whole_def del: tunnel_step.simps)
qed

text \<open>
  Two spends of one tunnel that overlap: each finds room before it sleeps, both are charged after it,
  and the tunnel carries twice its total.\<close>

definition tight_env :: env where
  "tight_env = [''INVINCIBLE_TUNNEL_TOTAL_BYTES'' \<mapsto> lit ''10'', ''INVINCIBLE_TUNNEL_BYTES_PER_SECOND'' \<mapsto> lit ''5'']"

lemma overlapping_spends_break_the_cap:
  "tunnel_total_bytes tight_env = 10 \<and>
   map (\<lambda>(t, r). tn_bytes r) (tunnels (fold (tunnel_step tight_env (\<lambda>_. None))
     [OpenTunnel 0 [65] 7 (JInt 3000) None, SpendStart 1 [65] 10, SpendStart 1 [65] 10, SpendDone 1000 [65] 10,
      SpendDone 1000 [65] 10] no_tunnels)) = [20]"
  by code_simp

end
