(* ===== verification/Dispatch.thy ===== *)
theory Dispatch
  imports Staging Tools Tunnel
begin

text \<open>
  Executing one tool call of the dashboard's agent loop: the policy gate (\<open>core/harness_policy.py\<close>),
  the dispatch helpers (\<open>core/tool_dispatch.py\<close>) and \<open>_execute_call\<close> with \<open>_await_approval\<close>
  (\<open>core/webchat_agent.py\<close>). What runs outside the gateway (the user's machine, the host's tools,
  the data tools and their stores, the browser of the user) is the record \<open>services\<close>; \<open>None\<close> is an
  exception it raises. Every act is logged. Of an error document the status is kept, not the text;
  audit rows are not modelled.
\<close>

section \<open>The policy\<close>

text \<open>What a turn is run with: the checks, Python's \<open>repr\<close>, \<open>json.loads\<close> and \<open>dict\<close> of a list, whether calls
  go to the user's machine (\<open>executor\<close>), whose turn it is and in which mode.\<close>

record tool_env =
  ck :: checks
  repr :: "json \<Rightarrow> ustr"
  parse_json :: "ustr \<Rightarrow> json option"
  dict_of :: "json list \<Rightarrow> pydict option"
  whole_port :: "ustr \<Rightarrow> int option"
  routed :: bool
  user :: int
  mode :: ustr
  token_ttl :: int

definition arg_text :: "tool_env \<Rightarrow> pydict \<Rightarrow> string \<Rightarrow> ustr" where
  "arg_text e args k = py_str (repr e) (dget_or args (lit k) (JStr []))"

definition sandboxed_tools :: "ustr list" where
  "sandboxed_tools = map lit [''code_search'', ''list_dir'', ''find_files'', ''git_status'', ''git_diff'', ''git_log'']"

text \<open>Whether the call is blocked (\<open>ToolBlocked\<close>).\<close>

definition before_tool_call :: "tool_env \<Rightarrow> ustr \<Rightarrow> pydict \<Rightarrow> bool \<Rightarrow> bool" where
  "before_tool_call e name args agent_routed =
     (if name = lit ''execute_bash'' then check_denylist (alnum (ck e)) (arg_text e args ''command'')
      else if name = lit ''write_file'' then check_write_denylist (fs (ck e)) (arg_text e args ''path'')
      else if name = lit ''edit_file'' then check_edit_denylist (fs (ck e)) (arg_text e args ''path'')
      else if name = lit ''read_file'' then
        \<not> agent_routed \<and> check_read_denylist (fs (ck e)) (arg_text e args ''path'')
      else if name \<in> set sandboxed_tools then
        \<not> agent_routed \<and> check_read_denylist (fs (ck e))
          (py_str (repr e) (py_or (dget_or args (lit ''path'') (JStr [])) (JStr (lit ''.''))))
      else if name = lit ''press_keys'' then blocked_chord (parse_keys_chord (arg_text e args ''keys''))
      else if name = lit ''expose_port'' then
        check_tunnel_port (whole_port e) (dget_or args (lit ''port'') (JStr [])) = None
      else False)"

section \<open>The world of a call\<close>

datatype deed = OnAgent ustr pydict | OnServer ustr pydict | Research pydict

datatype act =
    Ran deed
  | DataCall ustr pydict
  | StagedAct ustr request
  | Answered ustr bool
  | Confirmed ustr deed

record 'w services =
  perform :: "deed \<Rightarrow> 'w \<Rightarrow> pydict option \<times> 'w"
  data_tool :: "ustr \<Rightarrow> pydict \<Rightarrow> 'w \<Rightarrow> (pydict \<times> bool) option \<times> 'w"
  browser :: "ustr \<Rightarrow> 'w \<Rightarrow> bool \<times> 'w"
  others :: "'w \<Rightarrow> pending_store \<Rightarrow> pending_store"
  clock :: "'w \<Rightarrow> int"
  new_token :: "'w \<Rightarrow> ustr"

record 'w scene =
  store :: pending_store
  outside :: 'w
  acts :: "act list"

type_synonym 'w outcome = "(pydict \<times> bool) option \<times> 'w scene"

definition log_act :: "act \<Rightarrow> 'w scene \<Rightarrow> 'w scene" where
  "log_act a w = w\<lparr>acts := acts w @ [a]\<rparr>"

definition status_doc :: "string \<Rightarrow> pydict" where
  "status_doc s = [(lit ''status'', JStr (lit s))]"

definition result_ok :: "pydict \<Rightarrow> bool" where
  "result_ok d \<longleftrightarrow> dget d (lit ''status'') \<notin> set (map (\<lambda>s. JStr (lit s))
     [''error'', ''agent_offline'', ''agent_timeout'', ''declined'', ''blocked'', ''unavailable''])"

text \<open>Doing a deed: its document, with \<open>ok\<close> read off it.\<close>

definition do_deed :: "'w services \<Rightarrow> (deed \<Rightarrow> act) \<Rightarrow> deed \<Rightarrow> 'w scene \<Rightarrow> 'w outcome" where
  "do_deed v how d w = (case perform v d (outside w) of
     (r, o') \<Rightarrow> (map_option (\<lambda>doc. (doc, result_ok doc)) r, log_act (how d) (w\<lparr>outside := o'\<rparr>)))"

section \<open>Reads\<close>

definition coerce_int :: "tool_env \<Rightarrow> json \<Rightarrow> int \<Rightarrow> int checked" where
  "coerce_int e v dflt = (case to_int (to_integer (ck e)) (py_or v (JInt dflt)) of
     Inr i \<Rightarrow> Inr i | Inl ValueErr \<Rightarrow> Inr dflt | Inl x \<Rightarrow> Inl x)"

text \<open>The call of the host's tool that a read becomes, with the arguments it is given.\<close>

definition local_read :: "tool_env \<Rightarrow> ustr \<Rightarrow> pydict \<Rightarrow> pydict checked option" where
  "local_read e name args =
     (let path = (lit ''path'', JStr (arg_text e args ''path''));
          pattern = (lit ''pattern'', JStr (arg_text e args ''pattern''));
          hidden = (lit ''show_hidden'', JBool (truthy (dget_or args (lit ''show_hidden'') (JBool False))));
          num = (\<lambda>k d f. check (coerce_int e (dget args (lit k)) d) (\<lambda>i. Inr (f (lit k, JInt i))))
      in if name = lit ''read_file'' then Some
           (check (coerce_int e (dget args (lit ''offset'')) 1) (\<lambda>off.
              if dget args (lit ''limit'') = JNull then Inr [path, (lit ''offset'', JInt off), (lit ''limit'', JNull)]
              else check (coerce_int e (dget args (lit ''limit'')) 0) (\<lambda>lim.
                Inr [path, (lit ''offset'', JInt off), (lit ''limit'', JInt lim)])))
         else if name = lit ''list_dir'' then Some (num ''limit'' 100 (\<lambda>l. [path, l, hidden]))
         else if name = lit ''find_files'' then Some (num ''max_results'' 20 (\<lambda>l. [pattern, path, l, hidden]))
         else if name = lit ''code_search'' then Some (num ''max_results'' 20 (\<lambda>l. [pattern, path, l]))
         else if name = lit ''git_status'' \<or> name = lit ''git_diff'' then Some (Inr [path])
         else if name = lit ''git_log'' then Some (num ''limit'' 20 (\<lambda>l. [path, l]))
         else if name = lit ''process_list'' then Some (num ''limit'' 50 (\<lambda>l. [l]))
         else None)"

definition run_read :: "tool_env \<Rightarrow> 'w services \<Rightarrow> ustr \<Rightarrow> pydict \<Rightarrow> 'w scene \<Rightarrow> 'w outcome" where
  "run_read e v name args w =
     (if before_tool_call e name args (routed e) then (Some (status_doc ''blocked'', False), w)
      else if routed e then do_deed v Ran (OnAgent name args) w
      else case local_read e name args of
          None \<Rightarrow> (Some (status_doc ''error'', False), w)
        | Some (Inl _) \<Rightarrow> (None, w)
        | Some (Inr args') \<Rightarrow> do_deed v Ran (OnServer name args') w)"

text \<open>\<open>run_screenshot\<close>, \<open>run_web_fetch\<close>, \<open>run_look_at_screen\<close>: the user's machine or nothing.\<close>

definition run_agent_only :: "tool_env \<Rightarrow> 'w services \<Rightarrow> ustr \<Rightarrow> pydict \<Rightarrow> 'w scene \<Rightarrow> 'w outcome" where
  "run_agent_only e v name args w =
     (if \<not> routed e then (Some (status_doc ''unavailable'', False), w)
      else if name = lit ''look_at_screen'' then do_deed v Ran (OnAgent name args) w
      else do_deed v Ran (OnAgent (if name = lit ''web_fetch'' then name else lit ''screenshot'')
             [(lit ''url'', JStr (arg_text e args ''url''))]) w)"

section \<open>Changes\<close>

definition text_or_empty :: "tool_env \<Rightarrow> json \<Rightarrow> ustr" where
  "text_or_empty e v = (if v = JNull then [] else py_str (repr e) v)"

text \<open>\<open>stage_mutating\<close>: the staging call a tool call becomes; \<open>None\<close> for a name it does not know.\<close>

definition request_of :: "tool_env \<Rightarrow> ustr \<Rightarrow> pydict \<Rightarrow> request option" where
  "request_of e name args =
     (if name = lit ''execute_bash'' then Some (ExecuteBash (arg_text e args ''command'') (JFloat (lit ''30.0'')))
      else if name = lit ''write_file'' then Some (WriteFile (arg_text e args ''path'') (arg_text e args ''content''))
      else if name = lit ''edit_file'' then
        Some (EditFile (arg_text e args ''path'') (text_or_empty e (dget args (lit ''old_string'')))
          (text_or_empty e (dget args (lit ''new_string''))) (dget args (lit ''replace_all'') = JBool True))
      else if name \<in> set COMPUTER_TOOLS then Some (Computer name args)
      else None)"

definition confirm_staged :: "tool_env \<Rightarrow> 'w services \<Rightarrow> ustr \<Rightarrow> bool \<Rightarrow> 'w scene \<Rightarrow> 'w outcome" where
  "confirm_staged e v token approve w =
     (case confirm_action (routed e) (token_ttl e) (clock v (outside w)) token approve (Some (user e)) (store w) of
        (res, s) \<Rightarrow> let w' = w\<lparr>store := s\<rparr> in
          (case res of
             NotFound \<Rightarrow> (Some (status_doc ''not_found'', True), w')
           | Declined \<Rightarrow> (Some (status_doc ''declined'', False), w')
           | NoDesktop \<Rightarrow> (Some (status_doc ''unavailable'', False), w')
           | Forwarded ty args \<Rightarrow> do_deed v (Confirmed token) (OnAgent ty args) w'
           | RanLocally ty args \<Rightarrow> do_deed v (Confirmed token) (OnServer ty args) w'
           | UnknownType ty \<Rightarrow> (Some (status_doc ''error'', False), w')))"

text \<open>While the stream waits, other requests act on the store (\<open>others\<close>); the answer is that of the
  browser, or a refusal when the wait times out.\<close>

definition await_approval :: "tool_env \<Rightarrow> 'w services \<Rightarrow> ustr \<Rightarrow> 'w scene \<Rightarrow> 'w outcome" where
  "await_approval e v token w =
     (case browser v token (outside w) of
        (approved, o') \<Rightarrow>
          let w1 = log_act (Answered token approved) (w\<lparr>outside := o', store := others v o' (store w)\<rparr>) in
          if approved then confirm_staged e v token True w1
          else (case confirm_staged e v token False w1 of
              (Some (doc, ok), w2) \<Rightarrow> (Some (if dget doc (lit ''status'') = JStr (lit ''not_found'')
                                            then status_doc ''declined'' else doc, False), w2)
            | (None, w2) \<Rightarrow> (None, w2)))"

definition COMPUTER_ONLY_MUTATING :: "ustr list" where
  "COMPUTER_ONLY_MUTATING = filter (\<lambda>n. n \<in> set approval_required_names) agent_only_names"

definition ALL_DATA_TOOLS :: "ustr list" where
  "ALL_DATA_TOOLS = data_read_names @ data_write_names"

definition run_mutating :: "tool_env \<Rightarrow> 'w services \<Rightarrow> ustr \<Rightarrow> pydict \<Rightarrow> 'w scene \<Rightarrow> ustr option \<times> 'w outcome" where
  "run_mutating e v name args w =
     (case request_of e name args of
        None \<Rightarrow> (None, Some (status_doc ''blocked'', False), w)
      | Some r \<Rightarrow>
          (case stage (ck e) (token_ttl e) (clock v (outside w)) (new_token v (outside w)) r (Some (user e)) (store w) of
             (Inl Blocked, s) \<Rightarrow> (None, Some (status_doc ''blocked'', False), w\<lparr>store := s\<rparr>)
           | (Inl ValueErr, s) \<Rightarrow> (None, Some (status_doc ''error'', False), w\<lparr>store := s\<rparr>)
           | (Inl Crash, s) \<Rightarrow> (None, None, w\<lparr>store := s\<rparr>)
           | (Inr token, s) \<Rightarrow>
               let w1 = log_act (StagedAct token r) (w\<lparr>store := s\<rparr>) in
               if mode e = lit ''auto'' then (None, confirm_staged e v token True w1)
               else (Some token, await_approval e v token w1)))"

text \<open>\<open>_execute_call\<close>: the token of the approval event it yields, if any, and the outcome.\<close>

definition execute_call :: "tool_env \<Rightarrow> 'w services \<Rightarrow> ustr \<Rightarrow> pydict \<Rightarrow> 'w scene \<Rightarrow> ustr option \<times> 'w outcome" where
  "execute_call e v name args w =
     (if name = lit ''web_research'' then (None, do_deed v Ran (Research args) w)
      else if name \<in> set COMPUTER_ONLY_MUTATING \<and> \<not> routed e
      then (None, Some (status_doc ''unavailable'', False), w)
      else if name \<in> set read_only_names then (None, run_read e v name args w)
      else if name \<in> set agent_only_names \<and> name \<notin> set COMPUTER_ONLY_MUTATING
      then (None, run_agent_only e v name args w)
      else if name \<in> set ALL_DATA_TOOLS then
        (None, (case data_tool v name args (outside w) of
           (r, o') \<Rightarrow> (r, log_act (DataCall name args) (w\<lparr>outside := o'\<rparr>))))
      else run_mutating e v name args w)"

section \<open>What a call logs\<close>

text \<open>Other requests never write to a token that is in use: their tokens are new ones.\<close>

definition respectful :: "'w services \<Rightarrow> bool" where
  "respectful v \<longleftrightarrow> (\<forall>o' s. keys_ok s \<longrightarrow> keys_ok (others v o' s) \<and>
     (\<forall>t r. map_of (pending (others v o' s)) t = Some r \<longrightarrow> dhas (pending s) t \<longrightarrow> map_of (pending s) t = Some r))"

lemma respectfulD:
  assumes "respectful v" and "keys_ok s"
  shows "keys_ok (others v o' s)"
    "map_of (pending (others v o' s)) t = Some r \<Longrightarrow> dhas (pending s) t \<Longrightarrow> map_of (pending s) t = Some r"
  using assms unfolding respectful_def by blast+

fun deed_action :: "deed \<Rightarrow> ustr \<times> pydict" where
  "deed_action (OnAgent n a) = (n, a)"
| "deed_action (OnServer n a) = (n, a)"
| "deed_action (Research a) = (lit ''web_research'', a)"

text \<open>The log of one call: a read; a data tool; or a staged change, which runs as it was staged, after the
  approving answer for its token unless the mode is auto.\<close>

definition staged_log :: "tool_env \<Rightarrow> act list \<Rightarrow> bool" where
  "staged_log e l \<longleftrightarrow> (\<exists>t r. (\<exists>b. l = [StagedAct t r] \<or> l = [StagedAct t r, Answered t b])
     \<or> (\<exists>d. staged_action (ck e) r = Inr (deed_action d)
          \<and> (l = [StagedAct t r, Confirmed t d] \<and> mode e = lit ''auto''
             \<or> l = [StagedAct t r, Answered t True, Confirmed t d])))"

definition call_log :: "tool_env \<Rightarrow> act list \<Rightarrow> bool" where
  "call_log e l \<longleftrightarrow> l = []
     \<or> (\<exists>d. l = [Ran d] \<and> fst (deed_action d) \<notin> set approval_required_names)
     \<or> (\<exists>n a. l = [DataCall n a] \<and> n \<in> set ALL_DATA_TOOLS)
     \<or> staged_log e l"

lemma do_deed_acts: "do_deed v how d w = (r, w') \<Longrightarrow> acts w' = acts w @ [how d]"
  by (auto simp: do_deed_def log_act_def split: prod.splits)

text \<open>Names a call that needs no approval runs under.\<close>

lemma no_approval_names:
  "n \<in> set read_only_names \<Longrightarrow> n \<notin> set approval_required_names"
  "n \<in> set agent_only_names \<Longrightarrow> n \<notin> set COMPUTER_ONLY_MUTATING \<Longrightarrow> n \<notin> set approval_required_names"
  "lit ''web_research'' \<notin> set approval_required_names" "lit ''screenshot'' \<notin> set approval_required_names"
  "lit ''web_fetch'' \<notin> set approval_required_names" "lit ''look_at_screen'' \<notin> set approval_required_names"
  by (auto simp: COMPUTER_ONLY_MUTATING_def name_lists)

lemma run_read_log:
  "run_read e v n args w = (r, w') \<Longrightarrow> n \<in> set read_only_names \<Longrightarrow>
   \<exists>l. acts w' = acts w @ l \<and> (l = [] \<or> (\<exists>d. l = [Ran d] \<and> fst (deed_action d) = n))"
  by (auto simp: run_read_def dest!: do_deed_acts split: if_splits option.splits sum.splits)

lemma run_agent_only_log:
  "run_agent_only e v n args w = (r, w') \<Longrightarrow>
   \<exists>l. acts w' = acts w @ l \<and> (l = [] \<or> (\<exists>d. l = [Ran d] \<and>
     fst (deed_action d) \<in> {lit ''look_at_screen'', lit ''web_fetch'', lit ''screenshot''}))"
  by (auto simp: run_agent_only_def dest!: do_deed_acts split: if_splits)

text \<open>What a staged token confirms to, wherever the store went meanwhile.\<close>

lemma stage_Inr: "stage c ttl now t r owner s = (Inr tok, s') \<Longrightarrow>
    tok = t \<and> (\<exists>ty args. staged_action c r = Inr (ty, args) \<and> map_of (pending s') t = Some (made_record (ttl, now) (ty, args, owner)))"
  by (auto simp: stage_def put_def made_record_def Let_def split: sum.splits prod.splits)

lemma confirm_effect:
  assumes "confirm_action ex ttl now t approve requester s = (res, s')" and "keys_ok s"
  shows "keys_ok s'"
    and "effect_of res = Some (ty, args) \<Longrightarrow> approve \<and> (\<exists>r. map_of (pending s) t = Some r \<and> ty = pr_type r \<and> args = pr_args r)"
proof -
  from assms(1) have "keys_ok s' \<and> (effect_of res = Some (ty, args) \<longrightarrow>
      approve \<and> (\<exists>r. map_of (pending s) t = Some r \<and> ty = pr_type r \<and> args = pr_args r))"
  proof (cases rule: confirm_cases)
    case 1
    then show ?thesis using keys_ok_take [OF assms(2) 1(1)] by (simp add: effect_of_def)
  next
    case (2 r)
    then show ?thesis using keys_ok_take [OF assms(2) 2(1)] take_gives(1) [OF assms(2) 2(1)] by auto
  qed
  then show "keys_ok s'"
    and "effect_of res = Some (ty, args) \<Longrightarrow> approve \<and> (\<exists>r. map_of (pending s) t = Some r \<and> ty = pr_type r \<and> args = pr_args r)"
    by auto
qed

lemma confirm_staged_log:
  assumes "confirm_staged e v t approve w = (res, w')" and "keys_ok (store w)"
  shows "keys_ok (store w') \<and> (\<exists>l. acts w' = acts w @ l
    \<and> (l = [] \<or> approve \<and> (\<exists>d r. l = [Confirmed t d] \<and> map_of (pending (store w)) t = Some r
          \<and> deed_action d = (pr_type r, pr_args r))))"
proof -
  obtain ans s where c: "confirm_action (routed e) (token_ttl e) (clock v (outside w)) t approve (Some (user e)) (store w) = (ans, s)"
    by fastforce
  note eff = confirm_effect [OF c assms(2)]
  have deed: ?thesis if "do_deed v (Confirmed t) d (w\<lparr>store := s\<rparr>) = (res, w')" "effect_of ans = Some (deed_action d)" for d
  proof -
    have "store w' = s" using that(1) by (auto simp: do_deed_def log_act_def split: prod.splits)
    then show ?thesis
      using do_deed_acts [OF that(1)] eff(1) eff(2) [of "fst (deed_action d)" "snd (deed_action d)"] that(2)
      by (auto simp: prod_eq_iff)
  qed
  show ?thesis
  proof (cases ans)
    case (Forwarded ty args)
    then show ?thesis using deed [of "OnAgent ty args"] assms(1) c by (simp add: confirm_staged_def Let_def effect_of_def)
  next
    case (RanLocally ty args)
    then show ?thesis using deed [of "OnServer ty args"] assms(1) c by (simp add: confirm_staged_def Let_def effect_of_def)
  qed (use assms(1) c eff(1) in \<open>auto simp: confirm_staged_def Let_def\<close>)
qed

lemma await_approval_log:
  assumes "await_approval e v t w = (res, w')" and "respectful v" and "keys_ok (store w)"
    and "map_of (pending (store w)) t = Some r"
  shows "keys_ok (store w') \<and> (\<exists>b l. acts w' = acts w @ Answered t b # l
    \<and> (l = [] \<or> b \<and> (\<exists>d. l = [Confirmed t d] \<and> deed_action d = (pr_type r, pr_args r))))"
proof -
  obtain b o' where b: "browser v t (outside w) = (b, o')" by fastforce
  define w1 where "w1 = log_act (Answered t b) (w\<lparr>outside := o', store := others v o' (store w)\<rparr>)"
  have acts1: "acts w1 = acts w @ [Answered t b]" by (simp add: w1_def log_act_def)
  have "store w1 = others v o' (store w)" by (simp add: w1_def log_act_def)
  then have ok1: "keys_ok (store w1)" and rec1: "\<And>q. map_of (pending (store w1)) t = Some q \<Longrightarrow> q = r"
    using respectfulD [OF assms(2,3)] assms(4) by (fastforce simp: dhas_map_of)+
  obtain out w2 where c: "confirm_staged e v t b w1 = (out, w2)" by fastforce
  have "w2 = w'" using assms(1) b c
    by (cases b) (auto simp: await_approval_def w1_def Let_def split: option.splits prod.splits)
  then show ?thesis using confirm_staged_log [OF c ok1] rec1 acts1 by auto
qed

lemma run_mutating_log:
  assumes "run_mutating e v n args w = (tok, res, w')" and "respectful v" and "keys_ok (store w)"
  shows "keys_ok (store w') \<and> (\<exists>l. acts w' = acts w @ l \<and> (l = [] \<or> staged_log e l))"
proof (cases "request_of e n args")
  case None
  then show ?thesis using assms by (simp add: run_mutating_def)
next
  case (Some r)
  obtain a s where st: "stage (ck e) (token_ttl e) (clock v (outside w)) (new_token v (outside w)) r (Some (user e)) (store w) = (a, s)"
    by fastforce
  show ?thesis
  proof (cases a)
    case (Inl x)
    then have "s = store w" using st by (auto simp: stage_def split: sum.splits prod.splits)
    then show ?thesis using assms Some st Inl by (cases x) (auto simp: run_mutating_def)
  next
    case (Inr t)
    then obtain ty ar where ty: "staged_action (ck e) r = Inr (ty, ar)"
      "map_of (pending s) t = Some (made_record (token_ttl e, clock v (outside w)) (ty, ar, Some (user e)))"
      using stage_Inr st by blast
    have oks: "keys_ok s" using st Inr ty(1) assms(3) pending_box.ok_issue [of "store w" "(token_ttl e, clock v (outside w))" t "(ty, ar, Some (user e))"]
      by (auto simp: stage_def)
    define w1 where "w1 = log_act (StagedAct t r) (w\<lparr>store := s\<rparr>)"
    have w1: "acts w1 = acts w @ [StagedAct t r]" "store w1 = s" by (simp_all add: w1_def log_act_def)
    show ?thesis
    proof (cases "mode e = lit ''auto''")
      case True
      then have "confirm_staged e v t True w1 = (res, w')"
        using assms(1) Some st Inr by (simp add: run_mutating_def w1_def Let_def)
      from confirm_staged_log [OF this] show ?thesis using w1 oks ty True
        by (fastforce simp: staged_log_def made_record_def)
    next
      case False
      then have "await_approval e v t w1 = (res, w')"
        using assms(1) Some st Inr by (simp add: run_mutating_def w1_def Let_def)
      from await_approval_log [OF this assms(2)] show ?thesis using w1 oks ty
        by (fastforce simp: staged_log_def made_record_def)
    qed
  qed
qed

text \<open>Every call, whatever its name and arguments: its log is one of the allowed ones.\<close>

lemma execute_call_log:
  assumes "execute_call e v n args w = (tok, res, w')" and "respectful v" and "keys_ok (store w)"
  shows "keys_ok (store w') \<and> (\<exists>l. acts w' = acts w @ l \<and> call_log e l)"
proof -
  have deed: "store w'' = store w" if "do_deed v how d w = (r, w'')" for how d r w''
    using that by (auto simp: do_deed_def log_act_def split: prod.splits)
  consider (research) "n = lit ''web_research''" | (nothing) "w' = w"
    | (read) "n \<in> set read_only_names" "run_read e v n args w = (res, w')"
    | (agent) "run_agent_only e v n args w = (res, w')"
    | (data) "n \<in> set ALL_DATA_TOOLS" "w' = log_act (DataCall n args) (w\<lparr>outside := snd (data_tool v n args (outside w))\<rparr>)"
    | (change) tok' where "run_mutating e v n args w = (tok', res, w')"
    using assms(1) by (auto simp: execute_call_def split: if_splits prod.splits)
  then show ?thesis
  proof cases
    case research
    then have "do_deed v Ran (Research args) w = (res, w')" using assms(1) by (simp add: execute_call_def)
    from do_deed_acts [OF this] deed [OF this] show ?thesis
      using assms(3) no_approval_names(3) by (auto simp: call_log_def)
  next
    case nothing
    then show ?thesis using assms(3) by (simp add: call_log_def)
  next
    case read
    have "store w' = store w" using read(2) deed by (auto simp: run_read_def split: if_splits option.splits sum.splits)
    then show ?thesis using run_read_log [OF read(2,1)] no_approval_names(1) [OF read(1)] assms(3)
      by (auto simp: call_log_def)
  next
    case agent
    have "store w' = store w" using agent deed by (auto simp: run_agent_only_def split: if_splits)
    then show ?thesis using run_agent_only_log [OF agent] no_approval_names(4-6) assms(3)
      by (auto simp: call_log_def)
  next
    case data
    then show ?thesis using assms(3) by (auto simp: call_log_def log_act_def)
  next
    case change
    from run_mutating_log [OF this assms(2,3)] show ?thesis by (auto simp: call_log_def)
  qed
qed

end
