(* ===== verification/SubAgents.thy ===== *)
theory SubAgents
  imports Dispatch
begin

text \<open>
  The read-only sub-agents: the explorer (\<open>core/harness_explore.py\<close>) and the steps of a fan-out
  (\<open>core/harness_fanout.py\<close>). Their loops are the same code over different tools and limits, so one
  loop is modelled with the differences as a record. A loop that never ends is the value \<open>None\<close>.
  The steps of a fan-out run one after the other here; in the source they take turns where they
  await. Events on the bus are not modelled.
\<close>

section \<open>Replies of the router\<close>

datatype route_failure = NoCredentialsLeft | ClientFailure int json | NobodyLeft | OtherFailure

text \<open>\<open>route_request_detailed\<close> with the messages, the names of the tools offered (\<open>None\<close>: none), and the
  request id of the answer.\<close>

type_synonym 'w asker = "pydict list \<Rightarrow> ustr list option \<Rightarrow> 'w \<Rightarrow> (route_failure + json \<times> ustr) \<times> 'w"

datatype reply = Broken | NoMessage | Message pydict

fun reply_of :: "json \<Rightarrow> reply" where
  "reply_of (JObj d) = (case py_or (dget d (lit ''choices'')) (JList []) of
       JList [] \<Rightarrow> NoMessage
     | JList (JObj c # _) \<Rightarrow> (case dget c (lit ''message'') of JObj m \<Rightarrow> Message m | _ \<Rightarrow> NoMessage)
     | _ \<Rightarrow> Broken)"
| "reply_of _ = Broken"

text \<open>\<open>message.get("tool_calls") or []\<close>; \<open>None\<close> where going through it raises.\<close>

definition reply_calls :: "pydict \<Rightarrow> json list option" where
  "reply_calls m = (case py_or (dget m (lit ''tool_calls'')) (JList []) of JList cs \<Rightarrow> Some cs | _ \<Rightarrow> None)"

record call_in =
  ci_id :: json
  ci_name :: ustr
  ci_args :: json

text \<open>One call of a reply: its name, and its arguments, \<open>JNull\<close> when they do not parse. A name that is a
  list or an object counts as one that raises.\<close>

definition parse_args :: "tool_env \<Rightarrow> json \<Rightarrow> json" where
  "parse_args e raw = (case py_or raw (JStr (lit ''{}'')) of
       JStr s \<Rightarrow> (case parse_json e s of Some v \<Rightarrow> v | None \<Rightarrow> JNull)
     | JObj d \<Rightarrow> JObj d
     | JList xs \<Rightarrow> (case dict_of e xs of Some d \<Rightarrow> JObj d | None \<Rightarrow> JNull)
     | _ \<Rightarrow> JNull)"

definition parse_call :: "tool_env \<Rightarrow> json \<Rightarrow> json \<Rightarrow> call_in option" where
  "parse_call e fresh_id call = (case call of
       JObj c \<Rightarrow>
         (case py_or (dget c (lit ''function'')) (JObj []) of
            JObj f \<Rightarrow>
              (case py_or (dget f (lit ''name'')) (JStr []) of
                 JList _ \<Rightarrow> None
               | JObj _ \<Rightarrow> None
               | nm \<Rightarrow> Some \<lparr>ci_id = py_or (dget c (lit ''id'')) fresh_id, ci_name = py_str (repr e) nm,
                              ci_args = parse_args e (dget f (lit ''arguments''))\<rparr>)
          | _ \<Rightarrow> None)
     | _ \<Rightarrow> None)"

definition tool_message :: "json \<Rightarrow> pydict \<Rightarrow> pydict" where
  "tool_message call_id doc = [(lit ''role'', JStr (lit ''tool'')), (lit ''tool_call_id'', call_id),
     (lit ''content'', JStr (dumps False (JObj doc)))]"

definition system_note :: "ustr \<Rightarrow> pydict" where
  "system_note text = [(lit ''role'', JStr (lit ''system'')), (lit ''content'', JStr text)]"

text \<open>The guard against repeated calls: the trailing key and how often it came in a row.\<close>

definition count_repeat :: "ustr \<Rightarrow> ustr option \<times> nat \<Rightarrow> ustr option \<times> nat" where
  "count_repeat key r = (if fst r = Some key then (fst r, Suc (snd r)) else (Some key, 1))"

section \<open>The loop of a sub-agent\<close>

record sub_agent =
  sa_tools :: "ustr list"
  sa_data :: bool
  sa_limit :: nat
  sa_repeat :: nat
  sa_budget :: nat
  sa_fresh :: "nat \<Rightarrow> ustr"

record 'w sub_state =
  ss_full :: "pydict list"
  ss_calls :: nat
  ss_iteration :: nat
  ss_repeat :: "ustr option \<times> nat"
  ss_tripped :: bool
  ss_scene :: "'w scene"

datatype sub_result = Raised | Summary ustr nat

definition truncate_words :: "ustr \<Rightarrow> nat \<Rightarrow> ustr" where
  "truncate_words text budget = (let ws = words_from [] text in
     if length ws \<le> budget then join [32] ws else join [32] (take budget ws) @ [8230])"

definition sub_execute ::
  "sub_agent \<Rightarrow> tool_env \<Rightarrow> 'w services \<Rightarrow> call_in \<Rightarrow> 'w scene \<Rightarrow> pydict option \<times> 'w scene" where
  "sub_execute a e v c w = (case ci_args c of
       JObj args \<Rightarrow>
         if ci_name c \<notin> set (sa_tools a) then (Some (status_doc ''error''), w)
         else if sa_data a then
           (case data_tool v (ci_name c) args (outside w) of
              (r, o') \<Rightarrow> (map_option fst r, log_act (DataCall (ci_name c) args) (w\<lparr>outside := o'\<rparr>)))
         else (case run_read e v (ci_name c) args w of (r, w') \<Rightarrow> (map_option fst r, w'))
     | _ \<Rightarrow> (Some (status_doc ''error''), w))"

text \<open>The calls of one reply, in order; \<open>None\<close>: an exception, with the scene it left.\<close>

fun sub_calls ::
  "sub_agent \<Rightarrow> tool_env \<Rightarrow> 'w services \<Rightarrow> json list \<Rightarrow> 'w sub_state \<Rightarrow> bool \<times> 'w sub_state" where
  "sub_calls a e v [] s = (True, s)"
| "sub_calls a e v (call # calls) s =
     (case parse_call e (JStr (sa_fresh a (ss_iteration s))) call of
        None \<Rightarrow> (False, s)
      | Some c \<Rightarrow>
          (case sub_execute a e v c (ss_scene s) of
             (None, w) \<Rightarrow> (False, s\<lparr>ss_scene := w\<rparr>)
           | (Some doc, w) \<Rightarrow>
               let r = count_repeat (call_key (ci_name c) (ci_args c)) (ss_repeat s) in
               sub_calls a e v calls (s\<lparr>ss_scene := w, ss_repeat := r,
                 ss_tripped := ss_tripped s \<or> sa_repeat a \<le> snd r,
                 ss_full := ss_full s @ [tool_message (ci_id c) doc]\<rparr>)))"

definition budget_note :: ustr where
  "budget_note = lit ''Search budget exhausted - report what you found, no more tool calls.''"

definition repeat_note :: ustr where
  "repeat_note = lit ''Same tool call repeated - report what you found, no more tool calls.''"

definition closing :: "sub_agent \<Rightarrow> 'w sub_state \<Rightarrow> bool" where
  "closing a s \<longleftrightarrow> sa_limit a < ss_iteration s \<or> ss_tripped s"

text \<open>One round: over with a result, or on with the next state.\<close>

definition sub_round ::
  "sub_agent \<Rightarrow> tool_env \<Rightarrow> 'w services \<Rightarrow> 'w asker \<Rightarrow> 'w sub_state \<Rightarrow> sub_result \<times> 'w scene + 'w sub_state" where
  "sub_round a e v ask s =
     (let full = (if closing a s
            then ss_full s @ [system_note (if sa_limit a < ss_iteration s then budget_note else repeat_note)]
            else ss_full s)
      in case ask full (if closing a s then None else Some (sa_tools a)) (outside (ss_scene s)) of
           (out, o') \<Rightarrow>
             let s1 = s\<lparr>ss_full := full, ss_calls := Suc (ss_calls s), ss_scene := (ss_scene s)\<lparr>outside := o'\<rparr>\<rparr> in
             (case out of
                Inl _ \<Rightarrow> Inl (Raised, ss_scene s1)
              | Inr (body, _) \<Rightarrow>
                  (case reply_of body of
                     Message m \<Rightarrow>
                       (case reply_calls m of
                          None \<Rightarrow> Inl (Raised, ss_scene s1)
                        | Some [] \<Rightarrow> Inl (Summary (truncate_words
                            (py_str (repr e) (py_or (dget m (lit ''content'')) (JStr []))) (sa_budget a))
                            (ss_calls s1), ss_scene s1)
                        | Some calls \<Rightarrow>
                            (case sub_calls a e v calls (s1\<lparr>ss_full := ss_full s1 @ [m]\<rparr>) of
                               (False, s2) \<Rightarrow> Inl (Raised, ss_scene s2)
                             | (True, s2) \<Rightarrow> Inr (s2\<lparr>ss_iteration := Suc (ss_iteration s2)\<rparr>)))
                   | _ \<Rightarrow> Inl (Raised, ss_scene s1))))"

partial_function (option) sub_loop ::
  "sub_agent \<Rightarrow> tool_env \<Rightarrow> 'w services \<Rightarrow> 'w asker \<Rightarrow> 'w sub_state \<Rightarrow> (sub_result \<times> 'w scene) option" where
  "sub_loop a e v ask s = (case sub_round a e v ask s of
     Inl r \<Rightarrow> Some r | Inr s' \<Rightarrow> sub_loop a e v ask s')"

definition sub_start :: "pydict list \<Rightarrow> 'w scene \<Rightarrow> 'w sub_state" where
  "sub_start full w = \<lparr>ss_full = full, ss_calls = 0, ss_iteration = 0, ss_repeat = (None, 0), ss_tripped = False, ss_scene = w\<rparr>"

section \<open>The explorer\<close>

definition EXPLORE_MAX_ITERATIONS :: nat where "EXPLORE_MAX_ITERATIONS = 8"
definition EXPLORE_REPEAT_LIMIT :: nat where "EXPLORE_REPEAT_LIMIT = 3"
definition EXPLORE_WORD_BUDGET :: nat where "EXPLORE_WORD_BUDGET = 300"

definition explorer :: sub_agent where
  "explorer = \<lparr>sa_tools = explore_names, sa_data = False, sa_limit = EXPLORE_MAX_ITERATIONS,
     sa_repeat = EXPLORE_REPEAT_LIMIT, sa_budget = EXPLORE_WORD_BUDGET, sa_fresh = (\<lambda>i. lit ''explore_'' @ dec (int i))\<rparr>"

text \<open>\<open>prompt\<close> is \<open>EXPLORE_SYSTEM_PROMPT\<close>.\<close>

definition user_message :: "ustr \<Rightarrow> pydict" where
  "user_message text = [(lit ''role'', JStr (lit ''user'')), (lit ''content'', JStr text)]"

definition run_explore ::
  "tool_env \<Rightarrow> 'w services \<Rightarrow> 'w asker \<Rightarrow> ustr \<Rightarrow> ustr \<Rightarrow> 'w scene \<Rightarrow> (sub_result \<times> 'w scene) option" where
  "run_explore e v ask prompt task w =
     sub_loop explorer e v ask (sub_start [user_message task, system_note prompt] w)"

section \<open>The fan-out\<close>

definition FANOUT_MAX_WIDTH :: nat where "FANOUT_MAX_WIDTH = 4"
definition FANOUT_MAX_ITERATIONS :: nat where "FANOUT_MAX_ITERATIONS = 4"
definition FANOUT_REPEAT_LIMIT :: nat where "FANOUT_REPEAT_LIMIT = 3"
definition FANOUT_FINDINGS_BUDGET :: nat where "FANOUT_FINDINGS_BUDGET = 150"
definition FANOUT_TRIGGER_READS :: nat where "FANOUT_TRIGGER_READS = 6"
definition FANOUT_TRIGGER_PLANES :: nat where "FANOUT_TRIGGER_PLANES = 2"

definition SCOUT_AGENT :: agent where
  "SCOUT_AGENT = \<lparr>ag_name = lit ''scout'', ag_tools = explore_names\<rparr>"

definition LIBRARIAN_AGENT :: agent where
  "LIBRARIAN_AGENT = \<lparr>ag_name = lit ''librarian'', ag_tools = data_read_names\<rparr>"

definition FANOUT_AGENTS :: "(ustr \<times> agent) list" where
  "FANOUT_AGENTS = map (\<lambda>a. (ag_name a, a)) [SCOUT_AGENT, LIBRARIAN_AGENT]"

definition plane_of :: "ustr \<Rightarrow> ustr option" where
  "plane_of name =
     (if name = lit ''web_fetch'' \<or> name = lit ''screenshot'' then Some (lit ''agent'')
      else if name \<in> set (ag_tools LIBRARIAN_AGENT) then Some (lit ''data'')
      else if name \<in> set (ag_tools SCOUT_AGENT) then Some (lit ''machine'') else None)"

record plan_step =
  ps_id :: ustr
  ps_agent :: ustr
  ps_objective :: ustr

definition valid_step :: "json \<Rightarrow> plan_step option" where
  "valid_step step = (case step of
       JObj d \<Rightarrow>
         (case (dget d (lit ''id''), dget d (lit ''agent''), dget d (lit ''objective'')) of
            (JStr i, JStr a, JStr ob) \<Rightarrow>
              if i \<noteq> [] \<and> dhas FANOUT_AGENTS a \<and> ob \<noteq> [] then Some \<lparr>ps_id = i, ps_agent = a, ps_objective = ob\<rparr> else None
          | _ \<Rightarrow> None)
     | _ \<Rightarrow> None)"

definition validate_plan :: "json \<Rightarrow> plan_step list" where
  "validate_plan plan = (case plan of
       JObj d \<Rightarrow> (case dget d (lit ''steps'') of JList steps \<Rightarrow> List.map_filter valid_step steps | _ \<Rightarrow> [])
     | _ \<Rightarrow> [])"

definition parse_plan_text :: "tool_env \<Rightarrow> ustr \<Rightarrow> plan_step list" where
  "parse_plan_text e text =
     (let raw = strip text;
          fence = lit ''```'';
          body = (if is_prefix fence raw then
              (let ls = splitlines_from [] False raw;
                   ls1 = (case ls of l # rest \<Rightarrow> if is_prefix fence l then rest else ls | [] \<Rightarrow> []);
                   ls2 = rev (dropWhile (\<lambda>l. strip l = fence) (rev ls1))
               in strip (join [10] ls2))
            else raw)
      in if body = [] then validate_plan (JObj [])
         else (case parse_json e body of Some plan \<Rightarrow> validate_plan plan | None \<Rightarrow> []))"

definition sub_agent_of :: "plan_step \<Rightarrow> sub_agent" where
  "sub_agent_of step =
     (let librarian = (ps_agent step = lit ''librarian'') in
      \<lparr>sa_tools = ag_tools (if librarian then LIBRARIAN_AGENT else SCOUT_AGENT), sa_data = librarian,
        sa_limit = FANOUT_MAX_ITERATIONS, sa_repeat = FANOUT_REPEAT_LIMIT, sa_budget = FANOUT_FINDINGS_BUDGET,
        sa_fresh = (\<lambda>i. lit ''fanout_'' @ ps_id step @ lit ''_'' @ dec (int i))\<rparr>)"

text \<open>\<open>run_step\<close>; \<open>prompt\<close> is \<open>_step_prompt\<close> of the step.\<close>

definition run_step ::
  "tool_env \<Rightarrow> 'w services \<Rightarrow> 'w asker \<Rightarrow> (plan_step \<Rightarrow> ustr) \<Rightarrow> plan_step \<Rightarrow> 'w scene \<Rightarrow> (sub_result \<times> 'w scene) option" where
  "run_step e v ask prompt step w = sub_loop (sub_agent_of step) e v ask
     (sub_start [user_message (ps_objective step), system_note (prompt step)] w)"

fun run_steps ::
  "tool_env \<Rightarrow> 'w services \<Rightarrow> 'w asker \<Rightarrow> (plan_step \<Rightarrow> ustr) \<Rightarrow> plan_step list \<Rightarrow> 'w scene
     \<Rightarrow> (sub_result list \<times> 'w scene) option" where
  "run_steps e v ask prompt [] w = Some ([], w)"
| "run_steps e v ask prompt (st # sts) w = (case run_step e v ask prompt st w of
     None \<Rightarrow> None
   | Some (r, w1) \<Rightarrow> (case run_steps e v ask prompt sts w1 of None \<Rightarrow> None | Some (rs, w2) \<Rightarrow> Some (r # rs, w2)))"

fun finding_line :: "plan_step \<Rightarrow> sub_result \<Rightarrow> ustr option" where
  "finding_line st Raised = None"
| "finding_line st (Summary text n) = (if text = [] then None
     else Some (lit ''['' @ ps_id st @ lit '' via '' @ ps_agent st @ lit ''] '' @ text))"

fun calls_spent :: "sub_result \<Rightarrow> nat" where
  "calls_spent Raised = 0"
| "calls_spent (Summary text n) = n"

text \<open>\<open>run_fanout\<close>: the planner's call, at most four steps, their findings merged; \<open>planner\<close> gives its two messages.\<close>

definition run_fanout ::
  "tool_env \<Rightarrow> 'w services \<Rightarrow> 'w asker \<Rightarrow> (ustr \<Rightarrow> pydict list) \<Rightarrow> (plan_step \<Rightarrow> ustr) \<Rightarrow> ustr \<Rightarrow> 'w scene
     \<Rightarrow> (sub_result \<times> 'w scene) option" where
  "run_fanout e v ask planner prompt task w =
     (case ask (planner task) None (outside w) of
        (out, o') \<Rightarrow>
          let w1 = w\<lparr>outside := o'\<rparr> in
          (case out of
             Inl _ \<Rightarrow> Some (Raised, w1)
           | Inr (body, _) \<Rightarrow>
               (case reply_of body of
                  Message m \<Rightarrow>
                    let steps = take FANOUT_MAX_WIDTH
                          (parse_plan_text e (py_str (repr e) (py_or (dget m (lit ''content'')) (JStr []))))
                    in (case run_steps e v ask prompt steps w1 of
                          None \<Rightarrow> None
                        | Some (rs, w2) \<Rightarrow> Some (Summary (join [10] (List.map_filter (\<lambda>(st, r). finding_line st r) (zip steps rs)))
                            (1 + sum_list (map calls_spent rs)), w2))
                | _ \<Rightarrow> Some (Raised, w1))))"

section \<open>Reading only\<close>

definition read_act :: "sub_agent \<Rightarrow> act \<Rightarrow> bool" where
  "read_act a x = (case x of
       Ran d \<Rightarrow> \<not> sa_data a \<and> fst (deed_action d) \<in> set (sa_tools a)
     | DataCall n args \<Rightarrow> sa_data a \<and> n \<in> set (sa_tools a)
     | _ \<Rightarrow> False)"

definition reader :: "sub_agent \<Rightarrow> bool" where
  "reader a \<longleftrightarrow> (if sa_data a then set (sa_tools a) \<subseteq> set data_read_names else set (sa_tools a) \<subseteq> set explore_names)"

text \<open>\<open>reads a w w'\<close>: from one scene to the other only reads were done and nothing was staged.\<close>

definition reads :: "sub_agent \<Rightarrow> 'w scene \<Rightarrow> 'w scene \<Rightarrow> bool" where
  "reads a w w' \<longleftrightarrow> store w' = store w \<and> (\<exists>l. acts w' = acts w @ l \<and> list_all (read_act a) l)"

lemma reads_refl: "store w' = store w \<Longrightarrow> acts w' = acts w \<Longrightarrow> reads a w w'"
  by (simp add: reads_def)

lemma reads_trans: "reads a w w' \<Longrightarrow> reads a w' w'' \<Longrightarrow> reads a w w''"
  by (auto simp: reads_def)

lemma reads_outside [simp]: "reads a w (w'\<lparr>outside := o'\<rparr>) = reads a w w'" "reads a (w\<lparr>outside := o'\<rparr>) w' = reads a w w'"
  by (simp_all add: reads_def)

lemma explore_read_only: "set explore_names \<subseteq> set read_only_names"
  by (simp add: explore_names_def)

lemma run_read_store: "run_read e v n args w = (r, w') \<Longrightarrow> store w' = store w"
  by (auto simp: run_read_def do_deed_def log_act_def split: if_splits option.splits sum.splits prod.splits)

lemma sub_execute_reads:
  assumes "sub_execute a e v c w = (r, w')" and "reader a"
  shows "reads a w w'"
proof -
  consider "w' = w" | args where "ci_name c \<in> set (sa_tools a)" "sa_data a"
      "w' = log_act (DataCall (ci_name c) args) (w\<lparr>outside := snd (data_tool v (ci_name c) args (outside w))\<rparr>)"
    | args r' where "ci_name c \<in> set (sa_tools a)" "\<not> sa_data a" "run_read e v (ci_name c) args w = (r', w')"
  proof (cases "ci_args c")
    case (JObj args)
    then show thesis
      using assms(1) that(1) that(2) [of args] that(3) [of args]
      by (auto simp: sub_execute_def split: if_splits prod.splits)
  qed (use assms(1) that(1) in \<open>simp_all add: sub_execute_def\<close>)
  then show ?thesis
  proof cases
    case 3
    then have "ci_name c \<in> set read_only_names" using assms(2) explore_read_only by (auto simp: reader_def)
    from run_read_log [OF 3(3) this] run_read_store [OF 3(3)] show ?thesis using 3
      by (auto simp: reads_def read_act_def)
  qed (simp_all add: reads_def read_act_def log_act_def)
qed

lemma sub_calls_reads:
  "sub_calls a e v calls s = (b, s') \<Longrightarrow> reader a \<Longrightarrow>
   reads a (ss_scene s) (ss_scene s') \<and> ss_calls s' = ss_calls s \<and> ss_iteration s' = ss_iteration s"
proof (induction calls arbitrary: s)
  case Nil
  then show ?case by (auto intro: reads_refl)
next
  case (Cons call calls)
  show ?case
  proof (cases "parse_call e (JStr (sa_fresh a (ss_iteration s))) call")
    case None
    then show ?thesis using Cons by (auto intro: reads_refl)
  next
    case call: (Some c)
    obtain r w where x: "sub_execute a e v c (ss_scene s) = (r, w)" by fastforce
    have r1: "reads a (ss_scene s) w" using sub_execute_reads [OF x] Cons by blast
    show ?thesis
    proof (cases r)
      case None
      then show ?thesis using Cons call x r1 by auto
    next
      case (Some doc)
      define q where "q = count_repeat (call_key (ci_name c) (ci_args c)) (ss_repeat s)"
      define s1 where "s1 = s\<lparr>ss_scene := w, ss_repeat := q, ss_tripped := ss_tripped s \<or> sa_repeat a \<le> snd q,
        ss_full := ss_full s @ [tool_message (ci_id c) doc]\<rparr>"
      have "sub_calls a e v calls s1 = (b, s')" using Cons.prems(1) call x Some by (simp add: s1_def q_def Let_def)
      from Cons.IH [OF this Cons.prems(2)] show ?thesis using r1 reads_trans by (auto simp: s1_def)
    qed
  qed
qed

text \<open>A provider that answers with text when no tools are offered.\<close>

definition obliging :: "'w asker \<Rightarrow> bool" where
  "obliging ask \<longleftrightarrow> (\<forall>ms o'. case fst (ask ms None o') of
     Inr (body, i) \<Rightarrow> (case reply_of body of Message m \<Rightarrow> reply_calls m = Some [] | _ \<Rightarrow> True)
   | Inl _ \<Rightarrow> True)"

lemma sub_round_cases:
  assumes "reader a"
  shows "case sub_round a e v ask s of
      Inl (r, w) \<Rightarrow> reads a (ss_scene s) w \<and> calls_spent r \<le> Suc (ss_calls s)
    | Inr s' \<Rightarrow> reads a (ss_scene s) (ss_scene s') \<and> ss_calls s' = Suc (ss_calls s)
        \<and> ss_iteration s' = Suc (ss_iteration s) \<and> (obliging ask \<longrightarrow> \<not> closing a s)"
proof -
  define full where "full = (if closing a s
      then ss_full s @ [system_note (if sa_limit a < ss_iteration s then budget_note else repeat_note)] else ss_full s)"
  obtain out o' where ask: "ask full (if closing a s then None else Some (sa_tools a)) (outside (ss_scene s)) = (out, o')"
    by fastforce
  define s1 where "s1 = s\<lparr>ss_full := full, ss_calls := Suc (ss_calls s), ss_scene := (ss_scene s)\<lparr>outside := o'\<rparr>\<rparr>"
  have s1: "reads a (ss_scene s) (ss_scene s1)" "ss_calls s1 = Suc (ss_calls s)" "ss_iteration s1 = ss_iteration s"
    by (simp_all add: s1_def reads_refl)
  note round = sub_round_def [of a e v ask s, unfolded full_def [symmetric] Let_def ask prod.case, folded s1_def]
  have stop: "reads a (ss_scene s) (ss_scene s1) \<and> calls_spent Raised \<le> Suc (ss_calls s)" using s1 by simp
  show ?thesis
  proof (cases "\<exists>body i m c cs. out = Inr (body, i) \<and> reply_of body = Message m \<and> reply_calls m = Some (c # cs)")
    case False
    then show ?thesis unfolding round using s1 stop
      by (auto split: sum.splits prod.splits reply.splits option.splits list.splits)
  next
    case True
    then obtain body i m c cs where r: "out = Inr (body, i)" "reply_of body = Message m" "reply_calls m = Some (c # cs)" by blast
    obtain b s2 where calls: "sub_calls a e v (c # cs) (s1\<lparr>ss_full := ss_full s1 @ [m]\<rparr>) = (b, s2)" by fastforce
    note c2 = sub_calls_reads [OF calls assms]
    have "\<not> closing a s" if "obliging ask"
    proof
      assume "closing a s"
      then have "fst (ask full None (outside (ss_scene s))) = Inr (body, i)" using ask r(1) by simp
      moreover have "case fst (ask full None (outside (ss_scene s))) of
          Inr (body, i) \<Rightarrow> (case reply_of body of Message m \<Rightarrow> reply_calls m = Some [] | _ \<Rightarrow> True) | Inl _ \<Rightarrow> True"
        using that unfolding obliging_def by blast
      ultimately show False using r by simp
    qed
    then show ?thesis unfolding round using r calls c2 s1 reads_trans [of a "ss_scene s" "ss_scene s1" "ss_scene s2"]
      by (cases b) (auto simp del: sub_calls.simps)
  qed
qed

lemma sub_loop_reads:
  assumes "sub_loop a e v ask s = Some p" and "reader a"
  shows "reads a (ss_scene s) (snd p)"
proof -
  have "reader a \<longrightarrow> reads a (ss_scene s) (snd p)"
  proof (rule sub_loop.raw_induct [of "\<lambda>a e v ask s p. reader a \<longrightarrow> reads a (ss_scene s) (snd p)", OF _ assms(1)], rule impI)
    fix f a e v ask s p
    assume IH: "\<And>a e v ask s p. f a e v ask s = Some p \<Longrightarrow> reader a \<longrightarrow> reads a (ss_scene s) (snd p)"
      and f: "(case sub_round a e v ask s of Inl r \<Rightarrow> Some r | Inr s' \<Rightarrow> f a e v ask s') = Some p" and a: "reader a"
    note round = sub_round_cases [OF a, where e = e and v = v and ask = ask and s = s]
    show "reads a (ss_scene s) (snd p)"
    proof (cases "sub_round a e v ask s")
      case (Inl r)
      then show ?thesis using round f by (auto split: prod.splits)
    next
      case (Inr s')
      then have "f a e v ask s' = Some p" using f by simp
      from IH [OF this] show ?thesis using round Inr a reads_trans by auto
    qed
  qed
  then show ?thesis using assms(2) by blast
qed

lemma sub_loop_ends:
  assumes "obliging ask" and "reader a" and "ss_iteration s \<le> Suc (sa_limit a)"
  shows "\<exists>r w. sub_loop a e v ask s = Some (r, w) \<and> reads a (ss_scene s) w
    \<and> calls_spent r + ss_iteration s \<le> ss_calls s + sa_limit a + 2"
  using assms(3)
proof (induction "Suc (sa_limit a) - ss_iteration s" arbitrary: s rule: less_induct)
  case less
  note round = sub_round_cases [OF assms(2), where e = e and v = v and ask = ask and s = s]
  show ?case
  proof (cases "sub_round a e v ask s")
    case (Inl p)
    then obtain r w where p: "p = (r, w)" by fastforce
    then have "reads a (ss_scene s) w \<and> calls_spent r \<le> Suc (ss_calls s)" using round Inl by simp
    then show ?thesis using Inl p less.prems by (subst sub_loop.simps) simp
  next
    case (Inr s')
    then have s': "reads a (ss_scene s) (ss_scene s')" "ss_calls s' = Suc (ss_calls s)"
      "ss_iteration s' = Suc (ss_iteration s)" "\<not> closing a s" using round assms(1) by simp_all
    then have bound: "ss_iteration s \<le> sa_limit a" by (simp add: closing_def)
    obtain r w where "sub_loop a e v ask s' = Some (r, w)" "reads a (ss_scene s') w"
        "calls_spent r + ss_iteration s' \<le> ss_calls s' + sa_limit a + 2"
    proof -
      have "Suc (sa_limit a) - ss_iteration s' < Suc (sa_limit a) - ss_iteration s" "ss_iteration s' \<le> Suc (sa_limit a)"
        using s'(3) bound by simp_all
      from less.hyps [OF this] show thesis using that by blast
    qed
    then show ?thesis using Inr s' reads_trans by (subst sub_loop.simps) fastforce
  qed
qed

lemma reader_agents: "reader explorer" "reader (sub_agent_of st)"
  by (auto simp: reader_def explorer_def sub_agent_of_def Let_def LIBRARIAN_AGENT_def SCOUT_AGENT_def)

lemma run_explore_ends:
  assumes "obliging ask"
  shows "\<exists>r w'. run_explore e v ask prompt task w = Some (r, w') \<and> reads explorer w w' \<and> calls_spent r \<le> 10"
proof -
  let ?s = "sub_start [user_message task, system_note prompt] w"
  obtain r w' where "sub_loop explorer e v ask ?s = Some (r, w')" "reads explorer (ss_scene ?s) w'"
      "calls_spent r + ss_iteration ?s \<le> ss_calls ?s + sa_limit explorer + 2"
    using sub_loop_ends [OF assms reader_agents(1), where s = ?s and e = e and v = v] by (auto simp: sub_start_def)
  then show ?thesis by (auto simp: run_explore_def sub_start_def explorer_def EXPLORE_MAX_ITERATIONS_def)
qed

lemma run_step_ends:
  assumes "obliging ask"
  shows "\<exists>r w'. run_step e v ask prompt st w = Some (r, w') \<and> reads (sub_agent_of st) w w' \<and> calls_spent r \<le> 6"
proof -
  let ?s = "sub_start [user_message (ps_objective st), system_note (prompt st)] w"
  obtain r w' where "sub_loop (sub_agent_of st) e v ask ?s = Some (r, w')" "reads (sub_agent_of st) (ss_scene ?s) w'"
      "calls_spent r + ss_iteration ?s \<le> ss_calls ?s + sa_limit (sub_agent_of st) + 2"
    using sub_loop_ends [OF assms reader_agents(2) [of st], where s = ?s and e = e and v = v] by (auto simp: sub_start_def)
  then show ?thesis by (auto simp: run_step_def sub_start_def sub_agent_of_def Let_def FANOUT_MAX_ITERATIONS_def)
qed

lemma run_steps_end:
  assumes "obliging ask"
  shows "\<exists>rs w'. run_steps e v ask prompt sts w = Some (rs, w') \<and> length rs = length sts
    \<and> sum_list (map calls_spent rs) \<le> 6 * length sts \<and> store w' = store w
    \<and> (\<exists>l. acts w' = acts w @ l \<and> list_all (\<lambda>x. list_ex (\<lambda>st. read_act (sub_agent_of st) x) sts) l)"
proof (induction sts arbitrary: w)
  case (Cons st sts)
  obtain r w1 where r: "run_step e v ask prompt st w = Some (r, w1)" "reads (sub_agent_of st) w w1" "calls_spent r \<le> 6"
    using run_step_ends [OF assms] by blast
  obtain rs w2 l where rs: "run_steps e v ask prompt sts w1 = Some (rs, w2)" "length rs = length sts"
      "sum_list (map calls_spent rs) \<le> 6 * length sts" "store w2 = store w1" "acts w2 = acts w1 @ l"
      "list_all (\<lambda>x. list_ex (\<lambda>st. read_act (sub_agent_of st) x) sts) l" using Cons.IH by blast
  obtain k where "acts w1 = acts w @ k" "list_all (read_act (sub_agent_of st)) k" "store w1 = store w"
    using r(2) by (auto simp: reads_def)
  then show ?case using r rs by (auto simp: list_all_iff)
qed simp

text \<open>Any read of a sub-agent: a machine read, or a data read.\<close>

definition sub_read :: "act \<Rightarrow> bool" where
  "sub_read x = (case x of
       Ran d \<Rightarrow> fst (deed_action d) \<in> set explore_names
     | DataCall n args \<Rightarrow> n \<in> set data_read_names
     | _ \<Rightarrow> False)"

lemma read_act_sub_read: "reader a \<Longrightarrow> read_act a x \<Longrightarrow> sub_read x"
  by (auto simp: read_act_def sub_read_def reader_def split: act.splits if_splits)

definition sub_reads :: "'w scene \<Rightarrow> 'w scene \<Rightarrow> bool" where
  "sub_reads w w' \<longleftrightarrow> store w' = store w \<and> (\<exists>l. acts w' = acts w @ l \<and> list_all sub_read l)"

lemma reads_sub_reads: "reader a \<Longrightarrow> reads a w w' \<Longrightarrow> sub_reads w w'"
  using read_act_sub_read by (auto simp: reads_def sub_reads_def list_all_iff)

lemma sub_reads_trans: "sub_reads w w' \<Longrightarrow> sub_reads w' w'' \<Longrightarrow> sub_reads w w''"
  by (auto simp: sub_reads_def)

lemma run_explore_reads: "run_explore e v ask prompt task w = Some p \<Longrightarrow> sub_reads w (snd p)"
  using sub_loop_reads [of explorer e v ask _ p] reads_sub_reads reader_agents(1)
  by (fastforce simp: run_explore_def sub_start_def)

lemma run_steps_reads: "run_steps e v ask prompt sts w = Some p \<Longrightarrow> sub_reads w (snd p)"
proof (induction sts arbitrary: w p)
  case Nil
  then show ?case by (auto simp: sub_reads_def)
next
  case (Cons st sts)
  then obtain r w1 rs w2 where r: "run_step e v ask prompt st w = Some (r, w1)"
      "run_steps e v ask prompt sts w1 = Some (rs, w2)" "p = (r # rs, w2)"
    by (auto split: option.splits prod.splits)
  have "sub_reads w w1"
    using sub_loop_reads [OF r(1) [unfolded run_step_def] reader_agents(2)] reads_sub_reads [OF reader_agents(2)]
    by (fastforce simp: sub_start_def)
  then show ?case using Cons.IH [OF r(2)] r(3) sub_reads_trans by auto
qed

lemma run_fanout_reads: "run_fanout e v ask planner prompt task w = Some p \<Longrightarrow> sub_reads w (snd p)"
proof -
  assume f: "run_fanout e v ask planner prompt task w = Some p"
  obtain out o' where ask: "ask (planner task) None (outside w) = (out, o')" by fastforce
  have here: "sub_reads w (w\<lparr>outside := o'\<rparr>)" by (simp add: sub_reads_def)
  have "snd p = w\<lparr>outside := o'\<rparr> \<or> (\<exists>sts rs. run_steps e v ask prompt sts (w\<lparr>outside := o'\<rparr>) = Some (rs, snd p))"
    using f ask by (auto simp: run_fanout_def Let_def split: sum.splits prod.splits reply.splits option.splits)
  then show ?thesis using run_steps_reads here sub_reads_trans by fastforce
qed

lemma run_fanout_ends:
  assumes "obliging ask"
  shows "\<exists>r w2. run_fanout e v ask planner step_prompt task w = Some (r, w2) \<and> calls_spent r \<le> 25"
proof -
  obtain out o' where ask: "ask (planner task) None (outside w) = (out, o')" by fastforce
  show ?thesis
  proof (cases "\<exists>body i m. out = Inr (body, i) \<and> reply_of body = Message m")
    case True
    then obtain body i m where m: "out = Inr (body, i)" "reply_of body = Message m" by blast
    define sts where "sts = take FANOUT_MAX_WIDTH (parse_plan_text e (py_str (repr e) (py_or (dget m (lit ''content'')) (JStr []))))"
    obtain rs w' where rs: "run_steps e v ask step_prompt sts (w\<lparr>outside := o'\<rparr>) = Some (rs, w')"
        "sum_list (map calls_spent rs) \<le> 6 * length sts" using run_steps_end [OF assms] by blast
    have "length sts \<le> 4" by (simp add: sts_def FANOUT_MAX_WIDTH_def)
    then show ?thesis using rs ask m by (auto simp: run_fanout_def Let_def sts_def)
  qed (use ask in \<open>auto simp: run_fanout_def Let_def split: sum.split reply.split\<close>)
qed


abbreviation message_reply :: "pydict \<Rightarrow> json" where
  "message_reply m \<equiv> JObj [(lit ''choices'', JList [JObj [(lit ''message'', JObj m)]])]"

abbreviation call_entry :: "ustr \<Rightarrow> json" where
  "call_entry name \<equiv> JObj [(lit ''id'', JStr name),
     (lit ''function'', JObj [(lit ''name'', JStr name), (lit ''arguments'', JStr (lit ''{}''))])]"

lemma dget_cons: "dget ((k, v) # d) k' = (if k' = k then v else dget d k')"
  by (simp add: dget_def)

lemma dget_nil: "dget [] k = JNull"
  by (simp add: dget_def)

lemmas dict_simps = dget_cons dget_nil py_or_def


text \<open>
  The limits alone do not bound a loop: when a provider answers with a tool call though none is
  offered, the closing round executes it and asks again, and the search never returns.\<close>

definition stubborn :: "'w asker" where
  "stubborn ms offered o' = (Inr (message_reply [(lit ''tool_calls'', JList [call_entry (lit ''x'')])], []), o')"

lemma sub_round_goes_on:
  assumes ask: "\<And>ms offered o'. ask ms offered o' = (Inr (body, i), o')"
    and r: "reply_of body = Message m" "reply_calls m = Some (c # cs)"
    and calls: "\<And>t. fst (sub_calls a e v (c # cs) t)"
  shows "\<exists>s'. sub_round a e v ask s = Inr s'"
proof -
  define full where "full = (if closing a s
      then ss_full s @ [system_note (if sa_limit a < ss_iteration s then budget_note else repeat_note)] else ss_full s)"
  define s1 where "s1 = s\<lparr>ss_full := full, ss_calls := Suc (ss_calls s), ss_scene := (ss_scene s)\<lparr>outside := outside (ss_scene s)\<rparr>\<rparr>"
  note round = sub_round_def [of a e v ask s, unfolded full_def [symmetric] Let_def
      ask [of full "if closing a s then None else Some (sa_tools a)" "outside (ss_scene s)"] prod.case, folded s1_def]
  obtain t' where "sub_calls a e v (c # cs) (s1\<lparr>ss_full := ss_full s1 @ [m]\<rparr>) = (True, t')"
    using calls [of "s1\<lparr>ss_full := ss_full s1 @ [m]\<rparr>"] by (cases "sub_calls a e v (c # cs) (s1\<lparr>ss_full := ss_full s1 @ [m]\<rparr>)") simp
  then show ?thesis using r round by (simp del: sub_calls.simps)
qed

lemma stubborn_round: "\<exists>s'. sub_round explorer e v stubborn s = Inr s'"
proof (rule sub_round_goes_on)
  show "stubborn ms offered o' = (Inr (message_reply [(lit ''tool_calls'', JList [call_entry (lit ''x'')])], []), o')"
    for ms offered and o' by (rule stubborn_def)
  show "reply_of (message_reply [(lit ''tool_calls'', JList [call_entry (lit ''x'')])])
      = Message [(lit ''tool_calls'', JList [call_entry (lit ''x'')])]"
    by (simp add: dict_simps)
  show "reply_calls [(lit ''tool_calls'', JList [call_entry (lit ''x'')])] = Some [call_entry (lit ''x'')]"
    by (simp add: dict_simps reply_calls_def)
  have "lit ''x'' \<notin> set explore_names" by (simp add: explore_names_eq)
  then have x: "sub_execute explorer e v \<lparr>ci_id = JStr (lit ''x''), ci_name = lit ''x'', ci_args = args\<rparr> w
      = (Some (status_doc ''error''), w)" for args :: json and w
    by (cases args) (simp_all add: sub_execute_def explorer_def)
  have "parse_call e fr (call_entry (lit ''x'')) = Some \<lparr>ci_id = JStr (lit ''x''), ci_name = lit ''x'',
      ci_args = parse_args e (JStr (lit ''{}''))\<rparr>" for fr
    by (simp add: parse_call_def dict_simps)
  then show "fst (sub_calls explorer e v [call_entry (lit ''x'')] t)" for t
    by (simp add: x Let_def)
qed

lemma stubborn_search_never_ends: "run_explore e v stubborn prompt task w = None"
proof -
  have no: "sub_loop a e v ask s = Some p \<Longrightarrow> a = explorer \<and> ask = stubborn \<longrightarrow> False" for a e v ask s p
  proof (erule sub_loop.raw_induct [rotated], rule impI)
    fix f a e v ask s p
    assume IH: "\<And>a e v ask s p. f a e v ask s = Some p \<Longrightarrow> a = explorer \<and> ask = stubborn \<longrightarrow> False"
      and f: "(case sub_round a e v ask s of Inl r \<Rightarrow> Some r | Inr s' \<Rightarrow> f a e v ask s') = Some p"
      and a: "a = explorer \<and> ask = stubborn"
    then obtain s' where "f explorer e v stubborn s' = Some p"
      using stubborn_round [of e v s] by auto
    from IH [OF this] show False by simp
  qed
  show ?thesis unfolding run_explore_def using no [of explorer _ _ stubborn] by (meson not_None_eq)
qed

end
