(* ===== verification/Cards.thy ===== *)
theory Cards
  imports Dispatch
begin

text \<open>
  What the agent loop shows to the user and how it reads its own results
  (\<open>core/webchat_agent.py\<close>: \<open>summarize_call\<close> to \<open>_user_text\<close>): the line of a call, the detail of an
  approval card, the preview of a result, the image of a screenshot, the key of a look.
\<close>

section \<open>The line of a call\<close>

definition shown :: "tool_env \<Rightarrow> pydict \<Rightarrow> string \<Rightarrow> json \<Rightarrow> ustr" where
  "shown e args k dflt = py_str (repr e) (dget_or args (lit k) dflt)"

definition point_of :: "tool_env \<Rightarrow> pydict \<Rightarrow> string \<Rightarrow> ustr" where
  "point_of e args dflt = py_str (repr e) (py_or (dget args (lit ''control''))
     (JStr (if dget args (lit ''x'') \<noteq> JNull
        then py_str (repr e) (dget args (lit ''x'')) @ lit '','' @ py_str (repr e) (dget args (lit ''y''))
        else lit dflt)))"

definition summarize_call :: "tool_env \<Rightarrow> ustr \<Rightarrow> pydict \<Rightarrow> ustr" where
  "summarize_call e name args =
     (let s = (\<lambda>k. arg_text e args k); size = (\<lambda>k. dec (int (length (s k)))) in
      if name = lit ''execute_bash'' then lit ''Run: '' @ take 200 (s ''command'')
      else if name = lit ''write_file'' then lit ''Write '' @ s ''path'' @ lit '' ('' @ size ''content'' @ lit '' bytes)''
      else if name = lit ''edit_file'' then lit ''Edit '' @ s ''path''
      else if name = lit ''read_file'' then lit ''Read '' @ s ''path''
      else if name = lit ''list_dir'' then lit ''List '' @ s ''path''
      else if name = lit ''find_files'' then lit ''Find '' @ s ''pattern'' @ lit '' in '' @ s ''path''
      else if name = lit ''code_search'' then lit ''Search '' @ s ''pattern'' @ lit '' in '' @ s ''path''
      else if name = lit ''git_status'' \<or> name = lit ''git_diff'' \<or> name = lit ''git_log''
      then lit ''Git '' @ drop 4 name @ lit '' at '' @ s ''path''
      else if name = lit ''process_list'' then lit ''List processes''
      else if name = lit ''screenshot'' then lit ''Screenshot '' @ take 200 (s ''url'')
      else if name = lit ''web_fetch'' then lit ''Fetch '' @ take 200 (s ''url'')
      else if name = lit ''look_at_screen'' then lit ''Look at the frontmost window'' @ [39] @ lit ''s controls''
      else if name = lit ''click'' then lit ''Click '' @ point_of e args ''point''
             @ lit '' ('' @ shown e args ''button'' (JStr (lit ''left'')) @ lit '')''
      else if name = lit ''type_text'' then lit ''Type into '' @ point_of e args ''focused field''
             @ lit '' ('' @ size ''text'' @ lit '' chars)''
      else if name = lit ''press_keys'' then lit ''Press '' @ s ''keys''
      else if name = lit ''scroll'' then lit ''Scroll '' @ s ''direction'' @ lit '' x'' @ shown e args ''amount'' (JInt 3)
             @ lit '' at '' @ point_of e args ''cursor''
      else if name = lit ''drag'' then lit ''Drag between two points''
      else if name = lit ''open_app'' then lit ''Open '' @ take 100 (s ''name'')
      else if name = lit ''open_url'' then lit ''Open '' @ take 200 (s ''url'')
      else if name = lit ''web_research'' then lit ''Research: '' @ take 150 (s ''question'')
      else if name = lit ''memory_save'' then lit ''Save memory ('' @ size ''content'' @ lit '' chars)''
      else if name = lit ''memory_search'' then lit ''Search memory: '' @ take 150 (s ''query'')
      else if name = lit ''memory_list'' then lit ''List memories''
      else if name = lit ''project_create'' then lit ''Create project '' @ take 100 (s ''name'')
      else if name = lit ''project_list'' then lit ''List projects''
      else if name = lit ''task_state_set'' then lit ''Set task state '' @ take 50 (shown e args ''task_key'' (JStr (lit ''default'')))
      else if name = lit ''task_state_get'' then lit ''Get task state '' @ take 50 (shown e args ''task_key'' (JStr (lit ''default'')))
      else if name = lit ''checkpoint_create'' then lit ''Checkpoint: '' @ take 150 (s ''note'')
      else if name = lit ''todo'' then lit ''Todo '' @ take 20 (shown e args ''action'' (JStr (lit ''list'')))
      else name @ lit '' '' @ take 200 (dumps True (JObj args)))"

definition target_label :: "tool_env \<Rightarrow> ustr \<Rightarrow> json \<Rightarrow> ustr option" where
  "target_label e name args = (case args of
       JObj d \<Rightarrow>
         if name \<in> set COMPUTER_ONLY_MUTATING
         then (let l = take 120 (summarize_call e name d) in if l = [] then None else Some l)
         else None
     | _ \<Rightarrow> None)"

section \<open>The approval card\<close>

definition PREVIEW_CHARS :: nat where "PREVIEW_CHARS = 500"

definition approval_detail :: "tool_env \<Rightarrow> ustr \<Rightarrow> pydict \<Rightarrow> ustr" where
  "approval_detail e name args =
     (let s = arg_text e args in
      if name = lit ''execute_bash'' then s ''command''
      else if name = lit ''write_file'' then
        (let content = s ''content'' in
         s ''path'' @ [10] @ lit ''---'' @ [10] @ take PREVIEW_CHARS content
           @ (if PREVIEW_CHARS < length content
              then [10, 8230] @ lit '' ('' @ dec (int (length content)) @ lit '' bytes total)'' else []))
      else if name = lit ''edit_file'' then
        (let old = s ''old_string''; new = s ''new_string'' in
         (if old \<noteq> [] \<or> new \<noteq> [] then lit ''-'' @ take 200 old @ [10] @ lit ''+'' @ take 200 new else [])
           @ (if PREVIEW_CHARS < length old + length new
              then [10, 8230] @ lit '' ('' @ dec (int (length old + length new)) @ lit '' chars total)'' else []))
      else take PREVIEW_CHARS (dumps True (JObj args)))"

section \<open>Results\<close>

definition preview_doc :: "pydict \<Rightarrow> ustr" where
  "preview_doc doc = (let r = dumps False (JObj doc) in
     if PREVIEW_CHARS < length r then take PREVIEW_CHARS r @ [8230] else r)"

definition SCREENSHOT_MAX_BYTES :: int where "SCREENSHOT_MAX_BYTES = 2 * 1024 * 1024"

record image =
  im_mime :: ustr
  im_data :: ustr
  im_bytes :: int
  im_url :: ustr

definition screenshot_image :: "tool_env \<Rightarrow> pydict \<Rightarrow> image option" where
  "screenshot_image e doc =
     (if dget doc (lit ''status'') \<noteq> JStr (lit ''screenshot'') then None
      else if dget doc (lit ''mime'') \<noteq> JStr (lit ''image/png'') then None
      else (case dget doc (lit ''data_b64'') of
          JStr data \<Rightarrow>
            if data = [] then None
            else (case (case dget doc (lit ''bytes'') of JInt i \<Rightarrow> Some i | JBool b \<Rightarrow> Some (if b then 1 else 0) | _ \<Rightarrow> None) of
                Some n \<Rightarrow>
                  if n \<le> 0 \<or> SCREENSHOT_MAX_BYTES < n then None
                  else Some \<lparr>im_mime = lit ''image/png'', im_data = data, im_bytes = n, im_url = shown e doc ''url'' (JStr [])\<rparr>
              | None \<Rightarrow> None)
        | _ \<Rightarrow> None))"

text \<open>\<open>_preview_look\<close>; \<open>None\<close> where a slice of something that is neither a list nor a string raises.\<close>

definition control_line :: "tool_env \<Rightarrow> pydict \<Rightarrow> ustr option" where
  "control_line e c =
     (let f = (\<lambda>k. py_str (repr e) (dget c (lit k)));
          label = (case py_or (dget c (lit ''label'')) (JStr []) of
              JStr l \<Rightarrow> Some (take 60 l) | JList l \<Rightarrow> Some (py_str (repr e) (JList (take 60 l))) | _ \<Rightarrow> None)
      in map_option (\<lambda>l. f ''id'' @ lit '' '' @ f ''kind'' @ lit '' '' @ [34] @ l @ [34] @ lit '' @'' @ f ''x'' @ lit '','' @ f ''y'') label)"

definition preview_look :: "tool_env \<Rightarrow> pydict \<Rightarrow> ustr option" where
  "preview_look e doc =
     (if dget doc (lit ''status'') \<noteq> JStr (lit ''look'') then Some (preview_doc doc)
      else let app = py_str (repr e) (py_or (dget doc (lit ''app'')) (JStr (lit ''screen'')));
               text = (\<lambda>n head. app @ lit '' ('' @ dec (int n) @ lit '' controls)'' @ (if head = [] then [] else lit '': '' @ head));
               cut = (\<lambda>t. if PREVIEW_CHARS < length t then take PREVIEW_CHARS t @ [8230] else t)
           in (case py_or (dget doc (lit ''controls'')) (JList []) of
                 JList cs \<Rightarrow>
                   map_option (\<lambda>ls. cut (text (length cs) (join (lit ''; '') ls)))
                     (those (map (control_line e) (List.map_filter (\<lambda>c. case c of JObj d \<Rightarrow> Some d | _ \<Rightarrow> None) (take 40 cs))))
               | JStr s \<Rightarrow> Some (cut (text (length s) []))
               | _ \<Rightarrow> None))"

definition look_result_key :: "pydict \<Rightarrow> ustr option" where
  "look_result_key doc =
     (if dget doc (lit ''status'') \<noteq> JStr (lit ''look'') then None
      else Some (dumps False (sort_keys (JObj (ddel (lit ''waited_ms'') doc)))))"

definition user_text :: "pydict list \<Rightarrow> ustr" where
  "user_text ms = (case List.map_filter (\<lambda>m. if role_is m ''user'' then
        (case dget m (lit ''content'') of JStr c \<Rightarrow> if strip c \<noteq> [] then Some c else None | _ \<Rightarrow> None)
      else None) (rev ms) of [] \<Rightarrow> [] | c # _ \<Rightarrow> c)"

section \<open>What the card shows of the action\<close>

text \<open>
  The card shows the action it asks about: the whole command of a shell call, the path and the first
  500 characters of a file that is written, with a note of the rest, the beginnings of both texts of an edit
  that has them, and all arguments of a desktop action that fit in 500 characters.\<close>

lemma approval_cards_show_the_action:
  assumes "request_of e name args = Some r"
  shows "case r of
      ExecuteBash command timeout \<Rightarrow> approval_detail e name args = command
    | WriteFile path content \<Rightarrow>
        (\<exists>note. approval_detail e name args = path @ [10] @ lit ''---'' @ [10] @ take 500 content @ note
           \<and> (note = [] \<longleftrightarrow> length content \<le> 500))
    | EditFile path old new all \<Rightarrow>
        summarize_call e name args = lit ''Edit '' @ path
        \<and> (dget args (lit ''old_string'') \<noteq> JNull \<and> dget args (lit ''new_string'') \<noteq> JNull \<and> old \<noteq> [] \<longrightarrow>
            (\<exists>note. approval_detail e name args = lit ''-'' @ take 200 old @ [10] @ lit ''+'' @ take 200 new @ note))
    | Computer action args' \<Rightarrow> action = name \<and> args' = args
        \<and> (length (dumps True (JObj args)) \<le> 500 \<longrightarrow> approval_detail e name args = dumps True (JObj args))"
proof -
  have given: "text_or_empty e (dget args (lit k)) = arg_text e args k" if "dget args (lit k) \<noteq> JNull" for k
    using that by (auto simp: text_or_empty_def arg_text_def dget_def dget_or_def split: option.splits)
  consider (bash) "name = lit ''execute_bash''" | (wr) "name = lit ''write_file''" | (ed) "name = lit ''edit_file''"
    | (desk) "name \<in> set COMPUTER_TOOLS" "name \<notin> {lit ''execute_bash'', lit ''write_file'', lit ''edit_file''}"
    using assms by (auto simp: request_of_def split: if_splits)
  then show ?thesis
  proof cases
    case desk
    then show ?thesis using assms by (auto simp: request_of_def approval_detail_def PREVIEW_CHARS_def)
  next
    case ed
    then show ?thesis using assms by (auto simp: request_of_def approval_detail_def summarize_call_def given Let_def)
  qed (use assms in \<open>auto simp: request_of_def approval_detail_def PREVIEW_CHARS_def Let_def\<close>)
qed

lemmas card_simps = request_of_def approval_detail_def summarize_call_def arg_text_def text_or_empty_def
  dget_def dget_or_def Let_def

lemma approval_cards_show_the_action_witness:
  "\<forall>e. request_of e (lit ''execute_bash'') [(lit ''command'', JStr (lit ''ls''))]
     = Some (ExecuteBash (lit ''ls'') (JFloat (lit ''30.0'')))
   \<and> approval_detail e (lit ''execute_bash'') [(lit ''command'', JStr (lit ''ls''))] = lit ''ls''"
proof
  fix e
  have r: "request_of e (lit ''execute_bash'') [(lit ''command'', JStr (lit ''ls''))]
      = Some (ExecuteBash (lit ''ls'') (JFloat (lit ''30.0'')))"
    by (simp add: card_simps)
  from approval_cards_show_the_action [OF r] r
  show "request_of e (lit ''execute_bash'') [(lit ''command'', JStr (lit ''ls''))]
     = Some (ExecuteBash (lit ''ls'') (JFloat (lit ''30.0'')))
   \<and> approval_detail e (lit ''execute_bash'') [(lit ''command'', JStr (lit ''ls''))] = lit ''ls''" by simp
qed

text \<open>
  An edit whose new text is null deletes the old one, and the card shows that it puts \<open>None\<close> there.\<close>

lemma deletion_is_shown_as_None:
  assumes "repr e JNull = lit ''None''"
  defines "args \<equiv> [(lit ''path'', JStr (lit ''a'')), (lit ''old_string'', JStr (lit ''x'')), (lit ''new_string'', JNull)]"
  shows "request_of e (lit ''edit_file'') args = Some (EditFile (lit ''a'') (lit ''x'') [] False)
    \<and> approval_detail e (lit ''edit_file'') args = lit ''-x'' @ [10] @ lit ''+None''"
  using assms(1) by (simp add: args_def card_simps PREVIEW_CHARS_def lit_def)

text \<open>The card of a long text that is to be typed is the same whatever its end is, and nothing on it tells.\<close>

lemma typed_tail_is_hidden:
  "approval_detail e (lit ''type_text'') [(lit ''text'', JStr (replicate 500 97 @ s))]
   = approval_detail e (lit ''type_text'') [(lit ''text'', JStr (replicate 500 97 @ t))]"
proof -
  have plain: "concat (replicate n (escape_char True 97)) = replicate n 97" for n
    by (induction n) (simp_all add: escape_char_def)
  define start where "start = lit ''{'' @ dumps_str True (lit ''text'') @ lit '': '' @ [34] @ replicate 500 97"
  have long: "500 \<le> length start" by (simp add: start_def)
  have "dumps True (JObj [(lit ''text'', JStr (replicate 500 97 @ u))])
      = start @ concat (map (escape_char True) u) @ [34] @ lit ''}''" for u
    by (simp add: dumps_str_def plain start_def)
  then have "approval_detail e (lit ''type_text'') [(lit ''text'', JStr (replicate 500 97 @ u))] = take 500 start" for u
    using long by (simp add: approval_detail_def Let_def PREVIEW_CHARS_def del: dumps.simps)
  then show ?thesis by simp
qed

end
