(* ===== verification/AgentTurn.thy ===== *)
theory AgentTurn
  imports SubAgents Cards Pairing
begin

text \<open>
  One turn of the dashboard's agent (\<open>run_agent_turn\<close> in \<open>core/webchat_agent.py\<close>): rounds of asking the
  router and running the tool calls it wants, until it answers in text, a provider fails or an
  exception ends it. A turn that never ends is \<open>None\<close>. The generator's events are collected, each with
  what the history would hold if the client left there: the \<open>finally\<close> clause commits the turn so far.
  \<open>Asking\<close> and \<open>Saving\<close> are the two awaits that are no events, where a cancelled task stops too. The
  calls of a batch of reads run one after the other here; texts of prompts and errors, audit rows, usage
  rows and memories are left out.
\<close>

section \<open>State\<close>

definition MAX_TOOL_ITERATIONS :: nat where "MAX_TOOL_ITERATIONS = 25"
definition REPEAT_LIMIT :: nat where "REPEAT_LIMIT = 3"
definition IDENTICAL_LOOK_LIMIT :: nat where "IDENTICAL_LOOK_LIMIT = 3"
definition EXPLORE_TRIGGER_CONSECUTIVE_READS :: nat where "EXPLORE_TRIGGER_CONSECUTIVE_READS = 4"

definition READ_ONLY_BATCH_TOOLS :: "ustr list" where
  "READ_ONLY_BATCH_TOOLS = read_only_names @ agent_only_names @ data_read_names"

datatype turn_event =
    Asking
  | TokenText ustr
  | ToolCall json ustr ustr
  | ApprovalCard ustr json ustr ustr ustr
  | ToolResult json ustr bool ustr "image option"
  | TurnError "int option"
  | Saving
  | TurnDone ustr nat "ustr option" nat nat bool

record 'w turn_state =
  ts_full :: "pydict list"
  ts_turn :: "pydict list"
  ts_tools_used :: nat
  ts_target :: "ustr option"
  ts_text :: ustr
  ts_iteration :: nat
  ts_repeat :: "ustr option \<times> nat"
  ts_tripped :: bool
  ts_repeat_name :: ustr
  ts_look :: "ustr option \<times> nat"
  ts_explore_reads :: nat
  ts_fanout_reads :: nat
  ts_planes :: "ustr list"
  ts_delegated :: bool
  ts_explorer_calls :: nat
  ts_fanout_calls :: nat
  ts_scene :: "'w scene"
  ts_committed :: bool
  ts_completion :: "pydict option"
  ts_stored :: "pydict list list"
  ts_yields :: "(turn_event \<times> pydict list list) list"

text \<open>The texts of the prompts.\<close>

record prompts =
  explore_prompt :: ustr
  planner_prompt :: "ustr \<Rightarrow> pydict list"
  step_prompt :: "plan_step \<Rightarrow> ustr"
  mode_prompt :: ustr

section \<open>Committing\<close>

text \<open>The messages a finished turn appends (\<open>_persist_new_turns\<close>), and what the history holds once the turn
  has been left at this point (\<open>_persist_partial\<close>).\<close>

definition completed :: "pydict list \<Rightarrow> pydict \<Rightarrow> pydict list" where
  "completed turn m = filter (\<lambda>x. \<not> role_is x ''system'') turn @ [m]"

definition left_here :: "'w turn_state \<Rightarrow> pydict list list" where
  "left_here s = ts_stored s @ (if ts_turn s = [] \<or> ts_committed s then []
     else [case ts_completion s of None \<Rightarrow> ts_turn s | Some m \<Rightarrow> completed (ts_turn s) m])"

definition persist_partial :: "'w turn_state \<Rightarrow> 'w turn_state" where
  "persist_partial s = s\<lparr>ts_stored := left_here s, ts_committed := ts_committed s \<or> ts_turn s \<noteq> []\<rparr>"

definition emit :: "turn_event \<Rightarrow> 'w turn_state \<Rightarrow> 'w turn_state" where
  "emit ev s = s\<lparr>ts_yields := ts_yields s @ [(ev, left_here s)]\<rparr>"

section \<open>The closing note\<close>

definition unchanged_screen :: ustr where
  "unchanged_screen = lit ''look_at_screen (unchanged screen)''"

definition turn_closing :: "'w turn_state \<Rightarrow> bool" where
  "turn_closing s \<longleftrightarrow> MAX_TOOL_ITERATIONS < ts_iteration s \<or> ts_tripped s"

definition turn_note :: "'w turn_state \<Rightarrow> ustr" where
  "turn_note s =
     (if MAX_TOOL_ITERATIONS < ts_iteration s
      then lit ''Tool budget exhausted - answer the user now with what you have, no more tool calls.''
      else if ts_repeat_name s = unchanged_screen
      then lit ''The screen is unchanged across looks - answer the user now with what you have, no more tool calls.''
      else lit ''Same tool call repeated ('' @ ts_repeat_name s
        @ lit '') - answer the user now with what you have, no more tool calls.'')"

section \<open>Running the calls of a reply\<close>

definition known_tools :: "ustr list" where
  "known_tools = read_only_names @ approval_required_names @ ALL_DATA_TOOLS @ agent_only_names"

definition args_of_call :: "call_in \<Rightarrow> pydict" where
  "args_of_call c = (case ci_args c of JObj d \<Rightarrow> d | _ \<Rightarrow> [])"

definition call_event :: "tool_env \<Rightarrow> call_in \<Rightarrow> turn_event" where
  "call_event e c = ToolCall (ci_id c) (ci_name c) (summarize_call e (ci_name c) (args_of_call c))"

definition approval_event :: "tool_env \<Rightarrow> ustr \<Rightarrow> call_in \<Rightarrow> turn_event" where
  "approval_event e token c = ApprovalCard token (ci_id c) (ci_name c)
     (summarize_call e (ci_name c) (args_of_call c)) (approval_detail e (ci_name c) (args_of_call c))"

text \<open>\<open>None\<close>: an exception.\<close>

definition run_call ::
  "tool_env \<Rightarrow> 'w services \<Rightarrow> call_in \<Rightarrow> 'w turn_state \<Rightarrow> (pydict \<times> bool) option \<times> 'w turn_state" where
  "run_call e v c s = (case ci_args c of
       JObj args \<Rightarrow>
         if ci_name c \<notin> set known_tools then (Some (status_doc ''error'', False), s)
         else let s1 = emit (call_event e c) s in
           (case execute_call e v (ci_name c) args (ts_scene s1) of
              (token, res, w) \<Rightarrow>
                (res, let s2 = s1\<lparr>ts_scene := w\<rparr> in
                   (case token of None \<Rightarrow> s2 | Some t \<Rightarrow> emit (approval_event e t c) s2)))
     | _ \<Rightarrow> (Some (status_doc ''error'', False), s))"

fun run_calls ::
  "tool_env \<Rightarrow> 'w services \<Rightarrow> call_in list \<Rightarrow> 'w turn_state \<Rightarrow> (pydict \<times> bool) list option \<times> 'w turn_state" where
  "run_calls e v [] s = (Some [], s)"
| "run_calls e v (c # cs) s = (case run_call e v c s of
     (None, s1) \<Rightarrow> (None, s1)
   | (Some out, s1) \<Rightarrow> (case run_calls e v cs s1 of
       (outs, s2) \<Rightarrow> (map_option (Cons out) outs, s2)))"

text \<open>A reply of several reads: all are announced, then run. An event they would yield is swallowed.\<close>

definition parallel_reads :: "call_in list \<Rightarrow> bool" where
  "parallel_reads cs \<longleftrightarrow> 1 < length cs \<and> list_all (\<lambda>c. (case ci_args c of JObj _ \<Rightarrow> True | _ \<Rightarrow> False)
     \<and> ci_name c \<in> set READ_ONLY_BATCH_TOOLS \<and> ci_name c \<notin> set COMPUTER_ONLY_MUTATING) cs"

fun run_batch ::
  "tool_env \<Rightarrow> 'w services \<Rightarrow> call_in list \<Rightarrow> 'w turn_state \<Rightarrow> (pydict \<times> bool) list option \<times> 'w turn_state" where
  "run_batch e v [] s = (Some [], s)"
| "run_batch e v (c # cs) s = (case execute_call e v (ci_name c) (args_of_call c) (ts_scene s) of
     (token, None, w) \<Rightarrow> (None, s\<lparr>ts_scene := w\<rparr>)
   | (token, Some out, w) \<Rightarrow> (case run_batch e v cs (s\<lparr>ts_scene := w\<rparr>) of
       (outs, s2) \<Rightarrow> (map_option (Cons out) outs, s2)))"

definition run_reply ::
  "tool_env \<Rightarrow> 'w services \<Rightarrow> call_in list \<Rightarrow> 'w turn_state \<Rightarrow> (pydict \<times> bool) list option \<times> 'w turn_state" where
  "run_reply e v cs s =
     (if parallel_reads cs then run_batch e v cs (fold (\<lambda>c. emit (call_event e c)) cs s)
      else run_calls e v cs s)"

section \<open>Taking in the results\<close>

definition count_reads :: "ustr \<Rightarrow> 'w turn_state \<Rightarrow> 'w turn_state" where
  "count_reads name s = s\<lparr>
     ts_explore_reads := (if name \<in> set explore_names then Suc (ts_explore_reads s) else 0),
     ts_fanout_reads := (if plane_of name \<noteq> None then Suc (ts_fanout_reads s) else 0),
     ts_planes := (case plane_of name of Some p \<Rightarrow> List.insert p (ts_planes s) | None \<Rightarrow> [])\<rparr>"

definition guard_repeat :: "call_in \<Rightarrow> 'w turn_state \<Rightarrow> 'w turn_state" where
  "guard_repeat c s =
     (let q = count_repeat (call_key (ci_name c) (ci_args c)) (ts_repeat s); trip = REPEAT_LIMIT \<le> snd q in
      s\<lparr>ts_repeat := q, ts_tripped := ts_tripped s \<or> trip,
        ts_repeat_name := (if trip then ci_name c else ts_repeat_name s)\<rparr>)"

definition guard_look :: "ustr \<Rightarrow> pydict \<Rightarrow> 'w turn_state \<Rightarrow> 'w turn_state" where
  "guard_look name doc s =
     (if name \<noteq> lit ''look_at_screen'' then s
      else let l = (case look_result_key doc of None \<Rightarrow> (None, 0) | Some k \<Rightarrow> count_repeat k (ts_look s));
               trip = IDENTICAL_LOOK_LIMIT \<le> snd l
           in s\<lparr>ts_look := l, ts_tripped := ts_tripped s \<or> trip,
                ts_repeat_name := (if trip then unchanged_screen else ts_repeat_name s)\<rparr>)"

definition result_preview :: "tool_env \<Rightarrow> ustr \<Rightarrow> pydict \<Rightarrow> ustr option" where
  "result_preview e name doc = (case screenshot_image e doc of
       Some im \<Rightarrow> Some (lit ''screenshot of '' @ (if im_url im = [] then lit ''page'' else im_url im)
           @ lit '' ('' @ dec (im_bytes im) @ lit '' bytes) '' @ [8212] @ lit '' image attached'')
     | None \<Rightarrow> if name = lit ''look_at_screen'' then preview_look e doc else Some (preview_doc doc))"

text \<open>One result; \<open>False\<close> when its preview raises.\<close>

definition take_result ::
  "tool_env \<Rightarrow> call_in \<times> pydict \<times> bool \<Rightarrow> 'w turn_state \<Rightarrow> bool \<times> 'w turn_state" where
  "take_result e r s = (case r of (c, doc, ok) \<Rightarrow>
     let s1 = s\<lparr>ts_tools_used := Suc (ts_tools_used s),
            ts_target := (case target_label e (ci_name c) (ci_args c) of None \<Rightarrow> ts_target s | Some l \<Rightarrow> Some l)\<rparr>;
         s2 = guard_look (ci_name c) doc (guard_repeat c (count_reads (ci_name c) s1));
         m = tool_message (ci_id c) doc;
         s3 = s2\<lparr>ts_turn := ts_turn s2 @ [m], ts_full := ts_full s2 @ [m]\<rparr>
     in (case result_preview e (ci_name c) doc of
           None \<Rightarrow> (False, s3)
         | Some p \<Rightarrow> (True, emit (ToolResult (ci_id c) (ci_name c) ok p (screenshot_image e doc)) s3)))"

fun take_results ::
  "tool_env \<Rightarrow> (call_in \<times> pydict \<times> bool) list \<Rightarrow> 'w turn_state \<Rightarrow> bool \<times> 'w turn_state" where
  "take_results e [] s = (True, s)"
| "take_results e (r # rs) s = (case take_result e r s of
     (False, s1) \<Rightarrow> (False, s1) | (True, s1) \<Rightarrow> take_results e rs s1)"

section \<open>Delegation\<close>

definition add_findings :: "string \<Rightarrow> ustr \<Rightarrow> 'w turn_state \<Rightarrow> 'w turn_state" where
  "add_findings title text s =
     (if text = [] then s else s\<lparr>ts_full := ts_full s @ [system_note (lit title @ [10] @ text)]\<rparr>)"

definition delegate_explore ::
  "tool_env \<Rightarrow> 'w services \<Rightarrow> 'w asker \<Rightarrow> prompts \<Rightarrow> 'w turn_state \<Rightarrow> 'w turn_state option" where
  "delegate_explore e v ask pr s =
     (if ts_delegated s \<or> ts_explore_reads s < EXPLORE_TRIGGER_CONSECUTIVE_READS then Some s
      else let s1 = s\<lparr>ts_delegated := True, ts_explore_reads := 0\<rparr>; task = user_text (ts_full s1) in
        if task = [] then Some s1
        else (case run_explore e v ask (explore_prompt pr) task (ts_scene s1) of
            None \<Rightarrow> None
          | Some (Raised, w) \<Rightarrow> Some (s1\<lparr>ts_scene := w\<rparr>)
          | Some (Summary text n, w) \<Rightarrow> Some (add_findings ''Explorer findings (read-only search):'' text
              (s1\<lparr>ts_scene := w, ts_explorer_calls := ts_explorer_calls s1 + n\<rparr>))))"

definition delegate_fanout ::
  "tool_env \<Rightarrow> 'w services \<Rightarrow> 'w asker \<Rightarrow> prompts \<Rightarrow> 'w turn_state \<Rightarrow> 'w turn_state option" where
  "delegate_fanout e v ask pr s =
     (if ts_delegated s \<or> ts_fanout_reads s < FANOUT_TRIGGER_READS \<or> length (ts_planes s) < FANOUT_TRIGGER_PLANES
      then Some s
      else let s1 = s\<lparr>ts_delegated := True, ts_fanout_reads := 0, ts_planes := []\<rparr>; task = user_text (ts_full s1) in
        if task = [] then Some s1
        else (case run_fanout e v ask (planner_prompt pr) (step_prompt pr) task (ts_scene s1) of
            None \<Rightarrow> None
          | Some (Raised, w) \<Rightarrow> Some (s1\<lparr>ts_scene := w\<rparr>)
          | Some (Summary text n, w) \<Rightarrow> Some (add_findings ''Supervisor findings (read-only fan-out):'' text
              (s1\<lparr>ts_scene := w, ts_fanout_calls := ts_fanout_calls s1 + n\<rparr>))))"

section \<open>The turn\<close>

datatype turn_end = Replied | Failing | Broke

fun route_status :: "route_failure \<Rightarrow> int" where
  "route_status NoCredentialsLeft = 400"
| "route_status (ClientFailure status body) = status"
| "route_status NobodyLeft = 503"
| "route_status OtherFailure = 503"

definition say :: "pydict \<Rightarrow> 'w turn_state \<Rightarrow> 'w turn_state" where
  "say m s = (case dget m (lit ''content'') of
       JStr t \<Rightarrow> if t = [] then s else emit (TokenText t) (s\<lparr>ts_text := ts_text s @ t\<rparr>)
     | _ \<Rightarrow> s)"

text \<open>The final answer: it counts as part of the turn from here on, and the append that stores it is
  not shielded from a cancelled task.\<close>

definition answer :: "tool_env \<Rightarrow> pydict \<Rightarrow> 'w turn_state \<Rightarrow> 'w turn_state" where
  "answer e m s =
     (let final = [(lit ''role'', JStr (lit ''assistant'')), (lit ''content'', py_or (dget m (lit ''content'')) JNull)];
          s1 = say m (s\<lparr>ts_completion := Some final\<rparr>);
          s2 = emit Saving (s1\<lparr>ts_committed := True\<rparr>);
          s3 = s2\<lparr>ts_stored := ts_stored s2 @ [completed (ts_turn s2) final]\<rparr>
      in emit (TurnDone (ts_text s3) (ts_tools_used s3) (ts_target s3) (ts_explorer_calls s3) (ts_fanout_calls s3) (routed e)) s3)"

definition parse_calls :: "tool_env \<Rightarrow> pydict \<Rightarrow> 'w turn_state \<Rightarrow> call_in list option" where
  "parse_calls e m s = Option.bind (reply_calls m) (\<lambda>calls.
     those (map (parse_call e (JStr (lit ''call_'' @ dec (int (length (ts_turn s)))))) calls))"

text \<open>The calls of a reply, from the message that asks for them to the last result; \<open>False\<close>: an exception.\<close>

definition serve_calls :: "tool_env \<Rightarrow> 'w services \<Rightarrow> pydict \<Rightarrow> 'w turn_state \<Rightarrow> bool \<times> 'w turn_state" where
  "serve_calls e v m s =
     (let s1 = say m s; s2 = s1\<lparr>ts_turn := ts_turn s1 @ [m], ts_full := ts_full s1 @ [m]\<rparr> in
      case parse_calls e m s2 of
        None \<Rightarrow> (False, s2)
      | Some cs \<Rightarrow> (case run_reply e v cs s2 of
            (None, s3) \<Rightarrow> (False, s3)
          | (Some outs, s3) \<Rightarrow> take_results e (zip cs outs) s3))"

definition turn_round ::
  "tool_env \<Rightarrow> 'w services \<Rightarrow> 'w asker \<Rightarrow> prompts \<Rightarrow> 'w turn_state
     \<Rightarrow> (turn_end \<times> 'w turn_state + 'w turn_state) option" where
  "turn_round e v ask pr s =
     (let s0 = emit Asking (if turn_closing s then s\<lparr>ts_full := ts_full s @ [system_note (turn_note s)]\<rparr> else s);
          offered = (if turn_closing s then None else Some (webchat_names_for_mode (mode e)))
      in case ask (ts_full s0) offered (outside (ts_scene s0)) of (out, o') \<Rightarrow>
        let s1 = s0\<lparr>ts_scene := (ts_scene s0)\<lparr>outside := o'\<rparr>\<rparr> in
        (case out of
           Inl f \<Rightarrow> Some (Inl (Failing, emit (TurnError (Some (route_status f))) (persist_partial s1)))
         | Inr (body, request_id) \<Rightarrow>
             (case reply_of body of
                Broken \<Rightarrow> Some (Inl (Broke, persist_partial s1))
              | NoMessage \<Rightarrow> Some (Inl (Failing, emit (TurnError None) (persist_partial s1)))
              | Message m \<Rightarrow>
                  if reply_calls m = Some [] then Some (Inl (Replied, answer e m s1))
                  else (case serve_calls e v m s1 of
                      (False, s2) \<Rightarrow> Some (Inl (Broke, persist_partial s2))
                    | (True, s2) \<Rightarrow>
                        (case Option.bind (delegate_explore e v ask pr s2) (delegate_fanout e v ask pr) of
                           None \<Rightarrow> None
                         | Some s3 \<Rightarrow> Some (Inr (s3\<lparr>ts_iteration := Suc (ts_iteration s3)\<rparr>)))))))"

partial_function (option) turn_loop ::
  "tool_env \<Rightarrow> 'w services \<Rightarrow> 'w asker \<Rightarrow> prompts \<Rightarrow> 'w turn_state \<Rightarrow> (turn_end \<times> 'w turn_state) option" where
  "turn_loop e v ask pr s = (case turn_round e v ask pr s of
     None \<Rightarrow> None | Some (Inl r) \<Rightarrow> Some r | Some (Inr s') \<Rightarrow> turn_loop e v ask pr s')"

definition turn_start :: "ustr \<Rightarrow> pydict list \<Rightarrow> pydict list \<Rightarrow> 'w scene \<Rightarrow> 'w turn_state" where
  "turn_start prompt full_messages to_persist w =
     \<lparr>ts_full = full_messages @ [system_note prompt], ts_turn = to_persist, ts_tools_used = 0, ts_target = None,
      ts_text = [], ts_iteration = 0, ts_repeat = (None, 0), ts_tripped = False, ts_repeat_name = [],
      ts_look = (None, 0), ts_explore_reads = 0, ts_fanout_reads = 0, ts_planes = [], ts_delegated = False,
      ts_explorer_calls = 0, ts_fanout_calls = 0, ts_scene = w, ts_committed = False, ts_completion = None,
      ts_stored = [], ts_yields = []\<rparr>"

definition run_agent_turn ::
  "tool_env \<Rightarrow> 'w services \<Rightarrow> 'w asker \<Rightarrow> prompts \<Rightarrow> pydict list \<Rightarrow> pydict list \<Rightarrow> 'w scene
     \<Rightarrow> (turn_end \<times> 'w turn_state) option" where
  "run_agent_turn e v ask pr full_messages to_persist w =
     turn_loop e v ask pr (turn_start (mode_prompt pr) full_messages to_persist w)"

section \<open>What a round changes\<close>

text \<open>The scene: calls and the reads of sub-agents, one entry after the other.\<close>

definition entry :: "tool_env \<Rightarrow> act list \<Rightarrow> bool" where
  "entry e l \<longleftrightarrow> call_log e l \<or> (\<exists>x. l = [x] \<and> sub_read x)"

definition allowed :: "tool_env \<Rightarrow> 'w scene \<Rightarrow> 'w scene \<Rightarrow> bool" where
  "allowed e w w' \<longleftrightarrow> keys_ok (store w') \<and> (\<exists>ls. acts w' = acts w @ concat ls \<and> list_all (entry e) ls)"

lemma allowed_same: "keys_ok (store w) \<Longrightarrow> store w' = store w \<Longrightarrow> acts w' = acts w \<Longrightarrow> allowed e w w'"
  unfolding allowed_def by (auto intro: exI [of _ "[]"])

lemma allowed_trans: "allowed e w w' \<Longrightarrow> allowed e w' w'' \<Longrightarrow> allowed e w w''"
  unfolding allowed_def by clarsimp (metis concat_append list_all_append)

lemma allowed_keys: "allowed e w w' \<Longrightarrow> keys_ok (store w')"
  by (simp add: allowed_def)

lemma allowed_outside [simp]: "allowed e (w\<lparr>outside := o'\<rparr>) w' = allowed e w w'" "allowed e w (w'\<lparr>outside := o'\<rparr>) = allowed e w w'"
  by (simp_all add: allowed_def)

lemma allowed_call:
  assumes "execute_call e v n args w = (tok, res, w')" and "respectful v" and "keys_ok (store w)"
  shows "allowed e w w'"
proof -
  obtain l where "keys_ok (store w')" "acts w' = acts w @ l" "call_log e l"
    using execute_call_log [OF assms] by blast
  then show ?thesis unfolding allowed_def by (auto simp: entry_def intro!: exI [of _ "[l]"])
qed

lemma allowed_reads: "sub_reads w w' \<Longrightarrow> keys_ok (store w) \<Longrightarrow> allowed e w w'"
proof -
  assume "sub_reads w w'" and k: "keys_ok (store w)"
  then obtain l where "store w' = store w" "acts w' = acts w @ l" "list_all sub_read l" by (auto simp: sub_reads_def)
  then show ?thesis using k unfolding allowed_def
    by (auto simp: entry_def list_all_iff intro!: exI [of _ "map (\<lambda>x. [x]) l"])
qed

text \<open>The frame of the small steps.\<close>

lemma emit_frame [simp]:
  "ts_scene (emit ev s) = ts_scene s" "ts_turn (emit ev s) = ts_turn s" "ts_full (emit ev s) = ts_full s"
  "ts_committed (emit ev s) = ts_committed s" "ts_completion (emit ev s) = ts_completion s"
  "ts_stored (emit ev s) = ts_stored s" "ts_iteration (emit ev s) = ts_iteration s" "ts_tripped (emit ev s) = ts_tripped s"
  "ts_yields (emit ev s) = ts_yields s @ [(ev, left_here s)]" "left_here (emit ev s) = left_here s"
  by (simp_all add: emit_def left_here_def split: option.split)

lemma persist_frame [simp]:
  "ts_scene (persist_partial s) = ts_scene s" "ts_yields (persist_partial s) = ts_yields s"
  "ts_stored (persist_partial s) = left_here s" "left_here (persist_partial s) = left_here s"
  by (auto simp: persist_partial_def left_here_def)

lemma guards_frame [simp]:
  "ts_scene (count_reads n s) = ts_scene s" "ts_turn (count_reads n s) = ts_turn s" "ts_yields (count_reads n s) = ts_yields s"
  "ts_committed (count_reads n s) = ts_committed s" "ts_completion (count_reads n s) = ts_completion s"
  "ts_stored (count_reads n s) = ts_stored s" "ts_iteration (count_reads n s) = ts_iteration s"
  "ts_scene (guard_repeat c s) = ts_scene s" "ts_turn (guard_repeat c s) = ts_turn s" "ts_yields (guard_repeat c s) = ts_yields s"
  "ts_committed (guard_repeat c s) = ts_committed s" "ts_completion (guard_repeat c s) = ts_completion s"
  "ts_stored (guard_repeat c s) = ts_stored s" "ts_iteration (guard_repeat c s) = ts_iteration s"
  "ts_scene (guard_look n doc s) = ts_scene s" "ts_turn (guard_look n doc s) = ts_turn s" "ts_yields (guard_look n doc s) = ts_yields s"
  "ts_committed (guard_look n doc s) = ts_committed s" "ts_completion (guard_look n doc s) = ts_completion s"
  "ts_stored (guard_look n doc s) = ts_stored s" "ts_iteration (guard_look n doc s) = ts_iteration s"
  by (simp_all add: count_reads_def guard_repeat_def guard_look_def Let_def)

text \<open>A turn that nothing was stored of yet.\<close>

definition still_open :: "'w turn_state \<Rightarrow> bool" where
  "still_open s \<longleftrightarrow> \<not> ts_committed s \<and> ts_completion s = None \<and> ts_stored s = []"

definition as_stored :: "pydict list \<Rightarrow> pydict list list" where
  "as_stored t = (if t = [] then [] else [t])"

lemma left_open: "still_open s \<Longrightarrow> left_here s = as_stored (ts_turn s)"
  by (simp add: still_open_def left_here_def as_stored_def)

fun inner :: "turn_event \<Rightarrow> bool" where
  "inner (ToolCall i n l) = True"
| "inner (ApprovalCard t i n l d) = True"
| "inner (ToolResult i n ok p im) = True"
| "inner _ = False"

text \<open>From one state of a round to another: the turn grows, and leaving at an event stores what it had grown to.\<close>

definition advances :: "'w turn_state \<Rightarrow> 'w turn_state \<Rightarrow> bool" where
  "advances s s' \<longleftrightarrow> still_open s' \<and> ts_iteration s' = ts_iteration s \<and>
     (\<exists>l ys. ts_turn s' = ts_turn s @ l \<and> ts_yields s' = ts_yields s @ ys \<and>
        list_all (\<lambda>(ev, h). inner ev \<and> (\<exists>p. h = as_stored (ts_turn s @ p))) ys)"

lemma advances_same:
  "still_open s' \<Longrightarrow> ts_turn s' = ts_turn s \<Longrightarrow> ts_yields s' = ts_yields s \<Longrightarrow> ts_iteration s' = ts_iteration s \<Longrightarrow> advances s s'"
  by (auto simp: advances_def)

lemma advances_open: "advances s s' \<Longrightarrow> still_open s'"
  by (simp add: advances_def)

lemma advances_trans:
  assumes "advances s s'" and "advances s' s''"
  shows "advances s s''"
proof -
  obtain l ys where 1: "ts_turn s' = ts_turn s @ l" "ts_yields s' = ts_yields s @ ys"
      "list_all (\<lambda>(ev, h). inner ev \<and> (\<exists>p. h = as_stored (ts_turn s @ p))) ys" "ts_iteration s' = ts_iteration s"
    using assms(1) by (auto simp: advances_def)
  obtain l' ys' where 2: "ts_turn s'' = ts_turn s' @ l'" "ts_yields s'' = ts_yields s' @ ys'"
      "list_all (\<lambda>(ev, h). inner ev \<and> (\<exists>p. h = as_stored (ts_turn s' @ p))) ys'" "ts_iteration s'' = ts_iteration s'" "still_open s''"
    using assms(2) by (auto simp: advances_def)
  have "list_all (\<lambda>(ev, h). inner ev \<and> (\<exists>p. h = as_stored (ts_turn s @ p))) ys'"
    using 2(3) unfolding 1(1) list_all_iff by fastforce
  then show ?thesis using 1 2 by (auto simp: advances_def)
qed

lemma advances_emit: "still_open s \<Longrightarrow> inner ev \<Longrightarrow> advances s (emit ev s)"
  by (auto simp: advances_def left_open still_open_def intro: exI [of _ "[]"])

text \<open>Both together, for the parts of a round that run calls.\<close>

definition proceeds :: "tool_env \<Rightarrow> 'w turn_state \<Rightarrow> 'w turn_state \<Rightarrow> bool" where
  "proceeds e s s' \<longleftrightarrow> advances s s' \<and> allowed e (ts_scene s) (ts_scene s')"

definition ready :: "'w turn_state \<Rightarrow> bool" where
  "ready s \<longleftrightarrow> still_open s \<and> keys_ok (store (ts_scene s))"

lemma proceeds_trans: "proceeds e s s' \<Longrightarrow> proceeds e s' s'' \<Longrightarrow> proceeds e s s''"
  unfolding proceeds_def using advances_trans allowed_trans by blast

lemma proceeds_ready: "proceeds e s s' \<Longrightarrow> ready s'"
  by (auto simp: proceeds_def ready_def dest: advances_open allowed_keys)

lemma proceeds_refl: "ready s \<Longrightarrow> proceeds e s s"
  by (auto simp: proceeds_def ready_def intro: advances_same allowed_same)

lemma proceeds_emit: "ready s \<Longrightarrow> inner ev \<Longrightarrow> proceeds e s (emit ev s)"
  by (auto simp: proceeds_def ready_def intro: advances_emit allowed_same)

lemma proceeds_scene: "ready s \<Longrightarrow> allowed e (ts_scene s) w \<Longrightarrow> proceeds e s (s\<lparr>ts_scene := w\<rparr>)"
  by (auto simp: proceeds_def ready_def still_open_def intro: advances_same)

lemma inner_events [simp]: "inner (call_event e c)" "inner (approval_event e t c)"
  by (simp_all add: call_event_def approval_event_def)


lemma run_call_proceeds:
  assumes "run_call e v c s = (out, s')" and "respectful v" and "ready s"
  shows "proceeds e s s' \<and> ts_turn s' = ts_turn s"
proof (cases "\<exists>args. ci_args c = JObj args \<and> ci_name c \<in> set known_tools")
  case False
  then have "s' = s" using assms(1) by (auto simp: run_call_def split: json.splits if_splits)
  then show ?thesis using proceeds_refl [OF assms(3)] by simp
next
  case True
  then obtain args where args: "ci_args c = JObj args" "ci_name c \<in> set known_tools" by blast
  define s1 where "s1 = emit (call_event e c) s"
  obtain tok res w where x: "execute_call e v (ci_name c) args (ts_scene s1) = (tok, res, w)" by (metis prod_cases3)
  have s1: "proceeds e s s1" unfolding s1_def by (rule proceeds_emit [OF assms(3)]) simp
  have "keys_ok (store (ts_scene s1))" using proceeds_ready [OF s1] by (simp add: ready_def)
  then have s2: "proceeds e s1 (s1\<lparr>ts_scene := w\<rparr>)"
    by (intro proceeds_scene proceeds_ready [OF s1] allowed_call [OF x assms(2)])
  have s': "s' = (case tok of None \<Rightarrow> s1\<lparr>ts_scene := w\<rparr> | Some t \<Rightarrow> emit (approval_event e t c) (s1\<lparr>ts_scene := w\<rparr>))"
    using assms(1) args x by (auto simp: run_call_def s1_def Let_def split: option.splits)
  have "proceeds e (s1\<lparr>ts_scene := w\<rparr>) s'"
    unfolding s' by (cases tok) (auto intro: proceeds_refl proceeds_emit proceeds_ready [OF s2])
  moreover have "ts_turn s' = ts_turn s" unfolding s' s1_def by (cases tok) simp_all
  ultimately show ?thesis using s1 s2 proceeds_trans by blast
qed

lemma run_calls_proceeds:
  "run_calls e v cs s = (outs, s') \<Longrightarrow> respectful v \<Longrightarrow> ready s \<Longrightarrow>
   proceeds e s s' \<and> ts_turn s' = ts_turn s \<and> (\<forall>os. outs = Some os \<longrightarrow> length os = length cs)"
proof (induction cs arbitrary: s outs s')
  case Nil
  then show ?case by (auto intro: proceeds_refl)
next
  case (Cons c cs)
  obtain out s1 where c: "run_call e v c s = (out, s1)" by fastforce
  note p1 = run_call_proceeds [OF c Cons.prems(2,3)]
  show ?case
  proof (cases out)
    case None
    then show ?thesis using Cons.prems(1) c p1 by auto
  next
    case (Some d)
    obtain outs2 s2 where r: "run_calls e v cs s1 = (outs2, s2)" by fastforce
    have "ready s1" using p1 proceeds_ready by blast
    note Cons.IH [OF r Cons.prems(2) this]
    then show ?thesis using Cons.prems(1) c Some r p1 proceeds_trans by fastforce
  qed
qed

lemma run_batch_proceeds:
  "run_batch e v cs s = (outs, s') \<Longrightarrow> respectful v \<Longrightarrow> ready s \<Longrightarrow>
   proceeds e s s' \<and> ts_turn s' = ts_turn s \<and> (\<forall>os. outs = Some os \<longrightarrow> length os = length cs)"
proof (induction cs arbitrary: s outs s')
  case Nil
  then show ?case by (auto intro: proceeds_refl)
next
  case (Cons c cs)
  obtain tok out w where x: "execute_call e v (ci_name c) (args_of_call c) (ts_scene s) = (tok, out, w)" by (metis prod_cases3)
  have "keys_ok (store (ts_scene s))" using Cons.prems(3) by (simp add: ready_def)
  then have p1: "proceeds e s (s\<lparr>ts_scene := w\<rparr>)"
    by (intro proceeds_scene Cons.prems(3) allowed_call [OF x Cons.prems(2)])
  show ?case
  proof (cases out)
    case None
    then show ?thesis using Cons.prems(1) x p1 by auto
  next
    case (Some d)
    obtain outs2 s2 where r: "run_batch e v cs (s\<lparr>ts_scene := w\<rparr>) = (outs2, s2)" by fastforce
    note Cons.IH [OF r Cons.prems(2) proceeds_ready [OF p1]]
    then show ?thesis using Cons.prems(1) x Some r p1 proceeds_trans by fastforce
  qed
qed

lemma announce_proceeds:
  "ready s \<Longrightarrow> proceeds e s (fold (\<lambda>c. emit (call_event e c)) cs s) \<and> ts_turn (fold (\<lambda>c. emit (call_event e c)) cs s) = ts_turn s"
proof (induction cs arbitrary: s)
  case Nil
  then show ?case by (simp add: proceeds_refl)
next
  case (Cons c cs)
  have p: "proceeds e s (emit (call_event e c) s)" by (rule proceeds_emit [OF Cons.prems]) simp
  from Cons.IH [OF proceeds_ready [OF p]] show ?case using proceeds_trans [OF p] by simp
qed

lemma run_reply_proceeds:
  assumes "run_reply e v cs s = (outs, s')" and "respectful v" and "ready s"
  shows "proceeds e s s' \<and> ts_turn s' = ts_turn s \<and> (\<forall>os. outs = Some os \<longrightarrow> length os = length cs)"
proof (cases "parallel_reads cs")
  case True
  let ?a = "fold (\<lambda>c. emit (call_event e c)) cs s"
  have a: "proceeds e s ?a" "ts_turn ?a = ts_turn s" using announce_proceeds [OF assms(3)] by blast+
  have "run_batch e v cs ?a = (outs, s')" using assms(1) True by (simp add: run_reply_def)
  from run_batch_proceeds [OF this assms(2) proceeds_ready [OF a(1)]] a show ?thesis using proceeds_trans by auto
next
  case False
  then show ?thesis using run_calls_proceeds assms by (simp add: run_reply_def)
qed

definition result_message :: "call_in \<times> pydict \<times> bool \<Rightarrow> pydict" where
  "result_message r = tool_message (ci_id (fst r)) (fst (snd r))"

lemma take_result_proceeds:
  assumes "take_result e r s = (b, s')" and "ready s"
  shows "proceeds e s s' \<and> ts_turn s' = ts_turn s @ [result_message r]"
proof -
  obtain c doc ok where r: "r = (c, doc, ok)" by (metis prod_cases3)
  define m where "m = tool_message (ci_id c) doc"
  define s2 where "s2 = guard_look (ci_name c) doc (guard_repeat c (count_reads (ci_name c)
      (s\<lparr>ts_tools_used := Suc (ts_tools_used s),
         ts_target := (case target_label e (ci_name c) (ci_args c) of None \<Rightarrow> ts_target s | Some l \<Rightarrow> Some l)\<rparr>)))"
  define s3 where "s3 = s2\<lparr>ts_turn := ts_turn s2 @ [m], ts_full := ts_full s2 @ [m]\<rparr>"
  have s3: "ts_turn s3 = ts_turn s @ [m]" "ts_yields s3 = ts_yields s" "ts_iteration s3 = ts_iteration s"
      "ts_scene s3 = ts_scene s" "still_open s3"
    using assms(2) by (simp_all add: s3_def s2_def still_open_def ready_def)
  have "advances s s3" using s3 by (auto simp: advances_def)
  then have p3: "proceeds e s s3" using s3(4) assms(2) by (auto simp: proceeds_def ready_def intro: allowed_same)
  have s': "s' = s3 \<or> (\<exists>p im. s' = emit (ToolResult (ci_id c) (ci_name c) ok p im) s3)"
    using assms(1) r by (auto simp: take_result_def Let_def s3_def s2_def m_def split: option.splits)
  have "proceeds e s3 s'" using s' proceeds_refl proceeds_emit proceeds_ready [OF p3] by fastforce
  then show ?thesis using p3 proceeds_trans s' s3(1) by (auto simp: result_message_def r m_def)
qed

lemma take_results_proceeds:
  "take_results e rs s = (b, s') \<Longrightarrow> ready s \<Longrightarrow>
   proceeds e s s' \<and> (b \<longrightarrow> ts_turn s' = ts_turn s @ map result_message rs)"
proof (induction rs arbitrary: s)
  case Nil
  then show ?case by (auto intro: proceeds_refl)
next
  case (Cons r rs)
  obtain b1 s1 where r: "take_result e r s = (b1, s1)" by fastforce
  note p1 = take_result_proceeds [OF r Cons.prems(2)]
  show ?case
  proof (cases b1)
    case True
    then have "take_results e rs s1 = (b, s')" using Cons.prems(1) r by simp
    moreover have "ready s1" using p1 proceeds_ready by blast
    ultimately show ?thesis using Cons.IH p1 proceeds_trans by fastforce
  qed (use Cons.prems(1) r p1 in auto)
qed

lemma add_findings_frame [simp]:
  "ts_scene (add_findings t x s) = ts_scene s" "ts_turn (add_findings t x s) = ts_turn s" "ts_yields (add_findings t x s) = ts_yields s"
  "ts_iteration (add_findings t x s) = ts_iteration s" "still_open (add_findings t x s) = still_open s"
  by (simp_all add: add_findings_def still_open_def)

text \<open>A delegation leaves the turn and the events alone; sub-agents only read.\<close>

definition same_turn :: "'w turn_state \<Rightarrow> 'w turn_state \<Rightarrow> bool" where
  "same_turn s s' \<longleftrightarrow> ts_turn s' = ts_turn s \<and> ts_yields s' = ts_yields s \<and> ts_iteration s' = ts_iteration s
     \<and> still_open s' = still_open s"

lemma delegation_proceeds:
  assumes "ready s" and "sub_reads (ts_scene s) (ts_scene s')" and "same_turn s s'"
  shows "proceeds e s s' \<and> ts_turn s' = ts_turn s"
  using assms allowed_reads by (auto simp: proceeds_def ready_def same_turn_def intro: advances_same)

lemma sub_reads_refl: "sub_reads w w"
  by (auto simp: sub_reads_def)

lemma delegate_explore_proceeds:
  assumes "delegate_explore e v ask pr s = Some s'" and "ready s"
  shows "proceeds e s s' \<and> ts_turn s' = ts_turn s"
proof (rule delegation_proceeds [OF assms(2)])
  define s1 where "s1 = s\<lparr>ts_delegated := True, ts_explore_reads := 0\<rparr>"
  have s1: "same_turn s s1" "ts_scene s1 = ts_scene s" by (simp_all add: s1_def same_turn_def still_open_def)
  have set: "same_turn s (s1\<lparr>ts_scene := w\<rparr>)" "same_turn s (s1\<lparr>ts_scene := w, ts_explorer_calls := n\<rparr>)" for w n
    using s1(1) by (simp_all add: same_turn_def still_open_def)
  consider "s' = s" | "s' = s1" | r w where
      "run_explore e v ask (explore_prompt pr) (user_text (ts_full s1)) (ts_scene s1) = Some (r, w)"
      "s' = (case r of Raised \<Rightarrow> s1\<lparr>ts_scene := w\<rparr> | Summary text n \<Rightarrow> add_findings ''Explorer findings (read-only search):'' text
              (s1\<lparr>ts_scene := w, ts_explorer_calls := ts_explorer_calls s1 + n\<rparr>))"
    using assms(1) unfolding delegate_explore_def s1_def [symmetric] Let_def
    by (auto split: if_splits option.splits sub_result.splits)
  then have "sub_reads (ts_scene s) (ts_scene s') \<and> same_turn s s'"
  proof cases
    case 3
    from run_explore_reads [OF 3(1)] show ?thesis using s1(2) set 3(2)
      by (cases r) (simp_all add: same_turn_def)
  qed (use s1 in \<open>simp_all add: sub_reads_refl same_turn_def\<close>)
  then show "sub_reads (ts_scene s) (ts_scene s')" "same_turn s s'" by blast+
qed

lemma delegate_fanout_proceeds:
  assumes "delegate_fanout e v ask pr s = Some s'" and "ready s"
  shows "proceeds e s s' \<and> ts_turn s' = ts_turn s"
proof (rule delegation_proceeds [OF assms(2)])
  define s1 where "s1 = s\<lparr>ts_delegated := True, ts_fanout_reads := 0, ts_planes := []\<rparr>"
  have s1: "same_turn s s1" "ts_scene s1 = ts_scene s" by (simp_all add: s1_def same_turn_def still_open_def)
  have set: "same_turn s (s1\<lparr>ts_scene := w\<rparr>)" "same_turn s (s1\<lparr>ts_scene := w, ts_fanout_calls := n\<rparr>)" for w n
    using s1(1) by (simp_all add: same_turn_def still_open_def)
  consider "s' = s" | "s' = s1" | r w where
      "run_fanout e v ask (planner_prompt pr) (step_prompt pr) (user_text (ts_full s1)) (ts_scene s1) = Some (r, w)"
      "s' = (case r of Raised \<Rightarrow> s1\<lparr>ts_scene := w\<rparr> | Summary text n \<Rightarrow> add_findings ''Supervisor findings (read-only fan-out):'' text
              (s1\<lparr>ts_scene := w, ts_fanout_calls := ts_fanout_calls s1 + n\<rparr>))"
    using assms(1) unfolding delegate_fanout_def s1_def [symmetric] Let_def
    by (auto split: if_splits option.splits sub_result.splits)
  then have "sub_reads (ts_scene s) (ts_scene s') \<and> same_turn s s'"
  proof cases
    case 3
    from run_fanout_reads [OF 3(1)] show ?thesis using s1(2) set 3(2)
      by (cases r) (simp_all add: same_turn_def)
  qed (use s1 in \<open>simp_all add: sub_reads_refl same_turn_def\<close>)
  then show "sub_reads (ts_scene s) (ts_scene s')" "same_turn s s'" by blast+
qed

section \<open>Calls and their results\<close>

text \<open>The assistant message of a provider that numbers its calls.\<close>

definition well_called :: "pydict \<Rightarrow> bool" where
  "well_called m \<longleftrightarrow> role_is m ''assistant'' \<and> calls_ok m \<and> distinct (call_ids m)"

definition careful :: "'w asker \<Rightarrow> bool" where
  "careful ask \<longleftrightarrow> (\<forall>ms offered o'. case fst (ask ms offered o') of
     Inr (body, i) \<Rightarrow> (case reply_of body of Message m \<Rightarrow> well_called m | _ \<Rightarrow> True)
   | Inl _ \<Rightarrow> True)"

lemma role_unique: "role_is m ''assistant'' \<Longrightarrow> \<not> role_is m ''tool''" "role_is m ''tool'' \<Longrightarrow> \<not> role_is m ''system''"
  "role_is m ''assistant'' \<Longrightarrow> \<not> role_is m ''system''"
  using role_is_unique by blast+

lemma takeWhile_append_stop: "xs = [] \<or> \<not> P (hd xs) \<Longrightarrow> takeWhile P (ys @ xs) = takeWhile P ys
    \<and> dropWhile P (ys @ xs) = dropWhile P ys @ xs"
  by (induction ys) (cases xs; auto)+

lemma exactly_paired_head: "exactly_paired xs \<Longrightarrow> xs = [] \<or> \<not> role_is (hd xs) ''tool''"
  by (cases xs) auto

lemma exactly_paired_append: "exactly_paired xs \<Longrightarrow> exactly_paired ys \<Longrightarrow> exactly_paired (xs @ ys)"
proof (induction xs rule: exactly_paired.induct)
  case (2 m ms)
  have stop: "takeWhile (\<lambda>t. role_is t ''tool'') (ms @ ys) = takeWhile (\<lambda>t. role_is t ''tool'') ms"
      "dropWhile (\<lambda>t. role_is t ''tool'') (ms @ ys) = dropWhile (\<lambda>t. role_is t ''tool'') ms @ ys"
    using takeWhile_append_stop [of ys "\<lambda>t. role_is t ''tool''" ms] exactly_paired_head [OF 2(3)] by auto
  show ?case using 2 by (simp add: stop)
qed simp

lemma result_message_simps [simp]: "role_is (result_message r) ''tool''" "result_id (result_message r) = ci_id (fst r)"
  by (simp_all add: result_message_def tool_message_def role_is_def result_id_def dict_simps)

lemma parse_call_id: "parse_call e fresh call = Some c \<Longrightarrow> \<exists>d. call = JObj d \<and> ci_id c = py_or (dget d (lit ''id'')) fresh"
  by (auto simp: parse_call_def split: json.splits)

lemma those_Some: "those xs = Some ys \<Longrightarrow> xs = map Some ys"
  by (induction xs arbitrary: ys) (auto split: option.splits)

lemma parsed_ids:
  "map (parse_call e fresh) calls = map Some cs \<Longrightarrow>
   list_all (\<lambda>c. case c of JObj d \<Rightarrow> truthy (dget d (lit ''id'')) | _ \<Rightarrow> False) calls \<Longrightarrow> map ci_id cs = json_ids calls"
proof (induction calls arbitrary: cs)
  case (Cons call calls)
  then obtain c cs' where "cs = c # cs'" by (cases cs) auto
  then show ?case using Cons parse_call_id [of e fresh call c] by (fastforce simp: py_or_def)
qed simp

text \<open>Paired messages none of which is a system message.\<close>

definition clean :: "pydict list \<Rightarrow> bool" where
  "clean ms \<longleftrightarrow> exactly_paired ms \<and> list_all (\<lambda>x. \<not> role_is x ''system'') ms"

lemma clean_append: "clean xs \<Longrightarrow> clean ys \<Longrightarrow> clean (xs @ ys)"
  by (simp add: clean_def exactly_paired_append)

lemma round_is_paired:
  assumes "well_called m" and "parse_calls e m s = Some cs" and "length outs = length cs"
  shows "clean (m # map result_message (zip cs outs))"
proof -
  obtain calls where calls: "reply_calls m = Some calls"
      "those (map (parse_call e (JStr (lit ''call_'' @ dec (int (length (ts_turn s)))))) calls) = Some cs"
    using assms(2) by (auto simp: parse_calls_def bind_eq_Some_conv)
  define rs where "rs = zip cs outs"
  have fst_rs: "map fst rs = cs" using assms(3) by (simp add: rs_def)
  have ids: "map ci_id cs = call_ids m"
  proof (cases "truthy (dget m (lit ''tool_calls''))")
    case True
    then have "dget m (lit ''tool_calls'') = JList calls" using calls(1)
      by (auto simp: reply_calls_def py_or_def split: json.splits)
    then show ?thesis using parsed_ids [OF those_Some [OF calls(2)]] assms(1) True
      by (simp add: well_called_def calls_ok_def call_ids_def)
  next
    case False
    then have "calls = []" using calls(1) by (auto simp: reply_calls_def py_or_def)
    moreover have "call_ids m = []" using False by (auto simp: call_ids_def split: json.splits)
    ultimately show ?thesis using calls(2) by simp
  qed
  have "map result_id (map result_message rs) = map ci_id (map fst rs)" by simp
  then have rid: "map result_id (map result_message rs) = call_ids m" by (simp only: fst_rs ids)
  have all: "takeWhile (\<lambda>t. role_is t ''tool'') (map result_message rs) = map result_message rs"
      "dropWhile (\<lambda>t. role_is t ''tool'') (map result_message rs) = []"
    by (simp_all add: takeWhile_eq_all_conv dropWhile_eq_Nil_conv)
  have "distinct (map result_id (map result_message rs))" "set (map result_id (map result_message rs)) = set (call_ids m)"
    using assms(1) unfolding rid well_called_def by simp_all
  then show ?thesis using assms(1) role_unique
    unfolding rs_def [symmetric] clean_def exactly_paired.simps all by (auto simp: well_called_def list_all_iff)
qed

section \<open>One round\<close>

lemma say_effect:
  assumes "still_open s"
  shows "still_open (say m s) \<and> ts_scene (say m s) = ts_scene s \<and> ts_turn (say m s) = ts_turn s
    \<and> ts_iteration (say m s) = ts_iteration s
    \<and> (ts_yields (say m s) = ts_yields s \<or> (\<exists>x. ts_yields (say m s) = ts_yields s @ [(TokenText x, as_stored (ts_turn s))]))"
  using assms left_open [OF assms]
  by (auto simp: say_def still_open_def left_here_def as_stored_def split: json.split if_splits)

lemma serve_calls_effect:
  assumes run: "serve_calls e v m s = (b, s')" and "respectful v" and "ready s"
  shows "allowed e (ts_scene s) (ts_scene s') \<and> still_open s' \<and> ts_iteration s' = ts_iteration s
    \<and> (\<exists>tk l ys. ts_yields s' = ts_yields s @ tk @ ys \<and> (tk = [] \<or> (\<exists>x. tk = [(TokenText x, as_stored (ts_turn s))]))
       \<and> ts_turn s' = ts_turn s @ m # l
       \<and> list_all (\<lambda>(ev, h). inner ev \<and> (\<exists>p. h = [ts_turn s @ m # p])) ys
       \<and> (b \<and> well_called m \<longrightarrow> clean (m # l)))"
proof -
  define s1 where "s1 = say m s"
  define s2 where "s2 = s1\<lparr>ts_turn := ts_turn s1 @ [m], ts_full := ts_full s1 @ [m]\<rparr>"
  have open_s: "still_open s" using assms(3) by (simp add: ready_def)
  note say = say_effect [OF open_s, of m, folded s1_def]
  have s2: "ts_scene s2 = ts_scene s" "ts_turn s2 = ts_turn s @ [m]" "ts_yields s2 = ts_yields s1"
      "ts_iteration s2 = ts_iteration s" "still_open s2"
    using say by (simp_all add: s2_def still_open_def)
  have ready2: "ready s2" using s2 assms(3) by (simp add: ready_def)
  obtain tk where tk: "ts_yields s1 = ts_yields s @ tk" "tk = [] \<or> (\<exists>x. tk = [(TokenText x, as_stored (ts_turn s))])"
    using say by auto
  have goes: "proceeds e s2 s' \<and> (\<exists>l. ts_turn s' = ts_turn s2 @ l \<and> (b \<and> well_called m \<longrightarrow> clean (m # l)))"
  proof (cases "parse_calls e m s2")
    case None
    then have "b = False" "s' = s2" using run by (simp_all add: serve_calls_def s1_def s2_def Let_def)
    then show ?thesis using proceeds_refl [OF ready2] by simp
  next
    case (Some cs)
    obtain outs s3 where r: "run_reply e v cs s2 = (outs, s3)" by fastforce
    note p3 = run_reply_proceeds [OF r assms(2) ready2]
    show ?thesis
    proof (cases outs)
      case None
      then have "b = False" "s' = s3" using run Some r by (simp_all add: serve_calls_def s1_def s2_def Let_def)
      then show ?thesis using p3 by simp
    next
      case (Some os)
      then have t: "take_results e (zip cs os) s3 = (b, s')"
        using run \<open>parse_calls e m s2 = Some cs\<close> r by (simp add: serve_calls_def s1_def s2_def Let_def)
      have "ready s3" using p3 proceeds_ready by blast
      note p4 = take_results_proceeds [OF t this]
      have p: "proceeds e s2 s'" using p3 p4 proceeds_trans by blast
      have "length os = length cs" using p3 Some by blast
      then have "b \<and> well_called m \<longrightarrow> ts_turn s' = ts_turn s2 @ map result_message (zip cs os) \<and> clean (m # map result_message (zip cs os))"
        using p3 p4 round_is_paired [OF _ \<open>parse_calls e m s2 = Some cs\<close>] by simp
      moreover obtain l where "ts_turn s' = ts_turn s2 @ l" using p by (auto simp: proceeds_def advances_def)
      ultimately show ?thesis using p by auto
    qed
  qed
  then obtain l where l: "ts_turn s' = ts_turn s2 @ l" "b \<and> well_called m \<longrightarrow> clean (m # l)" by blast
  obtain ys where ys: "ts_yields s' = ts_yields s2 @ ys"
      "list_all (\<lambda>(ev, h). inner ev \<and> (\<exists>p. h = as_stored (ts_turn s2 @ p))) ys" "still_open s'" "ts_iteration s' = ts_iteration s2"
    using goes by (auto simp: proceeds_def advances_def)
  have "list_all (\<lambda>(ev, h). inner ev \<and> (\<exists>p. h = [ts_turn s @ m # p])) ys"
    using ys(2) by (simp add: s2(2) as_stored_def)
  then show ?thesis using ys tk s2 l goes by (auto simp: proceeds_def)
qed

definition final_message :: "json \<Rightarrow> pydict" where
  "final_message c = [(lit ''role'', JStr (lit ''assistant'')), (lit ''content'', c)]"

text \<open>What leaving at an event stores, in a round that begins with the turn \<open>t\<close>.\<close>

definition point :: "pydict list \<Rightarrow> turn_event \<times> pydict list list \<Rightarrow> bool" where
  "point t x \<longleftrightarrow> (case x of (ev, h) \<Rightarrow>
     if inner ev then \<exists>p. h = [t @ p]
     else if ev = Saving then h = []
     else h = as_stored t \<or> (\<exists>c. h = [completed t (final_message c)]))"

lemma answer_effect:
  assumes "still_open s" and "ts_turn s \<noteq> []"
  shows "ts_scene (answer e m s) = ts_scene s
    \<and> (\<exists>ys. ts_yields (answer e m s) = ts_yields s @ ys \<and> list_all (point (ts_turn s)) ys \<and> list_all (\<lambda>x. fst x \<noteq> Asking) ys)
    \<and> (\<exists>c. ts_stored (answer e m s) = [completed (ts_turn s) (final_message c)])"
proof -
  define final where "final = final_message (py_or (dget m (lit ''content'')) JNull)"
  have say: "ts_scene (say m (s\<lparr>ts_completion := Some final\<rparr>)) = ts_scene s"
      "ts_turn (say m (s\<lparr>ts_completion := Some final\<rparr>)) = ts_turn s"
      "ts_stored (say m (s\<lparr>ts_completion := Some final\<rparr>)) = []"
      "\<exists>ys. ts_yields (say m (s\<lparr>ts_completion := Some final\<rparr>)) = ts_yields s @ ys
        \<and> list_all (\<lambda>(ev, h). (\<exists>x. ev = TokenText x) \<and> h = [completed (ts_turn s) final]) ys"
    using assms by (auto simp: say_def still_open_def left_here_def split: json.split if_splits)
  obtain ys where ys: "ts_yields (say m (s\<lparr>ts_completion := Some final\<rparr>)) = ts_yields s @ ys"
      "list_all (\<lambda>(ev, h). (\<exists>x. ev = TokenText x) \<and> h = [completed (ts_turn s) final]) ys" using say(4) by blast
  have c: "\<exists>c. completed (ts_turn s) final = completed (ts_turn s) (final_message c)" unfolding final_def by blast
  have "list_all (point (ts_turn s)) ys" "list_all (\<lambda>x. fst x \<noteq> Asking) ys"
    using ys(2) by (auto simp: list_all_iff point_def final_def)
  then show ?thesis using say(1-3) ys(1) c
    by (auto simp: answer_def Let_def final_message_def [symmetric] final_def [symmetric] left_here_def point_def)
qed


lemma serve_yields:
  assumes "tk = [] \<or> (\<exists>x. tk = [(TokenText x, as_stored t)])"
    and "list_all (\<lambda>(ev, h). inner ev \<and> (\<exists>p. h = [t @ m # p])) ys"
  shows "list_all (point t) (tk @ ys) \<and> list_all (\<lambda>x. fst x \<noteq> Asking) (tk @ ys)"
  using assms by (auto simp: point_def list_all_iff)

definition round_end :: "pydict list \<Rightarrow> turn_end \<Rightarrow> pydict list list \<Rightarrow> bool" where
  "round_end t r h \<longleftrightarrow> h = [t] \<or> (\<exists>c. h = [completed t (final_message c)]) \<or> r = Broke \<and> (\<exists>p. h = [t @ p])"

lemma turn_round_effect:
  assumes run: "turn_round e v ask pr s = Some out" and v: "respectful v" and ready: "ready s" and turn: "ts_turn s \<noteq> []"
  shows "case out of
      Inl (r, s') \<Rightarrow> allowed e (ts_scene s) (ts_scene s') \<and> round_end (ts_turn s) r (ts_stored s')
        \<and> (\<exists>ys. ts_yields s' = ts_yields s @ (Asking, as_stored (ts_turn s)) # ys
             \<and> list_all (point (ts_turn s)) ys \<and> list_all (\<lambda>x. fst x \<noteq> Asking) ys)
    | Inr s' \<Rightarrow> allowed e (ts_scene s) (ts_scene s') \<and> ready s' \<and> ts_iteration s' = Suc (ts_iteration s)
        \<and> (obliging ask \<longrightarrow> \<not> turn_closing s)
        \<and> (\<exists>l. ts_turn s' = ts_turn s @ l \<and> (careful ask \<longrightarrow> clean l))
        \<and> (\<exists>ys. ts_yields s' = ts_yields s @ (Asking, as_stored (ts_turn s)) # ys
             \<and> list_all (point (ts_turn s)) ys \<and> list_all (\<lambda>x. fst x \<noteq> Asking) ys)"
proof -
  define s0 where "s0 = emit Asking (if turn_closing s then s\<lparr>ts_full := ts_full s @ [system_note (turn_note s)]\<rparr> else s)"
  define offered where "offered = (if turn_closing s then None else Some (webchat_names_for_mode (mode e)))"
  obtain res o' where ask: "ask (ts_full s0) offered (outside (ts_scene s0)) = (res, o')" by fastforce
  define s1 where "s1 = s0\<lparr>ts_scene := (ts_scene s0)\<lparr>outside := o'\<rparr>\<rparr>"
  have open_s: "still_open s" using ready by (simp add: ready_def)
  have s1: "ts_scene s1 = (ts_scene s)\<lparr>outside := o'\<rparr>" "ts_turn s1 = ts_turn s" "ts_iteration s1 = ts_iteration s"
      "ts_yields s1 = ts_yields s @ [(Asking, as_stored (ts_turn s))]" "still_open s1"
    using open_s by (simp_all add: s1_def s0_def still_open_def left_here_def as_stored_def)
  have ready1: "ready s1" using s1 ready by (simp add: ready_def)
  have here: "allowed e (ts_scene s) (ts_scene s1)" using ready by (simp add: s1(1) ready_def allowed_same)
  have left1: "left_here s1 = [ts_turn s]" using left_open [OF s1(5)] s1(2) turn by (simp add: as_stored_def)
  note round = turn_round_def [of e v ask pr s, unfolded s0_def [symmetric] offered_def [symmetric] Let_def ask prod.case, folded s1_def]
  show ?thesis
  proof (cases "\<exists>body i m. res = Inr (body, i) \<and> reply_of body = Message m")
    case False
    have "\<exists>ev r. out = Inl (r, persist_partial s1) \<or> out = Inl (r, emit (TurnError ev) (persist_partial s1))"
      using run False unfolding round by (auto split: sum.splits prod.splits reply.splits)
    then show ?thesis using here s1 left1
      by (auto simp: round_end_def point_def as_stored_def turn)
  next
    case True
    then obtain body i m where m: "res = Inr (body, i)" "reply_of body = Message m" by blast
    have well: "well_called m" if "careful ask"
    proof -
      have "fst (ask (ts_full s0) offered (outside (ts_scene s0))) = Inr (body, i)" using ask m(1) by simp
      moreover have "case fst (ask (ts_full s0) offered (outside (ts_scene s0))) of
          Inr (body, i) \<Rightarrow> (case reply_of body of Message m \<Rightarrow> well_called m | _ \<Rightarrow> True) | Inl _ \<Rightarrow> True"
        using that unfolding careful_def by blast
      ultimately show ?thesis using m(2) by simp
    qed
    show ?thesis
    proof (cases "reply_calls m = Some []")
      case True
      then have "out = Inl (Replied, answer e m s1)" using run unfolding round by (simp add: m)
      then show ?thesis using answer_effect [OF s1(5), where m = m and e = e] here s1 turn
        by (auto simp: round_end_def)
    next
      case False
      obtain b s2 where sv: "serve_calls e v m s1 = (b, s2)" by fastforce
      obtain tk l ys where eff: "allowed e (ts_scene s1) (ts_scene s2)" "still_open s2" "ts_iteration s2 = ts_iteration s1"
          "ts_yields s2 = ts_yields s1 @ tk @ ys" "tk = [] \<or> (\<exists>x. tk = [(TokenText x, as_stored (ts_turn s1))])"
          "ts_turn s2 = ts_turn s1 @ m # l" "list_all (\<lambda>(ev, h). inner ev \<and> (\<exists>p. h = [ts_turn s1 @ m # p])) ys"
          "b \<and> well_called m \<longrightarrow> clean (m # l)"
        using serve_calls_effect [OF sv v ready1] by blast
      have ys: "list_all (point (ts_turn s)) (tk @ ys)" "list_all (\<lambda>x. fst x \<noteq> Asking) (tk @ ys)"
        using serve_yields [OF eff(5,7)] by (simp_all add: s1(2))
      have there: "allowed e (ts_scene s) (ts_scene s2)" using here eff(1) allowed_trans by blast
      have ready2: "ready s2" using eff(2) allowed_keys [OF there] by (simp add: ready_def)
      have yields2: "ts_yields s2 = ts_yields s @ (Asking, as_stored (ts_turn s)) # tk @ ys" by (simp add: eff(4) s1(4))
      show ?thesis
      proof (cases b)
        case False
        then have "out = Inl (Broke, persist_partial s2)" using run \<open>reply_calls m \<noteq> Some []\<close> unfolding round by (simp add: m sv)
        then show ?thesis using there yields2 ys left_open [OF eff(2)] eff(6) s1(2)
          by (auto simp: round_end_def as_stored_def)
      next
        case True
        then obtain s3 s4 where d: "delegate_explore e v ask pr s2 = Some s3" "delegate_fanout e v ask pr s3 = Some s4"
            "out = Inr (s4\<lparr>ts_iteration := Suc (ts_iteration s4)\<rparr>)"
          using run \<open>reply_calls m \<noteq> Some []\<close> unfolding round by (auto simp: m sv bind_eq_Some_conv split: option.splits)
        note p3 = delegate_explore_proceeds [OF d(1) ready2]
        have ready3: "ready s3" using p3 proceeds_ready by blast
        note p4 = delegate_fanout_proceeds [OF d(2) ready3]
        have p: "proceeds e s2 s4" using p3 p4 proceeds_trans by blast
        then obtain zs where zs: "ts_yields s4 = ts_yields s2 @ zs"
            "list_all (\<lambda>(ev, h). inner ev \<and> (\<exists>p. h = as_stored (ts_turn s2 @ p))) zs" "ts_iteration s4 = ts_iteration s2"
          by (auto simp: proceeds_def advances_def)
        have "list_all (\<lambda>(ev, h). inner ev \<and> (\<exists>p. h = [ts_turn s @ m # p])) zs"
          using zs(2) eff(6) s1(2) by (fastforce simp: as_stored_def list_all_iff)
        from serve_yields [OF disjI1 [OF refl] this] have zs': "list_all (point (ts_turn s)) zs" "list_all (\<lambda>x. fst x \<noteq> Asking) zs"
          by simp_all
        have "\<not> turn_closing s" if "obliging ask"
        proof
          assume "turn_closing s"
          then have "fst (ask (ts_full s0) None (outside (ts_scene s0))) = Inr (body, i)" using ask m(1) by (simp add: offered_def)
          moreover have "case fst (ask (ts_full s0) None (outside (ts_scene s0))) of
              Inr (body, i) \<Rightarrow> (case reply_of body of Message m \<Rightarrow> reply_calls m = Some [] | _ \<Rightarrow> True) | Inl _ \<Rightarrow> True"
            using that unfolding obliging_def by blast
          ultimately show False using \<open>reply_calls m \<noteq> Some []\<close> m(2) by simp
        qed
        moreover have "allowed e (ts_scene s) (ts_scene s4)" using there p allowed_trans by (auto simp: proceeds_def)
        moreover have "ready (s4\<lparr>ts_iteration := n\<rparr>)" for n
          using proceeds_ready [OF p] by (simp add: ready_def still_open_def)
        moreover have "ts_turn s4 = ts_turn s @ m # l" using p3 p4 eff(6) s1(2) by simp
        ultimately show ?thesis
          using d(3) zs(1,3) zs' yields2 ys eff(3,8) s1(3) True well by auto
      qed
    qed
  qed
qed

section \<open>The whole turn\<close>

definition asks :: "(turn_event \<times> pydict list list) list \<Rightarrow> nat" where
  "asks ys = length (filter (\<lambda>x. fst x = Asking) ys)"

lemma asks_round: "list_all (\<lambda>x. fst x \<noteq> Asking) ys \<Longrightarrow> asks (xs @ (Asking, h) # ys) = Suc (asks xs)"
proof -
  assume "list_all (\<lambda>x. fst x \<noteq> Asking) ys"
  then have "filter (\<lambda>x. fst x = Asking) ys = []" by (auto simp: list_all_iff filter_empty_conv)
  then show ?thesis by (simp add: asks_def)
qed

text \<open>What holds of a turn that began with \<open>base\<close>, between rounds.\<close>

definition turn_ok :: "tool_env \<Rightarrow> 'w asker \<Rightarrow> 'w scene \<Rightarrow> pydict list \<Rightarrow> 'w turn_state \<Rightarrow> bool" where
  "turn_ok e ask w base s \<longleftrightarrow> ready s \<and> allowed e w (ts_scene s)
     \<and> (\<exists>rest. ts_turn s = base @ rest \<and> (careful ask \<longrightarrow> clean rest))
     \<and> list_all (\<lambda>y. \<exists>rest. (careful ask \<longrightarrow> clean rest) \<and> point (base @ rest) y) (ts_yields s)"

definition turn_over :: "tool_env \<Rightarrow> 'w asker \<Rightarrow> 'w scene \<Rightarrow> pydict list \<Rightarrow> turn_end \<times> 'w turn_state \<Rightarrow> bool" where
  "turn_over e ask w base p \<longleftrightarrow> allowed e w (ts_scene (snd p))
     \<and> list_all (\<lambda>y. \<exists>rest. (careful ask \<longrightarrow> clean rest) \<and> point (base @ rest) y) (ts_yields (snd p))
     \<and> (\<exists>rest. (careful ask \<longrightarrow> clean rest) \<and> round_end (base @ rest) (fst p) (ts_stored (snd p)))"

lemma round_keeps:
  assumes "turn_round e v ask pr s = Some out" and "respectful v" and "turn_ok e ask w base s" and "base \<noteq> []"
  shows "case out of
      Inl p \<Rightarrow> turn_over e ask w base p \<and> asks (ts_yields (snd p)) = Suc (asks (ts_yields s))
    | Inr s' \<Rightarrow> turn_ok e ask w base s' \<and> asks (ts_yields s') = Suc (asks (ts_yields s))
        \<and> ts_iteration s' = Suc (ts_iteration s) \<and> (obliging ask \<longrightarrow> \<not> turn_closing s)"
proof -
  obtain rest where rest: "ts_turn s = base @ rest" "careful ask \<longrightarrow> clean rest"
    using assms(3) by (auto simp: turn_ok_def)
  have ok: "ready s" "allowed e w (ts_scene s)" using assms(3) by (simp_all add: turn_ok_def)
  have "ts_turn s \<noteq> []" using rest(1) assms(4) by simp
  note eff = turn_round_effect [OF assms(1,2) ok(1) this]
  define fine where "fine = (\<lambda>y. \<exists>rest. (careful ask \<longrightarrow> clean rest) \<and> point (base @ rest) y)"
  have old: "list_all fine (ts_yields s)" using assms(3) by (simp add: turn_ok_def fine_def)
  have new: "list_all fine ((Asking, as_stored (ts_turn s)) # ys)" if "list_all (point (ts_turn s)) ys" for ys
  proof -
    have "fine y" if "point (ts_turn s) y" for y using that rest unfolding fine_def by metis
    moreover have "point (ts_turn s) (Asking, as_stored (ts_turn s))" by (simp add: point_def)
    ultimately show ?thesis using that by (auto simp: list_all_iff)
  qed
  show ?thesis
  proof (cases out)
    case (Inl p)
    then obtain r s' where p: "p = (r, s')" by fastforce
    obtain ys where ys: "ts_yields s' = ts_yields s @ (Asking, as_stored (ts_turn s)) # ys"
        "list_all (point (ts_turn s)) ys" "list_all (\<lambda>x. fst x \<noteq> Asking) ys"
        and a: "allowed e (ts_scene s) (ts_scene s')" "round_end (ts_turn s) r (ts_stored s')"
      using eff Inl p by auto
    have "turn_over e ask w base p"
      unfolding turn_over_def fine_def [symmetric] p using allowed_trans [OF ok(2) a(1)] old new [OF ys(2)] ys(1) a(2) rest by auto
    then show ?thesis using Inl p ys(1,3) asks_round by auto
  next
    case (Inr s')
    obtain ys l where ys: "ts_yields s' = ts_yields s @ (Asking, as_stored (ts_turn s)) # ys"
        "list_all (point (ts_turn s)) ys" "list_all (\<lambda>x. fst x \<noteq> Asking) ys"
        and a: "allowed e (ts_scene s) (ts_scene s')" "ready s'" "ts_turn s' = ts_turn s @ l" "careful ask \<longrightarrow> clean l"
        and i: "ts_iteration s' = Suc (ts_iteration s)" "obliging ask \<longrightarrow> \<not> turn_closing s"
      using eff Inr by auto
    have "turn_ok e ask w base s'"
      unfolding turn_ok_def fine_def [symmetric]
      using allowed_trans [OF ok(2) a(1)] a(2-4) old new [OF ys(2)] ys(1) rest clean_append by auto
    then show ?thesis using Inr ys(1,3) i asks_round by auto
  qed
qed

lemma turn_loop_over:
  assumes "turn_loop e v ask pr s = Some p" and "respectful v" and "turn_ok e ask w base s" and "base \<noteq> []"
  shows "turn_over e ask w base p"
proof -
  have "respectful v \<longrightarrow> turn_ok e ask w base s \<longrightarrow> turn_over e ask w base p"
  proof (rule turn_loop.raw_induct [of "\<lambda>e v ask pr s p. respectful v \<longrightarrow> turn_ok e ask w base s \<longrightarrow> turn_over e ask w base p",
        OF _ assms(1)], intro impI)
    fix f e v ask pr s p
    assume IH: "\<And>e v ask pr s p. f e v ask pr s = Some p \<Longrightarrow>
          respectful v \<longrightarrow> turn_ok e ask w base s \<longrightarrow> turn_over e ask w base p"
      and f: "(case turn_round e v ask pr s of None \<Rightarrow> None | Some (Inl r) \<Rightarrow> Some r | Some (Inr s') \<Rightarrow> f e v ask pr s') = Some p"
      and v: "respectful v" and ok: "turn_ok e ask w base s"
    then obtain out where out: "turn_round e v ask pr s = Some out" by (auto split: option.splits)
    note keeps = round_keeps [OF out v ok assms(4)]
    show "turn_over e ask w base p"
      using keeps f out IH v by (cases out) auto
  qed
  then show ?thesis using assms(2,3) by blast
qed

text \<open>Sub-agents that end let every round end.\<close>

lemma turn_round_ends: "obliging ask \<Longrightarrow> turn_round e v ask pr s \<noteq> None"
proof -
  assume ob: "obliging ask"
  have ex: "run_explore e v ask p task w \<noteq> None" for p task w
    using run_explore_ends [OF ob] by (metis option.distinct(1))
  have fo: "run_fanout e v ask pl st task w \<noteq> None" for pl st task w
    using run_fanout_ends [OF ob] by (metis option.distinct(1))
  have "delegate_explore e v ask pr s \<noteq> None" for s
    using ex [of "explore_prompt pr" "user_text (ts_full s)" "ts_scene s"] by (auto simp: delegate_explore_def Let_def split: option.split sub_result.split)
  moreover have "delegate_fanout e v ask pr s \<noteq> None" for s
    using fo [of "planner_prompt pr" "step_prompt pr" "user_text (ts_full s)" "ts_scene s"]
    by (auto simp: delegate_fanout_def Let_def split: option.split sub_result.split)
  ultimately have both: "Option.bind (delegate_explore e v ask pr s) (delegate_fanout e v ask pr) \<noteq> None" for s
    by (metis bind_eq_None_conv)
  show ?thesis
  proof
    assume "turn_round e v ask pr s = None"
    then obtain s2 where "Option.bind (delegate_explore e v ask pr s2) (delegate_fanout e v ask pr) = None"
      unfolding turn_round_def Let_def
      by (simp only: split: prod.splits sum.splits reply.splits bool.splits option.splits if_splits) blast+
    then show False using both by blast
  qed
qed

lemma turn_loop_ends:
  assumes "obliging ask" and "respectful v" and "turn_ok e ask w base s" and "base \<noteq> []" and "ts_iteration s \<le> 26"
  shows "\<exists>p. turn_loop e v ask pr s = Some p \<and> asks (ts_yields (snd p)) + ts_iteration s \<le> asks (ts_yields s) + 27"
  using assms(3,5)
proof (induction "26 - ts_iteration s" arbitrary: s rule: less_induct)
  case less
  obtain out where out: "turn_round e v ask pr s = Some out" using turn_round_ends [OF assms(1)] by blast
  note keeps = round_keeps [OF out assms(2) less.prems(1) assms(4)]
  show ?case
  proof (cases out)
    case (Inl p)
    then show ?thesis using keeps out less.prems(2) by (subst turn_loop.simps) simp
  next
    case (Inr s')
    then have s': "turn_ok e ask w base s'" "asks (ts_yields s') = Suc (asks (ts_yields s))"
        "ts_iteration s' = Suc (ts_iteration s)" "\<not> turn_closing s" using keeps assms(1) by auto
    then have "ts_iteration s \<le> 25" by (simp add: turn_closing_def MAX_TOOL_ITERATIONS_def)
    then have "26 - ts_iteration s' < 26 - ts_iteration s" "ts_iteration s' \<le> 26" using s'(3) by simp_all
    from less.hyps [OF this(1) s'(1) this(2)] obtain p where
      "turn_loop e v ask pr s' = Some p" "asks (ts_yields (snd p)) + ts_iteration s' \<le> asks (ts_yields s') + 27" by blast
    then show ?thesis using out Inr s'(2,3) by (subst turn_loop.simps) simp
  qed
qed

section \<open>What a turn does\<close>

lemma turn_start_ok: "keys_ok (store w) \<Longrightarrow> turn_ok e ask w base (turn_start prompt full base w)"
  by (auto simp: turn_ok_def turn_start_def ready_def still_open_def clean_def intro: allowed_same)

lemma run_turn_over:
  "run_agent_turn e v ask pr full base w = Some p \<Longrightarrow> respectful v \<Longrightarrow> keys_ok (store w) \<Longrightarrow> base \<noteq> [] \<Longrightarrow>
   turn_over e ask w base p"
  unfolding run_agent_turn_def using turn_loop_over turn_start_ok by blast

text \<open>A confirmed deed in the log of one entry, and in a sequence of them.\<close>

definition approved :: "tool_env \<Rightarrow> act list \<Rightarrow> ustr \<Rightarrow> deed \<Rightarrow> bool" where
  "approved e pre t d \<longleftrightarrow> (\<exists>q before. staged_action (ck e) q = Inr (deed_action d)
     \<and> (pre = before @ [StagedAct t q, Answered t True] \<or> mode e = lit ''auto'' \<and> pre = before @ [StagedAct t q]))"

lemma approved_append: "approved e pre t d \<Longrightarrow> approved e (xs @ pre) t d"
  unfolding approved_def by (metis append_assoc)

lemma entry_confirmed: "entry e (pre @ Confirmed t d # post) \<Longrightarrow> approved e pre t d"
  by (auto simp: entry_def call_log_def staged_log_def sub_read_def approved_def append_eq_Cons_conv Cons_eq_append_conv)

lemma entries_confirmed: "list_all (entry e) ls \<Longrightarrow> concat ls = pre @ Confirmed t d # post \<Longrightarrow> approved e pre t d"
proof (induction ls arbitrary: pre)
  case (Cons l ls)
  from Cons.prems(2) obtain us where us: "l = pre @ us \<and> us @ concat ls = Confirmed t d # post
      \<or> l @ us = pre \<and> concat ls = us @ Confirmed t d # post" by (auto simp: append_eq_append_conv2)
  then show ?case
  proof
    assume u: "l = pre @ us \<and> us @ concat ls = Confirmed t d # post"
    show ?thesis
    proof (cases us)
      case Nil
      then have "approved e [] t d" using Cons.IH [of "[]"] Cons.prems(1) u by simp
      then show ?thesis by (auto simp: approved_def)
    next
      case (Cons a us')
      then have "l = pre @ Confirmed t d # us'" using u by simp
      then have "entry e (pre @ Confirmed t d # us')" using \<open>list_all (entry e) (l # ls)\<close> by simp
      then show ?thesis by (rule entry_confirmed)
    qed
  next
    assume "l @ us = pre \<and> concat ls = us @ Confirmed t d # post"
    then show ?thesis using Cons.IH [of us] Cons.prems(1) approved_append by auto
  qed
qed simp

lemma entry_ran: "entry e l \<Longrightarrow> Ran d \<in> set l \<Longrightarrow> fst (deed_action d) \<notin> set approval_required_names"
  using explore_read_only no_approval_names(1) by (fastforce simp: entry_def call_log_def staged_log_def sub_read_def)





section \<open>A turn that writes a file\<close>

definition demo_env :: "ustr \<Rightarrow> tool_env" where
  "demo_env md = \<lparr>ck = \<lparr>alnum = \<lambda>_. False, fs = sample_paths, to_integer = \<lambda>_. Inl Crash\<rparr>, repr = \<lambda>_. lit ''?'',
     parse_json = \<lambda>s. Some (JObj [(lit ''path'', JStr (lit ''other''))]), dict_of = \<lambda>_. None, whole_port = \<lambda>_. None,
     routed = False, user = 7, mode = md, token_ttl = 600\<rparr>"

definition demo_services :: "nat services" where
  "demo_services = \<lparr>perform = \<lambda>d n. (Some (status_doc ''written''), n), data_tool = \<lambda>name args n. (None, n),
     browser = \<lambda>t n. (True, n), others = \<lambda>n s. s, clock = \<lambda>n. 0, new_token = \<lambda>n. [1]\<rparr>"

definition demo_message :: pydict where
  "demo_message = [(lit ''role'', JStr (lit ''assistant'')), (lit ''tool_calls'', JList [JObj [(lit ''id'', JStr (lit ''a'')),
     (lit ''function'', JObj [(lit ''name'', JStr (lit ''write_file''))])]])]"

definition demo_asker :: "nat asker" where
  "demo_asker ms offered n = (Inr (message_reply (if n = 0 \<and> offered \<noteq> None then demo_message
       else [(lit ''role'', JStr (lit ''assistant'')), (lit ''content'', JStr (lit ''Written.''))]), []), Suc n)"

definition demo_scene :: "nat scene" where
  "demo_scene = \<lparr>store = new_store False, outside = 0, acts = []\<rparr>"

definition demo_prompts :: prompts where
  "demo_prompts = \<lparr>explore_prompt = [], planner_prompt = \<lambda>_. [], step_prompt = \<lambda>_. [], mode_prompt = []\<rparr>"

lemma demo_names: "lit ''write_file'' \<in> set known_tools" "lit ''write_file'' \<notin> set COMPUTER_ONLY_MUTATING"
   "lit ''write_file'' \<notin> set read_only_names" "lit ''write_file'' \<notin> set agent_only_names"
   "lit ''write_file'' \<notin> set ALL_DATA_TOOLS" "lit ''write_file'' \<noteq> lit ''web_research''"
  by (simp_all add: known_tools_def COMPUTER_ONLY_MUTATING_def ALL_DATA_TOOLS_def name_lists)

lemma demo_fields [simp]: "repr (demo_env md) = (\<lambda>_. lit ''?'')" "parse_json (demo_env md) = (\<lambda>s. Some (JObj [(lit ''path'', JStr (lit ''other''))]))"
    "routed (demo_env md) = False" "user (demo_env md) = 7" "mode (demo_env md) = md" "token_ttl (demo_env md) = 600"
    "perform demo_services = (\<lambda>d n. (Some (status_doc ''written''), n))" "browser demo_services = (\<lambda>t n. (True, n))"
    "others demo_services = (\<lambda>n s. s)" "clock demo_services = (\<lambda>n. 0)" "new_token demo_services = (\<lambda>n. [1])"
  by (simp_all add: demo_env_def demo_services_def)

abbreviation demo_log :: "act list" where
  "demo_log \<equiv> [StagedAct [1] (WriteFile (lit ''other'') []), Answered [1] True,
     Confirmed [1] (OnServer (lit ''write_file'') [(lit ''path'', JStr (lit ''other'')), (lit ''content'', JStr [])])]"

lemma demo_call:
  assumes "md \<noteq> lit ''auto''"
  shows "\<exists>s. execute_call (demo_env md) demo_services (lit ''write_file'') [(lit ''path'', JStr (lit ''other''))]
       \<lparr>store = new_store False, outside = n, acts = []\<rparr>
     = (Some [1], Some (status_doc ''written'', True), \<lparr>store = s, outside = n, acts = demo_log\<rparr>)"
proof -
  let ?args = "[(lit ''path'', JStr (lit ''other'')), (lit ''content'', JStr [])]"
  let ?s = "put 600 0 [1] (lit ''write_file'') ?args (Some 7) (new_store False)"
  have ok: "\<not> check_write_denylist sample_paths (lit ''other'')"
    using outside_not_blocked [of "[lit ''repo'']" "[lit ''tmp'']"]
    by (simp add: check_write_denylist_def sample_paths_def)
  have req: "request_of (demo_env md) (lit ''write_file'') [(lit ''path'', JStr (lit ''other''))] = Some (WriteFile (lit ''other'') [])"
    by (simp add: request_of_def arg_text_def dget_or_def)
  have st: "stage (ck (demo_env md)) 600 0 [1] (WriteFile (lit ''other'') []) (Some 7) (new_store False) = (Inr [1], ?s)"
    by (simp add: stage_def staged_action_def demo_env_def ok)
  obtain s2 where conf: "confirm_action False 600 0 [1] True (Some 7) ?s = (RanLocally (lit ''write_file'') ?args, s2)"
    by (auto simp: confirm_action_def take_pending_def pending_sweep pending_put new_store_def subject_ok_def
        COMPUTER_TOOLS_def Let_def)
  show ?thesis
    using assms by (simp add: execute_call_def demo_names run_mutating_def req st conf Let_def await_approval_def confirm_staged_def
      do_deed_def log_act_def result_ok_def status_doc_def dict_simps)
qed

abbreviation manual_env :: tool_env where
  "manual_env \<equiv> demo_env (lit ''manual'')"

lemma more_frames [simp]:
  "ts_explore_reads (emit ev s) = ts_explore_reads s" "ts_fanout_reads (emit ev s) = ts_fanout_reads s"
  "ts_repeat (emit ev s) = ts_repeat s" "ts_delegated (emit ev s) = ts_delegated s"
  by (simp_all add: emit_def)

lemma demo_round:
  assumes "ts_scene s = demo_scene" and "\<not> turn_closing s" and "ts_repeat s = (None, 0)"
  shows "\<exists>s' st. turn_round manual_env demo_services demo_asker demo_prompts s = Some (Inr s')
    \<and> ts_scene s' = \<lparr>store = st, outside = 1, acts = demo_log\<rparr> \<and> ts_turn s' \<noteq> [] \<and> ts_stored s' = ts_stored s"
proof -
  let ?args = "[(lit ''path'', JStr (lit ''other''))]"
  let ?c = "\<lparr>ci_id = JStr (lit ''a''), ci_name = lit ''write_file'', ci_args = JObj ?args\<rparr>"
  define s1 where "s1 = (emit Asking s)\<lparr>ts_scene := demo_scene\<lparr>outside := 1\<rparr>\<rparr>"
  define s2 where "s2 = s1\<lparr>ts_turn := ts_turn s1 @ [demo_message], ts_full := ts_full s1 @ [demo_message]\<rparr>"
  have say: "say demo_message s1 = s1" by (simp add: say_def demo_message_def dict_simps)
  have calls: "reply_calls demo_message = Some [JObj [(lit ''id'', JStr (lit ''a'')), (lit ''function'', JObj [(lit ''name'', JStr (lit ''write_file''))])]]"
    by (simp add: reply_calls_def demo_message_def dict_simps)
  have parse: "parse_calls manual_env demo_message s2 = Some [?c]"
    by (simp add: parse_calls_def calls parse_call_def parse_args_def dict_simps)
  obtain st where call: "execute_call manual_env demo_services (lit ''write_file'') ?args (demo_scene\<lparr>outside := 1\<rparr>)
     = (Some [1], Some (status_doc ''written'', True), \<lparr>store = st, outside = 1, acts = demo_log\<rparr>)"
    using demo_call [of "lit ''manual''" 1] by (auto simp: demo_scene_def)
  define s3 where "s3 = emit (approval_event manual_env [1] ?c) ((emit (call_event manual_env ?c) s2)\<lparr>ts_scene := \<lparr>store = st, outside = 1, acts = demo_log\<rparr>\<rparr>)"
  have run: "run_reply manual_env demo_services [?c] s2 = (Some [(status_doc ''written'', True)], s3)"
    using call by (simp add: run_reply_def parallel_reads_def run_call_def demo_names s2_def s1_def s3_def)
  obtain b s4 where take: "take_result manual_env (?c, status_doc ''written'', True) s3 = (b, s4)" by fastforce
  have names: "lit ''write_file'' \<notin> set explore_names" "plane_of (lit ''write_file'') = None"
    by (simp_all add: explore_names_eq plane_of_def LIBRARIAN_AGENT_def SCOUT_AGENT_def name_lists)
  obtain p where p: "result_preview manual_env (lit ''write_file'') (status_doc ''written'') = Some p"
    by (cases "screenshot_image manual_env (status_doc ''written'')") (auto simp: result_preview_def)
  have s4: "b" "ts_scene s4 = \<lparr>store = st, outside = 1, acts = demo_log\<rparr>" "ts_explore_reads s4 = 0" "ts_fanout_reads s4 = 0" "ts_turn s4 \<noteq> []" "ts_stored s4 = ts_stored s"
    using take by (auto simp: take_result_def p names Let_def count_reads_def guard_repeat_def guard_look_def s3_def s2_def s1_def)
  have serve: "serve_calls manual_env demo_services demo_message s1 = (True, s4)"
    using take s4(1) by (simp add: serve_calls_def say s2_def [symmetric] parse run)
  have "demo_asker (ts_full (emit Asking s)) (Some ts) 0 = (Inr (message_reply demo_message, []), 1)" for ts
    by (simp add: demo_asker_def)
  then have "turn_round manual_env demo_services demo_asker demo_prompts s = Some (Inr (s4\<lparr>ts_iteration := Suc (ts_iteration s4)\<rparr>))"
    using serve s4(3,4) assms calls
    by (simp add: turn_round_def Let_def s1_def demo_scene_def dict_simps delegate_explore_def delegate_fanout_def
        EXPLORE_TRIGGER_CONSECUTIVE_READS_def FANOUT_TRIGGER_READS_def)
  then show ?thesis using s4(2,5,6) by (intro exI [of _ "s4\<lparr>ts_iteration := Suc (ts_iteration s4)\<rparr>"] exI [of _ st]) simp
qed

lemma demo_answer:
  assumes "outside (ts_scene s) = 1"
  shows "\<exists>s'. turn_round manual_env demo_services demo_asker demo_prompts s = Some (Inl (Replied, s'))
    \<and> acts (ts_scene s') = acts (ts_scene s) \<and> (Saving, ts_stored s) \<in> set (ts_yields s')"
proof -
  have "demo_asker ms ts 1 = (Inr (message_reply [(lit ''role'', JStr (lit ''assistant'')), (lit ''content'', JStr (lit ''Written.''))], []), 2)" for ms ts
    by (simp add: demo_asker_def)
  then show ?thesis using assms
    by (simp add: turn_round_def Let_def dict_simps reply_calls_def answer_def say_def left_here_def)
qed

lemma demo_turn:
  "\<exists>s'. run_agent_turn manual_env demo_services demo_asker demo_prompts [] [user_message (lit ''go'')] demo_scene = Some (Replied, s')
     \<and> acts (ts_scene s') = demo_log \<and> (Saving, []) \<in> set (ts_yields s')"
proof -
  let ?s = "turn_start (mode_prompt demo_prompts) [] [user_message (lit ''go'')] demo_scene"
  obtain s1 st where s1: "turn_round manual_env demo_services demo_asker demo_prompts ?s = Some (Inr s1)"
      "ts_scene s1 = \<lparr>store = st, outside = 1, acts = demo_log\<rparr>" "ts_turn s1 \<noteq> []" "ts_stored s1 = []"
    using demo_round [of ?s] by (auto simp: turn_start_def turn_closing_def)
  obtain s2 where "turn_round manual_env demo_services demo_asker demo_prompts s1 = Some (Inl (Replied, s2))" "acts (ts_scene s2) = demo_log"
      "(Saving, []) \<in> set (ts_yields s2)"
    using demo_answer [of s1] s1(2,4) by auto
  then show ?thesis using s1(1) by (auto simp: run_agent_turn_def turn_loop.simps)
qed

lemma demo_hypotheses: "respectful demo_services" "keys_ok (store demo_scene)" "careful demo_asker" "obliging demo_asker" "clean [user_message (lit ''go'')]"
  by (simp_all add: respectful_def demo_scene_def careful_def obliging_def demo_asker_def dict_simps well_called_def reply_calls_def
     demo_message_def role_is_def calls_ok_def call_ids_def clean_def user_message_def
     keys_ok_def new_store_def)






section \<open>What the comments promise and the code does not\<close>

text \<open>The final append is not shielded: a task that is cancelled during it leaves nothing of the turn.\<close>

lemma final_append_can_be_lost:
  "\<exists>s'. run_agent_turn manual_env demo_services demo_asker demo_prompts [] [user_message (lit ''go'')] demo_scene = Some (Replied, s')
     \<and> (Saving, []) \<in> set (ts_yields s')"
  using demo_turn by blast

text \<open>Plan mode does not offer these tools, but a call of one is served: a memory is saved at once, and a file
  is written after an approval.\<close>

lemma plan_mode_names: "lit ''memory_save'' \<notin> set (webchat_names_for_mode (lit ''plan''))"
    "lit ''write_file'' \<notin> set (webchat_names_for_mode (lit ''plan''))"
  by (simp_all add: plan_names_eq)

lemma plan_mode_serves_changes:
  "mode (demo_env (lit ''plan'')) = lit ''plan''"
  "acts (ts_scene (snd (run_call (demo_env (lit ''plan'')) v \<lparr>ci_id = i, ci_name = lit ''memory_save'', ci_args = JObj args\<rparr> s)))
     = acts (ts_scene s) @ [DataCall (lit ''memory_save'') args]"
  "\<exists>s. execute_call (demo_env (lit ''plan'')) demo_services (lit ''write_file'') [(lit ''path'', JStr (lit ''other''))] demo_scene
     = (Some [1], Some (status_doc ''written'', True), \<lparr>store = s, outside = 0, acts = demo_log\<rparr>)"
proof -
  have "lit ''memory_save'' \<in> set ALL_DATA_TOOLS" "lit ''memory_save'' \<notin> set COMPUTER_ONLY_MUTATING"
    "lit ''memory_save'' \<notin> set read_only_names" "lit ''memory_save'' \<notin> set agent_only_names"
    by (simp_all add: COMPUTER_ONLY_MUTATING_def ALL_DATA_TOOLS_def name_lists)
  then show "acts (ts_scene (snd (run_call (demo_env (lit ''plan'')) v \<lparr>ci_id = i, ci_name = lit ''memory_save'', ci_args = JObj args\<rparr> s)))
     = acts (ts_scene s) @ [DataCall (lit ''memory_save'') args]"
    by (auto simp: run_call_def known_tools_def execute_call_def log_act_def Let_def split: prod.split)
  show "\<exists>s. execute_call (demo_env (lit ''plan'')) demo_services (lit ''write_file'') [(lit ''path'', JStr (lit ''other''))] demo_scene
     = (Some [1], Some (status_doc ''written'', True), \<lparr>store = s, outside = 0, acts = demo_log\<rparr>)"
    using demo_call [of "lit ''plan''" 0] by (simp add: demo_scene_def)
qed simp

end
