(* ===== verification/Waiter.thy ===== *)
theory Waiter
  imports Prelude
begin

text \<open>
  The rendezvous between a stream that waits for an approval and the request that answers it
  (\<open>ApprovalWaiter\<close> in \<open>core/webchat_agent.py\<close>). A future is a number in a table of its own, since the
  waiting coroutine keeps it after its entry is gone. \<open>wait\<close> is split where it awaits; whether the time is
  up is part of the event.
\<close>

section \<open>State and operations\<close>

datatype future = Unsettled | Settled bool | CancelledFuture

record waiters =
  entries :: "(ustr \<times> int \<times> nat) list"
  futures :: "nat \<Rightarrow> future"
  next_future :: nat

definition no_waiters :: waiters where
  "no_waiters = \<lparr>entries = [], futures = (\<lambda>_. Unsettled), next_future = 0\<rparr>"

definition wait_enter :: "ustr \<Rightarrow> int \<Rightarrow> waiters \<Rightarrow> nat \<times> waiters" where
  "wait_enter token user s = (next_future s,
     s\<lparr>entries := dset token (user, next_future s) (entries s), futures := (futures s)(next_future s := Unsettled),
       next_future := Suc (next_future s)\<rparr>)"

text \<open>The end of a wait: the answer, a refusal when the time is up, \<open>None\<close> when the wait was cancelled. Its
  token is forgotten in each case.\<close>

definition wait_leave :: "ustr \<Rightarrow> nat \<Rightarrow> waiters \<Rightarrow> bool option \<times> waiters" where
  "wait_leave token f s =
     (let s' = s\<lparr>entries := ddel token (entries s)\<rparr> in
      case futures s f of
        Settled b \<Rightarrow> (Some b, s')
      | Unsettled \<Rightarrow> (Some False, s'\<lparr>futures := (futures s)(f := CancelledFuture)\<rparr>)
      | CancelledFuture \<Rightarrow> (None, s'))"

definition resolve_wait :: "ustr \<Rightarrow> int \<Rightarrow> bool \<Rightarrow> waiters \<Rightarrow> nat option \<times> waiters" where
  "resolve_wait token user approved s = (case map_of (entries s) token of
       None \<Rightarrow> (None, s)
     | Some (owner, f) \<Rightarrow>
         if owner \<noteq> user \<or> futures s f \<noteq> Unsettled then (None, s)
         else (Some f, s\<lparr>futures := (futures s)(f := Settled approved)\<rparr>))"

definition discard_wait :: "ustr \<Rightarrow> waiters \<Rightarrow> waiters" where
  "discard_wait token s = (case map_of (entries s) token of
       None \<Rightarrow> s
     | Some (owner, f) \<Rightarrow> s\<lparr>entries := ddel token (entries s),
         futures := (if futures s f = Unsettled then (futures s)(f := CancelledFuture) else futures s)\<rparr>)"

definition pending_tokens :: "int \<Rightarrow> waiters \<Rightarrow> ustr list" where
  "pending_tokens user s = map fst (filter (\<lambda>(t, owner, f). owner = user \<and> futures s f = Unsettled) (entries s))"

section \<open>Runs\<close>

text \<open>\<open>Answer\<close> carries the future that was settled, if the call was accepted.\<close>

datatype wait_event =
    Enter ustr int nat
  | Answer ustr int bool "nat option"
  | Leave ustr nat "bool option"
  | Discard ustr

inductive wait_run :: "wait_event list \<Rightarrow> waiters \<Rightarrow> bool" where
  start: "wait_run [] no_waiters"
| enter: "wait_run tr s \<Longrightarrow> wait_enter t u s = (f, s') \<Longrightarrow> wait_run (tr @ [Enter t u f]) s'"
| answer: "wait_run tr s \<Longrightarrow> resolve_wait t u b s = (r, s') \<Longrightarrow> wait_run (tr @ [Answer t u b r]) s'"
| leave: "wait_run tr s \<Longrightarrow> Enter t u f \<in> set tr \<Longrightarrow> wait_leave t f s = (r, s') \<Longrightarrow> wait_run (tr @ [Leave t f r]) s'"
| discard: "wait_run tr s \<Longrightarrow> wait_run (tr @ [Discard t]) (discard_wait t s)"

text \<open>What a settled future and an entry say about the run.\<close>

definition answers_of :: "nat \<Rightarrow> wait_event list \<Rightarrow> nat" where
  "answers_of f tr = length (filter (\<lambda>ev. case ev of Answer t u b r \<Rightarrow> r = Some f | _ \<Rightarrow> False) tr)"

definition tells :: "wait_event list \<Rightarrow> waiters \<Rightarrow> bool" where
  "tells tr s \<longleftrightarrow>
     (\<forall>t o' f. (t, o', f) \<in> set (entries s) \<longrightarrow> Enter t o' f \<in> set tr)
   \<and> (\<forall>t u f. Enter t u f \<in> set tr \<longrightarrow> f < next_future s)
   \<and> (\<forall>t u t' u' f. Enter t u f \<in> set tr \<longrightarrow> Enter t' u' f \<in> set tr \<longrightarrow> t = t' \<and> u = u')
   \<and> (\<forall>f. next_future s \<le> f \<longrightarrow> answers_of f tr = 0)
   \<and> (\<forall>f. case futures s f of
        Unsettled \<Rightarrow> answers_of f tr = 0
      | Settled b \<Rightarrow> answers_of f tr = 1 \<and> (\<exists>t u. Enter t u f \<in> set tr \<and> Answer t u b (Some f) \<in> set tr)
      | CancelledFuture \<Rightarrow> answers_of f tr \<le> 1)"

lemma tellsD:
  assumes "tells tr s"
  shows "(t, u, f) \<in> set (entries s) \<Longrightarrow> Enter t u f \<in> set tr"
    and "Enter t u f \<in> set tr \<Longrightarrow> f < next_future s"
    and "Enter t u f \<in> set tr \<Longrightarrow> Enter t' u' f \<in> set tr \<Longrightarrow> t = t' \<and> u = u'"
    and "next_future s \<le> f \<Longrightarrow> answers_of f tr = 0"
    and "futures s f = Unsettled \<Longrightarrow> answers_of f tr = 0"
    and "futures s f = Settled b \<Longrightarrow> answers_of f tr = 1 \<and> (\<exists>t u. Enter t u f \<in> set tr \<and> Answer t u b (Some f) \<in> set tr)"
proof -
  have "case futures s f of
        Unsettled \<Rightarrow> answers_of f tr = 0
      | Settled b \<Rightarrow> answers_of f tr = 1 \<and> (\<exists>t u. Enter t u f \<in> set tr \<and> Answer t u b (Some f) \<in> set tr)
      | CancelledFuture \<Rightarrow> answers_of f tr \<le> 1" using assms unfolding tells_def by blast
  then show "futures s f = Unsettled \<Longrightarrow> answers_of f tr = 0"
    and "futures s f = Settled b \<Longrightarrow> answers_of f tr = 1 \<and> (\<exists>t u. Enter t u f \<in> set tr \<and> Answer t u b (Some f) \<in> set tr)"
    by simp_all
qed (use assms in \<open>unfold tells_def, blast+\<close>)

lemma answers_of_append: "answers_of f (tr @ [ev]) = answers_of f tr + (case ev of Answer t u b (Some g) \<Rightarrow> of_bool (g = f) | _ \<Rightarrow> 0)"
  by (auto simp: answers_of_def split: wait_event.split option.split)

lemma tells_run: "wait_run tr s \<Longrightarrow> tells tr s"
proof (induction rule: wait_run.induct)
  case start
  then show ?case by (simp add: tells_def no_waiters_def answers_of_def)
next
  case (enter tr s t u f s')
  then have s': "f = next_future s" "s' = s\<lparr>entries := dset t (u, f) (entries s), futures := (futures s)(f := Unsettled), next_future := Suc f\<rparr>"
    by (auto simp: wait_enter_def)
  have "set (entries s') \<subseteq> insert (t, u, f) (set (entries s))" using s' set_dset_subset by fastforce
  moreover have "Enter t' u' f \<notin> set tr" for t' u' using tellsD(2) [OF enter.IH] s'(1) by blast
  moreover have "answers_of f tr = 0" using tellsD(4) [OF enter.IH] s'(1) by simp
  ultimately show ?case using enter.IH s' unfolding tells_def
    by (auto simp: answers_of_append less_Suc_eq split: future.splits)
next
  case (answer tr s t u b r s')
  show ?case
  proof (cases r)
    case None
    then have "s' = s" using answer.hyps(2) by (auto simp: resolve_wait_def split: option.splits if_splits)
    then show ?thesis using answer.IH None unfolding tells_def by (auto simp: answers_of_append split: future.splits)
  next
    case (Some f)
    then have f: "(t, u, f) \<in> set (entries s)" "futures s f = Unsettled" "s' = s\<lparr>futures := (futures s)(f := Settled b)\<rparr>"
      using answer.hyps(2) by (auto simp: resolve_wait_def dest: map_of_SomeD split: option.splits if_splits)
    note e = tellsD(1) [OF answer.IH f(1)]
    from e tellsD(2) [OF answer.IH e, unfolded not_le [symmetric]] tellsD(5) [OF answer.IH f(2)] show ?thesis using answer.IH f(3) Some unfolding tells_def
      by (auto simp: answers_of_append split: future.splits)
  qed
next
  case (leave tr s t u f r s')
  then have "s' = s\<lparr>entries := ddel t (entries s)\<rparr> \<or> futures s f = Unsettled
      \<and> s' = s\<lparr>entries := ddel t (entries s), futures := (futures s)(f := CancelledFuture)\<rparr>"
    by (auto simp: wait_leave_def Let_def split: future.splits)
  then show ?case using leave.IH unfolding tells_def by (auto simp: answers_of_append ddel_def split: future.splits if_splits)
next
  case (discard tr s t)
  show ?case using discard.IH unfolding tells_def
    by (auto simp: answers_of_append discard_wait_def ddel_def split: future.splits option.splits if_splits)
qed

inductive_cases run_snocE: "wait_run (tr @ [ev]) s"
inductive_cases run_leaveE: "wait_run (tr @ [Leave t f r]) s"

lemma run_prefix: "wait_run (a @ b) s \<Longrightarrow> \<exists>s'. wait_run a s'"
proof (induction b arbitrary: s rule: rev_induct)
  case (snoc ev b)
  then have "\<exists>s'. wait_run (a @ b) s'" by (auto simp flip: append_assoc elim: run_snocE)
  then show ?case using snoc.IH by blast
qed auto

text \<open>
  C25: a wait for an approval ends with yes only if the user it was entered for said yes to that token, in
  the meantime, and no second answer to it is ever accepted.\<close>

theorem yes_was_said_by_the_owner:
  assumes "wait_run (before @ [Leave t f (Some True)]) s"
  shows "\<exists>u. Enter t u f \<in> set before \<and> Answer t u True (Some f) \<in> set before \<and> answers_of f before = 1"
proof -
  from assms obtain u s0 where run: "wait_run before s0" "Enter t u f \<in> set before" "wait_leave t f s0 = (Some True, s)"
    by (cases rule: run_leaveE) simp_all
  note tells = tells_run [OF run(1)]
  have "futures s0 f = Settled True" using run(3) by (auto simp: wait_leave_def Let_def split: future.splits)
  from tellsD(6) [OF tells this] obtain t' u' where
    yes: "answers_of f before = 1" "Enter t' u' f \<in> set before" "Answer t' u' True (Some f) \<in> set before" by blast
  from tellsD(3) [OF tells yes(2) run(2)] show ?thesis using yes by blast
qed

theorem yes_was_said_by_the_owner_witness:
  "\<exists>s. wait_run ([Enter [1] 7 0, Answer [1] 8 True None, Answer [1] 7 True (Some 0), Answer [1] 7 False None] @ [Leave [1] 0 (Some True)]) s
     \<and> answers_of 0 [Enter [1] 7 0, Answer [1] 8 True None, Answer [1] 7 True (Some 0), Answer [1] 7 False None] = 1"
proof -
  let ?tr = "[Enter [1] 7 0, Answer [1] 8 True None, Answer [1] 7 True (Some 0), Answer [1] 7 False None]"
  obtain s1 where r1: "wait_run [Enter [1] 7 0] s1" "entries s1 = [([1], 7, 0)]" "futures s1 0 = Unsettled"
    using wait_run.enter [OF wait_run.start, of "[1]" 7 0] by (auto simp: wait_enter_def no_waiters_def)
  have r2: "wait_run [Enter [1] 7 0, Answer [1] 8 True None] s1"
    using wait_run.answer [OF r1(1), of "[1]" 8 True None s1] r1(2) by (simp add: resolve_wait_def)
  obtain s3 where r3: "wait_run [Enter [1] 7 0, Answer [1] 8 True None, Answer [1] 7 True (Some 0)] s3"
      "entries s3 = [([1], 7, 0)]" "futures s3 0 = Settled True"
    using wait_run.answer [OF r2, of "[1]" 7 True "Some 0"] r1(2,3) by (auto simp: resolve_wait_def)
  have r4: "wait_run ?tr s3"
    using wait_run.answer [OF r3(1), of "[1]" 7 False None s3] r3(2,3) by (simp add: resolve_wait_def)
  obtain s5 where r5: "wait_run (?tr @ [Leave [1] 0 (Some True)]) s5"
    using wait_run.leave [OF r4, of "[1]" 7 0 "Some True"] r3(3) by (auto simp: wait_leave_def Let_def)
  from yes_was_said_by_the_owner [OF r5] r5 show ?thesis by auto
qed

end
