(* ===== verification/AgentTunnel.thy ===== *)
theory AgentTunnel
  imports Tunnel
begin

text \<open>
  Both ends of a tunneled request outside the registry: the public route
  (\<open>invincible/endpoints/tunnel.py\<close>: the filtered head, the frames of the body, the body of the answer)
  and the machine (\<open>invincible/agent/runner.py\<close>: \<open>_handle_tunnel_open\<close>, \<open>_handle_tunnel_frame\<close>,
  \<open>_tunnel_close_stream\<close>, \<open>_teardown_tunnels\<close>, and of \<open>_serve_stream\<close> the request that is written to
  the local port, the parsing of the answer's head and the frames of its body). The local service is
  what it answers; times, limits of the stream reader and the bookkeeping of tasks are left out.
\<close>

section \<open>The public route\<close>

definition STRIP_REQUEST :: "ustr list" where
  "STRIP_REQUEST = map lit [''connection'', ''keep-alive'', ''proxy-authenticate'', ''proxy-authorization'', ''te'',
     ''trailer'', ''transfer-encoding'', ''upgrade'', ''authorization'', ''cookie'', ''host'']"

definition STRIP_RESPONSE :: "ustr list" where
  "STRIP_RESPONSE = map lit [''connection'', ''keep-alive'', ''proxy-authenticate'', ''proxy-authorization'', ''te'',
     ''trailer'', ''transfer-encoding'', ''upgrade'', ''content-length'']"

text \<open>\<open>_filter\<close>: a later header of the same name replaces the value of an earlier one.\<close>

definition filter_headers :: "(ustr \<times> ustr) list \<Rightarrow> ustr list \<Rightarrow> (ustr \<times> ustr) list" where
  "filter_headers headers stripped =
     fold (\<lambda>(k, v) kept. if lower k \<in> set stripped then kept else dset k v kept) headers []"

definition headers_doc :: "(ustr \<times> ustr) list \<Rightarrow> json" where
  "headers_doc hs = JObj (map (\<lambda>(k, v). (k, JStr v)) hs)"

definition request_head_frame ::
  "ustr \<Rightarrow> ustr \<Rightarrow> ustr \<Rightarrow> ustr \<Rightarrow> ustr \<Rightarrow> (ustr \<times> ustr) list \<Rightarrow> pydict" where
  "request_head_frame token stream_id method path query headers =
     [(lit ''type'', JStr (lit ''tunnel_request_head'')), (lit ''tunnel_id'', JStr token),
      (lit ''stream_id'', JStr stream_id), (lit ''method'', JStr method),
      (lit ''path'', JStr (lit ''/'' @ path @ (if query \<noteq> [] then lit ''?'' @ query else []))),
      (lit ''headers'', headers_doc (filter_headers headers STRIP_REQUEST))]"

text \<open>The pieces of a chunk, and the frames \<open>_pump_request_body\<close> sends when nothing stops it.\<close>

function pieces :: "int list \<Rightarrow> int list list" where
  "pieces chunk = (if chunk = [] then [] else take MAX_FRAME_BYTES chunk # pieces (drop MAX_FRAME_BYTES chunk))"
  by pat_completeness auto

termination
  by (relation "measure length") (auto simp: MAX_FRAME_BYTES_def)

declare pieces.simps [simp del]

definition half_close_frame :: "ustr \<Rightarrow> ustr \<Rightarrow> json" where
  "half_close_frame token stream_id = JObj [(lit ''type'', JStr (lit ''tunnel_half_close'')),
     (lit ''tunnel_id'', JStr token), (lit ''stream_id'', JStr stream_id)]"

definition data_frame :: "ustr \<Rightarrow> ustr \<Rightarrow> nat \<Rightarrow> int list \<Rightarrow> json" where
  "data_frame token stream_id seq raw = (case encode_data_frame token stream_id (int seq) raw of
       Some frame \<Rightarrow> JObj frame | None \<Rightarrow> JNull)"

definition pump_frames :: "ustr \<Rightarrow> ustr \<Rightarrow> int list list \<Rightarrow> json list" where
  "pump_frames token stream_id chunks =
     map (\<lambda>(seq, raw). data_frame token stream_id seq raw) (enumerate 0 (concat (map pieces chunks)))
     @ [half_close_frame token stream_id]"

text \<open>\<open>_body\<close>: what the public client gets of the queue, the bytes up to the first item that is none.\<close>

fun body_items :: "chunk list \<Rightarrow> int list" where
  "body_items (Payload raw # cs) = raw @ body_items cs"
| "body_items _ = []"

text \<open>
  \<open>_route_tunnel_frame\<close> (\<open>invincible/endpoints/agents.py\<close>): a frame of the machine into the queue of its
  stream; what is malformed or does not fit drops the stream.
\<close>

definition route_tunnel_frame ::
  "int \<Rightarrow> (json \<Rightarrow> ustr) \<Rightarrow> (json \<Rightarrow> int option) \<Rightarrow> pydict \<Rightarrow> tunnel_registry \<Rightarrow> tunnel_registry" where
  "route_tunnel_frame now repr as_status message s =
     (let token = py_str repr (dget_or message (lit ''tunnel_id'') (JStr []));
          stream_id = py_str repr (dget_or message (lit ''stream_id'') (JStr []));
          item = (if dget message (lit ''type'') = JStr (lit ''tunnel_data'')
            then map_option Payload (decode_data_frame (JObj message))
            else map_option (\<lambda>(status, headers). ResponseHead status headers)
              (validate_response_head as_status (JObj message)))
      in case item of
           None \<Rightarrow> drop_stream token stream_id s
         | Some c \<Rightarrow> (case push_to_stream now token stream_id c s of
             (True, s') \<Rightarrow> s' | (False, s') \<Rightarrow> drop_stream token stream_id s'))"

section \<open>The machine's tables\<close>

type_synonym skey = "ustr \<times> ustr"

datatype inbound = Bytes "int list" | WriteEof

text \<open>\<open>_TUNNELS\<close>, the keys of \<open>_STREAMS\<close>, \<open>_INBOUND\<close> and \<open>_STREAM_SEQ\<close>.\<close>

record agent_side =
  ag_tunnels :: "(ustr \<times> int) list"
  ag_streams :: "(skey \<times> unit) list"
  ag_inbound :: "(skey \<times> inbound list) list"
  ag_seq :: "(skey \<times> int) list"

definition no_agent_tunnels :: agent_side where
  "no_agent_tunnels = \<lparr>ag_tunnels = [], ag_streams = [], ag_inbound = [], ag_seq = []\<rparr>"

datatype agent_out = SendFrame pydict | StartStream skey ustr ustr json | CancelStream skey

definition INBOUND_MAXSIZE :: nat where "INBOUND_MAXSIZE = 64"

definition assoc_put :: "'k \<Rightarrow> 'v \<Rightarrow> ('k \<times> 'v) list \<Rightarrow> ('k \<times> 'v) list" where
  "assoc_put k v d = (if map_of d k = None then d @ [(k, v)] else map (\<lambda>(k', v'). if k' = k then (k', v) else (k', v')) d)"

definition without :: "'k \<Rightarrow> ('k \<times> 'v) list \<Rightarrow> ('k \<times> 'v) list" where
  "without k d = filter (\<lambda>(k', _). k' \<noteq> k) d"

definition tunnel_close_frame :: "ustr \<Rightarrow> ustr \<Rightarrow> pydict" where
  "tunnel_close_frame tunnel_id stream_id = [(lit ''type'', JStr (lit ''tunnel_close'')),
     (lit ''tunnel_id'', JStr tunnel_id), (lit ''stream_id'', JStr stream_id)]"

text \<open>\<open>_tunnel_close_stream\<close>.\<close>

definition close_agent_stream :: "skey \<Rightarrow> agent_side \<Rightarrow> agent_out list \<times> agent_side" where
  "close_agent_stream key s =
     ((if map_of (ag_streams s) key \<noteq> None then [CancelStream key] else [])
        @ [SendFrame (tunnel_close_frame (fst key) (snd key))],
      s\<lparr>ag_streams := without key (ag_streams s), ag_inbound := without key (ag_inbound s),
        ag_seq := without key (ag_seq s)\<rparr>)"

fun close_agent_streams :: "skey list \<Rightarrow> agent_side \<Rightarrow> agent_out list \<times> agent_side" where
  "close_agent_streams [] s = ([], s)"
| "close_agent_streams (k # ks) s = (case close_agent_stream k s of (os, s') \<Rightarrow>
     (case close_agent_streams ks s' of (os', s'') \<Rightarrow> (os @ os', s'')))"

text \<open>\<open>_teardown_tunnels\<close>, with a socket.\<close>

definition teardown_tunnels :: "agent_side \<Rightarrow> agent_out list \<times> agent_side" where
  "teardown_tunnels s =
     (map (\<lambda>(k, _). CancelStream k) (ag_streams s)
        @ [SendFrame [(lit ''type'', JStr (lit ''tunnel_close'')), (lit ''tunnel_id'', JStr [])]],
      no_agent_tunnels)"

text \<open>
  \<open>_handle_tunnel_open\<close>: \<open>dials\<close> says whether something listens on a local port; \<open>why\<close> is the text of the
  refusal.
\<close>

definition handle_tunnel_open ::
  "(json \<Rightarrow> ustr) \<Rightarrow> (ustr \<Rightarrow> int option) \<Rightarrow> (int \<Rightarrow> bool) \<Rightarrow> ustr \<Rightarrow> pydict \<Rightarrow> agent_side
   \<Rightarrow> agent_out list \<times> agent_side" where
  "handle_tunnel_open repr whole dials why message s =
     (let tunnel_id = py_str repr (dget_or message (lit ''tunnel_id'') (JStr []));
          refusal = [SendFrame [(lit ''type'', JStr (lit ''tunnel_open_ack'')), (lit ''tunnel_id'', JStr tunnel_id),
            (lit ''ok'', JBool False), (lit ''error'', JStr (take 200 why))]]
      in if tunnel_id = [] then ([], s)
         else (case check_tunnel_port whole (dget_or message (lit ''port'') (JStr [])) of
             None \<Rightarrow> (refusal, s)
           | Some port \<Rightarrow>
               if \<not> dials port then (refusal, s)
               else ([SendFrame [(lit ''type'', JStr (lit ''tunnel_open_ack'')), (lit ''tunnel_id'', JStr tunnel_id),
                   (lit ''ok'', JBool True)]],
                 s\<lparr>ag_tunnels := assoc_put tunnel_id port (ag_tunnels s)\<rparr>)))"

text \<open>\<open>_handle_tunnel_frame\<close>; \<open>fi\<close> is the integer part of a float, as in \<open>int_of_json\<close>.\<close>

definition handle_tunnel_data ::
  "(ustr \<Rightarrow> int option) \<Rightarrow> skey \<Rightarrow> pydict \<Rightarrow> agent_side \<Rightarrow> agent_out list \<times> agent_side" where
  "handle_tunnel_data fi key message s = (case decode_data_frame (JObj message) of
       None \<Rightarrow> close_agent_stream key s
     | Some chunk \<Rightarrow>
         let seq = (case int_of_json fi (dget_or message (lit ''seq'') (JInt (- 1))) of Some i \<Rightarrow> i | None \<Rightarrow> - 1) in
         (case map_of (ag_inbound s) key of
            None \<Rightarrow> close_agent_stream key s
          | Some q \<Rightarrow>
              if seq \<noteq> (case map_of (ag_seq s) key of Some i \<Rightarrow> i | None \<Rightarrow> 0) then close_agent_stream key s
              else let s1 = s\<lparr>ag_seq := assoc_put key (seq + 1) (ag_seq s)\<rparr> in
                if INBOUND_MAXSIZE \<le> length q then close_agent_stream key s1
                else ([], s1\<lparr>ag_inbound := assoc_put key (q @ [Bytes chunk]) (ag_inbound s1)\<rparr>)))"

definition handle_tunnel_frame ::
  "(json \<Rightarrow> ustr) \<Rightarrow> (ustr \<Rightarrow> int option) \<Rightarrow> (ustr \<Rightarrow> int option) \<Rightarrow> (int \<Rightarrow> bool) \<Rightarrow> ustr \<Rightarrow> pydict \<Rightarrow> agent_side
   \<Rightarrow> agent_out list \<times> agent_side" where
  "handle_tunnel_frame repr whole fi dials why message s =
     (let kind = dget message (lit ''type'');
          tunnel_id = py_str repr (dget_or message (lit ''tunnel_id'') (JStr []));
          stream_id = py_str repr (dget_or message (lit ''stream_id'') (JStr []));
          key = (tunnel_id, stream_id)
      in if kind = JStr (lit ''tunnel_open'') then handle_tunnel_open repr whole dials why message s
         else if kind = JStr (lit ''tunnel_close'') \<and> stream_id = [] then
           (let s1 = s\<lparr>ag_tunnels := without tunnel_id (ag_tunnels s)\<rparr>
            in close_agent_streams (filter (\<lambda>k. fst k = tunnel_id) (map fst (ag_streams s1))) s1)
         else if kind = JStr (lit ''tunnel_close'') then close_agent_stream key s
         else if map_of (ag_tunnels s) tunnel_id = None then ([], s)
         else if kind = JStr (lit ''tunnel_request_head'') then
           (case validate_request_head repr (JObj message) of
              None \<Rightarrow> ([], s)
            | Some (method, path, headers) \<Rightarrow>
                if map_of (ag_streams s) key \<noteq> None then ([], s)
                else ([StartStream key method path headers],
                  s\<lparr>ag_inbound := assoc_put key [] (ag_inbound s), ag_seq := assoc_put key 0 (ag_seq s),
                    ag_streams := assoc_put key () (ag_streams s)\<rparr>))
         else if kind = JStr (lit ''tunnel_data'') then handle_tunnel_data fi key message s
         else if kind = JStr (lit ''tunnel_half_close'') then
           (case map_of (ag_inbound s) key of
              None \<Rightarrow> ([], s)
            | Some q \<Rightarrow> if INBOUND_MAXSIZE \<le> length q then ([], s)
                else ([], s\<lparr>ag_inbound := assoc_put key (q @ [WriteEof]) (ag_inbound s)\<rparr>))
         else ([], s))"

text \<open>The pump of a stream takes what is next in its queue.\<close>

definition take_inbound :: "skey \<Rightarrow> agent_side \<Rightarrow> inbound option \<times> agent_side" where
  "take_inbound key s = (case map_of (ag_inbound s) key of
       Some (c # q) \<Rightarrow> (Some c, s\<lparr>ag_inbound := assoc_put key q (ag_inbound s)\<rparr>)
     | _ \<Rightarrow> (None, s))"

section \<open>The exchange with the local service\<close>

definition AGENT_STRIP :: "ustr list" where
  "AGENT_STRIP = map lit [''host'', ''connection'', ''accept-encoding'', ''content-length'', ''authorization'', ''cookie'']"

text \<open>The length the head names, if it is a positive number; \<open>headers.get(a) or headers.get(b) or 0\<close>.\<close>

definition named_length :: "(ustr \<times> ustr) list \<Rightarrow> int option" where
  "named_length headers =
     (let get = (\<lambda>k. case map_of headers (lit k) of Some v \<Rightarrow> v | None \<Rightarrow> []);
          v = (if get ''Content-Length'' \<noteq> [] then get ''Content-Length'' else get ''content-length'')
      in case (if v = [] then Some 0 else parse_int v) of
           Some n \<Rightarrow> if 0 < n then Some n else None
         | None \<Rightarrow> None)"

definition forwarded_headers :: "bool \<Rightarrow> ustr \<Rightarrow> (ustr \<times> ustr) list \<Rightarrow> (ustr \<times> ustr) list" where
  "forwarded_headers has_inbound method headers =
     (let kept = filter (\<lambda>(k, _). lower k \<notin> set AGENT_STRIP) headers in
      if method \<in> set (map lit [''POST'', ''PUT'', ''PATCH'', ''DELETE'', ''OPTIONS'']) \<and> has_inbound
      then (case named_length headers of
          Some n \<Rightarrow> kept @ [(lit ''Content-Length'', dec n)] | None \<Rightarrow> kept)
      else kept)"

definition request_lines :: "bool \<Rightarrow> int \<Rightarrow> ustr \<Rightarrow> ustr \<Rightarrow> (ustr \<times> ustr) list \<Rightarrow> ustr list" where
  "request_lines has_inbound port method path headers =
     [method @ lit '' '' @ path @ lit '' HTTP/1.1'', lit ''Host: 127.0.0.1:'' @ dec port, lit ''Connection: close'',
      lit ''Accept-Encoding: identity'']
     @ map (\<lambda>(k, v). k @ lit '': '' @ v) (forwarded_headers has_inbound method headers)"

text \<open>The bytes written for the head; \<open>None\<close> when it is not Latin-1, which ends the stream.\<close>

definition request_text :: "bool \<Rightarrow> int \<Rightarrow> ustr \<Rightarrow> ustr \<Rightarrow> (ustr \<times> ustr) list \<Rightarrow> ustr option" where
  "request_text has_inbound port method path headers =
     (let s = join [13, 10] (request_lines has_inbound port method path headers) @ [13, 10, 13, 10]
      in if list_all (\<lambda>c. c < 256) s then Some s else None)"

text \<open>Lines that end with CR LF, and \<open>_parse_response_head\<close>.\<close>

fun crlf_lines :: "ustr \<Rightarrow> ustr list" where
  "crlf_lines [] = [[]]"
| "crlf_lines [c] = [[c]]"
| "crlf_lines (c # d # cs) = (if c = 13 \<and> d = 10 then [] # crlf_lines cs
     else (case crlf_lines (d # cs) of [] \<Rightarrow> [[c]] | l # ls \<Rightarrow> (c # l) # ls))"

definition parse_response_head :: "ustr \<Rightarrow> (int \<times> (ustr \<times> ustr) list) option" where
  "parse_response_head head = (case crlf_lines head of
       [] \<Rightarrow> None
     | line # rest \<Rightarrow>
         if line = [] then None
         else (case split_on 32 line of
             version # code # _ \<Rightarrow>
               (case parse_int code of
                  None \<Rightarrow> None
                | Some status \<Rightarrow>
                    if \<not> (100 \<le> status \<and> status \<le> 599) then None
                    else Some (status, fold (\<lambda>l hs. let name = strip (takeWhile (\<lambda>c. c \<noteq> 58) l);
                          v = strip (tl (dropWhile (\<lambda>c. c \<noteq> 58) l))
                        in if name = [] then hs else dset name v hs) (take 100 rest) []))
           | _ \<Rightarrow> None))"

text \<open>
  What \<open>_serve_stream\<close> makes of the answer: whether it is chunked, the headers it sends on, and the
  frames of the body. A body that is not chunked arrives in reads of at most a frame. A chunked one is
  taken apart: \<open>int(size, 16)\<close> of the size line, that many bytes and two more. Whatever goes wrong ends
  the body.
\<close>

definition is_chunked :: "(ustr \<times> ustr) list \<Rightarrow> bool" where
  "is_chunked hs = contains (lit ''chunked'') (lower (case map_of hs (lit ''Transfer-Encoding'') of
     Some v \<Rightarrow> v | None \<Rightarrow> (case map_of hs (lit ''transfer-encoding'') of Some v \<Rightarrow> v | None \<Rightarrow> [])))"

definition relayed_headers :: "(ustr \<times> ustr) list \<Rightarrow> (ustr \<times> ustr) list" where
  "relayed_headers hs =
     (let dropped = map lit [''Transfer-Encoding'', ''transfer-encoding'']
        @ (if is_chunked hs then map lit [''Content-Length'', ''content-length''] else [])
      in filter (\<lambda>(k, _). k \<notin> set dropped) hs)"

fun cut_crlf :: "int list \<Rightarrow> (int list \<times> int list) option" where
  "cut_crlf (c # d # cs) = (if c = 13 \<and> d = 10 then Some ([], cs)
     else map_option (\<lambda>(a, b). (c # a, b)) (cut_crlf (d # cs)))"
| "cut_crlf _ = None"

lemma cut_crlf_shorter: "cut_crlf raw = Some (line, rest) \<Longrightarrow> length rest < length raw"
  by (induction raw arbitrary: line rule: cut_crlf.induct) (auto split: if_splits)

definition hex_digit :: "int \<Rightarrow> int option" where
  "hex_digit c = (if 48 \<le> c \<and> c \<le> 57 then Some (c - 48) else if 97 \<le> c \<and> c \<le> 102 then Some (c - 87)
     else if 65 \<le> c \<and> c \<le> 70 then Some (c - 55) else None)"

text \<open>The digits, with single underscores between them; the flag says that one was just read.\<close>

fun hex_run :: "bool \<Rightarrow> int \<Rightarrow> int list \<Rightarrow> int option" where
  "hex_run digit acc [] = (if digit then Some acc else None)"
| "hex_run digit acc (c # cs) = (if c = 95 \<and> digit then hex_run False acc cs
     else (case hex_digit c of Some v \<Rightarrow> hex_run True (16 * acc + v) cs | None \<Rightarrow> None))"

definition hex_int :: "int list \<Rightarrow> int option" where
  "hex_int raw =
     (let s = strip raw; sign = (if is_prefix (lit ''-'') s then - 1 else 1);
          t = (if is_prefix (lit ''-'') s \<or> is_prefix (lit ''+'') s then tl s else s);
          prefixed = is_prefix (lit ''0x'') t \<or> is_prefix (lit ''0X'') t; d = (if prefixed then drop 2 t else t);
          u = (if prefixed \<and> is_prefix (lit ''_'') d then tl d else d)
      in map_option (\<lambda>n. sign * n) (hex_run False 0 u))"

function relay_chunks :: "ustr \<Rightarrow> ustr \<Rightarrow> nat \<Rightarrow> int list \<Rightarrow> json list" where
  "relay_chunks tunnel_id stream_id seq raw = (case cut_crlf raw of
       None \<Rightarrow> []
     | Some (line, rest) \<Rightarrow>
         (case hex_int (takeWhile (\<lambda>c. c \<noteq> 59) line) of
            None \<Rightarrow> []
          | Some n \<Rightarrow>
              if n \<le> 0 \<or> int (MAX_FRAME_BYTES * 64) < n \<or> length rest < nat n + 2 then []
              else (case encode_data_frame tunnel_id stream_id (int seq) (take (nat n) rest) of
                  None \<Rightarrow> []
                | Some frame \<Rightarrow> JObj frame # relay_chunks tunnel_id stream_id (Suc seq) (drop (nat n + 2) rest))))"
  by pat_completeness auto

termination
  by (relation "measure (\<lambda>(_, _, _, raw). length raw)") (auto dest!: cut_crlf_shorter)

declare relay_chunks.simps [simp del]

definition relay_reads :: "ustr \<Rightarrow> ustr \<Rightarrow> int list list \<Rightarrow> json list" where
  "relay_reads tunnel_id stream_id reads =
     map (\<lambda>(seq, raw). data_frame tunnel_id stream_id seq raw) (enumerate 0 (takeWhile (\<lambda>r. r \<noteq> []) reads))"

section \<open>The head that is written\<close>

lemma crlf_lines_line: "13 \<notin> set l \<Longrightarrow> crlf_lines (l @ 13 # 10 # rest) = l # crlf_lines rest"
proof (induction l)
  case (Cons c l)
  then show ?case by (cases l) auto
qed simp

lemma crlf_lines_join:
  "ls \<noteq> [] \<Longrightarrow> list_all (\<lambda>l. 13 \<notin> set l) ls \<Longrightarrow> crlf_lines (join [13, 10] ls @ 13 # 10 # rest) = ls @ crlf_lines rest"
proof (induction ls)
  case (Cons l ls)
  then show ?case by (cases ls) (auto simp: crlf_lines_line)
qed simp

lemma name_of_line: "58 \<notin> set k \<Longrightarrow> takeWhile (\<lambda>c. c \<noteq> 58) (k @ lit '': '' @ v) = k"
  by (induction k) (auto simp: lit_def)

lemma dec_nat_plain: "list_all (\<lambda>c. 48 \<le> c \<and> c \<le> 57) (dec_nat n)"
  using dec_nat_digits by (simp add: list_all_iff)

definition field_name :: "ustr \<Rightarrow> ustr" where
  "field_name l = lower (takeWhile (\<lambda>c. c \<noteq> 58) l)"

definition header_ok :: "ustr \<times> ustr \<Rightarrow> bool" where
  "header_ok = (\<lambda>(k, v). 13 \<notin> set k \<and> 58 \<notin> set k \<and> 13 \<notin> set v)"

lemma forwarded_fields:
  assumes "list_all header_ok headers" and "(k, v) \<in> set (forwarded_headers b method headers)"
  shows "13 \<notin> set k \<and> 58 \<notin> set k \<and> 13 \<notin> set v"
    and "lower k \<notin> set (map lit [''host'', ''connection'', ''authorization'', ''cookie''])"
proof -
  have digits: "13 \<notin> set (dec n)" for n
    using dec_nat_digits [of 13] by (auto simp: dec_def)
  have plain: "13 \<notin> set (lit ''Content-Length'')" "58 \<notin> set (lit ''Content-Length'')" by (simp_all add: lit_def)
  have "(k, v) \<in> set headers \<and> lower k \<notin> set AGENT_STRIP \<or> k = lit ''Content-Length'' \<and> (\<exists>n. v = dec n)"
    using assms(2) by (auto simp: forwarded_headers_def Let_def split: if_splits option.splits)
  then show "13 \<notin> set k \<and> 58 \<notin> set k \<and> 13 \<notin> set v"
    "lower k \<notin> set (map lit [''host'', ''connection'', ''authorization'', ''cookie''])"
    using assms(1) digits plain
    by (auto simp: header_ok_def list_all_iff AGENT_STRIP_def) (simp_all add: lit_def lower_def lower_char_def)
qed


definition sample_request :: "ustr option" where
  "sample_request = request_text True 3000 (lit ''GET'') (lit ''/'')
     [(lit ''Cookie'', lit ''s=1''), (lit ''accept'', lit ''*''), (lit ''Host'', lit ''bank.local'')]"


text \<open>
  Nothing makes sure of that: the public route hands on the path percent-decoded, and no check looks
  for line ends. With \<open>%0d%0a\<close> in the path a visitor writes header fields of the local request.
\<close>

lemma line_ends_in_the_path_add_fields:
  fixes path :: ustr
  defines "path \<equiv> lit ''x HTTP/1.1'' @ [13, 10] @ lit ''Cookie: s=1'' @ [13, 10] @ lit ''X: ''"
  shows "\<exists>p hs. validate_request_head (\<lambda>_. []) (JObj (request_head_frame [84] [83] (lit ''GET'') path [] []))
      = Some (lit ''GET'', p, JObj hs)
    \<and> (\<exists>raw. request_text True 3000 (lit ''GET'') p [] = Some raw \<and> lit ''Cookie: s=1'' \<in> set (crlf_lines raw))"
proof -
  let ?p = "lit ''/'' @ path"
  have "validate_request_head (\<lambda>_. []) (JObj (request_head_frame [84] [83] (lit ''GET'') path [] []))
      = Some (lit ''GET'', ?p, JObj [])"
    by (simp add: validate_request_head_def request_head_frame_def dget_def dget_or_def dhas_def lit_def upper_text_def
        upper_char_def TUNNEL_METHODS_def head_size_ok_def headers_doc_def filter_headers_def MAX_HEAD_BYTES_def
        path_def py_str.simps)
  moreover obtain raw where t: "request_text True 3000 (lit ''GET'') ?p [] = Some raw"
    "lit ''Cookie: s=1'' \<in> set (crlf_lines raw)"
    by (simp add: request_text_def request_lines_def forwarded_headers_def named_length_def path_def lit_def dec_def
        dec_nat.simps Let_def)
  ultimately show ?thesis by blast
qed

section \<open>Bodies arrive\<close>

lemma concat_pieces: "concat (pieces c) = c"
  by (induction c rule: pieces.induct) (subst pieces.simps, auto)

lemma pieces_fit: "x \<in> set (pieces c) \<Longrightarrow> length x \<le> MAX_FRAME_BYTES \<and> set x \<subseteq> set c"
proof (induction c rule: pieces.induct)
  case (1 c)
  then show ?case using set_take_subset [of MAX_FRAME_BYTES c] set_drop_subset [of MAX_FRAME_BYTES c]
    by (subst (asm) pieces.simps) (auto split: if_splits)
qed

lemma concat_all_pieces: "concat (concat (map pieces chunks)) = concat chunks"
  by (induction chunks) (simp_all add: concat_pieces)

lemma map_of_put [simp]: "map_of (assoc_put k v d) = (map_of d)(k \<mapsto> v)"
proof (cases "map_of d k")
  case None
  then show ?thesis by (auto simp: assoc_put_def map_add_def fun_eq_iff split: option.splits)
next
  case (Some w)
  have "map_of (map (\<lambda>(k', v'). if k' = k then (k', v) else (k', v')) d) x
      = (if x = k \<and> map_of d k \<noteq> None then Some v else map_of d x)" for x
    by (induction d) auto
  then show ?thesis using Some by (simp add: assoc_put_def fun_eq_iff)
qed

lemma map_of_without [simp]: "map_of (without k d) = (map_of d)(k := None)"
  by (induction d) (auto simp: without_def fun_eq_iff)

text \<open>A machine that handles frames while the pump of a stream takes from its queue.\<close>

datatype upload_event = Arrives json | Pumps

fun frame_of :: "json \<Rightarrow> pydict" where
  "frame_of (JObj d) = d"
| "frame_of _ = []"

fun upload_run :: "(json \<Rightarrow> pydict \<Rightarrow> agent_side \<Rightarrow> agent_side) \<Rightarrow> skey \<Rightarrow> upload_event list \<Rightarrow> agent_side \<Rightarrow> inbound list
    \<Rightarrow> agent_side \<times> inbound list" where
  "upload_run handle key [] s taken = (s, taken)"
| "upload_run handle key (Arrives f # es) s taken = upload_run handle key es (handle f (frame_of f) s) taken"
| "upload_run handle key (Pumps # es) s taken = (case take_inbound key s of
     (Some c, s') \<Rightarrow> upload_run handle key es s' (taken @ [c])
   | (None, s') \<Rightarrow> upload_run handle key es s' taken)"

definition on_machine ::
  "(json \<Rightarrow> ustr) \<Rightarrow> (ustr \<Rightarrow> int option) \<Rightarrow> (ustr \<Rightarrow> int option) \<Rightarrow> (int \<Rightarrow> bool) \<Rightarrow> ustr \<Rightarrow> json \<Rightarrow> pydict \<Rightarrow> agent_side
   \<Rightarrow> agent_side" where
  "on_machine repr whole fi dials why f d s = snd (handle_tunnel_frame repr whole fi dials why d s)"

fun arrivals :: "upload_event list \<Rightarrow> json list" where
  "arrivals [] = []"
| "arrivals (Arrives f # es) = f # arrivals es"
| "arrivals (Pumps # es) = arrivals es"

fun inbound_bytes :: "inbound list \<Rightarrow> int list" where
  "inbound_bytes [] = []"
| "inbound_bytes (Bytes b # q) = b @ inbound_bytes q"
| "inbound_bytes (WriteEof # q) = inbound_bytes q"

lemma inbound_bytes_append [simp]: "inbound_bytes (p @ q) = inbound_bytes p @ inbound_bytes q"
  by (induction p rule: inbound_bytes.induct) auto

lemma inbound_bytes_map [simp]: "inbound_bytes (map Bytes ps) = concat ps"
  by (induction ps) auto

text \<open>The state of a stream after \<open>k\<close> of the frames of a body of pieces \<open>ps\<close>: open, or closed for good.\<close>

definition received :: "int list list \<Rightarrow> nat \<Rightarrow> skey \<Rightarrow> inbound list \<Rightarrow> agent_side \<Rightarrow> bool" where
  "received ps k key taken s \<longleftrightarrow> map_of (ag_tunnels s) (fst key) \<noteq> None
     \<and> (case map_of (ag_inbound s) key of
          None \<Rightarrow> INBOUND_MAXSIZE < k
        | Some q \<Rightarrow> map_of (ag_seq s) key = Some (int (min k (length ps))) \<and> length q \<le> k
            \<and> (taken @ q = map Bytes (take k ps) \<or> length ps < k \<and> taken @ q = map Bytes ps @ [WriteEof]
               \<or> length ps < k \<and> INBOUND_MAXSIZE < k \<and> taken @ q = map Bytes ps))"

lemma data_frame_handled:
  assumes "bytes raw" and "length raw \<le> MAX_FRAME_BYTES"
  shows "on_machine repr whole fi dials why (data_frame token sid n raw) (frame_of (data_frame token sid n raw)) s
    = (if map_of (ag_tunnels s) token = None then s
       else case map_of (ag_inbound s) (token, sid) of
         None \<Rightarrow> snd (close_agent_stream (token, sid) s)
       | Some q \<Rightarrow>
           if int n \<noteq> (case map_of (ag_seq s) (token, sid) of Some i \<Rightarrow> i | None \<Rightarrow> 0) then snd (close_agent_stream (token, sid) s)
           else let s1 = s\<lparr>ag_seq := assoc_put (token, sid) (int n + 1) (ag_seq s)\<rparr> in
             if INBOUND_MAXSIZE \<le> length q then snd (close_agent_stream (token, sid) s1)
             else s1\<lparr>ag_inbound := assoc_put (token, sid) (q @ [Bytes raw]) (ag_inbound s1)\<rparr>)"
proof -
  obtain d where d: "encode_data_frame token sid (int n) raw = Some d" using assms(2) by (auto simp: encode_data_frame_def)
  then have frame: "data_frame token sid n raw = JObj d" by (simp add: data_frame_def)
  have fields: "dget d (lit ''type'') = JStr (lit ''tunnel_data'')"
    "dget_or d (lit ''tunnel_id'') (JStr []) = JStr token" "dget_or d (lit ''stream_id'') (JStr []) = JStr sid"
    "dget_or d (lit ''seq'') (JInt (- 1)) = JInt (int n)"
    using d assms(2) by (auto simp: encode_data_frame_def dget_def dget_or_def lit_def)
  have decoded: "decode_data_frame (JObj d) = Some raw"
  proof -
    have "d = [(lit ''type'', JStr (lit ''tunnel_data'')), (lit ''tunnel_id'', JStr token),
        (lit ''stream_id'', JStr sid), (lit ''seq'', JInt (int n)), (lit ''payload_b64'', JStr (b64encode raw))]"
      using d assms(2) by (simp add: encode_data_frame_def)
    then show ?thesis using b64_roundtrip [OF assms(1)] assms(2)
      by (simp add: decode_data_frame_def dget_def dhas_def)
  qed
  have kinds: "(JStr (lit ''tunnel_data'') = JStr (lit ''tunnel_open'')) = False"
    "(JStr (lit ''tunnel_data'') = JStr (lit ''tunnel_close'')) = False"
    "(JStr (lit ''tunnel_data'') = JStr (lit ''tunnel_request_head'')) = False"
    by (simp_all add: lit_def)
  have "handle_tunnel_frame repr whole fi dials why d s
      = (if map_of (ag_tunnels s) token = None then ([], s) else handle_tunnel_data fi (token, sid) d s)"
    unfolding handle_tunnel_frame_def Let_def fields(1-3)
    by (simp only: kinds py_str.simps if_False if_True simp_thms refl)
  then have h: "on_machine repr whole fi dials why (data_frame token sid n raw) (frame_of (data_frame token sid n raw)) s
      = (if map_of (ag_tunnels s) token = None then s else snd (handle_tunnel_data fi (token, sid) d s))"
    unfolding on_machine_def frame frame_of.simps by simp
  have "snd (handle_tunnel_data fi (token, sid) d s) = (case map_of (ag_inbound s) (token, sid) of
         None \<Rightarrow> snd (close_agent_stream (token, sid) s)
       | Some q \<Rightarrow>
           if int n \<noteq> (case map_of (ag_seq s) (token, sid) of Some i \<Rightarrow> i | None \<Rightarrow> 0) then snd (close_agent_stream (token, sid) s)
           else let s1 = s\<lparr>ag_seq := assoc_put (token, sid) (int n + 1) (ag_seq s)\<rparr> in
             if INBOUND_MAXSIZE \<le> length q then snd (close_agent_stream (token, sid) s1)
             else s1\<lparr>ag_inbound := assoc_put (token, sid) (q @ [Bytes raw]) (ag_inbound s1)\<rparr>)"
    unfolding handle_tunnel_data_def decoded fields(4) option.case int_of_json.simps Let_def
    by (cases "map_of (ag_inbound s) (token, sid)") (simp_all add: if_distrib [of snd])
  then show ?thesis unfolding h by (rule arg_cong)
qed

lemma half_close_handled:
  "on_machine repr whole fi dials why (half_close_frame token sid) (frame_of (half_close_frame token sid)) s
    = (if map_of (ag_tunnels s) token = None then s
       else case map_of (ag_inbound s) (token, sid) of
         None \<Rightarrow> s
       | Some q \<Rightarrow> if INBOUND_MAXSIZE \<le> length q then s
           else s\<lparr>ag_inbound := assoc_put (token, sid) (q @ [WriteEof]) (ag_inbound s)\<rparr>)"
proof -
  let ?d = "frame_of (half_close_frame token sid)"
  have fields: "dget ?d (lit ''type'') = JStr (lit ''tunnel_half_close'')"
    "dget_or ?d (lit ''tunnel_id'') (JStr []) = JStr token" "dget_or ?d (lit ''stream_id'') (JStr []) = JStr sid"
    by (simp_all add: half_close_frame_def dget_def dget_or_def lit_def)
  have kinds: "(JStr (lit ''tunnel_half_close'') = JStr (lit ''tunnel_open'')) = False"
    "(JStr (lit ''tunnel_half_close'') = JStr (lit ''tunnel_close'')) = False"
    "(JStr (lit ''tunnel_half_close'') = JStr (lit ''tunnel_request_head'')) = False"
    "(JStr (lit ''tunnel_half_close'') = JStr (lit ''tunnel_data'')) = False"
    by (simp_all add: lit_def)
  show ?thesis unfolding on_machine_def handle_tunnel_frame_def Let_def fields
    by (simp only: kinds py_str.simps if_False if_True simp_thms refl if_distrib [of snd] option.case_distrib [of snd] snd_conv)
qed

lemma received_None: "received ps k key taken s \<Longrightarrow> map_of (ag_inbound s) key = None \<Longrightarrow> INBOUND_MAXSIZE < k"
  by (simp add: received_def)

lemma received_tunnel: "received ps k key taken s \<Longrightarrow> map_of (ag_tunnels s) (fst key) \<noteq> None"
  by (simp add: received_def)

lemma received_closed:
  "map_of (ag_tunnels s) (fst key) \<noteq> None \<Longrightarrow> INBOUND_MAXSIZE < k \<Longrightarrow> received ps k key taken (snd (close_agent_stream key s))"
  by (simp add: received_def close_agent_stream_def)

lemma received_data:
  assumes rec: "received ps k (token, sid) taken s" and k: "k < length ps"
    and ok: "bytes (ps ! k)" "length (ps ! k) \<le> MAX_FRAME_BYTES"
  shows "received ps (Suc k) (token, sid) taken
    (on_machine repr whole fi dials why (data_frame token sid k (ps ! k)) (frame_of (data_frame token sid k (ps ! k))) s)"
proof -
  obtain port where tun: "map_of (ag_tunnels s) token = Some port" using received_tunnel [OF rec] by auto
  show ?thesis
  proof (cases "map_of (ag_inbound s) (token, sid)")
    case None
    then have "INBOUND_MAXSIZE < Suc k" using received_None [OF rec None] by simp
    then show ?thesis using tun None received_closed [of s "(token, sid)" "Suc k" ps taken]
      by (simp add: data_frame_handled [OF ok])
  next
    case (Some q)
    then have q: "map_of (ag_seq s) (token, sid) = Some (int k)" "length q \<le> k" "taken @ q = map Bytes (take k ps)"
      using rec k by (auto simp: received_def)
    show ?thesis
    proof (cases "INBOUND_MAXSIZE \<le> length q")
      case True
      then show ?thesis using tun Some q received_closed [of "s\<lparr>ag_seq := assoc_put (token, sid) (int k + 1) (ag_seq s)\<rparr>" "(token, sid)"]
        by (simp add: data_frame_handled [OF ok])
    next
      case False
      have "taken @ q @ [Bytes (ps ! k)] = map Bytes (take (Suc k) ps)"
        using q(3) k by (simp add: take_Suc_conv_app_nth flip: append_assoc)
      then show ?thesis using tun Some q k False
        by (simp add: data_frame_handled [OF ok] received_def)
    qed
  qed
qed

lemma received_half_close:
  assumes rec: "received ps (length ps) (token, sid) taken s"
  shows "received ps (Suc (length ps)) (token, sid) taken
    (on_machine repr whole fi dials why (half_close_frame token sid) (frame_of (half_close_frame token sid)) s)"
proof (cases "map_of (ag_inbound s) (token, sid)")
  case None
  then show ?thesis using received_tunnel [OF rec] received_None [OF rec None]
    by (simp add: half_close_handled received_def)
next
  case (Some q)
  then have q: "map_of (ag_seq s) (token, sid) = Some (int (length ps))" "length q \<le> length ps" "taken @ q = map Bytes ps"
    using rec by (auto simp: received_def)
  then show ?thesis using Some received_tunnel [OF rec]
    by (auto simp: half_close_handled received_def simp flip: append_assoc)
qed

lemma received_pump:
  assumes rec: "received ps k key taken s"
  shows "case take_inbound key s of (Some c, s') \<Rightarrow> received ps k key (taken @ [c]) s' | (None, s') \<Rightarrow> received ps k key taken s'"
proof (cases "map_of (ag_inbound s) key")
  case None
  then show ?thesis using rec by (simp add: take_inbound_def)
next
  case (Some q)
  then show ?thesis using rec by (cases q) (auto simp: take_inbound_def received_def)
qed

lemma received_run:
  assumes "received ps k (token, sid) taken s" and "list_all bytes ps" and "list_all (\<lambda>p. length p \<le> MAX_FRAME_BYTES) ps"
    and "arrivals es = take j (drop k (map (\<lambda>(i, raw). data_frame token sid i raw) (enumerate 0 ps) @ [half_close_frame token sid]))"
    and "upload_run (on_machine repr whole fi dials why) (token, sid) es s taken = (s', taken')"
  shows "received ps (k + length (arrivals es)) (token, sid) taken' s'"
  using assms(1,4,5)
proof (induction es arbitrary: k j s taken)
  case (Cons e es)
  let ?F = "map (\<lambda>(i, raw). data_frame token sid i raw) (enumerate 0 ps) @ [half_close_frame token sid]"
  show ?case
  proof (cases e)
    case (Arrives f)
    then have taken_F: "take j (drop k ?F) = f # arrivals es" using Cons.prems(2) by simp
    obtain i where j: "j = Suc i" using taken_F by (cases j) simp_all
    have "drop k ?F \<noteq> []" using taken_F by (metis list.distinct(1) take_Nil)
    then have k: "k < length ?F" unfolding drop_eq_Nil by (rule not_le_imp_less)
    then have dr: "drop k ?F = ?F ! k # drop (Suc k) ?F" by (rule Cons_nth_drop_Suc [symmetric])
    then have f: "f = ?F ! k" and rest: "arrivals es = take i (drop (Suc k) ?F)"
      using taken_F unfolding dr j take_Suc_Cons list.inject by simp_all
    have "received ps (Suc k) (token, sid) taken (on_machine repr whole fi dials why f (frame_of f) s)"
    proof (cases "k < length ps")
      case True
      then have "f = data_frame token sid k (ps ! k)" using f by (simp add: nth_append nth_enumerate_eq)
      then show ?thesis using received_data [OF Cons.prems(1) True] assms(2,3) True by (simp add: list_all_length)
    next
      case False
      then have "k = length ps" using k by simp
      then show ?thesis using f received_half_close Cons.prems(1) by (simp add: nth_append)
    qed
    from Cons.IH [OF this rest] Cons.prems(3) show ?thesis by (simp add: Arrives)
  next
    case Pumps
    show ?thesis
    proof (cases "take_inbound (token, sid) s")
      case (Pair c t)
      have arr: "arrivals es = take j (drop k ?F)" using Cons.prems(2) unfolding Pumps arrivals.simps .
      note pump = received_pump [OF Cons.prems(1), unfolded Pair prod.case]
      show ?thesis
      proof (cases c)
        case None
        then have "received ps k (token, sid) taken t" using pump by simp
        from Cons.IH [OF this arr] show ?thesis using Cons.prems(3) unfolding Pumps arrivals.simps
          by (simp add: Pair None)
      next
        case (Some x)
        then have "received ps k (token, sid) (taken @ [x]) t" using pump by simp
        from Cons.IH [OF this arr] show ?thesis using Cons.prems(3) unfolding Pumps arrivals.simps
          by (simp add: Pair Some)
      qed
    qed
  qed
qed simp

text \<open>
  C38: what a visitor uploads reaches the local service in order. While the frames of a body come in,
  in whatever rhythm they are taken from the queue, the bytes taken and queued are those of the
  frames that came in, none lost, doubled or swapped; the end of the body is signalled only after all
  of it; and a stream is closed only when more than the 64 chunks its queue holds came in.
\<close>

theorem uploads_arrive_in_order:
  assumes "list_all bytes chunks" and "map_of (ag_tunnels s) token \<noteq> None"
    and "map_of (ag_inbound s) (token, sid) = Some []" and "map_of (ag_seq s) (token, sid) = Some 0"
    and "arrivals es = take k (pump_frames token sid chunks)"
    and "upload_run (on_machine repr whole fi dials why) (token, sid) es s [] = (s', taken)"
  shows "case map_of (ag_inbound s') (token, sid) of
      None \<Rightarrow> INBOUND_MAXSIZE < length (arrivals es)
    | Some q \<Rightarrow> inbound_bytes (taken @ q) = concat (take (length (arrivals es)) (concat (map pieces chunks)))
        \<and> (WriteEof \<in> set (taken @ q) \<longrightarrow> inbound_bytes (taken @ q) = concat chunks)"
proof -
  let ?ps = "concat (map pieces chunks)"
  have ps: "list_all bytes ?ps" "list_all (\<lambda>p. length p \<le> MAX_FRAME_BYTES) ?ps"
    using assms(1) pieces_fit by (fastforce simp: list_all_iff bytes_def)+
  have "received ?ps 0 (token, sid) [] s" using assms(2-4) by (simp add: received_def)
  from received_run [OF this ps _ assms(6), of k] assms(5)
  have rec: "received ?ps (length (arrivals es)) (token, sid) taken s'" by (simp add: pump_frames_def)
  show ?thesis
  proof (cases "map_of (ag_inbound s') (token, sid)")
    case None
    then show ?thesis using received_None [OF rec] by simp
  next
    case (Some q)
    have eof: "WriteEof \<notin> set (map Bytes xs)" for xs by auto
    have all: "inbound_bytes (map Bytes ?ps) = concat chunks" by (simp only: inbound_bytes_map concat_all_pieces)
    from rec Some consider "taken @ q = map Bytes (take (length (arrivals es)) ?ps)"
      | "length ?ps < length (arrivals es)" "taken @ q = map Bytes ?ps @ [WriteEof]"
      | "length ?ps < length (arrivals es)" "taken @ q = map Bytes ?ps"
      by (auto simp: received_def)
    then show ?thesis
    proof cases
      case 1
      then show ?thesis unfolding Some option.case 1 using eof by simp
    next
      case 2
      then show ?thesis unfolding Some option.case 2(2) using all by simp
    next
      case 3
      then show ?thesis unfolding Some option.case 3(2) using all by simp
    qed
  qed
qed

definition demo_stream :: agent_side where
  "demo_stream = \<lparr>ag_tunnels = [(lit ''T'', 3000)], ag_streams = [((lit ''T'', lit ''S''), ())],
     ag_inbound = [((lit ''T'', lit ''S''), [])], ag_seq = [((lit ''T'', lit ''S''), 0)]\<rparr>"

definition demo_upload :: "upload_event list" where
  "demo_upload = [Arrives (data_frame (lit ''T'') (lit ''S'') 0 [104, 105]), Pumps,
     Arrives (data_frame (lit ''T'') (lit ''S'') 1 [33]), Arrives (half_close_frame (lit ''T'') (lit ''S''))]"

abbreviation demo_machine :: "json \<Rightarrow> pydict \<Rightarrow> agent_side \<Rightarrow> agent_side" where
  "demo_machine \<equiv> on_machine (\<lambda>_. []) (\<lambda>_. None) (\<lambda>_. None) (\<lambda>_. True) []"

lemma uploads_arrive_in_order_witness:
  "\<exists>s' taken. upload_run demo_machine (lit ''T'', lit ''S'') demo_upload demo_stream [] = (s', taken)
     \<and> (\<exists>q. map_of (ag_inbound s') (lit ''T'', lit ''S'') = Some q \<and> inbound_bytes (taken @ q) = [104, 105, 33])"
proof -
  let ?cs = "[[104, 105], [33]] :: int list list"
  obtain s' taken where run: "upload_run demo_machine (lit ''T'', lit ''S'') demo_upload demo_stream [] = (s', taken)"
    by fastforce
  have p: "pieces [104, 105] = [[104, 105]]" "pieces [33] = [[33]]"
    by (simp_all add: pieces.simps MAX_FRAME_BYTES_def)
  have arr: "arrivals demo_upload = take 3 (pump_frames (lit ''T'') (lit ''S'') ?cs)"
    by (simp add: demo_upload_def pump_frames_def p)
  have three: "length (arrivals demo_upload) = 3" by (simp add: demo_upload_def)
  have "list_all bytes ?cs" "map_of (ag_tunnels demo_stream) (lit ''T'') \<noteq> None"
    "map_of (ag_inbound demo_stream) (lit ''T'', lit ''S'') = Some []"
    "map_of (ag_seq demo_stream) (lit ''T'', lit ''S'') = Some 0"
    by (simp_all add: demo_stream_def bytes_def)
  from uploads_arrive_in_order [OF this arr run] show ?thesis
    using run by (auto simp: three INBOUND_MAXSIZE_def p split: option.splits)
qed

text \<open>The end of a body that comes while the queue is full is dropped, and the local service waits on.\<close>

lemma lost_half_close:
  assumes "map_of (ag_inbound s) (token, sid) = Some q" and "INBOUND_MAXSIZE \<le> length q"
  shows "on_machine repr whole fi dials why (half_close_frame token sid) (frame_of (half_close_frame token sid)) s = s"
  using assms by (simp add: half_close_handled)

text \<open>
  An answer whose chunks fit into frames is relayed; a chunk that is longer ends the answer, as if it
  had been complete: nothing of it or after it is sent.
\<close>

lemma chunk_relayed:
  assumes "cut_crlf raw = Some (line, data @ 13 # 10 # rest)"
    and "hex_int (takeWhile (\<lambda>c. c \<noteq> 59) line) = Some (int (length data))"
    and "data \<noteq> []" and "length data \<le> MAX_FRAME_BYTES"
  shows "relay_chunks token sid n raw = data_frame token sid n data # relay_chunks token sid (Suc n) rest"
  using assms by (simp add: relay_chunks.simps [of token sid n raw] data_frame_def encode_data_frame_def MAX_FRAME_BYTES_def)

lemma long_chunks_end_the_answer:
  assumes "cut_crlf raw = Some (line, rest)" and "hex_int (takeWhile (\<lambda>c. c \<noteq> 59) line) = Some n"
    and "int MAX_FRAME_BYTES < n"
  shows "relay_chunks token sid k raw = []"
  using assms by (auto simp: relay_chunks.simps [of token sid k raw] encode_data_frame_def)

end
