(* ===== verification/SearchTools.thy ===== *)
theory SearchTools
  imports FileTools Denylist
begin

text \<open>
  The read-only machine tools of \<open>invincible/core/tool_executor.py\<close>: \<open>_walk_search\<close> and \<open>_search_code\<close>,
  \<open>_list_dir\<close>, \<open>_walk_find\<close> and \<open>_find_files\<close>, \<open>_git_status\<close>, \<open>_git_diff\<close>, \<open>_git_log\<close> and
  \<open>_list_processes\<close>, with their entries that check the path first, and what they use of the standard
  library: \<open>expanduser\<close> and \<open>abspath\<close> (POSIX), \<open>os.walk\<close> and \<open>fnmatch\<close>. A directory is a tree; what a
  subprocess prints is an argument. Texts of error messages are left out.
\<close>

section \<open>Names of files\<close>

text \<open>
  \<open>os.path.expanduser\<close>; \<open>home\<close> knows the home directory of a user, and under the empty name the own
  one. Without an entry the path stays.
\<close>

definition rstrip_slashes :: "ustr \<Rightarrow> ustr" where
  "rstrip_slashes s = rev (dropWhile (\<lambda>c. c = 47) (rev s))"

definition expanduser :: "(ustr \<Rightarrow> ustr option) \<Rightarrow> ustr \<Rightarrow> ustr" where
  "expanduser home path = (case path of
       [] \<Rightarrow> []
     | c # rest \<Rightarrow>
         if c \<noteq> 126 then path
         else (case home (takeWhile (\<lambda>x. x \<noteq> 47) rest) of
             None \<Rightarrow> path
           | Some h \<Rightarrow>
               let p = rstrip_slashes h @ dropWhile (\<lambda>x. x \<noteq> 47) rest
               in if p = [] then lit ''/'' else p))"

text \<open>\<open>os.path.abspath\<close> as a list of components.\<close>

fun norm_parts :: "ustr list \<Rightarrow> ustr list \<Rightarrow> ustr list" where
  "norm_parts acc [] = acc"
| "norm_parts acc (p # ps) =
     (if p = [] \<or> p = lit ''.'' then norm_parts acc ps
      else if p = lit ''..'' then norm_parts (butlast acc) ps
      else norm_parts (acc @ [p]) ps)"

definition abspath :: "ustr list \<Rightarrow> ustr \<Rightarrow> ustr list" where
  "abspath cwd path = norm_parts (if is_prefix (lit ''/'') path then [] else cwd) (split_on 47 path)"

definition path_text :: "ustr list \<Rightarrow> ustr" where
  "path_text ps = lit ''/'' @ join (lit ''/'') ps"

text \<open>The file the search and listing tools work on: \<open>abspath(expanduser(path or "."))\<close>.\<close>

definition target_of :: "(ustr \<Rightarrow> ustr option) \<Rightarrow> ustr list \<Rightarrow> ustr \<Rightarrow> ustr list" where
  "target_of home cwd path = abspath cwd (expanduser home (if path = [] then lit ''.'' else path))"

section \<open>Trees\<close>

text \<open>
  What the tools see of a file: its size (\<open>None\<close> when \<open>getsize\<close> raises), whether its first 8192 bytes
  can be read and hold no null byte, its text (with the line ends of text mode; \<open>None\<close> when it cannot
  be opened), and the size of the entry itself. A link to a file shows the target's text; a link to a
  directory shows the target's entries, has a size of its own, and the walk does not enter it.
\<close>

record file_view =
  fv_size :: "nat option"
  fv_probe :: bool
  fv_text :: "ustr option"
  fv_entry_size :: nat

datatype node = Folder "nat option" "(ustr \<times> node) list" | File file_view

fun file_entry :: "ustr \<times> node \<Rightarrow> (ustr \<times> file_view) option" where
  "file_entry (n, File v) = Some (n, v)"
| "file_entry _ = None"

fun node_at :: "ustr list \<Rightarrow> node \<Rightarrow> node option" where
  "node_at [] t = Some t"
| "node_at (p # ps) (Folder link es) = (case map_of es p of None \<Rightarrow> None | Some t \<Rightarrow> node_at ps t)"
| "node_at (p # ps) _ = None"

lemma size_of_entry: "(n, t) \<in> set es \<Longrightarrow> size t < Suc (size_list (size_prod (\<lambda>_. 0) size) es)"
  by (induction es) auto

text \<open>
  \<open>os.walk\<close>, top down, with the directory names replaced by the sorted ones that \<open>keep\<close> keeps, and the
  sorted file names: the directories it visits, each with its files.
\<close>

function os_walk :: "(ustr \<Rightarrow> bool) \<Rightarrow> ustr list \<Rightarrow> (ustr \<times> node) list \<Rightarrow> (ustr list \<times> (ustr \<times> file_view) list) list" where
  "os_walk keep dir es = (dir, sort_by_key (List.map_filter file_entry es))
     # concat (map (\<lambda>(n, t). case t of Folder None sub \<Rightarrow> os_walk keep (dir @ [n]) sub | _ \<Rightarrow> [])
         (sort_by_key (filter (\<lambda>(n, t). keep n) es)))"
  by pat_completeness auto

termination
  by (relation "measure (\<lambda>(keep, dir, es). size_list (size_prod (\<lambda>_. 0) size) es)")
     (auto dest: size_of_entry)

declare os_walk.simps [simp del]

section \<open>Searching\<close>

definition SEARCH_DEFAULT_MAX_RESULTS :: int where "SEARCH_DEFAULT_MAX_RESULTS = 20"
definition SEARCH_MAX_RESULTS_CAP :: int where "SEARCH_MAX_RESULTS_CAP = 50"
definition SEARCH_FILE_BYTES_CAP :: nat where "SEARCH_FILE_BYTES_CAP = 262144"

definition SEARCH_SKIP_DIRS :: "ustr list" where
  "SEARCH_SKIP_DIRS = map lit [''.git'', ''node_modules'', ''__pycache__'', ''.venv'', ''venv'', ''dist'',
     ''build'', ''.pytest_cache'', ''.ruff_cache'']"

type_synonym hit = "ustr list \<times> nat \<times> ustr"

text \<open>The loops of \<open>_walk_search\<close>; the flag says that it returned.\<close>

fun search_lines ::
  "(ustr \<Rightarrow> ustr) \<Rightarrow> ustr \<Rightarrow> ustr list \<Rightarrow> nat \<Rightarrow> nat \<Rightarrow> ustr list \<Rightarrow> hit list \<Rightarrow> hit list \<times> bool" where
  "search_lines to_lower lowered full max_results lineno [] hits = (hits, False)"
| "search_lines to_lower lowered full max_results lineno (l # ls) hits =
     (if contains lowered (to_lower l) then
        (let hits' = hits @ [(full, lineno, take 300 (strip l))]
         in if max_results \<le> length hits' then (hits', True)
            else search_lines to_lower lowered full max_results (Suc lineno) ls hits')
      else search_lines to_lower lowered full max_results (Suc lineno) ls hits)"

definition searchable :: "file_view \<Rightarrow> bool" where
  "searchable v \<longleftrightarrow> (case fv_size v of None \<Rightarrow> False | Some n \<Rightarrow> n \<le> SEARCH_FILE_BYTES_CAP) \<and> fv_probe v"

fun search_files ::
  "(ustr \<Rightarrow> ustr) \<Rightarrow> ustr \<Rightarrow> nat \<Rightarrow> ustr list \<Rightarrow> (ustr \<times> file_view) list \<Rightarrow> hit list \<Rightarrow> nat \<Rightarrow> (hit list \<times> nat) \<times> bool" where
  "search_files to_lower lowered max_results dir [] hits searched = ((hits, searched), False)"
| "search_files to_lower lowered max_results dir ((n, v) # fs) hits searched =
     (if max_results \<le> length hits then ((hits, searched), True)
      else if \<not> searchable v then search_files to_lower lowered max_results dir fs hits searched
      else (case fv_text v of
          None \<Rightarrow> search_files to_lower lowered max_results dir fs hits (Suc searched)
        | Some text \<Rightarrow>
            (case search_lines to_lower lowered (dir @ [n]) max_results 1 (lines text) hits of
               (hits', True) \<Rightarrow> ((hits', Suc searched), True)
             | (hits', False) \<Rightarrow> search_files to_lower lowered max_results dir fs hits' (Suc searched))))"

fun search_dirs ::
  "(ustr \<Rightarrow> ustr) \<Rightarrow> ustr \<Rightarrow> nat \<Rightarrow> (ustr list \<times> (ustr \<times> file_view) list) list \<Rightarrow> hit list \<Rightarrow> nat
   \<Rightarrow> hit list \<times> nat \<times> bool" where
  "search_dirs to_lower lowered max_results [] hits searched = (hits, searched, False)"
| "search_dirs to_lower lowered max_results ((dir, fs) # ds) hits searched =
     (case search_files to_lower lowered max_results dir fs hits searched of
        ((hits', searched'), True) \<Rightarrow> (hits', searched', True)
      | ((hits', searched'), False) \<Rightarrow> search_dirs to_lower lowered max_results ds hits' searched')"

definition walk_search ::
  "(ustr \<Rightarrow> ustr) \<Rightarrow> ustr \<Rightarrow> ustr list \<Rightarrow> (ustr \<times> node) list \<Rightarrow> nat \<Rightarrow> hit list \<times> nat \<times> bool" where
  "walk_search to_lower pattern root es max_results =
     search_dirs to_lower (to_lower pattern) max_results
       (os_walk (\<lambda>d. d \<notin> set SEARCH_SKIP_DIRS) root es) [] 0"

datatype search_result = SearchError | SearchHits "hit list" bool nat

definition clamp :: "int \<Rightarrow> int \<Rightarrow> int \<Rightarrow> nat" where
  "clamp dflt cap n = nat (max 1 (min (if n = 0 then dflt else n) cap))"

text \<open>
  \<open>_search_code\<close> on the machine's tree \<open>fs\<close>; \<open>rg\<close> is what ripgrep found under a target with a limit,
  \<open>None\<close> when it is not there or fails. Without it a single file is searched through its directory.
\<close>

definition search_code_in ::
  "(ustr \<Rightarrow> ustr) \<Rightarrow> (ustr \<Rightarrow> ustr option) \<Rightarrow> ustr list \<Rightarrow> node \<Rightarrow> (ustr \<Rightarrow> ustr list \<Rightarrow> nat \<Rightarrow> (hit list \<times> nat \<times> bool) option)
   \<Rightarrow> ustr \<Rightarrow> ustr \<Rightarrow> int \<Rightarrow> search_result" where
  "search_code_in to_lower home cwd fs rg pattern path max_results =
     (if strip pattern = [] then SearchError
      else let limit = clamp SEARCH_DEFAULT_MAX_RESULTS SEARCH_MAX_RESULTS_CAP max_results;
               target = target_of home cwd path
      in case node_at target fs of
           Some (File v) \<Rightarrow>
             if \<not> fv_probe v then SearchHits [] False 0
             else (case rg pattern target limit of
                 Some (hits, files, truncated) \<Rightarrow> SearchHits hits truncated files
               | None \<Rightarrow>
                   (case node_at (butlast target) fs of
                      Some (Folder link es) \<Rightarrow>
                        (case walk_search to_lower pattern (butlast target) es limit of
                           (hits, _, truncated) \<Rightarrow>
                             SearchHits (take limit (filter (\<lambda>(p, _). p = target) hits)) truncated 1)
                    | _ \<Rightarrow> SearchHits [] False 1))
         | Some (Folder link es) \<Rightarrow>
             (case rg pattern target limit of
                Some (hits, files, truncated) \<Rightarrow> SearchHits hits truncated files
              | None \<Rightarrow> (case walk_search to_lower pattern target es limit of
                  (hits, files, truncated) \<Rightarrow> SearchHits hits truncated files))
         | _ \<Rightarrow> SearchError)"

text \<open>\<open>search_code\<close>, the server's entry: \<open>None\<close> is blocked.\<close>

definition search_code ::
  "paths \<Rightarrow> (ustr \<Rightarrow> ustr) \<Rightarrow> (ustr \<Rightarrow> ustr option) \<Rightarrow> ustr list \<Rightarrow> node \<Rightarrow> (ustr \<Rightarrow> ustr list \<Rightarrow> nat \<Rightarrow> (hit list \<times> nat \<times> bool) option)
   \<Rightarrow> ustr \<Rightarrow> ustr \<Rightarrow> int \<Rightarrow> search_result option" where
  "search_code ps to_lower home cwd fs rg pattern path max_results =
     (if check_read_denylist ps (if path = [] then lit ''.'' else path) then None
      else Some (search_code_in to_lower home cwd fs rg pattern path max_results))"

section \<open>Listing and finding\<close>

definition LIST_DIR_DEFAULT_LIMIT :: int where "LIST_DIR_DEFAULT_LIMIT = 100"
definition LIST_DIR_LIMIT_CAP :: int where "LIST_DIR_LIMIT_CAP = 500"
definition FIND_DEFAULT_MAX_RESULTS :: int where "FIND_DEFAULT_MAX_RESULTS = 20"
definition FIND_MAX_RESULTS_CAP :: int where "FIND_MAX_RESULTS_CAP = 50"

text \<open>An entry of a listing: its name, whether it is a directory, its size.\<close>

fun listed :: "ustr \<times> node \<Rightarrow> ustr \<times> bool \<times> nat" where
  "listed (n, Folder None es) = (n, True, 0)"
| "listed (n, Folder (Some bytes) es) = (n, False, bytes)"
| "listed (n, File v) = (n, False, fv_entry_size v)"

definition hidden :: "ustr \<Rightarrow> bool" where
  "hidden n \<longleftrightarrow> is_prefix (lit ''.'') n"

datatype list_result = ListError | Listing "(ustr \<times> bool \<times> nat) list" bool

text \<open>Directories first, each group by its lower-cased names; Python's sort is stable.\<close>

definition by_lower_name :: "(ustr \<Rightarrow> ustr) \<Rightarrow> (ustr \<times> bool \<times> nat) list \<Rightarrow> (ustr \<times> bool \<times> nat) list" where
  "by_lower_name to_lower es = map snd (sort_by_key (map (\<lambda>e. (to_lower (fst e), e)) es))"

definition list_dir_in ::
  "(ustr \<Rightarrow> ustr) \<Rightarrow> (ustr \<Rightarrow> ustr option) \<Rightarrow> ustr list \<Rightarrow> node \<Rightarrow> ustr \<Rightarrow> int \<Rightarrow> bool \<Rightarrow> list_result" where
  "list_dir_in to_lower home cwd fs path limit show_hidden =
     (case node_at (target_of home cwd path) fs of
        Some (Folder link es) \<Rightarrow>
          let capped = clamp LIST_DIR_DEFAULT_LIMIT LIST_DIR_LIMIT_CAP limit;
              entries = map listed (filter (\<lambda>(n, t). show_hidden \<or> \<not> hidden n) es);
              sorted_entries = by_lower_name to_lower (filter (fst \<circ> snd) entries)
                @ by_lower_name to_lower (filter (\<lambda>e. \<not> fst (snd e)) entries)
          in Listing (take capped sorted_entries) (capped < length sorted_entries)
      | _ \<Rightarrow> ListError)"

text \<open>
  \<open>fnmatch.fnmatchcase\<close>: a star, a question mark, a set in brackets (with \<open>!\<close> for the complement and
  ranges; a bracket that is not closed is a plain character), other characters.
\<close>

datatype glob_item = AnyText | AnyChar | CharSet bool "(int \<times> int) list" | Char int

fun set_ranges :: "ustr \<Rightarrow> (int \<times> int) list" where
  "set_ranges (x # d # y # cs) = (if d = 45 then (x, y) # set_ranges cs else (x, x) # set_ranges (d # y # cs))"
| "set_ranges (x # cs) = (x, x) # set_ranges cs"
| "set_ranges [] = []"

text \<open>Where a set ends: the text up to the closing bracket, which may not come first.\<close>

definition set_end :: "ustr \<Rightarrow> (ustr \<times> ustr) option" where
  "set_end cs =
     (let bang = (if is_prefix (lit ''!'') cs then lit ''!'' else []); rest = drop (length bang) cs;
          close = (if is_prefix (lit '']'') rest then lit '']'' else []); body = drop (length close) rest
      in if 93 \<in> set body
         then Some (bang @ close @ takeWhile (\<lambda>c. c \<noteq> 93) body, tl (dropWhile (\<lambda>c. c \<noteq> 93) body))
         else None)"

lemma set_end_shorter: "set_end cs = Some (stuff, rest) \<Longrightarrow> length rest < length cs"
proof -
  assume "set_end cs = Some (stuff, rest)"
  then obtain k where k: "93 \<in> set (drop k cs)" "rest = tl (dropWhile (\<lambda>c. c \<noteq> 93) (drop k cs))"
    by (auto simp: set_end_def Let_def drop_drop simp del: drop_drop [symmetric] split: if_splits)
  then have "dropWhile (\<lambda>c. c \<noteq> 93) (drop k cs) \<noteq> []" by (simp add: dropWhile_eq_Nil_conv)
  then have "length rest < length (dropWhile (\<lambda>c. c \<noteq> 93) (drop k cs))" by (simp add: k(2))
  also have "\<dots> \<le> length (drop k cs)" by (rule length_dropWhile_le)
  finally show ?thesis by simp
qed

function glob_items :: "ustr \<Rightarrow> glob_item list" where
  "glob_items [] = []"
| "glob_items (c # cs) =
     (if c = 42 then AnyText # glob_items cs
      else if c = 63 then AnyChar # glob_items cs
      else if c = 91 then
        (case set_end cs of
           None \<Rightarrow> Char 91 # glob_items cs
         | Some (stuff, rest) \<Rightarrow>
             (if is_prefix (lit ''!'') stuff then CharSet True (set_ranges (tl stuff)) else CharSet False (set_ranges stuff))
             # glob_items rest)
      else Char c # glob_items cs)"
  by pat_completeness auto

termination
  by (relation "measure length") (auto dest: set_end_shorter)

fun glob_match :: "glob_item list \<Rightarrow> ustr \<Rightarrow> bool" where
  "glob_match [] s = (s = [])"
| "glob_match (AnyText # gs) [] = glob_match gs []"
| "glob_match (AnyText # gs) (c # cs) = (glob_match gs (c # cs) \<or> glob_match (AnyText # gs) cs)"
| "glob_match (AnyChar # gs) s = (case s of [] \<Rightarrow> False | c # cs \<Rightarrow> glob_match gs cs)"
| "glob_match (CharSet negated rs # gs) s = (case s of [] \<Rightarrow> False
     | c # cs \<Rightarrow> list_ex (\<lambda>(a, b). a \<le> c \<and> c \<le> b) rs \<noteq> negated \<and> glob_match gs cs)"
| "glob_match (Char x # gs) s = (case s of [] \<Rightarrow> False | c # cs \<Rightarrow> c = x \<and> glob_match gs cs)"

definition fnmatchcase :: "ustr \<Rightarrow> ustr \<Rightarrow> bool" where
  "fnmatchcase name pattern = glob_match (glob_items pattern) name"

text \<open>The loops of \<open>_walk_find\<close> and \<open>_find_files\<close>.\<close>

fun find_in_files ::
  "ustr \<Rightarrow> nat \<Rightarrow> bool \<Rightarrow> ustr list \<Rightarrow> (ustr \<times> file_view) list \<Rightarrow> ustr list list \<Rightarrow> nat \<Rightarrow> (ustr list list \<times> nat) \<times> bool" where
  "find_in_files pattern max_results show_hidden dir [] matches scanned = ((matches, scanned), False)"
| "find_in_files pattern max_results show_hidden dir ((n, v) # fs) matches scanned =
     (if \<not> show_hidden \<and> hidden n then find_in_files pattern max_results show_hidden dir fs matches scanned
      else if fnmatchcase n pattern then
        (let matches' = matches @ [dir @ [n]]
         in if max_results \<le> length matches' then ((matches', Suc scanned), True)
            else find_in_files pattern max_results show_hidden dir fs matches' (Suc scanned))
      else find_in_files pattern max_results show_hidden dir fs matches (Suc scanned))"

fun find_in_dirs ::
  "ustr \<Rightarrow> nat \<Rightarrow> bool \<Rightarrow> (ustr list \<times> (ustr \<times> file_view) list) list \<Rightarrow> ustr list list \<Rightarrow> nat \<Rightarrow> ustr list list \<times> nat \<times> bool" where
  "find_in_dirs pattern max_results show_hidden [] matches scanned = (matches, scanned, False)"
| "find_in_dirs pattern max_results show_hidden ((dir, fs) # ds) matches scanned =
     (case find_in_files pattern max_results show_hidden dir fs matches scanned of
        ((matches', scanned'), True) \<Rightarrow> (matches', scanned', True)
      | ((matches', scanned'), False) \<Rightarrow> find_in_dirs pattern max_results show_hidden ds matches' scanned')"

definition walk_find :: "ustr \<Rightarrow> ustr list \<Rightarrow> (ustr \<times> node) list \<Rightarrow> nat \<Rightarrow> bool \<Rightarrow> ustr list list \<times> nat \<times> bool" where
  "walk_find pattern root es max_results show_hidden =
     find_in_dirs pattern max_results show_hidden
       (os_walk (\<lambda>d. d \<notin> set SEARCH_SKIP_DIRS \<and> (show_hidden \<or> \<not> hidden d)) root es) [] 0"

datatype find_result = FindError | Found "ustr list list" bool nat

definition find_files_in ::
  "(ustr \<Rightarrow> ustr option) \<Rightarrow> ustr list \<Rightarrow> node \<Rightarrow> ustr \<Rightarrow> ustr \<Rightarrow> int \<Rightarrow> bool \<Rightarrow> find_result" where
  "find_files_in home cwd fs pattern path max_results show_hidden =
     (if strip pattern = [] \<or> 47 \<in> set pattern \<or> 92 \<in> set pattern then FindError
      else let limit = clamp FIND_DEFAULT_MAX_RESULTS FIND_MAX_RESULTS_CAP max_results;
               target = target_of home cwd path
      in case node_at target fs of
           Some (File v) \<Rightarrow> Found (if fnmatchcase (last target) pattern then [target] else []) False 1
         | Some (Folder link es) \<Rightarrow>
             (case walk_find pattern target es limit show_hidden of
                (matches, scanned, truncated) \<Rightarrow> Found matches truncated scanned)
         | None \<Rightarrow> FindError)"

section \<open>Git and processes\<close>

text \<open>What \<open>_git_run\<close> gives: the output, or no success. \<open>git\<close> runs a command in a directory.\<close>

type_synonym git = "ustr list \<Rightarrow> ustr list \<Rightarrow> ustr option"

definition GIT_LOG_DEFAULT_LIMIT :: int where "GIT_LOG_DEFAULT_LIMIT = 20"
definition GIT_LOG_LIMIT_CAP :: int where "GIT_LOG_LIMIT_CAP = 50"
definition GIT_DIFF_BYTES_CAP :: nat where "GIT_DIFF_BYTES_CAP = 102400"

text \<open>The branch of the last header line and the other lines.\<close>

fun status_lines :: "ustr list \<Rightarrow> ustr \<Rightarrow> ustr list \<Rightarrow> ustr \<times> ustr list" where
  "status_lines [] branch changes = (branch, changes)"
| "status_lines (l # ls) branch changes =
     (if is_prefix (lit ''##'') l then status_lines ls (strip (drop 2 l)) changes
      else status_lines ls branch (changes @ [l]))"

definition git_status :: "git \<Rightarrow> ustr list \<Rightarrow> (ustr \<times> bool \<times> ustr list) option" where
  "git_status git target = (case git target (map lit [''status'', ''--short'', ''--branch'']) of
       None \<Rightarrow> None
     | Some out \<Rightarrow>
         (case status_lines (filter (\<lambda>l. l \<noteq> []) (splitlines_from [] False out)) [] [] of
            (branch, changes) \<Rightarrow> Some (branch, changes = [], changes)))"

text \<open>\<open>utf8\<close> and \<open>utf8_ignore\<close> are the codec, the latter dropping what it cannot decode.\<close>

definition git_diff ::
  "(ustr \<Rightarrow> int list) \<Rightarrow> (int list \<Rightarrow> ustr) \<Rightarrow> git \<Rightarrow> ustr list \<Rightarrow> (ustr \<times> ustr \<times> bool) option" where
  "git_diff utf8 utf8_ignore git target = (case git target (map lit [''diff'', ''--stat'']) of
       None \<Rightarrow> None
     | Some stat \<Rightarrow> (case git target [lit ''diff''] of
         None \<Rightarrow> None
       | Some body \<Rightarrow>
           let truncated = GIT_DIFF_BYTES_CAP < length (utf8 body)
           in Some (stat, if truncated then utf8_ignore (take GIT_DIFF_BYTES_CAP (utf8 body)) else body, truncated)))"

definition git_log :: "git \<Rightarrow> ustr list \<Rightarrow> int \<Rightarrow> (ustr \<times> ustr \<times> ustr \<times> ustr) list option" where
  "git_log git target limit =
     (let capped = clamp GIT_LOG_DEFAULT_LIMIT GIT_LOG_LIMIT_CAP limit in
      case git target [lit ''log'', lit ''-n'' @ dec (int capped), lit ''--decorate'',
        lit ''--format=%H%x1f%an%x1f%ad%x1f%s'', lit ''--date=short''] of
        None \<Rightarrow> None
      | Some out \<Rightarrow> Some (List.map_filter (\<lambda>l. case split_on 31 l of
            [h, a, d, s] \<Rightarrow> Some (h, a, d, s) | _ \<Rightarrow> None) (splitlines_from [] False out)))"

text \<open>\<open>line.split(None, 5)\<close>.\<close>

fun split_words :: "nat \<Rightarrow> ustr \<Rightarrow> ustr list" where
  "split_words 0 s = (let r = lstrip s in if r = [] then [] else [r])"
| "split_words (Suc n) s = (let r = lstrip s in
     if r = [] then []
     else takeWhile (\<lambda>c. \<not> is_space c) r # split_words n (dropWhile (\<lambda>c. \<not> is_space c) r))"

record process_row =
  ps_pid :: int
  ps_name :: ustr
  ps_elapsed :: ustr
  ps_cpu :: ustr
  ps_mem :: ustr
  ps_cmd :: ustr

definition process_of_line :: "ustr \<Rightarrow> process_row option" where
  "process_of_line l =
     (let parts = split_words 5 l; part = (\<lambda>i. if i < length parts then parts ! i else []) in
      if length parts < 2 then None
      else map_option (\<lambda>pid. \<lparr>ps_pid = pid, ps_name = part 1, ps_elapsed = part 2, ps_cpu = part 3,
        ps_mem = part 4, ps_cmd = take 200 (part 5)\<rparr>) (parse_int (part 0)))"

definition PROCESSES_DEFAULT_LIMIT :: int where "PROCESSES_DEFAULT_LIMIT = 50"
definition PROCESSES_LIMIT_CAP :: int where "PROCESSES_LIMIT_CAP = 200"

text \<open>\<open>_list_processes\<close> on POSIX: the rows until there are enough.\<close>

definition list_processes :: "ustr option \<Rightarrow> int \<Rightarrow> (process_row list \<times> bool) option" where
  "list_processes out limit =
     (let capped = clamp PROCESSES_DEFAULT_LIMIT PROCESSES_LIMIT_CAP limit in
      map_option (\<lambda>s. let rows = take capped (List.map_filter process_of_line (splitlines_from [] False s))
        in (rows, capped \<le> length rows)) out)"

section \<open>What a search finds\<close>

text \<open>The folders below \<open>es\<close> that are reached through kept names and no links, and the matches.\<close>

inductive reach :: "(ustr \<Rightarrow> bool) \<Rightarrow> (ustr \<times> node) list \<Rightarrow> ustr list \<Rightarrow> (ustr \<times> node) list \<Rightarrow> bool" for keep where
  here: "reach keep es [] es"
| below: "(n, Folder None sub) \<in> set es \<Longrightarrow> keep n \<Longrightarrow> reach keep sub rel goal \<Longrightarrow> reach keep es (n # rel) goal"

inductive_cases reach_ConsE: "reach keep es (n # rel) goal"
inductive_cases reach_NilE: "reach keep es [] goal"

definition line_matches ::
  "(ustr \<Rightarrow> ustr) \<Rightarrow> ustr \<Rightarrow> ustr list \<Rightarrow> nat \<Rightarrow> ustr list \<Rightarrow> hit list" where
  "line_matches to_lower lowered full k ls =
     List.map_filter (\<lambda>(i, l). if contains lowered (to_lower l) then Some (full, i, take 300 (strip l)) else None)
       (enumerate k ls)"

definition file_matches :: "(ustr \<Rightarrow> ustr) \<Rightarrow> ustr \<Rightarrow> ustr list \<Rightarrow> ustr \<times> file_view \<Rightarrow> hit list" where
  "file_matches to_lower lowered dir = (\<lambda>(n, v). if searchable v
     then (case fv_text v of None \<Rightarrow> [] | Some text \<Rightarrow> line_matches to_lower lowered (dir @ [n]) 1 (lines text))
     else [])"

definition dir_matches ::
  "(ustr \<Rightarrow> ustr) \<Rightarrow> ustr \<Rightarrow> ustr list \<times> (ustr \<times> file_view) list \<Rightarrow> hit list" where
  "dir_matches to_lower lowered = (\<lambda>(dir, fs). concat (map (file_matches to_lower lowered dir) fs))"

lemma search_lines_spec:
  assumes "search_lines L p full m k ls hits = (hits', stopped)" and "length hits < m"
  shows "hits' = take m (hits @ line_matches L p full k ls) \<and> (stopped \<longleftrightarrow> m \<le> length (hits @ line_matches L p full k ls))"
  using assms
proof (induction L p full m k ls hits rule: search_lines.induct)
  case (2 L p full m k l ls hits)
  show ?case
  proof (cases "contains p (L l)")
    case True
    let ?hits = "hits @ [(full, k, take 300 (strip l))]"
    have M: "line_matches L p full k (l # ls) = (full, k, take 300 (strip l)) # line_matches L p full (Suc k) ls"
      using True by (simp add: line_matches_def List.map_filter_simps)
    show ?thesis
    proof (cases "m \<le> length ?hits")
      case True
      then have "length ?hits = m" using 2(4) by simp
      then show ?thesis using True 2(3) \<open>contains p (L l)\<close> by (auto simp: M)
    next
      case False
      with \<open>contains p (L l)\<close> 2(1) [OF _ refl False] 2(3) show ?thesis by (simp add: M)
    qed
  next
    case False
    then show ?thesis using 2(2) [OF False] 2(3,4) by (simp add: line_matches_def List.map_filter_simps)
  qed
qed (auto simp: line_matches_def List.map_filter_simps)

lemma search_files_spec:
  assumes "search_files L p m dir fs hits searched = ((hits', searched'), stopped)" and "length hits < m"
  shows "hits' = take m (hits @ dir_matches L p (dir, fs))
    \<and> (stopped \<longleftrightarrow> m \<le> length (hits @ dir_matches L p (dir, fs)))"
  using assms
proof (induction fs arbitrary: hits searched)
  case (Cons f fs)
  obtain n v where f: "f = (n, v)" by (cases f)
  have D: "dir_matches L p (dir, (n, v) # fs) = file_matches L p dir (n, v) @ dir_matches L p (dir, fs)"
    by (simp add: dir_matches_def)
  show ?case
  proof (cases "searchable v \<and> fv_text v \<noteq> None")
    case False
    then have "file_matches L p dir (n, v) = []" by (auto simp: file_matches_def)
    then show ?thesis using False Cons.prems
      by (auto simp: f D dest!: Cons.IH split: if_splits option.splits)
  next
    case True
    then obtain body where v: "searchable v" "fv_text v = Some body" by blast
    then have F: "file_matches L p dir (n, v) = line_matches L p (dir @ [n]) (Suc 0) (lines body)" by (simp add: file_matches_def)
    obtain h b where hb: "search_lines L p (dir @ [n]) m (Suc 0) (lines body) hits = (h, b)" by fastforce
    note spec = search_lines_spec [OF hb Cons.prems(2)]
    show ?thesis
    proof (cases b)
      case True
      then show ?thesis using Cons.prems spec v by (simp add: f D F hb)
    next
      case False
      then have "h = hits @ file_matches L p dir (n, v)" "length h < m" using spec by (simp_all add: F)
      then show ?thesis using Cons.prems Cons.IH [of h "Suc searched"] v False by (simp add: f D hb)
    qed
  qed
qed (auto simp: dir_matches_def)

lemma search_dirs_spec:
  assumes "search_dirs L p m ds hits searched = (hits', searched', stopped)" and "length hits < m"
  shows "hits' = take m (hits @ concat (map (dir_matches L p) ds))
    \<and> (stopped \<longleftrightarrow> m \<le> length (hits @ concat (map (dir_matches L p) ds)))"
  using assms
proof (induction ds arbitrary: hits searched)
  case (Cons d ds)
  obtain dir fs where d: "d = (dir, fs)" by (cases d)
  obtain h s b where hb: "search_files L p m dir fs hits searched = ((h, s), b)" by (metis surj_pair)
  note spec = search_files_spec [OF hb Cons.prems(2)]
  show ?case
  proof (cases b)
    case True
    then show ?thesis using Cons.prems spec by (simp add: d hb)
  next
    case False
    then have "h = hits @ dir_matches L p d" "length h < m" using spec by (simp_all add: d)
    then show ?thesis using Cons.prems Cons.IH [of h s] False by (simp add: d hb)
  qed
qed auto

lemma os_walk_reaches:
  "(dir, fs) \<in> set (os_walk keep root es)
     \<longleftrightarrow> (\<exists>rel sub. reach keep es rel sub \<and> dir = root @ rel \<and> fs = sort_by_key (List.map_filter file_entry sub))"
proof (induction keep root es arbitrary: dir fs rule: os_walk.induct)
  case (1 keep root es)
  let ?here = "dir = root \<and> fs = sort_by_key (List.map_filter file_entry es)"
  have "(dir, fs) \<in> set (os_walk keep root es) \<longleftrightarrow> ?here
      \<or> (\<exists>n sub. (n, Folder None sub) \<in> set es \<and> keep n \<and> (dir, fs) \<in> set (os_walk keep (root @ [n]) sub))"
  proof -
    have sub: "x \<in> set (case t of Folder None sub \<Rightarrow> os_walk keep (root @ [n]) sub | _ \<Rightarrow> [])
        \<longleftrightarrow> (\<exists>sub. t = Folder None sub \<and> x \<in> set (os_walk keep (root @ [n]) sub))" for x t n
      by (auto split: node.splits option.splits)
    show ?thesis
      by (subst os_walk.simps) (auto simp: sub)
  qed
  also have "\<dots> \<longleftrightarrow> ?here \<or> (\<exists>n sub rel goal. (n, Folder None sub) \<in> set es \<and> keep n \<and> reach keep sub rel goal
      \<and> dir = (root @ [n]) @ rel \<and> fs = sort_by_key (List.map_filter file_entry goal))"
  proof -
    have "(dir, fs) \<in> set (os_walk keep (root @ [n]) sub) \<longleftrightarrow> (\<exists>rel goal. reach keep sub rel goal
        \<and> dir = (root @ [n]) @ rel \<and> fs = sort_by_key (List.map_filter file_entry goal))"
      if "(n, Folder None sub) \<in> set es" "keep n" for n sub
      by (rule 1) (use that in simp_all)
    then show ?thesis by (simp only: cong: conj_cong) (blast)
  qed
  also have "\<dots> \<longleftrightarrow> (\<exists>rel sub. reach keep es rel sub \<and> dir = root @ rel
      \<and> fs = sort_by_key (List.map_filter file_entry sub))" (is "_ \<longleftrightarrow> ?reached")
  proof
    assume "?here \<or> (\<exists>n sub rel goal. (n, Folder None sub) \<in> set es \<and> keep n \<and> reach keep sub rel goal
      \<and> dir = (root @ [n]) @ rel \<and> fs = sort_by_key (List.map_filter file_entry goal))"
    then show ?reached using reach.here by (fastforce intro: reach.below)
  next
    assume ?reached
    then obtain rel sub where r: "reach keep es rel sub" "dir = root @ rel" "fs = sort_by_key (List.map_filter file_entry sub)"
      by blast
    from r(1) show "?here \<or> (\<exists>n sub rel goal. (n, Folder None sub) \<in> set es \<and> keep n \<and> reach keep sub rel goal
      \<and> dir = (root @ [n]) @ rel \<and> fs = sort_by_key (List.map_filter file_entry goal))"
      using r(2,3) by cases auto
  qed
  finally show ?case .
qed

lemma file_entries: "(n, v) \<in> set (List.map_filter file_entry es) \<longleftrightarrow> (n, File v) \<in> set es"
proof (induction es)
  case (Cons e es)
  then show ?case by (cases e rule: file_entry.cases) (auto simp: List.map_filter_simps)
qed (simp add: List.map_filter_simps)

lemma line_matches_iff:
  "(full, k, found) \<in> set (line_matches L p full' 1 ls) \<longleftrightarrow> full = full'
     \<and> 1 \<le> k \<and> k \<le> length ls \<and> contains p (L (ls ! (k - 1))) \<and> found = take 300 (strip (ls ! (k - 1)))"
  by (auto simp: line_matches_def List.map_filter_def in_set_enumerate_eq Suc_le_eq less_Suc_eq_le image_iff
      intro!: bexI [of _ "(k, ls ! (k - 1))"])

text \<open>A match of a search: a line of a searchable file in a folder the search reaches.\<close>

definition is_match :: "(ustr \<Rightarrow> ustr) \<Rightarrow> ustr \<Rightarrow> ustr list \<Rightarrow> (ustr \<times> node) list \<Rightarrow> hit \<Rightarrow> bool" where
  "is_match L pattern root es = (\<lambda>(full, k, found). \<exists>rel sub n v s. reach (\<lambda>d. d \<notin> set SEARCH_SKIP_DIRS) es rel sub
     \<and> (n, File v) \<in> set sub \<and> searchable v \<and> fv_text v = Some s \<and> full = root @ rel @ [n]
     \<and> 1 \<le> k \<and> k \<le> length (lines s) \<and> contains (L pattern) (L (lines s ! (k - 1)))
     \<and> found = take 300 (strip (lines s ! (k - 1))))"

lemma all_matches:
  "h \<in> set (concat (map (dir_matches L (L pattern)) (os_walk (\<lambda>d. d \<notin> set SEARCH_SKIP_DIRS) root es)))
     \<longleftrightarrow> is_match L pattern root es h"
proof -
  obtain full k found where h: "h = (full, k, found)" by (metis surj_pair)
  have one: "h \<in> set (file_matches L p dir (n, v)) \<longleftrightarrow> searchable v \<and> (\<exists>s. fv_text v = Some s \<and> full = dir @ [n]
      \<and> 1 \<le> k \<and> k \<le> length (lines s) \<and> contains p (L (lines s ! (k - 1))) \<and> found = take 300 (strip (lines s ! (k - 1))))"
    for p dir n v
  proof (cases "fv_text v")
    case None
    then have "file_matches L p dir (n, v) = []" "\<And>s. fv_text v \<noteq> Some s" by (auto simp: file_matches_def)
    then show ?thesis by simp
  next
    case (Some s)
    then have "file_matches L p dir (n, v) = (if searchable v then line_matches L p (dir @ [n]) 1 (lines s) else [])"
      by (simp add: file_matches_def)
    then have iff: "h \<in> set (file_matches L p dir (n, v))
        \<longleftrightarrow> searchable v \<and> h \<in> set (line_matches L p (dir @ [n]) 1 (lines s))" by simp
    have some: "(\<exists>s'. fv_text v = Some s' \<and> Q s') \<longleftrightarrow> Q s" for Q using Some by auto
    show ?thesis unfolding iff unfolding h line_matches_iff some by (rule refl)
  qed
  have "h \<in> set (concat (map (dir_matches L (L pattern)) (os_walk (\<lambda>d. d \<notin> set SEARCH_SKIP_DIRS) root es)))
      \<longleftrightarrow> (\<exists>dir fs n v. (dir, fs) \<in> set (os_walk (\<lambda>d. d \<notin> set SEARCH_SKIP_DIRS) root es) \<and> (n, v) \<in> set fs
        \<and> h \<in> set (file_matches L (L pattern) dir (n, v)))"
    by (fastforce simp: dir_matches_def)
  also have "\<dots> \<longleftrightarrow> is_match L pattern root es h"
    (is "?walked \<longleftrightarrow> _")
  proof
    assume ?walked
    then obtain rel sub n v where "reach (\<lambda>d. d \<notin> set SEARCH_SKIP_DIRS) es rel sub"
      "(n, v) \<in> set (List.map_filter file_entry sub)" "h \<in> set (file_matches L (L pattern) (root @ rel) (n, v))"
      unfolding os_walk_reaches by (auto simp del: set_sort_by_key) (simp only: set_sort_by_key)
    then show "is_match L pattern root es h"
      unfolding one unfolding is_match_def h prod.case file_entries append_assoc by blast
  next
    assume "is_match L pattern root es h"
    then obtain rel sub n v s where *: "reach (\<lambda>d. d \<notin> set SEARCH_SKIP_DIRS) es rel sub" "(n, File v) \<in> set sub"
      "searchable v" "fv_text v = Some s" "full = root @ rel @ [n]"
      "1 \<le> k" "k \<le> length (lines s)" "contains (L pattern) (L (lines s ! (k - 1)))"
      "found = take 300 (strip (lines s ! (k - 1)))"
      unfolding is_match_def h prod.case by blast
    have "h \<in> set (file_matches L (L pattern) (root @ rel) (n, v))"
      unfolding one using *(3-9) by (simp del: One_nat_def)
    moreover have "(n, v) \<in> set (sort_by_key (List.map_filter file_entry sub))"
      using *(2) by (simp add: file_entries)
    ultimately show ?walked using *(1) os_walk_reaches by blast
  qed
  finally show ?thesis .
qed


abbreviation plain_file :: "ustr \<Rightarrow> file_view" where
  "plain_file s \<equiv> \<lparr>fv_size = Some (length s), fv_probe = True, fv_text = Some s, fv_entry_size = length s\<rparr>"

definition demo_app :: "(ustr \<times> node) list" where
  "demo_app = [(lit ''main.py'', File (plain_file (lit ''import os''))),
     (lit ''.env'', File (plain_file (lit ''TOKEN=abc'')))]"

definition demo_root :: node where
  "demo_root = Folder None [(lit ''app'', Folder None demo_app),
     (lit ''home'', Folder None [(lit ''.ssh'', Folder None [(lit ''id_rsa'', File (plain_file (lit ''KEY'')))])])]"

lemma walk_demo_app:
  "os_walk keep root demo_app = [(root, [(lit ''.env'', plain_file (lit ''TOKEN=abc'')),
     (lit ''main.py'', plain_file (lit ''import os''))])]"
  by (simp add: os_walk.simps [of keep root] demo_app_def List.map_filter_simps sort_by_key_def lit_def)

lemma lines_one: "10 \<notin> set s \<Longrightarrow> s \<noteq> [] \<Longrightarrow> lines s = [s]"
proof -
  have "10 \<notin> set s \<Longrightarrow> readline s = (s, [])" by (induction s) auto
  then show "10 \<notin> set s \<Longrightarrow> s \<noteq> [] \<Longrightarrow> lines s = [s]" by (simp add: lines.simps [of s] lines.simps [of "[]"])
qed

lemma search_demo_app:
  "walk_search lower (lit ''token'') root demo_app 20 = ([(root @ [lit ''.env''], 1, lit ''TOKEN=abc'')], 2, False)"
  by (simp add: walk_search_def walk_demo_app searchable_def SEARCH_FILE_BYTES_CAP_def lines_one lit_def lower_def
      lower_char_def strip_def lstrip_def is_space_def)


section \<open>Where the gate of a path is not the gate of a search\<close>

definition demo_paths :: paths where
  "demo_paths = (let real = abspath [lit ''app''] in
     \<lparr>real_path = real, given_path = real, repo_root = [lit ''app''],
      repo_root_unresolved = [lit ''app''], allowed_read_roots = [[lit ''app'']]\<rparr>)"

abbreviation demo_home :: "ustr \<Rightarrow> ustr option" where
  "demo_home \<equiv> \<lambda>u. if u = [] then Some (lit ''/home'') else None"

text \<open>
  Reading an environment file is refused; searching its folder shows its lines when ripgrep is not
  there: the names that may not be read are not looked at below the folder that was asked for.
\<close>

lemma search_shows_excluded_files:
  "check_read_denylist demo_paths (lit ''.env'')"
  "search_code demo_paths lower demo_home [lit ''app''] demo_root (\<lambda>_ _ _. None) (lit ''token'') (lit ''.'') 20
     = Some (SearchHits [([lit ''app'', lit ''.env''], 1, lit ''TOKEN=abc'')] False 2)"
proof -
  show "check_read_denylist demo_paths (lit ''.env'')"
    by code_simp
  have ok: "\<not> check_read_denylist demo_paths (lit ''.'')"
    by code_simp
  have t: "target_of demo_home [lit ''app''] (lit ''.'') = [lit ''app'']"
    by (simp add: target_of_def expanduser_def abspath_def lit_def)
  have n: "node_at [lit ''app''] demo_root = Some (Folder None demo_app)"
    by (simp add: demo_root_def lit_def)
  have "strip (lit ''token'') \<noteq> []" "(lit ''.'') \<noteq> []" by (simp_all add: strip_def lstrip_def is_space_def lit_def)
  then show "search_code demo_paths lower demo_home [lit ''app''] demo_root (\<lambda>_ _ _. None) (lit ''token'') (lit ''.'') 20
      = Some (SearchHits [([lit ''app'', lit ''.env''], 1, lit ''TOKEN=abc'')] False 2)"
    using ok search_demo_app [of "[lit ''app'']"]
    by (simp add: search_code_def search_code_in_def t n clamp_def SEARCH_DEFAULT_MAX_RESULTS_def
        SEARCH_MAX_RESULTS_CAP_def)
qed

text \<open>
  The check of a path takes a tilde for a name, the search and the listing take it for the home
  directory: with the path \<open>~/.ssh\<close> a private key outside all read roots is searched.
\<close>

lemma tilde_leaves_the_read_roots:
  "check_read_denylist demo_paths (lit ''/home/.ssh'')"
  "search_code demo_paths lower demo_home [lit ''app''] demo_root (\<lambda>_ _ _. None) (lit ''key'') (lit ''~/.ssh'') 20
     = Some (SearchHits [([lit ''home'', lit ''.ssh'', lit ''id_rsa''], 1, lit ''KEY'')] False 1)"
proof -
  show "check_read_denylist demo_paths (lit ''/home/.ssh'')"
    by (simp add: check_read_denylist_def demo_paths_def abspath_def lit_def Let_def)
  have ok: "\<not> check_read_denylist demo_paths (lit ''~/.ssh'')"
    by code_simp
  let ?ssh = "[(lit ''id_rsa'', File (plain_file (lit ''KEY'')))]"
  have t: "target_of demo_home [lit ''app''] (lit ''~/.ssh'') = [lit ''home'', lit ''.ssh'']"
    by (simp add: target_of_def expanduser_def abspath_def rstrip_slashes_def lit_def)
  have n: "node_at [lit ''home'', lit ''.ssh''] demo_root = Some (Folder None ?ssh)"
    by (simp add: demo_root_def lit_def)
  have w: "os_walk keep root ?ssh = [(root, [(lit ''id_rsa'', plain_file (lit ''KEY''))])]" for keep root
    by (simp add: os_walk.simps [of keep root] List.map_filter_simps sort_by_key_def lit_def)
  have s: "walk_search lower (lit ''key'') root ?ssh 20 = ([(root @ [lit ''id_rsa''], 1, lit ''KEY'')], 1, False)" for root
    unfolding walk_search_def w by (simp add: searchable_def SEARCH_FILE_BYTES_CAP_def lines_one lit_def lower_def
        lower_char_def strip_def lstrip_def is_space_def)
  have "strip (lit ''key'') \<noteq> []" "(lit ''~/.ssh'') \<noteq> []" by (simp_all add: strip_def lstrip_def is_space_def lit_def)
  then show "search_code demo_paths lower demo_home [lit ''app''] demo_root (\<lambda>_ _ _. None) (lit ''key'') (lit ''~/.ssh'') 20
      = Some (SearchHits [([lit ''home'', lit ''.ssh'', lit ''id_rsa''], 1, lit ''KEY'')] False 1)"
    using ok s [of "[lit ''home'', lit ''.ssh'']"]
    by (simp add: search_code_def search_code_in_def t n clamp_def SEARCH_DEFAULT_MAX_RESULTS_def
        SEARCH_MAX_RESULTS_CAP_def)
qed

text \<open>
  Without ripgrep a single file is searched through its folder, and the limit is spent on the other
  files first: a file that matches is reported to have no match.
\<close>

lemma other_files_use_up_the_limit:
  "search_code_in lower demo_home [lit ''app''] demo_root (\<lambda>_ _ _. None) (lit ''o'') (lit ''main.py'') 1
     = SearchHits [] True 1"
proof -
  have t: "target_of demo_home [lit ''app''] (lit ''main.py'') = [lit ''app'', lit ''main.py'']"
    by (simp add: target_of_def expanduser_def abspath_def lit_def)
  have n: "node_at [lit ''app'', lit ''main.py''] demo_root = Some (File (plain_file (lit ''import os'')))"
    "node_at [lit ''app''] demo_root = Some (Folder None demo_app)"
    by (simp_all add: demo_root_def demo_app_def lit_def)
  have w: "walk_search lower (lit ''o'') root demo_app 1 = ([(root @ [lit ''.env''], 1, lit ''TOKEN=abc'')], 1, True)" for root
    by (simp add: walk_search_def walk_demo_app searchable_def SEARCH_FILE_BYTES_CAP_def lines_one lit_def lower_def
        lower_char_def strip_def lstrip_def is_space_def)
  show ?thesis
    using w [of "[lit ''app'']"] t n
    by (simp add: search_code_in_def clamp_def SEARCH_MAX_RESULTS_CAP_def strip_def lstrip_def)
       (simp add: lit_def is_space_def)
qed

end
