(* ===== verification/Runner.thy ===== *)
theory Runner
  imports SearchTools
begin

text \<open>
  The program on the user's machine: the sandbox of \<open>invincible/agent/sandbox.py\<close> (\<open>agent_root\<close>,
  \<open>check_agent_path\<close>) and of \<open>invincible/agent/runner.py\<close> the jobs (\<open>_execute_job\<close>, \<open>execute_job\<close> with the
  faces it shows), the messages of the relay (\<open>_one_ws_message\<close>), the loops \<open>run_agent_ws\<close> and
  \<open>run_agent\<close>, and \<open>run_harness\<close>. What a tool does with its arguments is an argument; the overlay's
  pointer, the printed lines and the stop event are left out. Paths are those of POSIX.
\<close>

section \<open>Links\<close>

text \<open>
  Where a path leads, from a directory that holds no link on its way: \<open>links\<close> gives the text of a
  symbolic link, \<open>n\<close> is how many more links may be followed.
\<close>

fun follow :: "(ustr list \<Rightarrow> ustr option) \<Rightarrow> nat \<Rightarrow> ustr list \<Rightarrow> ustr list \<Rightarrow> ustr list option" where
  "follow links n dir [] = Some dir"
| "follow links n dir (p # ps) =
     (if p = [] \<or> p = lit ''.'' then follow links n dir ps
      else if p = lit ''..'' then follow links n (butlast dir) ps
      else (case links (dir @ [p]) of
          None \<Rightarrow> follow links n (dir @ [p]) ps
        | Some t \<Rightarrow> (case n of
            0 \<Rightarrow> None
          | Suc k \<Rightarrow> follow links k (if is_prefix (lit ''/'') t then [] else dir) (split_on 47 t @ ps))))"

text \<open>The kernel follows forty links when a file is opened.\<close>

definition LINK_MAX :: nat where "LINK_MAX = 40"

text \<open>
  The machine: the home directories, the working directory, the variable \<open>INVINCIBLE_AGENT_ROOT\<close>, the
  links, what \<open>realpath\<close> makes of a path the kernel cannot follow, and of Python which characters are
  alphanumeric, the integer part and the float of a value.
\<close>

record pc =
  pc_home :: "ustr \<Rightarrow> ustr option"
  pc_cwd :: "ustr list"
  pc_root :: ustr
  pc_links :: "ustr list \<Rightarrow> ustr option"
  pc_looped :: "ustr list \<Rightarrow> ustr list"
  pc_alnum :: "int \<Rightarrow> bool"
  pc_int :: float_int
  pc_float :: "json \<Rightarrow> ustr option"

definition realpath :: "pc \<Rightarrow> ustr list \<Rightarrow> ustr list" where
  "realpath m p = (case follow (pc_links m) LINK_MAX [] p of Some q \<Rightarrow> q | None \<Rightarrow> pc_looped m p)"

section \<open>The sandbox\<close>

text \<open>\<open>_BASENAME_PATTERNS\<close>, without the reasons.\<close>

definition key_file :: "string \<Rightarrow> rx" where
  "key_file stem = seqs [chars stem, opt (seqs [chars ''.'', some_of any_char]), AtEnd]"

definition pem_file :: rx where
  "pem_file = seqs [Star any_char, chars ''.pem'', AtEnd]"

definition credentials_file :: rx where
  "credentials_file = seqs [Star any_char, chars ''credentials'', Star any_char, AtEnd]"

definition BASENAME_PATTERNS :: "rx list" where
  "BASENAME_PATTERNS =
     [env_file, seqs [chars ''.git'', AtEnd], seqs [chars ''.ssh'', AtEnd], key_file ''id_rsa'', key_file ''id_ed25519'',
      pem_file, credentials_file]"

definition excluded :: "ustr \<Rightarrow> bool" where
  "excluded part \<longleftrightarrow> list_ex (\<lambda>r. matches_at (\<lambda>_. False) r part) BASENAME_PATTERNS"

definition agent_root :: "pc \<Rightarrow> ustr list" where
  "agent_root m =
     (let root = strip (pc_root m)
      in realpath m (abspath (pc_cwd m) (expanduser (pc_home m) (if root \<noteq> [] then root else lit ''~''))))"

text \<open>
  A character that may be in a name that is handed to the operating system; \<open>lstat\<close> raises on any
  other (a null byte, a surrogate that does not stand for a byte).
\<close>

definition os_char :: "int \<Rightarrow> bool" where
  "os_char c \<longleftrightarrow> c \<noteq> 0 \<and> \<not> (55296 \<le> c \<and> c < 56448 \<or> 56576 \<le> c \<and> c < 57344)"

definition below :: "ustr list \<Rightarrow> ustr list \<Rightarrow> bool" where
  "below root p \<longleftrightarrow> p = root \<or> root \<noteq> [] \<and> take (length root) p = root"

definition check_agent_path :: "pc \<Rightarrow> ustr \<Rightarrow> unit checked" where
  "check_agent_path m path =
     (let given = abspath (pc_cwd m) (expanduser (pc_home m) path); real = realpath m given
      in if \<not> list_all (list_all os_char) given then Inl Crash
         else if \<not> below (agent_root m) real then Inl Blocked
         else if list_ex excluded ([] # real) then Inl Blocked
         else Inr ())"

section \<open>Jobs\<close>

datatype call =
    RunCommand ustr ustr
  | WriteFile ustr json
  | EditFile ustr json json bool
  | ReadFile ustr json json
  | SearchCode json ustr int
  | ListDir ustr int bool
  | FindFiles json ustr int bool
  | GitStatus ustr
  | GitDiff ustr
  | GitLog ustr int
  | ListProcesses int
  | TakeScreenshot json ustr
  | FetchUrl json ustr
  | LookAtScreen pydict
  | ComputerAct json pydict
  | UnknownJob

fun path_arg_text :: "json \<Rightarrow> ustr checked" where
  "path_arg_text (JStr s) = Inr s"
| "path_arg_text _ = Inl Crash"

definition float_arg :: "pc \<Rightarrow> pydict \<Rightarrow> ustr checked" where
  "float_arg m args = (case pc_float m (dget_or args (lit ''timeout'') (JFloat (lit ''30.0''))) of
     Some x \<Rightarrow> Inr x | None \<Rightarrow> Inl Crash)"

text \<open>\<open>int(args.get(key) or dflt)\<close>, and the same with its errors caught.\<close>

definition int_arg :: "pc \<Rightarrow> pydict \<Rightarrow> string \<Rightarrow> int \<Rightarrow> int checked" where
  "int_arg m args key dflt = to_int (pc_int m) (py_or (dget args (lit key)) (JInt dflt))"

definition int_arg_or :: "pc \<Rightarrow> pydict \<Rightarrow> string \<Rightarrow> int \<Rightarrow> int checked" where
  "int_arg_or m args key dflt = (case int_arg m args key dflt of Inl ValueErr \<Rightarrow> Inr dflt | r \<Rightarrow> r)"

text \<open>A path that was checked: as it is given, and with the working directory for an empty one.\<close>

definition checked_path :: "pc \<Rightarrow> json \<Rightarrow> (ustr \<Rightarrow> call checked) \<Rightarrow> call checked" where
  "checked_path m v f = check (path_arg_text v) (\<lambda>p. check (check_agent_path m p) (\<lambda>_. f p))"

definition file_arg :: "pydict \<Rightarrow> json" where
  "file_arg args = dget_or args (lit ''path'') (JStr [])"

definition dir_arg :: "pydict \<Rightarrow> json" where
  "dir_arg args = py_or (file_arg args) (JStr (lit ''.''))"

definition plan_files :: "pc \<Rightarrow> ustr \<Rightarrow> pydict \<Rightarrow> call checked option" where
  "plan_files m kind args =
     (let get = (\<lambda>k. dget_or args (lit k) (JStr [])); flag = (\<lambda>k. truthy (dget_or args (lit k) (JBool False))) in
      if kind = lit ''write_file'' then Some (checked_path m (file_arg args) (\<lambda>p. Inr (WriteFile p (get ''content''))))
      else if kind = lit ''edit_file'' then
        Some (checked_path m (file_arg args) (\<lambda>p. Inr (EditFile p (get ''old_string'') (get ''new_string'') (flag ''replace_all''))))
      else if kind = lit ''read_file'' then
        Some (checked_path m (file_arg args) (\<lambda>p. Inr (ReadFile p (dget args (lit ''offset'')) (dget args (lit ''limit'')))))
      else if kind = lit ''code_search'' then
        Some (checked_path m (dir_arg args) (\<lambda>p. check (int_arg m args ''max_results'' SEARCH_DEFAULT_MAX_RESULTS)
          (\<lambda>n. Inr (SearchCode (get ''pattern'') p n))))
      else if kind = lit ''list_dir'' then
        Some (checked_path m (dir_arg args) (\<lambda>p. check (int_arg_or m args ''limit'' LIST_DIR_DEFAULT_LIMIT)
          (\<lambda>n. Inr (ListDir p n (flag ''show_hidden'')))))
      else if kind = lit ''find_files'' then
        Some (checked_path m (dir_arg args) (\<lambda>p. check (int_arg_or m args ''max_results'' FIND_DEFAULT_MAX_RESULTS)
          (\<lambda>n. Inr (FindFiles (get ''pattern'') p n (flag ''show_hidden'')))))
      else if kind = lit ''git_status'' then Some (checked_path m (dir_arg args) (\<lambda>p. Inr (GitStatus p)))
      else if kind = lit ''git_diff'' then Some (checked_path m (dir_arg args) (\<lambda>p. Inr (GitDiff p)))
      else if kind = lit ''git_log'' then
        Some (checked_path m (dir_arg args) (\<lambda>p. check (int_arg_or m args ''limit'' GIT_LOG_DEFAULT_LIMIT)
          (\<lambda>n. Inr (GitLog p n))))
      else None)"

text \<open>The jobs that touch no file by name. A command is given to the denylist first.\<close>

definition LOOK_ARGS :: "ustr list" where
  "LOOK_ARGS = map lit [''window'', ''wait_kind'', ''wait_label'', ''timeout_ms'']"

definition plan_others :: "pc \<Rightarrow> ustr \<Rightarrow> pydict \<Rightarrow> call checked" where
  "plan_others m kind args =
     (let get = (\<lambda>k. dget_or args (lit k) (JStr [])) in
      if kind = lit ''execute_bash'' then check (path_arg_text (get ''command'')) (\<lambda>c.
        if check_denylist (pc_alnum m) c then Inl Blocked else check (float_arg m args) (\<lambda>t. Inr (RunCommand c t)))
      else if kind = lit ''process_list'' then
        check (int_arg m args ''limit'' PROCESSES_DEFAULT_LIMIT) (\<lambda>n. Inr (ListProcesses n))
      else if kind = lit ''screenshot'' then check (float_arg m args) (\<lambda>t. Inr (TakeScreenshot (get ''url'') t))
      else if kind = lit ''web_fetch'' then check (float_arg m args) (\<lambda>t. Inr (FetchUrl (get ''url'') t))
      else if kind = lit ''look_at_screen'' then Inr (LookAtScreen (filter (\<lambda>(k, _). k \<in> set LOOK_ARGS) args))
      else if kind \<in> set COMPUTER_TOOLS then Inr (ComputerAct (JStr kind) args)
      else Inr UnknownJob)"

definition JOB_KINDS :: "ustr list" where
  "JOB_KINDS = map lit [''execute_bash'', ''write_file'', ''edit_file'', ''read_file'', ''code_search'', ''list_dir'',
     ''find_files'', ''git_status'', ''git_diff'', ''git_log'', ''process_list'', ''screenshot'', ''web_fetch'']"

text \<open>
  What is done for a job. Arguments that are no dictionary raise, but where they are not looked at; the
  keys of \<open>look_at_screen\<close> are sought in whatever it is.
\<close>

definition plan_job :: "pc \<Rightarrow> json \<Rightarrow> json \<Rightarrow> call checked" where
  "plan_job m job_type args = (case job_type of
       JStr kind \<Rightarrow> (case args of
           JObj d \<Rightarrow> (case plan_files m kind d of Some r \<Rightarrow> r | None \<Rightarrow> plan_others m kind d)
         | _ \<Rightarrow>
             if kind \<in> set JOB_KINDS then Inl Crash
             else if kind = lit ''look_at_screen'' then (case args of
                 JList vs \<Rightarrow> if list_ex (\<lambda>k. JStr k \<in> set vs) LOOK_ARGS then Inl Crash else Inr (LookAtScreen [])
               | JStr s \<Rightarrow> if list_ex (\<lambda>k. contains k s) LOOK_ARGS then Inl Crash else Inr (LookAtScreen [])
               | _ \<Rightarrow> Inl Crash)
             else plan_others m kind [])
     | _ \<Rightarrow> Inr UnknownJob)"

text \<open>
  \<open>_execute_job\<close>: \<open>tools\<close> is what a tool gives back or raises, \<open>why\<close> the reason of a refusal, \<open>unknown\<close>
  the text for a job that is none.
\<close>

datatype job_end = Answer json | Raises

record toolset =
  run_tool :: "call \<Rightarrow> json checked"
  why_blocked :: ustr
  unknown_text :: ustr

definition status_result :: "string \<Rightarrow> string \<Rightarrow> ustr \<Rightarrow> json" where
  "status_result status key t = JObj [(lit ''status'', JStr (lit status)), (lit key, JStr t)]"

definition execute_job_body :: "pc \<Rightarrow> toolset \<Rightarrow> pydict \<Rightarrow> job_end" where
  "execute_job_body m ts job =
     (case check (plan_job m (dget job (lit ''type'')) (py_or (dget job (lit ''args'')) (JObj [])))
         (\<lambda>c. if c = UnknownJob then Inr (status_result ''error'' ''error'' (unknown_text ts)) else run_tool ts c) of
        Inr result \<Rightarrow> Answer result
      | Inl Blocked \<Rightarrow> Answer (status_result ''blocked'' ''reason'' (why_blocked ts))
      | Inl _ \<Rightarrow> Raises)"

text \<open>\<open>_job_face\<close>, \<open>_result_face\<close> and \<open>execute_job\<close>: the faces it paints and what becomes of the job.\<close>

definition job_face :: "json \<Rightarrow> string" where
  "job_face job_type = (if job_type = JStr (lit ''look_at_screen'') then ''searching'' else ''working'')"

definition FACE_ERROR_STATUSES :: "ustr list" where
  "FACE_ERROR_STATUSES = map lit [''error'', ''blocked'', ''unavailable'']"

definition result_face :: "json \<Rightarrow> string" where
  "result_face result = (case result of
       JObj d \<Rightarrow> (case dget d (lit ''status'') of
           JStr s \<Rightarrow> if s \<notin> set FACE_ERROR_STATUSES then ''happy'' else ''error''
         | _ \<Rightarrow> ''error'')
     | _ \<Rightarrow> ''error'')"

definition execute_job :: "pc \<Rightarrow> toolset \<Rightarrow> pydict \<Rightarrow> string list \<times> job_end" where
  "execute_job m ts job =
     (let r = execute_job_body m ts job
      in (job_face (dget job (lit ''type'')) # [case r of Answer result \<Rightarrow> result_face result | Raises \<Rightarrow> ''idle''], r))"

section \<open>The relay\<close>

definition TUNNEL_INBOUND :: "ustr list" where
  "TUNNEL_INBOUND = map lit [''tunnel_open'', ''tunnel_request_head'', ''tunnel_data'', ''tunnel_half_close'', ''tunnel_close'']"

datatype ws_use = ToTunnel pydict | ToHandoff json | ToVoice json | ToJob json | Ignored | Breaks

text \<open>What \<open>_one_ws_message\<close> makes of a message; \<open>None\<close> is a text that is not JSON.\<close>

definition ws_message :: "json option \<Rightarrow> ws_use" where
  "ws_message message = (case message of
       Some (JObj d) \<Rightarrow> (case dget d (lit ''type'') of
           JList _ \<Rightarrow> Breaks
         | JObj _ \<Rightarrow> Breaks
         | JStr kind \<Rightarrow>
             if kind \<in> set TUNNEL_INBOUND then ToTunnel d
             else if kind = lit ''handoff'' then ToHandoff (dget d (lit ''handoff''))
             else if kind = lit ''voice_state'' then ToVoice (dget d (lit ''state''))
             else if kind = lit ''job'' \<and> dget d (lit ''job'') \<noteq> JNull then ToJob (dget d (lit ''job''))
             else Ignored
         | _ \<Rightarrow> Ignored)
     | _ \<Rightarrow> Ignored)"

definition job_reply :: "json \<Rightarrow> json \<Rightarrow> pydict" where
  "job_reply job_id result = [(lit ''job_id'', job_id), (lit ''result'', result)]"

text \<open>
  The result of one job on either transport: the reply, or \<open>None\<close> when something raises. A job that is
  no dictionary has no \<open>get\<close>; a job without an id is run before its id is missed.
\<close>

definition answer_job :: "pc \<Rightarrow> toolset \<Rightarrow> json \<Rightarrow> pydict option" where
  "answer_job m ts job = (case job of
       JObj j \<Rightarrow> (case snd (execute_job m ts j) of
           Raises \<Rightarrow> None
         | Answer result \<Rightarrow> map_option (\<lambda>i. job_reply i result) (map_of j (lit ''job_id'')))
     | _ \<Rightarrow> None)"

datatype loop_end = Lost | TimedOut | Broke | KeyRejected

text \<open>
  The loop of \<open>run_agent_ws\<close> over what arrives, each with the seconds since the loop began to wait;
  the replies and how the loop ends. The connection is lost at the end of the list.
\<close>

fun ws_loop :: "pc \<Rightarrow> toolset \<Rightarrow> nat \<Rightarrow> (nat \<times> json option) list \<Rightarrow> pydict list \<times> loop_end" where
  "ws_loop m ts heartbeat [] = ([], Lost)"
| "ws_loop m ts heartbeat ((wait, message) # rest) =
     (if 3 * heartbeat \<le> wait then ([], TimedOut)
      else (case ws_message message of
          Breaks \<Rightarrow> ([], Broke)
        | ToJob job \<Rightarrow> (case answer_job m ts job of
              None \<Rightarrow> ([], Broke)
            | Some reply \<Rightarrow> (case ws_loop m ts heartbeat rest of (replies, e) \<Rightarrow> (reply # replies, e)))
        | _ \<Rightarrow> ws_loop m ts heartbeat rest))"

text \<open>
  The loop of \<open>run_agent\<close>: a poll does not get through (or is answered with an error status), is answered
  with 401, with something that is no JSON object, or with a payload; the post of a result gets through,
  does not, or is answered with something unreadable. Only the errors of the HTTP client are caught.
\<close>

datatype polled = NoConnection | Rejected | Garbled | Payload_of pydict
datatype posted = Posted | NotPosted | PostGarbled

fun poll_loop :: "pc \<Rightarrow> toolset \<Rightarrow> (polled \<times> posted) list \<Rightarrow> pydict list \<times> loop_end option" where
  "poll_loop m ts [] = ([], None)"
| "poll_loop m ts ((NoConnection, _) # cs) = poll_loop m ts cs"
| "poll_loop m ts ((Rejected, _) # cs) = ([], Some KeyRejected)"
| "poll_loop m ts ((Garbled, _) # cs) = ([], Some Broke)"
| "poll_loop m ts ((Payload_of d, p) # cs) =
     (if dget d (lit ''job'') = JNull then poll_loop m ts cs
      else (case answer_job m ts (dget d (lit ''job'')) of
          None \<Rightarrow> ([], Some Broke)
        | Some reply \<Rightarrow> (case p of
            Posted \<Rightarrow> (case poll_loop m ts cs of (replies, e) \<Rightarrow> (reply # replies, e))
          | NotPosted \<Rightarrow> poll_loop m ts cs
          | PostGarbled \<Rightarrow> ([reply], Some Broke))))"

text \<open>\<open>run_harness\<close> without a client of its own: the relay once if it is enabled, then polls.\<close>

definition run_harness ::
  "pc \<Rightarrow> toolset \<Rightarrow> bool \<Rightarrow> nat \<Rightarrow> (nat \<times> json option) list \<Rightarrow> (polled \<times> posted) list \<Rightarrow> pydict list \<times> loop_end option" where
  "run_harness m ts ws_enabled heartbeat arrived cycles =
     (if ws_enabled then
        (case ws_loop m ts heartbeat arrived of (replies, _) \<Rightarrow>
          (case poll_loop m ts cycles of (polled_replies, e) \<Rightarrow> (replies @ polled_replies, e)))
      else poll_loop m ts cycles)"

section \<open>What a path leads to\<close>

abbreviation named :: "ustr \<Rightarrow> bool" where
  "named p \<equiv> p \<noteq> [] \<and> p \<noteq> lit ''.''"

text \<open>Empty components and dots change nothing.\<close>

lemma follow_named: "follow links n dir ps = follow links n dir (filter named ps)"
proof (induction n arbitrary: dir ps rule: less_induct)
  case (less n)
  show ?case
  proof (induction ps arbitrary: dir)
    case (Cons p ps)
    have link: "follow links k d (split_on 47 t @ ps) = follow links k d (split_on 47 t @ filter named ps)"
      if "n = Suc k" for k d t
      using less [of k d "split_on 47 t @ ps"] less [of k d "split_on 47 t @ filter named ps"] that by simp
    show ?case
      using Cons.IH link by (cases n) (auto split: option.splits)
  qed simp
qed

lemma norm_parts_plain: "lit ''..'' \<notin> set ps \<Longrightarrow> norm_parts acc ps = acc @ filter named ps"
  by (induction ps arbitrary: acc) auto

text \<open>The working directory is a real one: no link on its way, no dots in it.\<close>

definition physical :: "(ustr list \<Rightarrow> ustr option) \<Rightarrow> ustr list \<Rightarrow> bool" where
  "physical links dir \<longleftrightarrow> list_all named dir \<and> lit ''..'' \<notin> set dir \<and> (\<forall>k\<le>length dir. links (take k dir) = None)"

lemma follow_physical:
  assumes "list_all named c" and "lit ''..'' \<notin> set c" and "\<forall>k\<le>length c. links (dir @ take k c) = None"
  shows "follow links n dir (c @ ps) = follow links n (dir @ c) ps"
  using assms
proof (induction c arbitrary: dir)
  case (Cons p c)
  have "links (dir @ [p]) = None" using Cons.prems(3) by (auto dest: spec [of _ 1])
  moreover have "\<forall>k\<le>length c. links ((dir @ [p]) @ take k c) = None"
    using Cons.prems(3) by (auto dest: spec [of _ "Suc _"])
  ultimately show ?case using Cons by auto
qed simp

text \<open>The place a tool opens by the path it is given: as it is, or after \<open>abspath\<close> and \<open>expanduser\<close>.\<close>

definition open_raw :: "pc \<Rightarrow> ustr \<Rightarrow> ustr list option" where
  "open_raw m path = follow (pc_links m) LINK_MAX (if is_prefix (lit ''/'') path then [] else pc_cwd m) (split_on 47 path)"

definition open_target :: "pc \<Rightarrow> ustr \<Rightarrow> ustr list option" where
  "open_target m path = follow (pc_links m) LINK_MAX [] (target_of (pc_home m) (pc_cwd m) path)"

fun raw_path :: "call \<Rightarrow> ustr option" where
  "raw_path (WriteFile p _) = Some p"
| "raw_path (EditFile p _ _ _) = Some p"
| "raw_path (ReadFile p _ _) = Some p"
| "raw_path _ = None"

fun target_path :: "call \<Rightarrow> ustr option" where
  "target_path (SearchCode _ p _) = Some p"
| "target_path (ListDir p _ _) = Some p"
| "target_path (FindFiles _ p _ _) = Some p"
| "target_path (GitStatus p) = Some p"
| "target_path (GitDiff p) = Some p"
| "target_path (GitLog p _) = Some p"
| "target_path _ = None"

definition opened_place :: "pc \<Rightarrow> call \<Rightarrow> ustr list option" where
  "opened_place m c = (case raw_path c of Some p \<Rightarrow> open_raw m p | None \<Rightarrow>
     (case target_path c of Some p \<Rightarrow> open_target m p | None \<Rightarrow> None))"

definition untilded :: "ustr \<Rightarrow> bool" where
  "untilded path \<longleftrightarrow> \<not> is_prefix (lit ''~'') path \<and> lit ''..'' \<notin> set (split_on 47 path)"

lemma open_raw_abspath:
  assumes "physical (pc_links m) (pc_cwd m)" and "lit ''..'' \<notin> set (split_on 47 path)"
  shows "open_raw m path = follow (pc_links m) LINK_MAX [] (abspath (pc_cwd m) path)"
proof (cases "is_prefix (lit ''/'') path")
  case True
  then show ?thesis using assms(2) follow_named [of "pc_links m" LINK_MAX "[]" "split_on 47 path"]
    by (simp add: open_raw_def abspath_def norm_parts_plain)
next
  case False
  then show ?thesis
    using assms follow_named [of "pc_links m" LINK_MAX "pc_cwd m" "split_on 47 path"]
      follow_physical [of "pc_cwd m" "pc_links m" "[]" LINK_MAX "filter named (split_on 47 path)"]
    by (simp add: open_raw_def abspath_def norm_parts_plain physical_def)
qed

section \<open>Names that are refused\<close>

text \<open>
  What the patterns are meant for: a name, in any mix of cases, that is on the list, that is a key or
  an environment file with an ending, that ends in \<open>.pem\<close>, or that has \<open>credentials\<close> in it; within one
  line, as the dot of a pattern stops at a line end.
\<close>

definition with_ending :: "string \<Rightarrow> ustr \<Rightarrow> bool" where
  "with_ending stem c \<longleftrightarrow> folds stem c \<or> (\<exists>e x. c = e @ x \<and> folds (stem @ ''.'') e \<and> x \<noteq> [] \<and> 10 \<notin> set x)"

definition secret_name :: "ustr \<Rightarrow> bool" where
  "secret_name c \<longleftrightarrow> folds ''.git'' c \<or> folds ''.ssh'' c \<or> with_ending ''.env'' c \<or> with_ending ''id_rsa'' c
     \<or> with_ending ''id_ed25519'' c \<or> (\<exists>x e. c = x @ e \<and> 10 \<notin> set x \<and> folds ''.pem'' e)
     \<or> (\<exists>x e y. c = x @ e @ y \<and> 10 \<notin> set x \<and> 10 \<notin> set y \<and> folds ''credentials'' e)"

lemma star_ends_reaches:
  assumes "\<And>j. i \<le> j \<Longrightarrow> j < k \<Longrightarrow> f j = [Suc j]" and "i \<le> k" and "k - i \<le> n"
  shows "k \<in> set (star_ends f n i)"
  using assms
proof (induction n arbitrary: i)
  case (Suc n)
  show ?case
  proof (cases "i = k")
    case False
    then have "k \<in> set (star_ends f n (Suc i))" using Suc.prems by (intro Suc.IH) auto
    then show ?thesis using Suc.prems(1) [of i] Suc.prems(2) False by simp
  qed simp
qed simp

lemma any_chars_reach:
  assumes "10 \<notin> set x"
  shows "length (a @ x) \<in> set (ends u (Star any_char) (a @ x @ b) (length a))"
proof -
  have "ends u any_char (a @ x @ b) j = [Suc j]" if "length a \<le> j" "j < length (a @ x)" for j
  proof -
    have "(a @ x @ b) ! j = x ! (j - length a)" using that by (auto simp: nth_append)
    moreover have "x ! (j - length a) \<in> set x" using that by (intro nth_mem) auto
    ultimately have "(a @ x @ b) ! j \<noteq> 10" using assms by metis
    then show ?thesis using that by simp
  qed
  then show ?thesis by (simp add: star_ends_reaches)
qed

lemma ends_Seq: "j \<in> set (ends u r s i) \<Longrightarrow> k \<in> set (ends u r' s j) \<Longrightarrow> k \<in> set (ends u (Seq r r') s i)"
  by auto

lemma at_end: "length s \<in> set (ends u (Seq AtEnd Eps) s (length s))"
  by simp

lemma pem_matches:
  assumes "10 \<notin> set x" and "folds ''.pem'' e"
  shows "matches_at u pem_file (x @ e)"
proof -
  have 1: "length x \<in> set (ends u (Star any_char) (x @ e) 0)" using any_chars_reach [OF assms(1), of "[]" u e] by simp
  have 2: "length (x @ e) \<in> set (ends u (chars ''.pem'') (x @ e) (length x))"
    using ends_chars [OF assms(2), of u x "[]"] by (simp del: chars_simps)
  have "length (x @ e) \<in> set (ends u pem_file (x @ e) 0)"
    unfolding pem_file_def foldr.simps o_def id_def by (rule ends_Seq [OF 1 ends_Seq [OF 2 at_end]])
  then show ?thesis unfolding matches_at_def by auto
qed

lemma credentials_match:
  assumes "10 \<notin> set x" and "10 \<notin> set y" and "folds ''credentials'' e"
  shows "matches_at u credentials_file (x @ e @ y)"
proof -
  let ?s = "x @ e @ y"
  have 1: "length x \<in> set (ends u (Star any_char) ?s 0)" using any_chars_reach [OF assms(1), of "[]" u "e @ y"] by simp
  have 2: "length (x @ e) \<in> set (ends u (chars ''credentials'') ?s (length x))"
    using ends_chars [OF assms(3), of u x y] by (simp del: chars_simps)
  have 3: "length ?s \<in> set (ends u (Star any_char) ?s (length (x @ e)))"
    using any_chars_reach [OF assms(2), of "x @ e" u "[]"] by (simp only: append_Nil2 append_assoc)
  have "length ?s \<in> set (ends u credentials_file ?s 0)"
    unfolding credentials_file_def foldr.simps o_def id_def by (rule ends_Seq [OF 1 ends_Seq [OF 2 ends_Seq [OF 3 at_end]]])
  then show ?thesis unfolding matches_at_def by auto
qed

lemma key_file_matches:
  assumes "with_ending stem c"
  shows "matches_at u (key_file stem) c"
proof -
  have "\<exists>j. j \<in> set (ends u (chars stem) c 0) \<and> length c \<in> set (ends u (opt (seqs [chars ''.'', some_of any_char])) c j)"
    using assms unfolding with_ending_def
  proof
    assume "folds stem c"
    then show ?thesis using ends_chars_0 [of stem c u "[]"] folds_length [of stem c] by (simp del: chars_simps)
  next
    assume "\<exists>e x. c = e @ x \<and> folds (stem @ ''.'') e \<and> x \<noteq> [] \<and> 10 \<notin> set x"
    then obtain e x where c: "c = e @ x" "folds (stem @ ''.'') e" "x \<noteq> []" "10 \<notin> set x" by blast
    obtain v d where e: "e = v @ d" "folds stem v" "folds ''.'' d"
      using c(2) by (auto simp: folds_def lit_def list_all2_append1)
    obtain y z where x: "x = y # z" using c(3) by (cases x) auto
    have s: "c = v @ d @ [y] @ z @ []" using c(1) e(1) x by simp
    have "length v \<in> set (ends u (chars stem) c 0)"
      using ends_chars_0 [OF e(2), of u "d @ x"] folds_length [OF e(2)] c(1) e(1) by (simp del: chars_simps)
    moreover have "length (v @ d) \<in> set (ends u (chars ''.'') c (length v))"
      using ends_chars [OF e(3), of u v x] c(1) e(1) by (simp del: chars_simps)
    moreover have "length (v @ d @ [y]) \<in> set (ends u any_char c (length (v @ d)))"
      using c(4) x s by (simp add: nth_append)
    moreover have "length c \<in> set (ends u (Star any_char) c (length (v @ d @ [y])))"
      using any_chars_reach [of z "v @ d @ [y]" u "[]"] c(4) x s by (simp only: append_assoc) simp
    ultimately have "length c \<in> set (ends u (seqs [chars ''.'', some_of any_char]) c (length v))"
      unfolding foldr.simps o_def id_def
      by (intro ends_Seq [of "length (v @ d)"] ends_Seq [of "length c" _ "Seq any_char (Star any_char)"]
          ends_Seq [of "length (v @ d @ [y])" _ any_char]) simp_all
    then show ?thesis using \<open>length v \<in> set (ends u (chars stem) c 0)\<close> by (intro exI [of _ "length v"]) simp
  qed
  then have "length c \<in> set (ends u (key_file stem) c 0)"
    unfolding key_file_def foldr.simps o_def id_def using at_end [of c u] ends_Seq by blast
  then show ?thesis unfolding matches_at_def by auto
qed

lemma excludedI: "r \<in> set BASENAME_PATTERNS \<Longrightarrow> matches_at (\<lambda>_. False) r c \<Longrightarrow> excluded c"
  unfolding excluded_def list_ex_iff by blast

lemma listed_patterns:
  "env_file \<in> set BASENAME_PATTERNS" "seqs [chars ''.git'', AtEnd] \<in> set BASENAME_PATTERNS"
  "seqs [chars ''.ssh'', AtEnd] \<in> set BASENAME_PATTERNS" "key_file ''id_rsa'' \<in> set BASENAME_PATTERNS"
  "key_file ''id_ed25519'' \<in> set BASENAME_PATTERNS" "pem_file \<in> set BASENAME_PATTERNS"
  "credentials_file \<in> set BASENAME_PATTERNS"
  unfolding BASENAME_PATTERNS_def list.set by blast+

lemma secret_excluded:
  assumes "secret_name c"
  shows "excluded c"
  using assms unfolding secret_name_def
proof (elim disjE exE conjE)
  assume "with_ending ''.env'' c"
  then show ?thesis unfolding with_ending_def append.simps by (intro excludedI [OF listed_patterns(1)] match_env)
next
  assume "folds ''.git'' c"
  then show ?thesis by (intro excludedI [OF listed_patterns(2)] match_whole)
next
  assume "folds ''.ssh'' c"
  then show ?thesis by (intro excludedI [OF listed_patterns(3)] match_whole)
next
  assume "with_ending ''id_rsa'' c"
  then show ?thesis by (intro excludedI [OF listed_patterns(4)] key_file_matches)
next
  assume "with_ending ''id_ed25519'' c"
  then show ?thesis by (intro excludedI [OF listed_patterns(5)] key_file_matches)
next
  fix x e assume "c = x @ e" "10 \<notin> set x" "folds ''.pem'' e"
  then show ?thesis using pem_matches excludedI [OF listed_patterns(6)] by blast
next
  fix x e y assume "c = x @ e @ y" "10 \<notin> set x" "10 \<notin> set y" "folds ''credentials'' e"
  then show ?thesis using credentials_match excludedI [OF listed_patterns(7)] by blast
qed

section \<open>What a job opens\<close>

lemma checked_path_Inr:
  "checked_path m v f = Inr c \<longleftrightarrow> (\<exists>p. v = JStr p \<and> check_agent_path m p = Inr () \<and> f p = Inr c)"
  by (cases v) (auto simp: checked_path_def)

lemma dir_arg_given: "dir_arg args = JStr p \<Longrightarrow> p \<noteq> []"
  by (cases "file_arg args") (auto simp: dir_arg_def py_or_def split: if_splits)

text \<open>Every call that names a file names it as it was checked.\<close>

lemma plan_files_checked:
  assumes "plan_files m kind args = Some (Inr c)"
  shows "\<exists>p. check_agent_path m p = Inr () \<and> (raw_path c = Some p \<or> raw_path c = None \<and> target_path c = Some p \<and> p \<noteq> [])"
  using assms unfolding plan_files_def Let_def
  by (fastforce simp: checked_path_Inr dest: dir_arg_given split: if_splits)

lemma plan_others_no_file: "plan_others m kind args = Inr c \<Longrightarrow> raw_path c = None \<and> target_path c = None"
  by (auto simp: plan_others_def Let_def split: if_splits)

lemma plan_job_checked:
  assumes "plan_job m job_type args = Inr c" and "opened_place m c = Some q"
  shows "\<exists>p. check_agent_path m p = Inr () \<and> (raw_path c = Some p \<or> raw_path c = None \<and> target_path c = Some p \<and> p \<noteq> [])"
proof -
  have no: "\<not> (raw_path c = None \<and> target_path c = None)" using assms(2) by (auto simp: opened_place_def split: option.splits)
  then have "plan_others m kind d \<noteq> Inr c" for kind d using plan_others_no_file by blast
  then obtain kind d where "plan_files m kind d = Some (Inr c)"
    using assms(1) no unfolding plan_job_def
    by (auto split: json.splits option.splits if_splits)
  then show ?thesis by (rule plan_files_checked)
qed

text \<open>Both ways of opening a checked path lead to what \<open>realpath\<close> found.\<close>

lemma opened_is_checked:
  assumes "check_agent_path m p = Inr ()"
    and "follow (pc_links m) LINK_MAX [] (abspath (pc_cwd m) (expanduser (pc_home m) p)) = Some q"
  shows "below (agent_root m) q \<and> list_all (\<lambda>c. \<not> excluded c) q"
  using assms by (auto simp: check_agent_path_def realpath_def Let_def list_ex_iff list_all_iff split: if_splits)

lemma expanduser_plain: "\<not> is_prefix (lit ''~'') p \<Longrightarrow> expanduser home p = p"
  by (cases p) (auto simp: expanduser_def lit_def)

text \<open>
  C39: whatever job the server sends, a file that a file tool opens for it, or the directory a search, a
  listing or git is pointed at, lies under the root of the sandbox once all links are followed, and no
  part of its name is one of a credential, a key or a repository's internals. For \<open>read_file\<close>,
  \<open>write_file\<close> and \<open>edit_file\<close> this holds for paths without a leading tilde and without \<open>..\<close>.
\<close>

theorem jobs_stay_in_the_sandbox:
  assumes "physical (pc_links m) (pc_cwd m)" and "plan_job m job_type args = Inr c"
    and "opened_place m c = Some q" and "\<And>p. raw_path c = Some p \<Longrightarrow> untilded p"
  shows "below (agent_root m) q \<and> list_all (\<lambda>part. \<not> secret_name part) q"
proof -
  obtain p where p: "check_agent_path m p = Inr ()"
    "raw_path c = Some p \<or> raw_path c = None \<and> target_path c = Some p \<and> p \<noteq> []"
    using plan_job_checked [OF assms(2,3)] by blast
  have "follow (pc_links m) LINK_MAX [] (abspath (pc_cwd m) (expanduser (pc_home m) p)) = Some q"
    using p(2)
  proof
    assume raw: "raw_path c = Some p"
    then have "untilded p" by (rule assms(4))
    then show ?thesis using raw assms(3) open_raw_abspath [OF assms(1), of p]
      by (simp add: opened_place_def untilded_def expanduser_plain)
  next
    assume "raw_path c = None \<and> target_path c = Some p \<and> p \<noteq> []"
    then show ?thesis using assms(3) by (simp add: opened_place_def open_target_def target_of_def)
  qed
  then have "below (agent_root m) q \<and> list_all (\<lambda>c. \<not> excluded c) q" by (rule opened_is_checked [OF p(1)])
  then show ?thesis using secret_excluded by (auto simp: list_all_iff)
qed

definition demo_pc :: pc where
  "demo_pc = \<lparr>pc_home = (\<lambda>u. if u = [] then Some (lit ''/home/ann'') else None), pc_cwd = [lit ''srv''], pc_root = [],
     pc_links = (\<lambda>d. if d = [lit ''home'', lit ''ann'', lit ''work''] then Some (lit ''/home/ann/projects/site'')
       else if d = [lit ''home'', lit ''ann'', lit ''projects'', lit ''data''] then Some (lit ''/srv/data'') else None),
     pc_looped = id, pc_alnum = (\<lambda>_. False), pc_int = (\<lambda>_. Inl Crash), pc_float = (\<lambda>_. Some (lit ''30.0''))\<rparr>"

abbreviation job_args :: "string \<Rightarrow> json" where
  "job_args path \<equiv> JObj [(lit ''path'', JStr (lit path))]"

lemma demo_checks:
  "plan_job demo_pc (JStr (lit ''read_file'')) (job_args ''/home/ann/work/a.txt'')
     = Inr (ReadFile (lit ''/home/ann/work/a.txt'') JNull JNull)"
  "opened_place demo_pc (ReadFile (lit ''/home/ann/work/a.txt'') JNull JNull)
     = Some [lit ''home'', lit ''ann'', lit ''projects'', lit ''site'', lit ''a.txt'']"
  "plan_job demo_pc (JStr (lit ''write_file'')) (job_args ''~/a.txt'') = Inr (WriteFile (lit ''~/a.txt'') (JStr []))"
  "opened_place demo_pc (WriteFile (lit ''~/a.txt'') (JStr [])) = Some [lit ''srv'', lit ''~'', lit ''a.txt'']"
  "plan_job demo_pc (JStr (lit ''read_file'')) (job_args ''/home/ann/projects/data/../b'')
     = Inr (ReadFile (lit ''/home/ann/projects/data/../b'') JNull JNull)"
  "opened_place demo_pc (ReadFile (lit ''/home/ann/projects/data/../b'') JNull JNull) = Some [lit ''srv'', lit ''b'']"
  "agent_root demo_pc = [lit ''home'', lit ''ann'']"
  by code_simp+

lemma jobs_stay_in_the_sandbox_witness:
  "below (agent_root demo_pc) [lit ''home'', lit ''ann'', lit ''projects'', lit ''site'', lit ''a.txt'']
   \<and> \<not> secret_name (lit ''site'')"
proof -
  have "physical (pc_links demo_pc) (pc_cwd demo_pc)"
    by (auto simp: demo_pc_def physical_def lit_def take_Cons split: nat.splits)
  moreover have "untilded p" if "raw_path (ReadFile (lit ''/home/ann/work/a.txt'') JNull JNull) = Some p" for p
    using that by (auto simp: untilded_def lit_def)
  ultimately show ?thesis
    using jobs_stay_in_the_sandbox [OF _ demo_checks(1,2)] by simp
qed

section \<open>Where the walls have gaps\<close>

text \<open>
  The check expands a tilde and collapses \<open>..\<close> before it follows links; \<open>open\<close> gets the path as it was
  sent. So a write to \<open>~/a.txt\<close> lands below the working directory, and \<open>..\<close> behind a link to a directory
  leads to where the link points, both outside the root.
\<close>

lemma tilde_is_opened_literally:
  "\<exists>c q. plan_job demo_pc (JStr (lit ''write_file'')) (job_args ''~/a.txt'') = Inr c
     \<and> opened_place demo_pc c = Some q \<and> \<not> below (agent_root demo_pc) q"
  using demo_checks(3,4,7) by (auto simp: below_def lit_def)

lemma dots_behind_a_link_leave_the_sandbox:
  "\<exists>c q. plan_job demo_pc (JStr (lit ''read_file'')) (job_args ''/home/ann/projects/data/../b'') = Inr c
     \<and> opened_place demo_pc c = Some q \<and> \<not> below (agent_root demo_pc) q"
  using demo_checks(5,6,7) by (auto simp: below_def lit_def)

text \<open>The names the comments describe as \<open>.env*\<close> and \<open>id_rsa*\<close> are refused with a dot after the stem only.\<close>

lemma other_endings_are_not_excluded:
  "\<not> excluded (lit ''id_rsa_work'')" "\<not> excluded (lit ''.envrc'')" "excluded (lit ''.env.local'')"
  by code_simp+

text \<open>A path outside the sandbox is answered, with the face of an error; the loops go on.\<close>

lemma refused_jobs_are_answered:
  assumes "check_agent_path m p = Inl Blocked" and "map_of j (lit ''job_id'') = Some i"
    and "dget j (lit ''type'') = JStr (lit ''read_file'')" and "dget j (lit ''args'') = JObj [(lit ''path'', JStr p)]"
  shows "execute_job m ts j = ([''working'', ''error''], Answer (status_result ''blocked'' ''reason'' (why_blocked ts)))"
    and "answer_job m ts (JObj j) = Some (job_reply i (status_result ''blocked'' ''reason'' (why_blocked ts)))"
proof -
  have plan: "plan_job m (JStr (lit ''read_file'')) (JObj [(lit ''path'', JStr p)]) = Inl Blocked"
    using assms(1) by (simp add: plan_job_def plan_files_def checked_path_def file_arg_def dget_or_def)
  show run: "execute_job m ts j = ([''working'', ''error''], Answer (status_result ''blocked'' ''reason'' (why_blocked ts)))"
    using assms(3,4) plan
    by (simp add: execute_job_def execute_job_body_def py_or_def job_face_def result_face_def status_result_def
        FACE_ERROR_STATUSES_def dget_def)
  show "answer_job m ts (JObj j) = Some (job_reply i (status_result ''blocked'' ''reason'' (why_blocked ts)))"
    using assms(2) run by (simp add: answer_job_def)
qed

text \<open>
  A number that is none makes \<open>code_search\<close> and \<open>process_list\<close> raise; the loops catch the errors of the
  HTTP client only, so the program ends, whatever else would have come.
\<close>

lemma bad_numbers_end_the_program:
  assumes "dget d (lit ''job'') = JObj j" and "dget j (lit ''type'') = JStr (lit ''process_list'')"
    and "dget j (lit ''args'') = JObj [(lit ''limit'', JStr (lit ''many''))]"
  shows "poll_loop m ts ((Payload_of d, p) # cs) = ([], Some Broke)"
proof -
  have "parse_int (lit ''many'') = None" by code_simp
  then have "plan_job m (JStr (lit ''process_list'')) (JObj [(lit ''limit'', JStr (lit ''many''))]) = Inl ValueErr"
    by (simp add: plan_job_def plan_files_def plan_others_def int_arg_def py_or_def dget_def Let_def)
  then have "answer_job m ts (JObj j) = None"
    using assms(2,3) by (simp add: answer_job_def execute_job_def execute_job_body_def py_or_def)
  then show ?thesis using assms(1) by simp
qed

text \<open>
  The wait for a message is three heartbeats long, and pings do not count as messages: a connection on
  which nothing is to be done for that long is given up for good, and with it what needs the relay.
\<close>

lemma idle_relays_are_given_up:
  assumes "3 * heartbeat \<le> wait"
  shows "run_harness m ts True heartbeat ((wait, message) # arrived) cycles = poll_loop m ts cycles"
  using assms by (simp add: run_harness_def split: prod.splits)

end
