(* ===== verification/Chat.thy ===== *)
theory Chat
  imports Pairing Settings
begin

text \<open>
  The chat service of the OpenAI protocol and the dashboard: \<open>invincible/core/chat_service.py\<close> (what is
  sent to the router and what is stored, the stream, the mapping of errors) and
  \<open>invincible/core/context_builder.py\<close> (the injected system messages under one budget). The router, the
  session store, the memory and the retrieval are arguments; log lines are left out.
\<close>

section \<open>The pieces of a stream\<close>

text \<open>\<open>(choice.get("delta") or {})\<close>; \<open>None\<close> is a raise.\<close>

definition delta_of :: "json \<Rightarrow> pydict option" where
  "delta_of choice = (case choice of
       JObj c \<Rightarrow> (case py_or (dget c (lit ''delta'')) (JObj []) of JObj d \<Rightarrow> Some d | _ \<Rightarrow> None)
     | _ \<Rightarrow> None)"

definition chunk_choices :: "json \<Rightarrow> json list option" where
  "chunk_choices chunk = (case chunk of
       JObj c \<Rightarrow> (case py_or (dget c (lit ''choices'')) (JList []) of JList cs \<Rightarrow> Some cs | _ \<Rightarrow> None)
     | _ \<Rightarrow> None)"

fun add_pieces :: "ustr \<Rightarrow> json list \<Rightarrow> ustr option" where
  "add_pieces content [] = Some content"
| "add_pieces content (choice # cs) = (case delta_of choice of
       None \<Rightarrow> None
     | Some d \<Rightarrow> (let piece = dget d (lit ''content'') in
         if \<not> truthy piece then add_pieces content cs
         else (case piece of JStr s \<Rightarrow> add_pieces (content @ s) cs | _ \<Rightarrow> None)))"

definition append_content :: "ustr \<Rightarrow> json \<Rightarrow> ustr option" where
  "append_content content chunk = (case chunk_choices chunk of None \<Rightarrow> None | Some cs \<Rightarrow> add_pieces content cs)"

definition chunk_text :: "json \<Rightarrow> ustr option" where
  "chunk_text chunk = append_content [] chunk"

definition delta_tool_calls :: "json \<Rightarrow> json list option" where
  "delta_tool_calls chunk = (case chunk_choices chunk of
       None \<Rightarrow> None
     | Some [] \<Rightarrow> Some []
     | Some (choice # _) \<Rightarrow> (case delta_of choice of
         None \<Rightarrow> None
       | Some d \<Rightarrow> (case py_or (dget d (lit ''tool_calls'')) (JList []) of JList ts \<Rightarrow> Some ts | _ \<Rightarrow> None)))"

record chat_call =
  cc_id :: json
  cc_name :: json
  cc_arguments :: ustr

text \<open>
  \<open>_accumulate_tool_call\<close>: the calls by their index, and whether nothing was raised. \<open>True\<close> and \<open>1\<close> are
  the same key; an index that is a list or an object is none.
\<close>

fun call_index :: "json \<Rightarrow> json option" where
  "call_index (JBool b) = Some (JInt (if b then 1 else 0))"
| "call_index (JList _) = None"
| "call_index (JObj _) = None"
| "call_index v = Some v"

definition accumulate_tool_call :: "json \<Rightarrow> (json \<times> chat_call) list \<Rightarrow> (json \<times> chat_call) list \<times> bool" where
  "accumulate_tool_call tool_call states = (case tool_call of
       JObj t \<Rightarrow> (case (call_index (dget_or t (lit ''index'') (JInt 0)), py_or (dget t (lit ''function'')) (JObj [])) of
           (Some index, JObj f) \<Rightarrow>
             (let st = (case map_of states index of
                    Some st \<Rightarrow> st
                  | None \<Rightarrow> \<lparr>cc_id = dget t (lit ''id''), cc_name = dget f (lit ''name''), cc_arguments = []\<rparr>);
                  arguments = dget f (lit ''arguments'')
              in if \<not> truthy arguments then (dset index st states, True)
                 else (case arguments of
                     JStr s \<Rightarrow> (dset index (st\<lparr>cc_arguments := cc_arguments st @ s\<rparr>) states, True)
                   | _ \<Rightarrow> (dset index st states, False)))
         | _ \<Rightarrow> (states, False))
     | _ \<Rightarrow> (states, False))"

fun accumulate_all :: "json list \<Rightarrow> (json \<times> chat_call) list \<Rightarrow> (json \<times> chat_call) list \<times> bool" where
  "accumulate_all [] states = (states, True)"
| "accumulate_all (t # ts) states = (case accumulate_tool_call t states of
       (states', True) \<Rightarrow> accumulate_all ts states'
     | (states', False) \<Rightarrow> (states', False))"

section \<open>The turn that is stored\<close>

text \<open>
  \<open>sorted(states.items())\<close>: by the index when all are integers; \<open>other\<close> is what Python does with other
  keys, \<open>None\<close> if it raises. The keys differ, so the states are not compared.
\<close>

fun int_key :: "json \<Rightarrow> bool" where
  "int_key (JInt _) = True"
| "int_key _ = False"

fun key_int :: "json \<Rightarrow> int" where
  "key_int (JInt i) = i"
| "key_int _ = 0"

type_synonym other_sort = "(json \<times> chat_call) list \<Rightarrow> (json \<times> chat_call) list option"

definition sorted_states :: "other_sort \<Rightarrow> (json \<times> chat_call) list \<Rightarrow> (json \<times> chat_call) list option" where
  "sorted_states other states =
     (if list_all (\<lambda>(k, _). int_key k) states then Some (sort_key (key_int \<circ> fst) states) else other states)"

definition stored_tool_call :: "ustr \<Rightarrow> chat_call \<Rightarrow> json" where
  "stored_tool_call fresh st = JObj [(lit ''id'', py_or (cc_id st) (JStr (lit ''call_'' @ fresh))),
     (lit ''type'', JStr (lit ''function'')),
     (lit ''function'', JObj [(lit ''name'', py_or (cc_name st) (JStr [])),
        (lit ''arguments'', JStr (if cc_arguments st = [] then lit ''{}'' else cc_arguments st))])]"

text \<open>\<open>_stream_assistant_message\<close>; \<open>fresh n\<close> is the uuid made for the n-th call.\<close>

definition chat_assistant_message ::
  "other_sort \<Rightarrow> (nat \<Rightarrow> ustr) \<Rightarrow> ustr \<Rightarrow> (json \<times> chat_call) list \<Rightarrow> pydict option" where
  "chat_assistant_message other fresh content states = (case sorted_states other states of
       None \<Rightarrow> None
     | Some sts \<Rightarrow>
         (let calls = map (\<lambda>(n, _, st). stored_tool_call (fresh n) st) (enumerate 0 sts)
          in Some (build_message (lit ''assistant'') (if content = [] then JNull else JStr content)
               @ (if calls \<noteq> [] then [(lit ''tool_calls'', JList calls)] else []))))"

text \<open>The turns \<open>_persist_new_turns\<close> appends; a failure of the store, the memory or the usage row is logged only.\<close>

definition new_chat_turns :: "pydict list \<Rightarrow> pydict \<Rightarrow> pydict list" where
  "new_chat_turns to_persist reply = filter (\<lambda>m. \<not> role_is m ''system'') to_persist @ [reply]"

section \<open>The stream\<close>

datatype heard = Chunk json | UpstreamFails
datatype sent_frame = Data json | ErrorEvent | DoneMark

record heard_state =
  hs_content :: ustr
  hs_tools :: "(json \<times> chat_call) list"

definition hear :: "json \<Rightarrow> heard_state \<Rightarrow> heard_state \<times> bool" where
  "hear chunk s = (case append_content (hs_content s) chunk of
       None \<Rightarrow> (s, False)
     | Some content \<Rightarrow>
         (let s1 = s\<lparr>hs_content := content\<rparr> in
          case delta_tool_calls chunk of
            None \<Rightarrow> (s1, False)
          | Some calls \<Rightarrow> (case accumulate_all calls (hs_tools s1) of
              (tools, ok) \<Rightarrow> (s1\<lparr>hs_tools := tools\<rparr>, ok))))"

fun hear_all :: "heard_state \<Rightarrow> heard list \<Rightarrow> sent_frame list \<times> heard_state \<times> bool" where
  "hear_all s [] = ([], s, True)"
| "hear_all s (UpstreamFails # hs) = ([], s, False)"
| "hear_all s (Chunk c # hs) = (case hear c s of
       (s', False) \<Rightarrow> ([], s', False)
     | (s', True) \<Rightarrow> (case hear_all s' hs of (frames, s'', ok) \<Rightarrow> (Data c # frames, s'', ok)))"

text \<open>
  \<open>_stream_body\<close>: the frames, and the reply that is stored. After a failure the error is sent first and
  the turn stored then; otherwise the turn is stored before the end mark. A client that leaves at the
  k-th frame closes the generator there: what comes after is not done.
\<close>

definition nothing_heard :: heard_state where
  "nothing_heard = \<lparr>hs_content = [], hs_tools = []\<rparr>"

definition stream_body ::
  "other_sort \<Rightarrow> (nat \<Rightarrow> ustr) \<Rightarrow> heard list \<Rightarrow> sent_frame list \<times> pydict option" where
  "stream_body other fresh hs = (case hear_all nothing_heard hs of
       (frames, s, ok) \<Rightarrow>
         (let reply = chat_assistant_message other fresh (hs_content s) (hs_tools s)
          in (frames @ (if \<not> ok then [ErrorEvent] else if reply = None then [] else [DoneMark]), reply)))"

definition stream_left ::
  "other_sort \<Rightarrow> (nat \<Rightarrow> ustr) \<Rightarrow> heard list \<Rightarrow> nat \<Rightarrow> sent_frame list \<times> pydict option" where
  "stream_left other fresh hs k = (case stream_body other fresh hs of
       (frames, reply) \<Rightarrow> (take k frames, if k = length frames \<and> DoneMark \<in> set frames then reply else None))"

section \<open>Requests\<close>

definition sanitize_for_routing :: "pydict list \<Rightarrow> pydict list" where
  "sanitize_for_routing messages = map (filter (\<lambda>(k, _). k \<noteq> lit ''asked'' \<and> k \<noteq> lit ''mic'')) messages"

datatype chat_error = InvalidRequest | NoCredentials | Refused int json | GatewayError

record prepared_chat =
  pc_messages :: "pydict list"
  pc_to_persist :: "pydict list"

text \<open>
  \<open>prepare_chat\<close> after the session was resolved: \<open>history\<close> is what the store loads, \<open>injections\<close> what the
  context builder makes; \<open>candidates\<close> are the user's own credentials, \<open>None\<close> on the static pool. The
  arguments of the router and the turn cap are passed on.
\<close>

definition prepare_chat ::
  "pydict list \<Rightarrow> pydict list \<Rightarrow> 'c list option \<Rightarrow> pydict list \<Rightarrow> chat_error + prepared_chat" where
  "prepare_chat history injections candidates messages =
     (case repair_tool_pairing (map JObj (history @ injections @ sanitize_for_routing messages)) of
        Inl _ \<Rightarrow> Inl InvalidRequest
      | Inr full \<Rightarrow>
          if candidates = Some [] then Inl NoCredentials
          else Inr \<lparr>pc_messages = full, pc_to_persist = filter (\<lambda>m. \<not> role_is m ''system'') messages\<rparr>)"

datatype routed = Reply pydict | NoneConfigured | ClientError int json | Exhausted | OtherError

text \<open>
  \<open>run_nonstreaming\<close>: the result and what is appended, if the store takes it; the memory sees the same
  turns and its errors are logged only. \<open>open_stream\<close> maps the errors alone.
\<close>

definition run_nonstreaming :: "bool \<Rightarrow> prepared_chat \<Rightarrow> routed \<Rightarrow> (chat_error + pydict) \<times> json list option" where
  "run_nonstreaming store_works p r = (case r of
       NoneConfigured \<Rightarrow> (Inl NoCredentials, None)
     | ClientError status body \<Rightarrow> (Inl (Refused status body), None)
     | Exhausted \<Rightarrow> (Inl GatewayError, None)
     | OtherError \<Rightarrow> (Inl GatewayError, None)
     | Reply result \<Rightarrow>
         (let added = (\<lambda>c. map JObj (pc_to_persist p) @ [c]) in
          case py_or (dget result (lit ''choices'')) (JList []) of
            JList [] \<Rightarrow> (Inr result, None)
          | JList (JObj c # _) \<Rightarrow> (case map_of c (lit ''message'') of
                None \<Rightarrow> (Inr result, None)
              | Some message \<Rightarrow> if store_works then (Inr result, Some (added message)) else (Inl GatewayError, None))
          | JList (JStr s # _) \<Rightarrow> if contains (lit ''message'') s then (Inl GatewayError, None) else (Inr result, None)
          | JList (JList vs # _) \<Rightarrow> if JStr (lit ''message'') \<in> set vs then (Inl GatewayError, None) else (Inr result, None)
          | JStr _ \<Rightarrow> (Inr result, None)
          | _ \<Rightarrow> (Inl GatewayError, None)))"

definition open_stream_error :: "routed \<Rightarrow> chat_error option" where
  "open_stream_error r = (case r of
       NoneConfigured \<Rightarrow> Some NoCredentials
     | ClientError status body \<Rightarrow> Some (Refused status body)
     | Exhausted \<Rightarrow> Some GatewayError
     | _ \<Rightarrow> None)"

definition model_entry :: "json \<Rightarrow> json" where
  "model_entry i = JObj [(lit ''id'', i), (lit ''object'', JStr (lit ''model'')), (lit ''owned_by'', JStr (lit ''invincible''))]"

text \<open>\<open>models_from_providers\<close> on dictionaries whose aliases are a list or nothing.\<close>

fun aliases_of :: "pydict \<Rightarrow> json list" where
  "aliases_of p = (case dget p (lit ''aliases'') of JList vs \<Rightarrow> vs | _ \<Rightarrow> [])"

definition models_from_providers :: "pydict list \<Rightarrow> json list" where
  "models_from_providers providers =
     map (\<lambda>p. model_entry (dget p (lit ''model_id''))) (filter (\<lambda>p. truthy (dget p (lit ''model_id''))) providers)
     @ map model_entry (concat (map aliases_of providers))"

section \<open>Injected context\<close>

definition TRUNCATION_MARK :: ustr where
  "TRUNCATION_MARK = lit '' ['' @ [8230] @ lit ''context trimmed]''"

fun newest_user_text :: "pydict list \<Rightarrow> ustr" where
  "newest_user_text [] = []"
| "newest_user_text (m # ms) = (case dget m (lit ''content'') of
       JStr s \<Rightarrow> if role_is m ''user'' then s else newest_user_text ms
     | _ \<Rightarrow> newest_user_text ms)"

definition latest_user_text :: "pydict list \<Rightarrow> ustr" where
  "latest_user_text messages = newest_user_text (rev messages)"

definition rstrip_text :: "ustr \<Rightarrow> ustr" where
  "rstrip_text s = rev (lstrip (rev s))"

definition cut_text :: "ustr \<Rightarrow> int \<Rightarrow> ustr option" where
  "cut_text content token_budget =
     (let max_chars = token_budget * 4 - 64 - int (length TRUNCATION_MARK) in
      if token_budget \<le> 0 \<or> max_chars \<le> 0 then None
      else if int (length content) \<le> max_chars then Some content
      else (let trimmed = rstrip_text (take (nat max_chars) content)
            in if trimmed = [] then None else Some (trimmed @ TRUNCATION_MARK)))"

definition MEMORY_HEADING :: ustr where
  "MEMORY_HEADING = lit ''[Relevant memory '' @ [8212] @ lit '' earlier statements from this user, most relevant first. They may be stale if contradicted lately.]''"

definition render_memory_block :: "ustr list \<Rightarrow> ustr option" where
  "render_memory_block hits = (if hits = [] then None
     else Some (join [10] (MEMORY_HEADING # map (\<lambda>h. lit ''- '' @ h) hits)))"

definition system_of :: "ustr \<Rightarrow> pydict" where
  "system_of content = build_message (lit ''system'') (JStr content)"

definition assemble :: "ustr list \<Rightarrow> ustr option \<Rightarrow> int \<Rightarrow> pydict list" where
  "assemble hits continuity_content budget_tokens =
     (let (out, remaining) = (case continuity_content of
            None \<Rightarrow> ([], budget_tokens)
          | Some content \<Rightarrow> (case cut_text content budget_tokens of
              None \<Rightarrow> ([], budget_tokens)
            | Some fitted \<Rightarrow> ([system_of fitted],
                budget_tokens - min (estimate_tokens (system_of fitted)) budget_tokens)))
      in case render_memory_block hits of
           None \<Rightarrow> out
         | Some block \<Rightarrow> (case cut_text block remaining of
             None \<Rightarrow> out
           | Some fitted \<Rightarrow> out @ [system_of fitted]))"

text \<open>\<open>build_context_messages\<close>: \<open>retrieve\<close> answers the query, \<open>None\<close> when the memory is off.\<close>

definition build_context_messages ::
  "(ustr \<Rightarrow> ustr list) option \<Rightarrow> ustr option \<Rightarrow> int \<Rightarrow> pydict list \<Rightarrow> pydict list" where
  "build_context_messages retrieve continuity_content budget_tokens new_messages =
     assemble (case retrieve of None \<Rightarrow> [] | Some f \<Rightarrow> f (latest_user_text new_messages)) continuity_content budget_tokens"

section \<open>What was sent is what is stored\<close>

text \<open>A piece of a call: its index, the id and the name it brings, the part of the arguments.\<close>

type_synonym call_piece = "json \<times> json \<times> json \<times> ustr"

fun piece_of :: "json \<Rightarrow> call_piece option" where
  "piece_of (JObj t) = (case (call_index (dget_or t (lit ''index'') (JInt 0)), py_or (dget t (lit ''function'')) (JObj [])) of
       (Some index, JObj f) \<Rightarrow>
         (if truthy (dget f (lit ''arguments'')) \<and> \<not> is_str (dget f (lit ''arguments'')) then None
          else Some (index, dget t (lit ''id''), dget f (lit ''name''),
            (case dget f (lit ''arguments'') of JStr a \<Rightarrow> a | _ \<Rightarrow> [])))
     | _ \<Rightarrow> None)"
| "piece_of _ = None"

definition said_by :: "json \<Rightarrow> ustr" where
  "said_by c = (case chunk_text c of Some s \<Rightarrow> s | None \<Rightarrow> [])"

definition pieces_by :: "json \<Rightarrow> call_piece list" where
  "pieces_by c = (case delta_tool_calls c of Some ts \<Rightarrow> List.map_filter piece_of ts | None \<Rightarrow> [])"

definition readable :: "json \<Rightarrow> bool" where
  "readable c \<longleftrightarrow> chunk_text c \<noteq> None
     \<and> (case delta_tool_calls c of Some ts \<Rightarrow> list_all (\<lambda>t. piece_of t \<noteq> None) ts | None \<Rightarrow> False)"

text \<open>The call with an index: id and name of its first piece, all its arguments one after the other.\<close>

definition call_with :: "call_piece list \<Rightarrow> json \<Rightarrow> chat_call option" where
  "call_with ps i = (case filter (\<lambda>(j, _). j = i) ps of
       [] \<Rightarrow> None
     | (_, ident, fname, a) # later \<Rightarrow> Some \<lparr>cc_id = ident, cc_name = fname,
         cc_arguments = a @ concat (map (\<lambda>(_, _, _, b). b) later)\<rparr>)"

lemma add_pieces_text: "add_pieces content cs = map_option ((@) content) (add_pieces [] cs)"
proof (induction cs arbitrary: content)
  case (Cons c cs)
  have "add_pieces (content @ s) cs = map_option ((@) content) (add_pieces s cs)" for s
    using Cons.IH [of "content @ s"] Cons.IH [of s] by (cases "add_pieces [] cs") simp_all
  then show ?case
    using Cons.IH [of content] by (auto simp: Let_def split: option.splits json.splits)
qed simp

lemma append_content_text: "append_content content c = map_option ((@) content) (chunk_text c)"
  unfolding chunk_text_def append_content_def by (simp add: add_pieces_text [of content] split: option.splits)

definition keeps :: "call_piece list \<Rightarrow> (json \<times> chat_call) list \<Rightarrow> bool" where
  "keeps ps states \<longleftrightarrow> distinct (map fst states) \<and> (\<forall>i. map_of states i = call_with ps i)"

lemma accumulate_keeps:
  assumes "piece_of t = Some p" and "keeps ps states"
  shows "\<exists>states'. accumulate_tool_call t states = (states', True) \<and> keeps (ps @ [p]) states'"
proof -
  obtain d where d: "t = JObj d" using assms(1) by (cases t) auto
  obtain i ident fname a where p: "p = (i, ident, fname, a)" by (cases p)
  let ?st = "case map_of states i of Some st \<Rightarrow> st | None \<Rightarrow> \<lparr>cc_id = ident, cc_name = fname, cc_arguments = []\<rparr>"
  have acc: "accumulate_tool_call t states = (dset i (?st\<lparr>cc_arguments := cc_arguments ?st @ a\<rparr>) states, True)"
    using assms(1) unfolding d p accumulate_tool_call_def
    by (auto simp: Let_def split: option.splits json.splits if_splits)
  have "call_with (ps @ [p]) i = Some (?st\<lparr>cc_arguments := cc_arguments ?st @ a\<rparr>)"
    using assms(2) unfolding keeps_def p call_with_def
    by (cases "filter (\<lambda>(j, _). j = i) ps") (auto split: option.splits)
  moreover have "call_with (ps @ [p]) j = map_of states j" if "j \<noteq> i" for j
    using assms(2) that unfolding keeps_def p call_with_def by simp
  ultimately have "keeps (ps @ [p]) (dset i (?st\<lparr>cc_arguments := cc_arguments ?st @ a\<rparr>) states)"
    using assms(2) unfolding keeps_def by (auto simp: map_of_dset distinct_keys_dset)
  then show ?thesis using acc by blast
qed

lemma accumulate_all_keeps:
  assumes "list_all (\<lambda>t. piece_of t \<noteq> None) ts" and "keeps ps states"
  shows "\<exists>states'. accumulate_all ts states = (states', True) \<and> keeps (ps @ List.map_filter piece_of ts) states'"
  using assms
proof (induction ts arbitrary: ps states)
  case (Cons t ts)
  then obtain p where p: "piece_of t = Some p" by auto
  from accumulate_keeps [OF p Cons.prems(2)] obtain states1 where
    "accumulate_tool_call t states = (states1, True)" "keeps (ps @ [p]) states1" by blast
  then show ?case using Cons.IH [of "ps @ [p]" states1] Cons.prems(1) p by (simp add: List.map_filter_simps)
qed (simp add: List.map_filter_simps)

lemma hear_readable:
  assumes "readable c" and "keeps ps (hs_tools s)"
  shows "\<exists>s'. hear c s = (s', True) \<and> hs_content s' = hs_content s @ said_by c \<and> keeps (ps @ pieces_by c) (hs_tools s')"
proof -
  obtain x ts where c: "chunk_text c = Some x" "delta_tool_calls c = Some ts" "list_all (\<lambda>t. piece_of t \<noteq> None) ts"
    using assms(1) unfolding readable_def by (auto split: option.splits)
  from accumulate_all_keeps [OF c(3) assms(2)] obtain states'
    where "accumulate_all ts (hs_tools s) = (states', True)" "keeps (ps @ List.map_filter piece_of ts) states'" by blast
  then show ?thesis using c by (simp add: hear_def append_content_text said_by_def pieces_by_def)
qed

fun heard_chunks :: "heard list \<Rightarrow> json list" where
  "heard_chunks (Chunk c # hs) = c # heard_chunks hs"
| "heard_chunks _ = []"

lemma hear_all_readable:
  assumes "list_all readable (heard_chunks hs)" and "keeps ps (hs_tools s)"
  shows "\<exists>s'. hear_all s hs = (map Data (heard_chunks hs), s', UpstreamFails \<notin> set hs)
    \<and> hs_content s' = hs_content s @ concat (map said_by (heard_chunks hs))
    \<and> keeps (ps @ concat (map pieces_by (heard_chunks hs))) (hs_tools s')"
  using assms
proof (induction hs arbitrary: ps s)
  case (Cons h hs)
  show ?case
  proof (cases h)
    case (Chunk c)
    from hear_readable [of c ps s] Cons.prems Chunk obtain s1 where s1: "hear c s = (s1, True)"
      "hs_content s1 = hs_content s @ said_by c" "keeps (ps @ pieces_by c) (hs_tools s1)" by auto
    have "list_all readable (heard_chunks hs)" using Cons.prems(1) Chunk by simp
    from Cons.IH [OF this s1(3)] obtain s2 where
      "hear_all s1 hs = (map Data (heard_chunks hs), s2, UpstreamFails \<notin> set hs)"
      "hs_content s2 = hs_content s1 @ concat (map said_by (heard_chunks hs))"
      "keeps ((ps @ pieces_by c) @ concat (map pieces_by (heard_chunks hs))) (hs_tools s2)" by auto
    then show ?thesis using s1 Chunk by simp
  qed (use Cons.prems in simp)
qed simp

lemma same_map: "distinct (map fst xs) \<Longrightarrow> distinct (map fst ys) \<Longrightarrow> set xs = set ys \<Longrightarrow> map_of xs = map_of ys"
  by (rule ext) (metis map_of_eq_None_iff map_of_eq_Some_iff not_None_eq set_map)

lemma distinct_map_fst_sort: "distinct (map fst xs) \<Longrightarrow> distinct (map fst (sort_key f xs))"
  using mset_eq_imp_distinct_iff [of "map fst (sort_key f xs)" "map fst xs"] by simp


abbreviation call_part :: "int \<Rightarrow> string \<Rightarrow> string \<Rightarrow> json" where
  "call_part i ident args \<equiv> JObj [(lit ''index'', JInt i), (lit ''id'', JStr (lit ident)),
     (lit ''function'', JObj [(lit ''name'', JStr (lit ''f'')), (lit ''arguments'', JStr (lit args))])]"

abbreviation chunk_with :: "string \<Rightarrow> json list \<Rightarrow> json" where
  "chunk_with content calls \<equiv> JObj [(lit ''choices'', JList [JObj [(lit ''delta'',
     JObj [(lit ''content'', JStr (lit content)), (lit ''tool_calls'', JList calls)])]])]"

definition demo_heard :: "heard list" where
  "demo_heard = [Chunk (chunk_with ''Hi'' []), Chunk (chunk_with [] [call_part 1 ''b'' ''{}'']),
     Chunk (chunk_with [] [call_part 0 ''a'' ''{1'']), Chunk (chunk_with [] [call_part 0 [] ''}'']), UpstreamFails]"

lemma demo_heard_readable:
  "list_all readable (heard_chunks demo_heard)"
  "concat (map said_by (heard_chunks demo_heard)) = lit ''Hi''"
  "map (\<lambda>(i, _, _, a). (i, a)) (concat (map pieces_by (heard_chunks demo_heard)))
     = [(JInt 1, lit ''{}''), (JInt 0, lit ''{1''), (JInt 0, lit ''}'')]"
  by code_simp+


section \<open>What is not as it should be\<close>

text \<open>
  Two calls under one index, which the translation of the Responses protocol tells apart by their ids,
  are stored as one call with the arguments of both.
\<close>

lemma calls_on_one_index_are_merged:
  "call_with (concat (map pieces_by [chunk_with [] [call_part 0 ''a'' ''{}''], chunk_with [] [call_part 0 ''b'' ''{}'']])) (JInt 0)
   = Some \<lparr>cc_id = JStr (lit ''a''), cc_name = JStr (lit ''f''), cc_arguments = lit ''{}{}''\<rparr>"
  by code_simp

text \<open>A client that leaves before the end has read text that is not stored; when the upstream fails it is.\<close>

lemma left_streams_are_not_stored:
  assumes "k < length (fst (stream_body other fresh hs))"
  shows "snd (stream_left other fresh hs k) = None"
  using assms by (cases "stream_body other fresh hs") (simp add: stream_left_def)

text \<open>
  The keys that are for the client only are taken off the new messages, not off the history, where the
  same messages are on the next request.
\<close>

lemma stored_marks_are_sent:
  assumes "m = [(lit ''role'', JStr (lit ''user'')), (lit ''content'', JStr t), (lit ''asked'', JBool True)]"
    and "m' = [(lit ''role'', JStr (lit ''user'')), (lit ''content'', JStr u)]"
  shows "prepare_chat [] [] None [m] = Inr \<lparr>pc_messages = [butlast m], pc_to_persist = [m]\<rparr>"
    and "prepare_chat [m] [] None [m'] = Inr \<lparr>pc_messages = [m, m'], pc_to_persist = [m']\<rparr>"
proof -
  have "sanitize_for_routing [m] = [butlast m]" "sanitize_for_routing [m'] = [m']"
    by (simp_all add: sanitize_for_routing_def assms lit_def)
  moreover have "exactly_paired [butlast m]" "exactly_paired [m, m']"
    by (simp_all add: assms calls_ok_def role_is_def dget_def call_ids_def lit_def)
  then have "repair_tool_pairing (map JObj [butlast m]) = Inr [butlast m]"
    "repair_tool_pairing (map JObj [m, m']) = Inr [m, m']"
    by (auto intro!: repair_keeps_valid_history simp del: list.map)
  moreover have "\<not> role_is m ''system''" "\<not> role_is m' ''system''" by (simp_all add: assms role_is_def dget_def lit_def)
  ultimately show "prepare_chat [] [] None [m] = Inr \<lparr>pc_messages = [butlast m], pc_to_persist = [m]\<rparr>"
    "prepare_chat [m] [] None [m'] = Inr \<lparr>pc_messages = [m, m'], pc_to_persist = [m']\<rparr>"
    by (simp_all add: prepare_chat_def)
qed

section \<open>The budget of the injections\<close>

definition printable :: "int \<Rightarrow> bool" where
  "printable c \<longleftrightarrow> 32 \<le> c \<and> c \<le> 126 \<and> c \<noteq> 34 \<and> c \<noteq> 92"

lemma printable_escape: "printable c \<Longrightarrow> escape_char True c = [c]"
  by (auto simp: printable_def escape_char_def)

lemma printable_length: "list_all printable s \<Longrightarrow> length (concat (map (escape_char True) s)) = length s"
  by (induction s) (simp_all add: printable_escape)

lemma mark_length: "length TRUNCATION_MARK = 19" "length (concat (map (escape_char True) TRUNCATION_MARK)) = 24"
  by code_simp+

lemma system_length:
  "length (dumps True (JObj (system_of s))) = 33 + length (concat (map (escape_char True) s))"
proof -
  have "length (dumps True (JObj (system_of s)))
    = length (lit ''{'') + length (dumps_str True (lit ''role'')) + length (lit '': '') + length (dumps_str True (lit ''system''))
      + length (lit '', '') + length (dumps_str True (lit ''content'')) + length (lit '': '') + 2
      + length (concat (map (escape_char True) s)) + length (lit ''}'')"
    by (simp add: system_of_def build_message_def dumps_str_def)
  moreover have "length (dumps_str True (lit ''role'')) = 6" "length (dumps_str True (lit ''system'')) = 8"
    "length (dumps_str True (lit ''content'')) = 9" by code_simp+
  ultimately show ?thesis by simp
qed

lemma set_rstrip_text: "set (rstrip_text s) \<subseteq> set s" "length (rstrip_text s) \<le> length s"
proof -
  show "set (rstrip_text s) \<subseteq> set s" by (auto simp: rstrip_text_def lstrip_def dest: set_dropWhileD)
  show "length (rstrip_text s) \<le> length s"
    using length_dropWhile_le' [of is_space "rev s"] by (simp add: rstrip_text_def lstrip_def)
qed

text \<open>
  A message that is cut to a budget stays within it as long as its text needs no escapes in JSON; with
  characters outside ASCII, which the estimate counts as six, it can be three times the budget.
\<close>

lemma plain_injections_fit:
  assumes "cut_text content budget = Some fitted" and "list_all printable content"
  shows "estimate_tokens (system_of fitted) \<le> budget"
proof -
  have "33 + int (length (concat (map (escape_char True) fitted))) \<le> 4 * budget"
  proof (cases "int (length content) \<le> budget * 4 - 64 - int (length TRUNCATION_MARK)")
    case True
    then show ?thesis using assms printable_length [OF assms(2)] mark_length(1)
      by (auto simp: cut_text_def Let_def split: if_splits)
  next
    case False
    define n where "n = nat (budget * 4 - 64 - int (length TRUNCATION_MARK))"
    have f: "fitted = rstrip_text (take n content) @ TRUNCATION_MARK" "0 < budget * 4 - 64 - int (length TRUNCATION_MARK)"
      using assms(1) False by (auto simp: cut_text_def Let_def n_def split: if_splits)
    have "list_all printable (rstrip_text (take n content))"
      using set_rstrip_text(1) [of "take n content"] set_take_subset [of n content] assms(2)
      by (auto simp: list_all_iff)
    from printable_length [OF this] have "length (concat (map (escape_char True) fitted)) \<le> n + 24"
      using set_rstrip_text(2) [of "take n content"] mark_length(2) f(1) by simp
    then show ?thesis using f(2) mark_length(1) by (simp add: n_def)
  qed
  moreover have "estimate_tokens (system_of fitted)
      = max 1 (int (length (dumps True (JObj (system_of fitted)))) div 4)"
    by (simp add: estimate_tokens_def system_of_def build_message_def dget_def lit_def)
  ultimately show ?thesis unfolding system_length by simp
qed

lemma escaped_injections_exceed_the_budget:
  "cut_text (replicate 77 233) 40 = Some (replicate 77 233)" "estimate_tokens (system_of (replicate 77 233)) = 123"
  by code_simp+

end
