(* ===== verification/ResponsesCompat.thy ===== *)
theory ResponsesCompat
  imports AnthropicCompat
begin

text \<open>
  The OpenAI Responses layer (\<open>invincible/compat/responses.py\<close>): requests to internal messages,
  tools and tool choices, replies to response objects. Consecutive \<open>function_call\<close> items are folded
  into one assistant message; the loop over the items keeps the turn it is collecting. The stream
  translation is theory \<open>ResponsesStream\<close>. \<open>str_of\<close> is \<open>str\<close> of a value that is no string, \<open>uuid n\<close> the
  n-th hexadecimal id drawn; a step that raises inside the translation of a reply is \<open>None\<close>.
\<close>

definition RESPONSES_ERROR_TYPES :: "(int \<times> ustr) list" where
  "RESPONSES_ERROR_TYPES =
     [(400, lit ''invalid_request_error''), (401, lit ''authentication_error''),
      (403, lit ''permission_error''), (404, lit ''not_found_error''),
      (409, lit ''invalid_request_error''), (429, lit ''rate_limit_error''),
      (500, lit ''server_error''), (502, lit ''server_error''), (503, lit ''server_error'')]"

definition FINISH_REASON_TO_STATUS :: "(ustr \<times> ustr) list" where
  "FINISH_REASON_TO_STATUS =
     [(lit ''stop'', lit ''completed''), (lit ''length'', lit ''incomplete''),
      (lit ''content_filter'', lit ''incomplete''), (lit ''tool_calls'', lit ''completed'')]"

definition responses_error :: "int \<Rightarrow> ustr \<Rightarrow> int \<times> pydict" where
  "responses_error status_code message =
     (let error_type = (case map_of RESPONSES_ERROR_TYPES status_code of
            Some t \<Rightarrow> t | None \<Rightarrow> lit ''server_error'')
      in (status_code,
          [(lit ''error'', JObj [(lit ''message'', JStr message), (lit ''type'', JStr error_type),
             (lit ''code'', JNull)])]))"

section \<open>Input items\<close>

definition content_text :: "(json \<Rightarrow> ustr) \<Rightarrow> json \<Rightarrow> ustr" where
  "content_text str_of content = (case content of
       JStr s \<Rightarrow> s
     | JList parts \<Rightarrow> concat (map (\<lambda>p. case p of JObj part \<Rightarrow> block_text str_of part | _ \<Rightarrow> []) parts)
     | _ \<Rightarrow> [])"

definition message_item_to_internal :: "(json \<Rightarrow> ustr) \<Rightarrow> pydict \<Rightarrow> pydict option" where
  "message_item_to_internal str_of item =
     (let role0 = dget item (lit ''role'');
          role = (if role0 = JStr (lit ''developer'') then JStr (lit ''system'') else role0)
      in if role \<notin> {JStr (lit ''user''), JStr (lit ''assistant''), JStr (lit ''system'')} then None
         else
           let txt = content_text str_of (dget item (lit ''content'')) in
           if role = JStr (lit ''assistant'') then
             Some [(lit ''role'', JStr (lit ''assistant'')),
                   (lit ''content'', if txt \<noteq> [] then JStr txt else JNull)]
           else if txt \<noteq> [] then
             Some (build_message (if role = JStr (lit ''user'') then lit ''user'' else lit ''system'') (JStr txt))
           else None)"

definition function_call_to_internal :: "pydict \<Rightarrow> nat \<Rightarrow> json option" where
  "function_call_to_internal item position =
     (let nm = dget item (lit ''name''); arguments = dget item (lit ''arguments'') in
      if \<not> truthy nm then None
      else Some (JObj
        [(lit ''id'', py_or (dget item (lit ''call_id'')) (JStr (missing_call_id position))),
         (lit ''type'', JStr (lit ''function'')),
         (lit ''function'', JObj
            [(lit ''name'', nm),
             (lit ''arguments'', case arguments of JStr s \<Rightarrow> JStr s
                | _ \<Rightarrow> JStr (dumps True (py_or arguments (JObj []))))])]))"

definition function_call_output_to_internal :: "pydict \<Rightarrow> pydict" where
  "function_call_output_to_internal item =
     (let output0 = dget item (lit ''output'');
          output = (case output0 of
              JObj d \<Rightarrow> dget_or d (lit ''content'') (dget_or d (lit ''output'') (JStr []))
            | v \<Rightarrow> v)
      in [(lit ''role'', JStr (lit ''tool'')),
          (lit ''tool_call_id'', py_or (dget item (lit ''call_id'')) (JStr [])),
          (lit ''content'', case output of JStr s \<Rightarrow> JStr s | JNull \<Rightarrow> JStr []
             | v \<Rightarrow> JStr (dumps True v))])"

section \<open>The fold over the items\<close>

record fold_state =
  f_internal :: "pydict list"
  f_calls :: "json list"
  f_content :: json

datatype request_error = ItemNotAnObject nat | InputNotUsable | NoUsableText | PairingFailed pairing_error

text \<open>The pending turn as a message, and \<open>_flush_pending\<close>.\<close>

definition pending_turn :: "fold_state \<Rightarrow> pydict list" where
  "pending_turn st =
     (if f_calls st \<noteq> [] then
        [[(lit ''role'', JStr (lit ''assistant'')), (lit ''content'', f_content st),
          (lit ''tool_calls'', JList (f_calls st))]]
      else if f_content st \<noteq> JNull then
        [[(lit ''role'', JStr (lit ''assistant'')), (lit ''content'', f_content st)]]
      else [])"

definition flush_pending :: "fold_state \<Rightarrow> fold_state" where
  "flush_pending st =
     \<lparr>f_internal = f_internal st @ pending_turn st, f_calls = [], f_content = JNull\<rparr>"

definition append_internal :: "pydict \<Rightarrow> fold_state \<Rightarrow> fold_state" where
  "append_internal m st = st\<lparr>f_internal := f_internal st @ [m]\<rparr>"

definition fold_item :: "(json \<Rightarrow> ustr) \<Rightarrow> nat \<Rightarrow> pydict \<Rightarrow> fold_state \<Rightarrow> fold_state" where
  "fold_item str_of item_index item st =
     (let item_type = dget item (lit ''type'') in
      if item_type = JStr (lit ''message'') then
        (case message_item_to_internal str_of item of
           None \<Rightarrow> flush_pending st
         | Some translated \<Rightarrow>
             if role_is translated ''assistant''
             then (flush_pending st)\<lparr>f_content := dget translated (lit ''content'')\<rparr>
             else append_internal translated (flush_pending st))
      else if item_type = JStr (lit ''function_call'') then
        (case function_call_to_internal item item_index of
           None \<Rightarrow> st
         | Some translated \<Rightarrow> st\<lparr>f_calls := f_calls st @ [translated]\<rparr>)
      else if item_type = JStr (lit ''function_call_output'') then
        append_internal (function_call_output_to_internal item) (flush_pending st)
      else st)"

fun fold_items :: "(json \<Rightarrow> ustr) \<Rightarrow> nat \<Rightarrow> json list \<Rightarrow> fold_state \<Rightarrow> request_error + fold_state" where
  "fold_items str_of i [] st = Inr st"
| "fold_items str_of i (JObj item # items) st =
     fold_items str_of (Suc i) items (fold_item str_of i item st)"
| "fold_items str_of i (_ # items) st = Inl (ItemNotAnObject i)"

definition leading_messages :: "json \<Rightarrow> pydict list" where
  "leading_messages instructions =
     (if truthy instructions then [build_message (lit ''system'') instructions] else [])"

definition input_messages :: "(json \<Rightarrow> ustr) \<Rightarrow> json \<Rightarrow> json \<Rightarrow> request_error + pydict list" where
  "input_messages str_of input_value instructions =
     (let internal = leading_messages instructions in
      case input_value of
        JStr s \<Rightarrow> Inr (internal @ (if s \<noteq> [] then [build_message (lit ''user'') (JStr s)] else []))
      | JList items \<Rightarrow>
          (case fold_items str_of 0 items \<lparr>f_internal = internal, f_calls = [], f_content = JNull\<rparr> of
             Inl e \<Rightarrow> Inl e
           | Inr st \<Rightarrow> Inr (f_internal (flush_pending st)))
      | _ \<Rightarrow> Inl InputNotUsable)"

definition responses_to_internal :: "(json \<Rightarrow> ustr) \<Rightarrow> json \<Rightarrow> json \<Rightarrow> request_error + pydict list" where
  "responses_to_internal str_of input_value instructions =
     (case input_messages str_of input_value instructions of
        Inl e \<Rightarrow> Inl e
      | Inr internal \<Rightarrow>
          if internal = [] then Inl NoUsableText
          else (case repair_tool_pairing (map JObj internal) of
                  Inl e \<Rightarrow> Inl (PairingFailed e) | Inr ms \<Rightarrow> Inr ms))"

section \<open>Tools\<close>

fun responses_tool :: "json \<Rightarrow> json option" where
  "responses_tool (JObj tool) =
     (let nm = dget tool (lit ''name'') in
      if dget tool (lit ''type'') \<noteq> JStr (lit ''function'') \<or> \<not> truthy nm then None
      else Some (JObj [(lit ''type'', JStr (lit ''function'')),
        (lit ''function'', JObj ([(lit ''name'', nm)]
          @ (if truthy (dget tool (lit ''description''))
             then [(lit ''description'', dget tool (lit ''description''))] else [])
          @ (case dget tool (lit ''parameters'') of
               JObj schema \<Rightarrow> [(lit ''parameters'', JObj schema)] | _ \<Rightarrow> [])))]))"
| "responses_tool _ = None"

definition responses_tools_to_openai :: "json list \<Rightarrow> json list option" where
  "responses_tools_to_openai tools =
     (let openai_tools = List.map_filter responses_tool tools
      in if openai_tools = [] then None else Some openai_tools)"

definition responses_tool_choice :: "json \<Rightarrow> json" where
  "responses_tool_choice choice = (case choice of
       JStr s \<Rightarrow> if s \<in> {lit ''auto'', lit ''none'', lit ''required''} then JStr s else JNull
     | JObj d \<Rightarrow>
         if dget d (lit ''type'') = JStr (lit ''function'') \<and> truthy (dget d (lit ''name'')) then
           JObj [(lit ''type'', JStr (lit ''function'')),
                 (lit ''function'', JObj [(lit ''name'', dget d (lit ''name''))])]
         else JNull
     | _ \<Rightarrow> JNull)"

section \<open>Replies\<close>

definition message_item :: "ustr \<Rightarrow> json \<Rightarrow> json" where
  "message_item item_id txt = JObj
     [(lit ''type'', JStr (lit ''message'')), (lit ''id'', JStr item_id),
      (lit ''role'', JStr (lit ''assistant'')), (lit ''status'', JStr (lit ''completed'')),
      (lit ''content'', JList [JObj [(lit ''type'', JStr (lit ''output_text'')), (lit ''text'', txt),
         (lit ''annotations'', JList [])]])]"

definition function_call_item :: "ustr \<Rightarrow> json \<Rightarrow> json \<Rightarrow> json \<Rightarrow> json" where
  "function_call_item item_id call_id nm arguments = JObj
     [(lit ''type'', JStr (lit ''function_call'')), (lit ''id'', JStr item_id),
      (lit ''call_id'', call_id), (lit ''name'', nm), (lit ''arguments'', arguments),
      (lit ''status'', JStr (lit ''completed''))]"

fun call_items :: "(nat \<Rightarrow> ustr) \<Rightarrow> nat \<Rightarrow> json list \<Rightarrow> (json list \<times> nat) option" where
  "call_items uuid n [] = Some ([], n)"
| "call_items uuid n (JObj call # calls) =
     (case obj_or_empty (dget call (lit ''function'')) of
        None \<Rightarrow> None
      | Some function \<Rightarrow>
          let missing = \<not> truthy (dget call (lit ''id''));
              item = function_call_item (lit ''fc_'' @ uuid n)
                (if missing then JStr (lit ''call_'' @ uuid (Suc n)) else dget call (lit ''id''))
                (py_or (dget function (lit ''name'')) (JStr (lit ''function'')))
                (py_or (dget function (lit ''arguments'')) (JStr (lit ''{}'')))
          in (case call_items uuid (if missing then n + 2 else n + 1) calls of
                None \<Rightarrow> None | Some (rest, n') \<Rightarrow> Some (item # rest, n')))"
| "call_items uuid n (_ # calls) = None"

definition output_items_from_message :: "(nat \<Rightarrow> ustr) \<Rightarrow> nat \<Rightarrow> pydict \<Rightarrow> (json list \<times> nat) option" where
  "output_items_from_message uuid n message =
     (let content = py_or (dget message (lit ''content'')) (JStr []);
          said = truthy content;
          items = (if said then [message_item (lit ''msg_'' @ uuid n) content] else [])
      in case calls_of_message message of
           None \<Rightarrow> None
         | Some calls \<Rightarrow> (case call_items uuid (if said then Suc n else n) calls of
               None \<Rightarrow> None | Some (rest, n') \<Rightarrow> Some (items @ rest, n')))"

definition response_status :: "json \<Rightarrow> ustr option" where
  "response_status finish_reason = (case py_or finish_reason (JStr (lit ''stop'')) of
       JStr s \<Rightarrow> Some (case map_of FINISH_REASON_TO_STATUS s of Some r \<Rightarrow> r | None \<Rightarrow> lit ''completed'')
     | JList _ \<Rightarrow> None
     | JObj _ \<Rightarrow> None
     | _ \<Rightarrow> Some (lit ''completed''))"

definition responses_usage :: "int \<Rightarrow> int \<Rightarrow> pydict" where
  "responses_usage input_tokens output_tokens =
     [(lit ''input_tokens'', JInt input_tokens), (lit ''output_tokens'', JInt output_tokens),
      (lit ''total_tokens'', JInt (input_tokens + output_tokens))]"

definition response_object :: "ustr \<Rightarrow> int \<Rightarrow> ustr \<Rightarrow> json \<Rightarrow> json list \<Rightarrow> pydict \<Rightarrow> pydict" where
  "response_object response_id created_at status model output usage =
     [(lit ''id'', JStr response_id), (lit ''object'', JStr (lit ''response'')),
      (lit ''created_at'', JInt created_at), (lit ''status'', JStr status), (lit ''model'', model),
      (lit ''output'', JList output), (lit ''usage'', JObj usage)]"

definition internal_to_responses ::
  "(nat \<Rightarrow> ustr) \<Rightarrow> int \<Rightarrow> pydict \<Rightarrow> json \<Rightarrow> int \<Rightarrow> pydict option" where
  "internal_to_responses uuid now openai_body served_model input_tokens =
     (case first_choice_of openai_body of
        None \<Rightarrow> None
      | Some first_choice \<Rightarrow>
     (case obj_or_empty (dget first_choice (lit ''message'')) of
        None \<Rightarrow> None
      | Some message \<Rightarrow>
     (case response_status (dget first_choice (lit ''finish_reason'')) of
        None \<Rightarrow> None
      | Some status \<Rightarrow>
     (case output_items_from_message uuid 0 message of
        None \<Rightarrow> None
      | Some (output, n) \<Rightarrow>
     (case calls_of_message message of
        None \<Rightarrow> None
      | Some calls \<Rightarrow>
          Some (response_object (lit ''resp_'' @ uuid n) now status
            (py_or served_model (py_or (dget openai_body (lit ''model'')) (JStr (lit ''invincible''))))
            output
            (responses_usage input_tokens
               (estimate_assistant_tokens (py_or (dget message (lit ''content'')) (JStr [])) calls))))))))"

section \<open>A conversation over the Responses API\<close>

text \<open>
  What a conversation consists of, the internal messages it is kept as, and the items a client
  sends for it: its own items for what it says and for the outcomes of tools, and for a reply the
  output items it was given (with any item ids).
\<close>

datatype talk_turn =
    Instruction ustr
  | UserSays ustr
  | Reply ustr "(ustr \<times> ustr \<times> ustr) list"
  | Outcome ustr ustr

definition call_of :: "ustr \<times> ustr \<times> ustr \<Rightarrow> json" where
  "call_of = (\<lambda>(i, nm, args). JObj
     [(lit ''id'', JStr i), (lit ''type'', JStr (lit ''function'')),
      (lit ''function'', JObj [(lit ''name'', JStr nm), (lit ''arguments'', JStr args)])])"

fun message_of :: "talk_turn \<Rightarrow> pydict" where
  "message_of (Instruction t) = build_message (lit ''system'') (JStr t)"
| "message_of (UserSays t) = build_message (lit ''user'') (JStr t)"
| "message_of (Reply t cs) =
     [(lit ''role'', JStr (lit ''assistant'')), (lit ''content'', if t \<noteq> [] then JStr t else JNull)]
     @ (if cs \<noteq> [] then [(lit ''tool_calls'', JList (map call_of cs))] else [])"
| "message_of (Outcome i t) =
     [(lit ''role'', JStr (lit ''tool'')), (lit ''tool_call_id'', JStr i), (lit ''content'', JStr t)]"

definition said_item :: "string \<Rightarrow> ustr \<Rightarrow> json" where
  "said_item role t = JObj [(lit ''type'', JStr (lit ''message'')), (lit ''role'', JStr (lit role)),
     (lit ''content'', JList [JObj [(lit ''type'', JStr (lit ''input_text'')), (lit ''text'', JStr t)]])]"

fun items_of :: "(nat \<Rightarrow> ustr) \<Rightarrow> nat \<Rightarrow> talk_turn \<Rightarrow> json list" where
  "items_of uuid n (Instruction t) = [said_item ''developer'' t]"
| "items_of uuid n (UserSays t) = [said_item ''user'' t]"
| "items_of uuid n (Reply t cs) =
     (case output_items_from_message uuid n (message_of (Reply t cs)) of
        Some (items, _) \<Rightarrow> items | None \<Rightarrow> [])"
| "items_of uuid n (Outcome i t) =
     [JObj [(lit ''type'', JStr (lit ''function_call_output'')), (lit ''call_id'', JStr i),
            (lit ''output'', JStr t)]]"

fun full_exchange :: "talk_turn \<Rightarrow> bool" where
  "full_exchange (Instruction t) = (t \<noteq> [])"
| "full_exchange (UserSays t) = (t \<noteq> [])"
| "full_exchange (Reply t cs) = ((t \<noteq> [] \<or> cs \<noteq> []) \<and>
     list_all (\<lambda>(i, nm, args). i \<noteq> [] \<and> nm \<noteq> [] \<and> args \<noteq> []) cs)"
| "full_exchange (Outcome i t) = True"

text \<open>
  Two replies in a row of which the second has no text are one turn to the fold; such histories
  do not arise, since a turn with calls is followed by their outcomes and a reply without calls
  ends the talk_turn.
\<close>

fun wordless :: "talk_turn \<Rightarrow> bool" where
  "wordless (Reply t cs) = (t = [])"
| "wordless _ = False"

fun is_reply :: "talk_turn \<Rightarrow> bool" where
  "is_reply (Reply t cs) = True"
| "is_reply _ = False"

fun separate :: "talk_turn list \<Rightarrow> bool" where
  "separate (e # e' # es) = (\<not> (is_reply e \<and> wordless e') \<and> separate (e' # es))"
| "separate es = True"

definition conversation_items :: "(nat \<Rightarrow> ustr) \<Rightarrow> (nat \<times> talk_turn) list \<Rightarrow> json list" where
  "conversation_items uuid nes = concat (map (\<lambda>(n, e). items_of uuid n e) nes)"

definition folded :: "fold_state \<Rightarrow> pydict list" where
  "folded st = f_internal st @ pending_turn st"

definition nothing_pending :: "fold_state \<Rightarrow> bool" where
  "nothing_pending st \<longleftrightarrow> f_calls st = [] \<and> f_content st = JNull"

lemma folded_simps [simp]:
  "folded (flush_pending st) = folded st"
  "folded (append_internal m (flush_pending st)) = folded st @ [m]"
  "nothing_pending (append_internal m (flush_pending st))"
  "nothing_pending (flush_pending st)"
  by (simp_all add: folded_def flush_pending_def append_internal_def pending_turn_def nothing_pending_def)

lemma folded_pending:
  "nothing_pending st \<Longrightarrow> cs \<noteq> [] \<or> c \<noteq> JNull \<Longrightarrow>
   folded (st\<lparr>f_calls := cs, f_content := c\<rparr>) = folded st @
     [[(lit ''role'', JStr (lit ''assistant'')), (lit ''content'', c)]
      @ (if cs \<noteq> [] then [(lit ''tool_calls'', JList cs)] else [])]"
  by (simp add: folded_def pending_turn_def nothing_pending_def)

lemma fold_items_append:
  "fold_items str_of i (xs @ ys) st = (case fold_items str_of i xs st of
     Inl e \<Rightarrow> Inl e | Inr st' \<Rightarrow> fold_items str_of (i + length xs) ys st')"
  by (induction str_of i xs st rule: fold_items.induct) (auto split: sum.splits)

lemma call_items_full:
  "list_all (\<lambda>(i, nm, args). i \<noteq> [] \<and> nm \<noteq> [] \<and> args \<noteq> []) cs \<Longrightarrow>
   call_items uuid n (map call_of cs) = Some
     (map (\<lambda>(k, i, nm, args). function_call_item (lit ''fc_'' @ uuid k) (JStr i) (JStr nm) (JStr args))
        (enumerate n cs), n + length cs)"
proof (induction cs arbitrary: n)
  case (Cons c cs)
  then show ?case
    by (cases c) (simp add: call_of_def dget_def obj_or_empty_def py_or_def Let_def)
qed simp

lemma output_items_reply:
  assumes "full_exchange (Reply t cs)"
  shows "\<exists>ids item_id. items_of uuid n (Reply t cs) =
     (if t \<noteq> [] then [message_item item_id (JStr t)] else [])
     @ map (\<lambda>(k, i, nm, args). function_call_item (lit ''fc_'' @ uuid k) (JStr i) (JStr nm) (JStr args)) ids
     \<and> map snd ids = cs"
proof -
  have known: "calls_of_message (message_of (Reply t cs)) = Some (map call_of cs)"
    by (simp add: calls_of_message_def dget_def py_or_def)
  have words: "py_or (dget (message_of (Reply t cs)) (lit ''content'')) (JStr []) = JStr t"
    by (simp add: dget_def py_or_def)
  have full: "list_all (\<lambda>(i, nm, args). i \<noteq> [] \<and> nm \<noteq> [] \<and> args \<noteq> []) cs" using assms by simp
  let ?k = "if t \<noteq> [] then Suc n else n"
  have "items_of uuid n (Reply t cs) = (if t \<noteq> [] then [message_item (lit ''msg_'' @ uuid n) (JStr t)] else [])
     @ map (\<lambda>(k, i, nm, args). function_call_item (lit ''fc_'' @ uuid k) (JStr i) (JStr nm) (JStr args)) (enumerate ?k cs)"
    unfolding items_of.simps output_items_from_message_def words known Let_def
    by (simp add: call_items_full [OF full])
  then show ?thesis by (intro exI [of _ "enumerate ?k cs"] exI [of _ "lit ''msg_'' @ uuid n"]) simp
qed

lemma fold_call_items:
  "list_all (\<lambda>(k, i, nm, args). i \<noteq> [] \<and> nm \<noteq> []) ids \<Longrightarrow>
   fold_items str_of p (map (\<lambda>(k, i, nm, args). function_call_item (lit ''fc_'' @ uuid k) (JStr i) (JStr nm) (JStr args)) ids) st
   = Inr (st\<lparr>f_calls := f_calls st @ map (call_of \<circ> snd) ids\<rparr>)"
proof (induction ids arbitrary: p st)
  case (Cons c ids)
  obtain k i nm args where c: "c = (k, i, nm, args)" by (cases c)
  have "fold_items str_of p [function_call_item (lit ''fc_'' @ uuid k) (JStr i) (JStr nm) (JStr args)] st
      = Inr (st\<lparr>f_calls := f_calls st @ [call_of (i, nm, args)]\<rparr>)"
    using Cons.prems by (simp add: c function_call_item_def fold_item_def dget_def
        function_call_to_internal_def py_or_def call_of_def Let_def)
  then show ?case using Cons by (simp add: c function_call_item_def)
qed simp

lemma fold_message_item:
  "t \<noteq> [] \<Longrightarrow> fold_items str_of p [message_item item_id (JStr t)] st
   = Inr ((flush_pending st)\<lparr>f_content := JStr t\<rparr>)"
  by (simp add: message_item_def fold_item_def message_item_to_internal_def content_text_def
      block_text_def text_value_def role_is_def dget_def Let_def)

text \<open>One talk_turn: what it appends, and that only a reply leaves a turn pending.\<close>

lemma fold_exchange:
  assumes "full_exchange e" and "wordless e \<Longrightarrow> nothing_pending st"
  shows "\<exists>st'. fold_items str_of p (items_of uuid n e) st = Inr st'
    \<and> folded st' = folded st @ [message_of e] \<and> (\<not> is_reply e \<longrightarrow> nothing_pending st')"
proof (cases e)
  case (Reply t cs)
  obtain ids item_id where ids: "items_of uuid n e = (if t \<noteq> [] then [message_item item_id (JStr t)] else [])
     @ map (\<lambda>(k, i, nm, args). function_call_item (lit ''fc_'' @ uuid k) (JStr i) (JStr nm) (JStr args)) ids"
    and cs: "map snd ids = cs"
    using output_items_reply [of t cs uuid n] assms(1) Reply by auto
  have full: "list_all (\<lambda>(k, i, nm, args). i \<noteq> [] \<and> nm \<noteq> []) ids"
    using assms(1) Reply by (auto simp: cs [symmetric] list_all_iff)
  define st1 where "st1 = (if t \<noteq> [] then flush_pending st else st)"
  have st1: "nothing_pending st1" "folded st1 = folded st" using assms(2) Reply by (simp_all add: st1_def)
  have start: "fold_items str_of p (if t \<noteq> [] then [message_item item_id (JStr t)] else []) st
      = Inr (st1\<lparr>f_content := if t \<noteq> [] then JStr t else JNull\<rparr>)"
    using st1(1) by (cases "t = []"; cases st) (simp_all add: st1_def fold_message_item nothing_pending_def)
  let ?st2 = "st1\<lparr>f_calls := map call_of cs, f_content := if t \<noteq> [] then JStr t else JNull\<rparr>"
  have "fold_items str_of p (items_of uuid n e) st = Inr ?st2"
    unfolding ids fold_items_append start sum.case fold_call_items [OF full]
    using st1(1) by (simp add: nothing_pending_def cs [symmetric])
  moreover have "folded ?st2 = folded st @ [message_of e]"
    using folded_pending [OF st1(1), of "map call_of cs" "if t \<noteq> [] then JStr t else JNull"] assms(1)
    by (simp add: st1(2) Reply)
  ultimately show ?thesis using Reply by simp
qed (use assms in \<open>simp_all add: said_item_def fold_item_def message_item_to_internal_def content_text_def
    block_text_def text_value_def function_call_output_to_internal_def py_or_def build_message_def
    role_is_def dget_def Let_def\<close>)

lemma fold_conversation:
  "list_all full_exchange (map snd nes) \<Longrightarrow> separate (map snd nes) \<Longrightarrow>
   (nes \<noteq> [] \<Longrightarrow> wordless (snd (hd nes)) \<Longrightarrow> nothing_pending st) \<Longrightarrow>
   \<exists>st'. fold_items str_of p (conversation_items uuid nes) st = Inr st'
     \<and> folded st' = folded st @ map (message_of \<circ> snd) nes"
proof (induction nes arbitrary: p st)
  case (Cons ne nes)
  obtain n e where ne: "ne = (n, e)" by (cases ne)
  obtain st1 where st1: "fold_items str_of p (items_of uuid n e) st = Inr st1"
    "folded st1 = folded st @ [message_of e]" "\<not> is_reply e \<longrightarrow> nothing_pending st1"
    using fold_exchange [of e st str_of p uuid n] Cons.prems by (auto simp: ne)
  have "separate (map snd nes)" "nes \<noteq> [] \<Longrightarrow> wordless (snd (hd nes)) \<Longrightarrow> \<not> is_reply e"
    using Cons.prems(2) by (cases nes; simp add: ne)+
  then obtain st' where "fold_items str_of (p + length (items_of uuid n e)) (conversation_items uuid nes) st1 = Inr st'"
    "folded st' = folded st1 @ map (message_of \<circ> snd) nes"
    using Cons.IH [of st1 "p + length (items_of uuid n e)"] Cons.prems(1) st1(3) by auto
  then show ?case using st1 by (simp add: conversation_items_def fold_items_append ne)
qed (simp add: conversation_items_def)

text \<open>
  C28: a conversation held over the Responses API reaches the router as the very conversation it
  was. A client that replays what it was given (the output items of every reply, whatever their
  item ids) between what it said and the outcomes of the tools has its input folded into exactly
  the stored messages, texts, ids, names and arguments verbatim, and the pairing repair leaves them
  alone when every outcome answers its call.
\<close>

theorem responses_replay_round_trips:
  assumes "list_all full_exchange (map snd nes)" and "separate (map snd nes)" and "nes \<noteq> []"
    and "exactly_paired (map (message_of \<circ> snd) nes)"
  shows "responses_to_internal str_of (JList (conversation_items uuid nes)) JNull
    = Inr (map (message_of \<circ> snd) nes)"
proof -
  let ?st = "\<lparr>f_internal = [], f_calls = [], f_content = JNull\<rparr>"
  have "nothing_pending ?st" by (simp add: nothing_pending_def)
  then obtain st' where "fold_items str_of 0 (conversation_items uuid nes) ?st = Inr st'"
    "folded st' = map (message_of \<circ> snd) nes"
    using fold_conversation [OF assms(1,2), of ?st str_of 0 uuid] by (auto simp: folded_def pending_turn_def)
  then have "input_messages str_of (JList (conversation_items uuid nes)) JNull = Inr (map (message_of \<circ> snd) nes)"
    by (simp add: input_messages_def leading_messages_def folded_def flush_pending_def)
  then show ?thesis using assms(3) repair_keeps_valid_history [OF assms(4)]
    by (simp add: responses_to_internal_def)
qed

abbreviation sample_talk :: "(nat \<times> talk_turn) list" where
  "sample_talk \<equiv> [(0, UserSays (lit ''list'')), (0, Reply (lit ''ok'') [(lit ''c1'', lit ''ls'', lit ''{}'')]),
     (3, Outcome (lit ''c1'') (lit ''a.txt''))]"

lemma responses_replay_round_trips_witness:
  "responses_to_internal (\<lambda>_. []) (JList (conversation_items (\<lambda>_. []) sample_talk)) JNull
   = Inr (map (message_of \<circ> snd) sample_talk)"
proof -
  have "exactly_paired (map (message_of \<circ> snd) sample_talk)"
    by (simp add: calls_ok_def role_is_def build_message_def dget_def call_ids_def result_id_def lit_def call_of_def)
  moreover have "list_all full_exchange (map snd sample_talk)" "separate (map snd sample_talk)" by simp_all
  ultimately show ?thesis using responses_replay_round_trips [of sample_talk] by blast
qed

end
