(* ===== verification/ResponsesStream.thy ===== *)
theory ResponsesStream
  imports ResponsesCompat Attempt
begin

text \<open>
  The stream translation of the Responses layer (\<open>build_stream_events\<close> in
  \<open>invincible/compat/responses.py\<close>): output items open lazily in the order the upstream first
  mentions them, a reused upstream index with another id or another name is a new call, and the
  items are closed at the end. A step that raises has yielded some frames already; it returns
  them, the state so far and \<open>False\<close>.
\<close>

section \<open>Frames\<close>

datatype rframe =
    Created pydict
  | MessageAdded nat ustr
  | PartAdded nat ustr
  | TextPiece nat ustr ustr
  | CallAdded nat ustr json json
  | ArgsPiece nat ustr ustr
  | TextDone nat ustr ustr
  | PartDone nat ustr ustr
  | ArgsDone nat ustr ustr
  | CallDone nat json
  | MessageDone nat json
  | Completed pydict
  | StreamError

abbreviation rtyped :: "string \<Rightarrow> pydict \<Rightarrow> ustr \<times> pydict" where
  "rtyped ty d \<equiv> (lit ty, (lit ''type'', JStr (lit ty)) # d)"

definition text_part :: "ustr \<Rightarrow> json" where
  "text_part s = JObj [(lit ''type'', JStr (lit ''output_text'')), (lit ''text'', JStr s),
     (lit ''annotations'', JList [])]"

fun rframe_event :: "rframe \<Rightarrow> ustr \<times> pydict" where
  "rframe_event (Created r) = rtyped ''response.created'' [(lit ''response'', JObj r)]"
| "rframe_event (MessageAdded i item) = rtyped ''response.output_item.added''
     [(lit ''output_index'', JInt (int i)),
      (lit ''item'', JObj [(lit ''type'', JStr (lit ''message'')), (lit ''id'', JStr item),
         (lit ''role'', JStr (lit ''assistant'')), (lit ''status'', JStr (lit ''in_progress'')),
         (lit ''content'', JList [])])]"
| "rframe_event (PartAdded i item) = rtyped ''response.content_part.added''
     [(lit ''item_id'', JStr item), (lit ''output_index'', JInt (int i)),
      (lit ''content_index'', JInt 0), (lit ''part'', text_part [])]"
| "rframe_event (TextPiece i item s) = rtyped ''response.output_text.delta''
     [(lit ''item_id'', JStr item), (lit ''output_index'', JInt (int i)),
      (lit ''content_index'', JInt 0), (lit ''delta'', JStr s)]"
| "rframe_event (CallAdded i item call nm) = rtyped ''response.output_item.added''
     [(lit ''output_index'', JInt (int i)),
      (lit ''item'', JObj [(lit ''type'', JStr (lit ''function_call'')), (lit ''id'', JStr item),
         (lit ''call_id'', call), (lit ''name'', nm), (lit ''arguments'', JStr []),
         (lit ''status'', JStr (lit ''in_progress''))])]"
| "rframe_event (ArgsPiece i item s) = rtyped ''response.function_call_arguments.delta''
     [(lit ''item_id'', JStr item), (lit ''output_index'', JInt (int i)), (lit ''delta'', JStr s)]"
| "rframe_event (TextDone i item s) = rtyped ''response.output_text.done''
     [(lit ''item_id'', JStr item), (lit ''output_index'', JInt (int i)),
      (lit ''content_index'', JInt 0), (lit ''text'', JStr s)]"
| "rframe_event (PartDone i item s) = rtyped ''response.content_part.done''
     [(lit ''item_id'', JStr item), (lit ''output_index'', JInt (int i)),
      (lit ''content_index'', JInt 0), (lit ''part'', text_part s)]"
| "rframe_event (ArgsDone i item s) = rtyped ''response.function_call_arguments.done''
     [(lit ''item_id'', JStr item), (lit ''output_index'', JInt (int i)), (lit ''arguments'', JStr s)]"
| "rframe_event (CallDone i item) = rtyped ''response.output_item.done''
     [(lit ''output_index'', JInt (int i)), (lit ''item'', item)]"
| "rframe_event (MessageDone i item) = rtyped ''response.output_item.done''
     [(lit ''output_index'', JInt (int i)), (lit ''item'', item)]"
| "rframe_event (Completed r) = rtyped ''response.completed'' [(lit ''response'', JObj r)]"
| "rframe_event StreamError = rtyped ''error''
     [(lit ''code'', JStr (lit ''stream_error'')),
      (lit ''message'', JStr (lit ''Stream terminated unexpectedly''))]"

definition responses_sse_frame :: "rframe \<Rightarrow> ustr" where
  "responses_sse_frame f = (case rframe_event f of (event, d) \<Rightarrow>
     lit ''event: '' @ event @ [10] @ lit ''data: '' @ dumps True (JObj d) @ [10, 10])"

section \<open>The state machine\<close>

record call_state =
  cs_index :: nat
  cs_item :: ustr
  cs_id :: json
  cs_name :: json
  cs_args :: ustr

text \<open>
  \<open>rs_calls\<close> is \<open>tool_states\<close>, keyed by 0, 1, \<dots> in the source; \<open>rs_current\<close> maps an upstream index to
  the position of its state, since both dictionaries of the source share the state objects.
  \<open>rs_message\<close> is the output index and id of the message item, \<open>None\<close> while \<open>text_started\<close> is false.
\<close>

record reply_state =
  rs_text :: ustr
  rs_finish :: json
  rs_message :: "(nat \<times> ustr) option"
  rs_calls :: "call_state list"
  rs_current :: "(json \<times> nat) list"
  rs_next :: nat
  rs_uuids :: nat

type_synonym rstep = "rframe list \<times> reply_state \<times> bool"

definition open_message :: "(nat \<Rightarrow> ustr) \<Rightarrow> reply_state \<Rightarrow> nat \<times> ustr \<times> rframe list \<times> reply_state" where
  "open_message uuid st = (case rs_message st of
       Some (i, item) \<Rightarrow> (i, item, [], st)
     | None \<Rightarrow>
         let i = rs_next st; item = lit ''msg_'' @ uuid (rs_uuids st)
         in (i, item, [MessageAdded i item, PartAdded i item],
             st\<lparr>rs_message := Some (i, item), rs_next := Suc i, rs_uuids := Suc (rs_uuids st)\<rparr>))"

definition feed_piece :: "(nat \<Rightarrow> ustr) \<Rightarrow> json \<Rightarrow> reply_state \<Rightarrow> rstep" where
  "feed_piece uuid piece st =
     (if \<not> truthy piece then ([], st, True)
      else case open_message uuid st of (i, item, fs, st') \<Rightarrow>
        (case piece of
           JStr s \<Rightarrow> (fs @ [TextPiece i item s], st'\<lparr>rs_text := rs_text st' @ s\<rparr>, True)
         | _ \<Rightarrow> (fs, st', False)))"

text \<open>The state a delta belongs to, if it continues a call.\<close>

definition call_continued :: "json \<Rightarrow> json \<Rightarrow> json \<Rightarrow> reply_state \<Rightarrow> nat option" where
  "call_continued upstream_index delta_id nm st = (case map_of (rs_current st) upstream_index of
       None \<Rightarrow> None
     | Some q \<Rightarrow>
         let c = rs_calls st ! q in
         if truthy delta_id \<and> delta_id \<noteq> cs_id c then None
         else if truthy nm \<and> truthy (cs_name c) \<and> nm \<noteq> cs_name c then None
         else Some q)"

definition open_call ::
  "(nat \<Rightarrow> ustr) \<Rightarrow> json \<Rightarrow> json \<Rightarrow> json \<Rightarrow> reply_state \<Rightarrow> nat \<times> rframe list \<times> reply_state" where
  "open_call uuid upstream_index delta_id nm st =
     (case call_continued upstream_index delta_id nm st of
        None \<Rightarrow>
          let missing = \<not> truthy delta_id; n = rs_uuids st;
              c = \<lparr>cs_index = rs_next st, cs_item = lit ''fc_'' @ uuid n,
                   cs_id = (if missing then JStr (lit ''call_'' @ uuid (Suc n)) else delta_id),
                   cs_name = py_or nm (JStr []), cs_args = []\<rparr>
          in (length (rs_calls st), [CallAdded (cs_index c) (cs_item c) (cs_id c) (cs_name c)],
              st\<lparr>rs_calls := rs_calls st @ [c],
                 rs_current := dset upstream_index (length (rs_calls st)) (rs_current st),
                 rs_next := Suc (rs_next st),
                 rs_uuids := (if missing then n + 2 else n + 1)\<rparr>)
      | Some q \<Rightarrow>
          let old = rs_calls st ! q;
              c = old\<lparr>cs_id := (if truthy delta_id \<and> \<not> truthy (cs_id old) then delta_id else cs_id old),
                      cs_name := (if truthy nm \<and> \<not> truthy (cs_name old) then nm else cs_name old)\<rparr>
          in (q, [], st\<lparr>rs_calls := (rs_calls st)[q := c]\<rparr>))"

text \<open>
  One entry of \<open>delta.tool_calls\<close>. The source looks into \<open>function\<close> later than it is read here, but
  raises then without a frame or a stored state in between.
\<close>

definition feed_call :: "(nat \<Rightarrow> ustr) \<Rightarrow> json \<Rightarrow> reply_state \<Rightarrow> rstep" where
  "feed_call uuid tool_call st = (case tool_call of
       JObj d \<Rightarrow>
         let upstream_index = dget_or d (lit ''index'') (JInt 0) in
         (case obj_or_empty (dget d (lit ''function'')) of
            None \<Rightarrow> ([], st, False)
          | Some function \<Rightarrow>
              if unhashable upstream_index then ([], st, False)
              else case open_call uuid upstream_index (dget d (lit ''id'')) (dget function (lit ''name'')) st of
                (q, fs, st') \<Rightarrow>
                  let arguments = dget function (lit ''arguments''); c = rs_calls st' ! q in
                  if \<not> truthy arguments then (fs, st', True)
                  else (case arguments of
                      JStr a \<Rightarrow> (fs @ [ArgsPiece (cs_index c) (cs_item c) a],
                        st'\<lparr>rs_calls := (rs_calls st')[q := c\<lparr>cs_args := cs_args c @ a\<rparr>]\<rparr>, True)
                    | _ \<Rightarrow> (fs, st', False)))
     | _ \<Rightarrow> ([], st, False))"

fun feed_calls :: "(nat \<Rightarrow> ustr) \<Rightarrow> json list \<Rightarrow> reply_state \<Rightarrow> rstep" where
  "feed_calls uuid [] st = ([], st, True)"
| "feed_calls uuid (c # cs) st = (case feed_call uuid c st of
       (fs, st', False) \<Rightarrow> (fs, st', False)
     | (fs, st', True) \<Rightarrow> (case feed_calls uuid cs st' of (gs, st'', ok) \<Rightarrow> (fs @ gs, st'', ok)))"

definition feed_chunk :: "(nat \<Rightarrow> ustr) \<Rightarrow> json \<Rightarrow> reply_state \<Rightarrow> rstep" where
  "feed_chunk uuid chunk st = (case chunk of
       JObj d \<Rightarrow>
         (case first_choice_of d of
            None \<Rightarrow> ([], st, False)
          | Some choice \<Rightarrow>
              let st1 = st\<lparr>rs_finish := py_or (dget choice (lit ''finish_reason'')) (rs_finish st)\<rparr> in
              (case obj_or_empty (dget choice (lit ''delta'')) of
                 None \<Rightarrow> ([], st1, False)
               | Some delta \<Rightarrow>
                   (case feed_piece uuid (dget delta (lit ''content'')) st1 of
                      (fs, st2, False) \<Rightarrow> (fs, st2, False)
                    | (fs, st2, True) \<Rightarrow>
                        (case calls_of_message delta of
                           None \<Rightarrow> (fs, st2, False)
                         | Some calls \<Rightarrow>
                             (case feed_calls uuid calls st2 of
                                (gs, st3, ok) \<Rightarrow> (fs @ gs, st3, ok))))))
     | _ \<Rightarrow> ([], st, False))"

fun feed_stream :: "(nat \<Rightarrow> ustr) \<Rightarrow> stream_event list \<Rightarrow> reply_state \<Rightarrow> rstep" where
  "feed_stream uuid [] st = ([], st, True)"
| "feed_stream uuid (Chunk c # es) st = (case feed_chunk uuid c st of
       (fs, st', False) \<Rightarrow> (fs, st', False)
     | (fs, st', True) \<Rightarrow> (case feed_stream uuid es st' of (gs, st'', ok) \<Rightarrow> (fs @ gs, st'', ok)))"
| "feed_stream uuid (_ # es) st = ([], st, False)"

definition final_args :: "call_state \<Rightarrow> ustr" where
  "final_args c = (if cs_args c \<noteq> [] then cs_args c else lit ''{}'')"

definition persisted_call :: "call_state \<Rightarrow> json" where
  "persisted_call c = JObj
     [(lit ''id'', cs_id c), (lit ''type'', JStr (lit ''function'')),
      (lit ''function'', JObj [(lit ''name'', py_or (cs_name c) (JStr [])),
         (lit ''arguments'', JStr (final_args c))])]"

definition responses_assistant_message :: "reply_state \<Rightarrow> pydict" where
  "responses_assistant_message st =
     [(lit ''role'', JStr (lit ''assistant'')),
      (lit ''content'', if rs_text st \<noteq> [] then JStr (rs_text st) else JNull)]
     @ (if rs_calls st \<noteq> []
        then [(lit ''tool_calls'', JList (map persisted_call (rs_calls st)))] else [])"

definition done_call :: "call_state \<Rightarrow> json" where
  "done_call c = function_call_item (cs_item c) (cs_id c) (py_or (cs_name c) (JStr [])) (JStr (final_args c))"

definition done_message :: "reply_state \<Rightarrow> json list" where
  "done_message st = (case rs_message st of
       None \<Rightarrow> [] | Some (i, item) \<Rightarrow> [message_item item (JStr (rs_text st))])"

text \<open>The closing frames, in the order of the source, and \<open>completed_items\<close>.\<close>

definition closing_frames :: "reply_state \<Rightarrow> rframe list" where
  "closing_frames st =
     (case rs_message st of None \<Rightarrow> []
      | Some (i, item) \<Rightarrow> [TextDone i item (rs_text st), PartDone i item (rs_text st)])
     @ concat (map (\<lambda>c. [ArgsDone (cs_index c) (cs_item c) (final_args c),
         CallDone (cs_index c) (done_call c)]) (rs_calls st))
     @ (case rs_message st of None \<Rightarrow> []
      | Some (i, item) \<Rightarrow> [MessageDone i (message_item item (JStr (rs_text st)))])"

definition completed_items :: "reply_state \<Rightarrow> json list" where
  "completed_items st = done_message st @ map done_call (rs_calls st)"

definition initial_reply :: reply_state where
  "initial_reply = \<lparr>rs_text = [], rs_finish = JNull, rs_message = None, rs_calls = [],
     rs_current = [], rs_next = 0, rs_uuids = 1\<rparr>"

text \<open>
  The whole stream: the frames yielded and the message given to \<open>on_complete\<close>; \<open>now\<close> and \<open>later\<close> are
  the times of the first and the last frame.
\<close>

definition responses_stream_events ::
  "(nat \<Rightarrow> ustr) \<Rightarrow> int \<Rightarrow> int \<Rightarrow> json \<Rightarrow> stream_event list \<Rightarrow> json \<Rightarrow> int \<Rightarrow> rframe list \<times> pydict" where
  "responses_stream_events uuid now later first tail served_model input_tokens =
     (let response_id = lit ''resp_'' @ uuid 0;
          model = py_or served_model (JStr (lit ''invincible''));
          created = Created (response_object response_id now (lit ''in_progress'') model []
            (responses_usage input_tokens 0))
      in case feed_stream uuid (if first \<noteq> JNull then Chunk first # tail else tail) initial_reply of
        (fs, st, ok) \<Rightarrow>
          let message = responses_assistant_message st in
          if \<not> ok then (created # fs @ [StreamError], message)
          else (created # fs @ closing_frames st
                  @ [Completed (response_object response_id later (lit ''completed'') model (completed_items st)
                       (responses_usage input_tokens (estimate_token_sum [message])))],
                message))"

section \<open>What the frames say\<close>

text \<open>
  The grammar of the frames between the first and the closing ones: items open with the output
  indexes 0, 1, \<dots> in order, one message item at most, whose text part opens before its text, and a
  piece goes to an open item of its kind under that item's id. The scanner's state: the next index,
  the message item and whether its part is open, the call items.
\<close>

type_synonym scan_state = "nat \<times> (nat \<times> ustr \<times> bool) option \<times> (nat \<times> ustr) list"

fun rscan1 :: "scan_state \<Rightarrow> rframe \<Rightarrow> scan_state option" where
  "rscan1 (n, t, cs) (MessageAdded i item) =
     (if i = n \<and> t = None then Some (Suc n, Some (i, item, False), cs) else None)"
| "rscan1 (n, t, cs) (PartAdded i item) =
     (if t = Some (i, item, False) then Some (n, Some (i, item, True), cs) else None)"
| "rscan1 (n, t, cs) (TextPiece i item x) =
     (if t = Some (i, item, True) then Some (n, t, cs) else None)"
| "rscan1 (n, t, cs) (CallAdded i item a b) =
     (if i = n then Some (Suc n, t, cs @ [(i, item)]) else None)"
| "rscan1 (n, t, cs) (ArgsPiece i item x) =
     (if (i, item) \<in> set cs then Some (n, t, cs) else None)"
| "rscan1 s _ = None"

fun rscan :: "scan_state \<Rightarrow> rframe list \<Rightarrow> scan_state option" where
  "rscan s [] = Some s"
| "rscan s (f # fs) = (case rscan1 s f of None \<Rightarrow> None | Some s' \<Rightarrow> rscan s' fs)"

fun piece_text :: "rframe \<Rightarrow> ustr" where
  "piece_text (TextPiece i item x) = x"
| "piece_text _ = []"

fun added_call :: "rframe \<Rightarrow> (nat \<times> ustr \<times> json) list" where
  "added_call (CallAdded i item a b) = [(i, item, a)]"
| "added_call _ = []"

fun piece_args :: "nat \<Rightarrow> rframe \<Rightarrow> ustr" where
  "piece_args i (ArgsPiece j item x) = (if i = j then x else [])"
| "piece_args i _ = []"

definition said_text :: "rframe list \<Rightarrow> ustr" where
  "said_text fs = concat (map piece_text fs)"

definition calls_added :: "rframe list \<Rightarrow> (nat \<times> ustr \<times> json) list" where
  "calls_added fs = concat (map added_call fs)"

definition args_said :: "nat \<Rightarrow> rframe list \<Rightarrow> ustr" where
  "args_said i fs = concat (map (piece_args i) fs)"

lemma said_simps [simp]:
  "said_text [] = []" "calls_added [] = []" "args_said i [] = []"
  "said_text (f # fs) = piece_text f @ said_text fs"
  "calls_added (f # fs) = added_call f @ calls_added fs"
  "args_said i (f # fs) = piece_args i f @ args_said i fs"
  "said_text (fs @ gs) = said_text fs @ said_text gs"
  "calls_added (fs @ gs) = calls_added fs @ calls_added gs"
  "args_said i (fs @ gs) = args_said i fs @ args_said i gs"
  by (simp_all add: said_text_def calls_added_def args_said_def)

lemma rscan_append:
  "rscan s fs = Some s' \<Longrightarrow> rscan s (fs @ gs) = rscan s' gs"
  by (induction s fs rule: rscan.induct) (auto split: option.splits)

section \<open>The invariant\<close>

definition call_indexes :: "reply_state \<Rightarrow> nat list" where
  "call_indexes st = map cs_index (rs_calls st)"

definition reply_inv :: "reply_state \<Rightarrow> bool" where
  "reply_inv st \<longleftrightarrow> distinct (call_indexes st) \<and> list_all (\<lambda>b. b < rs_next st) (call_indexes st)
     \<and> list_all (\<lambda>(i, q). q < length (rs_calls st)) (rs_current st)
     \<and> list_all (\<lambda>c. truthy (cs_id c)) (rs_calls st)"

definition call_heads :: "reply_state \<Rightarrow> (nat \<times> ustr \<times> json) list" where
  "call_heads st = map (\<lambda>c. (cs_index c, cs_item c, cs_id c)) (rs_calls st)"

definition rscan_view :: "reply_state \<Rightarrow> scan_state" where
  "rscan_view st = (rs_next st, map_option (\<lambda>(i, item). (i, item, True)) (rs_message st), map (\<lambda>(i, item, a). (i, item)) (call_heads st))"

definition call_args :: "reply_state \<Rightarrow> nat \<Rightarrow> ustr" where
  "call_args st b = concat (map cs_args (filter (\<lambda>c. cs_index c = b) (rs_calls st)))"

text \<open>\<open>told st fs st'\<close>: the frames \<open>fs\<close> tell exactly what happened between the states.\<close>

definition told :: "reply_state \<Rightarrow> rframe list \<Rightarrow> reply_state \<Rightarrow> bool" where
  "told st fs st' \<longleftrightarrow> reply_inv st' \<and> rscan (rscan_view st) fs = Some (rscan_view st')
     \<and> rs_text st' = rs_text st @ said_text fs
     \<and> call_heads st' = call_heads st @ calls_added fs
     \<and> (\<forall>b. call_args st' b = call_args st b @ args_said b fs)"

lemma told_refl: "reply_inv st \<Longrightarrow> told st [] st"
  by (simp add: told_def)

lemma told_inv: "told st fs st' \<Longrightarrow> reply_inv st'"
  by (simp add: told_def)

lemma told_trans: "told st fs st' \<Longrightarrow> told st' gs st'' \<Longrightarrow> told st (fs @ gs) st''"
  by (simp add: told_def rscan_append)

lemma told_finish: "reply_inv st \<Longrightarrow> told st [] (st\<lparr>rs_finish := r\<rparr>)"
  by (simp add: told_def reply_inv_def rscan_view_def call_heads_def call_indexes_def call_args_def)

lemma feed_piece_told:
  assumes "reply_inv st" and "feed_piece uuid piece st = (fs, st', ok)"
  shows "told st fs st'"
proof (cases "rs_message st")
  case None
  then show ?thesis using assms
    by (auto simp: feed_piece_def open_message_def told_def reply_inv_def rscan_view_def call_heads_def
        call_indexes_def call_args_def list_all_iff less_Suc_eq Let_def split: if_splits json.splits)
next
  case (Some m)
  then show ?thesis using assms
    by (cases m) (auto simp: feed_piece_def open_message_def told_def reply_inv_def rscan_view_def call_heads_def
        call_indexes_def call_args_def split: if_splits json.splits)
qed

lemma call_continued_Some:
  "reply_inv st \<Longrightarrow> call_continued u d nm st = Some q \<Longrightarrow> q < length (rs_calls st)"
  by (auto simp: call_continued_def reply_inv_def list_all_iff Let_def split: option.splits if_splits
      dest!: map_of_SomeD)

text \<open>Replacing a call by one with the same head keeps the heads and the invariant.\<close>

lemma replace_call:
  assumes inv: "reply_inv st" and q: "q < length (rs_calls st)"
    and c: "cs_index c = cs_index (rs_calls st ! q)" "cs_item c = cs_item (rs_calls st ! q)"
      "cs_id c = cs_id (rs_calls st ! q)"
    and st': "st' = st\<lparr>rs_calls := (rs_calls st)[q := c]\<rparr>"
  shows "reply_inv st'" and "call_heads st' = call_heads st" and "rscan_view st' = rscan_view st"
proof -
  have upd: "map f (rs_calls st') = map f (rs_calls st)" if "f c = f (rs_calls st ! q)" for f :: "call_state \<Rightarrow> 'b"
    using that by (simp add: st') (metis list_update_id map_update)
  have idx: "call_indexes st' = call_indexes st" unfolding call_indexes_def by (rule upd) (rule c(1))
  show heads: "call_heads st' = call_heads st" unfolding call_heads_def by (rule upd) (simp add: c)
  have same: "rs_next st' = rs_next st" "rs_message st' = rs_message st" "rs_current st' = rs_current st"
    "length (rs_calls st') = length (rs_calls st)" by (simp_all add: st')
  show "rscan_view st' = rscan_view st" by (simp add: rscan_view_def heads same)
  have "list_all truthy (map cs_id (rs_calls st'))"
    using inv upd [of cs_id, OF c(3)] by (simp add: reply_inv_def list.pred_map comp_def)
  then show "reply_inv st'" using inv by (simp add: reply_inv_def idx same list.pred_map comp_def)
qed

lemma call_args_map:
  "call_args st b = concat (map snd (filter (\<lambda>x. fst x = b) (map (\<lambda>c. (cs_index c, cs_args c)) (rs_calls st))))"
  by (simp add: call_args_def filter_map comp_def)

lemma open_call_told:
  assumes "reply_inv st" and "open_call uuid u d nm st = (q, fs, st')"
  shows "told st fs st' \<and> q < length (rs_calls st')"
proof (cases "call_continued u d nm st")
  case None
  have fresh: "rs_next st \<notin> set (call_indexes st)"
    using assms(1) by (auto simp: reply_inv_def list_all_iff)
  have "call_args st' b = call_args st b @ args_said b fs" for b
    using assms(2) None by (auto simp: open_call_def Let_def call_args_def)
  moreover have "reply_inv st'"
    using assms None fresh
    by (auto simp: open_call_def Let_def reply_inv_def call_indexes_def list_all_iff less_Suc_eq
        dest!: set_dset_subset [THEN subsetD])
  ultimately show ?thesis
    using assms(2) None by (auto simp: open_call_def Let_def told_def rscan_view_def call_heads_def)
next
  case (Some p)
  note p = call_continued_Some [OF assms(1) Some]
  define old where "old = rs_calls st ! p"
  define c where "c = old\<lparr>cs_id := (if truthy d \<and> \<not> truthy (cs_id old) then d else cs_id old),
    cs_name := (if truthy nm \<and> \<not> truthy (cs_name old) then nm else cs_name old)\<rparr>"
  have "(p, [], st\<lparr>rs_calls := (rs_calls st)[p := c]\<rparr>) = (q, fs, st')"
    using assms(2) unfolding open_call_def Some option.case Let_def c_def old_def .
  then have r: "q = p" "fs = []" "st' = st\<lparr>rs_calls := (rs_calls st)[p := c]\<rparr>"
    unfolding prod.inject by blast+
  have id: "truthy (cs_id old)" using assms(1) p by (simp add: reply_inv_def list_all_length old_def)
  then have same: "cs_index c = cs_index old" "cs_item c = cs_item old" "cs_id c = cs_id old"
    "cs_args c = cs_args old" by (simp_all add: c_def)
  note kept = replace_call [OF assms(1) p same(1-3) [unfolded old_def] r(3)]
  have "map (\<lambda>c. (cs_index c, cs_args c)) (rs_calls st') = map (\<lambda>c. (cs_index c, cs_args c)) (rs_calls st)"
    using same by (simp add: r(3) old_def) (metis (mono_tags, lifting) list_update_id map_update)
  then show ?thesis using p r kept
    by (simp add: told_def call_args_map)
qed

lemma feed_call_told:
  assumes "reply_inv st" and "feed_call uuid c st = (fs, st', ok)"
  shows "told st fs st'"
proof (cases "\<exists>d f. c = JObj d \<and> obj_or_empty (dget d (lit ''function'')) = Some f
    \<and> \<not> unhashable (dget_or d (lit ''index'') (JInt 0))")
  case False
  then have "fs = [] \<and> st' = st" using assms(2)
    by (auto simp: feed_call_def Let_def split: json.splits option.splits)
  then show ?thesis using assms(1) by (simp add: told_refl)
next
  case True
  then obtain d f where d: "c = JObj d" "obj_or_empty (dget d (lit ''function'')) = Some f"
    "\<not> unhashable (dget_or d (lit ''index'') (JInt 0))" by blast
  obtain q gs st1 where op: "open_call uuid (dget_or d (lit ''index'') (JInt 0)) (dget d (lit ''id''))
      (dget f (lit ''name'')) st = (q, gs, st1)" by (metis prod_cases3)
  note told1 = open_call_told [OF assms(1) op]
  show ?thesis
  proof (cases "\<exists>a. dget f (lit ''arguments'') = JStr a \<and> a \<noteq> []")
    case False
    then have "fs = gs \<and> st' = st1" using assms(2) d op
      by (auto simp: feed_call_def Let_def split: json.splits if_splits)
    then show ?thesis using told1 by simp
  next
    case True
    then obtain a where a: "dget f (lit ''arguments'') = JStr a" "a \<noteq> []" by blast
    define old where "old = rs_calls st1 ! q"
    define st2 where "st2 = st1\<lparr>rs_calls := (rs_calls st1)[q := old\<lparr>cs_args := cs_args old @ a\<rparr>]\<rparr>"
    have r: "fs = gs @ [ArgsPiece (cs_index old) (cs_item old) a]" "st' = st2"
      using assms(2) d op a by (simp_all add: feed_call_def Let_def old_def st2_def)
    have q: "q < length (rs_calls st1)" and inv1: "reply_inv st1" using told1 told_inv by blast+
    note kept = replace_call [OF inv1 q _ _ _ st2_def, unfolded old_def, simplified]
    have mem: "(cs_index old, cs_item old) \<in> set (map (\<lambda>(i, item, a). (i, item)) (call_heads st1))"
      using q by (force simp: call_heads_def old_def)
    have args: "call_args st2 b = call_args st1 b @ args_said b [ArgsPiece (cs_index old) (cs_item old) a]" for b
    proof -
      let ?cs = "rs_calls st1"
      have cut: "?cs = take q ?cs @ old # drop (Suc q) ?cs"
        using q by (simp add: old_def id_take_nth_drop)
      have upd: "rs_calls st2 = take q ?cs @ old\<lparr>cs_args := cs_args old @ a\<rparr> # drop (Suc q) ?cs"
        using q by (simp add: st2_def upd_conv_take_nth_drop)
      have "distinct (map cs_index (take q ?cs @ old # drop (Suc q) ?cs))"
        using inv1 cut by (metis call_indexes_def reply_inv_def)
      then have "cs_index old \<notin> cs_index ` set (drop (Suc q) ?cs)" by simp
      then have "filter (\<lambda>c. cs_index c = cs_index old) (drop (Suc q) ?cs) = []"
        unfolding filter_empty_conv by (metis imageI)
      then show ?thesis
        unfolding call_args_def upd by (subst (2) cut) auto
    qed
    have "rscan (rscan_view st1) [ArgsPiece (cs_index old) (cs_item old) a] = Some (rscan_view st1)"
      using mem by (simp add: rscan_view_def)
    moreover have "rs_text st2 = rs_text st1" by (simp add: st2_def)
    ultimately have "told st1 [ArgsPiece (cs_index old) (cs_item old) a] st2"
      using kept args by (simp add: told_def old_def)
    then show ?thesis using told1 told_trans r by blast
  qed
qed

lemma feed_calls_told:
  "reply_inv st \<Longrightarrow> feed_calls uuid cs st = (fs, st', ok) \<Longrightarrow> told st fs st'"
proof (induction cs arbitrary: st fs)
  case (Cons c cs)
  obtain gs st1 ok1 where c: "feed_call uuid c st = (gs, st1, ok1)" by (metis prod_cases3)
  note told1 = feed_call_told [OF Cons.prems(1) c]
  show ?case
  proof (cases ok1)
    case True
    obtain hs st2 ok2 where cs: "feed_calls uuid cs st1 = (hs, st2, ok2)" by (metis prod_cases3)
    have "told st1 hs st2" using Cons.IH [OF told_inv [OF told1]] cs Cons.prems c True by simp
    then show ?thesis using told_trans [OF told1] Cons.prems c cs True by auto
  qed (use Cons.prems c told1 in simp)
qed (simp add: told_refl)

lemma feed_chunk_told:
  assumes "reply_inv st" and "feed_chunk uuid chunk st = (fs, st', ok)"
  shows "told st fs st'"
proof (cases "\<exists>d c. chunk = JObj d \<and> first_choice_of d = Some c")
  case False
  then have "fs = [] \<and> st' = st" using assms(2)
    by (auto simp: feed_chunk_def split: json.splits option.splits)
  then show ?thesis using assms(1) by (simp add: told_refl)
next
  case True
  then obtain d c where c: "chunk = JObj d" "first_choice_of d = Some c" by blast
  define st1 where "st1 = st\<lparr>rs_finish := py_or (dget c (lit ''finish_reason'')) (rs_finish st)\<rparr>"
  have told1: "told st [] st1" unfolding st1_def by (rule told_finish [OF assms(1)])
  show ?thesis
  proof (cases "obj_or_empty (dget c (lit ''delta''))")
    case None
    then show ?thesis using assms(2) c told1 by (simp add: feed_chunk_def Let_def st1_def)
  next
    case (Some delta)
    obtain gs st2 ok2 where tx: "feed_piece uuid (dget delta (lit ''content'')) st1 = (gs, st2, ok2)"
      by (metis prod_cases3)
    have told2: "told st gs st2"
      using told_trans [OF told1 feed_piece_told [OF told_inv [OF told1] tx]] by simp
    show ?thesis
    proof (cases "ok2 \<and> calls_of_message delta \<noteq> None")
      case True
      then obtain calls where calls: "calls_of_message delta = Some calls" by blast
      obtain hs st3 ok3 where tl: "feed_calls uuid calls st2 = (hs, st3, ok3)" by (metis prod_cases3)
      have "told st (gs @ hs) st3"
        using told_trans [OF told2 feed_calls_told [OF told_inv [OF told2] tl]] .
      then show ?thesis using assms(2) c Some tx True calls tl
        by (simp add: feed_chunk_def Let_def st1_def [symmetric])
    next
      case False
      then have "fs = gs \<and> st' = st2" using assms(2) c Some tx
        by (cases ok2) (auto simp: feed_chunk_def Let_def st1_def [symmetric])
      then show ?thesis using told2 by simp
    qed
  qed
qed

lemma feed_stream_told:
  "reply_inv st \<Longrightarrow> feed_stream uuid es st = (fs, st', ok) \<Longrightarrow> told st fs st'"
proof (induction uuid es st arbitrary: fs rule: feed_stream.induct)
  case (2 uuid c es st)
  obtain gs st1 ok1 where c: "feed_chunk uuid c st = (gs, st1, ok1)" by (metis prod_cases3)
  note told1 = feed_chunk_told [OF 2(2) c]
  show ?case
  proof (cases ok1)
    case True
    obtain hs st2 ok2 where cs: "feed_stream uuid es st1 = (hs, st2, ok2)" by (metis prod_cases3)
    have "told st1 hs st2" using 2(1) [OF c [symmetric]] told_inv [OF told1] cs 2(3) c True by simp
    then show ?thesis using told_trans [OF told1] 2(3) c cs True by auto
  qed (use 2(3) c told1 in simp)
qed (auto simp: told_refl)

text \<open>While nothing fails, the message item is open exactly when text was said.\<close>

definition spoken :: "reply_state \<Rightarrow> bool" where
  "spoken st \<longleftrightarrow> (rs_message st = None \<longleftrightarrow> rs_text st = [])"

lemma feed_piece_spoken: "feed_piece uuid piece st = (fs, st', True) \<Longrightarrow> spoken st \<Longrightarrow> spoken st'"
  by (auto simp: feed_piece_def open_message_def spoken_def Let_def split: if_splits json.splits option.splits prod.splits)

lemma open_call_said:
  "open_call uuid u d nm st = (q, fs, st') \<Longrightarrow> rs_text st' = rs_text st \<and> rs_message st' = rs_message st"
  by (auto simp: open_call_def Let_def split: option.splits)

lemma feed_call_spoken: "feed_call uuid c st = (fs, st', ok) \<Longrightarrow> spoken st' = spoken st"
proof (cases "\<exists>d f. c = JObj d \<and> obj_or_empty (dget d (lit ''function'')) = Some f
    \<and> \<not> unhashable (dget_or d (lit ''index'') (JInt 0))")
  case True
  assume fed: "feed_call uuid c st = (fs, st', ok)"
  from True obtain d f where d: "c = JObj d" "obj_or_empty (dget d (lit ''function'')) = Some f"
    "\<not> unhashable (dget_or d (lit ''index'') (JInt 0))" by blast
  obtain q gs st1 where op: "open_call uuid (dget_or d (lit ''index'') (JInt 0)) (dget d (lit ''id''))
      (dget f (lit ''name'')) st = (q, gs, st1)" by (metis prod_cases3)
  have "rs_text st' = rs_text st1 \<and> rs_message st' = rs_message st1"
    using fed d op by (auto simp: feed_call_def Let_def split: if_splits json.splits)
  then show ?thesis using open_call_said [OF op] by (simp add: spoken_def)
qed (auto simp: feed_call_def Let_def split: json.splits option.splits)

lemma feed_calls_spoken: "feed_calls uuid cs st = (fs, st', ok) \<Longrightarrow> spoken st' = spoken st"
proof (induction cs arbitrary: st fs)
  case (Cons c cs)
  then show ?case using feed_call_spoken [of uuid c st]
    by (auto split: prod.splits bool.splits)
qed simp

lemma feed_chunk_spoken: "feed_chunk uuid c st = (fs, st', True) \<Longrightarrow> spoken st \<Longrightarrow> spoken st'"
proof -
  assume fed: "feed_chunk uuid c st = (fs, st', True)" and said: "spoken st"
  obtain d ch delta where d: "c = JObj d" "first_choice_of d = Some ch"
    "obj_or_empty (dget ch (lit ''delta'')) = Some delta"
    using fed by (auto simp: feed_chunk_def Let_def split: json.splits option.splits)
  define st1 where "st1 = st\<lparr>rs_finish := py_or (dget ch (lit ''finish_reason'')) (rs_finish st)\<rparr>"
  have st1: "spoken st1" using said by (simp add: spoken_def st1_def)
  obtain gs st2 ok2 where tx: "feed_piece uuid (dget delta (lit ''content'')) st1 = (gs, st2, ok2)"
    by (metis prod_cases3)
  have ok2: "ok2" using fed d tx by (cases ok2) (auto simp: feed_chunk_def Let_def st1_def)
  then have st2: "spoken st2" using feed_piece_spoken [of uuid _ st1] st1 tx by simp
  obtain calls where calls: "calls_of_message delta = Some calls"
    using fed d tx ok2 by (cases "calls_of_message delta") (auto simp: feed_chunk_def Let_def st1_def)
  obtain hs st3 ok3 where tl: "feed_calls uuid calls st2 = (hs, st3, ok3)" by (metis prod_cases3)
  have "st' = st3" using fed d tx ok2 calls tl by (simp add: feed_chunk_def Let_def st1_def)
  then show ?thesis using feed_calls_spoken [OF tl] st2 by simp
qed

lemma feed_stream_spoken: "feed_stream uuid es st = (fs, st', True) \<Longrightarrow> spoken st \<Longrightarrow> spoken st'"
proof (induction uuid es st arbitrary: fs rule: feed_stream.induct)
  case (2 uuid c es st)
  then show ?case using feed_chunk_spoken [of uuid c st]
    by (auto split: prod.splits bool.splits)
qed auto

section \<open>Properties\<close>

lemma initial_reply_views:
  "reply_inv initial_reply" "rscan_view initial_reply = (0, None, [])" "spoken initial_reply"
  "rs_text initial_reply = []" "call_heads initial_reply = []" "call_args initial_reply b = []"
  by (simp_all add: initial_reply_def reply_inv_def call_indexes_def rscan_view_def call_heads_def
      call_args_def spoken_def)

lemma responses_stream_cases:
  assumes "responses_stream_events uuid now later first tail served_model n = (frames, msg)"
  obtains fs st r where "told initial_reply fs st" "frames = Created r # fs @ [StreamError]"
    "msg = responses_assistant_message st"
  | fs st r i m u where "told initial_reply fs st" "spoken st"
    "frames = Created r # fs @ closing_frames st
       @ [Completed (response_object i later (lit ''completed'') m (completed_items st) u)]"
    "msg = responses_assistant_message st"
proof -
  obtain fs st ok where run: "feed_stream uuid (if first \<noteq> JNull then Chunk first # tail else tail) initial_reply
      = (fs, st, ok)" by (metis prod_cases3)
  note told = feed_stream_told [OF initial_reply_views(1) run]
  show thesis
  proof (cases ok)
    case False
    show ?thesis
      by (rule that(1) [OF told]) (use assms run False in \<open>auto simp: responses_stream_events_def Let_def\<close>)
  next
    case True
    then have "spoken st" using feed_stream_spoken [of uuid _ initial_reply] run initial_reply_views(3) by simp
    then show ?thesis
      by (rule that(2) [OF told]) (use assms run True in \<open>auto simp: responses_stream_events_def Let_def\<close>)
  qed
qed

text \<open>What the closing frames close: an output index and its item.\<close>

fun closed_item :: "rframe \<Rightarrow> (nat \<times> json) list" where
  "closed_item (CallDone i item) = [(i, item)]"
| "closed_item (MessageDone i item) = [(i, item)]"
| "closed_item _ = []"

definition closed_items :: "rframe list \<Rightarrow> (nat \<times> json) list" where
  "closed_items fs = concat (map closed_item fs)"

lemma closed_items_calls:
  "closed_items (concat (map (\<lambda>c. [ArgsDone (cs_index c) (cs_item c) (final_args c),
       CallDone (cs_index c) (done_call c)]) cs)) = map (\<lambda>c. (cs_index c, done_call c)) cs"
  by (induction cs) (simp_all add: closed_items_def)

lemma closed_items_closing:
  "closed_items (closing_frames st) = map (\<lambda>c. (cs_index c, done_call c)) (rs_calls st)
     @ (case rs_message st of None \<Rightarrow> [] | Some (i, item) \<Rightarrow> [(i, message_item item (JStr (rs_text st)))])"
  unfolding closing_frames_def
  using closed_items_calls [of "rs_calls st"] by (auto simp: closed_items_def split: option.splits)



definition said_arguments :: "nat \<Rightarrow> rframe list \<Rightarrow> json" where
  "said_arguments i frames = JStr (if args_said i frames = [] then lit ''{}'' else args_said i frames)"

definition kept_arguments :: "json \<Rightarrow> json" where
  "kept_arguments c = snd (snd (call_view c))"

fun named_call :: "json \<Rightarrow> bool" where
  "named_call (JObj d) \<longleftrightarrow> dget d (lit ''type'') \<noteq> JStr (lit ''function_call'') \<or> truthy (dget d (lit ''name''))"
| "named_call _ = False"

lemma persisted_call_views:
  "call_view (persisted_call c) = (cs_id c, py_or (cs_name c) (JStr []), JStr (final_args c))"
  by (simp add: call_view_def persisted_call_def dget_def)

lemma json_ids_persisted: "json_ids (map persisted_call cs) = map cs_id cs"
  by (induction cs) (simp_all add: persisted_call_def dget_def)

lemma call_args_member:
  assumes "distinct (call_indexes st)" and "c \<in> set (rs_calls st)"
  shows "call_args st (cs_index c) = cs_args c"
proof -
  obtain xs ys where split: "rs_calls st = xs @ c # ys" using assms(2) by (metis split_list)
  then have "cs_index c \<notin> cs_index ` set xs" "cs_index c \<notin> cs_index ` set ys"
    using assms(1) by (auto simp: call_indexes_def)
  then have "filter (\<lambda>u. cs_index u = cs_index c) xs = []" "filter (\<lambda>u. cs_index u = cs_index c) ys = []"
    unfolding filter_empty_conv by (metis imageI)+
  then show ?thesis by (simp add: call_args_def split)
qed

lemma closing_says:
  "said_text (closing_frames st) = [] \<and> calls_added (closing_frames st) = [] \<and> args_said i (closing_frames st) = []"
proof -
  have "said_text (concat (map (\<lambda>c. [ArgsDone (f c) (g c) (h c), CallDone (f c) (k c)]) cs)) = []
    \<and> calls_added (concat (map (\<lambda>c. [ArgsDone (f c) (g c) (h c), CallDone (f c) (k c)]) cs)) = []
    \<and> args_said i (concat (map (\<lambda>c. [ArgsDone (f c) (g c) (h c), CallDone (f c) (k c)]) cs)) = []"
    for f g h k and cs :: "call_state list" by (induction cs) simp_all
  then show ?thesis by (auto simp: closing_frames_def split: option.splits)
qed

text \<open>Replaying the completed output through the request fold.\<close>

lemma fold_done_calls:
  "list_all (\<lambda>c. truthy (cs_id c) \<and> truthy (cs_name c)) cs \<Longrightarrow>
   fold_items str_of p (map done_call cs) st = Inr (st\<lparr>f_calls := f_calls st @ map persisted_call cs\<rparr>)"
proof (induction cs arbitrary: p st)
  case (Cons c cs)
  have "fold_items str_of p [done_call c] st = Inr (st\<lparr>f_calls := f_calls st @ [persisted_call c]\<rparr>)"
    using Cons.prems by (simp add: done_call_def function_call_item_def fold_item_def dget_def
        function_call_to_internal_def py_or_def persisted_call_def Let_def)
  then show ?case using Cons by (simp add: done_call_def function_call_item_def)
qed simp

lemma named_calls:
  "list_all named_call (completed_items st) \<Longrightarrow> list_all (\<lambda>c. truthy (cs_name c)) (rs_calls st)"
  by (simp add: completed_items_def list.pred_map comp_def done_call_def function_call_item_def dget_def)
    (auto simp: list_all_iff py_or_def split: if_splits)

lemma replay_completed:
  assumes inv: "reply_inv st" and said: "spoken st" and named: "list_all named_call (completed_items st)"
    and items: "completed_items st \<noteq> []"
  shows "input_messages str_of (JList (completed_items st)) JNull = Inr [responses_assistant_message st]"
proof -
  let ?st0 = "\<lparr>f_internal = [], f_calls = [], f_content = JNull\<rparr>"
  let ?c = "if rs_text st \<noteq> [] then JStr (rs_text st) else JNull"
  have full: "list_all (\<lambda>c. truthy (cs_id c) \<and> truthy (cs_name c)) (rs_calls st)"
    using inv named_calls [OF named] by (simp add: reply_inv_def list_all_iff)
  have start: "fold_items str_of 0 (done_message st) ?st0 = Inr (?st0\<lparr>f_content := ?c\<rparr>)"
  proof (cases "rs_message st")
    case (Some m)
    obtain i item where m: "m = (i, item)" by (cases m)
    then have "rs_text st \<noteq> []" using said Some by (simp add: spoken_def)
    then show ?thesis using fold_message_item [of "rs_text st" str_of 0 item ?st0] Some
      by (simp add: done_message_def m flush_pending_def pending_turn_def)
  qed (use said in \<open>simp add: done_message_def spoken_def\<close>)
  have some: "rs_calls st \<noteq> [] \<or> ?c \<noteq> JNull"
    using items said by (auto simp: completed_items_def done_message_def spoken_def split: option.splits)
  have "fold_items str_of 0 (completed_items st) ?st0
      = Inr (?st0\<lparr>f_content := ?c, f_calls := map persisted_call (rs_calls st)\<rparr>)"
    unfolding completed_items_def fold_items_append start sum.case fold_done_calls [OF full] by simp
  then show ?thesis using some
    by (simp add: input_messages_def leading_messages_def flush_pending_def pending_turn_def
        responses_assistant_message_def)
qed

text \<open>
  C30: the message that is persisted is the one that was streamed: its text is the concatenation of
  the text pieces, its calls are those of the call items, in order, with the ids the client saw and
  with the concatenation of their argument pieces. A client that sends the completed output back
  with its next request, as Codex does, sends just this message, if every call has a name.
\<close>

theorem responses_stream_is_persisted:
  assumes "responses_stream_events uuid now later first tail served_model n = (frames, msg)"
  shows "dget msg (lit ''content'') = (if said_text frames = [] then JNull else JStr (said_text frames))
    \<and> call_ids msg = map (\<lambda>(i, item, a). a) (calls_added frames)
    \<and> (case dget msg (lit ''tool_calls'') of
         JList cs \<Rightarrow> map kept_arguments cs = map (\<lambda>(i, item, a). said_arguments i frames) (calls_added frames)
       | _ \<Rightarrow> calls_added frames = [])
    \<and> (\<forall>pre r outputs. frames = pre @ [Completed r] \<longrightarrow> dget r (lit ''output'') = JList outputs \<longrightarrow>
         outputs \<noteq> [] \<longrightarrow> list_all named_call outputs \<longrightarrow>
         input_messages str_of (JList outputs) JNull = Inr [msg])"
proof -
  have key: "dget msg (lit ''content'') = (if said_text fs = [] then JNull else JStr (said_text fs))
    \<and> call_ids msg = map (\<lambda>(i, item, a). a) (calls_added fs)
    \<and> (case dget msg (lit ''tool_calls'') of
         JList cs \<Rightarrow> map kept_arguments cs = map (\<lambda>(i, item, a). said_arguments i fs) (calls_added fs)
       | _ \<Rightarrow> calls_added fs = [])"
    if told: "told initial_reply fs st" and msg: "msg = responses_assistant_message st" for fs st
  proof -
    have st: "rs_text st = said_text fs" "reply_inv st" "call_heads st = calls_added fs"
      "call_args st b = args_said b fs" for b
      using told by (simp_all add: told_def initial_reply_views)
    have distinct: "distinct (call_indexes st)" using st(2) by (simp add: reply_inv_def)
    have "dget msg (lit ''content'') = (if said_text fs = [] then JNull else JStr (said_text fs))"
      using st(1) by (simp add: msg responses_assistant_message_def dget_def)
    moreover have "dget msg (lit ''tool_calls'')
        = (if rs_calls st = [] then JNull else JList (map persisted_call (rs_calls st)))"
      by (simp add: msg responses_assistant_message_def dget_def)
    moreover have "map cs_id (rs_calls st) = map (\<lambda>(i, item, a). a) (calls_added fs)"
      by (simp add: st(3) [symmetric] call_heads_def comp_def)
    moreover have "map kept_arguments (map persisted_call (rs_calls st))
        = map (\<lambda>(i, item, a). said_arguments i fs) (calls_added fs)"
      unfolding st(3) [symmetric] call_heads_def map_map
      by (rule map_cong) (simp_all add: kept_arguments_def persisted_call_views said_arguments_def
          st(4) [symmetric] call_args_member [OF distinct] final_args_def)
    moreover have "calls_added fs = [] \<longleftrightarrow> rs_calls st = []"
      using st(3) by (metis map_is_Nil_conv call_heads_def)
    ultimately show ?thesis by (simp add: call_ids_def json_ids_persisted)
  qed
  from assms show ?thesis
  proof (cases rule: responses_stream_cases)
    case (1 fs st r)
    have same: "said_text frames = said_text fs" "calls_added frames = calls_added fs"
      "\<And>i. args_said i frames = args_said i fs" by (simp_all add: 1(2))
    have args: "said_arguments i frames = said_arguments i fs" for i by (simp add: said_arguments_def same(3))
    have none: "frames \<noteq> pre @ [Completed d]" for pre d
    proof
      assume "frames = pre @ [Completed d]"
      then have "last frames = Completed d" by simp
      then show False by (simp add: 1(2))
    qed
    have "\<forall>pre r outputs. frames = pre @ [Completed r] \<longrightarrow> dget r (lit ''output'') = JList outputs \<longrightarrow>
         outputs \<noteq> [] \<longrightarrow> list_all named_call outputs \<longrightarrow>
         input_messages str_of (JList outputs) JNull = Inr [msg]"
      by (intro allI impI) (erule notE [OF none])
    with key [OF 1(1,3)] show ?thesis unfolding same args
      by (elim conjE) (intro conjI; assumption)
  next
    case (2 fs st r i m u)
    have same: "said_text frames = said_text fs" "calls_added frames = calls_added fs"
      "\<And>i. args_said i frames = args_said i fs" by (simp_all add: 2(3) closing_says)
    have args: "said_arguments i frames = said_arguments i fs" for i by (simp add: said_arguments_def same(3))
    have inv: "reply_inv st" by (rule told_inv [OF 2(1)])
    have "input_messages str_of (JList outputs) JNull = Inr [msg]"
      if "frames = pre @ [Completed d]" "dget d (lit ''output'') = JList outputs" "outputs \<noteq> []"
        "list_all named_call outputs" for pre d outputs
    proof -
      have "d = response_object i later (lit ''completed'') m (completed_items st) u"
        using arg_cong [OF that(1), of last] by (simp add: 2(3))
      then have "outputs = completed_items st" using that(2) by (simp add: response_object_def dget_def)
      then show ?thesis using replay_completed [OF inv 2(2)] that(3,4) 2(4) by simp
    qed
    then have "\<forall>pre r outputs. frames = pre @ [Completed r] \<longrightarrow> dget r (lit ''output'') = JList outputs \<longrightarrow>
         outputs \<noteq> [] \<longrightarrow> list_all named_call outputs \<longrightarrow>
         input_messages str_of (JList outputs) JNull = Inr [msg]" by (intro allI impI)
    with key [OF 2(1,4)] show ?thesis unfolding same args
      by (elim conjE) (intro conjI; assumption)
  qed
qed

abbreviation sample_chunks :: "stream_event list" where
  "sample_chunks \<equiv> [Chunk (JObj [(lit ''choices'', JList [JObj [(lit ''delta'',
       JObj [(lit ''content'', JStr (lit ''ok''))]), (lit ''finish_reason'', JStr (lit ''length''))]])])]"

lemma sample_stream:
  "\<exists>pre r. responses_stream_events (\<lambda>_. []) 1 2 JNull sample_chunks JNull 5
      = (pre @ [Completed r], [(lit ''role'', JStr (lit ''assistant'')), (lit ''content'', JStr (lit ''ok''))])
    \<and> dget r (lit ''status'') = JStr (lit ''completed'')"
  by (simp add: responses_stream_events_def feed_chunk_def first_choice_of_def obj_or_empty_def feed_piece_def
      open_message_def calls_of_message_def dget_def py_or_def initial_reply_def Let_def closing_frames_def
      completed_items_def done_message_def response_object_def responses_assistant_message_def)

lemma responses_stream_is_persisted_witness:
  "\<exists>frames msg. responses_stream_events (\<lambda>_. []) 1 2 JNull sample_chunks JNull 5 = (frames, msg)
     \<and> dget msg (lit ''content'') = (if said_text frames = [] then JNull else JStr (said_text frames))"
proof -
  obtain frames msg where eq: "responses_stream_events (\<lambda>_. []) 1 2 JNull sample_chunks JNull 5 = (frames, msg)"
    by (metis surj_pair)
  from responses_stream_is_persisted [OF eq] eq show ?thesis by blast
qed

text \<open>
  A reply cut off by its token limit is reported as incomplete without streaming and as completed
  in a stream: \<open>rs_finish\<close> is tracked and never read.
\<close>

lemma truncation_is_hidden_in_streams:
  "response_status (JStr (lit ''length'')) = Some (lit ''incomplete'')"
  "\<exists>pre r msg. responses_stream_events (\<lambda>_. []) 1 2 JNull sample_chunks JNull 5 = (pre @ [Completed r], msg)
     \<and> dget r (lit ''status'') = JStr (lit ''completed'')"
  using sample_stream by (simp_all add: response_status_def py_or_def FINISH_REASON_TO_STATUS_def) blast

text \<open>
  A call that opens before the text has the lower output index, and yet comes second in the output
  of the completed response.
\<close>

lemma completed_output_is_reordered:
  "rs_message st = Some (1, item) \<Longrightarrow> rs_calls st = [c] \<Longrightarrow> cs_index c = 0 \<Longrightarrow>
   completed_items st = [message_item item (JStr (rs_text st)), done_call c]
   \<and> map fst (closed_items (closing_frames st)) = [0, 1]"
  by (simp add: completed_items_def done_message_def closed_items_closing)

end
