(* ===== verification/Accounts.thy ===== *)
theory Accounts
  imports Settings Tickets
begin

text \<open>
  Accounts (\<open>invincible/core/accounts.py\<close>, with the password primitives of
  \<open>invincible/core/identity.py\<close> and the flows of \<open>invincible/endpoints/accounts.py\<close> that decide on a
  session): users, browser sessions as signed cookies, signed values and external identities. The
  table of users is a list of rows; every write is one UPDATE or INSERT. Parameters: the clock (whole
  seconds), \<open>to_lower\<close> for \<open>str.lower\<close>, the hash \<open>pw_hash\<close> with its salt and the check \<open>pw_ok\<close> of argon2,
  and \<open>mac\<close>, the hexadecimal HMAC under the owner secret, \<open>None\<close> when no secret is set.
\<close>

datatype account_error =
    InvalidEmail | WeakPassword | DuplicateEmail | PasswordExists | WrongPassword | NoSuchUser
  | SessionsDisabled | InvalidName | DuplicateProject | NoSuchProject | DefaultProject
  | UnknownCode | CodeExpired | SlowDown int | AccessDenied | AlreadyClaimed

fun error_code :: "account_error \<Rightarrow> ustr" where
  "error_code InvalidEmail = lit ''invalid_email''"
| "error_code WeakPassword = lit ''weak_password''"
| "error_code DuplicateEmail = lit ''duplicate_email''"
| "error_code PasswordExists = lit ''password_exists''"
| "error_code WrongPassword = lit ''wrong_password''"
| "error_code NoSuchUser = lit ''not_found''"
| "error_code SessionsDisabled = lit ''sessions_disabled''"
| "error_code InvalidName = lit ''invalid_name''"
| "error_code DuplicateProject = lit ''duplicate_project''"
| "error_code NoSuchProject = lit ''not_found''"
| "error_code DefaultProject = lit ''default_project''"
| "error_code UnknownCode = lit ''expired_token''"
| "error_code CodeExpired = lit ''expired_token''"
| "error_code (SlowDown i) = lit ''slow_down''"
| "error_code AccessDenied = lit ''access_denied''"
| "error_code AlreadyClaimed = lit ''expired_token''"

fun status_code :: "account_error \<Rightarrow> int" where
  "status_code DuplicateEmail = 409"
| "status_code PasswordExists = 409"
| "status_code WrongPassword = 403"
| "status_code NoSuchUser = 404"
| "status_code SessionsDisabled = 503"
| "status_code DuplicateProject = 409"
| "status_code NoSuchProject = 404"
| "status_code DefaultProject = 409"
| "status_code AccessDenied = 403"
| "status_code _ = 400"

definition SESSION_TTL :: int where "SESSION_TTL = 30 * 24 * 3600"
definition MIN_PASSWORD_LEN :: nat where "MIN_PASSWORD_LEN = 8"

section \<open>Emails and passwords\<close>

definition normalize_email :: "(ustr \<Rightarrow> ustr) \<Rightarrow> ustr \<Rightarrow> ustr" where
  "normalize_email to_lower email = to_lower (strip email)"

text \<open>
  The full match of \<open>[^@\s]+@[^@\s]+\.[^@\s]+\<close>: one \<open>@\<close>, no white space, something before it, and
  behind it a dot that is neither first nor last.
\<close>

definition email_shape :: "ustr \<Rightarrow> bool" where
  "email_shape e \<longleftrightarrow> \<not> list_ex is_space e \<and>
     (let local = takeWhile (\<lambda>c. c \<noteq> 64) e; domain = tl (dropWhile (\<lambda>c. c \<noteq> 64) e)
      in local \<noteq> [] \<and> 64 \<in> set e \<and> 64 \<notin> set domain \<and> domain \<noteq> [] \<and> 46 \<in> set (butlast (tl domain)))"

definition validate_email :: "(ustr \<Rightarrow> ustr) \<Rightarrow> ustr \<Rightarrow> account_error + ustr" where
  "validate_email to_lower email =
     (let e = normalize_email to_lower email in if email_shape e then Inr e else Inl InvalidEmail)"

definition validate_password :: "ustr \<Rightarrow> account_error + ustr" where
  "validate_password password =
     (if length password < MIN_PASSWORD_LEN then Inl WeakPassword else Inr password)"

definition verify_password :: "(ustr \<Rightarrow> ustr \<Rightarrow> bool) \<Rightarrow> ustr option \<Rightarrow> ustr \<Rightarrow> bool" where
  "verify_password pw_ok password_hash password \<longleftrightarrow>
     (case password_hash of None \<Rightarrow> False | Some h \<Rightarrow> h \<noteq> [] \<and> pw_ok h password)"

section \<open>Users\<close>

record user_row =
  u_id :: int
  u_email :: ustr
  u_hash :: "ustr option"
  u_version :: int
  u_role :: ustr
  u_created :: int

text \<open>\<open>next_user\<close> is the identity sequence; a refused insert draws from it all the same.\<close>

record accounts =
  users :: "user_row list"
  next_user :: int

definition user_row_of :: "int \<Rightarrow> accounts \<Rightarrow> user_row option" where
  "user_row_of uid a = find (\<lambda>r. u_id r = uid) (users a)"

definition user_by_email :: "ustr \<Rightarrow> accounts \<Rightarrow> user_row option" where
  "user_by_email email a = find (\<lambda>r. u_email r = email) (users a)"

text \<open>The columns \<open>get\<close> selects: id, email, created_at, session_version, role.\<close>

type_synonym user_view = "int \<times> ustr \<times> int \<times> int \<times> ustr"

definition user_view :: "user_row \<Rightarrow> user_view" where
  "user_view r = (u_id r, u_email r, u_created r, u_version r, u_role r)"

definition get_user :: "int \<Rightarrow> accounts \<Rightarrow> user_view option" where
  "get_user uid a = map_option user_view (user_row_of uid a)"

definition get_by_email :: "(ustr \<Rightarrow> ustr) \<Rightarrow> ustr \<Rightarrow> accounts \<Rightarrow> user_row option" where
  "get_by_email to_lower email a = user_by_email (normalize_email to_lower email) a"

definition has_password :: "int \<Rightarrow> accounts \<Rightarrow> bool" where
  "has_password uid a = (case user_row_of uid a of None \<Rightarrow> False | Some r \<Rightarrow> u_hash r \<noteq> None)"

definition insert_user :: "int \<Rightarrow> ustr \<Rightarrow> ustr option \<Rightarrow> accounts \<Rightarrow> (account_error + int) \<times> accounts" where
  "insert_user now email password_hash a =
     (let a1 = a\<lparr>next_user := next_user a + 1\<rparr> in
      if user_by_email email a \<noteq> None then (Inl DuplicateEmail, a1)
      else (Inr (next_user a),
            a1\<lparr>users := users a @ [\<lparr>u_id = next_user a, u_email = email, u_hash = password_hash,
               u_version = 0, u_role = lit ''user'', u_created = now\<rparr>]\<rparr>))"

definition register ::
  "(ustr \<Rightarrow> ustr) \<Rightarrow> (ustr \<Rightarrow> ustr) \<Rightarrow> int \<Rightarrow> ustr \<Rightarrow> ustr \<Rightarrow> accounts \<Rightarrow> (account_error + int) \<times> accounts" where
  "register to_lower pw_hash now email password a =
     (case validate_email to_lower email of
        Inl e \<Rightarrow> (Inl e, a)
      | Inr email \<Rightarrow>
          (case validate_password password of
             Inl e \<Rightarrow> (Inl e, a)
           | Inr password \<Rightarrow> insert_user now email (Some (pw_hash password)) a))"

definition register_without_password ::
  "(ustr \<Rightarrow> ustr) \<Rightarrow> int \<Rightarrow> ustr \<Rightarrow> accounts \<Rightarrow> (account_error + int) \<times> accounts" where
  "register_without_password to_lower now email a =
     (case validate_email to_lower email of
        Inl e \<Rightarrow> (Inl e, a) | Inr email \<Rightarrow> insert_user now email None a)"

definition authenticate ::
  "(ustr \<Rightarrow> ustr) \<Rightarrow> (ustr \<Rightarrow> ustr \<Rightarrow> bool) \<Rightarrow> ustr \<Rightarrow> ustr \<Rightarrow> accounts \<Rightarrow> (int \<times> ustr) option" where
  "authenticate to_lower pw_ok email password a =
     (case user_by_email (normalize_email to_lower email) a of
        None \<Rightarrow> None
      | Some r \<Rightarrow> if verify_password pw_ok (u_hash r) password then Some (u_id r, u_email r) else None)"

text \<open>The one UPDATE of a password: the hash and the bump of the version together.\<close>

definition write_password :: "(user_row \<Rightarrow> bool) \<Rightarrow> ustr \<Rightarrow> accounts \<Rightarrow> bool \<times> accounts" where
  "write_password wh h a =
     (list_ex wh (users a),
      a\<lparr>users := map (\<lambda>r. if wh r then r\<lparr>u_hash := Some h, u_version := u_version r + 1\<rparr> else r) (users a)\<rparr>)"

definition set_password :: "(ustr \<Rightarrow> ustr) \<Rightarrow> int \<Rightarrow> ustr \<Rightarrow> accounts \<Rightarrow> account_error option \<times> accounts" where
  "set_password pw_hash uid new_password a =
     (case validate_password new_password of
        Inl e \<Rightarrow> (Some e, a)
      | Inr p \<Rightarrow>
          (case write_password (\<lambda>r. u_id r = uid \<and> u_hash r = None) (pw_hash p) a of
             (found, a') \<Rightarrow> (if found then None else Some PasswordExists, a')))"

text \<open>\<open>change_password\<close> reads in one transaction and writes in another.\<close>

definition check_current :: "(ustr \<Rightarrow> ustr \<Rightarrow> bool) \<Rightarrow> int \<Rightarrow> ustr \<Rightarrow> accounts \<Rightarrow> bool" where
  "check_current pw_ok uid current_password a =
     (case user_row_of uid a of None \<Rightarrow> False | Some r \<Rightarrow> verify_password pw_ok (u_hash r) current_password)"

definition change_write :: "(ustr \<Rightarrow> ustr) \<Rightarrow> int \<Rightarrow> ustr \<Rightarrow> accounts \<Rightarrow> accounts" where
  "change_write pw_hash uid p a = snd (write_password (\<lambda>r. u_id r = uid) (pw_hash p) a)"

definition change_password ::
  "(ustr \<Rightarrow> ustr) \<Rightarrow> (ustr \<Rightarrow> ustr \<Rightarrow> bool) \<Rightarrow> int \<Rightarrow> ustr \<Rightarrow> ustr \<Rightarrow> accounts \<Rightarrow> account_error option \<times> accounts" where
  "change_password pw_hash pw_ok uid current_password new_password a =
     (case validate_password new_password of
        Inl e \<Rightarrow> (Some e, a)
      | Inr p \<Rightarrow>
          if \<not> check_current pw_ok uid current_password a then (Some WrongPassword, a)
          else (None, change_write pw_hash uid p a))"

definition reset_password :: "(ustr \<Rightarrow> ustr) \<Rightarrow> int \<Rightarrow> ustr \<Rightarrow> accounts \<Rightarrow> account_error option \<times> accounts" where
  "reset_password pw_hash uid new_password a =
     (case validate_password new_password of
        Inl e \<Rightarrow> (Some e, a)
      | Inr p \<Rightarrow>
          (case write_password (\<lambda>r. u_id r = uid) (pw_hash p) a of
             (found, a') \<Rightarrow> (if found then None else Some NoSuchUser, a')))"

section \<open>Session cookies\<close>

definition is_ascii :: "ustr \<Rightarrow> bool" where
  "is_ascii s = list_all (\<lambda>c. c < 128) s"

definition session_payload :: "ustr \<Rightarrow> ustr \<Rightarrow> ustr \<Rightarrow> ustr" where
  "session_payload uid version expiry = lit ''v2.'' @ uid @ lit ''.'' @ version @ lit ''.'' @ expiry"

definition create_session :: "(ustr \<Rightarrow> ustr) option \<Rightarrow> int \<Rightarrow> int \<Rightarrow> int \<Rightarrow> account_error + ustr" where
  "create_session mac now uid version =
     (case mac of
        None \<Rightarrow> Inl SessionsDisabled
      | Some sign \<Rightarrow>
          let payload = session_payload (dec uid) (dec version) (dec (now + SESSION_TTL))
          in Inr (payload @ lit ''.'' @ sign payload))"

text \<open>
  Text that is not ASCII cannot be encoded, and \<open>hmac.compare_digest\<close> refuses it: \<open>verify\<close> then raises,
  outside of any handler.
\<close>

datatype 'a cookie_verdict = Raises | Refused | Accepted 'a

definition verify_session :: "(ustr \<Rightarrow> ustr) option \<Rightarrow> int \<Rightarrow> ustr option \<Rightarrow> (int \<times> int) cookie_verdict" where
  "verify_session mac now value =
     (case mac of
        None \<Rightarrow> Refused
      | Some sign \<Rightarrow>
     (case value of
        None \<Rightarrow> Refused
      | Some v \<Rightarrow>
     (case split_on 46 v of
        [tag, uid, version, expiry, signature] \<Rightarrow>
          if tag \<noteq> lit ''v2'' then Refused
          else let payload = session_payload uid version expiry in
            if \<not> is_ascii payload \<or> \<not> is_ascii signature then Raises
            else if sign payload \<noteq> signature then Refused
            else (case parse_int expiry of
                None \<Rightarrow> Refused
              | Some e \<Rightarrow>
                  if e \<le> now then Refused
                  else (case (parse_int uid, parse_int version) of
                      (Some u, Some n) \<Rightarrow> Accepted (u, n)
                    | _ \<Rightarrow> Refused))
      | _ \<Rightarrow> Refused)))"

definition resolve_session ::
  "(ustr \<Rightarrow> ustr) option \<Rightarrow> int \<Rightarrow> ustr option \<Rightarrow> accounts \<Rightarrow> user_view cookie_verdict" where
  "resolve_session mac now cookie a =
     (case verify_session mac now cookie of
        Raises \<Rightarrow> Raises
      | Refused \<Rightarrow> Refused
      | Accepted (uid, token_version) \<Rightarrow>
          (case user_row_of uid a of
             None \<Rightarrow> Refused
           | Some r \<Rightarrow> if u_version r \<noteq> token_version then Refused else Accepted (user_view r)))"

section \<open>Signed values\<close>

definition sign_value :: "(ustr \<Rightarrow> ustr) option \<Rightarrow> int \<Rightarrow> int \<Rightarrow> ustr \<Rightarrow> ustr option" where
  "sign_value mac now ttl value = (case mac of
       None \<Rightarrow> None
     | Some sign \<Rightarrow>
         let expiry = dec (now + ttl)
         in Some (value @ lit ''.'' @ expiry @ lit ''.'' @ sign (value @ lit ''|'' @ expiry)))"

text \<open>\<open>rsplit(".", 2)\<close>: the last two parts, and all before them as one.\<close>

definition rsplit2 :: "ustr \<Rightarrow> (ustr \<times> ustr \<times> ustr) option" where
  "rsplit2 s = (case rev (split_on 46 s) of
       z # y # x # xs \<Rightarrow> Some (join (lit ''.'') (rev (x # xs)), y, z)
     | _ \<Rightarrow> None)"

definition verify_signed_value ::
  "(ustr \<Rightarrow> ustr) option \<Rightarrow> int \<Rightarrow> ustr option \<Rightarrow> ustr \<Rightarrow> unit cookie_verdict" where
  "verify_signed_value mac now signed expected =
     (case signed of
        None \<Rightarrow> Refused
      | Some s \<Rightarrow>
          if s = [] \<or> expected = [] then Refused
          else (case rsplit2 s of
              None \<Rightarrow> Refused
            | Some (value, expiry, signature) \<Rightarrow>
                if \<not> is_ascii value \<or> \<not> is_ascii expected then Raises
                else if value \<noteq> expected then Refused
                else (case parse_int expiry of
                    None \<Rightarrow> Refused
                  | Some e \<Rightarrow>
                      if e \<le> now then Refused
                      else (case mac of
                          None \<Rightarrow> Refused
                        | Some sign \<Rightarrow>
                            if \<not> is_ascii signature then Raises
                            else if sign (value @ lit ''|'' @ expiry) = signature then Accepted ()
                            else Refused))))"

section \<open>External identities\<close>

record identity_row =
  i_id :: int
  i_user :: int
  i_provider :: ustr
  i_account :: ustr

definition identity_user :: "ustr \<Rightarrow> ustr \<Rightarrow> identity_row list \<Rightarrow> int option" where
  "identity_user provider account ids =
     map_option i_user (find (\<lambda>i. i_provider i = provider \<and> i_account i = account) ids)"

text \<open>\<open>link\<close>: the row of an identity that is linked already stays, and its user is returned.\<close>

definition link_identity :: "int \<Rightarrow> int \<Rightarrow> ustr \<Rightarrow> ustr \<Rightarrow> identity_row list \<Rightarrow> int \<times> identity_row list" where
  "link_identity new_id uid provider account ids =
     (case identity_user provider account ids of
        Some owner \<Rightarrow> (owner, ids)
      | None \<Rightarrow> (uid, ids @ [\<lparr>i_id = new_id, i_user = uid, i_provider = provider, i_account = account\<rparr>]))"

definition account_ids_for :: "int \<Rightarrow> ustr \<Rightarrow> identity_row list \<Rightarrow> ustr list" where
  "account_ids_for uid provider ids =
     map i_account (filter (\<lambda>i. i_user i = uid \<and> i_provider i = provider) ids)"

text \<open>
  \<open>primary_verified_email\<close> on the decoded answer: the primary and verified address, else the first
  verified one. \<open>str_of\<close> is \<open>str\<close> of a value that is no string.
\<close>

definition verified_entry :: "json \<Rightarrow> pydict option" where
  "verified_entry e = (case e of JObj d \<Rightarrow> if truthy (dget d (lit ''verified'')) then Some d else None | _ \<Rightarrow> None)"

definition email_text :: "(json \<Rightarrow> ustr) \<Rightarrow> json \<Rightarrow> ustr" where
  "email_text str_of v = (case v of JStr s \<Rightarrow> s | _ \<Rightarrow> str_of v)"

text \<open>A primary entry without an \<open>email\<close> key raises; that case is \<open>None\<close> of the outer option.\<close>

definition primary_verified_email :: "(json \<Rightarrow> ustr) \<Rightarrow> int \<Rightarrow> json \<Rightarrow> ustr option option" where
  "primary_verified_email str_of status emails =
     (case emails of
        JList entries \<Rightarrow>
          if status \<noteq> 200 then Some None
          else let verified = List.map_filter verified_entry entries;
                   addresses = filter truthy (map (\<lambda>d. dget d (lit ''email'')) verified)
            in (case find (\<lambda>d. truthy (dget d (lit ''primary''))) verified of
                  Some d \<Rightarrow> map_option (\<lambda>v. Some (email_text str_of v)) (map_of d (lit ''email''))
                | None \<Rightarrow> Some (case addresses of [] \<Rightarrow> None | v # _ \<Rightarrow> Some (email_text str_of v)))
      | _ \<Rightarrow> Some None)"

datatype github_login = NoVerifiedEmail | IdentityConflict | BadEmail | SignedIn int bool

text \<open>
  The account a GitHub login signs in to, and whether it was linked to an account that was there.
  \<open>profile\<close> is the GitHub id, \<open>verified_email\<close> what \<open>primary_verified_email\<close> gave.
\<close>

definition github_account ::
  "(ustr \<Rightarrow> ustr) \<Rightarrow> int \<Rightarrow> int \<Rightarrow> ustr \<Rightarrow> ustr option \<Rightarrow> accounts \<Rightarrow> identity_row list
   \<Rightarrow> github_login \<times> accounts \<times> identity_row list" where
  "github_account to_lower now new_id profile verified_email a ids =
     (case identity_user (lit ''github'') profile ids of
        Some uid \<Rightarrow> (SignedIn uid False, a, snd (link_identity new_id uid (lit ''github'') profile ids))
      | None \<Rightarrow>
     (case verified_email of
        None \<Rightarrow> (NoVerifiedEmail, a, ids)
      | Some email \<Rightarrow>
     (case get_by_email to_lower email a of
        Some r \<Rightarrow>
          let linked = account_ids_for (u_id r) (lit ''github'') ids in
          if linked \<noteq> [] \<and> profile \<notin> set linked then (IdentityConflict, a, ids)
          else (SignedIn (u_id r) True, a, snd (link_identity new_id (u_id r) (lit ''github'') profile ids))
      | None \<Rightarrow>
          (case register_without_password to_lower now email a of
             (Inl e, a') \<Rightarrow> (BadEmail, a', ids)
           | (Inr uid, a') \<Rightarrow>
               (SignedIn uid False, a', snd (link_identity new_id uid (lit ''github'') profile ids))))))"

section \<open>Flows of the endpoints\<close>

definition safe_next :: "ustr \<Rightarrow> ustr option" where
  "safe_next target =
     (if is_prefix (lit ''/'') target \<and> \<not> is_prefix (lit ''//'') target then Some target else None)"

datatype page = Page | Redirect ustr | ToLogin ustr | Unauthorized | ServerError

text \<open>
  \<open>GET /login\<close> and \<open>GET\<close> of a page behind \<open>require_user_session\<close>, as a browser meets them: the 401 of
  the latter becomes a redirect to the login page with the path as \<open>next\<close> (\<open>invincible/main.py\<close>).
\<close>

definition login_page :: "(ustr \<Rightarrow> ustr) option \<Rightarrow> int \<Rightarrow> ustr option \<Rightarrow> ustr \<Rightarrow> page" where
  "login_page mac now cookie next_param =
     (case verify_session mac now cookie of
        Accepted _ \<Rightarrow> Redirect (case safe_next next_param of
            Some t \<Rightarrow> t | None \<Rightarrow> lit ''/account'')
      | Refused \<Rightarrow> Page
      | Raises \<Rightarrow> ServerError)"

definition member_page :: "(ustr \<Rightarrow> ustr) option \<Rightarrow> int \<Rightarrow> ustr option \<Rightarrow> accounts \<Rightarrow> ustr \<Rightarrow> page" where
  "member_page mac now cookie a path =
     (case resolve_session mac now cookie a of
        Accepted _ \<Rightarrow> Page
      | Refused \<Rightarrow> (case safe_next path of Some p \<Rightarrow> ToLogin p | None \<Rightarrow> Unauthorized)
      | Raises \<Rightarrow> ServerError)"

text \<open>
  \<open>POST /auth/password\<close>: which flow applies follows the stored row. The answer carries a fresh cookie
  of the new version.
\<close>

definition auth_password ::
  "(ustr \<Rightarrow> ustr) \<Rightarrow> (ustr \<Rightarrow> ustr \<Rightarrow> bool) \<Rightarrow> (ustr \<Rightarrow> ustr) option \<Rightarrow> int \<Rightarrow> int \<Rightarrow> ustr \<Rightarrow> ustr \<Rightarrow> accounts
   \<Rightarrow> (account_error + ustr) \<times> accounts" where
  "auth_password pw_hash pw_ok mac now uid current_password new_password a =
     (case (if has_password uid a then change_password pw_hash pw_ok uid current_password new_password a
            else set_password pw_hash uid new_password a) of
        (Some e, a') \<Rightarrow> (Inl e, a')
      | (None, a') \<Rightarrow>
          (create_session mac now uid (case user_row_of uid a' of Some r \<Rightarrow> u_version r | None \<Rightarrow> 0), a'))"

section \<open>Texts of cookies\<close>

lemma split_on_plain [simp]: "d \<notin> set p \<Longrightarrow> split_on d p = [p]"
  by (induction p) auto

lemma split_on_append [simp]: "d \<notin> set p \<Longrightarrow> split_on d (p @ d # s) = p # split_on d s"
  by (induction p) auto

lemma dec_chars: "set (dec i) \<subseteq> {45} \<union> {48..57}"
  by (auto simp: dec_def dest: dec_nat_digits split: if_splits)

lemma dec_no_dot [simp]: "46 \<notin> set (dec i)"
  using dec_chars [of i] by auto

lemma dec_ascii [simp]: "is_ascii (dec i)"
  using dec_chars [of i] by (fastforce simp: is_ascii_def list_all_iff)

lemma is_ascii_append [simp]: "is_ascii (s @ t) \<longleftrightarrow> is_ascii s \<and> is_ascii t"
  by (simp add: is_ascii_def)

lemma parse_digits_plain:
  "list_all (\<lambda>c. 48 \<le> c \<and> c \<le> 57) ds \<Longrightarrow> parse_digits acc (ds @ [c]) =
   (if 48 \<le> c \<and> c \<le> 57 then map_option (\<lambda>n. 10 * n + (c - 48)) (parse_digits acc ds)
    else parse_digits acc (ds @ [c]))"
  by (induction ds arbitrary: acc) auto

lemma parse_digits_dec: "parse_digits 0 (dec_nat n) = Some (int n)"
proof (induction n rule: less_induct)
  case (less n)
  show ?case
  proof (cases "n < 10")
    case True
    then show ?thesis by (simp add: dec_nat.simps [of n])
  next
    case False
    have "list_all (\<lambda>c. 48 \<le> c \<and> c \<le> 57) (dec_nat (n div 10))"
      using dec_nat_digits by (auto simp: list_all_iff)
    moreover have "parse_digits 0 (dec_nat (n div 10)) = Some (int (n div 10))" using less False by simp
    moreover have "10 * int (n div 10) + int (n mod 10) = int n" "n mod 10 \<le> 9" by presburger+
    ultimately show ?thesis using False
      by (subst dec_nat.simps) (simp add: parse_digits_plain)
  qed
qed

lemma dec_nat_head: "\<exists>c cs. dec_nat n = c # cs \<and> 48 \<le> c \<and> c \<le> 57"
proof -
  obtain c cs where "dec_nat n = c # cs" by (metis dec_nat_not_Nil(1) neq_Nil_conv)
  then show ?thesis using dec_nat_digits [of c n] by auto
qed

lemma not_space_strip: "\<forall>c \<in> set s. \<not> is_space c \<Longrightarrow> strip s = s"
proof -
  assume s: "\<forall>c \<in> set s. \<not> is_space c"
  have plain: "dropWhile is_space t = t" if "\<forall>c \<in> set t. \<not> is_space c" for t using that by (cases t) auto
  show ?thesis using s by (simp add: strip_def lstrip_def plain [of s] plain [of "rev s"])
qed

lemma parse_int_dec [simp]: "parse_int (dec i) = Some i"
proof -
  have "\<forall>c \<in> set (dec i). \<not> is_space c" using dec_chars [of i] by (fastforce simp: is_space_def)
  then have "strip (dec i) = dec i" by (rule not_space_strip)
  moreover obtain c cs where h: "dec_nat (nat \<bar>i\<bar>) = c # cs" "48 \<le> c" "c \<le> 57" using dec_nat_head by blast
  moreover have "parse_unsigned (c # cs) = Some \<bar>i\<bar>"
    using parse_digits_dec [of "nat \<bar>i\<bar>"] h by (simp add: parse_unsigned_def)
  ultimately show ?thesis by (auto simp: parse_int_def dec_def split: if_splits)
qed

text \<open>The documented shape of \<open>hexdigest()\<close>.\<close>

definition hex_text :: "(ustr \<Rightarrow> ustr) \<Rightarrow> bool" where
  "hex_text sign \<longleftrightarrow> (\<forall>p. set (sign p) \<subseteq> {48..57} \<union> {97..102})"

lemma hex_text_plain: "hex_text sign \<Longrightarrow> 46 \<notin> set (sign p) \<and> is_ascii (sign p)"
proof -
  assume "hex_text sign"
  then have "c \<in> {48..57} \<union> {97..102}" if "c \<in> set (sign p)" for c using that unfolding hex_text_def by (meson subsetD)
  then show ?thesis by (fastforce simp: is_ascii_def list_all_iff)
qed

lemma session_round_trip:
  assumes "create_session (Some sign) now uid version = Inr cookie" and "hex_text sign"
  shows "verify_session (Some sign) now' (Some cookie)
    = (if now + SESSION_TTL \<le> now' then Refused else Accepted (uid, version))"
proof -
  let ?p = "session_payload (dec uid) (dec version) (dec (now + SESSION_TTL))"
  have sig: "46 \<notin> set (sign ?p)" "is_ascii (sign ?p)" using hex_text_plain [OF assms(2)] by auto
  have cookie: "cookie = lit ''v2'' @ 46 # dec uid @ 46 # dec version @ 46 # dec (now + SESSION_TTL) @ 46 # sign ?p"
    using assms(1) by (auto simp: create_session_def session_payload_def lit_def)
  have "46 \<notin> set (lit ''v2'')" by (simp add: lit_def)
  then have "split_on 46 cookie = [lit ''v2'', dec uid, dec version, dec (now + SESSION_TTL), sign ?p]"
    unfolding cookie using sig(1) by simp
  moreover have "is_ascii ?p" by (simp add: session_payload_def) (simp add: is_ascii_def lit_def)
  ultimately show ?thesis using sig(2) by (simp add: verify_session_def Let_def)
qed

section \<open>The table of users\<close>

definition accounts_ok :: "accounts \<Rightarrow> bool" where
  "accounts_ok a \<longleftrightarrow> distinct (map u_id (users a)) \<and> distinct (map u_email (users a))
     \<and> list_all (\<lambda>i. i < next_user a) (map u_id (users a))"

text \<open>The writes, as they can follow each other from any requests.\<close>

datatype account_op =
    Register int ustr ustr
  | RegisterBare int ustr
  | SetPassword int ustr
  | ChangeWrite int ustr
  | ResetPassword int ustr

fun apply_op :: "(ustr \<Rightarrow> ustr) \<Rightarrow> (ustr \<Rightarrow> ustr) \<Rightarrow> account_op \<Rightarrow> accounts \<Rightarrow> accounts" where
  "apply_op to_lower pw_hash (Register now email p) a = snd (register to_lower pw_hash now email p a)"
| "apply_op to_lower pw_hash (RegisterBare now email) a = snd (register_without_password to_lower now email a)"
| "apply_op to_lower pw_hash (SetPassword uid p) a = snd (set_password pw_hash uid p a)"
| "apply_op to_lower pw_hash (ChangeWrite uid p) a = change_write pw_hash uid p a"
| "apply_op to_lower pw_hash (ResetPassword uid p) a = snd (reset_password pw_hash uid p a)"

fun wrote :: "(ustr \<Rightarrow> ustr) \<Rightarrow> int \<Rightarrow> account_op \<Rightarrow> accounts \<Rightarrow> bool" where
  "wrote pw_hash uid (SetPassword u p) a = (u = uid \<and> fst (set_password pw_hash u p a) = None)"
| "wrote pw_hash uid (ChangeWrite u p) a = (u = uid)"
| "wrote pw_hash uid (ResetPassword u p) a = (u = uid \<and> fst (reset_password pw_hash u p a) = None)"
| "wrote pw_hash uid _ a = False"

fun run_ops :: "(ustr \<Rightarrow> ustr) \<Rightarrow> (ustr \<Rightarrow> ustr) \<Rightarrow> account_op list \<Rightarrow> accounts \<Rightarrow> accounts" where
  "run_ops to_lower pw_hash [] a = a"
| "run_ops to_lower pw_hash (op # ops) a = run_ops to_lower pw_hash ops (apply_op to_lower pw_hash op a)"

text \<open>Some write of the sequence replaces the user's password.\<close>

fun rewritten :: "(ustr \<Rightarrow> ustr) \<Rightarrow> (ustr \<Rightarrow> ustr) \<Rightarrow> int \<Rightarrow> account_op list \<Rightarrow> accounts \<Rightarrow> bool" where
  "rewritten to_lower pw_hash uid [] a = False"
| "rewritten to_lower pw_hash uid (op # ops) a =
     (wrote pw_hash uid op a \<or> rewritten to_lower pw_hash uid ops (apply_op to_lower pw_hash op a))"

lemma users_write [simp]:
  "map u_id (users (snd (write_password wh h a))) = map u_id (users a)"
  "map u_email (users (snd (write_password wh h a))) = map u_email (users a)"
  "next_user (snd (write_password wh h a)) = next_user a"
  by (simp_all add: write_password_def comp_def if_distrib [of u_id] if_distrib [of u_email] cong: if_cong)

lemma accounts_ok_write: "accounts_ok a \<Longrightarrow> accounts_ok (snd (write_password wh h a))"
  by (simp only: accounts_ok_def users_write)

lemma accounts_ok_insert: "accounts_ok a \<Longrightarrow> accounts_ok (snd (insert_user now email h a))"
  by (auto simp: insert_user_def accounts_ok_def Let_def user_by_email_def find_None_iff list_all_iff
      less_imp_neq)

lemma accounts_ok_step [inv_intros]: "accounts_ok a \<Longrightarrow> accounts_ok (apply_op to_lower pw_hash op a)"
  by (cases op) (auto simp: register_def register_without_password_def set_password_def change_write_def
      reset_password_def accounts_ok_insert accounts_ok_write case_prod_beta split: sum.splits)

lemma row_write:
  assumes "user_row_of uid a = Some r"
  shows "user_row_of uid (snd (write_password wh h a))
    = Some (if wh r then r\<lparr>u_hash := Some h, u_version := u_version r + 1\<rparr> else r)"
proof -
  have "find (\<lambda>r. u_id r = uid) (map (\<lambda>r. if wh r then r\<lparr>u_hash := Some h, u_version := u_version r + 1\<rparr> else r) rs)
      = map_option (\<lambda>r. if wh r then r\<lparr>u_hash := Some h, u_version := u_version r + 1\<rparr> else r)
          (find (\<lambda>r. u_id r = uid) rs)" for rs
    by (induction rs) auto
  then show ?thesis using assms by (simp add: user_row_of_def write_password_def)
qed

lemma row_found: "accounts_ok a \<Longrightarrow> user_row_of uid a = Some r \<Longrightarrow>
   list_ex (\<lambda>s. u_id s = uid \<and> Q s) (users a) \<longleftrightarrow> Q r"
proof -
  assume ok: "accounts_ok a" and r: "user_row_of uid a = Some r"
  have mem: "r \<in> set (users a)" "u_id r = uid" using r by (auto simp: user_row_of_def find_Some_iff)
  have "s = r" if "s \<in> set (users a)" "u_id s = uid" for s
    using ok mem that by (auto simp: accounts_ok_def distinct_map dest: inj_onD)
  then show ?thesis using mem unfolding list_ex_iff by blast
qed

lemma row_insert: "user_row_of uid a = Some r \<Longrightarrow> user_row_of uid (snd (insert_user now email h a)) = Some r"
proof -
  have "find P xs = Some x \<Longrightarrow> find P (xs @ ys) = Some x" for P xs ys and x :: user_row by (induction xs) auto
  then show "user_row_of uid a = Some r \<Longrightarrow> ?thesis" by (simp add: insert_user_def user_row_of_def Let_def)
qed

text \<open>One write leaves a row alone, or replaces its hash and bumps its version.\<close>

lemma row_step:
  assumes ok: "accounts_ok a" and r: "user_row_of uid a = Some r"
  shows "\<exists>r'. user_row_of uid (apply_op to_lower pw_hash op a) = Some r'
    \<and> u_version r' = (if wrote pw_hash uid op a then u_version r + 1 else u_version r)
    \<and> (wrote pw_hash uid op a \<or> r' = r)"
proof (cases op)
  case (SetPassword u p)
  show ?thesis
  proof (cases "validate_password p")
    case (Inr q)
    have "list_ex (\<lambda>s. u_id s = uid \<and> u_hash s = None) (users a) \<longleftrightarrow> u_hash r = None"
      by (rule row_found [OF ok r])
    moreover have "u_id r = uid" using r by (auto simp: user_row_of_def find_Some_iff)
    ultimately show ?thesis
      using row_write [OF r, of "\<lambda>s. u_id s = u \<and> u_hash s = None" "pw_hash q"] Inr
      by (auto simp: SetPassword set_password_def write_password_def)
  qed (use r in \<open>simp add: SetPassword set_password_def\<close>)
next
  case (ChangeWrite u p)
  have "u_id r = uid" using r by (auto simp: user_row_of_def find_Some_iff)
  then show ?thesis using row_write [OF r, of "\<lambda>s. u_id s = u" "pw_hash p"]
    by (auto simp: ChangeWrite change_write_def)
next
  case (ResetPassword u p)
  show ?thesis
  proof (cases "validate_password p")
    case (Inr q)
    have "list_ex (\<lambda>s. u_id s = uid \<and> True) (users a) \<longleftrightarrow> True" by (rule row_found [OF ok r])
    moreover have "u_id r = uid" using r by (auto simp: user_row_of_def find_Some_iff)
    ultimately show ?thesis using row_write [OF r, of "\<lambda>s. u_id s = u" "pw_hash q"] Inr
      by (auto simp: ResetPassword reset_password_def write_password_def)
  qed (use r in \<open>simp add: ResetPassword reset_password_def\<close>)
qed (use r in \<open>auto simp: register_def register_without_password_def row_insert split: sum.splits\<close>)

lemma row_run:
  assumes "accounts_ok a" and "user_row_of uid a = Some r"
  shows "\<exists>r'. user_row_of uid (run_ops to_lower pw_hash ops a) = Some r' \<and> u_version r \<le> u_version r'
    \<and> (if rewritten to_lower pw_hash uid ops a then u_version r < u_version r' else r' = r)"
  using assms
proof (induction ops arbitrary: a r)
  case (Cons op ops)
  obtain r1 where r1: "user_row_of uid (apply_op to_lower pw_hash op a) = Some r1"
    "u_version r1 = (if wrote pw_hash uid op a then u_version r + 1 else u_version r)"
    "wrote pw_hash uid op a \<or> r1 = r" using row_step [OF Cons.prems] by blast
  from Cons.IH [OF accounts_ok_step [OF Cons.prems(1)] r1(1)] show ?case using r1(2,3)
    by (auto split: if_splits)
qed simp

text \<open>
  C31: a session cookie dies with the password it was made under, and with nothing else before its
  time. Whatever writes to the accounts follow in whatever order, the cookie resolves to the user
  exactly while it has not expired and no write has replaced that user's password.
\<close>

theorem cookies_die_with_the_password:
  assumes "accounts_ok a" and "user_row_of uid a = Some r"
    and "create_session (Some sign) now uid (u_version r) = Inr cookie" and "hex_text sign"
  shows "resolve_session (Some sign) now' (Some cookie) (run_ops to_lower pw_hash ops a)
    = (if now' < now + SESSION_TTL \<and> \<not> rewritten to_lower pw_hash uid ops a
       then Accepted (user_view r) else Refused)"
proof -
  obtain r' where r': "user_row_of uid (run_ops to_lower pw_hash ops a) = Some r'"
    "if rewritten to_lower pw_hash uid ops a then u_version r < u_version r' else r' = r"
    using row_run [OF assms(1,2)] by blast
  then show ?thesis using session_round_trip [OF assms(3,4), of now']
    by (auto simp: resolve_session_def split: if_splits)
qed

definition demo_accounts :: accounts where
  "demo_accounts = \<lparr>users = [\<lparr>u_id = 1, u_email = lit ''a@b.c'', u_hash = Some (lit ''x''), u_version = 4,
     u_role = lit ''user'', u_created = 0\<rparr>], next_user = 2\<rparr>"

definition demo_cookie :: ustr where
  "demo_cookie = (case create_session (Some (\<lambda>_. lit ''00'')) 100 1 4 of Inr c \<Rightarrow> c | Inl _ \<Rightarrow> [])"

lemma demo_hex: "hex_text (\<lambda>_. lit ''00'')"
  by (simp add: hex_text_def lit_def)

lemma cookies_die_with_the_password_witness:
  "resolve_session (Some (\<lambda>_. lit ''00'')) 200 (Some demo_cookie)
     (run_ops (\<lambda>s. s) (\<lambda>p. p) [ChangeWrite 2 (lit ''new password'')] demo_accounts)
   = Accepted (1, lit ''a@b.c'', 0, 4, lit ''user'')
   \<and> resolve_session (Some (\<lambda>_. lit ''00'')) 200 (Some demo_cookie)
     (run_ops (\<lambda>s. s) (\<lambda>p. p) [ResetPassword 1 (lit ''new password'')] demo_accounts) = Refused"
proof -
  have ok: "accounts_ok demo_accounts" by (simp add: accounts_ok_def demo_accounts_def)
  obtain r where r: "user_row_of 1 demo_accounts = Some r" "u_version r = 4"
    "user_view r = (1, lit ''a@b.c'', 0, 4, lit ''user'')"
    by (simp add: user_row_of_def demo_accounts_def user_view_def)
  have c: "create_session (Some (\<lambda>_. lit ''00'')) 100 1 (u_version r) = Inr demo_cookie"
    by (simp add: demo_cookie_def create_session_def r(2) Let_def)
  note dies = cookies_die_with_the_password [OF ok r(1) c demo_hex]
  have "\<not> rewritten (\<lambda>s. s) (\<lambda>p. p) 1 [ChangeWrite 2 (lit ''new password'')] demo_accounts" by simp
  moreover have "rewritten (\<lambda>s. s) (\<lambda>p. p) 1 [ResetPassword 1 (lit ''new password'')] demo_accounts"
    by (simp add: reset_password_def validate_password_def MIN_PASSWORD_LEN_def write_password_def demo_accounts_def)
  ultimately show ?thesis
    unfolding dies by (simp del: rewritten.simps add: r(3) SESSION_TTL_def)
qed

text \<open>The documented behaviour of the password hasher: a hash verifies its password and no other.\<close>

definition sound_hasher :: "(ustr \<Rightarrow> ustr) \<Rightarrow> (ustr \<Rightarrow> ustr \<Rightarrow> bool) \<Rightarrow> bool" where
  "sound_hasher pw_hash pw_ok \<longleftrightarrow> (\<forall>p q. pw_hash p \<noteq> [] \<and> (pw_ok (pw_hash p) q \<longleftrightarrow> q = p))"

lemma create_session_version:
  "create_session (Some sign) now uid v = Inr cookie \<Longrightarrow> hex_text sign \<Longrightarrow>
   resolve_session (Some sign) now (Some cookie) a =
     (case user_row_of uid a of None \<Rightarrow> Refused
      | Some r \<Rightarrow> if u_version r = v then Accepted (user_view r) else Refused)"
  by (simp add: resolve_session_def session_round_trip SESSION_TTL_def split: option.splits)

text \<open>
  Setting or changing a password over the web takes effect at once and for that account only.
  It succeeds only with the current password where there is one, and with at least eight
  characters; afterwards the account signs in with the new password and no other, the browser that
  asked holds a valid cookie, and every other account is untouched.
\<close>

lemma password_change_takes_effect:
  assumes "auth_password pw_hash pw_ok (Some sign) now uid current new_password a = (Inr cookie, a')"
    and "accounts_ok a" and "user_row_of uid a = Some r"
    and "sound_hasher pw_hash pw_ok" and "hex_text sign"
  shows "(\<forall>h. u_hash r = Some h \<longrightarrow> pw_ok h current) \<and> 8 \<le> length new_password
    \<and> (\<forall>email q. normalize_email to_lower email = u_email r \<longrightarrow>
         authenticate to_lower pw_ok email q a' = (if q = new_password then Some (uid, u_email r) else None))
    \<and> (\<exists>v. resolve_session (Some sign) now (Some cookie) a' = Accepted v)
    \<and> (\<forall>u. u \<noteq> uid \<longrightarrow> user_row_of u a' = user_row_of u a)"
proof -
  have uid: "u_id r = uid" and mem: "r \<in> set (users a)" using assms(3) by (auto simp: user_row_of_def find_Some_iff)
  have valid: "validate_password p = Inr q \<longleftrightarrow> 8 \<le> length p \<and> q = p" for p q
    by (auto simp: validate_password_def MIN_PASSWORD_LEN_def)
  define wh where "wh = (\<lambda>s :: user_row. u_id s = uid \<and> (u_hash r = None \<longrightarrow> u_hash s = None))"
  have hp: "has_password uid a \<longleftrightarrow> u_hash r \<noteq> None" by (simp add: has_password_def assms(3))
  have long: "8 \<le> length new_password" and a': "a' = snd (write_password wh (pw_hash new_password) a)"
    and cur: "u_hash r = None \<or> verify_password pw_ok (u_hash r) current"
    using assms(1) valid hp
    by (auto simp: auth_password_def change_password_def set_password_def change_write_def check_current_def
        assms(3) wh_def split: if_splits sum.splits prod.splits option.splits)
  let ?r = "r\<lparr>u_hash := Some (pw_hash new_password), u_version := u_version r + 1\<rparr>"
  have row: "user_row_of uid a' = Some ?r"
    using row_write [OF assms(3), of wh] by (simp add: a' wh_def uid)
  have "user_row_of u a' = user_row_of u a" if "u \<noteq> uid" for u
  proof -
    have "find (\<lambda>r. u_id r = u) (map (\<lambda>s. if wh s then s\<lparr>u_hash := h, u_version := u_version s + 1\<rparr> else s) rs)
        = find (\<lambda>r. u_id r = u) rs" for rs h
      using that by (induction rs) (auto simp: wh_def)
    then show ?thesis by (simp add: a' user_row_of_def write_password_def)
  qed
  moreover have "authenticate to_lower pw_ok email q a' = (if q = new_password then Some (uid, u_email r) else None)"
    if "normalize_email to_lower email = u_email r" for email q
  proof -
    have ok: "accounts_ok a'" unfolding a' by (rule accounts_ok_write [OF assms(2)])
    have "?r \<in> set (users a')" using row by (auto simp: user_row_of_def find_Some_iff)
    moreover have "distinct (map u_email (users a'))" using ok by (simp add: accounts_ok_def)
    ultimately have "user_by_email (u_email r) a' = Some ?r"
      unfolding user_by_email_def by (subst find_key_iff) simp_all
    then show ?thesis using assms(4) uid by (simp add: authenticate_def that verify_password_def sound_hasher_def)
  qed
  moreover have "\<exists>v. resolve_session (Some sign) now (Some cookie) a' = Accepted v"
  proof -
    have "create_session (Some sign) now uid (u_version r + 1) = Inr cookie"
      using assms(1) row by (auto simp: auth_password_def split: option.splits prod.splits)
    from create_session_version [OF this assms(5), of a'] row show ?thesis by (simp del: split_paired_Ex)
  qed
  ultimately show ?thesis using long cur by (auto simp: verify_password_def)
qed

definition demo_hash :: "ustr \<Rightarrow> ustr" where
  "demo_hash p = 36 # p"

definition demo_verify :: "ustr \<Rightarrow> ustr \<Rightarrow> bool" where
  "demo_verify h p \<longleftrightarrow> h = 36 # p"

definition github_only :: accounts where
  "github_only = \<lparr>users = [\<lparr>u_id = 1, u_email = lit ''a@b.c'', u_hash = None, u_version = 4,
     u_role = lit ''user'', u_created = 0\<rparr>], next_user = 2\<rparr>"

lemma password_change_takes_effect_witness:
  "\<exists>cookie a'. auth_password demo_hash demo_verify (Some (\<lambda>_. lit ''00'')) 100 1 [] (lit ''new password'') github_only
      = (Inr cookie, a')
    \<and> authenticate (\<lambda>s. s) demo_verify (lit ''a@b.c'') (lit ''new password'') a' = Some (1, lit ''a@b.c'')
    \<and> authenticate (\<lambda>s. s) demo_verify (lit ''a@b.c'') (lit ''old'') a' = None"
proof -
  obtain cookie a' where eq: "auth_password demo_hash demo_verify (Some (\<lambda>_. lit ''00'')) 100 1 []
      (lit ''new password'') github_only = (Inr cookie, a')"
    by (simp add: auth_password_def has_password_def user_row_of_def github_only_def set_password_def
        validate_password_def MIN_PASSWORD_LEN_def write_password_def create_session_def Let_def)
  have "accounts_ok github_only" by (simp add: accounts_ok_def github_only_def)
  moreover obtain r where r: "user_row_of 1 github_only = Some r" "u_email r = lit ''a@b.c''"
    by (simp add: user_row_of_def github_only_def)
  moreover have "sound_hasher demo_hash demo_verify" by (auto simp: sound_hasher_def demo_hash_def demo_verify_def)
  moreover have "normalize_email (\<lambda>s. s) (lit ''a@b.c'') = lit ''a@b.c''"
    by (simp add: normalize_email_def) (rule not_space_strip, simp add: lit_def is_space_def)
  ultimately show ?thesis
    using password_change_takes_effect [OF eq _ r(1) _ demo_hex, of "\<lambda>s. s"] eq by simp
qed

section \<open>What the model shows\<close>

text \<open>
  A cookie that is authentic but stale, as every other browser holds after a password change, sends
  the browser in a circle: the member page refuses it and redirects to the login page, which looks
  at the signature only and redirects back.
\<close>

lemma stale_cookies_go_in_circles:
  assumes "verify_session mac now cookie = Accepted (uid, v)" and "user_row_of uid a = Some r" and "u_version r \<noteq> v"
    and "safe_next path = Some path"
  shows "member_page mac now cookie a path = ToLogin path" and "login_page mac now cookie path = Redirect path"
  using assms by (simp_all add: member_page_def login_page_def resolve_session_def)

lemma stale_cookies_go_in_circles_instance:
  "member_page (Some (\<lambda>_. lit ''00'')) 200 (Some demo_cookie)
     (run_ops (\<lambda>s. s) (\<lambda>p. p) [ResetPassword 1 (lit ''new password'')] demo_accounts) (lit ''/account'')
     = ToLogin (lit ''/account'')
   \<and> login_page (Some (\<lambda>_. lit ''00'')) 200 (Some demo_cookie) (lit ''/account'') = Redirect (lit ''/account'')"
proof -
  have c: "create_session (Some (\<lambda>_. lit ''00'')) 100 1 4 = Inr demo_cookie"
    by (simp add: demo_cookie_def create_session_def Let_def)
  have v: "verify_session (Some (\<lambda>_. lit ''00'')) 200 (Some demo_cookie) = Accepted (1, 4)"
    using session_round_trip [OF c demo_hex, of 200] by (simp add: SESSION_TTL_def)
  obtain r where r: "user_row_of 1 (run_ops (\<lambda>s. s) (\<lambda>p. p) [ResetPassword 1 (lit ''new password'')] demo_accounts)
      = Some r" "u_version r = 5"
    by (simp add: reset_password_def validate_password_def MIN_PASSWORD_LEN_def write_password_def demo_accounts_def
        user_row_of_def)
  have p: "safe_next (lit ''/account'') = Some (lit ''/account'')" by (simp add: safe_next_def lit_def)
  show ?thesis using stale_cookies_go_in_circles [OF v r(1) _ p] r(2) by simp
qed

text \<open>A target that browsers read as another host passes the same-origin test: \<open>/\evil.com\<close>.\<close>

lemma safe_next_lets_backslash_pass: "safe_next ([47, 92] @ host) = Some ([47, 92] @ host)"
  by (simp add: safe_next_def lit_def)

text \<open>
  A registration does not verify its address. Who registers somebody's address first keeps the
  password login after the owner of the address has signed in over GitHub: the identity is linked
  to the account that is there, and its password stays.
\<close>

lemma registered_first_keeps_access:
  assumes "get_by_email to_lower email a = Some r" and "account_ids_for (u_id r) (lit ''github'') ids = []"
    and "identity_user (lit ''github'') profile ids = None"
  shows "github_account to_lower now new_id profile (Some email) a ids
    = (SignedIn (u_id r) True, a, snd (link_identity new_id (u_id r) (lit ''github'') profile ids))"
  using assms by (simp add: github_account_def)

text \<open>A cookie that is not ASCII is not refused: the check raises.\<close>

lemma foreign_text_raises:
  "verify_session (Some (\<lambda>_. lit ''00'')) 0 (Some (lit ''v2.1.1.9.'' @ [233])) = Raises"
  by (simp add: verify_session_def is_ascii_def lit_def session_payload_def Let_def)

end
