(* ===== verification/Devices.thy ===== *)
theory Devices
  imports Accounts
begin

text \<open>
  Pairing a terminal with a logged-in browser (\<open>DeviceCodeStore\<close> in \<open>invincible/core/accounts.py\<close>), API
  keys and the lockout of login forms (\<open>ApiKeyStore\<close>, \<open>LoginRateLimiter\<close> in
  \<open>invincible/core/identity.py\<close>). Every method is one transaction; a poll reads its row first and takes
  the row lock with its first write, so that it is two steps here, and an error rolls its writes
  back. The clock counts whole seconds; \<open>hash\<close> is the hexadecimal SHA-256, \<open>to_upper\<close> is \<open>str.upper\<close>.
\<close>

definition DEVICE_CODE_TTL :: int where "DEVICE_CODE_TTL = 10 * 60"
definition DEFAULT_POLL_INTERVAL :: int where "DEFAULT_POLL_INTERVAL = 5"
definition FINGERPRINT_LENGTH :: nat where "FINGERPRINT_LENGTH = 8"

section \<open>Device codes\<close>

datatype device_status = Pending | Approved | Denied | Complete

record device_row =
  d_hash :: ustr
  d_user_code :: ustr
  d_subject :: "int option"
  d_status :: device_status
  d_interval :: int
  d_created :: int
  d_expires :: int
  d_last_poll :: "int option"
  d_resolved :: "int option"

definition fingerprint :: "(ustr \<Rightarrow> ustr) \<Rightarrow> ustr \<Rightarrow> ustr" where
  "fingerprint hash raw = take FINGERPRINT_LENGTH (hash raw)"

definition fingerprint_from_hash :: "ustr \<Rightarrow> ustr" where
  "fingerprint_from_hash stored = take FINGERPRINT_LENGTH stored"

definition sweep_devices :: "int \<Rightarrow> device_row list \<Rightarrow> device_row list" where
  "sweep_devices now rows = filter (\<lambda>r. \<not> d_expires r < now) rows"

text \<open>The loop that draws user codes until one is free; \<open>draws\<close> are the codes drawn.\<close>

definition free_code :: "ustr list \<Rightarrow> device_row list \<Rightarrow> ustr option" where
  "free_code draws rows = find (\<lambda>c. \<not> list_ex (\<lambda>r. d_user_code r = c) rows) draws"

text \<open>The hash is the primary key; inserting one that is there raises and rolls the sweep back.\<close>

definition create_device ::
  "int \<Rightarrow> int \<Rightarrow> int \<Rightarrow> ustr list \<Rightarrow> ustr \<Rightarrow> device_row list \<Rightarrow> (ustr \<times> device_row list) option" where
  "create_device now interval ttl draws h rows =
     (let swept = sweep_devices now rows in
      case free_code draws swept of
        None \<Rightarrow> None
      | Some user_code \<Rightarrow>
          if list_ex (\<lambda>r. d_hash r = h) swept then None
          else Some (user_code, swept @ [\<lparr>d_hash = h, d_user_code = user_code, d_subject = None,
             d_status = Pending, d_interval = interval, d_created = now, d_expires = now + ttl,
             d_last_poll = None, d_resolved = None\<rparr>]))"

definition get_by_user_code ::
  "(ustr \<Rightarrow> ustr) \<Rightarrow> int \<Rightarrow> ustr \<Rightarrow> device_row list \<Rightarrow> device_row option \<times> device_row list" where
  "get_by_user_code to_upper now user_code rows =
     (let swept = sweep_devices now rows in
      (case find (\<lambda>r. d_user_code r = to_upper (strip user_code)) swept of
         None \<Rightarrow> None
       | Some r \<Rightarrow> if d_status r \<noteq> Pending \<or> d_expires r \<le> now then None else Some r, swept))"

text \<open>The UPDATE of a pending row; user codes are unique.\<close>

definition resolve_device ::
  "ustr \<Rightarrow> (device_row \<Rightarrow> device_row) \<Rightarrow> device_row list \<Rightarrow> bool \<times> device_row list" where
  "resolve_device code upd rows =
     (let hit = (\<lambda>r. d_user_code r = code \<and> d_status r = Pending)
      in (list_ex hit rows, map (\<lambda>r. if hit r then upd r else r) rows))"

definition approve_device ::
  "(ustr \<Rightarrow> ustr) \<Rightarrow> int \<Rightarrow> ustr \<Rightarrow> int \<Rightarrow> device_row list \<Rightarrow> bool \<times> device_row list" where
  "approve_device to_upper now user_code subject rows = resolve_device (to_upper (strip user_code))
     (\<lambda>r. r\<lparr>d_status := Approved, d_subject := Some subject, d_resolved := Some now\<rparr>) rows"

definition deny_device :: "(ustr \<Rightarrow> ustr) \<Rightarrow> int \<Rightarrow> ustr \<Rightarrow> device_row list \<Rightarrow> bool \<times> device_row list" where
  "deny_device to_upper now user_code rows = resolve_device (to_upper (strip user_code))
     (\<lambda>r. r\<lparr>d_status := Denied, d_resolved := Some now\<rparr>) rows"

datatype poll_result = PollError account_error | StillPending int int | Claimed int

definition poll_read :: "ustr \<Rightarrow> device_row list \<Rightarrow> device_row option" where
  "poll_read h rows = find (\<lambda>r. d_hash r = h) rows"

definition touch_poll :: "ustr \<Rightarrow> int \<Rightarrow> device_row list \<Rightarrow> device_row list" where
  "touch_poll h now rows = map (\<lambda>r. if d_hash r = h then r\<lparr>d_last_poll := Some now\<rparr> else r) rows"

definition claim_device :: "ustr \<Rightarrow> device_row list \<Rightarrow> int option option \<times> device_row list" where
  "claim_device h rows =
     (let hit = (\<lambda>r. d_hash r = h \<and> d_status r = Approved)
      in (map_option d_subject (find hit rows),
          map (\<lambda>r. if hit r then r\<lparr>d_status := Complete\<rparr> else r) rows))"

text \<open>The statements after the read, as they run.\<close>

definition poll_body :: "int \<Rightarrow> ustr \<Rightarrow> device_row option \<Rightarrow> device_row list \<Rightarrow> poll_result \<times> device_row list" where
  "poll_body now h row rows = (case row of
       None \<Rightarrow> (PollError UnknownCode, rows)
     | Some r \<Rightarrow>
         if d_expires r \<le> now then (PollError CodeExpired, filter (\<lambda>r. d_hash r \<noteq> h) rows)
         else if (case d_last_poll r of Some before \<Rightarrow> now - before < d_interval r | None \<Rightarrow> False) then
           (PollError (SlowDown (max (d_interval r) DEFAULT_POLL_INTERVAL)), touch_poll h now rows)
         else let touched = touch_poll h now rows in
           (case d_status r of
              Denied \<Rightarrow> (PollError AccessDenied, touched)
            | Complete \<Rightarrow> (PollError AlreadyClaimed, touched)
            | Pending \<Rightarrow> (StillPending (d_interval r) (max 0 (d_expires r - now)), touched)
            | Approved \<Rightarrow> (case claim_device h touched of
                 (Some (Some uid), claimed) \<Rightarrow> (Claimed uid, claimed)
               | (_, claimed) \<Rightarrow> (PollError AlreadyClaimed, claimed))))"

text \<open>\<open>engine.begin()\<close> commits on a normal exit and rolls back on an exception.\<close>

definition in_transaction :: "device_row list \<Rightarrow> poll_result \<times> device_row list \<Rightarrow> poll_result \<times> device_row list" where
  "in_transaction before outcome = (case outcome of
       (PollError e, after) \<Rightarrow> (PollError e, before)
     | (r, after) \<Rightarrow> (r, after))"

definition poll_act :: "int \<Rightarrow> ustr \<Rightarrow> device_row option \<Rightarrow> device_row list \<Rightarrow> poll_result \<times> device_row list" where
  "poll_act now h row rows = in_transaction rows (poll_body now h row rows)"

section \<open>API keys\<close>

record key_row =
  k_id :: int
  k_user :: int
  k_label :: ustr
  k_hash :: ustr
  k_prefix :: ustr
  k_created :: int
  k_used :: "int option"
  k_revoked :: "int option"

record key_table =
  keys :: "key_row list"
  next_key :: int

definition API_KEY_PREFIX :: ustr where "API_KEY_PREFIX = lit ''inv_''"

definition generate_api_key :: "(ustr \<Rightarrow> ustr) \<Rightarrow> ustr \<Rightarrow> ustr \<times> ustr \<times> ustr" where
  "generate_api_key hash token =
     (let raw = API_KEY_PREFIX @ token in (raw, hash raw, take (length API_KEY_PREFIX + 8) raw))"

text \<open>The hash is unique; a second key with the same hash raises. The sequence advances all the same.\<close>

definition create_key ::
  "(ustr \<Rightarrow> ustr) \<Rightarrow> int \<Rightarrow> ustr \<Rightarrow> int \<Rightarrow> ustr \<Rightarrow> key_table \<Rightarrow> (int \<times> ustr) option \<times> key_table" where
  "create_key hash now token user label t =
     (case generate_api_key hash token of (raw, h, prefix) \<Rightarrow>
        let t1 = t\<lparr>next_key := next_key t + 1\<rparr> in
        if list_ex (\<lambda>k. k_hash k = h) (keys t) then (None, t1)
        else (Some (next_key t, raw),
              t1\<lparr>keys := keys t @ [\<lparr>k_id = next_key t, k_user = user, k_label = label, k_hash = h,
                 k_prefix = prefix, k_created = now, k_used = None, k_revoked = None\<rparr>]\<rparr>))"

definition find_live_key :: "(ustr \<Rightarrow> ustr) \<Rightarrow> ustr \<Rightarrow> key_table \<Rightarrow> key_row option" where
  "find_live_key hash raw t =
     (if is_prefix API_KEY_PREFIX raw
      then find (\<lambda>k. k_hash k = hash raw \<and> k_revoked k = None) (keys t) else None)"

definition touch_key :: "int \<Rightarrow> int \<Rightarrow> key_table \<Rightarrow> key_table" where
  "touch_key now kid t = t\<lparr>keys := map (\<lambda>k. if k_id k = kid then k\<lparr>k_used := Some now\<rparr> else k) (keys t)\<rparr>"

text \<open>\<open>resolve\<close>; \<open>touched\<close> is false when the best-effort write of \<open>last_used_at\<close> failed.\<close>

definition resolve_key ::
  "(ustr \<Rightarrow> ustr) \<Rightarrow> int \<Rightarrow> bool \<Rightarrow> ustr \<Rightarrow> key_table \<Rightarrow> (int \<times> int \<times> ustr) option \<times> key_table" where
  "resolve_key hash now touched raw t = (case find_live_key hash raw t of
       None \<Rightarrow> (None, t)
     | Some k \<Rightarrow> (Some (k_id k, k_user k, k_prefix k), if touched then touch_key now (k_id k) t else t))"

text \<open>What \<open>list\<close> shows, newest first: no hashes.\<close>

definition list_keys :: "int option \<Rightarrow> key_table \<Rightarrow> (int \<times> int \<times> ustr \<times> ustr \<times> int \<times> int option \<times> int option) list" where
  "list_keys user t = map (\<lambda>k. (k_id k, k_user k, k_label k, k_prefix k, k_created k, k_used k, k_revoked k))
     (rev (sort_key k_id (filter (\<lambda>k. case user of None \<Rightarrow> True | Some u \<Rightarrow> k_user k = u) (keys t))))"

datatype key_ref = KeyId int | KeyPrefix ustr

fun key_matches :: "key_ref \<Rightarrow> key_row \<Rightarrow> bool" where
  "key_matches (KeyId i) k = (k_id k = i)"
| "key_matches (KeyPrefix p) k = (k_prefix k = p)"

definition revoke_key :: "int \<Rightarrow> key_ref \<Rightarrow> key_table \<Rightarrow> bool \<times> key_table" where
  "revoke_key now ref t =
     (let hit = (\<lambda>k. key_matches ref k \<and> k_revoked k = None)
      in (list_ex hit (keys t),
          t\<lparr>keys := map (\<lambda>k. if hit k then k\<lparr>k_revoked := Some now\<rparr> else k) (keys t)\<rparr>))"

text \<open>\<open>DELETE /api-keys/{id}\<close>: a key that is not the caller's is not found.\<close>

definition revoke_endpoint :: "int \<Rightarrow> int \<Rightarrow> int \<Rightarrow> key_table \<Rightarrow> bool option \<times> key_table" where
  "revoke_endpoint now caller kid t =
     (if list_ex (\<lambda>(i, _). i = kid) (list_keys (Some caller) t)
      then (case revoke_key now (KeyId kid) t of (r, t') \<Rightarrow> (Some r, t'))
      else (None, t))"

text \<open>A poll that claims mints the key in a transaction of its own.\<close>

definition mint_for_device ::
  "(ustr \<Rightarrow> ustr) \<Rightarrow> int \<Rightarrow> ustr \<Rightarrow> poll_result \<Rightarrow> key_table \<Rightarrow> (int \<times> ustr) option \<times> key_table" where
  "mint_for_device hash now token r t = (case r of
       Claimed uid \<Rightarrow> create_key hash now token uid (lit ''device-'' @ dec now) t
     | _ \<Rightarrow> (None, t))"

section \<open>Lockout\<close>

record attempt_row =
  at_ip :: ustr
  at_scope :: ustr
  at_start :: int
  at_count :: int

definition attempts_of :: "ustr \<Rightarrow> ustr \<Rightarrow> attempt_row list \<Rightarrow> attempt_row option" where
  "attempts_of ip scope rows = find (\<lambda>r. at_ip r = ip \<and> at_scope r = scope) rows"

definition drop_attempts :: "ustr \<Rightarrow> ustr \<Rightarrow> attempt_row list \<Rightarrow> attempt_row list" where
  "drop_attempts ip scope rows = filter (\<lambda>r. \<not> (at_ip r = ip \<and> at_scope r = scope)) rows"

definition window_expired :: "int \<Rightarrow> attempt_row \<Rightarrow> int \<Rightarrow> bool" where
  "window_expired window r now \<longleftrightarrow> window \<le> now - at_start r"

definition locked_out ::
  "int \<Rightarrow> int \<Rightarrow> int \<Rightarrow> ustr \<Rightarrow> ustr \<Rightarrow> attempt_row list \<Rightarrow> int option \<times> attempt_row list" where
  "locked_out max_attempts window now ip scope rows = (case attempts_of ip scope rows of
       None \<Rightarrow> (None, rows)
     | Some r \<Rightarrow>
         if window_expired window r now then (None, drop_attempts ip scope rows)
         else if at_count r < max_attempts then (None, rows)
         else (Some (window - (now - at_start r) + 1), rows))"

text \<open>
  The second statement of \<open>record_login_failure\<close>, from the row the first one read: a fresh window is an
  upsert, a running one an update to the count that was read plus one.
\<close>

definition failure_write ::
  "int \<Rightarrow> int \<Rightarrow> ustr \<Rightarrow> ustr \<Rightarrow> attempt_row option \<Rightarrow> attempt_row list \<Rightarrow> attempt_row list" where
  "failure_write window now ip scope existing rows =
     (let fresh = \<lparr>at_ip = ip, at_scope = scope, at_start = now, at_count = 1\<rparr>;
          mine = (\<lambda>r. at_ip r = ip \<and> at_scope r = scope)
      in case existing of
           Some e \<Rightarrow>
             if window_expired window e now
             then (if list_ex mine rows then map (\<lambda>r. if mine r then fresh else r) rows else rows @ [fresh])
             else map (\<lambda>r. if mine r then r\<lparr>at_count := at_count e + 1\<rparr> else r) rows
         | None \<Rightarrow> (if list_ex mine rows then map (\<lambda>r. if mine r then fresh else r) rows else rows @ [fresh]))"

definition record_login_failure :: "int \<Rightarrow> int \<Rightarrow> ustr \<Rightarrow> ustr \<Rightarrow> attempt_row list \<Rightarrow> attempt_row list" where
  "record_login_failure window now ip scope rows = failure_write window now ip scope (attempts_of ip scope rows) rows"

section \<open>Runs\<close>

text \<open>
  The events of the pairing service, newest first: a start with its fresh hash, an approval or
  denial with the hash of the row it hit, an answered poll. \<open>flights\<close> are polls between their read and
  their first write; requests interleave at will.
\<close>

datatype device_event =
    Started ustr ustr int int
  | Approval ustr int int
  | Denial ustr int
  | Polled ustr int poll_result

definition pending_hashes :: "ustr \<Rightarrow> device_row list \<Rightarrow> ustr list" where
  "pending_hashes code rows = map d_hash (filter (\<lambda>r. d_user_code r = code \<and> d_status r = Pending) rows)"

inductive device_run :: "(ustr \<Rightarrow> ustr) \<Rightarrow> device_event list \<Rightarrow> device_row list
    \<Rightarrow> (int \<times> ustr \<times> device_row option) list \<Rightarrow> bool" for to_upper where
  start: "device_run to_upper [] [] []"
| create: "device_run to_upper tr rows fls \<Longrightarrow> create_device now interval ttl draws h rows = Some (uc, rows')
    \<Longrightarrow> (\<forall>uc now ttl. Started h uc now ttl \<notin> set tr)
    \<Longrightarrow> device_run to_upper (Started h uc now ttl # tr) rows' fls"
| look: "device_run to_upper tr rows fls \<Longrightarrow> get_by_user_code to_upper now code rows = (r, rows')
    \<Longrightarrow> device_run to_upper tr rows' fls"
| approve: "device_run to_upper tr rows fls \<Longrightarrow> approve_device to_upper now code subject rows = (ok, rows')
    \<Longrightarrow> device_run to_upper
          (map (\<lambda>h. Approval h subject now) (pending_hashes (to_upper (strip code)) rows) @ tr) rows' fls"
| deny: "device_run to_upper tr rows fls \<Longrightarrow> deny_device to_upper now code rows = (ok, rows')
    \<Longrightarrow> device_run to_upper (map (\<lambda>h. Denial h now) (pending_hashes (to_upper (strip code)) rows) @ tr) rows' fls"
| read: "device_run to_upper tr rows fls
    \<Longrightarrow> device_run to_upper tr rows ((now, h, poll_read h rows) # fls)"
| act: "device_run to_upper tr rows fls \<Longrightarrow> (now, h, row) \<in> set fls \<Longrightarrow> poll_act now h row rows = (r, rows')
    \<Longrightarrow> device_run to_upper (Polled h now r # tr) rows' (remove1 (now, h, row) fls)"

fun claims :: "ustr \<Rightarrow> device_event \<Rightarrow> bool" where
  "claims h (Polled h' now (Claimed u)) = (h = h')"
| "claims h _ = False"

definition started :: "device_event list \<Rightarrow> device_row \<Rightarrow> bool" where
  "started tr r \<longleftrightarrow> (\<exists>now ttl. Started (d_hash r) (d_user_code r) now ttl \<in> set tr \<and> d_expires r = now + ttl)"

definition approved_by :: "device_event list \<Rightarrow> ustr \<Rightarrow> int \<Rightarrow> bool" where
  "approved_by tr h u \<longleftrightarrow> (\<exists>t. Approval h u t \<in> set tr)"

definition denied :: "device_event list \<Rightarrow> ustr \<Rightarrow> bool" where
  "denied tr h \<longleftrightarrow> (\<exists>t. Denial h t \<in> set tr)"

definition begun :: "device_event list \<Rightarrow> ustr \<Rightarrow> bool" where
  "begun tr h \<longleftrightarrow> (\<exists>uc now ttl. Started h uc now ttl \<in> set tr)"

definition row_told :: "device_event list \<Rightarrow> device_row \<Rightarrow> bool" where
  "row_told tr r \<longleftrightarrow> started tr r
     \<and> (d_status r = Approved \<longrightarrow> (\<exists>u. d_subject r = Some u \<and> approved_by tr (d_hash r) u))
     \<and> (d_status r \<noteq> Complete \<longrightarrow> filter (claims (d_hash r)) tr = [])
     \<and> (d_status r \<noteq> Denied \<longrightarrow> \<not> denied tr (d_hash r))"

definition flight_told :: "device_event list \<Rightarrow> int \<times> ustr \<times> device_row option \<Rightarrow> bool" where
  "flight_told tr f \<longleftrightarrow> (case f of (now, h, row) \<Rightarrow>
     (case row of None \<Rightarrow> True | Some r \<Rightarrow> d_hash r = h \<and> started tr r))"

text \<open>Every claim of a trace, with what happened before it.\<close>

fun claims_founded :: "device_event list \<Rightarrow> bool" where
  "claims_founded [] = True"
| "claims_founded (e # tr) \<longleftrightarrow> claims_founded tr \<and> (case e of
       Polled h now (Claimed u) \<Rightarrow> filter (claims h) tr = [] \<and> \<not> denied tr h \<and> approved_by tr h u
         \<and> (\<exists>uc now0 ttl. Started h uc now0 ttl \<in> set tr \<and> now < now0 + ttl)
     | _ \<Rightarrow> True)"

definition device_inv :: "device_event list \<Rightarrow> device_row list \<Rightarrow> (int \<times> ustr \<times> device_row option) list \<Rightarrow> bool" where
  "device_inv tr rows fls \<longleftrightarrow> distinct (map d_hash rows) \<and> list_all (row_told tr) rows
     \<and> list_all (flight_told tr) fls \<and> claims_founded tr
     \<and> (\<forall>h. filter (claims h) tr \<noteq> [] \<longrightarrow> \<not> denied tr h)
     \<and> (\<forall>h. filter (claims h) tr \<noteq> [] \<or> denied tr h \<longrightarrow> begun tr h)"

lemma told_events [simp]:
  "started (e # tr) r \<longleftrightarrow> started tr r \<or>
     (\<exists>now ttl. e = Started (d_hash r) (d_user_code r) now ttl \<and> d_expires r = now + ttl)"
  "approved_by (e # tr) h u \<longleftrightarrow> approved_by tr h u \<or> (\<exists>t. e = Approval h u t)"
  "denied (e # tr) h \<longleftrightarrow> denied tr h \<or> (\<exists>t. e = Denial h t)"
  "begun (e # tr) h \<longleftrightarrow> begun tr h \<or> (\<exists>uc now ttl. e = Started h uc now ttl)"
  "\<not> started [] r" "\<not> approved_by [] h u" "\<not> denied [] h" "\<not> begun [] h"
  by (auto simp: started_def approved_by_def denied_def begun_def)

lemma told_many [simp]:
  "started (map (\<lambda>h. Approval h s now) hs @ tr) r = started tr r"
  "started (map (\<lambda>h. Denial h now) hs @ tr) r = started tr r"
  "approved_by (map (\<lambda>h. Approval h s now) hs @ tr) h u \<longleftrightarrow> approved_by tr h u \<or> (h \<in> set hs \<and> u = s)"
  "approved_by (map (\<lambda>h. Denial h now) hs @ tr) h u \<longleftrightarrow> approved_by tr h u"
  "denied (map (\<lambda>h. Approval h s now) hs @ tr) h \<longleftrightarrow> denied tr h"
  "denied (map (\<lambda>h. Denial h now) hs @ tr) h \<longleftrightarrow> denied tr h \<or> h \<in> set hs"
  "begun (map (\<lambda>h. Approval h s now) hs @ tr) h = begun tr h"
  "begun (map (\<lambda>h. Denial h now) hs @ tr) h = begun tr h"
  "filter (claims h) (map (\<lambda>h. Approval h s now) hs @ tr) = filter (claims h) tr"
  "filter (claims h) (map (\<lambda>h. Denial h now) hs @ tr) = filter (claims h) tr"
  "claims_founded (map (\<lambda>h. Approval h s now) hs @ tr) = claims_founded tr"
  "claims_founded (map (\<lambda>h. Denial h now) hs @ tr) = claims_founded tr"
  by (induction hs) auto

lemma distinct_hash_eq:
  "distinct (map d_hash rows) \<Longrightarrow> r \<in> set rows \<Longrightarrow> r' \<in> set rows \<Longrightarrow> d_hash r = d_hash r' \<Longrightarrow> r = r'"
  by (auto simp: distinct_map dest: inj_onD)

lemma find_SomeD: "find P xs = Some x \<Longrightarrow> x \<in> set xs \<and> P x"
  by (auto simp: find_Some_iff)

lemma inv_create:
  assumes inv: "device_inv tr rows fls" and made: "create_device now interval ttl draws h rows = Some (uc, rows')"
    and fresh: "\<forall>uc now ttl. Started h uc now ttl \<notin> set tr"
  shows "device_inv (Started h uc now ttl # tr) rows' fls"
proof -
  have quiet: "filter (claims h) tr = []" "\<not> denied tr h"
    using inv fresh by (auto simp: device_inv_def begun_def)
  obtain swept where rows': "rows' = swept @ [\<lparr>d_hash = h, d_user_code = uc, d_subject = None,
      d_status = Pending, d_interval = interval, d_created = now, d_expires = now + ttl,
      d_last_poll = None, d_resolved = None\<rparr>]" and swept: "swept = sweep_devices now rows" "h \<notin> d_hash ` set swept"
    using made by (auto simp: create_device_def Let_def list_ex_iff split: option.splits if_splits)
  have "distinct (map d_hash swept)" "list_all (row_told tr) swept"
    using inv by (auto simp: device_inv_def swept(1) sweep_devices_def distinct_map list_all_iff
        intro: inj_on_subset)
  moreover have "row_told (Started h uc now ttl # tr) r" if "row_told tr r" for r
    using that by (auto simp: row_told_def)
  moreover have "flight_told (Started h uc now ttl # tr) f" if "flight_told tr f" for f
    using that by (cases f) (auto simp: flight_told_def split: option.splits)
  ultimately have "list_all (row_told (Started h uc now ttl # tr)) rows'" "distinct (map d_hash rows')"
    "list_all (flight_told (Started h uc now ttl # tr)) fls"
    using inv quiet swept(2) by (auto simp: device_inv_def rows' list_all_iff) (simp add: row_told_def)
  then show ?thesis using inv quiet by (auto simp: device_inv_def)
qed

lemma inv_look:
  assumes "device_inv tr rows fls" and "get_by_user_code to_upper now code rows = (r, rows')"
  shows "device_inv tr rows' fls"
  using assms by (auto simp: device_inv_def get_by_user_code_def Let_def sweep_devices_def distinct_map
      list_all_iff intro: inj_on_subset)

lemma pending_hashes_iff:
  "distinct (map d_hash rows) \<Longrightarrow> r \<in> set rows \<Longrightarrow>
   d_hash r \<in> set (pending_hashes code rows) \<longleftrightarrow> d_user_code r = code \<and> d_status r = Pending"
  by (auto simp: pending_hashes_def dest: distinct_hash_eq)

lemma inv_approve:
  assumes inv: "device_inv tr rows fls" and did: "approve_device to_upper now code subject rows = (ok, rows')"
  shows "device_inv (map (\<lambda>h. Approval h subject now) (pending_hashes (to_upper (strip code)) rows) @ tr) rows' fls"
proof -
  let ?hs = "pending_hashes (to_upper (strip code)) rows"
  define upd where "upd r = (if d_user_code r = to_upper (strip code) \<and> d_status r = Pending
    then r\<lparr>d_status := Approved, d_subject := Some subject, d_resolved := Some now\<rparr> else r)" for r :: device_row
  have rows': "rows' = map upd rows"
    using did by (auto simp: approve_device_def resolve_device_def Let_def upd_def)
  have same: "started t (upd r) = started t r" for t r by (simp add: started_def upd_def)
  have d: "distinct (map d_hash rows)" using inv by (simp add: device_inv_def)
  have "row_told (map (\<lambda>h. Approval h subject now) ?hs @ tr) (upd r)" if "r \<in> set rows" for r
    using inv that pending_hashes_iff [OF d that, of "to_upper (strip code)"]
    by (auto simp: device_inv_def list_all_iff row_told_def same) (auto simp: upd_def)
  moreover have "d_hash \<circ> upd = d_hash" by (auto simp: upd_def fun_eq_iff)
  ultimately show ?thesis using inv
    by (auto simp: device_inv_def rows' list_all_iff flight_told_def split: option.splits)
qed

lemma inv_deny:
  assumes inv: "device_inv tr rows fls" and did: "deny_device to_upper now code rows = (ok, rows')"
  shows "device_inv (map (\<lambda>h. Denial h now) (pending_hashes (to_upper (strip code)) rows) @ tr) rows' fls"
proof -
  let ?hs = "pending_hashes (to_upper (strip code)) rows"
  define upd where "upd r = (if d_user_code r = to_upper (strip code) \<and> d_status r = Pending
    then r\<lparr>d_status := Denied, d_resolved := Some now\<rparr> else r)" for r :: device_row
  have rows': "rows' = map upd rows"
    using did by (auto simp: deny_device_def resolve_device_def Let_def upd_def)
  have same: "started t (upd r) = started t r" for t r by (simp add: started_def upd_def)
  have d: "distinct (map d_hash rows)" using inv by (simp add: device_inv_def)
  have told: "row_told tr r" if "r \<in> set rows" for r using inv that by (simp add: device_inv_def list_all_iff)
  have "row_told (map (\<lambda>h. Denial h now) ?hs @ tr) (upd r)" if "r \<in> set rows" for r
    using told [OF that] pending_hashes_iff [OF d that, of "to_upper (strip code)"]
    by (auto simp: row_told_def same) (auto simp: upd_def)
  moreover have "d_hash \<circ> upd = d_hash" by (auto simp: upd_def fun_eq_iff)
  moreover have "filter (claims h) tr = [] \<and> begun tr h" if "h \<in> set ?hs" for h
    using that told by (force simp: pending_hashes_def row_told_def started_def begun_def)
  ultimately show ?thesis using inv
    by (auto simp: device_inv_def rows' list_all_iff flight_told_def split: option.splits)
qed

text \<open>What the steps of a poll do to the rows.\<close>

lemma poll_act_cases:
  assumes "poll_act now h row rows = (r, rows')"
  obtains "rows' = rows" "\<And>u. r \<noteq> Claimed u"
  | "rows' = touch_poll h now rows" "\<And>u. r \<noteq> Claimed u"
  | q u where "row = Some q" "now < d_expires q" "r = Claimed u"
      "find (\<lambda>r. d_hash r = h \<and> d_status r = Approved) (touch_poll h now rows) \<noteq> None"
      "map_option d_subject (find (\<lambda>r. d_hash r = h \<and> d_status r = Approved) (touch_poll h now rows)) = Some (Some u)"
      "rows' = map (\<lambda>r. if d_hash r = h \<and> d_status r = Approved then r\<lparr>d_status := Complete\<rparr> else r)
         (touch_poll h now rows)"
proof (cases r)
  case (PollError e)
  then have "rows' = rows" using assms
    by (auto simp: poll_act_def in_transaction_def split: prod.splits poll_result.splits)
  then show ?thesis using that(1) PollError by simp
next
  case (StillPending i n)
  then have "poll_body now h row rows = (StillPending i n, rows')" using assms
    by (auto simp: poll_act_def in_transaction_def split: prod.splits poll_result.splits)
  then have "rows' = touch_poll h now rows"
    by (auto simp: poll_body_def Let_def split: option.splits if_splits device_status.splits prod.splits)
  then show ?thesis using that(2) StillPending by simp
next
  case (Claimed u)
  then have body: "poll_body now h row rows = (Claimed u, rows')" using assms
    by (auto simp: poll_act_def in_transaction_def split: prod.splits poll_result.splits)
  then obtain q where q: "row = Some q" "now < d_expires q" "d_status q = Approved"
    by (auto simp: poll_body_def Let_def split: option.splits if_splits device_status.splits prod.splits)
  then have "claim_device h (touch_poll h now rows) = (Some (Some u), rows')" using body
    by (auto simp: poll_body_def Let_def split: option.splits if_splits prod.splits)
  then show ?thesis using that(3) [OF q(1,2) Claimed] by (auto simp: claim_device_def Let_def)
qed

lemma touched_rows: "r \<in> set (touch_poll h now rows) \<Longrightarrow>
   \<exists>q \<in> set rows. d_hash r = d_hash q \<and> d_user_code r = d_user_code q \<and> d_expires r = d_expires q
     \<and> d_status r = d_status q \<and> d_subject r = d_subject q"
  by (auto simp: touch_poll_def)

lemma map_hash_touch [simp]: "map d_hash (touch_poll h now rows) = map d_hash rows"
  by (simp add: touch_poll_def comp_def if_distrib [of d_hash] cong: if_cong)

lemma told_touched:
  assumes "list_all (row_told tr) rows" shows "list_all (row_told tr) (touch_poll h now rows)"
proof -
  have "row_told tr r" if "r \<in> set (touch_poll h now rows)" for r
    using touched_rows [OF that] assms by (auto simp: row_told_def started_def list_all_iff)
  then show ?thesis by (simp add: list_all_iff)
qed

lemma told_polled:
  assumes "\<And>u. r \<noteq> Claimed u"
  shows "row_told (Polled h now r # tr) = row_told tr" "flight_told (Polled h now r # tr) = flight_told tr"
    "filter (claims k) (Polled h now r # tr) = filter (claims k) tr"
    "claims_founded (Polled h now r # tr) = claims_founded tr"
    "denied (Polled h now r # tr) k = denied tr k"
    "begun (Polled h now r # tr) k = begun tr k"
  using assms by (cases r; auto simp: row_told_def flight_told_def fun_eq_iff split: option.splits)+

lemma set_remove1: "list_all P xs \<Longrightarrow> list_all P (remove1 x xs)"
  by (auto simp: list_all_iff dest: notin_set_remove1)

lemma inv_act:
  assumes inv: "device_inv tr rows fls" and flight: "(now, h, row) \<in> set fls"
    and act: "poll_act now h row rows = (r, rows')"
  shows "device_inv (Polled h now r # tr) rows' (remove1 (now, h, row) fls)"
proof -
  have rest: "list_all (flight_told tr) (remove1 (now, h, row) fls)"
    using inv by (simp add: device_inv_def set_remove1)
  have touched: "distinct (map d_hash (touch_poll h now rows))" "list_all (row_told tr) (touch_poll h now rows)"
    using inv by (simp_all add: device_inv_def told_touched)
  show ?thesis using act
  proof (cases rule: poll_act_cases)
    case 1
    show ?thesis using inv rest unfolding device_inv_def told_polled [OF 1(2)] 1(1) by blast
  next
    case 2
    show ?thesis using inv rest touched unfolding device_inv_def told_polled [OF 2(2)] 2(1) by blast
  next
    case (3 q u)
    let ?rows = "touch_poll h now rows"
    define fin where "fin = (\<lambda>r :: device_row. if d_hash r = h \<and> d_status r = Approved then r\<lparr>d_status := Complete\<rparr> else r)"
    have rows': "rows' = map fin ?rows" using 3(6) by (simp add: fin_def)
    obtain p where "find (\<lambda>r. d_hash r = h \<and> d_status r = Approved) ?rows = Some p" "d_subject p = Some u"
      using 3(5) by auto
    then have p: "p \<in> set ?rows" "d_hash p = h" "d_status p = Approved" "d_subject p = Some u"
      by (auto dest: find_SomeD)
    then have "row_told tr p" using touched(2) by (simp add: list_all_iff)
    then have told: "approved_by tr h u" "filter (claims h) tr = []" "\<not> denied tr h" "started tr p"
      using p by (auto simp: row_told_def)
    have "flight_told tr (now, h, row)" using inv flight by (auto simp: device_inv_def list_all_iff)
    then have q: "started tr q" "d_hash q = h" using 3(1) by (simp_all add: flight_told_def)
    obtain uc n t where "Started h uc n t \<in> set tr" "d_expires q = n + t" using q by (auto simp: started_def)
    then have founded: "claims_founded (Polled h now r # tr)"
      using inv told 3(2,3) unfolding device_inv_def by simp blast
    have "row_told (Polled h now r # tr) (fin s)" if s: "s \<in> set ?rows" for s
    proof -
      have "row_told tr s" using s touched(2) by (simp add: list_all_iff)
      moreover have "s = p" if "d_hash s = h" using distinct_hash_eq [OF touched(1) s p(1)] that p(2) by simp
      ultimately show ?thesis using p(2,3) 3(3) by (auto simp: row_told_def fin_def started_def approved_by_def denied_def)
    qed
    then have "list_all (row_told (Polled h now r # tr)) rows'" by (simp add: rows' list_all_iff)
    moreover have "d_hash \<circ> fin = d_hash" by (auto simp: fin_def fun_eq_iff)
    then have "distinct (map d_hash rows')" using touched(1) by (simp add: rows')
    moreover have "flight_told (Polled h now r # tr) = flight_told tr"
      by (auto simp: flight_told_def fun_eq_iff split: option.splits)
    moreover have "begun tr h" using told(4) p(2) by (auto simp: started_def begun_def)
    then have "\<forall>k. filter (claims k) (Polled h now r # tr) \<noteq> [] \<longrightarrow> \<not> denied (Polled h now r # tr) k"
      "\<forall>k. filter (claims k) (Polled h now r # tr) \<noteq> [] \<or> denied (Polled h now r # tr) k
        \<longrightarrow> begun (Polled h now r # tr) k"
      using inv told(3) 3(3) by (auto simp: device_inv_def)
    ultimately show ?thesis using rest founded unfolding device_inv_def by simp
  qed
qed

lemma device_run_inv: "device_run to_upper tr rows fls \<Longrightarrow> device_inv tr rows fls"
proof (induction rule: device_run.induct)
  case start
  then show ?case by (simp add: device_inv_def)
next
  case (read tr rows fls now h)
  have "flight_told tr (now, h, poll_read h rows)"
    using read.IH by (auto simp: flight_told_def poll_read_def device_inv_def list_all_iff row_told_def find_Some_iff
        split: option.splits) 
  then show ?case using read.IH by (simp add: device_inv_def)
qed (blast intro: inv_create inv_look inv_approve inv_deny inv_act)+

lemma founded_claim:
  "claims_founded (pre @ Polled h now (Claimed u) # earlier) \<Longrightarrow>
   filter (claims h) earlier = [] \<and> \<not> denied earlier h \<and> approved_by earlier h u
   \<and> (\<exists>uc now0 ttl. Started h uc now0 ttl \<in> set earlier \<and> now < now0 + ttl)"
  by (induction pre) auto

lemma claims_once: "claims_founded tr \<Longrightarrow> length (filter (claims h) tr) \<le> 1"
proof (induction tr)
  case (Cons e tr)
  then show ?case by (cases "(h, e)" rule: claims.cases) auto
qed simp

text \<open>
  C32: a device code is worth one API key, for the account that approved it. However requests for
  codes, approvals, denials and polls interleave, a code is claimed at most once; the claim gives the
  user who approved this very request before, while it had not expired, and a request that is
  denied is never claimed.
\<close>

theorem device_codes_are_claimed_once:
  assumes "device_run to_upper tr rows fls"
  shows "length (filter (claims h) tr) \<le> 1
    \<and> (\<forall>later now u earlier. tr = later @ Polled h now (Claimed u) # earlier \<longrightarrow>
         approved_by earlier h u
         \<and> (\<exists>uc now0 ttl. Started h uc now0 ttl \<in> set earlier \<and> now < now0 + ttl))
    \<and> (denied tr h \<longrightarrow> filter (claims h) tr = [])"
proof -
  have inv: "device_inv tr rows fls" by (rule device_run_inv [OF assms])
  then have "claims_founded tr" by (simp add: device_inv_def)
  then show ?thesis using claims_once founded_claim inv unfolding device_inv_def by meson
qed

abbreviation demo_row :: "device_status \<Rightarrow> int option \<Rightarrow> int option \<Rightarrow> device_row" where
  "demo_row status subject resolved \<equiv> \<lparr>d_hash = lit ''h'', d_user_code = lit ''AB'', d_subject = subject,
     d_status = status, d_interval = 5, d_created = 0, d_expires = 600, d_last_poll = None, d_resolved = resolved\<rparr>"

definition demo_claim :: "device_event list" where
  "demo_claim = [Polled (lit ''h'') 20 (Claimed 7), Approval (lit ''h'') 7 10, Started (lit ''h'') (lit ''AB'') 0 600]"

lemma demo_run: "\<exists>rows fls. device_run (\<lambda>s. s) demo_claim rows fls"
proof -
  have made: "create_device 0 5 600 [lit ''AB''] (lit ''h'') [] = Some (lit ''AB'', [demo_row Pending None None])"
    by (simp add: create_device_def sweep_devices_def free_code_def Let_def)
  have strip: "strip (lit ''AB'') = lit ''AB''" by (rule not_space_strip) (simp add: lit_def is_space_def)
  have approved: "approve_device (\<lambda>s. s) 10 (lit ''AB'') 7 [demo_row Pending None None]
      = (True, [demo_row Approved (Some 7) (Some 10)])"
    by (simp add: approve_device_def resolve_device_def strip)
  note run1 = device_run.create [OF device_run.start [of "\<lambda>s. s"] made]
  have "device_run (\<lambda>s. s) [Started (lit ''h'') (lit ''AB'') 0 600] [demo_row Pending None None] []"
    using run1 by simp
  from device_run.approve [OF this approved]
  have "device_run (\<lambda>s. s) [Approval (lit ''h'') 7 10, Started (lit ''h'') (lit ''AB'') 0 600]
      [demo_row Approved (Some 7) (Some 10)] []" by (simp add: strip pending_hashes_def)
  from device_run.read [OF this, of 20 "lit ''h''"]
  have run2: "device_run (\<lambda>s. s) [Approval (lit ''h'') 7 10, Started (lit ''h'') (lit ''AB'') 0 600]
      [demo_row Approved (Some 7) (Some 10)] [(20, lit ''h'', Some (demo_row Approved (Some 7) (Some 10)))]"
    by (simp add: poll_read_def)
  obtain rows where "poll_act 20 (lit ''h'') (Some (demo_row Approved (Some 7) (Some 10)))
      [demo_row Approved (Some 7) (Some 10)] = (Claimed 7, rows)"
    by (simp add: poll_act_def in_transaction_def poll_body_def touch_poll_def claim_device_def Let_def)
  from device_run.act [OF run2 _ this] show ?thesis by (auto simp: demo_claim_def)
qed

lemma device_codes_are_claimed_once_witness:
  "length (filter (claims (lit ''h'')) demo_claim) = 1
   \<and> (\<exists>earlier. demo_claim = [] @ Polled (lit ''h'') 20 (Claimed 7) # earlier \<and> approved_by earlier (lit ''h'') 7)"
proof -
  obtain rows fls where run: "device_run (\<lambda>s. s) demo_claim rows fls" using demo_run by blast
  have split: "demo_claim = [] @ Polled (lit ''h'') 20 (Claimed 7) #
      [Approval (lit ''h'') 7 10, Started (lit ''h'') (lit ''AB'') 0 600]" by (simp add: demo_claim_def)
  from device_codes_are_claimed_once [OF run, of "lit ''h''"] split
  have "approved_by [Approval (lit ''h'') 7 10, Started (lit ''h'') (lit ''AB'') 0 600] (lit ''h'') 7" by blast
  then show ?thesis using split by (intro conjI) (simp_all add: demo_claim_def)
qed

text \<open>
  A poll that is answered with an error writes nothing: the time of a poll that came too soon is
  not kept, and the row of an expired code is not deleted, though the source has a statement for
  each before it raises.
\<close>

lemma refused_polls_are_rolled_back: "poll_act now h row rows = (PollError e, rows') \<Longrightarrow> rows' = rows"
  by (auto simp: poll_act_def in_transaction_def split: prod.splits poll_result.splits)

section \<open>The life of an API key\<close>

datatype key_op =
    MakeKey int ustr int ustr
  | UseKey int bool ustr
  | RevokeKey int key_ref

fun apply_key_op :: "(ustr \<Rightarrow> ustr) \<Rightarrow> key_op \<Rightarrow> key_table \<Rightarrow> key_table" where
  "apply_key_op hash (MakeKey now token user label) t = snd (create_key hash now token user label t)"
| "apply_key_op hash (UseKey now touched raw) t = snd (resolve_key hash now touched raw t)"
| "apply_key_op hash (RevokeKey now ref) t = snd (revoke_key now ref t)"

definition run_key_ops :: "(ustr \<Rightarrow> ustr) \<Rightarrow> key_op list \<Rightarrow> key_table \<Rightarrow> key_table" where
  "run_key_ops hash ops t = fold (apply_key_op hash) ops t"

definition api_keys_ok :: "key_table \<Rightarrow> bool" where
  "api_keys_ok t \<longleftrightarrow> distinct (map k_hash (keys t)) \<and> distinct (map k_id (keys t))
     \<and> (\<forall>i \<in> set (map k_id (keys t)). i < next_key t)"

fun revokes :: "int \<Rightarrow> ustr \<Rightarrow> key_op \<Rightarrow> bool" where
  "revokes i prefix (RevokeKey now (KeyId j)) = (i = j)"
| "revokes i prefix (RevokeKey now (KeyPrefix p)) = (prefix = p)"
| "revokes i prefix _ = False"

text \<open>What a key is and does not change, and whether it lives.\<close>

definition key_facts :: "key_row \<Rightarrow> int \<times> int \<times> ustr \<times> ustr" where
  "key_facts k = (k_id k, k_user k, k_hash k, k_prefix k)"

definition has_key :: "key_table \<Rightarrow> int \<times> int \<times> ustr \<times> ustr \<Rightarrow> bool \<Rightarrow> bool" where
  "has_key t facts live \<longleftrightarrow> (\<exists>k \<in> set (keys t). key_facts k = facts \<and> (k_revoked k = None \<longleftrightarrow> live))"

lemma api_keys_ok_map:
  assumes "api_keys_ok t" and "\<And>k. k_hash (f k) = k_hash k" and "\<And>k. k_id (f k) = k_id k"
  shows "api_keys_ok (t\<lparr>keys := map f (keys t)\<rparr>)"
proof -
  have "k_hash \<circ> f = k_hash" "k_id \<circ> f = k_id" using assms by (auto simp: fun_eq_iff)
  then show ?thesis using assms by (simp add: api_keys_ok_def)
qed

lemma has_key_map:
  "k \<in> set (keys t) \<Longrightarrow> key_facts (f k) = facts \<Longrightarrow> k_revoked (f k) = None \<longleftrightarrow> live \<Longrightarrow>
   has_key (t\<lparr>keys := map f (keys t)\<rparr>) facts live"
  by (auto simp: has_key_def)

lemma api_keys_ok_step: "api_keys_ok t \<Longrightarrow> api_keys_ok (apply_key_op hash op t)"
proof (cases op)
  case (MakeKey now token user label)
  assume ok: "api_keys_ok t"
  have less: "k_id k < next_key t" if "k \<in> set (keys t)" for k using ok that by (simp add: api_keys_ok_def)
  have "k_id k \<noteq> next_key t" if "k \<in> set (keys t)" for k using less [OF that] by simp
  then show ?thesis using ok
    by (auto simp: MakeKey create_key_def generate_api_key_def Let_def api_keys_ok_def list_ex_iff dest: less)
next
  case (UseKey now touched raw)
  assume "api_keys_ok t"
  then show ?thesis
    by (auto simp: UseKey resolve_key_def touch_key_def intro!: api_keys_ok_map split: option.splits)
next
  case (RevokeKey now ref)
  assume "api_keys_ok t"
  then show ?thesis by (auto simp: RevokeKey revoke_key_def Let_def intro!: api_keys_ok_map)
qed

lemma has_key_step:
  assumes "has_key t (i, u, h, p) live"
  shows "has_key (apply_key_op hash op t) (i, u, h, p) (live \<and> \<not> revokes i p op)"
proof -
  obtain k where k: "k \<in> set (keys t)" "k_id k = i" "k_user k = u" "k_hash k = h" "k_prefix k = p"
    "k_revoked k = None \<longleftrightarrow> live" using assms by (auto simp: has_key_def key_facts_def)
  show ?thesis
  proof (cases op)
    case (MakeKey now token user label)
    then show ?thesis using k by (auto simp: create_key_def generate_api_key_def Let_def has_key_def key_facts_def)
  next
    case (UseKey now touched raw)
    show ?thesis
    proof (cases "find_live_key hash raw t")
      case (Some j)
      then show ?thesis using assms has_key_map [OF k(1), of "\<lambda>k. if k_id k = k_id j then k\<lparr>k_used := Some now\<rparr> else k"] k
        by (simp add: UseKey resolve_key_def touch_key_def key_facts_def)
    qed (use assms in \<open>simp add: UseKey resolve_key_def\<close>)
  next
    case (RevokeKey now ref)
    let ?f = "\<lambda>k. if key_matches ref k \<and> k_revoked k = None then k\<lparr>k_revoked := Some now\<rparr> else k"
    have "key_matches ref k \<longleftrightarrow> revokes i p op" using k by (cases ref) (auto simp: RevokeKey)
    then have "key_facts (?f k) = (i, u, h, p) \<and> (k_revoked (?f k) = None \<longleftrightarrow> live \<and> \<not> revokes i p op)"
      using k by (auto simp: key_facts_def)
    then show ?thesis using has_key_map [OF k(1), of ?f] by (simp add: RevokeKey revoke_key_def Let_def)
  qed
qed

lemma key_run:
  "api_keys_ok t \<Longrightarrow> has_key t (i, u, h, p) live \<Longrightarrow>
   api_keys_ok (run_key_ops hash ops t)
   \<and> has_key (run_key_ops hash ops t) (i, u, h, p) (live \<and> \<not> list_ex (revokes i p) ops)"
proof (induction ops arbitrary: t live)
  case (Cons op ops)
  from Cons.IH [OF api_keys_ok_step [OF Cons.prems(1), of hash op] has_key_step [OF Cons.prems(2), of hash op]]
  show ?case by (simp add: run_key_ops_def)
qed (simp add: run_key_ops_def)

lemma live_key:
  assumes ok: "api_keys_ok t" and key: "has_key t (i, u, hash raw, p) live" and raw: "is_prefix API_KEY_PREFIX raw"
  shows "map_option (\<lambda>k. (k_id k, k_user k, k_prefix k)) (find_live_key hash raw t)
    = (if live then Some (i, u, p) else None)"
proof -
  obtain k where k: "k \<in> set (keys t)" "k_id k = i" "k_user k = u" "k_hash k = hash raw" "k_prefix k = p"
    "k_revoked k = None \<longleftrightarrow> live" using key by (auto simp: has_key_def key_facts_def)
  have inj: "inj_on k_hash (set (keys t))" using ok by (simp add: api_keys_ok_def distinct_map)
  have one: "j = k" if "j \<in> set (keys t)" "k_hash j = hash raw" for j
    using inj_onD [OF inj, of j k] that k by simp
  show ?thesis
  proof (cases "find (\<lambda>k. k_hash k = hash raw \<and> k_revoked k = None) (keys t)")
    case None
    then have "\<not> live" using k by (auto simp: find_None_iff)
    then show ?thesis using None raw by (simp add: find_live_key_def)
  next
    case (Some j)
    then have "j = k" "live" using one [of j] k by (auto dest: find_SomeD)
    then show ?thesis using Some raw k by (simp add: find_live_key_def)
  qed
qed

lemma prefix_append [simp]: "is_prefix p (p @ s)"
  by (induction p) auto

text \<open>
  An API key works from its creation until it is revoked, for its user and nobody else. Whatever
  keys are made, used and revoked afterwards, the raw value that was returned resolves to that key
  and that user exactly as long as neither its id nor its visible prefix has been revoked, and only
  its own user can revoke it through the web.
\<close>

lemma keys_work_until_revoked:
  assumes "api_keys_ok t" and "create_key hash now token user label t = (Some (i, raw), t1)"
  shows "fst (resolve_key hash later touched raw (run_key_ops hash ops t1))
      = (if list_ex (revokes i (take 12 raw)) ops then None else Some (i, user, take 12 raw))
    \<and> (\<forall>caller when. caller \<noteq> user \<longrightarrow>
         revoke_endpoint when caller i (run_key_ops hash ops t1) = (None, run_key_ops hash ops t1))"
proof -
  let ?t = "run_key_ops hash ops t1"
  have raw: "raw = API_KEY_PREFIX @ token" using assms(2)
    by (auto simp: create_key_def generate_api_key_def Let_def split: if_splits)
  have "has_key t1 (i, user, hash raw, take 12 raw) True"
    using assms(2) by (auto simp: create_key_def generate_api_key_def Let_def has_key_def key_facts_def
        API_KEY_PREFIX_def split: if_splits)
  moreover have "api_keys_ok t1" using api_keys_ok_step [OF assms(1), of hash "MakeKey now token user label"] assms(2) by simp
  ultimately have run: "api_keys_ok ?t" "has_key ?t (i, user, hash raw, take 12 raw) (\<not> list_ex (revokes i (take 12 raw)) ops)"
    using key_run [of t1 i user "hash raw" "take 12 raw" True hash ops] by auto
  have "fst (resolve_key hash later touched raw ?t) = (if list_ex (revokes i (take 12 raw)) ops then None
      else Some (i, user, take 12 raw))"
    using live_key [where hash = hash and raw = raw, OF run] by (auto simp: resolve_key_def raw split: option.splits if_splits)
  moreover have "revoke_endpoint when caller i ?t = (None, ?t)" if "caller \<noteq> user" for caller "when"
  proof -
    obtain k where k: "k \<in> set (keys ?t)" "k_id k = i" "k_user k = user"
      using run(2) by (auto simp: has_key_def key_facts_def)
    have inj: "inj_on k_id (set (keys ?t))" using run(1) by (simp add: api_keys_ok_def distinct_map)
    have "j = k" if "j \<in> set (keys ?t)" "k_id j = i" for j
      using inj_onD [OF inj, of j k] that k by simp
    then show ?thesis using that k(3) by (auto simp: revoke_endpoint_def list_keys_def list_ex_iff)
  qed
  ultimately show ?thesis by blast
qed

definition no_api_keys :: key_table where
  "no_api_keys = \<lparr>keys = [], next_key = 1\<rparr>"

lemma keys_work_until_revoked_witness:
  "\<exists>raw t1. create_key (\<lambda>s. s) 0 (lit ''12345678zz'') 7 [] no_api_keys = (Some (1, raw), t1)
     \<and> fst (resolve_key (\<lambda>s. s) 9 True raw (run_key_ops (\<lambda>s. s) [RevokeKey 5 (KeyId 2)] t1))
       = Some (1, 7, take 12 raw)"
proof -
  obtain raw t1 where eq: "create_key (\<lambda>s. s) 0 (lit ''12345678zz'') 7 [] no_api_keys = (Some (1, raw), t1)"
    by (simp add: create_key_def generate_api_key_def no_api_keys_def Let_def)
  have "api_keys_ok no_api_keys" by (simp add: api_keys_ok_def no_api_keys_def)
  from keys_work_until_revoked [OF this eq, of 9 True "[RevokeKey 5 (KeyId 2)]"] eq show ?thesis by auto
qed

section \<open>Counting failures\<close>

lemma attempts_write:
  assumes "attempts_of ip scope rows = Some r" and "\<not> window_expired window e now"
  shows "attempts_of ip scope (failure_write window now ip scope (Some e) rows) = Some (r\<lparr>at_count := at_count e + 1\<rparr>)"
proof -
  have "find (\<lambda>r. at_ip r = ip \<and> at_scope r = scope)
        (map (\<lambda>r. if at_ip r = ip \<and> at_scope r = scope then r\<lparr>at_count := c\<rparr> else r) xs)
      = map_option (\<lambda>r. r\<lparr>at_count := c\<rparr>) (find (\<lambda>r. at_ip r = ip \<and> at_scope r = scope) xs)" for c and xs :: "attempt_row list"
    by (induction xs) auto
  then show ?thesis using assms by (simp add: failure_write_def Let_def attempts_of_def)
qed

text \<open>Failures that follow each other in one window are counted, whatever their number.\<close>

lemma first_failure:
  "attempts_of ip scope rows = None \<Longrightarrow> attempts_of ip scope (record_login_failure window now ip scope rows)
   = Some \<lparr>at_ip = ip, at_scope = scope, at_start = now, at_count = 1\<rparr>"
proof -
  assume none: "attempts_of ip scope rows = None"
  have "find P (xs @ [x]) = (case find P xs of None \<Rightarrow> if P x then Some x else None | Some y \<Rightarrow> Some y)"
    for P xs and x :: attempt_row by (induction xs) auto
  moreover have "\<not> list_ex (\<lambda>r. at_ip r = ip \<and> at_scope r = scope) rows"
    using none by (auto simp: attempts_of_def find_None_iff list_ex_iff)
  ultimately show ?thesis using none
    by (simp add: record_login_failure_def failure_write_def Let_def) (simp add: attempts_of_def)
qed

lemma failures_count:
  "attempts_of ip scope rows = Some r \<Longrightarrow> list_all (\<lambda>t. t < at_start r + window) ts \<Longrightarrow>
   attempts_of ip scope (fold (\<lambda>t. record_login_failure window t ip scope) ts rows)
   = Some (r\<lparr>at_count := at_count r + int (length ts)\<rparr>)"
proof (induction ts arbitrary: rows r)
  case (Cons t ts)
  have "\<not> window_expired window r t" using Cons.prems(2) by (simp add: window_expired_def)
  from attempts_write [OF Cons.prems(1) this] Cons.prems
  have "attempts_of ip scope (record_login_failure window t ip scope rows) = Some (r\<lparr>at_count := at_count r + 1\<rparr>)"
    by (simp add: record_login_failure_def)
  from Cons.IH [OF this] Cons.prems(2) show ?case by simp
qed simp

text \<open>
  The lockout holds. After a first failure and more in its window that make at least the limit,
  all one after the other, the address is locked out of that form for the rest of the window and free
  again after it.
\<close>

lemma failures_lock_out:
  assumes "attempts_of ip scope rows = None" and "list_all (\<lambda>t. t < start + window) ts"
    and "max_attempts \<le> 1 + int (length ts)"
  shows "fst (locked_out max_attempts window now ip scope
      (fold (\<lambda>t. record_login_failure window t ip scope) (start # ts) rows))
    = (if now < start + window then Some (start + window - now + 1) else None)"
proof -
  have "attempts_of ip scope (fold (\<lambda>t. record_login_failure window t ip scope) (start # ts) rows)
      = Some \<lparr>at_ip = ip, at_scope = scope, at_start = start, at_count = 1 + int (length ts)\<rparr>"
    using failures_count [OF first_failure [OF assms(1), of window start], of window ts] assms(2) by simp
  then show ?thesis using assms(3) by (simp add: locked_out_def window_expired_def)
qed

lemma failures_lock_out_witness:
  "fst (locked_out 5 900 100 (lit ''1.2.3.4'') (lit ''auth-login'')
      (fold (\<lambda>t. record_login_failure 900 t (lit ''1.2.3.4'') (lit ''auth-login'')) (10 # [11, 12, 13, 14]) [])) = Some 811"
  using failures_lock_out [of "lit ''1.2.3.4''" "lit ''auth-login''" "[]" 10 900 "[11, 12, 13, 14]" 5 100]
  by (simp add: attempts_of_def)

text \<open>
  Two failures whose reads both come before their writes count as one: the count that is written
  is computed from the row that was read.
\<close>

lemma concurrent_failures_are_lost:
  assumes "attempts_of ip scope rows = Some e" and "\<not> window_expired window e now"
  shows "attempts_of ip scope (failure_write window now ip scope (Some e)
      (failure_write window now ip scope (Some e) rows)) = Some (e\<lparr>at_count := at_count e + 1\<rparr>)"
  using attempts_write [OF attempts_write [OF assms] assms(2)] by simp

end
