(* ===== verification/UrlSafety.thy ===== *)
theory UrlSafety
  imports Settings "HOL-Library.Word"
begin

unbundle bit_operations_syntax

text \<open>
  The guard against server-side request forgery (\<open>invincible/core/url_safety.py\<close>): a base URL a user
  typed is accepted when it is \<open>https\<close> and its host, as a literal or by every DNS answer, is outside the
  blocked networks. What it uses of the standard library is modelled: \<open>urlparse\<close> as far as scheme,
  user, password and host name (the versions that check bracketed hosts), \<open>ipaddress.ip_address\<close>.
  Parameters: \<open>nfkc_ok\<close>, the check of \<open>urlsplit\<close> that a network location with characters beyond ASCII
  does not normalize to one with another structure, and the answers of the resolver. Host names
  beyond ASCII are lower-cased only as far as \<open>lower\<close> goes.
\<close>

section \<open>Addresses\<close>

datatype ip = V4 "32 word" | V6 "128 word"

definition is_digit :: "int \<Rightarrow> bool" where
  "is_digit c \<longleftrightarrow> 48 \<le> c \<and> c \<le> 57"

definition octet :: "ustr \<Rightarrow> int option" where
  "octet s =
     (if s = [] \<or> \<not> list_all is_digit s \<or> 3 < length s \<or> (s \<noteq> [48] \<and> hd s = 48) then None
      else let v = fold (\<lambda>c a. 10 * a + (c - 48)) s 0 in if 255 < v then None else Some v)"

definition parse_v4 :: "ustr \<Rightarrow> int option" where
  "parse_v4 s = (case map octet (split_on 46 s) of
       [Some a, Some b, Some c, Some d] \<Rightarrow> Some (((a * 256 + b) * 256 + c) * 256 + d)
     | _ \<Rightarrow> None)"

definition hex_value :: "int \<Rightarrow> int option" where
  "hex_value c = (if is_digit c then Some (c - 48)
     else if 97 \<le> c \<and> c \<le> 102 then Some (c - 87)
     else if 65 \<le> c \<and> c \<le> 70 then Some (c - 55) else None)"

definition hextet :: "ustr \<Rightarrow> int option" where
  "hextet s = (if s = [] \<or> 4 < length s \<or> list_ex (\<lambda>c. hex_value c = None) s then None
     else Some (fold (\<lambda>c a. 16 * a + the (hex_value c)) s 0))"

fun all_some :: "'a option list \<Rightarrow> 'a list option" where
  "all_some [] = Some []"
| "all_some (None # xs) = None"
| "all_some (Some x # xs) = map_option ((#) x) (all_some xs)"

definition groups_value :: "int list \<Rightarrow> int" where
  "groups_value gs = fold (\<lambda>g a. 65536 * a + g) gs 0"

text \<open>
  The parts between the colons; a dotted quad at the end stands for two groups. \<open>empties\<close> are the
  positions of empty parts that are neither first nor last: one is the omission, more are an error.
\<close>

definition v6_groups :: "ustr list \<Rightarrow> int list option" where
  "v6_groups parts =
     (let n = length parts;
          empties = filter (\<lambda>i. parts ! i = []) [1..<n - 1]
      in if 9 < n then None
         else case empties of
           [] \<Rightarrow>
             if n \<noteq> 8 \<or> hd parts = [] \<or> last parts = [] then None
             else all_some (map hextet parts)
         | [skip] \<Rightarrow>
             let hi0 = skip; lo0 = n - skip - 1;
                 hi = (if hd parts = [] then hi0 - 1 else hi0);
                 lo = (if last parts = [] then lo0 - 1 else lo0)
             in if (hd parts = [] \<and> hi \<noteq> 0) \<or> (last parts = [] \<and> lo \<noteq> 0) \<or> 8 < hi + lo + 1 then None
                else (case (all_some (map hextet (take hi parts)), all_some (map hextet (drop (n - lo) parts))) of
                    (Some hs, Some ls) \<Rightarrow> Some (hs @ replicate (8 - (hi + lo)) 0 @ ls)
                  | _ \<Rightarrow> None)
         | _ \<Rightarrow> None)"

definition hex_nat_text :: "int \<Rightarrow> ustr" where
  "hex_nat_text v = (let d = (\<lambda>x. if x < 10 then 48 + x else 87 + x)
     in dropWhile ((=) 48) [d (v div 4096 mod 16), d (v div 256 mod 16), d (v div 16 mod 16)] @ [d (v mod 16)])"

definition parse_v6_text :: "ustr \<Rightarrow> int option" where
  "parse_v6_text s =
     (let parts = split_on 58 s in
      if s = [] \<or> length parts < 3 then None
      else if 46 \<in> set (last parts) then
        (case parse_v4 (last parts) of
           None \<Rightarrow> None
         | Some v \<Rightarrow> map_option groups_value
             (v6_groups (butlast parts @ [hex_nat_text (v div 65536), hex_nat_text (v mod 65536)])))
      else map_option groups_value (v6_groups parts))"

definition parse_v6 :: "ustr \<Rightarrow> int option" where
  "parse_v6 s = (case split_on 37 s of
       [addr] \<Rightarrow> parse_v6_text addr
     | [addr, scope] \<Rightarrow> if scope = [] then None else parse_v6_text addr
     | _ \<Rightarrow> None)"

definition ip_address :: "ustr \<Rightarrow> ip option" where
  "ip_address s =
     (if 47 \<in> set s then None
      else case parse_v4 s of
        Some v \<Rightarrow> Some (V4 (word_of_int v))
      | None \<Rightarrow> map_option (\<lambda>v. V6 (word_of_int v)) (parse_v6 s))"

section \<open>Blocked networks\<close>

text \<open>A network is its address and the number of host bits, 32 or 128 less the prefix length.\<close>

definition in_network :: "'a::len word \<Rightarrow> 'a word \<times> nat \<Rightarrow> bool" where
  "in_network w net \<longleftrightarrow> w AND NOT (mask (snd net)) = fst net"

definition BLOCKED_V4_NETWORKS :: "(32 word \<times> nat) list" where
  "BLOCKED_V4_NETWORKS =
     [(0x00000000, 24), (0x0A000000, 24), (0x64400000, 22), (0x7F000000, 24), (0xA9FE0000, 16),
      (0xAC100000, 20), (0xC0A80000, 16), (0xE0000000, 28)]"

definition BLOCKED_V6_NETWORKS :: "(128 word \<times> nat) list" where
  "BLOCKED_V6_NETWORKS =
     [(0, 0), (1, 0), (0xFC000000000000000000000000000000, 121),
      (0xFE800000000000000000000000000000, 118), (0xFF000000000000000000000000000000, 120)]"

definition ipv4_mapped :: "128 word \<Rightarrow> 32 word option" where
  "ipv4_mapped w = (if drop_bit 32 w = 0xFFFF then Some (ucast w) else None)"

fun is_blocked :: "ip \<Rightarrow> bool" where
  "is_blocked (V4 w) = list_ex (in_network w) BLOCKED_V4_NETWORKS"
| "is_blocked (V6 w) = (case ipv4_mapped w of
       Some m \<Rightarrow> list_ex (in_network m) BLOCKED_V4_NETWORKS
     | None \<Rightarrow> list_ex (in_network w) BLOCKED_V6_NETWORKS)"

section \<open>urlparse\<close>

definition cut_at :: "(int \<Rightarrow> bool) \<Rightarrow> ustr \<Rightarrow> ustr \<times> ustr" where
  "cut_at P s = (takeWhile (\<lambda>c. \<not> P c) s, dropWhile (\<lambda>c. \<not> P c) s)"

text \<open>\<open>partition\<close> and \<open>rpartition\<close> at a character: the parts, and whether it occurs.\<close>

definition url_partition_at :: "int \<Rightarrow> ustr \<Rightarrow> ustr \<times> bool \<times> ustr" where
  "url_partition_at d s = (takeWhile (\<lambda>c. c \<noteq> d) s, d \<in> set s, tl (dropWhile (\<lambda>c. c \<noteq> d) s))"

definition rpartition_at :: "int \<Rightarrow> ustr \<Rightarrow> ustr \<times> bool \<times> ustr" where
  "rpartition_at d s =
     (if d \<in> set s then (case url_partition_at d (rev s) of (after, _, before) \<Rightarrow> (rev before, True, rev after))
      else ([], False, s))"

definition scheme_char :: "int \<Rightarrow> bool" where
  "scheme_char c \<longleftrightarrow> (97 \<le> c \<and> c \<le> 122) \<or> (65 \<le> c \<and> c \<le> 90) \<or> is_digit c \<or> c = 43 \<or> c = 45 \<or> c = 46"

definition is_letter :: "int \<Rightarrow> bool" where
  "is_letter c \<longleftrightarrow> (97 \<le> c \<and> c \<le> 122) \<or> (65 \<le> c \<and> c \<le> 90)"

definition clean_url :: "ustr \<Rightarrow> ustr" where
  "clean_url url = filter (\<lambda>c. c \<notin> {9, 10, 13}) (dropWhile (\<lambda>c. 0 \<le> c \<and> c \<le> 32) url)"

text \<open>The scheme and the network location, and what a bracketed host must be.\<close>

definition split_scheme :: "ustr \<Rightarrow> ustr \<times> ustr" where
  "split_scheme url = (case url_partition_at 58 url of (before, found, after) \<Rightarrow>
     if found \<and> before \<noteq> [] \<and> is_letter (hd before) \<and> list_all scheme_char before then (lower before, after)
     else ([], url))"

definition network_location :: "ustr \<Rightarrow> ustr" where
  "network_location rest =
     (if is_prefix (lit ''//'') rest then fst (cut_at (\<lambda>c. c \<in> {47, 63, 35}) (drop 2 rest)) else [])"

definition future_host :: "ustr \<Rightarrow> bool" where
  "future_host h \<longleftrightarrow> (case url_partition_at 46 (tl h) of (version, found, addr) \<Rightarrow>
     found \<and> version \<noteq> [] \<and> list_all (\<lambda>c. hex_value c \<noteq> None) version \<and> addr \<noteq> [])"

definition bracketed_host_ok :: "ustr \<Rightarrow> bool" where
  "bracketed_host_ok h \<longleftrightarrow>
     (if is_prefix (lit ''v'') h then future_host h
      else (case ip_address h of Some (V6 w) \<Rightarrow> True | _ \<Rightarrow> False))"

definition brackets_ok :: "ustr \<Rightarrow> bool" where
  "brackets_ok netloc \<longleftrightarrow> (91 \<in> set netloc \<longleftrightarrow> 93 \<in> set netloc) \<and>
     (91 \<in> set netloc \<longrightarrow>
        (case url_partition_at 91 (snd (snd (rpartition_at 64 netloc))) of (before, open, bracketed) \<Rightarrow>
           if open then
             (case url_partition_at 93 bracketed of (h, _, port) \<Rightarrow>
                before = [] \<and> (port = [] \<or> hd port = 58) \<and> bracketed_host_ok h)
           else bracketed_host_ok (fst (url_partition_at 58 before))))"

record parsed_url =
  p_scheme :: ustr
  p_host :: ustr
  p_user :: ustr
  p_password :: ustr

text \<open>The attribute \<open>hostname\<close>: the zone of a scoped address keeps its case.\<close>

definition host_name :: "ustr \<Rightarrow> ustr" where
  "host_name netloc =
     (case url_partition_at 91 (snd (snd (rpartition_at 64 netloc))) of (before, open, bracketed) \<Rightarrow>
        let h = (if open then fst (url_partition_at 93 bracketed) else fst (url_partition_at 58 before))
        in (case url_partition_at 37 h of (name, found, zone) \<Rightarrow>
              lower name @ (if found then 37 # zone else [])))"

text \<open>\<open>None\<close> is a \<open>ValueError\<close>.\<close>

definition urlparse :: "(ustr \<Rightarrow> bool) \<Rightarrow> ustr \<Rightarrow> parsed_url option" where
  "urlparse nfkc_ok url =
     (case split_scheme (clean_url url) of (scheme, rest) \<Rightarrow>
        let netloc = network_location rest in
        if \<not> brackets_ok netloc \<or> \<not> nfkc_ok netloc then None
        else (case rpartition_at 64 netloc of (userinfo, have_info, _) \<Rightarrow>
          (case url_partition_at 58 userinfo of (user, have_password, password) \<Rightarrow>
             Some \<lparr>p_scheme = scheme, p_host = host_name netloc,
               p_user = (if have_info then user else []),
               p_password = (if have_info \<and> have_password then password else [])\<rparr>)))"

section \<open>validate_public_https_url\<close>

datatype url_error =
    EmptyUrl | NotHttps | NoHost | EmbedsCredentials | BlockedLiteral | NotPublicName | NoAnswer | BlockedAnswer
  | Escapes

datatype dns_lookup = Answers "ustr list" | LookupFails | LookupRaises

definition normal_host :: "ustr \<Rightarrow> ustr" where
  "normal_host h = lower (rev (dropWhile ((=) 46) (rev (strip h))))"

definition ends_with :: "ustr \<Rightarrow> ustr \<Rightarrow> bool" where
  "ends_with suffix s \<longleftrightarrow> is_prefix (rev suffix) (rev s)"

text \<open>
  The result is the error, if any. \<open>LookupFails\<close> is an \<open>OSError\<close> of the resolver; any other exception of it
  (\<open>getaddrinfo\<close> raises \<open>UnicodeError\<close> on a label it cannot encode), and the \<open>ValueError\<close> of \<open>urlparse\<close>,
  escape as they are.
\<close>

definition validate_public_https_url ::
  "(ustr \<Rightarrow> bool) \<Rightarrow> (ustr \<Rightarrow> dns_lookup) \<Rightarrow> ustr \<Rightarrow> url_error option" where
  "validate_public_https_url nfkc_ok resolve url =
     (if strip url = [] then Some EmptyUrl
      else case urlparse nfkc_ok (strip url) of
        None \<Rightarrow> Some Escapes
      | Some p \<Rightarrow>
          if p_scheme p \<noteq> lit ''https'' then Some NotHttps
          else if p_host p = [] then Some NoHost
          else if p_user p \<noteq> [] \<or> p_password p \<noteq> [] then Some EmbedsCredentials
          else let host = normal_host (p_host p) in
            (case ip_address host of
               Some literal \<Rightarrow> if is_blocked literal then Some BlockedLiteral else None
             | None \<Rightarrow>
                 if host = lit ''localhost'' \<or> ends_with (lit ''.localhost'') host \<or> 46 \<notin> set host
                 then Some NotPublicName
                 else (case resolve host of
                     LookupFails \<Rightarrow> Some NoAnswer
                   | LookupRaises \<Rightarrow> Some Escapes
                   | Answers answers \<Rightarrow>
                       if list_ex (\<lambda>a. case ip_address a of Some i \<Rightarrow> is_blocked i | None \<Rightarrow> False) answers
                       then Some BlockedAnswer else None)))"

section \<open>Networks as ranges\<close>

lemma masked_drop:
  fixes w net :: "'a::len word"
  assumes "take_bit n net = 0"
  shows "w AND NOT (mask n) = net \<longleftrightarrow> drop_bit n w = drop_bit n net"
proof
  assume "w AND NOT (mask n) = net"
  then show "drop_bit n w = drop_bit n net"
    by (auto simp: bit_eq_iff bit_and_iff bit_not_iff bit_mask_iff bit_drop_bit_eq dest: bit_imp_le_length)
next
  assume d: "drop_bit n w = drop_bit n net"
  have "bit (w AND NOT (mask n)) i = bit net i" if "i < LENGTH('a)" for i
  proof (cases "i < n")
    case True
    then have "\<not> bit net i" using assms by (metis bit_0_eq bit_take_bit_iff bot_apply bot_bool_def)
    then show ?thesis using True that by (simp add: bit_and_iff bit_not_iff bit_mask_iff)
  next
    case False
    have "bit (drop_bit n w) (i - n) = bit (drop_bit n net) (i - n)" using d by simp
    then show ?thesis using False that by (simp add: bit_drop_bit_eq bit_and_iff bit_not_iff bit_mask_iff)
  qed
  then show "w AND NOT (mask n) = net" by (intro bit_word_eqI)
qed

lemma in_network_div:
  "take_bit n net = 0 \<Longrightarrow> in_network w (net, n) \<longleftrightarrow> unat w div 2 ^ n = unat net div 2 ^ n"
proof -
  assume net: "take_bit n net = 0"
  have "drop_bit n w = drop_bit n net \<longleftrightarrow> unat w div 2 ^ n = unat net div 2 ^ n"
    by (simp only: word_unat_eq_iff unat_drop_bit_eq) (simp add: drop_bit_eq_div)
  then show ?thesis using masked_drop [OF net] by (simp add: in_network_def)
qed

definition quad :: "nat \<Rightarrow> nat \<Rightarrow> nat \<Rightarrow> nat \<Rightarrow> nat" where
  "quad a b c d = ((a * 256 + b) * 256 + c) * 256 + d"

text \<open>The addresses that must not be reached, in the dotted ranges of their registrations.\<close>

definition private_v4 :: "nat \<Rightarrow> bool" where
  "private_v4 n \<longleftrightarrow> n \<le> quad 0 255 255 255
     \<or> (quad 10 0 0 0 \<le> n \<and> n \<le> quad 10 255 255 255)
     \<or> (quad 100 64 0 0 \<le> n \<and> n \<le> quad 100 127 255 255)
     \<or> (quad 127 0 0 0 \<le> n \<and> n \<le> quad 127 255 255 255)
     \<or> (quad 169 254 0 0 \<le> n \<and> n \<le> quad 169 254 255 255)
     \<or> (quad 172 16 0 0 \<le> n \<and> n \<le> quad 172 31 255 255)
     \<or> (quad 192 168 0 0 \<le> n \<and> n \<le> quad 192 168 255 255)
     \<or> (quad 224 0 0 0 \<le> n \<and> n \<le> quad 239 255 255 255)"

text \<open>Unspecified, loopback, and by their leading bits unique local, link-local and multicast.\<close>

definition private_v6 :: "nat \<Rightarrow> bool" where
  "private_v6 n \<longleftrightarrow> n \<le> 1 \<or> n div 2 ^ 121 = 0x7E \<or> n div 2 ^ 118 = 0x3FA \<or> n div 2 ^ 120 = 0xFF"

fun public_ip :: "ip \<Rightarrow> bool" where
  "public_ip (V4 w) = (\<not> private_v4 (unat w))"
| "public_ip (V6 w) = (if unat w div 2 ^ 32 = 0xFFFF then \<not> private_v4 (unat w mod 2 ^ 32)
     else \<not> private_v6 (unat w))"

lemma div_range: "0 < m \<Longrightarrow> (n :: nat) div m = k \<longleftrightarrow> k * m \<le> n \<and> n < k * m + m"
proof -
  assume m: "0 < m"
  show ?thesis
  proof
    assume "n div m = k"
    then show "k * m \<le> n \<and> n < k * m + m" using m
      by (metis add.commute div_times_less_eq_dividend dividend_less_div_times)
  next
    assume "k * m \<le> n \<and> n < k * m + m"
    then show "n div m = k" by (intro div_nat_eqI) (simp_all add: mult.commute)
  qed
qed

lemma blocked_v4: "list_ex (in_network w) BLOCKED_V4_NETWORKS \<longleftrightarrow> private_v4 (unat w)"
proof -
  have n: "unat (0x0A000000 :: 32 word) = 0x0A000000" "unat (0x64400000 :: 32 word) = 0x64400000"
    "unat (0x7F000000 :: 32 word) = 0x7F000000" "unat (0xA9FE0000 :: 32 word) = 0xA9FE0000"
    "unat (0xAC100000 :: 32 word) = 0xAC100000" "unat (0xC0A80000 :: 32 word) = 0xC0A80000"
    "unat (0xE0000000 :: 32 word) = 0xE0000000" by simp_all
  have "list_ex (in_network w) BLOCKED_V4_NETWORKS \<longleftrightarrow> unat w div 2 ^ 24 = 0 \<or> unat w div 2 ^ 24 = 10
      \<or> unat w div 2 ^ 22 = 0x191 \<or> unat w div 2 ^ 24 = 127 \<or> unat w div 2 ^ 16 = 0xA9FE
      \<or> unat w div 2 ^ 20 = 0xAC1 \<or> unat w div 2 ^ 16 = 0xC0A8 \<or> unat w div 2 ^ 28 = 14"
    by (simp add: BLOCKED_V4_NETWORKS_def in_network_div n)
  also have "\<dots> \<longleftrightarrow> private_v4 (unat w)"
    by (simp only: div_range zero_less_power zero_less_numeral)
      (simp add: private_v4_def quad_def less_Suc_eq_le, linarith)
  finally show ?thesis .
qed

lemma blocked_v6: "list_ex (in_network w) BLOCKED_V6_NETWORKS \<longleftrightarrow> private_v6 (unat w)"
proof -
  have "unat (0xFC000000000000000000000000000000 :: 128 word) = 0xFC000000000000000000000000000000"
    "unat (0xFE800000000000000000000000000000 :: 128 word) = 0xFE800000000000000000000000000000"
    "unat (0xFF000000000000000000000000000000 :: 128 word) = 0xFF000000000000000000000000000000" by simp_all
  then have "list_ex (in_network w) BLOCKED_V6_NETWORKS \<longleftrightarrow> unat w = 0 \<or> unat w = 1
      \<or> unat w div 2 ^ 121 = 0x7E \<or> unat w div 2 ^ 118 = 0x3FA \<or> unat w div 2 ^ 120 = 0xFF"
    by (simp add: BLOCKED_V6_NETWORKS_def in_network_div)
  then show ?thesis by (auto simp: private_v6_def)
qed

lemma mapped_v6: "ipv4_mapped w = (if unat w div 2 ^ 32 = 0xFFFF then Some (ucast w) else None)"
  "unat (ucast (w :: 128 word) :: 32 word) = unat w mod 2 ^ 32"
proof -
  have "drop_bit 32 w = 0xFFFF \<longleftrightarrow> unat w div 2 ^ 32 = 0xFFFF"
    by (simp only: word_unat_eq_iff unat_drop_bit_eq) (simp add: drop_bit_eq_div)
  then show "ipv4_mapped w = (if unat w div 2 ^ 32 = 0xFFFF then Some (ucast w) else None)"
    by (simp only: ipv4_mapped_def)
  show "unat (ucast w :: 32 word) = unat w mod 2 ^ 32"
    by (simp add: unsigned_ucast_eq take_bit_eq_mod)
qed

lemma blocked_iff: "is_blocked i \<longleftrightarrow> \<not> public_ip i"
  by (cases i) (simp_all add: blocked_v4 blocked_v6 mapped_v6)

text \<open>The addresses an accepted host stands for: its own, or the answers that are addresses.\<close>

definition addresses :: "(ustr \<Rightarrow> dns_lookup) \<Rightarrow> ustr \<Rightarrow> ip list" where
  "addresses resolve host = (case ip_address host of
       Some i \<Rightarrow> [i]
     | None \<Rightarrow> (case resolve host of Answers as \<Rightarrow> List.map_filter ip_address as | _ \<Rightarrow> []))"

text \<open>
  C33: no URL that passes the guard leads into a private network. It is \<open>https\<close> without credentials,
  and every address its host stands for when it is checked, as a literal or by the resolver's
  answers, lies outside the ranges of this host, private use, shared carrier space, loopback, link-local
  and multicast, also when it is an IPv4 address dressed as IPv6; a name that only resolves inside (no
  dot, \<open>localhost\<close>) does not pass at all.
\<close>

theorem accepted_urls_are_public:
  assumes "validate_public_https_url nfkc_ok resolve url = None"
  shows "\<exists>p. urlparse nfkc_ok (strip url) = Some p \<and> p_scheme p = lit ''https'' \<and> p_user p = [] \<and> p_password p = []
    \<and> list_all public_ip (addresses resolve (normal_host (p_host p)))
    \<and> (ip_address (normal_host (p_host p)) = None \<longrightarrow>
         46 \<in> set (normal_host (p_host p)) \<and> (\<exists>as. resolve (normal_host (p_host p)) = Answers as))"
proof -
  obtain p where p: "urlparse nfkc_ok (strip url) = Some p" "p_scheme p = lit ''https''" "p_user p = []" "p_password p = []"
    using assms by (auto simp: validate_public_https_url_def split: if_splits option.splits)
  let ?h = "normal_host (p_host p)"
  have rest: "(case ip_address ?h of
      Some literal \<Rightarrow> \<not> is_blocked literal
    | None \<Rightarrow> 46 \<in> set ?h \<and> (case resolve ?h of Answers as \<Rightarrow>
        \<not> list_ex (\<lambda>a. case ip_address a of Some i \<Rightarrow> is_blocked i | None \<Rightarrow> False) as | _ \<Rightarrow> False))"
    using assms p by (auto simp: validate_public_https_url_def Let_def split: if_splits option.splits dns_lookup.splits)
  have "list_all public_ip (addresses resolve ?h)"
    using rest by (auto simp: addresses_def blocked_iff list_all_iff list_ex_iff map_filter_def
        split: option.splits dns_lookup.splits)
  then show ?thesis using p rest by (auto split: option.splits dns_lookup.splits)
qed

lemma accepted_urls_are_public_witness:
  "\<exists>p. urlparse (\<lambda>_. True) (lit ''https://api.x.ai/v1'') = Some p
     \<and> list_all public_ip (addresses (\<lambda>_. Answers [lit ''93.184.216.34'']) (normal_host (p_host p)))"
proof -
  have "validate_public_https_url (\<lambda>_. True) (\<lambda>_. Answers [lit ''93.184.216.34'']) (lit ''https://api.x.ai/v1'') = None"
    by code_simp
  from accepted_urls_are_public [OF this] show ?thesis
    by (simp add: strip_def lstrip_def lit_def is_space_def) blast
qed

text \<open>
  What the guard lets pass: the metadata service behind a NAT64 prefix, and loopback in the deprecated
  IPv4-compatible form; and a text that is refused with an exception its callers do not catch.
\<close>

lemma translated_addresses_pass:
  "validate_public_https_url (\<lambda>_. True) (\<lambda>_. LookupFails) (lit ''https://[64:ff9b::169.254.169.254]/'') = None"
  "validate_public_https_url (\<lambda>_. True) (\<lambda>_. LookupFails) (lit ''https://[::127.0.0.1]/'') = None"
  "validate_public_https_url (\<lambda>_. True) (\<lambda>_. LookupFails) (lit ''https://[::ffff:127.0.0.1]/'') = Some BlockedLiteral"
  "validate_public_https_url (\<lambda>_. True) (\<lambda>_. LookupFails) (lit ''https://[x'') = Some Escapes"
  by code_simp+

end
