(* ===== verification/Credentials.thy ===== *)
theory Credentials
  imports UrlSafety Selection Trimming
begin

text \<open>
  The providers a user brings (\<open>invincible/core/credential_store.py\<close>,
  \<open>invincible/core/credential_crypto.py\<close>, \<open>invincible/core/provider_catalog.py\<close>, the routing part of
  \<open>invincible/core/user_settings_store.py\<close> and the decisions of \<open>invincible/endpoints/byok.py\<close>): the
  table of credentials as a list of rows, the checks when one is connected, the candidates and keys a
  request gets from them, and the routing a user saves. Parameters: \<open>cipher\<close>, encryption and
  decryption under the master key (\<open>None\<close> when no key is configured, and for a text that does not
  match), the resolver and \<open>nfkc_ok\<close> of the URL guard, the clock, \<open>repr\<close> for \<open>str\<close> of a JSON value that is
  no string, integer or boolean.
\<close>

type_synonym cipher = "((ustr \<Rightarrow> ustr) \<times> (ustr \<Rightarrow> ustr option)) option"

definition usable :: "cipher \<Rightarrow> bool" where
  "usable cipher \<longleftrightarrow> cipher \<noteq> None"

section \<open>The catalog\<close>

record catalog_item =
  ct_label :: ustr
  ct_base_url :: ustr
  ct_model_id :: ustr
  ct_max_context :: int
  ct_vision :: bool

definition CATALOG :: "(ustr \<times> catalog_item) list" where
  "CATALOG =
     [(lit ''openai'', \<lparr>ct_label = lit ''OpenAI'', ct_base_url = lit ''https://api.openai.com/v1'',
         ct_model_id = lit ''gpt-4o-mini'', ct_max_context = 128000, ct_vision = True\<rparr>),
      (lit ''nvidia_nim'', \<lparr>ct_label = lit ''NVIDIA NIM'', ct_base_url = lit ''https://integrate.api.nvidia.com/v1'',
         ct_model_id = lit ''deepseek-ai/deepseek-v4-flash-0731'', ct_max_context = 1000000, ct_vision = False\<rparr>),
      (lit ''groq'', \<lparr>ct_label = lit ''Groq'', ct_base_url = lit ''https://api.groq.com/openai/v1'',
         ct_model_id = lit ''openai/gpt-oss-120b'', ct_max_context = 128000, ct_vision = False\<rparr>),
      (lit ''openrouter'', \<lparr>ct_label = lit ''OpenRouter'', ct_base_url = lit ''https://openrouter.ai/api/v1'',
         ct_model_id = lit ''nvidia/nemotron-3-ultra-550b-a55b:free'', ct_max_context = 1000000, ct_vision = False\<rparr>),
      (lit ''gemini'', \<lparr>ct_label = lit ''Gemini'',
         ct_base_url = lit ''https://generativelanguage.googleapis.com/v1beta/openai'',
         ct_model_id = lit ''gemini-2.5-flash'', ct_max_context = 1000000, ct_vision = False\<rparr>)]"

definition catalog_entry :: "ustr option \<Rightarrow> catalog_item option" where
  "catalog_entry key = (case key of None \<Rightarrow> None | Some k \<Rightarrow> map_of CATALOG k)"

section \<open>The table\<close>

record credential_row =
  cr_id :: int
  cr_user :: int
  cr_name :: ustr
  cr_catalog :: "ustr option"
  cr_model :: ustr
  cr_base_url :: ustr
  cr_secret :: ustr
  cr_masked :: ustr
  cr_status :: ustr
  cr_tested :: "int option"
  cr_created :: int
  cr_updated :: int
  cr_order :: int

record credential_table =
  credentials :: "credential_row list"
  next_credential :: int

definition rstrip_char :: "int \<Rightarrow> ustr \<Rightarrow> ustr" where
  "rstrip_char c s = rev (dropWhile ((=) c) (rev s))"

definition mask_api_key :: "ustr \<Rightarrow> ustr" where
  "mask_api_key plaintext =
     (let p = strip plaintext in
      if length p < 12 then replicate 6 8226 else take 3 p @ [8230] @ last_n 4 p)"

definition owns_credential :: "int \<Rightarrow> int \<Rightarrow> credential_row \<Rightarrow> bool" where
  "owns_credential cid uid r \<longleftrightarrow> cr_id r = cid \<and> cr_user r = uid"

datatype store_error = Duplicate | NoMasterKey

definition create_credential ::
  "cipher \<Rightarrow> int \<Rightarrow> int \<Rightarrow> ustr \<Rightarrow> ustr \<Rightarrow> ustr \<Rightarrow> ustr \<Rightarrow> ustr option \<Rightarrow> credential_table
   \<Rightarrow> (store_error + credential_row) \<times> credential_table" where
  "create_credential cipher now user nm model url api_key catalog t =
     (case cipher of
        None \<Rightarrow> (Inl NoMasterKey, t)
      | Some (encrypt, decrypt) \<Rightarrow>
          let t1 = t\<lparr>next_credential := next_credential t + 1\<rparr>;
              row = \<lparr>cr_id = next_credential t, cr_user = user, cr_name = nm, cr_catalog = catalog,
                cr_model = model, cr_base_url = rstrip_char 47 url, cr_secret = encrypt api_key,
                cr_masked = mask_api_key api_key, cr_status = lit ''untested'', cr_tested = None,
                cr_created = now, cr_updated = now, cr_order = 0\<rparr>
          in if list_ex (\<lambda>r. cr_user r = user \<and> cr_name r = nm) (credentials t) then (Inl Duplicate, t1)
             else (Inr row, t1\<lparr>credentials := credentials t @ [row]\<rparr>))"

text \<open>\<open>ORDER BY sort_order, id\<close> over one user's rows.\<close>

definition routing_rows :: "int \<Rightarrow> credential_table \<Rightarrow> credential_row list" where
  "routing_rows user t = sort_key cr_order (sort_key cr_id (filter (\<lambda>r. cr_user r = user) (credentials t)))"

definition get_for_user :: "int \<Rightarrow> int \<Rightarrow> credential_table \<Rightarrow> credential_row option" where
  "get_for_user cid uid t = find (owns_credential cid uid) (credentials t)"

definition delete_credential :: "int \<Rightarrow> int \<Rightarrow> credential_table \<Rightarrow> bool \<times> credential_table" where
  "delete_credential cid uid t =
     (list_ex (owns_credential cid uid) (credentials t),
      t\<lparr>credentials := filter (\<lambda>r. \<not> owns_credential cid uid r) (credentials t)\<rparr>)"

definition update_test_outcome :: "int \<Rightarrow> int \<Rightarrow> int \<Rightarrow> ustr \<Rightarrow> credential_table \<Rightarrow> bool \<times> credential_table" where
  "update_test_outcome now cid uid status t =
     (list_ex (owns_credential cid uid) (credentials t),
      t\<lparr>credentials := map (\<lambda>r. if owns_credential cid uid r
          then r\<lparr>cr_status := status, cr_tested := Some now, cr_updated := now\<rparr> else r) (credentials t)\<rparr>)"

definition place :: "int \<Rightarrow> int \<Rightarrow> nat \<times> int \<Rightarrow> credential_row list \<Rightarrow> credential_row list" where
  "place now user = (\<lambda>(index, cid) rows.
     map (\<lambda>r. if owns_credential cid user r then r\<lparr>cr_order := int index, cr_updated := now\<rparr> else r) rows)"

text \<open>\<open>None\<close> is \<open>UnknownCredentialError\<close>.\<close>

definition reorder :: "int \<Rightarrow> int \<Rightarrow> int list \<Rightarrow> credential_table \<Rightarrow> credential_table option" where
  "reorder now user ordered_ids t =
     (let owned = set (map cr_id (filter (\<lambda>r. cr_user r = user) (credentials t))) in
      if set ordered_ids \<noteq> owned \<or> length ordered_ids \<noteq> card owned then None
      else Some (t\<lparr>credentials := fold (place now user) (enumerate 0 ordered_ids) (credentials t)\<rparr>))"

section \<open>Connecting and moving\<close>

datatype connect_error =
    NameRequired | NameTooLong | KeyRequired | KeyTooLong | UnknownCatalogKey | UrlRequired | ModelRequired
  | UrlRejected url_error | UrlRaised | NameTaken | NotConfigured

definition body_text :: "(json \<Rightarrow> ustr) \<Rightarrow> pydict \<Rightarrow> string \<Rightarrow> ustr" where
  "body_text repr body k = strip (py_str repr (py_or (dget body (lit k)) (JStr [])))"

text \<open>Whether a stored or typed URL is the constant of its catalog entry, which needs no check.\<close>

definition is_catalog_url :: "ustr option \<Rightarrow> ustr \<Rightarrow> bool" where
  "is_catalog_url key url = (case catalog_entry key of None \<Rightarrow> False | Some e \<Rightarrow> url = ct_base_url e)"

definition connect_provider ::
  "(json \<Rightarrow> ustr) \<Rightarrow> (ustr \<Rightarrow> bool) \<Rightarrow> (ustr \<Rightarrow> dns_lookup) \<Rightarrow> cipher \<Rightarrow> int \<Rightarrow> int \<Rightarrow> pydict \<Rightarrow> credential_table
   \<Rightarrow> (connect_error + credential_row) \<times> credential_table" where
  "connect_provider repr nfkc_ok resolve cipher now user body t =
     (let nm = body_text repr body ''provider_name'';
          api_key = body_text repr body ''api_key'';
          key0 = body_text repr body ''catalog_key'';
          key = (if key0 = [] then None else Some key0);
          entry = catalog_entry key;
          url0 = body_text repr body ''base_url'';
          url = rstrip_char 47 (if url0 \<noteq> [] then url0
            else case entry of Some e \<Rightarrow> ct_base_url e | None \<Rightarrow> []);
          model0 = body_text repr body ''model_id'';
          model = (if model0 \<noteq> [] then model0 else case entry of Some e \<Rightarrow> ct_model_id e | None \<Rightarrow> [])
      in if \<not> usable cipher then (Inl NotConfigured, t)
         else if nm = [] then (Inl NameRequired, t)
         else if 80 < length nm then (Inl NameTooLong, t)
         else if api_key = [] then (Inl KeyRequired, t)
         else if 4096 < length api_key then (Inl KeyTooLong, t)
         else if key \<noteq> None \<and> entry = None then (Inl UnknownCatalogKey, t)
         else if url = [] then (Inl UrlRequired, t)
         else if model = [] then (Inl ModelRequired, t)
         else
           case (if is_catalog_url key url then None else validate_public_https_url nfkc_ok resolve url) of
             Some Escapes \<Rightarrow> (Inl UrlRaised, t)
           | Some e \<Rightarrow> (Inl (UrlRejected e), t)
           | None \<Rightarrow>
               (case create_credential cipher now user nm model url api_key key t of
                  (Inl Duplicate, t') \<Rightarrow> (Inl NameTaken, t')
                | (Inl NoMasterKey, t') \<Rightarrow> (Inl NotConfigured, t')
                | (Inr row, t') \<Rightarrow> (Inr row, t')))"

fun index_of :: "'a \<Rightarrow> 'a list \<Rightarrow> nat" where
  "index_of x [] = 0"
| "index_of x (y # ys) = (if x = y then 0 else Suc (index_of x ys))"

definition swap_at :: "nat \<Rightarrow> nat \<Rightarrow> 'a list \<Rightarrow> 'a list" where
  "swap_at i j xs = xs[i := xs ! j, j := xs ! i]"

datatype move_error = MoveNotFound | BadDirection

definition moved_ids :: "int \<Rightarrow> ustr \<Rightarrow> int list \<Rightarrow> int list" where
  "moved_ids cid direction ids =
     (let i = index_of cid ids in
      if direction = lit ''up'' \<and> 0 < i then swap_at (i - 1) i ids
      else if direction = lit ''down'' \<and> i < length ids - 1 then swap_at i (i + 1) ids
      else ids)"

text \<open>\<open>seen\<close> is the table when the endpoint lists the rows, \<open>t\<close> the one its write meets.\<close>

definition move_provider ::
  "(json \<Rightarrow> ustr) \<Rightarrow> int \<Rightarrow> int \<Rightarrow> int \<Rightarrow> pydict \<Rightarrow> credential_table \<Rightarrow> credential_table
   \<Rightarrow> move_error + credential_table" where
  "move_provider repr now user cid body seen t =
     (let ids = map cr_id (routing_rows user seen);
          direction = lower (body_text repr body ''direction'')
      in if cid \<notin> set ids then Inl MoveNotFound
         else if direction \<notin> {lit ''up'', lit ''down''} then Inl BadDirection
         else case reorder now user (moved_ids cid direction ids) t of
             None \<Rightarrow> Inl MoveNotFound | Some t' \<Rightarrow> Inr t')"

section \<open>Candidates and keys of a request\<close>

text \<open>A candidate and its \<open>byok_credential_id\<close>; keys the dictionary lacks read as their defaults.\<close>

definition byok_candidate :: "nat \<Rightarrow> credential_row \<Rightarrow> provider \<times> int" where
  "byok_candidate index r =
     (let entry = catalog_entry (cr_catalog r) in
      (\<lparr>name = cr_name r, tier = int index + 1, enabled = True, model_id = cr_model r, aliases = [],
        base_url = cr_base_url r, chat_path = lit ''/chat/completions'', api_key_env = [], auth_query = False,
        auth_param = lit ''key'', extra_headers = [],
        max_context = (case entry of Some e \<Rightarrow> ct_max_context e | None \<Rightarrow> DEFAULT_MAX_CONTEXT),
        vision = (case entry of Some e \<Rightarrow> ct_vision e | None \<Rightarrow> False),
        health_id = lit ''byok:'' @ dec (cr_id r), model_override = False, failover_on_400 = False\<rparr>,
       cr_id r))"

definition byok_candidates :: "int \<Rightarrow> credential_table \<Rightarrow> (provider \<times> int) list" where
  "byok_candidates user t = map (\<lambda>(i, r). byok_candidate i r) (enumerate 0 (routing_rows user t))"

datatype key_outcome = NoKey | Key ustr | KeyRaises

definition resolve_byok_key ::
  "(ustr \<Rightarrow> bool) \<Rightarrow> (ustr \<Rightarrow> dns_lookup) \<Rightarrow> cipher \<Rightarrow> int \<Rightarrow> int \<Rightarrow> credential_table \<Rightarrow> key_outcome" where
  "resolve_byok_key nfkc_ok resolve cipher user cid t =
     (case get_for_user cid user t of
        None \<Rightarrow> NoKey
      | Some r \<Rightarrow>
          (case (if is_catalog_url (cr_catalog r) (cr_base_url r) then None
                 else validate_public_https_url nfkc_ok resolve (cr_base_url r)) of
             Some Escapes \<Rightarrow> KeyRaises
           | Some e \<Rightarrow> NoKey
           | None \<Rightarrow>
               (case cipher of
                  None \<Rightarrow> NoKey
                | Some (encrypt, decrypt) \<Rightarrow>
                    (case decrypt (cr_secret r) of None \<Rightarrow> NoKey | Some key \<Rightarrow> Key key))))"

section \<open>The routing a user saves\<close>

datatype routing_error =
    StepNeedsModel | StepModelTooLong | StepIdNotANumber | StepNotConnected | NoSteps | NoPinned | BadMode

definition routing_model :: "(json \<Rightarrow> ustr) \<Rightarrow> json \<Rightarrow> routing_error + ustr" where
  "routing_model repr v =
     (let model = strip (py_str repr (py_or v (JStr []))) in
      if model = [] then Inl StepNeedsModel
      else if 200 < length model then Inl StepModelTooLong else Inr model)"

definition routing_credential_id :: "(ustr \<Rightarrow> int option) \<Rightarrow> json \<Rightarrow> int set \<Rightarrow> routing_error + int" where
  "routing_credential_id fi v owned = (case int_of_json fi v of
       None \<Rightarrow> Inl StepIdNotANumber
     | Some cid \<Rightarrow> if cid \<in> owned then Inr cid else Inl StepNotConnected)"

text \<open>A step: the id is read first, then the model.\<close>

definition routing_step ::
  "(json \<Rightarrow> ustr) \<Rightarrow> (ustr \<Rightarrow> int option) \<Rightarrow> int set \<Rightarrow> json \<times> json \<Rightarrow> routing_error + json" where
  "routing_step repr fi owned = (\<lambda>(cid, model).
     case routing_credential_id fi cid owned of
       Inl e \<Rightarrow> Inl e
     | Inr i \<Rightarrow> (case routing_model repr model of
         Inl e \<Rightarrow> Inl e
       | Inr m \<Rightarrow> Inr (JObj [(lit ''credential_id'', JInt i), (lit ''model'', JStr m)])))"

fun routing_steps ::
  "(json \<Rightarrow> ustr) \<Rightarrow> (ustr \<Rightarrow> int option) \<Rightarrow> int set \<Rightarrow> (json \<times> json) list \<Rightarrow> routing_error + json list" where
  "routing_steps repr fi owned [] = Inr []"
| "routing_steps repr fi owned (s # ss) = (case routing_step repr fi owned s of
       Inl e \<Rightarrow> Inl e
     | Inr j \<Rightarrow> (case routing_steps repr fi owned ss of Inl e \<Rightarrow> Inl e | Inr js \<Rightarrow> Inr (j # js)))"

definition form_key :: "nat \<Rightarrow> string \<Rightarrow> ustr" where
  "form_key index what = lit ''chain_'' @ dec (int index) @ lit ''_'' @ lit what"

text \<open>
  The steps a body names: a \<open>chain\<close> list, or the numbered fields of the form up to the first index
  that is missing (there are at most as many as the body has fields).
\<close>

fun form_steps :: "nat \<Rightarrow> nat \<Rightarrow> pydict \<Rightarrow> (json \<times> json) list" where
  "form_steps 0 index body = []"
| "form_steps (Suc fuel) index body =
     (if dhas body (form_key index ''credential_id'')
      then (dget body (form_key index ''credential_id''), dget body (form_key index ''model''))
        # form_steps fuel (Suc index) body
      else [])"

definition chain_of_body :: "pydict \<Rightarrow> (json \<times> json) list" where
  "chain_of_body body = (case dget body (lit ''chain'') of
       JList steps \<Rightarrow> List.map_filter (\<lambda>s. case s of
           JObj d \<Rightarrow> Some (dget d (lit ''credential_id''), dget d (lit ''model'')) | _ \<Rightarrow> None) steps
     | _ \<Rightarrow> form_steps (Suc (length body)) 0 body)"

definition chain_steps ::
  "(json \<Rightarrow> ustr) \<Rightarrow> (ustr \<Rightarrow> int option) \<Rightarrow> pydict \<Rightarrow> int set \<Rightarrow> routing_error + json list" where
  "chain_steps repr fi body owned = (case routing_steps repr fi owned (chain_of_body body) of
       Inl e \<Rightarrow> Inl e
     | Inr steps \<Rightarrow> if steps = [] then Inl NoSteps else Inr steps)"

definition pinned_step ::
  "(json \<Rightarrow> ustr) \<Rightarrow> (ustr \<Rightarrow> int option) \<Rightarrow> pydict \<Rightarrow> int set \<Rightarrow> routing_error + json" where
  "pinned_step repr fi body owned = (case dget body (lit ''pinned'') of
       JObj d \<Rightarrow> routing_step repr fi owned (dget d (lit ''credential_id''), dget d (lit ''model''))
     | _ \<Rightarrow>
         if \<not> truthy (dget body (lit ''pinned_credential_id'')) then Inl NoPinned
         else routing_step repr fi owned
           (dget body (lit ''pinned_credential_id''), dget body (lit ''pinned_model'')))"

text \<open>The JSON \<open>save_routing\<close> stores, or the reason of its 400.\<close>

definition routing_to_save ::
  "(json \<Rightarrow> ustr) \<Rightarrow> (ustr \<Rightarrow> int option) \<Rightarrow> pydict \<Rightarrow> int set \<Rightarrow> routing_error + pydict" where
  "routing_to_save repr fi body owned =
     (let md = body_text repr body ''mode'' in
      if md = lit ''auto'' then Inr [(lit ''mode'', JStr (lit ''auto''))]
      else if md = lit ''pinned'' then
        (case pinned_step repr fi body owned of
           Inl e \<Rightarrow> Inl e
         | Inr s \<Rightarrow> Inr [(lit ''mode'', JStr (lit ''pinned'')), (lit ''pinned'', s)])
      else if md = lit ''chain'' then
        (case chain_steps repr fi body owned of
           Inl e \<Rightarrow> Inl e
         | Inr ss \<Rightarrow> Inr [(lit ''mode'', JStr (lit ''chain'')), (lit ''chain'', JList ss)])
      else Inl BadMode)"

text \<open>
  \<open>_route\<close> and \<open>routing_config_from_user\<close>. A Python \<open>bool\<close> is an \<open>int\<close>: \<open>true\<close> stands for the id 1.
\<close>

definition route_of_step :: "credential_row list \<Rightarrow> json \<Rightarrow> pinned_route option" where
  "route_of_step rows step = (case step of
       JObj d \<Rightarrow>
         (case (case dget d (lit ''credential_id'') of
                  JInt i \<Rightarrow> Some i | JBool b \<Rightarrow> Some (if b then 1 else 0) | _ \<Rightarrow> None) of
            None \<Rightarrow> None
          | Some cid \<Rightarrow>
              (case dget d (lit ''model'') of
                 JStr m \<Rightarrow>
                   if strip m = [] then None
                   else map_option (\<lambda>r. \<lparr>route_provider = cr_name r, route_model = m\<rparr>)
                          (find (\<lambda>r. cr_id r = cid) rows)
               | _ \<Rightarrow> None))
     | _ \<Rightarrow> None)"

definition routing_config_from_user :: "json \<Rightarrow> credential_row list \<Rightarrow> ustr option \<Rightarrow> routing_config" where
  "routing_config_from_user routing rows model = (case routing of
       JObj d \<Rightarrow>
         let md = dget_or d (lit ''mode'') (JStr (lit ''auto'')) in
         if md = JStr (lit ''pinned'') then
           (case route_of_step rows (dget d (lit ''pinned'')) of
              None \<Rightarrow> AUTO_ROUTING
            | Some r \<Rightarrow> \<lparr>mode = lit ''pinned'', pinned = Some r, chain = []\<rparr>)
         else if md = JStr (lit ''chain'') then
           (case dget d (lit ''chain'') of
              JList steps \<Rightarrow>
                let routes = List.map_filter (route_of_step rows) (chain_with_model_hint steps model)
                in if routes = [] then AUTO_ROUTING
                   else \<lparr>mode = lit ''chain'', pinned = None, chain = routes\<rparr>
            | _ \<Rightarrow> AUTO_ROUTING)
         else AUTO_ROUTING
     | _ \<Rightarrow> AUTO_ROUTING)"

text \<open>\<open>clean_overrides\<close> and the upsert of a user's row of settings.\<close>

definition OVERRIDABLE_KEYS :: "ustr list" where
  "OVERRIDABLE_KEYS = [lit ''memory'', lit ''continuity'', lit ''compression'', lit ''relay'',
     lit ''history_max_turns'', lit ''voice'']"

datatype override_error = NotAMapping | UnknownSetting ustr | BadTurns

fun clean_items :: "(ustr \<times> json) list \<Rightarrow> pydict \<Rightarrow> override_error + pydict" where
  "clean_items [] cleaned = Inr cleaned"
| "clean_items ((k, v) # items) cleaned =
     (if k \<notin> set OVERRIDABLE_KEYS then Inl (UnknownSetting k)
      else if k = lit ''history_max_turns'' then
        (case v of
           JInt i \<Rightarrow> if i < 0 then Inl BadTurns else clean_items items (dset k v cleaned)
         | _ \<Rightarrow> Inl BadTurns)
      else clean_items items (dset k (JBool (truthy v)) cleaned))"

definition clean_overrides :: "json \<Rightarrow> override_error + pydict" where
  "clean_overrides raw = (case raw of JObj d \<Rightarrow> clean_items d [] | _ \<Rightarrow> Inl NotAMapping)"

record settings_row =
  st_routing :: pydict
  st_overrides :: pydict

definition get_settings :: "(int \<times> settings_row) list \<Rightarrow> int \<Rightarrow> settings_row" where
  "get_settings t user = (case map_of t user of Some r \<Rightarrow> r | None \<Rightarrow> \<lparr>st_routing = [], st_overrides = []\<rparr>)"

definition upsert_settings ::
  "int \<Rightarrow> (settings_row \<Rightarrow> settings_row) \<Rightarrow> (int \<times> settings_row) list \<Rightarrow> (int \<times> settings_row) list" where
  "upsert_settings user upd t = dset user (upd (get_settings t user)) t"

definition save_routing :: "int \<Rightarrow> pydict \<Rightarrow> (int \<times> settings_row) list \<Rightarrow> (int \<times> settings_row) list" where
  "save_routing user routing = upsert_settings user (\<lambda>r. r\<lparr>st_routing := routing\<rparr>)"

definition save_overrides :: "int \<Rightarrow> pydict \<Rightarrow> (int \<times> settings_row) list \<Rightarrow> (int \<times> settings_row) list" where
  "save_overrides user overrides = upsert_settings user (\<lambda>r. r\<lparr>st_overrides := overrides\<rparr>)"

section \<open>Keys stay with their credential\<close>

definition credentials_ok :: "credential_table \<Rightarrow> bool" where
  "credentials_ok t \<longleftrightarrow> distinct (map cr_id (credentials t))
     \<and> (\<forall>i \<in> set (map cr_id (credentials t)). i < next_credential t)"

lemma credentials_ok_create [inv_intros]:
  "credentials_ok t \<Longrightarrow> credentials_ok (snd (create_credential c now u nm m url k cat t))"
  by (auto simp: create_credential_def credentials_ok_def Let_def split: option.splits)

lemma credentials_ok_delete [inv_intros]: "credentials_ok t \<Longrightarrow> credentials_ok (snd (delete_credential cid u t))"
  by (auto simp: delete_credential_def credentials_ok_def intro: distinct_map_filter)

lemma set_routing_rows [simp]: "set (routing_rows user t) = {r \<in> set (credentials t). cr_user r = user}"
  by (auto simp: routing_rows_def)

lemma find_own:
  assumes "credentials_ok t" and "r \<in> set (credentials t)" and "cr_user r = user"
  shows "get_for_user (cr_id r) user t = Some r"
proof -
  have inj: "inj_on cr_id (set (credentials t))" using assms(1) by (simp add: credentials_ok_def distinct_map)
  obtain s where s: "get_for_user (cr_id r) user t = Some s"
    using assms(2,3) by (cases "get_for_user (cr_id r) user t")
      (auto simp: get_for_user_def find_None_iff owns_credential_def)
  then have "s \<in> set (credentials t)" "cr_id s = cr_id r" by (auto simp: get_for_user_def find_Some_iff owns_credential_def)
  then show ?thesis using s inj_onD [OF inj, of s r] assms(2) by simp
qed

text \<open>
  C34: a user's key is only ever sent where that user put it. A candidate of a request belongs to a
  credential of the request's user and carries its URL; the key that is resolved for it is the one
  stored with that very credential, and only as long as the URL is the packaged constant of its
  catalog entry or passes the guard against private addresses at that moment.
\<close>

theorem keys_go_to_their_own_url:
  assumes "credentials_ok t" and "(p, cid) \<in> set (byok_candidates user t)"
    and "resolve_byok_key nfkc_ok resolve cipher user cid t = Key key"
  shows "\<exists>r \<in> set (credentials t). cr_user r = user \<and> cr_id r = cid \<and> base_url p = cr_base_url r
    \<and> (\<exists>encrypt decrypt. cipher = Some (encrypt, decrypt) \<and> decrypt (cr_secret r) = Some key)
    \<and> (is_catalog_url (cr_catalog r) (cr_base_url r)
       \<or> validate_public_https_url nfkc_ok resolve (cr_base_url r) = None)"
proof -
  obtain i r where "(i, r) \<in> set (enumerate 0 (routing_rows user t))" "byok_candidate i r = (p, cid)"
    using assms(2) by (auto simp: byok_candidates_def)
  then have r: "r \<in> set (credentials t)" "cr_user r = user" "cr_id r = cid" "base_url p = cr_base_url r"
    using in_set_enumerate_eq [of "(i, r)"] nth_mem [of i "routing_rows user t"]
    by (auto simp: byok_candidate_def Let_def simp del: nth_mem)
  then have "get_for_user cid user t = Some r" using find_own [OF assms(1)] by blast
  then show ?thesis using assms(3) r
    by (auto simp: resolve_byok_key_def split: if_splits option.splits url_error.splits)
qed

abbreviation demo_credential :: "int \<Rightarrow> int \<Rightarrow> int \<Rightarrow> credential_row" where
  "demo_credential i u n \<equiv> \<lparr>cr_id = i, cr_user = u, cr_name = dec i, cr_catalog = Some (lit ''groq''),
     cr_model = lit ''m'', cr_base_url = lit ''https://api.groq.com/openai/v1'', cr_secret = lit ''s'',
     cr_masked = [], cr_status = lit ''untested'', cr_tested = None, cr_created = 0, cr_updated = 0, cr_order = n\<rparr>"

definition demo_credentials :: credential_table where
  "demo_credentials = \<lparr>credentials = [demo_credential 1 7 0, demo_credential 2 7 1, demo_credential 3 8 0],
     next_credential = 4\<rparr>"

abbreviation demo_cipher :: cipher where
  "demo_cipher \<equiv> Some (\<lambda>s. s, \<lambda>s. Some s)"

lemma demo_credentials_ok: "credentials_ok demo_credentials"
  by (simp add: credentials_ok_def demo_credentials_def)

lemma keys_go_to_their_own_url_witness:
  "\<exists>r \<in> set (credentials demo_credentials). cr_user r = 7 \<and> cr_id r = 1
     \<and> is_catalog_url (cr_catalog r) (cr_base_url r)"
proof -
  have k: "resolve_byok_key (\<lambda>_. True) (\<lambda>_. LookupFails) demo_cipher 7 1 demo_credentials = Key (lit ''s'')"
    by (simp add: resolve_byok_key_def get_for_user_def owns_credential_def demo_credentials_def is_catalog_url_def
        catalog_entry_def CATALOG_def)
  have "routing_rows 7 demo_credentials = [demo_credential 1 7 0, demo_credential 2 7 1]"
    by (simp add: routing_rows_def demo_credentials_def)
  then have "(fst (byok_candidate 0 (demo_credential 1 7 0)), 1) \<in> set (byok_candidates 7 demo_credentials)"
    by (simp add: byok_candidates_def byok_candidate_def Let_def)
  from keys_go_to_their_own_url [OF demo_credentials_ok this k] obtain r where
    "r \<in> set (credentials demo_credentials)" "cr_user r = 7" "cr_id r = 1" by blast
  moreover from this have "is_catalog_url (cr_catalog r) (cr_base_url r)"
    by (auto simp: demo_credentials_def is_catalog_url_def catalog_entry_def CATALOG_def)
  ultimately show ?thesis by blast
qed

section \<open>The order of the credentials\<close>

lemma index_of_less: "x \<in> set xs \<Longrightarrow> index_of x xs < length xs"
  by (induction xs) auto

lemma nth_index_of: "x \<in> set xs \<Longrightarrow> xs ! index_of x xs = x"
  by (induction xs) auto

lemma index_of_inj: "x \<in> set xs \<Longrightarrow> y \<in> set xs \<Longrightarrow> index_of x xs = index_of y xs \<Longrightarrow> x = y"
  by (metis nth_index_of)

text \<open>A list sorted by the positions in another list of the same elements is that list.\<close>

lemma sorted_by_index:
  assumes "distinct ys" and "set xs = set ys" and "distinct xs" and "sorted (map (\<lambda>x. index_of x ys) xs)"
  shows "xs = ys"
proof -
  have inj: "inj_on (\<lambda>x. index_of x ys) (set xs)"
    unfolding assms(2) by (rule inj_onI) (rule index_of_inj)
  have len: "length xs = length ys" using assms(1-3) by (metis distinct_card)
  have "(\<lambda>x. index_of x ys) ` set xs \<subseteq> {0..<length ys}" using index_of_less assms(2) by auto
  moreover have "card ((\<lambda>x. index_of x ys) ` set xs) = length ys"
    using inj len assms(3) by (simp add: card_image distinct_card)
  ultimately have "(\<lambda>x. index_of x ys) ` set xs = {0..<length ys}" by (intro card_subset_eq) simp_all
  then have "map (\<lambda>x. index_of x ys) xs = [0..<length ys]"
    using assms(3,4) inj by (intro sorted_distinct_set_unique) (simp_all add: distinct_map)
  then have "map ((!) ys) (map (\<lambda>x. index_of x ys) xs) = map ((!) ys) [0..<length ys]" by simp
  moreover have "map ((!) ys) (map (\<lambda>x. index_of x ys) xs) = xs"
    unfolding map_map using assms(2) by (intro map_idI) (simp add: nth_index_of)
  ultimately show ?thesis by (simp add: map_nth)
qed

definition placed :: "int \<Rightarrow> int \<Rightarrow> nat \<Rightarrow> int list \<Rightarrow> credential_row \<Rightarrow> credential_row" where
  "placed now user n ids r = (if cr_user r = user \<and> cr_id r \<in> set ids
     then r\<lparr>cr_order := int (n + index_of (cr_id r) ids), cr_updated := now\<rparr> else r)"

lemma fold_place:
  "distinct ids \<Longrightarrow> fold (place now user) (enumerate n ids) rows = map (placed now user n ids) rows"
proof (induction ids arbitrary: n rows)
  case (Cons i ids)
  have step: "placed now user (Suc n) ids (if owns_credential i user r then r\<lparr>cr_order := int n, cr_updated := now\<rparr> else r)
      = placed now user n (i # ids) r" for r
  proof (cases "owns_credential i user r")
    case True
    then show ?thesis using Cons.prems by (simp add: placed_def owns_credential_def)
  next
    case False
    then show ?thesis by (cases "cr_user r = user") (simp_all add: placed_def owns_credential_def eq_commute [of i])
  qed
  have "fold (place now user) (enumerate n (i # ids)) rows
      = map (placed now user (Suc n) ids) (place now user (n, i) rows)"
    using Cons.prems by (simp add: Cons.IH)
  also have "\<dots> = map (placed now user n (i # ids)) rows"
    unfolding place_def prod.case map_map comp_def step ..
  finally show ?case .
qed (simp add: placed_def map_idI)

text \<open>
  C35: a reorder is exact and private. It is refused, and changes nothing, unless the ids are just the
  user's own credentials, each once; otherwise the user's providers are tried in the order asked
  for, and every credential keeps its owner, name, URL and key, foreign ones also their place.
\<close>

theorem reorder_is_exact:
  assumes "credentials_ok t"
  shows "(case reorder now user ids t of
      None \<Rightarrow> \<not> (distinct ids \<and> set ids = set (map cr_id (routing_rows user t)))
    | Some t' \<Rightarrow> distinct ids \<and> set ids = set (map cr_id (routing_rows user t))
        \<and> map cr_id (routing_rows user t') = ids
        \<and> filter (\<lambda>r. cr_user r \<noteq> user) (credentials t') = filter (\<lambda>r. cr_user r \<noteq> user) (credentials t)
        \<and> map (\<lambda>r. r\<lparr>cr_order := 0, cr_updated := 0\<rparr>) (credentials t')
          = map (\<lambda>r. r\<lparr>cr_order := 0, cr_updated := 0\<rparr>) (credentials t))"
proof -
  let ?own = "set (map cr_id (filter (\<lambda>r. cr_user r = user) (credentials t)))"
  have own: "?own = set (map cr_id (routing_rows user t))" by auto
  have exact: "set ids \<noteq> ?own \<or> length ids \<noteq> card ?own \<longleftrightarrow> \<not> (distinct ids \<and> set ids = ?own)"
    by (metis card_distinct distinct_card)
  show ?thesis
  proof (cases "reorder now user ids t")
    case None
    then have "\<not> (distinct ids \<and> set ids = ?own)"
      unfolding reorder_def Let_def exact by (metis option.distinct(1))
    then show ?thesis using None own by simp
  next
    case (Some t')
    then have ids: "distinct ids" "set ids = ?own" and t': "t' = t\<lparr>credentials := map (placed now user 0 ids) (credentials t)\<rparr>"
      unfolding reorder_def Let_def exact by (simp_all add: fold_place split: if_splits)
    let ?f = "placed now user 0 ids"
    have keep: "cr_user (?f r) = cr_user r" "cr_id (?f r) = cr_id r"
      "(?f r)\<lparr>cr_order := 0, cr_updated := 0\<rparr> = r\<lparr>cr_order := 0, cr_updated := 0\<rparr>" for r
      by (simp_all add: placed_def)
    have others: "filter (\<lambda>r. cr_user r \<noteq> user) (map ?f rs) = filter (\<lambda>r. cr_user r \<noteq> user) rs" for rs
      by (induction rs) (auto simp: placed_def)
    let ?rows = "routing_rows user t'"
    have "map cr_id (filter (\<lambda>r. cr_user r = user) (map ?f rs)) = map cr_id (filter (\<lambda>r. cr_user r = user) rs)" for rs
      by (simp add: filter_map comp_def keep)
    moreover have "set (map cr_id ?rows)
        = set (map cr_id (filter (\<lambda>r. cr_user r = user) (map ?f (credentials t))))"
      unfolding t' by simp
    ultimately have ids': "set (map cr_id ?rows) = set ids" unfolding ids(2) by (simp only:)
    have order: "cr_order r = int (index_of (cr_id r) ids)" if "r \<in> set ?rows" for r
    proof -
      obtain r0 where r0: "r = ?f r0" "cr_user r = user" using \<open>r \<in> set ?rows\<close> by (auto simp: t')
      have "cr_id r \<in> set (map cr_id ?rows)" using that by simp
      then have "cr_id r \<in> set ids" unfolding ids' .
      then have "cr_user r0 = user \<and> cr_id r0 \<in> set ids" using r0 by (simp add: keep)
      then show ?thesis using r0(1) by (simp add: placed_def)
    qed
    have "distinct (map cr_id (credentials t'))" using assms keep by (simp add: t' credentials_ok_def comp_def)
    then have "distinct (map cr_id (filter (\<lambda>r. cr_user r = user) (credentials t')))" by (rule distinct_map_filter)
    then have d: "distinct (map cr_id ?rows)" by (simp add: routing_rows_def distinct_map)
    have "sorted (map cr_order ?rows)" by (simp add: routing_rows_def)
    moreover have "map cr_order ?rows = map int (map (\<lambda>i. index_of i ids) (map cr_id ?rows))" using order by simp
    ultimately have "sorted (map int (map (\<lambda>i. index_of i ids) (map cr_id ?rows)))" by (simp only:)
    then have "sorted (map (\<lambda>i. index_of i ids) (map cr_id ?rows))" by (simp add: sorted_map)
    then have "map cr_id ?rows = ids" by (rule sorted_by_index [OF ids(1) ids' d])
    then show ?thesis using Some ids own others keep by (simp add: t' comp_def)
  qed
qed

lemma reorder_is_exact_witness:
  "(case reorder 9 7 [2, 1] demo_credentials of None \<Rightarrow> False | Some t' \<Rightarrow> map cr_id (routing_rows 7 t') = [2, 1])"
proof -
  have "reorder 9 7 [2, 1] demo_credentials \<noteq> None" by (simp add: reorder_def demo_credentials_def Let_def insert_commute)
  then show ?thesis using reorder_is_exact [OF demo_credentials_ok, where now = 9 and user = 7 and ids = "[2, 1]"] by (auto split: option.splits)
qed

text \<open>
  A credential that is connected after a reorder does not come last: its place is 0, and it is
  tried second, before all the user ordered from the second on.
\<close>

lemma new_credentials_come_second:
  "map cr_id (routing_rows 7 (snd (create_credential demo_cipher 9 7 (lit ''x'') (lit ''m'') (lit ''u'') (lit ''k'')
     None demo_credentials))) = [1, 4, 2]"
  by (simp add: create_credential_def demo_credentials_def routing_rows_def Let_def dec_def dec_nat.simps lit_def)

end
