(* ===== verification/Spec2Isabelle.thy ===== *)
theory Spec2Isabelle
  imports Router AnthropicStream SessionStore Staging ComputerInput FileTools OAuthStore AgentRegistry Todos Approvals AgentTurn Waiter AgentTunnel Runner Chat ResponsesStream Devices Credentials
begin

text \<open>
  A verification library for the gateway \<open>invincible\<close>: a server that takes chat requests in three
  protocols, answers them through a list of upstream model providers, keeps the conversations, lets
  models call tools on the server or on a user's paired machine under approvals, and manages
  accounts, keys and grants. All paths below are under \<open>src/invincible/\<close>.

  \<^bold>\<open>How the parts interact.\<close> A request enters through a protocol adapter, which translates it to the
  internal message model. The router asks the selection for the order of the candidates, sends each
  candidate the history that the send-time pipeline makes of it, and goes on to the next candidate
  when one fails, as the health tracker and the settings say. What was said is appended to the
  session store. The agent turn of the dashboard drives the same router in rounds; the tool calls of
  a reply go through policy, denylists and staging to the server's own executor or, over the agent
  registry and the tunnels, to the user's machine. Accounts, device codes, API keys and OAuth grants
  decide who may do this.

  \<^bold>\<open>Data.\<close> Python strings are lists of code points (\<open>ustr\<close>), JSON values and dictionaries are \<open>json\<close> and
  \<open>pydict\<close> (an association list in insertion order, as in Python), Python integers are \<open>int\<close>, times are
  integers, addresses and hash words are machine words. A database table is a list of rows in the
  order of insertion; one transaction is one function. Where two requests can interleave, the
  handler is split at its awaits and the steps form an inductive relation; everything else is a
  function. A raise, a refusal or an error reply is a constructor of a result type. Digests, tokens,
  uuids, clocks, the network, the file system, the environment and cryptography are arguments.

  \<^bold>\<open>Theories and sources.\<close>

  \<^item> Ground: \<open>Prelude\<close> (strings, JSON, \<open>json.dumps\<close>, sorting, decimal numbers, simplification
    collections), \<open>Settings\<close> (\<open>core/settings.py\<close>, \<open>override_flag\<close> and \<open>override_int\<close>), \<open>Turns\<close> and
    \<open>Trimming\<close> (\<open>core/trimming.py\<close>), \<open>Tickets\<close> (the interface of single-use tokens).

  \<^item> Send-time pipeline: \<open>Vision\<close>, \<open>Compression\<close>, \<open>ToolCompression\<close>, \<open>Relay\<close> (the modules of
    the same names), \<open>Pipeline\<close> (their composition in \<open>Router._iter_attempts\<close>), \<open>Pairing\<close>
    (\<open>compat/common.py\<close>).

  \<^item> Routing: \<open>Health\<close> (\<open>core/provider_health.py\<close>), \<open>Selection\<close> (\<open>core/selection.py\<close>), \<open>Attempt\<close> and
    \<open>Router\<close> (\<open>core/router.py\<close>), \<open>Credentials\<close> (\<open>core/credential_store.py\<close>, \<open>core/user_settings_store.py\<close>,
    \<open>core/provider_catalog.py\<close>, \<open>endpoints/byok.py\<close>), \<open>UrlSafety\<close> (\<open>core/url_safety.py\<close>).

  \<^item> Protocols: \<open>AnthropicCompat\<close>, \<open>AnthropicStream\<close> (\<open>compat/anthropic.py\<close>), \<open>ResponsesCompat\<close>,
    \<open>ResponsesStream\<close> (\<open>compat/responses.py\<close>), \<open>Chat\<close> (\<open>core/chat_service.py\<close>, \<open>core/context_builder.py\<close>).

  \<^item> State: \<open>SessionStore\<close> (\<open>core/session_store.py\<close>), \<open>Continuity\<close> (\<open>core/continuity.py\<close>), \<open>Todos\<close>
    (\<open>core/todos.py\<close>).

  \<^item> Tools: \<open>ComputerArgs\<close>, \<open>ComputerInput\<close>, \<open>FileTools\<close>, \<open>SearchTools\<close>, \<open>Denylist\<close>, \<open>Staging\<close>
    (\<open>core/tool_executor.py\<close>), \<open>Tools\<close> (\<open>core/harness_tools.py\<close>, \<open>core/harness_router.py\<close>), \<open>Dispatch\<close>
    (\<open>core/tool_dispatch.py\<close>, \<open>core/harness_policy.py\<close>), \<open>Approvals\<close> (\<open>core/harness_approvals.py\<close>),
    \<open>Waiter\<close>, \<open>Cards\<close>, \<open>AgentTurn\<close> (\<open>core/webchat_agent.py\<close>), \<open>SubAgents\<close> (\<open>core/harness_explore.py\<close>,
    \<open>core/harness_fanout.py\<close>).

  \<^item> Machines: \<open>AgentRegistry\<close> (\<open>core/agent_registry.py\<close>), \<open>Tunnel\<close> (\<open>core/harness_tunnel.py\<close>),
    \<open>AgentTunnel\<close> (\<open>endpoints/tunnel.py\<close>, the tunnels of \<open>agent/runner.py\<close>), \<open>Runner\<close>
    (\<open>agent/sandbox.py\<close>, the jobs and loops of \<open>agent/runner.py\<close>).

  \<^item> People: \<open>Accounts\<close> (\<open>core/accounts.py\<close>, \<open>endpoints/accounts.py\<close>), \<open>Devices\<close> (\<open>core/accounts.py\<close>,
    \<open>core/identity.py\<close>), \<open>OAuthStore\<close> (\<open>core/oauth_store.py\<close>).

  \<^bold>\<open>Interfaces.\<close> Locale \<open>ticket_box\<close> is what a store of single-use tokens promises; the staged actions,
  the parked approvals, the authorization codes and the jobs of machines are its instances, and the
  run lemmas of these components come from it. Locale \<open>context_stage\<close> is what a step of the send-time
  pipeline promises (no result without its call, whole turns, the newest ones); \<open>context_stages\<close> composes
  two of them; every stage and the whole pipeline are interpretations. Locale \<open>health_gate\<close> is what the
  router needs of the health tracker.

  \<^bold>\<open>What the lemmas show.\<close> Each theory states the invariant of its state and that every operation keeps
  it, what each operation returns on every branch, and then its property: by induction over the
  data, over the function's own recursion, or over the runs of its step relation. The properties of
  \<open>Pipeline\<close>, \<open>Router\<close>, \<open>Dispatch\<close>, \<open>AgentTurn\<close> and \<open>Credentials\<close> rest on the facts of the components
  below them. Lemmas that record where the code does not do what its comments say stand beside the
  operation they are about.

  \<^bold>\<open>Bounds and fuel.\<close> The loops over a stream, a list or a count are structural. A turn of the agent is
  a \<open>partial_function\<close>: \<open>None\<close> is a turn that never ends, and termination is proved for a provider that
  answers in text when it is offered no tools. The sub-agents have the code's own step limits as
  their recursion. The form of a saved chain is read with as much fuel as it has fields, one more
  than can be used. Floating-point numbers of the relay threshold and the scaling of coordinates are
  rounded as IEEE doubles (\<open>fl\<close>).

  \<^bold>\<open>Not modelled.\<close> The command line (\<open>cli.py\<close>), the drawing of the overlay (\<open>agent/overlay.py\<close>), the
  dashboard and its pages (\<open>endpoints/dashboard.py\<close>, \<open>core/markdown.py\<close>), speech (\<open>core/voice.py\<close>), the
  schema and its migrations (\<open>core/db.py\<close>) and the start of the application (\<open>main.py\<close>): output, process
  control and declarations. The HTTP clients, git, ripgrep and the operating system's input queue are
  arguments. Audit and usage rows are left out, which nothing else reads back. The HTTP handlers are
  modelled where they decide something (accounts, keys, credentials, routing, tunnels); the others
  (\<open>endpoints/mcp.py\<close>, \<open>endpoints/oauth.py\<close> and the chat endpoints) parse a request and call an operation of
  the stores. The memory and the web research (\<open>core/memory.py\<close>, \<open>core/web_research.py\<close>), which rest on
  full-text search and on pages fetched, are not modelled.
\<close>

end
